(* ===== verification/Prelude.thy ===== *)
theory Prelude
  imports Main "HOL-Library.Word" "HOL-Library.Code_Target_Nat"
begin

text \<open>
  Shared vocabulary of the development: the machine integer types, the two ways the code
  threads a mutable object through calls that can fail (\<open>seq_ok\<close> for a call that always
  returns, \<open>and_then\<close> for one that may not return within its fuel), and the generic facts on words and lists that the components use.
\<close>

unbundle bit_operations_syntax

type_synonym byte = "8 word"
type_synonym u32 = "32 word"
type_synonym u64 = "64 word"

named_theorems stream_simps \<open>behaviour of the stream primitives\<close>
named_theorems frame_simps \<open>what an operation leaves unchanged\<close>

section \<open>Calls that report failure as a Boolean\<close>

text \<open>
  The C idiom \<^verbatim>\<open>if (!f(stream, ...)) return false; ...\<close>: run the rest only on success and keep
  the state that the failed call left behind.
\<close>

definition seq_ok :: "bool \<times> 's \<Rightarrow> ('s \<Rightarrow> bool \<times> 's) \<Rightarrow> bool \<times> 's" where
  "seq_ok r k = (if fst r then k (snd r) else (False, snd r))"

definition and_then :: "(bool \<times> 's) option \<Rightarrow> ('s \<Rightarrow> (bool \<times> 's) option) \<Rightarrow> (bool \<times> 's) option" where
  "and_then r k = (case r of None \<Rightarrow> None
     | Some (b, s) \<Rightarrow> if b then k s else Some (False, s))"

lemma seq_ok_simps [simp]:
  "seq_ok (True, s) k = k s"
  "seq_ok (False, s) k = (False, s)"
  by (simp_all add: seq_ok_def)

lemma seq_ok_True_iff: "seq_ok r k = (True, t) \<longleftrightarrow> (\<exists>s. r = (True, s) \<and> k s = (True, t))"
  by (cases r) (auto simp: seq_ok_def)

lemma and_then_simps [simp]:
  "and_then None k = None"
  "and_then (Some (True, s)) k = k s"
  "and_then (Some (False, s)) k = Some (False, s)"
  by (simp_all add: and_then_def)

lemma and_then_True_iff:
  "and_then r k = Some (True, t) \<longleftrightarrow> (\<exists>s. r = Some (True, s) \<and> k s = Some (True, t))"
  by (auto simp: and_then_def split: option.splits prod.splits if_splits)

lemma and_then_Some_iff:
  "and_then r k = Some (b, t) \<longleftrightarrow>
     (\<exists>s. r = Some (True, s) \<and> k s = Some (b, t)) \<or> (r = Some (False, t) \<and> \<not> b)"
  by (auto simp: and_then_def split: option.splits prod.splits if_splits)

lemma and_then_cong [fundef_cong]:
  "r = r' \<Longrightarrow> (\<And>s. r' = Some (True, s) \<Longrightarrow> k s = k' s) \<Longrightarrow> and_then r k = and_then r' k'"
  by (auto simp: and_then_def split: option.splits prod.splits)

section \<open>Words\<close>

lemma unat_lt: "unat (w :: 'a::len word) < 2 ^ LENGTH('a)"
  by (rule unsigned_less)

lemma unat_byte_less: "unat (b :: byte) < 256"
  using unat_lt [of b] by simp

lemma unat_u32_less: "unat (w :: u32) < 4294967296"
  using unat_lt [of w] by simp

lemma unat_u32_less_64: "unat (w :: u32) < 2 ^ 64"
  using unat_u32_less [of w] by simp

lemma unat_u64_less: "unat (w :: u64) < 18446744073709551616"
  using unat_lt [of w] by simp

lemma unat_ucast_widen:
  fixes w :: "'a::len word"
  assumes "LENGTH('a) \<le> LENGTH('b::len)"
  shows "unat (ucast w :: 'b word) = unat w"
proof -
  have "unat w < 2 ^ LENGTH('b)"
    using unat_lt [of w] assms by (meson less_le_trans one_le_numeral power_increasing)
  then show ?thesis by (simp add: unsigned_ucast_eq take_bit_nat_eq_self)
qed

lemma unat_drop_bit: "unat (drop_bit n (w :: 'a::len word)) = unat w div 2 ^ n"
  by (subst unsigned_drop_bit_eq) (simp add: drop_bit_eq_div take_bit_nat_eq_self unat_lt)

lemma unat_and_mask: "unat (w AND mask n) = unat w mod 2 ^ n"
  for w :: "'a::len word"
  by (simp only: take_bit_eq_mask [symmetric] unsigned_take_bit_eq) (simp add: take_bit_eq_mod)

lemma or_eq_add_low:
  fixes r x :: "'a::len word"
  assumes "unat r < 2 ^ n"
  shows "r OR push_bit n x = r + push_bit n x"
proof -
  have "take_bit n r = r"
  proof (rule unsigned_word_eqI)
    show "unat (take_bit n r) = unat r"
      using assms by (simp add: unsigned_take_bit_eq take_bit_nat_eq_self)
  qed
  then have "\<not> bit r k \<or> \<not> bit (push_bit n x) k" for k
    by (metis bit_push_bit_iff bit_take_bit_iff not_less)
  then show ?thesis by (simp add: disjunctive_add)
qed

lemma unat_ucast_u8_u64 [simp]: "unat (ucast (b :: byte) :: u64) = unat b"
  by (rule unat_ucast_widen) simp

lemma unat_ucast_u32_u64 [simp]: "unat (ucast (b :: u32) :: u64) = unat b"
  by (rule unat_ucast_widen) simp

lemma unat_ucast_u8_u32 [simp]: "unat (ucast (b :: byte) :: u32) = unat b"
  by (rule unat_ucast_widen) simp

end
