(* ===== verification/Bytes.thy ===== *)
theory Bytes
  imports Prelude
begin

text \<open>
  Byte encodings that the protocol library and the database share: little-endian numbers, their
  assembly by shifts, and the base-128 notation.
\<close>

section \<open>Little-endian byte lists\<close>

text \<open>\<open>le_bytes n v\<close> is the \<open>n\<close> lowest bytes of \<open>v\<close>, least significant first.\<close>

fun le_bytes :: "nat \<Rightarrow> nat \<Rightarrow> byte list" where
  "le_bytes 0 v = []"
| "le_bytes (Suc n) v = of_nat v # le_bytes n (v div 256)"

fun le_val :: "byte list \<Rightarrow> nat" where
  "le_val [] = 0"
| "le_val (b # bs) = unat b + 256 * le_val bs"

lemma length_le_bytes [simp]: "length (le_bytes n v) = n"
  by (induction n arbitrary: v) auto

lemma le_val_less: "le_val bs < 256 ^ length bs"
proof (induction bs)
  case (Cons b bs)
  have "unat b + 256 * le_val bs < 256 + 256 * le_val bs" using unat_byte_less [of b] by simp
  also have "\<dots> \<le> 256 * 256 ^ length bs" using Cons.IH by simp
  finally show ?case by simp
qed simp

lemma le_val_le_bytes: "le_val (le_bytes n v) = v mod 256 ^ n"
proof (induction n arbitrary: v)
  case (Suc n)
  have "le_val (le_bytes (Suc n) v) = v mod 256 + 256 * (v div 256 mod 256 ^ n)"
    by (simp add: Suc.IH unat_of_nat)
  also have "\<dots> = v mod (256 * 256 ^ n)"
    by (simp add: mod_mult2_eq)
  finally show ?case by simp
qed simp

lemma le_bytes_le_val: "length bs = n \<Longrightarrow> le_bytes n (le_val bs) = bs"
proof (induction bs arbitrary: n)
  case (Cons b bs)
  then obtain m where n: "n = Suc m" "length bs = m" by auto
  have *: "(unat b + 256 * le_val bs) div 256 = le_val bs" using unat_byte_less [of b] by simp
  have "(of_nat (unat b + 256 * le_val bs) :: byte) = b"
  proof (rule unsigned_word_eqI)
    show "unat (of_nat (unat b + 256 * le_val bs) :: byte) = unat b"
      using unat_byte_less [of b] by (simp add: unsigned_of_nat take_bit_eq_mod del: of_nat_add)
  qed
  then show ?case using Cons.IH [OF n(2)] n by (simp only: le_bytes.simps le_val.simps * simp_thms)
qed simp

section \<open>Numbers assembled from bytes\<close>

lemma unat_or_push:
  fixes r x :: "'a::len word"
  assumes "unat r < 2 ^ n" "unat r + 2 ^ n * unat x < 2 ^ LENGTH('a)"
  shows "unat (r OR push_bit n x) = unat r + 2 ^ n * unat x"
proof -
  have "unat (push_bit n x) = 2 ^ n * unat x"
    unfolding unsigned_push_bit_eq using assms(2)
    by (simp add: push_bit_eq_mult take_bit_nat_eq_self mult.commute)
  then show ?thesis using assms
    by (simp add: or_eq_add_low [OF assms(1)] unat_word_ariths)
qed

lemma ucast_and_FF: "ucast (x AND 0xFF) = (of_nat (unat x) :: byte)" for x :: "'a::len word"
proof -
  have "unat (x AND 0xFF) = unat x mod 256"
    using unat_and_mask [of x 8] by (simp add: mask_eq_exp_minus_1)
  then show ?thesis by (simp add: word_unat_eq_iff unsigned_ucast_eq unsigned_of_nat take_bit_eq_mod)
qed

lemma le_bytes_4:
  "le_bytes 4 v = [of_nat v, of_nat (v div 256), of_nat (v div 65536), of_nat (v div 16777216)]"
proof -
  have "(4::nat) = Suc (Suc (Suc (Suc 0)))" by simp
  then show ?thesis by (simp only: le_bytes.simps div_mult2_eq [symmetric]) simp
qed

lemma le_bytes_8:
  "le_bytes 8 v = le_bytes 4 v @ le_bytes 4 (v div 4294967296)"
proof -
  have "(8::nat) = Suc (Suc (Suc (Suc 4)))" by simp
  then have "le_bytes 8 v = [of_nat v, of_nat (v div 256), of_nat (v div 256 div 256), of_nat (v div 256 div 256 div 256)] @ le_bytes 4 (v div 256 div 256 div 256 div 256)"
    by (simp only: le_bytes.simps append.simps)
  then show ?thesis by (simp only: le_bytes_4 div_mult2_eq [symmetric]) simp
qed

lemma or_byte: "unat r < 2 ^ n \<Longrightarrow> n + 8 \<le> LENGTH('a) \<Longrightarrow> unat (r OR push_bit n (ucast b)) = unat r + 2 ^ n * unat b"
  for r :: "'a::len word" and b :: byte
proof -
  assume r: "unat r < 2 ^ n" and n: "n + 8 \<le> LENGTH('a)"
  then have b: "unat (ucast b :: 'a word) = unat b" by (simp add: unat_ucast_widen)
  have "2 ^ n * unat b \<le> 2 ^ n * (255::nat)" using unat_byte_less [of b] by (intro mult_le_mono2) simp
  with r have "unat r + 2 ^ n * unat b < 2 ^ n + 2 ^ n * 255" by linarith
  then have "unat r + 2 ^ n * unat b < 2 ^ (n + 8)" by (simp add: power_add)
  also have "(2::nat) ^ (n + 8) \<le> 2 ^ LENGTH('a)" using n by (intro power_increasing) simp_all
  finally show ?thesis using r by (simp add: unat_or_push b)
qed


lemma le_val_append: "le_val (as @ bs) = le_val as + 256 ^ length as * le_val bs"
  by (induction as) (simp_all add: algebra_simps)

lemma or_next_byte:
  assumes "unat r = le_val as" "n = 8 * length as" "n + 8 \<le> LENGTH('a)"
  shows "unat (r OR push_bit n (ucast b) :: 'a::len word) = le_val (as @ [b])"
  using assms le_val_less [of as] by (subst or_byte) (simp_all add: le_val_append power_mult)

lemma or_bytes_4:
  "unat (ucast b0 OR push_bit 8 (ucast b1) OR push_bit 16 (ucast b2) OR push_bit 24 (ucast b3) :: 'a::len word)
     = le_val [b0, b1, b2, b3]" if "32 \<le> LENGTH('a)"
proof -
  have s0: "unat (ucast b0 :: 'a word) = le_val [b0]" using that by (simp add: unat_ucast_widen)
  note s1 = or_next_byte [OF s0, of 8 b1]
  note s2 = or_next_byte [OF s1, of 16 b2]
  note s3 = or_next_byte [OF s2, of 24 b3]
  show ?thesis by (rule s3 [unfolded append.simps or.assoc]) (use that in simp_all)
qed

lemma or_bytes_8:
  "unat (ucast b0 OR push_bit 8 (ucast b1) OR push_bit 16 (ucast b2) OR push_bit 24 (ucast b3)
      OR push_bit 32 (ucast b4) OR push_bit 40 (ucast b5) OR push_bit 48 (ucast b6) OR push_bit 56 (ucast b7) :: u64)
     = le_val [b0, b1, b2, b3, b4, b5, b6, b7]"
proof -
  have s3: "unat (ucast b0 OR push_bit 8 (ucast b1) OR push_bit 16 (ucast b2) OR push_bit 24 (ucast b3) :: u64)
     = le_val [b0, b1, b2, b3]" by (rule or_bytes_4) simp
  note s4 = or_next_byte [OF s3, of 32 b4]
  note s5 = or_next_byte [OF s4, of 40 b5]
  note s6 = or_next_byte [OF s5, of 48 b6]
  note s7 = or_next_byte [OF s6, of 56 b7]
  show ?thesis by (rule s7 [unfolded append.simps or.assoc]) simp_all
qed

lemma le_list_4: "\<exists>b0 b1 b2 b3. le_bytes 4 n = [b0, b1, b2, b3]"
  by (simp add: le_bytes_4)

lemma le_list_8: "\<exists>b0 b1 b2 b3 b4 b5 b6 b7. le_bytes 8 n = [b0, b1, b2, b3, b4, b5, b6, b7]"
  by (simp add: le_bytes_4 le_bytes_8)

section \<open>Base-128 numbers\<close>

text \<open>Seven bits per byte, least significant first; bit 7 says that more bytes follow.\<close>

fun varint_bytes :: "nat \<Rightarrow> byte list" where
  "varint_bytes n = (if n < 128 then [of_nat n] else of_nat (n mod 128 + 128) # varint_bytes (n div 128))"

declare varint_bytes.simps [simp del]

lemma unat_and_7F: "unat (x AND 0x7F) = unat x mod 128" for x :: "'a::len word"
  using unat_and_mask [of x 7] by (simp add: mask_eq_exp_minus_1)

lemma and_80_zero: "b AND 0x80 = 0 \<longleftrightarrow> unat b < 128" for b :: byte
proof -
  have "b AND 0x80 = 0 \<longleftrightarrow> unat b AND 2 ^ 7 = 0"
    by (simp add: word_unat_eq_iff unsigned_and_eq)
  also have "\<dots> \<longleftrightarrow> even (unat b div 128)"
    by (simp only: and_exp_eq_0_iff_not_bit) (simp add: bit_iff_odd)
  also have "\<dots> \<longleftrightarrow> unat b < 128"
  proof -
    have "unat b div 128 < 2" using unat_byte_less [of b] by (simp add: less_mult_imp_div_less)
    then have "unat b div 128 = 0 \<or> unat b div 128 = 1" by linarith
    then show ?thesis by (auto simp: div_eq_0_iff)
  qed
  finally show ?thesis .
qed

lemma unat_byte_of_nat: "n < 256 \<Longrightarrow> unat (of_nat n :: byte) = n"
  by (simp add: unsigned_of_nat take_bit_eq_mod)

lemma unat_u64_of_nat: "n < 2 ^ 64 \<Longrightarrow> unat (of_nat n :: u64) = n"
  by (simp add: unsigned_of_nat take_bit_eq_mod)

lemma byte_and_7F: "n < 128 \<Longrightarrow> of_nat (n + 128) AND 0x7F = (of_nat n :: byte)"
  by (simp add: word_unat_eq_iff unat_and_7F unat_byte_of_nat del: of_nat_add)

lemma length_varint_bytes: "n < 2 ^ (7 * k) \<Longrightarrow> 0 < k \<Longrightarrow> length (varint_bytes n) \<le> k"
proof (induction n arbitrary: k rule: varint_bytes.induct)
  case (1 n)
  show ?case
  proof (cases "n < 128")
    case True
    then show ?thesis using 1(3) by (simp add: varint_bytes.simps [of n])
  next
    case False
    with 1(2) have k: "k \<noteq> 1" by auto
    with 1(3) obtain m where m: "k = Suc m" "0 < m" by (cases k) auto
    have "n div 128 < 2 ^ (7 * m)" using 1(2) m by (simp add: power_add less_mult_imp_div_less)
    with 1(1) [OF False] m show ?thesis using False by (simp add: varint_bytes.simps [of n])
  qed
qed

end
