(* ===== verification/PbTypes.thy ===== *)
theory PbTypes
  imports Bytes
begin

text \<open>
  The data model of nanopb (\<^verbatim>\<open>pb.h\<close>), in the configuration the pods are built with
  (\<^verbatim>\<open>PB_FIELD_32BIT\<close>, \<^verbatim>\<open>PB_NO_PACKED_STRUCTS\<close>, \<^verbatim>\<open>PB_ENABLE_MALLOC\<close>, 64-bit pointers, little endian):
  the bit layout of a field's type, the field descriptor and the macros that fill one in, the
  structures a message can hold (byte arrays, callbacks, extensions) by their member offsets, and
  the memory they live in. Memory is a total map from integer addresses to bytes together with the
  live blocks of the heap; address 0 is NULL, and negative addresses hold the decoder's locals.
\<close>

section \<open>Memory\<close>

record mem =
  mbytes :: "int \<Rightarrow> byte"
  mheap :: "(int \<times> nat) list"   \<comment> \<open>live heap blocks: address and size\<close>

definition load :: "mem \<Rightarrow> int \<Rightarrow> nat \<Rightarrow> byte list" where
  "load m a n = map (\<lambda>i. mbytes m (a + int i)) [0..<n]"

definition store :: "mem \<Rightarrow> int \<Rightarrow> byte list \<Rightarrow> mem" where
  "store m a bs = m\<lparr>mbytes := (\<lambda>x. if a \<le> x \<and> x < a + int (length bs)
                                     then bs ! nat (x - a) else mbytes m x)\<rparr>"

definition load_u32 :: "mem \<Rightarrow> int \<Rightarrow> u32" where
  "load_u32 m a = of_nat (le_val (load m a 4))"

definition store_u32 :: "mem \<Rightarrow> int \<Rightarrow> u32 \<Rightarrow> mem" where
  "store_u32 m a v = store m a (le_bytes 4 (unat v))"

definition load_ptr :: "mem \<Rightarrow> int \<Rightarrow> int" where
  "load_ptr m a = int (le_val (load m a 8))"

definition store_ptr :: "mem \<Rightarrow> int \<Rightarrow> int \<Rightarrow> mem" where
  "store_ptr m a p = store m a (le_bytes 8 (nat p))"

definition load_bool :: "mem \<Rightarrow> int \<Rightarrow> bool" where
  "load_bool m a = (mbytes m a \<noteq> 0)"

definition store_bool :: "mem \<Rightarrow> int \<Rightarrow> bool \<Rightarrow> mem" where
  "store_bool m a b = store m a [if b then 1 else 0]"

lemma length_load [simp]: "length (load m a n) = n"
  by (simp add: load_def)

lemma nth_load: "i < n \<Longrightarrow> load m a n ! i = mbytes m (a + int i)"
  by (simp add: load_def)

lemma load_store_same [simp]: "length bs = n \<Longrightarrow> load (store m a bs) a n = bs"
  by (auto intro!: nth_equalityI simp: load_def store_def)

lemma load_store_other:
  "a + int (length bs) \<le> b \<or> b + int n \<le> a \<Longrightarrow> load (store m a bs) b n = load m b n"
  by (auto intro!: nth_equalityI simp: load_def store_def)

lemma mbytes_store [frame_simps]:
  "x < a \<or> a + int (length bs) \<le> x \<Longrightarrow> mbytes (store m a bs) x = mbytes m x"
  by (auto simp: store_def)

lemma mheap_store [simp]: "mheap (store m a bs) = mheap m"
  by (simp add: store_def)

lemma store_Nil [simp]: "store m a [] = m"
  by (cases m) (auto simp: store_def fun_eq_iff)

lemma load_u32_store_u32 [simp]: "load_u32 (store_u32 m a v) a = v"
  using unat_u32_less [of v]
  by (simp add: load_u32_def store_u32_def le_val_le_bytes)

lemma load_ptr_store_ptr [simp]:
  "0 \<le> p \<Longrightarrow> p < 2 ^ 64 \<Longrightarrow> load_ptr (store_ptr m a p) a = p"
  by (simp add: load_ptr_def store_ptr_def le_val_le_bytes nat_mod_distrib)

lemma load_ptr_nonneg [simp]: "0 \<le> load_ptr m a"
  by (simp add: load_ptr_def)

lemma load_bool_store_bool [simp]: "load_bool (store_bool m a b) a = b"
  by (simp add: load_bool_def store_bool_def store_def)

section \<open>Field types\<close>

abbreviation (input) PB_LTYPE_VARINT :: byte where "PB_LTYPE_VARINT \<equiv> 0x00"
abbreviation (input) PB_LTYPE_UVARINT :: byte where "PB_LTYPE_UVARINT \<equiv> 0x01"
abbreviation (input) PB_LTYPE_SVARINT :: byte where "PB_LTYPE_SVARINT \<equiv> 0x02"
abbreviation (input) PB_LTYPE_FIXED32 :: byte where "PB_LTYPE_FIXED32 \<equiv> 0x03"
abbreviation (input) PB_LTYPE_FIXED64 :: byte where "PB_LTYPE_FIXED64 \<equiv> 0x04"
abbreviation (input) PB_LTYPE_LAST_PACKABLE :: byte where "PB_LTYPE_LAST_PACKABLE \<equiv> 0x04"
abbreviation (input) PB_LTYPE_BYTES :: byte where "PB_LTYPE_BYTES \<equiv> 0x05"
abbreviation (input) PB_LTYPE_STRING :: byte where "PB_LTYPE_STRING \<equiv> 0x06"
abbreviation (input) PB_LTYPE_SUBMESSAGE :: byte where "PB_LTYPE_SUBMESSAGE \<equiv> 0x07"
abbreviation (input) PB_LTYPE_EXTENSION :: byte where "PB_LTYPE_EXTENSION \<equiv> 0x08"
abbreviation (input) PB_LTYPE_FIXED_LENGTH_BYTES :: byte where "PB_LTYPE_FIXED_LENGTH_BYTES \<equiv> 0x09"
abbreviation (input) PB_LTYPE_MASK :: byte where "PB_LTYPE_MASK \<equiv> 0x0F"

abbreviation (input) PB_HTYPE_REQUIRED :: byte where "PB_HTYPE_REQUIRED \<equiv> 0x00"
abbreviation (input) PB_HTYPE_OPTIONAL :: byte where "PB_HTYPE_OPTIONAL \<equiv> 0x10"
abbreviation (input) PB_HTYPE_REPEATED :: byte where "PB_HTYPE_REPEATED \<equiv> 0x20"
abbreviation (input) PB_HTYPE_ONEOF :: byte where "PB_HTYPE_ONEOF \<equiv> 0x30"
abbreviation (input) PB_HTYPE_MASK :: byte where "PB_HTYPE_MASK \<equiv> 0x30"

abbreviation (input) PB_ATYPE_STATIC :: byte where "PB_ATYPE_STATIC \<equiv> 0x00"
abbreviation (input) PB_ATYPE_POINTER :: byte where "PB_ATYPE_POINTER \<equiv> 0x80"
abbreviation (input) PB_ATYPE_CALLBACK :: byte where "PB_ATYPE_CALLBACK \<equiv> 0x40"
abbreviation (input) PB_ATYPE_MASK :: byte where "PB_ATYPE_MASK \<equiv> 0xC0"

definition PB_ATYPE :: "byte \<Rightarrow> byte" where "PB_ATYPE x = x AND PB_ATYPE_MASK"
definition PB_HTYPE :: "byte \<Rightarrow> byte" where "PB_HTYPE x = x AND PB_HTYPE_MASK"
definition PB_LTYPE :: "byte \<Rightarrow> byte" where "PB_LTYPE x = x AND PB_LTYPE_MASK"

abbreviation (input) PB_SIZE_MAX :: u32 where "PB_SIZE_MAX \<equiv> 0xFFFFFFFF"
abbreviation (input) PB_MAX_REQUIRED_FIELDS :: nat where "PB_MAX_REQUIRED_FIELDS \<equiv> 64"

section \<open>Field descriptors\<close>

record pb_field =
  fd_tag :: u32
  fd_type :: byte
  fd_data_offset :: u32
  fd_size_offset :: "32 word"   \<comment> \<open>\<^verbatim>\<open>pb_ssize_t\<close>: read as two's complement\<close>
  fd_data_size :: u32
  fd_array_size :: u32
  fd_ptr :: int                 \<comment> \<open>descriptors of the submessage, or the default value\<close>

definition PB_LAST_FIELD :: pb_field where
  "PB_LAST_FIELD = \<lparr>fd_tag = 0, fd_type = 0, fd_data_offset = 0, fd_size_offset = 0,
     fd_data_size = 0, fd_array_size = 0, fd_ptr = 0\<rparr>"

text \<open>
  A \<^verbatim>\<open>pb_field_t\<close> array is the list of its entries before the terminator; reading at or past the end
  of the list yields the terminator \<^verbatim>\<open>PB_LAST_FIELD\<close>.
\<close>

definition field_at :: "pb_field list \<Rightarrow> nat \<Rightarrow> pb_field" where
  "field_at fs i = (if i < length fs then fs ! i else PB_LAST_FIELD)"

definition wf_fields :: "pb_field list \<Rightarrow> bool" where
  "wf_fields fs \<longleftrightarrow> (\<forall>f \<in> set fs. fd_tag f \<noteq> 0)"


section \<open>Structures found in a message\<close>

text \<open>Member offsets of the structures of \<^verbatim>\<open>pb.h\<close> with 8-byte pointers.\<close>

abbreviation (input) bytes_array_size :: "int \<Rightarrow> int" where "bytes_array_size p \<equiv> p"
abbreviation (input) bytes_array_bytes :: "int \<Rightarrow> int" where "bytes_array_bytes p \<equiv> p + 4"
abbreviation (input) callback_funcs :: "int \<Rightarrow> int" where "callback_funcs p \<equiv> p"
abbreviation (input) callback_arg :: "int \<Rightarrow> int" where "callback_arg p \<equiv> p + 8"
abbreviation (input) ext_type_decode :: "int \<Rightarrow> int" where "ext_type_decode p \<equiv> p"
abbreviation (input) ext_type_encode :: "int \<Rightarrow> int" where "ext_type_encode p \<equiv> p + 8"
abbreviation (input) ext_type_arg :: "int \<Rightarrow> int" where "ext_type_arg p \<equiv> p + 16"
abbreviation (input) ext_type :: "int \<Rightarrow> int" where "ext_type p \<equiv> p"
abbreviation (input) ext_dest :: "int \<Rightarrow> int" where "ext_dest p \<equiv> p + 8"
abbreviation (input) ext_next :: "int \<Rightarrow> int" where "ext_next p \<equiv> p + 16"
abbreviation (input) ext_found :: "int \<Rightarrow> int" where "ext_found p \<equiv> p + 24"

definition PB_BYTES_ARRAY_T_ALLOCSIZE :: "u64 \<Rightarrow> u64" where
  "PB_BYTES_ARRAY_T_ALLOCSIZE n = n + 4"

text \<open>A wire type is any 3-bit value; the enumeration names four of them.\<close>

abbreviation (input) PB_WT_VARINT :: u32 where "PB_WT_VARINT \<equiv> 0"
abbreviation (input) PB_WT_64BIT :: u32 where "PB_WT_64BIT \<equiv> 1"
abbreviation (input) PB_WT_STRING :: u32 where "PB_WT_STRING \<equiv> 2"
abbreviation (input) PB_WT_32BIT :: u32 where "PB_WT_32BIT \<equiv> 5"

section \<open>The descriptor macros\<close>

text \<open>
  The generated descriptor tables are written with the macros of \<^verbatim>\<open>pb.h\<close>. A structure member is its
  offset, its size and the size of one element of it (\<^verbatim>\<open>m[0]\<close>).
\<close>

record member =
  offsetof :: nat
  pb_membersize :: nat
  pb_elemsize :: nat

definition pb_arraysize :: "member \<Rightarrow> nat" where
  "pb_arraysize m = pb_membersize m div pb_elemsize m"

definition pb_delta :: "member \<Rightarrow> member \<Rightarrow> int" where
  "pb_delta m1 m2 = int (offsetof m1) - int (offsetof m2)"

definition PB_DATAOFFSET_FIRST :: "member \<Rightarrow> member \<Rightarrow> u32" where
  "PB_DATAOFFSET_FIRST m1 m2 = of_nat (offsetof m1)"

definition PB_DATAOFFSET_OTHER :: "member \<Rightarrow> member \<Rightarrow> u32" where
  "PB_DATAOFFSET_OTHER m1 m2 =
     word_of_int (int (offsetof m1) - int (offsetof m2) - int (pb_membersize m2))"

definition PB_DATAOFFSET_UNION :: "member \<Rightarrow> member \<Rightarrow> u32" where
  "PB_DATAOFFSET_UNION m1 m2 = PB_SIZE_MAX"

definition PB_REQUIRED_STATIC :: "u32 \<Rightarrow> member \<Rightarrow> u32 \<Rightarrow> byte \<Rightarrow> int \<Rightarrow> pb_field" where
  "PB_REQUIRED_STATIC tag m fd ltype ptr =
     \<lparr>fd_tag = tag, fd_type = PB_ATYPE_STATIC OR PB_HTYPE_REQUIRED OR ltype, fd_data_offset = fd,
      fd_size_offset = 0, fd_data_size = of_nat (pb_membersize m), fd_array_size = 0, fd_ptr = ptr\<rparr>"

text \<open>\<open>has\<close> is the member \<^verbatim>\<open>has_m\<close>, \<open>count\<close> the member \<^verbatim>\<open>m_count\<close>.\<close>

definition PB_OPTIONAL_STATIC :: "u32 \<Rightarrow> member \<Rightarrow> member \<Rightarrow> u32 \<Rightarrow> byte \<Rightarrow> int \<Rightarrow> pb_field" where
  "PB_OPTIONAL_STATIC tag has m fd ltype ptr =
     \<lparr>fd_tag = tag, fd_type = PB_ATYPE_STATIC OR PB_HTYPE_OPTIONAL OR ltype, fd_data_offset = fd,
      fd_size_offset = word_of_int (pb_delta has m), fd_data_size = of_nat (pb_membersize m),
      fd_array_size = 0, fd_ptr = ptr\<rparr>"

definition PB_SINGULAR_STATIC :: "u32 \<Rightarrow> member \<Rightarrow> u32 \<Rightarrow> byte \<Rightarrow> int \<Rightarrow> pb_field" where
  "PB_SINGULAR_STATIC tag m fd ltype ptr =
     \<lparr>fd_tag = tag, fd_type = PB_ATYPE_STATIC OR PB_HTYPE_OPTIONAL OR ltype, fd_data_offset = fd,
      fd_size_offset = 0, fd_data_size = of_nat (pb_membersize m), fd_array_size = 0, fd_ptr = ptr\<rparr>"

definition PB_REPEATED_STATIC :: "u32 \<Rightarrow> member \<Rightarrow> member \<Rightarrow> u32 \<Rightarrow> byte \<Rightarrow> int \<Rightarrow> pb_field" where
  "PB_REPEATED_STATIC tag count m fd ltype ptr =
     \<lparr>fd_tag = tag, fd_type = PB_ATYPE_STATIC OR PB_HTYPE_REPEATED OR ltype, fd_data_offset = fd,
      fd_size_offset = word_of_int (pb_delta count m), fd_data_size = of_nat (pb_elemsize m),
      fd_array_size = of_nat (pb_arraysize m), fd_ptr = ptr\<rparr>"

definition PB_REQUIRED_POINTER :: "u32 \<Rightarrow> member \<Rightarrow> u32 \<Rightarrow> byte \<Rightarrow> int \<Rightarrow> pb_field" where
  "PB_REQUIRED_POINTER tag m fd ltype ptr =
     \<lparr>fd_tag = tag, fd_type = PB_ATYPE_POINTER OR PB_HTYPE_REQUIRED OR ltype, fd_data_offset = fd,
      fd_size_offset = 0, fd_data_size = of_nat (pb_elemsize m), fd_array_size = 0, fd_ptr = ptr\<rparr>"

text \<open>\<^verbatim>\<open>PB_SINGULAR_POINTER\<close> has the same body.\<close>

definition PB_OPTIONAL_POINTER :: "u32 \<Rightarrow> member \<Rightarrow> u32 \<Rightarrow> byte \<Rightarrow> int \<Rightarrow> pb_field" where
  "PB_OPTIONAL_POINTER tag m fd ltype ptr =
     \<lparr>fd_tag = tag, fd_type = PB_ATYPE_POINTER OR PB_HTYPE_OPTIONAL OR ltype, fd_data_offset = fd,
      fd_size_offset = 0, fd_data_size = of_nat (pb_elemsize m), fd_array_size = 0, fd_ptr = ptr\<rparr>"

definition PB_REPEATED_POINTER :: "u32 \<Rightarrow> member \<Rightarrow> member \<Rightarrow> u32 \<Rightarrow> byte \<Rightarrow> int \<Rightarrow> pb_field" where
  "PB_REPEATED_POINTER tag count m fd ltype ptr =
     \<lparr>fd_tag = tag, fd_type = PB_ATYPE_POINTER OR PB_HTYPE_REPEATED OR ltype, fd_data_offset = fd,
      fd_size_offset = word_of_int (pb_delta count m), fd_data_size = of_nat (pb_elemsize m),
      fd_array_size = 0, fd_ptr = ptr\<rparr>"

text \<open>The four callback macros differ in the repetition rule only.\<close>

definition PB_CALLBACK :: "byte \<Rightarrow> u32 \<Rightarrow> member \<Rightarrow> u32 \<Rightarrow> byte \<Rightarrow> int \<Rightarrow> pb_field" where
  "PB_CALLBACK htype tag m fd ltype ptr =
     \<lparr>fd_tag = tag, fd_type = PB_ATYPE_CALLBACK OR htype OR ltype, fd_data_offset = fd,
      fd_size_offset = 0, fd_data_size = of_nat (pb_membersize m), fd_array_size = 0, fd_ptr = ptr\<rparr>"

definition PB_OPTEXT_STATIC :: "u32 \<Rightarrow> member \<Rightarrow> u32 \<Rightarrow> byte \<Rightarrow> int \<Rightarrow> pb_field" where
  "PB_OPTEXT_STATIC tag m fd ltype ptr =
     \<lparr>fd_tag = tag, fd_type = PB_ATYPE_STATIC OR PB_HTYPE_REQUIRED OR ltype, fd_data_offset = 0,
      fd_size_offset = 0, fd_data_size = of_nat (pb_membersize m), fd_array_size = 0, fd_ptr = ptr\<rparr>"

definition PB_REPEATED_FIXED_COUNT :: "u32 \<Rightarrow> member \<Rightarrow> u32 \<Rightarrow> byte \<Rightarrow> int \<Rightarrow> pb_field" where
  "PB_REPEATED_FIXED_COUNT tag m fd ltype ptr =
     \<lparr>fd_tag = tag, fd_type = PB_ATYPE_STATIC OR PB_HTYPE_REPEATED OR ltype, fd_data_offset = fd,
      fd_size_offset = 0, fd_data_size = of_nat (pb_elemsize m),
      fd_array_size = of_nat (pb_arraysize m), fd_ptr = ptr\<rparr>"

text \<open>\<open>which\<close> is the member \<^verbatim>\<open>which_u\<close>; the anonymous variants have the same bodies.\<close>

definition PB_ONEOF_STATIC :: "u32 \<Rightarrow> member \<Rightarrow> member \<Rightarrow> u32 \<Rightarrow> byte \<Rightarrow> int \<Rightarrow> pb_field" where
  "PB_ONEOF_STATIC tag which m fd ltype ptr =
     \<lparr>fd_tag = tag, fd_type = PB_ATYPE_STATIC OR PB_HTYPE_ONEOF OR ltype, fd_data_offset = fd,
      fd_size_offset = word_of_int (pb_delta which m), fd_data_size = of_nat (pb_membersize m),
      fd_array_size = 0, fd_ptr = ptr\<rparr>"

definition PB_ONEOF_POINTER :: "u32 \<Rightarrow> member \<Rightarrow> member \<Rightarrow> u32 \<Rightarrow> byte \<Rightarrow> int \<Rightarrow> pb_field" where
  "PB_ONEOF_POINTER tag which m fd ltype ptr =
     \<lparr>fd_tag = tag, fd_type = PB_ATYPE_POINTER OR PB_HTYPE_ONEOF OR ltype, fd_data_offset = fd,
      fd_size_offset = word_of_int (pb_delta which m), fd_data_size = of_nat (pb_elemsize m),
      fd_array_size = 0, fd_ptr = ptr\<rparr>"

text \<open>Protobuf types and the \<^verbatim>\<open>PB_LTYPE_MAP_\<close> table.\<close>

datatype proto_type = BOOL | BYTES | DOUBLE | ENUM | UENUM | FIXED32 | FIXED64 | FLOAT | INT32
  | INT64 | MESSAGE | SFIXED32 | SFIXED64 | SINT32 | SINT64 | STRING | UINT32 | UINT64
  | EXTENSION | FIXED_LENGTH_BYTES

fun PB_LTYPE_MAP :: "proto_type \<Rightarrow> byte" where
  "PB_LTYPE_MAP BOOL = PB_LTYPE_VARINT"
| "PB_LTYPE_MAP BYTES = PB_LTYPE_BYTES"
| "PB_LTYPE_MAP DOUBLE = PB_LTYPE_FIXED64"
| "PB_LTYPE_MAP ENUM = PB_LTYPE_VARINT"
| "PB_LTYPE_MAP UENUM = PB_LTYPE_UVARINT"
| "PB_LTYPE_MAP FIXED32 = PB_LTYPE_FIXED32"
| "PB_LTYPE_MAP FIXED64 = PB_LTYPE_FIXED64"
| "PB_LTYPE_MAP FLOAT = PB_LTYPE_FIXED32"
| "PB_LTYPE_MAP INT32 = PB_LTYPE_VARINT"
| "PB_LTYPE_MAP INT64 = PB_LTYPE_VARINT"
| "PB_LTYPE_MAP MESSAGE = PB_LTYPE_SUBMESSAGE"
| "PB_LTYPE_MAP SFIXED32 = PB_LTYPE_FIXED32"
| "PB_LTYPE_MAP SFIXED64 = PB_LTYPE_FIXED64"
| "PB_LTYPE_MAP SINT32 = PB_LTYPE_SVARINT"
| "PB_LTYPE_MAP SINT64 = PB_LTYPE_SVARINT"
| "PB_LTYPE_MAP STRING = PB_LTYPE_STRING"
| "PB_LTYPE_MAP UINT32 = PB_LTYPE_UVARINT"
| "PB_LTYPE_MAP UINT64 = PB_LTYPE_UVARINT"
| "PB_LTYPE_MAP EXTENSION = PB_LTYPE_EXTENSION"
| "PB_LTYPE_MAP FIXED_LENGTH_BYTES = PB_LTYPE_FIXED_LENGTH_BYTES"

text \<open>The type byte of a descriptor gives back the three parts it was put together from.\<close>

lemma type_parts:
  assumes "a \<in> {PB_ATYPE_STATIC, PB_ATYPE_POINTER, PB_ATYPE_CALLBACK}"
    and "h \<in> {PB_HTYPE_REQUIRED, PB_HTYPE_OPTIONAL, PB_HTYPE_REPEATED, PB_HTYPE_ONEOF}"
  shows "PB_ATYPE (a OR h OR PB_LTYPE_MAP t) = a"
    and "PB_HTYPE (a OR h OR PB_LTYPE_MAP t) = h"
    and "PB_LTYPE (a OR h OR PB_LTYPE_MAP t) = PB_LTYPE_MAP t"
  using assms by (cases t; auto simp: PB_ATYPE_def PB_HTYPE_def PB_LTYPE_def)+

section \<open>Error messages\<close>

text \<open>\<^verbatim>\<open>PB_SET_ERROR\<close> keeps the first message set on a stream.\<close>

definition PB_SET_ERROR :: "string option \<Rightarrow> string \<Rightarrow> string option" where
  "PB_SET_ERROR errmsg msg = (case errmsg of None \<Rightarrow> Some msg | Some e \<Rightarrow> Some e)"

definition PB_GET_ERROR :: "string option \<Rightarrow> string" where
  "PB_GET_ERROR errmsg = (case errmsg of None \<Rightarrow> ''(none)'' | Some e \<Rightarrow> e)"

end
