(* ===== verification/PbIter.thy ===== *)
theory PbIter
  imports PbTypes
begin

text \<open>
  The field iterator of nanopb (\<^verbatim>\<open>pb_common.c\<close>): a position in a descriptor array with the addresses
  of the field's data and size members, moved cyclically by \<^verbatim>\<open>pb_field_iter_next\<close>.
\<close>

text \<open>\<^verbatim>\<open>pos\<close> is an index into the array at \<^verbatim>\<open>start\<close>.\<close>

record pb_field_iter =
  it_start :: "pb_field list"
  it_pos :: nat
  it_required_field_index :: nat
  it_dest_struct :: int
  it_pData :: int
  it_pSize :: int

abbreviation (input) it_field :: "pb_field_iter \<Rightarrow> pb_field" where
  "it_field it \<equiv> field_at (it_start it) (it_pos it)"

definition pb_field_iter_begin :: "pb_field list \<Rightarrow> int \<Rightarrow> bool \<times> pb_field_iter" where
  "pb_field_iter_begin flds dest_struct =
     (let f = field_at flds 0; pData = dest_struct + uint (fd_data_offset f)
      in (fd_tag f \<noteq> 0,
          \<lparr>it_start = flds, it_pos = 0, it_required_field_index = 0, it_dest_struct = dest_struct,
           it_pData = pData, it_pSize = pData + sint (fd_size_offset f)\<rparr>))"

text \<open>The size that the previous field takes in the structure.\<close>

definition prev_size :: "pb_field \<Rightarrow> int" where
  "prev_size f =
     (if PB_ATYPE (fd_type f) = PB_ATYPE_STATIC \<and> PB_HTYPE (fd_type f) = PB_HTYPE_REPEATED
        then uint (fd_data_size f) * uint (fd_array_size f)
      else if PB_ATYPE (fd_type f) = PB_ATYPE_POINTER then 8
      else uint (fd_data_size f))"

definition pb_field_iter_next :: "pb_field_iter \<Rightarrow> bool \<times> pb_field_iter" where
  "pb_field_iter_next it =
     (let prev_field = it_field it
      in if fd_tag prev_field = 0 then (False, it)
         else let pos = Suc (it_pos it); f = field_at (it_start it) pos
              in if fd_tag f = 0
                 then (False, snd (pb_field_iter_begin (it_start it) (it_dest_struct it)))
                 else if PB_HTYPE (fd_type prev_field) = PB_HTYPE_ONEOF \<and>
                         PB_HTYPE (fd_type f) = PB_HTYPE_ONEOF \<and> fd_data_offset f = PB_SIZE_MAX
                 then (True, it\<lparr>it_pos := pos\<rparr>)
                 else let pData = it_pData it + prev_size prev_field + uint (fd_data_offset f)
                      in (True, it\<lparr>it_pos := pos,
                            it_required_field_index :=
                              (if PB_HTYPE (fd_type prev_field) = PB_HTYPE_REQUIRED
                               then Suc (it_required_field_index it) else it_required_field_index it),
                            it_pData := pData, it_pSize := pData + sint (fd_size_offset f)\<rparr>))"

text \<open>
  The search is a \<^verbatim>\<open>do ... while\<close> over a cyclic sequence. \<open>None\<close> stands for a search that is still
  running after \<open>n\<close> rounds; \<open>iter_find_total\<close> shows that one round per field is enough.
\<close>

definition it_matches :: "u32 \<Rightarrow> pb_field \<Rightarrow> bool" where
  "it_matches tag f \<longleftrightarrow> fd_tag f = tag \<and> PB_LTYPE (fd_type f) \<noteq> PB_LTYPE_EXTENSION"

fun iter_find_loop :: "nat \<Rightarrow> nat \<Rightarrow> (pb_field \<Rightarrow> bool) \<Rightarrow> pb_field_iter \<Rightarrow> (bool \<times> pb_field_iter) option" where
  "iter_find_loop 0 start match it = None"
| "iter_find_loop (Suc n) start match it =
     (if match (it_field it) then Some (True, it)
      else let it' = snd (pb_field_iter_next it)
           in if it_pos it' = start then Some (False, it') else iter_find_loop n start match it')"

definition pb_field_iter_find :: "pb_field_iter \<Rightarrow> u32 \<Rightarrow> (bool \<times> pb_field_iter) option" where
  "pb_field_iter_find it tag =
     iter_find_loop (Suc (length (it_start it))) (it_pos it) (it_matches tag) it"

section \<open>The positions of an iterator\<close>

text \<open>\<open>iter_at flds dest i\<close>: the iterator that has reached field \<open>i\<close>.\<close>

primrec iter_at :: "pb_field list \<Rightarrow> int \<Rightarrow> nat \<Rightarrow> pb_field_iter" where
  "iter_at flds dest 0 = snd (pb_field_iter_begin flds dest)"
| "iter_at flds dest (Suc i) = snd (pb_field_iter_next (iter_at flds dest i))"

lemma field_at_tag: "wf_fields fs \<Longrightarrow> fd_tag (field_at fs i) = 0 \<longleftrightarrow> length fs \<le> i"
  by (auto simp: field_at_def wf_fields_def PB_LAST_FIELD_def)

lemma begin_simps [simp]:
  "it_start (snd (pb_field_iter_begin fs d)) = fs"
  "it_pos (snd (pb_field_iter_begin fs d)) = 0"
  "it_dest_struct (snd (pb_field_iter_begin fs d)) = d"
  "fst (pb_field_iter_begin fs d) = (fd_tag (field_at fs 0) \<noteq> 0)"
  by (simp_all add: pb_field_iter_begin_def Let_def)

lemma next_start [simp]: "it_start (snd (pb_field_iter_next it)) = it_start it"
  by (simp add: pb_field_iter_next_def Let_def)

lemma next_dest [simp]: "it_dest_struct (snd (pb_field_iter_next it)) = it_dest_struct it"
  by (simp add: pb_field_iter_next_def Let_def)

lemma next_pos:
  "wf_fields (it_start it) \<Longrightarrow> it_pos it < length (it_start it) \<Longrightarrow>
     it_pos (snd (pb_field_iter_next it)) =
       (if Suc (it_pos it) < length (it_start it) then Suc (it_pos it) else 0) \<and>
     fst (pb_field_iter_next it) = (Suc (it_pos it) < length (it_start it))"
  by (simp add: pb_field_iter_next_def Let_def field_at_tag)

lemma next_wraps:
  "wf_fields (it_start it) \<Longrightarrow> Suc (it_pos it) = length (it_start it) \<Longrightarrow>
     pb_field_iter_next it = (False, iter_at (it_start it) (it_dest_struct it) 0)"
  by (simp add: pb_field_iter_next_def Let_def field_at_tag)

lemma iter_at_simps [simp]:
  "it_start (iter_at fs d i) = fs" "it_dest_struct (iter_at fs d i) = d"
  by (induction i) simp_all

lemma iter_at_pos: "wf_fields fs \<Longrightarrow> i < length fs \<Longrightarrow> it_pos (iter_at fs d i) = i"
  by (induction i) (simp_all add: next_pos)

text \<open>From every position the iterator reaches the cyclically next one.\<close>

lemma next_iter_at:
  assumes "wf_fields fs" "i < length fs"
  shows "pb_field_iter_next (iter_at fs d i) =
    (if Suc i < length fs then (True, iter_at fs d (Suc i)) else (False, iter_at fs d 0))"
proof (cases "Suc i < length fs")
  case True
  then show ?thesis using assms next_pos [of "iter_at fs d i"]
    by (simp add: iter_at_pos prod_eq_iff)
next
  case False
  with assms have "Suc i = length fs" by simp
  then show ?thesis using assms next_wraps [of "iter_at fs d i"] by (simp add: iter_at_pos)
qed

definition cyc :: "nat \<Rightarrow> nat \<Rightarrow> nat" where
  "cyc n i = (if Suc i < n then Suc i else 0)"

lemma snd_next_iter_at:
  "wf_fields fs \<Longrightarrow> i < length fs \<Longrightarrow> snd (pb_field_iter_next (iter_at fs d i)) = iter_at fs d (cyc (length fs) i)"
  by (subst next_iter_at) (simp_all add: cyc_def del: iter_at.simps)

lemma cyc_less: "0 < n \<Longrightarrow> cyc n i < n"
  by (simp add: cyc_def)

lemma cyc_mod: "i < n \<Longrightarrow> cyc n i = Suc i mod n"
  using le_neq_implies_less [of "Suc i" n] by (cases "Suc i = n") (simp_all add: cyc_def)

lemma iter_find_loop_at:
  assumes wf: "wf_fields fs" and s: "start < length fs"
  shows "n - k < fuel \<Longrightarrow> n = length fs \<Longrightarrow> k < n \<Longrightarrow>
    (\<forall>j < k. \<not> match (fs ! ((start + j) mod n))) \<Longrightarrow>
    iter_find_loop fuel start match (iter_at fs d ((start + k) mod n)) =
      (if \<exists>j < n. match (fs ! ((start + j) mod n))
       then Some (True, iter_at fs d ((start + (LEAST j. match (fs ! ((start + j) mod n)))) mod n))
       else Some (False, iter_at fs d start))"
proof (induction "n - k" arbitrary: k fuel)
  case 0
  then show ?case by simp
next
  case (Suc r)
  let ?m = "\<lambda>j. match (fs ! ((start + j) mod n))"
  obtain f where fuel: "fuel = Suc f" using Suc.prems(1) by (cases fuel) auto
  have n: "0 < n" using Suc.prems(3) by simp
  have i: "(start + k) mod n < length fs" using mod_less_divisor [OF n] Suc.prems(2) by simp
  have fld: "it_field (iter_at fs d ((start + k) mod n)) = fs ! ((start + k) mod n)"
    using i wf by (simp add: iter_at_pos field_at_def)
  show ?case
  proof (cases "?m k")
    case True
    then have "(LEAST j. ?m j) = k"
      using Suc.prems(4) by (intro Least_equality) (auto simp: not_less [symmetric])
    then show ?thesis using True Suc.prems(3) fld fuel by auto
  next
    case False
    have nxt: "snd (pb_field_iter_next (iter_at fs d ((start + k) mod n))) = iter_at fs d ((start + Suc k) mod n)"
      using i wf Suc.prems(2) by (simp add: snd_next_iter_at cyc_mod mod_Suc_eq)
    have pos: "it_pos (iter_at fs d ((start + Suc k) mod n)) = (start + Suc k) mod n"
      using wf mod_less_divisor [OF n] Suc.prems(2) by (simp add: iter_at_pos)
    have no: "\<forall>j < Suc k. \<not> ?m j" using Suc.prems(4) False by (simp add: less_Suc_eq)
    show ?thesis
    proof (cases "Suc k = n")
      case True
      then have "(start + Suc k) mod n = start" using s Suc.prems(2) by simp
      then show ?thesis using False fld fuel nxt pos no True by (auto simp: Let_def)
    next
      case neq: False
      then have "(start + Suc k) mod n \<noteq> start"
        using s Suc.prems(2,3) by (auto simp: mod_if split: if_splits)
      moreover have "r = n - Suc k" "n - Suc k < f" "Suc k < n"
        using Suc.hyps(2) Suc.prems(1,3) fuel neq by auto
      ultimately show ?thesis using Suc.hyps(1) [of "Suc k" f] Suc.prems(2) False fld fuel nxt pos no
        by (simp add: Let_def)
    qed
  qed
qed

lemma iter_find_at:
  assumes "wf_fields fs" "i < length fs"
  shows "pb_field_iter_find (iter_at fs d i) tag =
    (if \<exists>f \<in> set fs. it_matches tag f
     then Some (True, iter_at fs d ((i + (LEAST j. it_matches tag (fs ! ((i + j) mod length fs)))) mod length fs))
     else Some (False, iter_at fs d i))"
proof -
  have "(\<exists>j < length fs. it_matches tag (fs ! ((i + j) mod length fs))) \<longleftrightarrow> (\<exists>f \<in> set fs. it_matches tag f)"
  proof
    assume "\<exists>f \<in> set fs. it_matches tag f"
    then obtain k where k: "k < length fs" "it_matches tag (fs ! k)" by (auto simp: in_set_conv_nth)
    let ?j = "(k + length fs - i) mod length fs"
    have "(i + ?j) mod length fs = k" using k(1) assms(2) by (simp add: mod_add_right_eq)
    then show "\<exists>j < length fs. it_matches tag (fs ! ((i + j) mod length fs))"
      using k le_less_trans [OF le0 k(1)] by (intro exI [of _ ?j]) simp
  next
    have "(i + j) mod length fs < length fs" for j by (rule mod_less_divisor) (use assms(2) in auto)
    moreover assume "\<exists>j < length fs. it_matches tag (fs ! ((i + j) mod length fs))"
    ultimately show "\<exists>f \<in> set fs. it_matches tag f" by (meson nth_mem)
  qed
  moreover have "fs \<noteq> []" using assms(2) by auto
  ultimately show ?thesis
    using iter_find_loop_at [OF assms, of "length fs" 0 "Suc (length fs)" "it_matches tag" d] assms
    by (auto simp: pb_field_iter_find_def iter_at_pos simp del: iter_find_loop.simps)
qed

text \<open>With distinct tags the search finds the one field, wherever it starts.\<close>

lemma iter_find_unique:
  assumes "wf_fields fs" "i < length fs" "k < length fs" "it_matches tag (fs ! k)"
    and uniq: "\<And>j. j < length fs \<Longrightarrow> it_matches tag (fs ! j) \<Longrightarrow> j = k"
  shows "pb_field_iter_find (iter_at fs d i) tag = Some (True, iter_at fs d k)"
proof -
  let ?P = "\<lambda>j. it_matches tag (fs ! ((i + j) mod length fs))"
  let ?j = "(k + length fs - i) mod length fs"
  have "(i + ?j) mod length fs = k" using assms(2,3) by (simp add: mod_add_right_eq)
  then have "?P ?j" using assms(4) by simp
  then have "?P (LEAST j. ?P j)" by (rule LeastI)
  moreover have "(i + (LEAST j. ?P j)) mod length fs < length fs"
    by (rule mod_less_divisor) (use assms(2) in auto)
  ultimately have "(i + (LEAST j. ?P j)) mod length fs = k" using uniq by blast
  moreover have "\<exists>f \<in> set fs. it_matches tag f" using assms(3,4) nth_mem by blast
  ultimately show ?thesis using iter_find_at [OF assms(1,2), of d tag] by simp
qed

text \<open>
  C27: A search from any position ends after at most one round, returns the first field with the wanted
  tag that is not an extension placeholder, in cyclic order from the position, with the addresses
  that a walk from the beginning gives this field; without such a field it is back where it started.
\<close>
theorem iter_find_total:
  assumes "wf_fields fs" "i < length fs"
  shows "pb_field_iter_find (iter_at fs d i) tag =
    (if \<exists>f \<in> set fs. it_matches tag f
     then Some (True, iter_at fs d ((i + (LEAST j. it_matches tag (fs ! ((i + j) mod length fs)))) mod length fs))
     else Some (False, iter_at fs d i))"
  by (rule iter_find_at [OF assms])

theorem iter_find_total_witness:
  "let fs = [PB_LAST_FIELD\<lparr>fd_tag := 1\<rparr>, PB_LAST_FIELD\<lparr>fd_tag := 2\<rparr>]
   in pb_field_iter_find (iter_at fs 0 1) 1 = Some (True, iter_at fs 0 0)"
proof -
  let ?fs = "[PB_LAST_FIELD\<lparr>fd_tag := 1\<rparr>, PB_LAST_FIELD\<lparr>fd_tag := 2\<rparr>]"
  have "(LEAST j. it_matches 1 (?fs ! ((1 + j) mod length ?fs))) = 1"
  proof (rule Least_equality)
    show "it_matches 1 (?fs ! ((1 + 1) mod length ?fs))"
      by (simp add: it_matches_def PB_LAST_FIELD_def PB_LTYPE_def)
    show "1 \<le> j" if "it_matches 1 (?fs ! ((1 + j) mod length ?fs))" for j
      using that by (cases j) (simp_all add: it_matches_def PB_LAST_FIELD_def)
  qed
  moreover have "\<exists>f \<in> set ?fs. it_matches 1 f" by (simp add: it_matches_def PB_LAST_FIELD_def PB_LTYPE_def)
  ultimately show ?thesis
    using iter_find_total [of ?fs 1 0 1] by (simp add: wf_fields_def del: iter_at.simps)
qed

end
