(* ===== verification/PbStream.thy ===== *)
theory PbStream
  imports PbTypes
begin

text \<open>
  Output and input streams of nanopb: \<^verbatim>\<open>pb_ostream_t\<close> and \<^verbatim>\<open>pb_write\<close> (\<^verbatim>\<open>pb_encode.c\<close>),
  \<^verbatim>\<open>pb_istream_t\<close>, \<^verbatim>\<open>pb_read\<close>, \<^verbatim>\<open>pb_readbyte\<close> and the length-limited substreams (\<^verbatim>\<open>pb_decode.c\<close>).
  The \<^verbatim>\<open>state\<close> pointer of a stream is a value of type \<open>'s\<close>; a caller's stream callback is a
  function on it. Memory-buffer streams are the instances \<open>buf_write\<close> and \<open>buf_read\<close>. A buffer is an
  object of its own: the caller's output and input buffers do not overlap the message.
\<close>

section \<open>Output streams\<close>

record 's pb_ostream =
  os_callback :: "('s \<Rightarrow> byte list \<Rightarrow> bool \<times> 's) option"
  os_state :: 's
  os_max_size :: u64
  os_bytes_written :: u64
  os_errmsg :: "string option"

definition os_error :: "'s pb_ostream \<Rightarrow> string \<Rightarrow> bool \<times> 's pb_ostream" where
  "os_error s msg = (False, s\<lparr>os_errmsg := PB_SET_ERROR (os_errmsg s) msg\<rparr>)"

text \<open>An output buffer: the bytes of the array by index, and how far \<^verbatim>\<open>state\<close> has moved into it.\<close>

type_synonym obuf = "(nat \<Rightarrow> byte) \<times> nat"

definition buf_write :: "obuf \<Rightarrow> byte list \<Rightarrow> bool \<times> obuf" where
  "buf_write dest buf =
     (True, (\<lambda>i. if snd dest \<le> i \<and> i < snd dest + length buf then buf ! (i - snd dest)
                 else fst dest i,
             snd dest + length buf))"

definition pb_ostream_from_buffer :: "(nat \<Rightarrow> byte) \<Rightarrow> u64 \<Rightarrow> obuf pb_ostream" where
  "pb_ostream_from_buffer buf bufsize =
     \<lparr>os_callback = Some buf_write, os_state = (buf, 0), os_max_size = bufsize,
      os_bytes_written = 0, os_errmsg = None\<rparr>"

text \<open>The sizing stream has no callback, so its state (NULL) is never read.\<close>

definition PB_OSTREAM_SIZING :: "'s \<Rightarrow> 's pb_ostream" where
  "PB_OSTREAM_SIZING null =
     \<lparr>os_callback = None, os_state = null, os_max_size = 0, os_bytes_written = 0, os_errmsg = None\<rparr>"

text \<open>\<open>buf\<close> are the bytes at the buffer pointer; \<open>count\<close> is their number, or any number when only sizing.\<close>

definition pb_write :: "'s pb_ostream \<Rightarrow> byte list \<Rightarrow> u64 \<Rightarrow> bool \<times> 's pb_ostream" where
  "pb_write s buf count =
     (case os_callback s of
        Some cb \<Rightarrow>
          if os_bytes_written s + count > os_max_size s then os_error s ''stream full''
          else (case cb (os_state s) buf of
                  (True, st) \<Rightarrow> (True, s\<lparr>os_state := st, os_bytes_written := os_bytes_written s + count\<rparr>)
                | (False, st) \<Rightarrow> os_error (s\<lparr>os_state := st\<rparr>) ''io error'')
      | None \<Rightarrow> (True, s\<lparr>os_bytes_written := os_bytes_written s + count\<rparr>))"

section \<open>Input streams\<close>

text \<open>
  \<^verbatim>\<open>callback\<close> and \<^verbatim>\<open>state\<close> together: a memory buffer is the list of the bytes from \<^verbatim>\<open>state\<close> on; a
  caller's callback returns its verdict, the bytes it stored into the buffer and its next state.
\<close>

datatype 's isource = Buf "byte list" | Custom "'s \<Rightarrow> nat \<Rightarrow> bool \<times> byte list \<times> 's" 's

record 's pb_istream =
  is_source :: "'s isource"
  is_bytes_left :: u64
  is_errmsg :: "string option"

definition is_error :: "'s pb_istream \<Rightarrow> string \<Rightarrow> 's pb_istream" where
  "is_error s msg = s\<lparr>is_errmsg := PB_SET_ERROR (is_errmsg s) msg\<rparr>"

text \<open>Call the callback: the bytes it stored (empty when the buffer pointer is NULL).\<close>

definition buf_read :: "byte list \<Rightarrow> nat \<Rightarrow> byte list \<times> byte list" where
  "buf_read source count = (take count source, drop count source)"

fun run_source :: "'s isource \<Rightarrow> nat \<Rightarrow> bool \<times> byte list \<times> 's isource" where
  "run_source (Buf source) count = (case buf_read source count of (bs, rest) \<Rightarrow> (True, bs, Buf rest))"
| "run_source (Custom cb st) count = (case cb st count of (ok, bs, st') \<Rightarrow> (ok, bs, Custom cb st'))"

text \<open>\<^verbatim>\<open>pb_read\<close> into a buffer: verdict, bytes stored, stream.\<close>

definition pb_read :: "'s pb_istream \<Rightarrow> u64 \<Rightarrow> bool \<times> byte list \<times> 's pb_istream" where
  "pb_read s count =
     (if is_bytes_left s < count then (False, [], is_error s ''end-of-stream'')
      else case run_source (is_source s) (unat count) of
             (True, bs, src) \<Rightarrow> (True, bs, s\<lparr>is_source := src, is_bytes_left := is_bytes_left s - count\<rparr>)
           | (False, bs, src) \<Rightarrow> (False, bs, is_error (s\<lparr>is_source := src\<rparr>) ''io error''))"

text \<open>
  \<^verbatim>\<open>pb_read\<close> with a NULL buffer: a memory buffer moves its pointer, any other callback is asked for
  the bytes in pieces of 16.
\<close>

function pb_skip_custom :: "'s pb_istream \<Rightarrow> nat \<Rightarrow> bool \<times> 's pb_istream" where
  "pb_skip_custom s count =
     (if 16 < count then
        (case pb_read s 16 of (True, _, s') \<Rightarrow> pb_skip_custom s' (count - 16) | (False, _, s') \<Rightarrow> (False, s'))
      else (case pb_read s (of_nat count) of (ok, _, s') \<Rightarrow> (ok, s')))"
  by pat_completeness auto
termination
  by (relation "measure (\<lambda>(s, count). count)") auto

declare pb_skip_custom.simps [simp del]

definition pb_read_null :: "'s pb_istream \<Rightarrow> u64 \<Rightarrow> bool \<times> 's pb_istream" where
  "pb_read_null s count =
     (case is_source s of
        Buf _ \<Rightarrow> (case pb_read s count of (ok, _, s') \<Rightarrow> (ok, s'))
      | Custom _ _ \<Rightarrow> pb_skip_custom s (unat count))"

definition pb_readbyte :: "'s pb_istream \<Rightarrow> byte option \<times> 's pb_istream" where
  "pb_readbyte s =
     (if is_bytes_left s = 0 then (None, is_error s ''end-of-stream'')
      else case run_source (is_source s) 1 of
             (True, bs, src) \<Rightarrow> (Some (hd (bs @ [0])), s\<lparr>is_source := src, is_bytes_left := is_bytes_left s - 1\<rparr>)
           | (False, bs, src) \<Rightarrow> (None, is_error (s\<lparr>is_source := src\<rparr>) ''io error''))"

definition pb_istream_from_buffer :: "byte list \<Rightarrow> u64 \<Rightarrow> 's pb_istream" where
  "pb_istream_from_buffer buf bufsize =
     \<lparr>is_source = Buf buf, is_bytes_left = bufsize, is_errmsg = None\<rparr>"

end
