(* ===== verification/PbPrim.thy ===== *)
theory PbPrim
  imports PbStream
begin

text \<open>
  The wire-format primitives of nanopb: variable-length integers, their zigzag form, little-endian
  fixed-width integers, tags, length-prefixed strings, skipping a value and limited substreams
  (\<^verbatim>\<open>pb_encode.c\<close> lines 574-680, \<^verbatim>\<open>pb_decode.c\<close> lines 182-395 and 1240-1287). A decoder that stores
  its result through a pointer on success only returns it as an option.
\<close>

section \<open>Encoders\<close>

function varint_loop :: "u64 \<Rightarrow> byte list" where
  "varint_loop v =
     (if v = 0 then [] else ucast ((v AND 0x7F) OR 0x80) # varint_loop (drop_bit 7 v))"
  by pat_completeness auto
termination
  by (relation "measure unat") (auto simp: unat_drop_bit unat_gt_0 simp del: drop_bit_numeral_bit0)

declare varint_loop.simps [simp del]

definition pb_encode_varint :: "'s pb_ostream \<Rightarrow> u64 \<Rightarrow> bool \<times> 's pb_ostream" where
  "pb_encode_varint s v =
     (if v \<le> 0x7F then pb_write s [ucast v] 1
      else let buffer = varint_loop v; i = length buffer
           in pb_write s (buffer[i - 1 := buffer ! (i - 1) AND 0x7F]) (of_nat i))"

text \<open>The argument is the \<^verbatim>\<open>int64_t\<close> value as its 64 bits.\<close>

definition pb_encode_svarint :: "'s pb_ostream \<Rightarrow> u64 \<Rightarrow> bool \<times> 's pb_ostream" where
  "pb_encode_svarint s v =
     pb_encode_varint s (if sint v < 0 then NOT (push_bit 1 v) else push_bit 1 v)"

definition pb_encode_fixed32 :: "'s pb_ostream \<Rightarrow> u32 \<Rightarrow> bool \<times> 's pb_ostream" where
  "pb_encode_fixed32 s val =
     pb_write s [ucast (val AND 0xFF), ucast (drop_bit 8 val AND 0xFF),
                 ucast (drop_bit 16 val AND 0xFF), ucast (drop_bit 24 val AND 0xFF)] 4"

definition pb_encode_fixed64 :: "'s pb_ostream \<Rightarrow> u64 \<Rightarrow> bool \<times> 's pb_ostream" where
  "pb_encode_fixed64 s val =
     pb_write s [ucast (val AND 0xFF), ucast (drop_bit 8 val AND 0xFF),
                 ucast (drop_bit 16 val AND 0xFF), ucast (drop_bit 24 val AND 0xFF),
                 ucast (drop_bit 32 val AND 0xFF), ucast (drop_bit 40 val AND 0xFF),
                 ucast (drop_bit 48 val AND 0xFF), ucast (drop_bit 56 val AND 0xFF)] 8"

definition pb_encode_tag :: "'s pb_ostream \<Rightarrow> u32 \<Rightarrow> u32 \<Rightarrow> bool \<times> 's pb_ostream" where
  "pb_encode_tag s wiretype field_number =
     pb_encode_varint s (push_bit 3 (ucast field_number) OR ucast wiretype)"

definition wiretype_of :: "byte \<Rightarrow> u32 option" where
  "wiretype_of ltype =
     (if ltype = PB_LTYPE_VARINT \<or> ltype = PB_LTYPE_UVARINT \<or> ltype = PB_LTYPE_SVARINT
        then Some PB_WT_VARINT
      else if ltype = PB_LTYPE_FIXED32 then Some PB_WT_32BIT
      else if ltype = PB_LTYPE_FIXED64 then Some PB_WT_64BIT
      else if ltype = PB_LTYPE_BYTES \<or> ltype = PB_LTYPE_STRING \<or> ltype = PB_LTYPE_SUBMESSAGE
              \<or> ltype = PB_LTYPE_FIXED_LENGTH_BYTES then Some PB_WT_STRING
      else None)"

definition pb_encode_tag_for_field :: "'s pb_ostream \<Rightarrow> pb_field \<Rightarrow> bool \<times> 's pb_ostream" where
  "pb_encode_tag_for_field s field =
     (case wiretype_of (PB_LTYPE (fd_type field)) of
        None \<Rightarrow> os_error s ''invalid field type''
      | Some wiretype \<Rightarrow> pb_encode_tag s wiretype (fd_tag field))"

definition pb_encode_string :: "'s pb_ostream \<Rightarrow> byte list \<Rightarrow> u64 \<Rightarrow> bool \<times> 's pb_ostream" where
  "pb_encode_string s buffer sz =
     seq_ok (pb_encode_varint s sz) (\<lambda>s. pb_write s buffer sz)"

section \<open>Decoders\<close>

lemma pb_readbyte_less:
  "pb_readbyte s = (Some b, s') \<Longrightarrow> unat (is_bytes_left s') < unat (is_bytes_left s)"
  by (auto simp: pb_readbyte_def unat_minus_one unat_gt_0 split: if_splits prod.splits bool.splits)

function varint32_loop ::
  "'s pb_istream \<Rightarrow> byte \<Rightarrow> u32 \<Rightarrow> (byte \<times> byte \<times> u32) option \<times> 's pb_istream" where
  "varint32_loop s bitpos result =
     (case pb_readbyte s of
        (None, s') \<Rightarrow> (None, s')
      | (Some b, s') \<Rightarrow>
          if bitpos \<ge> 32 \<and> b AND 0x7F \<noteq> 0 \<and>
             (drop_bit 31 result = 0 \<or> b \<noteq> (if bitpos < 63 then 0xFF else 0x01))
          then (None, is_error s' ''varint overflow'')
          else let result' = (if bitpos \<ge> 32 then result
                              else result OR push_bit (unat bitpos) (ucast (b AND 0x7F)));
                   bitpos' = bitpos + 7
               in if b AND 0x80 \<noteq> 0 then varint32_loop s' bitpos' result'
                  else (Some (b, bitpos', result'), s'))"
  by pat_completeness auto
termination
  by (relation "measure (\<lambda>(s, _). unat (is_bytes_left s))")
     (simp, simp only: in_measure case_prod_conv, metis pb_readbyte_less)

declare varint32_loop.simps [simp del]

text \<open>\<^verbatim>\<open>uint_fast8_t bitpos\<close> is 8 bits wide on the platforms of the app. The flag is \<^verbatim>\<open>*eof = true\<close>.\<close>

definition pb_decode_varint32_eof :: "'s pb_istream \<Rightarrow> u32 option \<times> bool \<times> 's pb_istream" where
  "pb_decode_varint32_eof s =
     (case pb_readbyte s of
        (None, s') \<Rightarrow> (None, is_bytes_left s' = 0, s')
      | (Some b, s') \<Rightarrow>
          if b AND 0x80 = 0 then (Some (ucast b), False, s')
          else case varint32_loop s' 7 (ucast (b AND 0x7F)) of
                 (None, s'') \<Rightarrow> (None, False, s'')
               | (Some (b', bitpos, result), s'') \<Rightarrow>
                   if bitpos = 35 \<and> b' AND 0x70 \<noteq> 0
                   then (None, False, is_error s'' ''varint overflow'')
                   else (Some result, False, s''))"

definition pb_decode_varint32 :: "'s pb_istream \<Rightarrow> u32 option \<times> 's pb_istream" where
  "pb_decode_varint32 s = (case pb_decode_varint32_eof s of (r, _, s') \<Rightarrow> (r, s'))"

text \<open>Here \<^verbatim>\<open>bitpos\<close> never exceeds 70, so it does not wrap.\<close>

function varint_dec_loop :: "'s pb_istream \<Rightarrow> nat \<Rightarrow> u64 \<Rightarrow> u64 option \<times> 's pb_istream" where
  "varint_dec_loop s bitpos result =
     (if bitpos \<ge> 64 then (None, is_error s ''varint overflow'')
      else case pb_readbyte s of
             (None, s') \<Rightarrow> (None, s')
           | (Some b, s') \<Rightarrow>
               let result' = result OR push_bit bitpos (ucast (b AND 0x7F))
               in if b AND 0x80 \<noteq> 0 then varint_dec_loop s' (bitpos + 7) result'
                  else (Some result', s'))"
  by pat_completeness auto
termination
  by (relation "measure (\<lambda>(s, bitpos, _). 64 - bitpos)") auto

declare varint_dec_loop.simps [simp del]

definition pb_decode_varint :: "'s pb_istream \<Rightarrow> u64 option \<times> 's pb_istream" where
  "pb_decode_varint s = varint_dec_loop s 0 0"

definition pb_decode_svarint :: "'s pb_istream \<Rightarrow> u64 option \<times> 's pb_istream" where
  "pb_decode_svarint s =
     (case pb_decode_varint s of
        (None, s') \<Rightarrow> (None, s')
      | (Some v, s') \<Rightarrow>
          (Some (if v AND 1 \<noteq> 0 then NOT (drop_bit 1 v) else drop_bit 1 v), s'))"

lemma pb_read_True:
  "pb_read s n = (True, bs, s') \<Longrightarrow>
     n \<le> is_bytes_left s \<and> is_bytes_left s' = is_bytes_left s - n"
  by (auto simp: pb_read_def not_less split: if_splits prod.splits bool.splits)

lemma pb_read_less:
  assumes "pb_read s 1 = (True, bs, s')"
  shows "unat (is_bytes_left s') < unat (is_bytes_left s)"
proof -
  from pb_read_True [OF assms] have le: "1 \<le> is_bytes_left s"
    and left: "is_bytes_left s' = is_bytes_left s - 1" by auto
  from le have nz: "is_bytes_left s \<noteq> 0" by (auto simp: word_le_nat_alt)
  then show ?thesis unfolding left by (simp add: unat_minus_one unat_gt_0)
qed

function pb_skip_varint :: "'s pb_istream \<Rightarrow> bool \<times> 's pb_istream" where
  "pb_skip_varint s =
     (case pb_read s 1 of
        (False, _, s') \<Rightarrow> (False, s')
      | (True, bs, s') \<Rightarrow> if hd (bs @ [0]) AND 0x80 \<noteq> 0 then pb_skip_varint s' else (True, s'))"
  by pat_completeness auto
termination
  by (relation "measure (\<lambda>s. unat (is_bytes_left s))")
     (simp, simp only: in_measure, metis pb_read_less)

declare pb_skip_varint.simps [simp del]


definition pb_skip_string :: "'s pb_istream \<Rightarrow> bool \<times> 's pb_istream" where
  "pb_skip_string s =
     (case pb_decode_varint32 s of
        (None, s') \<Rightarrow> (False, s')
      | (Some len, s') \<Rightarrow> pb_read_null s' (ucast len))"

text \<open>The result on success is the wire type and the tag; the flag is \<^verbatim>\<open>*eof\<close>.\<close>

definition pb_decode_tag :: "'s pb_istream \<Rightarrow> (u32 \<times> u32) option \<times> bool \<times> 's pb_istream" where
  "pb_decode_tag s =
     (case pb_decode_varint32_eof s of
        (None, eof, s') \<Rightarrow> (None, eof, s')
      | (Some temp, eof, s') \<Rightarrow>
          if temp = 0 then (None, True, s')
          else (Some (temp AND 7, drop_bit 3 temp), eof, s'))"

definition pb_skip_field :: "'s pb_istream \<Rightarrow> u32 \<Rightarrow> bool \<times> 's pb_istream" where
  "pb_skip_field s wire_type =
     (if wire_type = PB_WT_VARINT then pb_skip_varint s
      else if wire_type = PB_WT_64BIT then pb_read_null s 8
      else if wire_type = PB_WT_STRING then pb_skip_string s
      else if wire_type = PB_WT_32BIT then pb_read_null s 4
      else (False, is_error s ''invalid wire_type''))"

text \<open>
  The bytes of a scalar value, for a callback. The first argument of the loop is what is left of the
  caller's buffer of \<open>max_size\<close> bytes.
\<close>

fun read_raw_varint :: "nat \<Rightarrow> 's pb_istream \<Rightarrow> byte list option \<times> 's pb_istream" where
  "read_raw_varint 0 s = (None, s)"
| "read_raw_varint (Suc room) s =
     (case pb_read s 1 of
        (False, _, s') \<Rightarrow> (None, s')
      | (True, bs, s') \<Rightarrow>
          let b = hd (bs @ [0])
          in if b AND 0x80 \<noteq> 0
             then (case read_raw_varint room s' of (r, s'') \<Rightarrow> (map_option (Cons b) r, s''))
             else (Some [b], s'))"

definition read_raw_value :: "'s pb_istream \<Rightarrow> u32 \<Rightarrow> nat \<Rightarrow> byte list option \<times> 's pb_istream" where
  "read_raw_value s wire_type max_size =
     (if wire_type = PB_WT_VARINT then read_raw_varint max_size s
      else if wire_type = PB_WT_64BIT then
        (case pb_read s 8 of (ok, bs, s') \<Rightarrow> (if ok then Some bs else None, s'))
      else if wire_type = PB_WT_32BIT then
        (case pb_read s 4 of (ok, bs, s') \<Rightarrow> (if ok then Some bs else None, s'))
      else (None, is_error s ''invalid wire_type''))"

text \<open>On success: the substream. The parent's \<open>bytes_left\<close> is already reduced.\<close>

definition pb_make_string_substream :: "'s pb_istream \<Rightarrow> 's pb_istream option \<times> 's pb_istream" where
  "pb_make_string_substream s =
     (case pb_decode_varint32 s of
        (None, s') \<Rightarrow> (None, s')
      | (Some sz, s') \<Rightarrow>
          if is_bytes_left s' < ucast sz then (None, is_error s' ''parent stream too short'')
          else (Some (s'\<lparr>is_bytes_left := ucast sz\<rparr>),
                s'\<lparr>is_bytes_left := is_bytes_left s' - ucast sz\<rparr>))"

definition pb_close_string_substream :: "'s pb_istream \<Rightarrow> 's pb_istream \<Rightarrow> bool \<times> 's pb_istream" where
  "pb_close_string_substream s sub =
     (case (if is_bytes_left sub \<noteq> 0 then pb_read_null sub (is_bytes_left sub) else (True, sub)) of
        (False, _) \<Rightarrow> (False, s)
      | (True, sub') \<Rightarrow> (True, s\<lparr>is_source := is_source sub', is_errmsg := is_errmsg sub'\<rparr>))"

text \<open>\<^verbatim>\<open>pb_decode_fixed32\<close> and \<^verbatim>\<open>pb_decode_fixed64\<close>: the value stored through \<^verbatim>\<open>dest\<close>.\<close>

definition pb_decode_fixed32 :: "'s pb_istream \<Rightarrow> u32 option \<times> 's pb_istream" where
  "pb_decode_fixed32 s =
     (case pb_read s 4 of
        (False, _, s') \<Rightarrow> (None, s')
      | (True, bs, s') \<Rightarrow>
          (Some (ucast (bs ! 0) OR push_bit 8 (ucast (bs ! 1)) OR push_bit 16 (ucast (bs ! 2))
                 OR push_bit 24 (ucast (bs ! 3))), s'))"

definition pb_decode_fixed64 :: "'s pb_istream \<Rightarrow> u64 option \<times> 's pb_istream" where
  "pb_decode_fixed64 s =
     (case pb_read s 8 of
        (False, _, s') \<Rightarrow> (None, s')
      | (True, bs, s') \<Rightarrow>
          (Some (ucast (bs ! 0) OR push_bit 8 (ucast (bs ! 1)) OR push_bit 16 (ucast (bs ! 2))
                 OR push_bit 24 (ucast (bs ! 3)) OR push_bit 32 (ucast (bs ! 4))
                 OR push_bit 40 (ucast (bs ! 5)) OR push_bit 48 (ucast (bs ! 6))
                 OR push_bit 56 (ucast (bs ! 7))), s'))"

end
