(* ===== verification/PbDecode.thy ===== *)
theory PbDecode
  imports PbIter PbPrim
begin

text \<open>
  The message decoder of nanopb (\<^verbatim>\<open>pb_decode.c\<close>), with dynamic allocation. The state of a call is the
  stream and the memory that holds the message; a call returns its verdict with the new state.
  \<open>None\<close> means: the nesting of the message is deeper than the fuel of \<open>pb_decode_noinit\<close>, a loop that
  depends on a callback is still running after one round for every byte, or the behaviour of the C
  program is undefined (a NULL function pointer, a division by zero).
\<close>

section \<open>State, and what the decoder calls outside of the library\<close>

record 's dec =
  ds_stream :: "'s pb_istream"
  ds_mem :: mem

text \<open>
  The descriptor array at an address; \<^verbatim>\<open>realloc\<close> and \<^verbatim>\<open>free\<close> of the C library (NULL is 0); the decode
  callbacks of callback fields (function pointer, field, address of \<^verbatim>\<open>arg\<close>) and of extension types
  (function pointer, extension, tag, wire type).
\<close>

record 's dec_env =
  de_descr :: "int \<Rightarrow> pb_field list"
  de_realloc :: "mem \<Rightarrow> int \<Rightarrow> u64 \<Rightarrow> int \<times> mem"
  de_free :: "mem \<Rightarrow> int \<Rightarrow> mem"
  de_callback :: "int \<Rightarrow> pb_field \<Rightarrow> int \<Rightarrow> 's dec \<Rightarrow> (bool \<times> 's dec) option"
  de_extension :: "int \<Rightarrow> int \<Rightarrow> u32 \<Rightarrow> u32 \<Rightarrow> 's dec \<Rightarrow> (bool \<times> 's dec) option"

type_synonym 's decoding = "(bool \<times> 's dec) option"
type_synonym 's decoder = "pb_field \<Rightarrow> int \<Rightarrow> 's dec \<Rightarrow> 's decoding"
type_synonym 's msg_decoder = "pb_field list \<Rightarrow> int \<Rightarrow> 's dec \<Rightarrow> 's decoding"

definition dec_error :: "'s dec \<Rightarrow> string \<Rightarrow> bool \<times> 's dec" where
  "dec_error d msg = (False, d\<lparr>ds_stream := is_error (ds_stream d) msg\<rparr>)"

text \<open>A primitive that returns a value: continue with the value, or fail with the stream it left.\<close>

definition with_value ::
  "('s pb_istream \<Rightarrow> 'a option \<times> 's pb_istream) \<Rightarrow> 's dec \<Rightarrow> ('a \<Rightarrow> 's dec \<Rightarrow> 's decoding) \<Rightarrow> 's decoding" where
  "with_value D d k =
     (case D (ds_stream d) of
        (None, s) \<Rightarrow> Some (False, d\<lparr>ds_stream := s\<rparr>)
      | (Some x, s) \<Rightarrow> k x (d\<lparr>ds_stream := s\<rparr>))"

text \<open>\<^verbatim>\<open>pb_read\<close> into memory at \<open>a\<close>.\<close>

definition read_into :: "'s dec \<Rightarrow> int \<Rightarrow> u64 \<Rightarrow> bool \<times> 's dec" where
  "read_into d a n =
     (case pb_read (ds_stream d) n of
        (ok, bs, s) \<Rightarrow> (ok, d\<lparr>ds_stream := s, ds_mem := store (ds_mem d) a bs\<rparr>))"

definition map_mem :: "(mem \<Rightarrow> mem) \<Rightarrow> 's dec \<Rightarrow> 's dec" where
  "map_mem f d = d\<lparr>ds_mem := f (ds_mem d)\<rparr>"

text \<open>Run a memory operation that may not return.\<close>

definition with_mem :: "(mem \<Rightarrow> mem option) \<Rightarrow> 's dec \<Rightarrow> ('s dec \<Rightarrow> 's decoding) \<Rightarrow> 's decoding" where
  "with_mem f d k = (case f (ds_mem d) of None \<Rightarrow> None | Some m \<Rightarrow> k (d\<lparr>ds_mem := m\<rparr>))"

section \<open>Default values\<close>

text \<open>The address of the extension's field descriptor, and the iterator that \<^verbatim>\<open>iter_from_extension\<close> fakes.\<close>

definition extension_field :: "(int \<Rightarrow> pb_field list) \<Rightarrow> mem \<Rightarrow> int \<Rightarrow> pb_field list" where
  "extension_field descr m extension = descr (load_ptr m (ext_type_arg (load_ptr m (ext_type extension))))"

definition iter_from_extension :: "(int \<Rightarrow> pb_field list) \<Rightarrow> mem \<Rightarrow> int \<Rightarrow> pb_field_iter" where
  "iter_from_extension descr m extension =
     (let field = extension_field descr m extension;
          dest = load_ptr m (ext_dest extension);
          it = snd (pb_field_iter_begin field dest)
      in it\<lparr>it_pData := (if PB_ATYPE (fd_type (field_at field 0)) = PB_ATYPE_POINTER
                         then ext_dest extension else dest),
           it_pSize := ext_found extension\<rparr>)"

text \<open>A loop over a chain of extensions; \<open>n\<close> bounds its length.\<close>

fun each_extension :: "(int \<Rightarrow> mem \<Rightarrow> mem option) \<Rightarrow> nat \<Rightarrow> int \<Rightarrow> mem \<Rightarrow> mem option" where
  "each_extension f n extension m =
     (if extension = 0 then Some m
      else case n of
             0 \<Rightarrow> None
           | Suc n \<Rightarrow>
               (case f extension m of
                  None \<Rightarrow> None
                | Some m' \<Rightarrow> each_extension f n (load_ptr m' (ext_next extension)) m'))"

declare each_extension.simps [simp del]

text \<open>The loop \<^verbatim>\<open>do f(&iter) while (pb_field_iter_next(&iter))\<close> of the functions without a verdict.\<close>

fun each_field :: "(pb_field_iter \<Rightarrow> mem \<Rightarrow> mem option) \<Rightarrow> nat \<Rightarrow> pb_field_iter \<Rightarrow> mem \<Rightarrow> mem option" where
  "each_field f 0 it m = None"
| "each_field f (Suc n) it m =
     (case f it m of
        None \<Rightarrow> None
      | Some m' \<Rightarrow> (case pb_field_iter_next it of
                      (True, it') \<Rightarrow> each_field f n it' m'
                    | (False, _) \<Rightarrow> Some m'))"

fun pb_field_set_to_default :: "(int \<Rightarrow> pb_field list) \<Rightarrow> nat \<Rightarrow> pb_field_iter \<Rightarrow> mem \<Rightarrow> mem option"
and pb_message_set_to_defaults :: "(int \<Rightarrow> pb_field list) \<Rightarrow> nat \<Rightarrow> pb_field list \<Rightarrow> int \<Rightarrow> mem \<Rightarrow> mem option" where
  "pb_field_set_to_default descr 0 it m = None"
| "pb_field_set_to_default descr (Suc n) it m =
     (let f = it_field it; type = fd_type f; sz = unat (fd_data_size f)
      in if PB_LTYPE type = PB_LTYPE_EXTENSION then
           each_extension (\<lambda>ext m.
             let m' = store_bool m (ext_found ext) False
             in pb_field_set_to_default descr n (iter_from_extension descr m' ext) m')
             n (load_ptr m (it_pData it)) m
         else if PB_ATYPE type = PB_ATYPE_STATIC then
           if PB_HTYPE type = PB_HTYPE_REPEATED \<or> PB_HTYPE type = PB_HTYPE_ONEOF
           then Some (store_u32 m (it_pSize it) 0)
           else
             let m' = (if PB_HTYPE type = PB_HTYPE_OPTIONAL \<and> it_pSize it \<noteq> it_pData it
                       then store_bool m (it_pSize it) False else m)
             in if PB_LTYPE type = PB_LTYPE_SUBMESSAGE
                then pb_message_set_to_defaults descr n (descr (fd_ptr f)) (it_pData it) m'
                else if fd_ptr f \<noteq> 0 then Some (store m' (it_pData it) (load m' (fd_ptr f) sz))
                else Some (store m' (it_pData it) (replicate sz 0))
         else if PB_ATYPE type = PB_ATYPE_POINTER then
           let m' = store_ptr m (it_pData it) 0
           in Some (if PB_HTYPE type = PB_HTYPE_REPEATED \<or> PB_HTYPE type = PB_HTYPE_ONEOF
                    then store_u32 m' (it_pSize it) 0 else m')
         else Some m)"
| "pb_message_set_to_defaults descr 0 flds dest m = None"
| "pb_message_set_to_defaults descr (Suc n) flds dest m =
     (case pb_field_iter_begin flds dest of
        (False, _) \<Rightarrow> Some m
      | (True, it) \<Rightarrow> each_field (pb_field_set_to_default descr n) (length flds) it m)"

section \<open>Releasing allocated fields\<close>

text \<open>\<open>while (count--) { f(p); p += step; }\<close>\<close>

fun each_item :: "(int \<Rightarrow> mem \<Rightarrow> mem option) \<Rightarrow> int \<Rightarrow> nat \<Rightarrow> int \<Rightarrow> mem \<Rightarrow> mem option" where
  "each_item f step 0 p m = Some m"
| "each_item f step (Suc count) p m =
     (case f p m of None \<Rightarrow> None | Some m' \<Rightarrow> each_item f step count (p + step) m')"

text \<open>The number of submessages to release behind one field.\<close>

definition release_count :: "pb_field_iter \<Rightarrow> mem \<Rightarrow> nat" where
  "release_count it m =
     (let f = it_field it; static = (PB_ATYPE (fd_type f) = PB_ATYPE_STATIC)
      in if PB_HTYPE (fd_type f) = PB_HTYPE_REPEATED then
           let count = (if static \<and> it_pSize it = it_pData it then fd_array_size f
                        else load_u32 m (it_pSize it))
           in unat (if static \<and> count > fd_array_size f then fd_array_size f else count)
         else 1)"

definition release_pointer :: "'s dec_env \<Rightarrow> pb_field_iter \<Rightarrow> mem \<Rightarrow> mem option" where
  "release_pointer env it m =
     (let type = fd_type (it_field it); repeated = (PB_HTYPE type = PB_HTYPE_REPEATED)
      in case (if repeated \<and> (PB_LTYPE type = PB_LTYPE_STRING \<or> PB_LTYPE type = PB_LTYPE_BYTES)
               then each_item (\<lambda>p m. Some (store_ptr (de_free env m (load_ptr m p)) p 0)) 8
                      (unat (load_u32 m (it_pSize it))) (load_ptr m (it_pData it)) m
               else Some m)
         of None \<Rightarrow> None
          | Some m \<Rightarrow>
             (let m' = (if repeated then store_u32 m (it_pSize it) 0 else m)
              in Some (store_ptr (de_free env m' (load_ptr m' (it_pData it))) (it_pData it) 0)))"

fun pb_release_single_field :: "'s dec_env \<Rightarrow> nat \<Rightarrow> pb_field_iter \<Rightarrow> mem \<Rightarrow> mem option"
and pb_release :: "'s dec_env \<Rightarrow> nat \<Rightarrow> pb_field list \<Rightarrow> int \<Rightarrow> mem \<Rightarrow> mem option" where
  "pb_release_single_field env 0 it m = None"
| "pb_release_single_field env (Suc n) it m =
     (let f = it_field it; type = fd_type f; pointer = (PB_ATYPE type = PB_ATYPE_POINTER)
      in if PB_HTYPE type = PB_HTYPE_ONEOF \<and> load_u32 m (it_pSize it) \<noteq> fd_tag f then Some m
         else case (if PB_LTYPE type = PB_LTYPE_EXTENSION then
                      each_extension (\<lambda>ext m.
                        pb_release_single_field env n (iter_from_extension (de_descr env) m ext) m)
                        n (load_ptr m (it_pData it)) m
                    else if PB_LTYPE type = PB_LTYPE_SUBMESSAGE then
                      let pItem = (if pointer then load_ptr m (it_pData it) else it_pData it)
                      in if pItem = 0 then Some m
                         else each_item (pb_release env n (de_descr env (fd_ptr f)))
                                (uint (fd_data_size f)) (release_count it m) pItem m
                    else Some m)
              of None \<Rightarrow> None
               | Some m' \<Rightarrow> if pointer then release_pointer env it m' else Some m')"
| "pb_release env 0 flds dest m = None"
| "pb_release env (Suc n) flds dest m =
     (if dest = 0 then Some m
      else case pb_field_iter_begin flds dest of
             (False, _) \<Rightarrow> Some m
           | (True, it) \<Rightarrow> each_field (pb_release_single_field env n) (length flds) it m)"

text \<open>The iterator is restored by a second search, which may end at another field with the same tag.\<close>

definition pb_release_union_field ::
  "'s dec_env \<Rightarrow> nat \<Rightarrow> pb_field_iter \<Rightarrow> 's dec \<Rightarrow> (bool \<times> 's dec \<times> pb_field_iter) option" where
  "pb_release_union_field env n it d =
     (let old_tag = load_u32 (ds_mem d) (it_pSize it); new_tag = fd_tag (it_field it)
      in if old_tag = 0 \<or> old_tag = new_tag then Some (True, d, it)
         else case pb_field_iter_find it old_tag of
                None \<Rightarrow> None
              | Some (False, it1) \<Rightarrow> Some (False, snd (dec_error d ''invalid union tag''), it1)
              | Some (True, it1) \<Rightarrow>
                  (case pb_release_single_field env n it1 (ds_mem d) of
                     None \<Rightarrow> None
                   | Some m \<Rightarrow>
                       (case pb_field_iter_find it1 new_tag of
                          None \<Rightarrow> None
                        | Some (False, it2) \<Rightarrow>
                            Some (False, snd (dec_error (d\<lparr>ds_mem := m\<rparr>) ''iterator error''), it2)
                        | Some (True, it2) \<Rightarrow> Some (True, d\<lparr>ds_mem := m\<rparr>, it2))))"

section \<open>Allocation\<close>

definition allocate_field :: "'s dec_env \<Rightarrow> 's dec \<Rightarrow> int \<Rightarrow> u64 \<Rightarrow> u64 \<Rightarrow> bool \<times> 's dec" where
  "allocate_field env d pData data_size array_size =
     (let check_limit = 2 ^ 32 :: u64; size_max = - 1 :: u64
      in if data_size = 0 \<or> array_size = 0 then dec_error d ''invalid size''
         else if (data_size \<ge> check_limit \<or> array_size \<ge> check_limit) \<and> size_max div array_size < data_size
         then dec_error d ''size too large''
         else case de_realloc env (ds_mem d) (load_ptr (ds_mem d) pData) (array_size * data_size) of
                (ptr, m) \<Rightarrow>
                  if ptr = 0 then dec_error (d\<lparr>ds_mem := m\<rparr>) ''realloc failed''
                  else (True, d\<lparr>ds_mem := store_ptr m pData ptr\<rparr>))"

definition initialize_pointer_field ::
  "'s dec_env \<Rightarrow> nat \<Rightarrow> int \<Rightarrow> pb_field \<Rightarrow> mem \<Rightarrow> mem option" where
  "initialize_pointer_field env n pItem f m =
     (if PB_LTYPE (fd_type f) = PB_LTYPE_STRING \<or> PB_LTYPE (fd_type f) = PB_LTYPE_BYTES
      then Some (store_ptr m pItem 0)
      else if PB_LTYPE (fd_type f) = PB_LTYPE_SUBMESSAGE
      then pb_message_set_to_defaults (de_descr env) n (de_descr env (fd_ptr f)) pItem
             (store m pItem (replicate (unat (fd_data_size f)) 0))
      else Some m)"

section \<open>Field decoders\<close>

text \<open>
  Store a value in \<open>size\<close> bytes; the result is what the memory then holds, read back as a signed or an
  unsigned integer. \<open>None\<close> when the size is not one of an integer.
\<close>

definition int_size :: "u32 \<Rightarrow> bool" where
  "int_size sz \<longleftrightarrow> sz = 8 \<or> sz = 4 \<or> sz = 2 \<or> sz = 1"

definition clamp_signed :: "u32 \<Rightarrow> u64 \<Rightarrow> u64" where
  "clamp_signed sz v =
     (if sz = 8 then v else if sz = 4 then scast (ucast v :: 32 word)
      else if sz = 2 then scast (ucast v :: 16 word) else scast (ucast v :: 8 word))"

definition clamp_unsigned :: "u32 \<Rightarrow> u64 \<Rightarrow> u64" where
  "clamp_unsigned sz v =
     (if sz = 8 then v else if sz = 4 then ucast (ucast v :: 32 word)
      else if sz = 2 then ucast (ucast v :: 16 word) else ucast (ucast v :: 8 word))"

definition store_int :: "'s dec \<Rightarrow> int \<Rightarrow> u32 \<Rightarrow> u64 \<Rightarrow> 's dec" where
  "store_int d dest sz v = map_mem (\<lambda>m. store m dest (le_bytes (unat sz) (unat v))) d"

definition pb_dec_varint :: "'s decoder" where
  "pb_dec_varint field dest d =
     with_value pb_decode_varint d (\<lambda>v d.
       let sz = fd_data_size field;
           svalue = (if sz = 8 then v else scast (ucast v :: 32 word))
       in if \<not> int_size sz then Some (dec_error d ''invalid data_size'')
          else let d' = store_int d dest sz svalue
               in if clamp_signed sz svalue \<noteq> svalue then Some (dec_error d' ''integer too large'')
                  else Some (True, d'))"

definition pb_dec_uvarint :: "'s decoder" where
  "pb_dec_uvarint field dest d =
     with_value pb_decode_varint d (\<lambda>v d.
       let sz = fd_data_size field
       in if \<not> int_size sz then Some (dec_error d ''invalid data_size'')
          else let d' = store_int d dest sz v
               in if clamp_unsigned sz v \<noteq> v then Some (dec_error d' ''integer too large'')
                  else Some (True, d'))"

definition pb_dec_svarint :: "'s decoder" where
  "pb_dec_svarint field dest d =
     with_value pb_decode_svarint d (\<lambda>v d.
       let sz = fd_data_size field
       in if \<not> int_size sz then Some (dec_error d ''invalid data_size'')
          else let d' = store_int d dest sz v
               in if clamp_signed sz v \<noteq> v then Some (dec_error d' ''integer too large'')
                  else Some (True, d'))"

definition pb_dec_fixed32 :: "'s decoder" where
  "pb_dec_fixed32 field dest d =
     with_value pb_decode_fixed32 d (\<lambda>v d. Some (True, map_mem (\<lambda>m. store_u32 m dest v) d))"

definition pb_dec_fixed64 :: "'s decoder" where
  "pb_dec_fixed64 field dest d =
     with_value pb_decode_fixed64 d (\<lambda>v d. Some (True, map_mem (\<lambda>m. store m dest (le_bytes 8 (unat v))) d))"

text \<open>The test \<^verbatim>\<open>size > PB_SIZE_MAX\<close> is never true for a 32-bit \<^verbatim>\<open>pb_size_t\<close>.\<close>

definition pb_dec_bytes :: "'s dec_env \<Rightarrow> 's decoder" where
  "pb_dec_bytes env field dest d =
     with_value pb_decode_varint32 d (\<lambda>sz d.
       let alloc_size = PB_BYTES_ARRAY_T_ALLOCSIZE (ucast sz);
           fill = (\<lambda>bdest d. Some (read_into (map_mem (\<lambda>m. store_u32 m (bytes_array_size bdest) sz) d)
                                          (bytes_array_bytes bdest) (ucast sz)))
       in if ucast sz > alloc_size then Some (dec_error d ''size too large'')
          else if PB_ATYPE (fd_type field) = PB_ATYPE_POINTER
          then and_then (Some (allocate_field env d dest alloc_size 1))
                 (\<lambda>d. fill (load_ptr (ds_mem d) dest) d)
          else if alloc_size > ucast (fd_data_size field) then Some (dec_error d ''bytes overflow'')
          else fill dest d)"

text \<open>\<^verbatim>\<open>size + 1\<close> is computed in 32 bits before it becomes a \<^verbatim>\<open>size_t\<close>.\<close>

definition pb_dec_string :: "'s dec_env \<Rightarrow> 's decoder" where
  "pb_dec_string env field dest d =
     with_value pb_decode_varint32 d (\<lambda>sz d.
       let alloc_size = ucast (sz + 1) :: u64;
           fill = (\<lambda>dest d. case read_into d dest (ucast sz) of
                     (status, d') \<Rightarrow> Some (status, map_mem (\<lambda>m. store m (dest + uint sz) [0]) d'))
       in if alloc_size < ucast sz then Some (dec_error d ''size too large'')
          else if PB_ATYPE (fd_type field) = PB_ATYPE_POINTER
          then and_then (Some (allocate_field env d dest alloc_size 1))
                 (\<lambda>d. fill (load_ptr (ds_mem d) dest) d)
          else if alloc_size > ucast (fd_data_size field) then Some (dec_error d ''string overflow'')
          else fill dest d)"

text \<open>
  Run a decoder in a length-limited substream: \<open>body\<close> gets the substream and returns its verdict, the
  parent is closed over what the substream has become.
\<close>

definition in_substream :: "'s dec \<Rightarrow> ('s dec \<Rightarrow> 's decoding) \<Rightarrow> 's decoding" where
  "in_substream d body =
     (case pb_make_string_substream (ds_stream d) of
        (None, s) \<Rightarrow> Some (False, d\<lparr>ds_stream := s\<rparr>)
      | (Some sub, s) \<Rightarrow>
          (case body (d\<lparr>ds_stream := sub\<rparr>) of
             None \<Rightarrow> None
           | Some (status, d') \<Rightarrow>
               (case pb_close_string_substream s (ds_stream d') of
                  (ok, s') \<Rightarrow> Some (ok \<and> status, d'\<lparr>ds_stream := s'\<rparr>))))"

text \<open>\<^verbatim>\<open>pb_decode\<close> in terms of \<^verbatim>\<open>pb_decode_noinit\<close> (\<open>rec\<close>); \<open>n\<close> is the fuel for defaults and release.\<close>

definition decode_with :: "'s dec_env \<Rightarrow> nat \<Rightarrow> 's msg_decoder \<Rightarrow> 's msg_decoder" where
  "decode_with env n rec flds dest d =
     with_mem (pb_message_set_to_defaults (de_descr env) n flds dest) d (\<lambda>d.
       case rec flds dest d of
         None \<Rightarrow> None
       | Some (True, d') \<Rightarrow> Some (True, d')
       | Some (False, d') \<Rightarrow> with_mem (pb_release env n flds dest) d' (\<lambda>d. Some (False, d)))"

definition pb_dec_submessage :: "'s dec_env \<Rightarrow> nat \<Rightarrow> 's msg_decoder \<Rightarrow> 's decoder" where
  "pb_dec_submessage env n rec field dest d =
     (if fd_ptr field = 0 then
        (case pb_make_string_substream (ds_stream d) of
           (None, s) \<Rightarrow> Some (False, d\<lparr>ds_stream := s\<rparr>)
         | (Some _, s) \<Rightarrow> Some (dec_error (d\<lparr>ds_stream := s\<rparr>) ''invalid field descriptor''))
      else in_substream d
        (if PB_HTYPE (fd_type field) = PB_HTYPE_REPEATED
         then decode_with env n rec (de_descr env (fd_ptr field)) dest
         else rec (de_descr env (fd_ptr field)) dest))"

definition pb_dec_fixed_length_bytes :: "'s decoder" where
  "pb_dec_fixed_length_bytes field dest d =
     with_value pb_decode_varint32 d (\<lambda>sz d.
       if sz = 0 then Some (True, map_mem (\<lambda>m. store m dest (replicate (unat (fd_data_size field)) 0)) d)
       else if sz \<noteq> fd_data_size field then Some (dec_error d ''incorrect fixed length bytes size'')
       else Some (read_into d dest (ucast (fd_data_size field))))"

definition PB_DECODERS :: "'s dec_env \<Rightarrow> nat \<Rightarrow> 's msg_decoder \<Rightarrow> byte \<Rightarrow> 's decoder option" where
  "PB_DECODERS env n rec ltype =
     (let table = [Some pb_dec_varint, Some pb_dec_uvarint, Some pb_dec_svarint,
                   Some pb_dec_fixed32, Some pb_dec_fixed64,
                   Some (pb_dec_bytes env), Some (pb_dec_string env), Some (pb_dec_submessage env n rec),
                   None, Some pb_dec_fixed_length_bytes]
      in if unat ltype < length table then table ! unat ltype else None)"

definition call_decoder :: "'s decoder option \<Rightarrow> 's decoder" where
  "call_decoder func field dest d = (case func of None \<Rightarrow> None | Some f \<Rightarrow> f field dest d)"

section \<open>A single field\<close>

text \<open>The address of element \<open>i\<close>: the product is computed in 32 bits.\<close>

definition item_addr :: "int \<Rightarrow> pb_field \<Rightarrow> u32 \<Rightarrow> int" where
  "item_addr base f i = base + uint (fd_data_size f * i)"

text \<open>
  The loop over the elements of a packed array; \<open>k\<close> bounds the rounds. The verdict is \<^verbatim>\<open>status\<close>.
\<close>

fun static_packed :: "'s decoder option \<Rightarrow> pb_field_iter \<Rightarrow> nat \<Rightarrow> 's dec \<Rightarrow> 's decoding" where
  "static_packed func it 0 d = None"
| "static_packed func it (Suc k) d =
     (let f = it_field it; sz = load_u32 (ds_mem d) (it_pSize it)
      in if 0 < is_bytes_left (ds_stream d) \<and> sz < fd_array_size f then
           and_then (call_decoder func f (item_addr (it_pData it) f sz) d) (\<lambda>d.
             static_packed func it k
               (map_mem (\<lambda>m. store_u32 m (it_pSize it) (load_u32 m (it_pSize it) + 1)) d))
         else Some (True, d))"

definition decode_static_field ::
  "'s dec_env \<Rightarrow> nat \<Rightarrow> 's msg_decoder \<Rightarrow> u32 \<Rightarrow> pb_field_iter \<Rightarrow> 's dec \<Rightarrow> 's decoding" where
  "decode_static_field env n rec wire_type it d =
     (let f = it_field it; type = fd_type f; func = PB_DECODERS env n rec (PB_LTYPE type);
          call = call_decoder func f
      in if PB_HTYPE type = PB_HTYPE_REQUIRED then call (it_pData it) d
         else if PB_HTYPE type = PB_HTYPE_OPTIONAL then
           call (it_pData it) (if it_pSize it \<noteq> it_pData it
                               then map_mem (\<lambda>m. store_bool m (it_pSize it) True) d else d)
         else if PB_HTYPE type = PB_HTYPE_REPEATED then
           if wire_type = PB_WT_STRING \<and> PB_LTYPE type \<le> PB_LTYPE_LAST_PACKABLE then
             (case pb_make_string_substream (ds_stream d) of
                (None, s) \<Rightarrow> Some (False, d\<lparr>ds_stream := s\<rparr>)
              | (Some sub, s) \<Rightarrow>
                  (case static_packed func it (Suc (unat (is_bytes_left sub))) (d\<lparr>ds_stream := sub\<rparr>) of
                     None \<Rightarrow> None
                   | Some (status, d') \<Rightarrow>
                       if is_bytes_left (ds_stream d') \<noteq> 0
                       then Some (dec_error (d'\<lparr>ds_stream := s\<rparr>) ''array overflow'')
                       else (case pb_close_string_substream s (ds_stream d') of
                               (ok, s') \<Rightarrow> Some (ok \<and> status, d'\<lparr>ds_stream := s'\<rparr>))))
           else
             let sz = load_u32 (ds_mem d) (it_pSize it);
                 d' = map_mem (\<lambda>m. store_u32 m (it_pSize it) (sz + 1)) d
             in if sz \<ge> fd_array_size f then Some (dec_error d' ''array overflow'')
                else call (item_addr (it_pData it) f sz) d'
         else
           let d' = map_mem (\<lambda>m. store_u32 m (it_pSize it) (fd_tag f)) d
           in if PB_LTYPE type = PB_LTYPE_SUBMESSAGE
              then with_mem (pb_message_set_to_defaults (de_descr env) n (de_descr env (fd_ptr f)) (it_pData it))
                     (map_mem (\<lambda>m. store m (it_pData it) (replicate (unat (fd_data_size f)) 0)) d')
                     (call (it_pData it))
              else call (it_pData it) d')"

text \<open>
  The loop over the elements of a packed array on the heap: grow the allocation by the number of
  elements that the rest of the substream could hold, initialise the next element, decode it.
\<close>

fun pointer_packed ::
  "'s dec_env \<Rightarrow> nat \<Rightarrow> 's decoder option \<Rightarrow> pb_field_iter \<Rightarrow> nat \<Rightarrow> u64 \<Rightarrow> 's pb_istream \<Rightarrow> 's dec
     \<Rightarrow> (bool \<times> 's pb_istream \<times> 's dec) option" where
  "pointer_packed env n func it 0 allocated parent d = None"
| "pointer_packed env n func it (Suc k) allocated parent d =
     (let f = it_field it; sz = load_u32 (ds_mem d) (it_pSize it); data_size = ucast (fd_data_size f) :: u64;
          left = is_bytes_left (ds_stream d)
      in if left = 0 then Some (True, parent, d)
         else if ucast sz + 1 > allocated \<and> data_size = 0 then None
         else let grown = allocated + ((left - 1) div data_size + 1);
                  (ok, allocated', d') =
                    (if ucast sz + 1 > allocated
                     then (case allocate_field env d (it_pData it) data_size grown of (ok, d') \<Rightarrow> (ok, grown, d'))
                     else (True, allocated, d));
                  pItem = item_addr (load_ptr (ds_mem d') (it_pData it)) f (load_u32 (ds_mem d') (it_pSize it))
              in if \<not> ok then Some (False, parent, d')
                 else case initialize_pointer_field env n pItem f (ds_mem d') of
                        None \<Rightarrow> None
                      | Some m \<Rightarrow>
                          (case call_decoder func f pItem (d'\<lparr>ds_mem := m\<rparr>) of
                             None \<Rightarrow> None
                           | Some (False, d'') \<Rightarrow> Some (False, parent, d'')
                           | Some (True, d'') \<Rightarrow>
                               if load_u32 (ds_mem d'') (it_pSize it) = PB_SIZE_MAX
                               then Some (False, parent\<lparr>is_errmsg := Some ''too many array entries''\<rparr>, d'')
                               else pointer_packed env n func it k allocated' parent
                                      (map_mem (\<lambda>m. store_u32 m (it_pSize it) (load_u32 m (it_pSize it) + 1)) d'')))"

definition decode_pointer_field ::
  "'s dec_env \<Rightarrow> nat \<Rightarrow> 's msg_decoder \<Rightarrow> u32 \<Rightarrow> pb_field_iter \<Rightarrow> 's dec \<Rightarrow> 's decoding" where
  "decode_pointer_field env n rec wire_type it d =
     (let f = it_field it; type = fd_type f; func = PB_DECODERS env n rec (PB_LTYPE type);
          data_size = ucast (fd_data_size f) :: u64;
          init = (\<lambda>p d k. with_mem (initialize_pointer_field env n p f) d k)
      in if PB_HTYPE type \<noteq> PB_HTYPE_REPEATED then
           with_mem (\<lambda>m. if PB_LTYPE type = PB_LTYPE_SUBMESSAGE \<and> load_ptr m (it_pData it) \<noteq> 0
                         then pb_release_single_field env n it m else Some m) d (\<lambda>d.
             let d = (if PB_HTYPE type = PB_HTYPE_ONEOF
                      then map_mem (\<lambda>m. store_u32 m (it_pSize it) (fd_tag f)) d else d)
             in if PB_LTYPE type = PB_LTYPE_STRING \<or> PB_LTYPE type = PB_LTYPE_BYTES
                then call_decoder func f (it_pData it) d
                else and_then (Some (allocate_field env d (it_pData it) data_size 1)) (\<lambda>d.
                       let p = load_ptr (ds_mem d) (it_pData it)
                       in init p d (\<lambda>d. call_decoder func f (load_ptr (ds_mem d) (it_pData it)) d)))
         else if wire_type = PB_WT_STRING \<and> PB_LTYPE type \<le> PB_LTYPE_LAST_PACKABLE then
           (let allocated = ucast (load_u32 (ds_mem d) (it_pSize it))
            in case pb_make_string_substream (ds_stream d) of
                 (None, s) \<Rightarrow> Some (False, d\<lparr>ds_stream := s\<rparr>)
               | (Some sub, s) \<Rightarrow>
                   (case pointer_packed env n func it (Suc (unat (is_bytes_left sub))) allocated s (d\<lparr>ds_stream := sub\<rparr>) of
                      None \<Rightarrow> None
                    | Some (status, s', d') \<Rightarrow>
                        (case pb_close_string_substream s' (ds_stream d') of
                           (ok, s'') \<Rightarrow> Some (ok \<and> status, d'\<lparr>ds_stream := s''\<rparr>))))
         else
           (let sz = load_u32 (ds_mem d) (it_pSize it)
            in if sz = PB_SIZE_MAX then Some (dec_error d ''too many array entries'')
               else let d' = map_mem (\<lambda>m. store_u32 m (it_pSize it) (sz + 1)) d
                    in and_then (Some (allocate_field env d' (it_pData it) data_size
                                        (ucast (load_u32 (ds_mem d') (it_pSize it))))) (\<lambda>d.
                         let pItem = item_addr (load_ptr (ds_mem d) (it_pData it)) f
                                       (load_u32 (ds_mem d) (it_pSize it) - 1)
                         in init pItem d (call_decoder func f pItem))))"

text \<open>The loop over a substream by the user's callback; \<open>k\<close> bounds the rounds.\<close>

fun callback_loop :: "('s dec \<Rightarrow> 's decoding) \<Rightarrow> nat \<Rightarrow> 's dec \<Rightarrow> 's decoding" where
  "callback_loop cb 0 d = None"
| "callback_loop cb (Suc k) d =
     and_then (cb d) (\<lambda>d. if is_bytes_left (ds_stream d) = 0 then Some (True, d) else callback_loop cb k d)"

definition decode_callback_field :: "'s dec_env \<Rightarrow> u32 \<Rightarrow> pb_field_iter \<Rightarrow> 's dec \<Rightarrow> 's decoding" where
  "decode_callback_field env wire_type it d =
     (let pCallback = it_pData it;
          cb = de_callback env (load_ptr (ds_mem d) (callback_funcs pCallback)) (it_field it) (callback_arg pCallback)
      in if pCallback = 0 \<or> load_ptr (ds_mem d) (callback_funcs pCallback) = 0
         then (case pb_skip_field (ds_stream d) wire_type of (ok, s) \<Rightarrow> Some (ok, d\<lparr>ds_stream := s\<rparr>))
         else if wire_type = PB_WT_STRING then
           (case pb_make_string_substream (ds_stream d) of
              (None, s) \<Rightarrow> Some (False, d\<lparr>ds_stream := s\<rparr>)
            | (Some sub, s) \<Rightarrow>
                (case callback_loop cb (Suc (unat (is_bytes_left sub))) (d\<lparr>ds_stream := sub\<rparr>) of
                   None \<Rightarrow> None
                 | Some (False, d') \<Rightarrow> Some (dec_error (d'\<lparr>ds_stream := s\<rparr>) ''callback failed'')
                 | Some (True, d') \<Rightarrow>
                     (case pb_close_string_substream s (ds_stream d') of
                        (ok, s') \<Rightarrow> Some (ok, d'\<lparr>ds_stream := s'\<rparr>))))
         else
           (case read_raw_value (ds_stream d) wire_type 10 of
              (None, s) \<Rightarrow> Some (False, d\<lparr>ds_stream := s\<rparr>)
            | (Some buffer, s) \<Rightarrow>
                (case cb (d\<lparr>ds_stream := pb_istream_from_buffer buffer (of_nat (length buffer))\<rparr>) of
                   None \<Rightarrow> None
                 | Some (ok, d') \<Rightarrow> Some (ok, d'\<lparr>ds_stream := s\<rparr>))))"

text \<open>The iterator is part of the result: releasing another member of a union moves it.\<close>

definition decode_field ::
  "'s dec_env \<Rightarrow> nat \<Rightarrow> 's msg_decoder \<Rightarrow> u32 \<Rightarrow> pb_field_iter \<Rightarrow> 's dec \<Rightarrow> (bool \<times> 's dec \<times> pb_field_iter) option" where
  "decode_field env n rec wire_type it d =
     and_then (if PB_HTYPE (fd_type (it_field it)) = PB_HTYPE_ONEOF
               then pb_release_union_field env n it d else Some (True, d, it))
       (\<lambda>(d, it).
          let atype = PB_ATYPE (fd_type (it_field it))
          in map_option (\<lambda>(ok, d'). (ok, d', it))
               (if atype = PB_ATYPE_STATIC then decode_static_field env n rec wire_type it d
                else if atype = PB_ATYPE_POINTER then decode_pointer_field env n rec wire_type it d
                else if atype = PB_ATYPE_CALLBACK then decode_callback_field env wire_type it d
                else Some (dec_error d ''invalid field type'')))"

section \<open>Extensions\<close>

definition default_extension_decoder ::
  "'s dec_env \<Rightarrow> nat \<Rightarrow> 's msg_decoder \<Rightarrow> int \<Rightarrow> u32 \<Rightarrow> u32 \<Rightarrow> 's dec \<Rightarrow> 's decoding" where
  "default_extension_decoder env n rec extension tag wire_type d =
     (let m = ds_mem d; field = field_at (extension_field (de_descr env) m extension) 0
      in if fd_tag field \<noteq> tag then Some (True, d)
         else map_option (\<lambda>(ok, d', _). (ok, d'))
                (decode_field env n rec wire_type (iter_from_extension (de_descr env) m extension)
                   (map_mem (\<lambda>m. store_bool m (ext_found extension) True) d)))"

text \<open>The loop of \<^verbatim>\<open>decode_extension\<close>; \<open>k\<close> bounds the length of the chain.\<close>

fun extension_loop ::
  "'s dec_env \<Rightarrow> nat \<Rightarrow> 's msg_decoder \<Rightarrow> u32 \<Rightarrow> u32 \<Rightarrow> u64 \<Rightarrow> nat \<Rightarrow> int \<Rightarrow> 's dec \<Rightarrow> 's decoding" where
  "extension_loop env n rec tag wire_type pos k extension d =
     (if extension = 0 \<or> pos \<noteq> is_bytes_left (ds_stream d) then Some (True, d)
      else case k of
             0 \<Rightarrow> None
           | Suc k \<Rightarrow>
               (let decode = load_ptr (ds_mem d) (ext_type_decode (load_ptr (ds_mem d) (ext_type extension)))
                in and_then
                     (if decode \<noteq> 0 then de_extension env decode extension tag wire_type d
                      else default_extension_decoder env n rec extension tag wire_type d)
                     (\<lambda>d. extension_loop env n rec tag wire_type pos k (load_ptr (ds_mem d) (ext_next extension)) d)))"

declare extension_loop.simps [simp del]

definition decode_extension ::
  "'s dec_env \<Rightarrow> nat \<Rightarrow> 's msg_decoder \<Rightarrow> u32 \<Rightarrow> u32 \<Rightarrow> pb_field_iter \<Rightarrow> 's dec \<Rightarrow> 's decoding" where
  "decode_extension env n rec tag wire_type it d =
     extension_loop env n rec tag wire_type (is_bytes_left (ds_stream d)) n (load_ptr (ds_mem d) (it_pData it)) d"

definition find_extension_field :: "pb_field_iter \<Rightarrow> (bool \<times> pb_field_iter) option" where
  "find_extension_field it =
     iter_find_loop (Suc (length (it_start it))) (it_pos it)
       (\<lambda>f. PB_LTYPE (fd_type f) = PB_LTYPE_EXTENSION) it"

section \<open>All fields\<close>

text \<open>
  The variables of \<^verbatim>\<open>pb_decode_noinit\<close>: \<^verbatim>\<open>fixed_count_field\<close> is the position of the field, or NULL;
  \<^verbatim>\<open>fixed_count_size\<close> is in memory at \<open>slot\<close>, because the iterator points to it.
\<close>

record 's dec_loop =
  dl_dec :: "'s dec"
  dl_iter :: pb_field_iter
  dl_fields_seen :: "u32 list"
  dl_extension_range_start :: u32
  dl_fixed_count_field :: "nat option"

definition count_slot :: "nat \<Rightarrow> int" where
  "count_slot n = - 8 * (int n + 1)"

text \<open>What one round of the loop ends with: \<^verbatim>\<open>break\<close>, the next round, or \<^verbatim>\<open>return false\<close>.\<close>

datatype 's round = Break "'s dec_loop" | Again "'s dec_loop" | Fail "'s dec"

text \<open>No field has the tag: try the extensions, else skip the value.\<close>

definition decode_unknown ::
  "'s dec_env \<Rightarrow> nat \<Rightarrow> 's msg_decoder \<Rightarrow> u32 \<Rightarrow> u32 \<Rightarrow> 's dec_loop \<Rightarrow> 's round option" where
  "decode_unknown env n rec tag wire_type L =
     (let skip = (\<lambda>L. case pb_skip_field (ds_stream (dl_dec L)) wire_type of
                     (True, s) \<Rightarrow> Some (Again (L\<lparr>dl_dec := (dl_dec L)\<lparr>ds_stream := s\<rparr>\<rparr>))
                   | (False, s) \<Rightarrow> Some (Fail ((dl_dec L)\<lparr>ds_stream := s\<rparr>)))
      in if tag < dl_extension_range_start L then skip L
         else case find_extension_field (dl_iter L) of
                None \<Rightarrow> None
              | Some (found, it) \<Rightarrow>
                  (let start = (if found then fd_tag (it_field it) else - 1);
                       L = L\<lparr>dl_iter := it, dl_extension_range_start := start\<rparr>
                   in if tag < start then skip L
                      else case decode_extension env n rec tag wire_type it (dl_dec L) of
                             None \<Rightarrow> None
                           | Some (False, d) \<Rightarrow> Some (Fail d)
                           | Some (True, d) \<Rightarrow>
                               if is_bytes_left (ds_stream (dl_dec L)) \<noteq> is_bytes_left (ds_stream d)
                               then Some (Again (L\<lparr>dl_dec := d\<rparr>)) else skip (L\<lparr>dl_dec := d\<rparr>)))"

definition fixed_count_wrong :: "nat \<Rightarrow> pb_field list \<Rightarrow> nat option \<Rightarrow> mem \<Rightarrow> bool" where
  "fixed_count_wrong n flds fixed m =
     (case fixed of None \<Rightarrow> False
                  | Some pos \<Rightarrow> load_u32 m (count_slot n) \<noteq> fd_array_size (field_at flds pos))"

definition mark_seen :: "u32 list \<Rightarrow> nat \<Rightarrow> u32 list" where
  "mark_seen seen i = seen[i div 32 := seen ! (i div 32) OR push_bit (i mod 32) 1]"

text \<open>A field with the tag was found; the iterator of \<open>L\<close> is there.\<close>

definition decode_known ::
  "'s dec_env \<Rightarrow> nat \<Rightarrow> 's msg_decoder \<Rightarrow> pb_field list \<Rightarrow> u32 \<Rightarrow> 's dec_loop \<Rightarrow> 's round option" where
  "decode_known env n rec flds wire_type L =
     (let it = dl_iter L; f = it_field it; d = dl_dec L;
          fixed = (PB_HTYPE (fd_type f) = PB_HTYPE_REPEATED \<and> it_pSize it = it_pData it);
          changed = (fixed \<and> dl_fixed_count_field L \<noteq> Some (it_pos it))
      in if changed \<and> fixed_count_wrong n flds (dl_fixed_count_field L) (ds_mem d)
         then Some (Fail (snd (dec_error d ''wrong size for fixed count field'')))
         else
           let d = (if changed then map_mem (\<lambda>m. store_u32 m (count_slot n) 0) d else d);
               it = (if fixed then it\<lparr>it_pSize := count_slot n\<rparr> else it);
               seen = (if PB_HTYPE (fd_type f) = PB_HTYPE_REQUIRED \<and>
                          it_required_field_index it < PB_MAX_REQUIRED_FIELDS
                       then mark_seen (dl_fields_seen L) (it_required_field_index it) else dl_fields_seen L)
           in case decode_field env n rec wire_type it d of
                None \<Rightarrow> None
              | Some (False, d', _) \<Rightarrow> Some (Fail d')
              | Some (True, d', it') \<Rightarrow>
                  Some (Again (L\<lparr>dl_dec := d', dl_iter := it', dl_fields_seen := seen,
                    dl_fixed_count_field := (if changed then Some (it_pos it) else dl_fixed_count_field L)\<rparr>)))"

definition decode_round ::
  "'s dec_env \<Rightarrow> nat \<Rightarrow> 's msg_decoder \<Rightarrow> pb_field list \<Rightarrow> 's dec_loop \<Rightarrow> 's round option" where
  "decode_round env n rec flds L =
     (let d = dl_dec L
      in case pb_decode_tag (ds_stream d) of
           (None, eof, s) \<Rightarrow>
             Some (if eof then Break (L\<lparr>dl_dec := d\<lparr>ds_stream := s\<rparr>\<rparr>) else Fail (d\<lparr>ds_stream := s\<rparr>))
         | (Some (wire_type, tag), _, s) \<Rightarrow>
             (let d = d\<lparr>ds_stream := s\<rparr>
              in case pb_field_iter_find (dl_iter L) tag of
                   None \<Rightarrow> None
                 | Some (False, it) \<Rightarrow> decode_unknown env n rec tag wire_type (L\<lparr>dl_dec := d, dl_iter := it\<rparr>)
                 | Some (True, it) \<Rightarrow> decode_known env n rec flds wire_type (L\<lparr>dl_dec := d, dl_iter := it\<rparr>)))"

text \<open>The loop: \<open>Inl\<close> when it returns false, \<open>Inr\<close> when it ends. \<open>k\<close> bounds the rounds.\<close>

fun decode_loop :: "('s dec_loop \<Rightarrow> 's round option) \<Rightarrow> nat \<Rightarrow> 's dec_loop \<Rightarrow> ('s dec + 's dec_loop) option" where
  "decode_loop step 0 L = None"
| "decode_loop step (Suc k) L =
     (if is_bytes_left (ds_stream (dl_dec L)) = 0 then Some (Inr L)
      else case step L of
             None \<Rightarrow> None
           | Some (Break L') \<Rightarrow> Some (Inr L')
           | Some (Fail d) \<Rightarrow> Some (Inl d)
           | Some (Again L') \<Rightarrow> decode_loop step k L')"

text \<open>The walk to the end of the descriptors: the required index and the type of the last field.\<close>

fun to_last_field :: "nat \<Rightarrow> pb_field_iter \<Rightarrow> (nat \<times> byte \<times> pb_field_iter) option" where
  "to_last_field 0 it = None"
| "to_last_field (Suc n) it =
     (case pb_field_iter_next it of
        (True, it') \<Rightarrow> to_last_field n it'
      | (False, it') \<Rightarrow> Some (it_required_field_index it, fd_type (it_field it), it'))"

definition all_seen :: "u32 list \<Rightarrow> nat \<Rightarrow> bool" where
  "all_seen seen req \<longleftrightarrow>
     list_all (\<lambda>w. w = - 1) (take (req div 32) seen) \<and>
     (req mod 32 \<noteq> 0 \<longrightarrow> seen ! (req div 32) = drop_bit (32 - req mod 32) (- 1))"

definition check_required :: "'s dec_loop \<Rightarrow> 's decoding" where
  "check_required L =
     (case to_last_field (Suc (length (it_start (dl_iter L)))) (dl_iter L) of
        None \<Rightarrow> None
      | Some (count, last_type, it) \<Rightarrow>
          (let count = (if PB_HTYPE last_type = PB_HTYPE_REQUIRED \<and> fd_tag (it_field it) \<noteq> 0
                        then Suc count else count);
               count = min count PB_MAX_REQUIRED_FIELDS
           in if 0 < count \<and> \<not> all_seen (dl_fields_seen L) count
              then Some (dec_error (dl_dec L) ''missing required field'')
              else Some (True, dl_dec L)))"

fun pb_decode_noinit :: "'s dec_env \<Rightarrow> nat \<Rightarrow> 's msg_decoder" where
  "pb_decode_noinit env 0 flds dest d = None"
| "pb_decode_noinit env (Suc n) flds dest d =
     (let L = \<lparr>dl_dec = map_mem (\<lambda>m. store_u32 m (count_slot n) 0) d,
               dl_iter = snd (pb_field_iter_begin flds dest),
               dl_fields_seen = [0, 0], dl_extension_range_start = 0, dl_fixed_count_field = None\<rparr>
      in case decode_loop (decode_round env n (pb_decode_noinit env n) flds)
                (Suc (unat (is_bytes_left (ds_stream d)))) L of
           None \<Rightarrow> None
         | Some (Inl d') \<Rightarrow> Some (False, d')
         | Some (Inr L') \<Rightarrow>
             if fixed_count_wrong n flds (dl_fixed_count_field L') (ds_mem (dl_dec L'))
             then Some (dec_error (dl_dec L') ''wrong size for fixed count field'')
             else check_required L')"

definition pb_decode :: "'s dec_env \<Rightarrow> nat \<Rightarrow> 's msg_decoder" where
  "pb_decode env n = decode_with env n (pb_decode_noinit env n)"

definition pb_decode_delimited_noinit :: "'s dec_env \<Rightarrow> nat \<Rightarrow> 's msg_decoder" where
  "pb_decode_delimited_noinit env n flds dest d = in_substream d (pb_decode_noinit env n flds dest)"

definition pb_decode_delimited :: "'s dec_env \<Rightarrow> nat \<Rightarrow> 's msg_decoder" where
  "pb_decode_delimited env n flds dest d = in_substream d (pb_decode env n flds dest)"

definition pb_decode_nullterminated :: "'s dec_env \<Rightarrow> nat \<Rightarrow> 's msg_decoder" where
  "pb_decode_nullterminated env n = pb_decode env n"

end
