(* ===== verification/PbEncode.thy ===== *)
theory PbEncode
  imports PbIter PbPrim
begin

text \<open>
  The message encoder of nanopb (\<^verbatim>\<open>pb_encode.c\<close>). The message is read from a memory that encoding
  does not change. Each function returns its verdict with the stream; \<open>None\<close> means that the nesting
  of the message is deeper than the fuel of \<open>pb_encode\<close>, or that the C program calls a function pointer
  that is NULL (an \<^verbatim>\<open>LTYPE\<close> without an encoder). Functions that encode a submessage take \<open>pb_encode\<close> as
  the argument \<open>rec\<close>; the definitions stand in the order of the file otherwise.
\<close>

section \<open>What the encoder calls outside of the library\<close>

text \<open>
  The descriptor array at an address, the encode callbacks of callback fields (function pointer,
  stream, field, address of \<^verbatim>\<open>arg\<close>) and of extension types (function pointer, stream, extension).
\<close>

record 's enc_env =
  ee_descr :: "int \<Rightarrow> pb_field list"
  ee_callback :: "int \<Rightarrow> 's pb_ostream \<Rightarrow> pb_field \<Rightarrow> int \<Rightarrow> (bool \<times> 's pb_ostream) option"
  ee_extension :: "int \<Rightarrow> 's pb_ostream \<Rightarrow> int \<Rightarrow> (bool \<times> 's pb_ostream) option"

type_synonym 's encoding = "(bool \<times> 's pb_ostream) option"
type_synonym 's encoder = "'s pb_ostream \<Rightarrow> pb_field \<Rightarrow> int \<Rightarrow> 's encoding"
type_synonym 's msg_encoder = "'s pb_ostream \<Rightarrow> pb_field list \<Rightarrow> int \<Rightarrow> 's encoding"

section \<open>Field encoders\<close>

text \<open>Sign extension of a loaded integer to the 64 bits of \<^verbatim>\<open>pb_int64_t\<close>.\<close>

definition load_i64 :: "mem \<Rightarrow> int \<Rightarrow> u32 \<Rightarrow> u64 option" where
  "load_i64 m a data_size =
     (if data_size = 1 then Some (scast (of_nat (le_val (load m a 1)) :: 8 word))
      else if data_size = 2 then Some (scast (of_nat (le_val (load m a 2)) :: 16 word))
      else if data_size = 4 then Some (scast (of_nat (le_val (load m a 4)) :: 32 word))
      else if data_size = 8 then Some (of_nat (le_val (load m a 8)))
      else None)"

definition load_u64 :: "mem \<Rightarrow> int \<Rightarrow> u32 \<Rightarrow> u64 option" where
  "load_u64 m a data_size =
     (if data_size \<in> {1, 2, 4, 8} then Some (of_nat (le_val (load m a (unat data_size)))) else None)"

definition pb_enc_varint :: "mem \<Rightarrow> 's encoder" where
  "pb_enc_varint m s field src =
     (case load_i64 m src (fd_data_size field) of
        None \<Rightarrow> Some (os_error s ''invalid data_size'')
      | Some v \<Rightarrow> Some (pb_encode_varint s v))"

definition pb_enc_uvarint :: "mem \<Rightarrow> 's encoder" where
  "pb_enc_uvarint m s field src =
     (case load_u64 m src (fd_data_size field) of
        None \<Rightarrow> Some (os_error s ''invalid data_size'')
      | Some v \<Rightarrow> Some (pb_encode_varint s v))"

definition pb_enc_svarint :: "mem \<Rightarrow> 's encoder" where
  "pb_enc_svarint m s field src =
     (case load_i64 m src (fd_data_size field) of
        None \<Rightarrow> Some (os_error s ''invalid data_size'')
      | Some v \<Rightarrow> Some (pb_encode_svarint s v))"

definition pb_enc_fixed64 :: "mem \<Rightarrow> 's encoder" where
  "pb_enc_fixed64 m s field src = Some (pb_encode_fixed64 s (of_nat (le_val (load m src 8))))"

definition pb_enc_fixed32 :: "mem \<Rightarrow> 's encoder" where
  "pb_enc_fixed32 m s field src = Some (pb_encode_fixed32 s (load_u32 m src))"

definition pb_enc_bytes :: "mem \<Rightarrow> 's encoder" where
  "pb_enc_bytes m s field src =
     (if src = 0 then Some (pb_encode_string s [] 0)
      else let sz = load_u32 m (bytes_array_size src)
           in if PB_ATYPE (fd_type field) = PB_ATYPE_STATIC \<and>
                 PB_BYTES_ARRAY_T_ALLOCSIZE (ucast sz) > ucast (fd_data_size field)
              then Some (os_error s ''bytes size exceeded'')
              else Some (pb_encode_string s (load m (bytes_array_bytes src) (unat sz)) (ucast sz)))"

text \<open>The length of the string at \<open>p\<close>, not looking further than \<open>max_size\<close> bytes.\<close>

function str_size :: "mem \<Rightarrow> int \<Rightarrow> nat \<Rightarrow> nat" where
  "str_size m p max_size =
     (if 0 < max_size \<and> mbytes m p \<noteq> 0 then Suc (str_size m (p + 1) (max_size - 1)) else 0)"
  by pat_completeness auto
termination
  by (relation "measure (\<lambda>(m, p, n). n)") auto

declare str_size.simps [simp del]

definition pb_enc_string :: "mem \<Rightarrow> 's encoder" where
  "pb_enc_string m s field src =
     (let max_size = (if PB_ATYPE (fd_type field) = PB_ATYPE_POINTER then 2 ^ 64 - 1
                      else unat (fd_data_size field));
          sz = (if src = 0 then 0 else str_size m src max_size)
      in Some (pb_encode_string s (load m src sz) (of_nat sz)))"

definition pb_encode_submessage :: "'s msg_encoder \<Rightarrow> 's pb_ostream \<Rightarrow> pb_field list \<Rightarrow> int \<Rightarrow> 's encoding" where
  "pb_encode_submessage rec s flds src =
     (case rec (PB_OSTREAM_SIZING (os_state s)) flds src of
        None \<Rightarrow> None
      | Some (False, substream) \<Rightarrow> Some (False, s\<lparr>os_errmsg := os_errmsg substream\<rparr>)
      | Some (True, substream) \<Rightarrow>
          (let sz = os_bytes_written substream
           in and_then (Some (pb_encode_varint s sz)) (\<lambda>s.
                if os_callback s = None then Some (pb_write s [] sz)
                else if os_bytes_written s + sz > os_max_size s then Some (os_error s ''stream full'')
                else case rec (s\<lparr>os_max_size := sz, os_bytes_written := 0, os_errmsg := None\<rparr>) flds src of
                       None \<Rightarrow> None
                     | Some (status, sub) \<Rightarrow>
                         (let s' = s\<lparr>os_bytes_written := os_bytes_written s + os_bytes_written sub,
                                     os_state := os_state sub, os_errmsg := os_errmsg sub\<rparr>
                          in if os_bytes_written sub \<noteq> sz then Some (os_error s' ''submsg size changed'')
                             else Some (status, s')))))"

definition pb_enc_submessage :: "'s enc_env \<Rightarrow> 's msg_encoder \<Rightarrow> 's encoder" where
  "pb_enc_submessage env rec s field src =
     (if fd_ptr field = 0 then Some (os_error s ''invalid field descriptor'')
      else pb_encode_submessage rec s (ee_descr env (fd_ptr field)) src)"

definition pb_enc_fixed_length_bytes :: "mem \<Rightarrow> 's encoder" where
  "pb_enc_fixed_length_bytes m s field src =
     Some (pb_encode_string s (load m src (unat (fd_data_size field))) (ucast (fd_data_size field)))"

text \<open>The table of field encoders, in the order of the \<^verbatim>\<open>LTYPE\<close> values; extensions have none.\<close>

definition PB_ENCODERS :: "'s enc_env \<Rightarrow> mem \<Rightarrow> 's msg_encoder \<Rightarrow> byte \<Rightarrow> 's encoder option" where
  "PB_ENCODERS env m rec ltype =
     (let table = [Some (pb_enc_varint m), Some (pb_enc_uvarint m), Some (pb_enc_svarint m),
                   Some (pb_enc_fixed32 m), Some (pb_enc_fixed64 m),
                   Some (pb_enc_bytes m), Some (pb_enc_string m), Some (pb_enc_submessage env rec),
                   None, Some (pb_enc_fixed_length_bytes m)]
      in if unat ltype < length table then table ! unat ltype else None)"

text \<open>Calling through the table.\<close>

definition call_encoder :: "'s encoder option \<Rightarrow> 's encoder" where
  "call_encoder func s field src = (case func of None \<Rightarrow> None | Some f \<Rightarrow> f s field src)"

section \<open>A single field\<close>

text \<open>
  One pass over the elements of an array: \<open>addr\<close> gives the argument that \<^verbatim>\<open>func\<close> gets for the
  element at \<open>p\<close>.
\<close>

fun encode_elements :: "('s pb_ostream \<Rightarrow> int \<Rightarrow> 's encoding) \<Rightarrow> int \<Rightarrow> nat \<Rightarrow> int \<Rightarrow> 's pb_ostream \<Rightarrow> 's encoding" where
  "encode_elements f step 0 p s = Some (True, s)"
| "encode_elements f step (Suc count) p s =
     and_then (f s p) (encode_elements f step count (p + step))"

definition encode_array :: "mem \<Rightarrow> 's pb_ostream \<Rightarrow> pb_field \<Rightarrow> int \<Rightarrow> nat \<Rightarrow> 's encoder option \<Rightarrow> 's encoding" where
  "encode_array m s field pData count func =
     (let atype = PB_ATYPE (fd_type field); ltype = PB_LTYPE (fd_type field);
          step = uint (fd_data_size field)
      in if count = 0 then Some (True, s)
         else if atype \<noteq> PB_ATYPE_POINTER \<and> count > unat (fd_array_size field)
         then Some (os_error s ''array max size exceeded'')
         else if ltype \<le> PB_LTYPE_LAST_PACKABLE then
           and_then (Some (pb_encode_tag s PB_WT_STRING (fd_tag field))) (\<lambda>s.
             case (if ltype = PB_LTYPE_FIXED32 then Some (True, 4 * of_nat count)
                   else if ltype = PB_LTYPE_FIXED64 then Some (True, 8 * of_nat count)
                   else map_option (map_prod id os_bytes_written)
                     (encode_elements (\<lambda>s. call_encoder func s field) step count pData
                       (PB_OSTREAM_SIZING (os_state s))))
             of None \<Rightarrow> None
              | Some (False, _) \<Rightarrow> Some (False, s)
              | Some (True, sz) \<Rightarrow>
                  and_then (Some (pb_encode_varint s sz)) (\<lambda>s.
                    if os_callback s = None then Some (pb_write s [] sz)
                    else encode_elements (\<lambda>s. call_encoder func s field) step count pData s))
         else
           encode_elements (\<lambda>s p.
             and_then (Some (pb_encode_tag_for_field s field)) (\<lambda>s.
               if atype = PB_ATYPE_POINTER \<and> (ltype = PB_LTYPE_STRING \<or> ltype = PB_LTYPE_BYTES)
               then call_encoder func s field (load_ptr m p)
               else call_encoder func s field p)) step count pData s)"

text \<open>
  \<^verbatim>\<open>pb_check_proto3_default_value\<close> recurses into static submessages; \<open>fuel\<close> is the nesting depth. The
  loop over the fields of a submessage stops at the first one with a value.
\<close>

fun all_default :: "(pb_field \<Rightarrow> int \<Rightarrow> bool option) \<Rightarrow> nat \<Rightarrow> pb_field_iter \<Rightarrow> bool option" where
  "all_default check 0 it = None"
| "all_default check (Suc n) it =
     (case check (it_field it) (it_pData it) of
        None \<Rightarrow> None
      | Some False \<Rightarrow> Some False
      | Some True \<Rightarrow> (case pb_field_iter_next it of
                        (True, it') \<Rightarrow> all_default check n it'
                      | (False, _) \<Rightarrow> Some True))"

fun pb_check_proto3_default_value ::
  "(int \<Rightarrow> pb_field list) \<Rightarrow> mem \<Rightarrow> nat \<Rightarrow> pb_field \<Rightarrow> int \<Rightarrow> bool option" where
  "pb_check_proto3_default_value descr m fuel field pData =
     (let atype = PB_ATYPE (fd_type field); htype = PB_HTYPE (fd_type field);
          ltype = PB_LTYPE (fd_type field); pSize = pData + sint (fd_size_offset field)
      in if htype = PB_HTYPE_REQUIRED then Some False
         else if htype = PB_HTYPE_REPEATED then Some (load_u32 m pSize = 0)
         else if htype = PB_HTYPE_ONEOF then Some (load_u32 m pSize = 0)
         else if htype = PB_HTYPE_OPTIONAL \<and> fd_size_offset field \<noteq> 0 then Some (\<not> load_bool m pSize)
         else if atype = PB_ATYPE_STATIC \<and> ltype = PB_LTYPE_BYTES
         then Some (load_u32 m (bytes_array_size pData) = 0)
         else if atype = PB_ATYPE_STATIC \<and> ltype = PB_LTYPE_STRING then Some (mbytes m pData = 0)
         else if atype = PB_ATYPE_STATIC \<and> ltype = PB_LTYPE_FIXED_LENGTH_BYTES
         then Some (fd_data_size field = 0)
         else if atype = PB_ATYPE_STATIC \<and> ltype = PB_LTYPE_SUBMESSAGE then
           (case fuel of
              0 \<Rightarrow> None
            | Suc n \<Rightarrow>
                (case pb_field_iter_begin (descr (fd_ptr field)) pData of
                   (False, _) \<Rightarrow> Some True
                 | (True, it) \<Rightarrow>
                     all_default (pb_check_proto3_default_value descr m n) (length (it_start it)) it))
         else Some (list_all (\<lambda>b. b = 0) (load m pData (unat (fd_data_size field)))))"

declare pb_check_proto3_default_value.simps [simp del]

definition encode_basic_field ::
  "'s enc_env \<Rightarrow> mem \<Rightarrow> nat \<Rightarrow> 's msg_encoder \<Rightarrow> 's encoder" where
  "encode_basic_field env m fuel rec s field pData =
     (let func = PB_ENCODERS env m rec (PB_LTYPE (fd_type field));
          htype = PB_HTYPE (fd_type field);
          pSize = pData + sint (fd_size_offset field);
          explicit = (fd_size_offset field \<noteq> 0)
      in case (if explicit then Some True   \<comment> \<open>\<^verbatim>\<open>implicit_has\<close> is not read\<close>
               else if htype = PB_HTYPE_OPTIONAL
               then map_option Not (pb_check_proto3_default_value (ee_descr env) m fuel field pData)
               else Some True)
         of None \<Rightarrow> None
          | Some has \<Rightarrow>
             (let pointer = (PB_ATYPE (fd_type field) = PB_ATYPE_POINTER);
                  pData = (if pointer then load_ptr m pData else pData);
                  implicit_has = (if pointer then pData \<noteq> 0 else has);
                  encode = (\<lambda>s. and_then (Some (pb_encode_tag_for_field s field))
                                 (\<lambda>s. call_encoder func s field pData))
              in if htype = PB_HTYPE_REQUIRED then
                   (if pData = 0 then Some (os_error s ''missing required field'') else encode s)
                 else if htype = PB_HTYPE_OPTIONAL then
                   (if (if explicit then load_bool m pSize else implicit_has)
                    then encode s else Some (True, s))
                 else if htype = PB_HTYPE_REPEATED then
                   encode_array m s field pData
                     (if explicit then unat (load_u32 m pSize) else unat (fd_array_size field)) func
                 else \<comment> \<open>\<^verbatim>\<open>PB_HTYPE_ONEOF\<close>, the last of the four values\<close>
                   (if \<not> explicit then None   \<comment> \<open>reads four bytes of the one-byte \<^verbatim>\<open>implicit_has\<close>\<close>
                    else if load_u32 m pSize = fd_tag field then encode s else Some (True, s))))"

definition encode_callback_field :: "'s enc_env \<Rightarrow> mem \<Rightarrow> 's encoder" where
  "encode_callback_field env m s field pData =
     (let encode = load_ptr m (callback_funcs pData)
      in if encode = 0 then Some (True, s)
         else case ee_callback env encode s field (callback_arg pData) of
                None \<Rightarrow> None
              | Some (True, s') \<Rightarrow> Some (True, s')
              | Some (False, s') \<Rightarrow> Some (os_error s' ''callback error''))"

definition encode_field :: "'s enc_env \<Rightarrow> mem \<Rightarrow> nat \<Rightarrow> 's msg_encoder \<Rightarrow> 's encoder" where
  "encode_field env m fuel rec s field pData =
     (let atype = PB_ATYPE (fd_type field)
      in if atype = PB_ATYPE_STATIC \<or> atype = PB_ATYPE_POINTER then encode_basic_field env m fuel rec s field pData
         else if atype = PB_ATYPE_CALLBACK then encode_callback_field env m s field pData
         else Some (os_error s ''invalid field type''))"

section \<open>Extensions\<close>

definition default_extension_encoder ::
  "'s enc_env \<Rightarrow> mem \<Rightarrow> nat \<Rightarrow> 's msg_encoder \<Rightarrow> 's pb_ostream \<Rightarrow> int \<Rightarrow> 's encoding" where
  "default_extension_encoder env m fuel rec s extension =
     (let field = field_at (ee_descr env (load_ptr m (ext_type_arg (load_ptr m (ext_type extension))))) 0
      in if PB_ATYPE (fd_type field) = PB_ATYPE_POINTER
         then encode_field env m fuel rec s field (ext_dest extension)
         else encode_field env m fuel rec s field (load_ptr m (ext_dest extension)))"

text \<open>The chain of extensions from \<open>extension\<close>; \<open>n\<close> bounds its length.\<close>

fun encode_extensions ::
  "'s enc_env \<Rightarrow> mem \<Rightarrow> nat \<Rightarrow> 's msg_encoder \<Rightarrow> nat \<Rightarrow> int \<Rightarrow> 's pb_ostream \<Rightarrow> 's encoding" where
  "encode_extensions env m fuel rec n extension s =
     (if extension = 0 then Some (True, s)
      else case n of
             0 \<Rightarrow> None
           | Suc n \<Rightarrow>
               and_then
                 (let encode = load_ptr m (ext_type_encode (load_ptr m (ext_type extension)))
                  in if encode \<noteq> 0 then ee_extension env encode s extension
                     else default_extension_encoder env m fuel rec s extension)
                 (encode_extensions env m fuel rec n (load_ptr m (ext_next extension))))"

declare encode_extensions.simps [simp del]

definition encode_extension_field :: "'s enc_env \<Rightarrow> mem \<Rightarrow> nat \<Rightarrow> 's msg_encoder \<Rightarrow> 's encoder" where
  "encode_extension_field env m fuel rec s field pData =
     encode_extensions env m fuel rec fuel (load_ptr m pData) s"

section \<open>All fields\<close>

definition encode_any_field :: "'s enc_env \<Rightarrow> mem \<Rightarrow> nat \<Rightarrow> 's msg_encoder \<Rightarrow> 's encoder" where
  "encode_any_field env m fuel rec s field pData =
     (if PB_LTYPE (fd_type field) = PB_LTYPE_EXTENSION
      then encode_extension_field env m fuel rec s field pData
      else encode_field env m fuel rec s field pData)"

text \<open>The \<^verbatim>\<open>do ... while\<close> of \<^verbatim>\<open>pb_encode\<close>; \<open>n\<close> is the number of fields left.\<close>

fun encode_fields :: "'s encoder \<Rightarrow> nat \<Rightarrow> pb_field_iter \<Rightarrow> 's pb_ostream \<Rightarrow> 's encoding" where
  "encode_fields enc 0 it s = None"
| "encode_fields enc (Suc n) it s =
     and_then (enc s (it_field it) (it_pData it)) (\<lambda>s.
       case pb_field_iter_next it of
         (True, it') \<Rightarrow> encode_fields enc n it' s
       | (False, _) \<Rightarrow> Some (True, s))"

fun pb_encode :: "'s enc_env \<Rightarrow> mem \<Rightarrow> nat \<Rightarrow> 's msg_encoder" where
  "pb_encode env m 0 s flds src = None"
| "pb_encode env m (Suc fuel) s flds src =
     (case pb_field_iter_begin flds src of
        (False, _) \<Rightarrow> Some (True, s)
      | (True, it) \<Rightarrow>
          encode_fields (encode_any_field env m fuel (pb_encode env m fuel)) (length flds) it s)"

definition pb_encode_delimited :: "'s enc_env \<Rightarrow> mem \<Rightarrow> nat \<Rightarrow> 's msg_encoder" where
  "pb_encode_delimited env m fuel s flds src = pb_encode_submessage (pb_encode env m fuel) s flds src"

definition pb_encode_nullterminated :: "'s enc_env \<Rightarrow> mem \<Rightarrow> nat \<Rightarrow> 's msg_encoder" where
  "pb_encode_nullterminated env m fuel s flds src =
     and_then (pb_encode env m fuel s flds src) (\<lambda>s. Some (pb_write s [0] 1))"

text \<open>The size is stored only on success.\<close>

definition pb_get_encoded_size ::
  "'s enc_env \<Rightarrow> mem \<Rightarrow> nat \<Rightarrow> 's \<Rightarrow> pb_field list \<Rightarrow> int \<Rightarrow> u64 option option" where
  "pb_get_encoded_size env m fuel null flds src =
     (case pb_encode env m fuel (PB_OSTREAM_SIZING null) flds src of
        None \<Rightarrow> None
      | Some (False, _) \<Rightarrow> Some None
      | Some (True, s) \<Rightarrow> Some (Some (os_bytes_written s)))"

end
