(* ===== verification/PbStreamSpec.thy ===== *)
theory PbStreamSpec
  imports PbPrim
begin

text \<open>
  The contract of the streams. \<open>emits A (bs, ok)\<close> says what an output operation does to a sizing
  stream and to a memory buffer, \<open>reads D bs x\<close> what an input operation does to a memory buffer that
  starts with \<open>bs\<close>. Both compose over the sequencing of the code, so the behaviour of a message
  encoder is the concatenation of the behaviours of its parts.
\<close>

section \<open>What an output operation does to a memory buffer\<close>

definition os_put :: "obuf pb_ostream \<Rightarrow> byte list \<Rightarrow> obuf pb_ostream" where
  "os_put s bs =
     s\<lparr>os_bytes_written := os_bytes_written s + of_nat (length bs),
       os_state := (if os_callback s = None then os_state s else snd (buf_write (os_state s) bs))\<rparr>"

definition os_wf :: "obuf pb_ostream \<Rightarrow> bool" where
  "os_wf s \<longleftrightarrow> os_errmsg s = None \<and> (os_callback s = None \<or>
     os_callback s = Some buf_write \<and> os_bytes_written s \<le> os_max_size s)"

definition os_room :: "obuf pb_ostream \<Rightarrow> nat \<Rightarrow> bool" where
  "os_room s n \<longleftrightarrow> os_callback s = None \<or> unat (os_bytes_written s) + n \<le> unat (os_max_size s)"

text \<open>
  \<open>os_keeps s t\<close>: from \<open>s\<close> to \<open>t\<close> the stream wrote at most the bytes its limit allows, moved the
  buffer pointer by as much, and left every other byte of the buffer alone.
\<close>

definition os_keeps :: "obuf pb_ostream \<Rightarrow> obuf pb_ostream \<Rightarrow> bool" where
  "os_keeps s t \<longleftrightarrow>
     os_callback t = os_callback s \<and> os_max_size t = os_max_size s \<and>
     os_bytes_written s \<le> os_bytes_written t \<and>
     (os_callback s \<noteq> None \<longrightarrow>
        os_bytes_written t \<le> os_max_size t \<and>
        snd (os_state t) = snd (os_state s) + (unat (os_bytes_written t) - unat (os_bytes_written s)) \<and>
        (\<forall>i. i < snd (os_state s) \<or>
             snd (os_state s) + (unat (os_max_size s) - unat (os_bytes_written s)) \<le> i
             \<longrightarrow> fst (os_state t) i = fst (os_state s) i))"

text \<open>
  \<open>emits A (bs, ok)\<close>: on a sizing stream and on a memory buffer with enough room, \<open>A\<close> writes
  exactly \<open>bs\<close> and returns \<open>ok\<close>; without room it returns false; it never writes past the limit.
\<close>

definition emits_at :: "(bool \<times> obuf pb_ostream) option \<Rightarrow> obuf pb_ostream \<Rightarrow> byte list \<times> bool \<Rightarrow> bool" where
  "emits_at out s r \<longleftrightarrow>
     (if snd r \<and> os_room s (length (fst r)) then out = Some (True, os_put s (fst r))
      else \<exists>t. out = Some (False, t) \<and> os_keeps s t)"

definition emits :: "(obuf pb_ostream \<Rightarrow> (bool \<times> obuf pb_ostream) option) \<Rightarrow> byte list \<times> bool \<Rightarrow> bool" where
  "emits A r \<longleftrightarrow> (\<forall>s. os_wf s \<longrightarrow> unat (os_bytes_written s) + length (fst r) < 2 ^ 64 \<longrightarrow> emits_at (A s) s r)"

lemma os_keeps_refl: "os_wf s \<Longrightarrow> os_keeps s s"
  by (auto simp: os_keeps_def os_wf_def)

lemma os_keeps_trans: "os_keeps s t \<Longrightarrow> os_keeps t u \<Longrightarrow> os_keeps s u"
  by (auto simp: os_keeps_def word_le_nat_alt)

lemma os_put_Nil [simp]: "os_put s [] = s"
  by (cases s) (auto simp: os_put_def buf_write_def fun_eq_iff prod_eq_iff)

lemma unat_add_small: "unat a + n < 2 ^ 64 \<Longrightarrow> unat (a + of_nat n :: u64) = unat a + n"
  by (simp add: unat_word_ariths unsigned_of_nat take_bit_eq_mod mod_add_right_eq)

lemma os_put_append: "os_put (os_put s as) bs = os_put s (as @ bs)"
  by (cases s) (auto simp: os_put_def buf_write_def fun_eq_iff prod_eq_iff nth_append algebra_simps)

lemma os_wf_put: "os_wf s \<Longrightarrow> unat (os_bytes_written s) + length bs < 2 ^ 64 \<Longrightarrow>
   os_room s (length bs) \<Longrightarrow> os_wf (os_put s bs)"
  by (auto simp: os_wf_def os_put_def os_room_def word_le_nat_alt unat_add_small)

lemma os_keeps_put: "os_wf s \<Longrightarrow> unat (os_bytes_written s) + length bs < 2 ^ 64 \<Longrightarrow>
   os_room s (length bs) \<Longrightarrow> os_keeps s (os_put s bs)"
  by (auto simp: os_keeps_def os_wf_def os_put_def os_room_def word_le_nat_alt unat_add_small buf_write_def)

lemma bytes_written_put:
  "unat (os_bytes_written s) + length bs < 2 ^ 64 \<Longrightarrow>
     unat (os_bytes_written (os_put s bs)) = unat (os_bytes_written s) + length bs"
  by (simp add: os_put_def unat_add_small)

lemma os_room_put:
  "unat (os_bytes_written s) + length bs < 2 ^ 64 \<Longrightarrow>
     os_room (os_put s bs) n \<longleftrightarrow> os_room s (length bs + n)"
  by (auto simp: os_room_def bytes_written_put) (auto simp: os_put_def)

lemma emits_atI_fail: "out = Some (False, t) \<Longrightarrow> os_keeps s t \<Longrightarrow> \<not> (ok \<and> os_room s (length bs)) \<Longrightarrow> emits_at out s (bs, ok)"
  by (auto simp: emits_at_def)

lemma emits_at_seq:
  assumes A: "emits_at (A s) s (as, True)" and wf: "os_wf s"
    and fit: "unat (os_bytes_written s) + length (as @ bs) < 2 ^ 64"
    and B: "os_room s (length as) \<Longrightarrow> os_wf (os_put s as) \<Longrightarrow> emits_at (B (os_put s as)) (os_put s as) (bs, ok)"
  shows "emits_at (and_then (A s) B) s (as @ bs, ok)"
proof (cases "os_room s (length as)")
  case False
  with A obtain t where "A s = Some (False, t)" "os_keeps s t" by (auto simp: emits_at_def)
  with False show ?thesis by (auto simp: emits_at_def os_room_def)
next
  case True
  from fit have fit1: "unat (os_bytes_written s) + length as < 2 ^ 64" by simp
  from A True have a: "A s = Some (True, os_put s as)" by (auto simp: emits_at_def)
  have keep: "os_keeps s (os_put s as)" using wf True fit1 by (simp add: os_keeps_put)
  from B [OF True] os_wf_put [OF wf fit1 True]
  have b: "emits_at (B (os_put s as)) (os_put s as) (bs, ok)" by simp
  show ?thesis
  proof (cases "ok \<and> os_room s (length (as @ bs))")
    case True
    then show ?thesis using a b fit1 by (simp add: emits_at_def os_room_put os_put_append)
  next
    case False
    with b fit1 obtain t where "B (os_put s as) = Some (False, t)" "os_keeps (os_put s as) t"
      by (auto simp: emits_at_def os_room_put)
    with a have "and_then (A s) B = Some (False, t)" by simp
    moreover have "os_keeps s t" using keep \<open>os_keeps (os_put s as) t\<close> by (rule os_keeps_trans)
    ultimately show ?thesis using False by (rule emits_atI_fail)
  qed
qed

lemma emits_seq:
  assumes A: "emits A (as, True)" and B: "emits B (bs, ok)"
  shows "emits (\<lambda>s. and_then (A s) B) (as @ bs, ok)"
  unfolding emits_def
proof (intro allI impI)
  fix s :: "obuf pb_ostream"
  assume wf: "os_wf s" and fit: "unat (os_bytes_written s) + length (fst (as @ bs, ok)) < 2 ^ 64"
  then have fit1: "unat (os_bytes_written s) + length as < 2 ^ 64" by simp
  show "emits_at (and_then (A s) B) s (as @ bs, ok)"
  proof (rule emits_at_seq)
    show "emits_at (A s) s (as, True)" using A wf fit1 by (simp add: emits_def)
    show "emits_at (B (os_put s as)) (os_put s as) (bs, ok)" if "os_wf (os_put s as)"
      using B that fit fit1 by (simp add: emits_def bytes_written_put)
  qed (use wf fit in simp_all)
qed

lemma emits_fail_first: "emits A (as, False) \<Longrightarrow> emits (\<lambda>s. and_then (A s) B) (as, False)"
  by (fastforce simp: emits_def emits_at_def)

lemma emits_cong: "(\<And>s. A s = B s) \<Longrightarrow> emits A r = emits B r"
  by (simp add: emits_def)

lemma emits_nothing: "emits (\<lambda>s. Some (True, s)) ([], True)"
  by (auto simp: emits_def emits_at_def os_room_def os_wf_def word_le_nat_alt)

lemma emits_error: "emits (\<lambda>s. Some (os_error s msg)) ([], False)"
  by (auto simp: emits_def emits_at_def os_error_def os_keeps_def os_wf_def)

lemma emits_write:
  assumes n: "unat n = length buf"
  shows "emits (\<lambda>s. Some (pb_write s buf n)) (buf, True)"
  unfolding emits_def
proof (intro allI impI)
  fix s :: "obuf pb_ostream"
  assume wf: "os_wf s" and fit: "unat (os_bytes_written s) + length (fst (buf, True)) < 2 ^ 64"
  have n': "n = of_nat (length buf)" by (simp add: n [symmetric])
  have sum: "unat (os_bytes_written s + n) = unat (os_bytes_written s) + length buf"
    using unat_add_small fit n' by simp
  show "emits_at (Some (pb_write s buf n)) s (buf, True)"
  proof (cases "os_callback s")
    case None
    then show ?thesis by (simp add: emits_at_def pb_write_def os_room_def os_put_def n')
  next
    case (Some cb)
    with wf have cb: "cb = buf_write" by (auto simp: os_wf_def)
    show ?thesis
    proof (cases "os_room s (length buf)")
      case True
      then have "\<not> os_bytes_written s + n > os_max_size s"
        using Some sum by (simp add: word_less_nat_alt os_room_def)
      then show ?thesis using Some True cb
        by (simp add: emits_at_def pb_write_def os_put_def buf_write_def n')
    next
      case False
      then have "os_bytes_written s + n > os_max_size s"
        using Some sum by (simp add: word_less_nat_alt os_room_def)
      then show ?thesis using Some False wf
        by (intro emits_atI_fail) (auto simp: pb_write_def os_error_def os_keeps_def os_wf_def)
    qed
  qed
qed

section \<open>What an input operation does to a memory buffer\<close>

definition is_drop :: "'s pb_istream \<Rightarrow> nat \<Rightarrow> byte list \<Rightarrow> 's pb_istream" where
  "is_drop s n rest = s\<lparr>is_source := Buf rest, is_bytes_left := is_bytes_left s - of_nat n\<rparr>"

definition is_has :: "'s pb_istream \<Rightarrow> byte list \<Rightarrow> byte list \<Rightarrow> bool" where
  "is_has s bs rest \<longleftrightarrow> is_source s = Buf (bs @ rest) \<and> length bs \<le> unat (is_bytes_left s)"

text \<open>\<open>reads D bs x\<close>: on a buffer that starts with \<open>bs\<close>, \<open>D\<close> returns \<open>x\<close> and consumes exactly \<open>bs\<close>.\<close>

definition reads :: "('s pb_istream \<Rightarrow> 'a option \<times> 's pb_istream) \<Rightarrow> byte list \<Rightarrow> 'a \<Rightarrow> bool" where
  "reads D bs x \<longleftrightarrow> (\<forall>s rest. is_has s bs rest \<longrightarrow> D s = (Some x, is_drop s (length bs) rest))"

definition skips :: "('s pb_istream \<Rightarrow> bool \<times> 's pb_istream) \<Rightarrow> byte list \<Rightarrow> bool" where
  "skips D bs \<longleftrightarrow> (\<forall>s rest. is_has s bs rest \<longrightarrow> D s = (True, is_drop s (length bs) rest))"

lemma readsI: "(\<And>s rest. is_has s bs rest \<Longrightarrow> D s = (Some x, is_drop s (length bs) rest)) \<Longrightarrow> reads D bs x"
  by (simp add: reads_def)

lemma readsD: "reads D bs x \<Longrightarrow> is_has s bs rest \<Longrightarrow> D s = (Some x, is_drop s (length bs) rest)"
  by (simp add: reads_def)

lemma skipsI: "(\<And>s rest. is_has s bs rest \<Longrightarrow> D s = (True, is_drop s (length bs) rest)) \<Longrightarrow> skips D bs"
  by (simp add: skips_def)

lemma skipsD: "skips D bs \<Longrightarrow> is_has s bs rest \<Longrightarrow> D s = (True, is_drop s (length bs) rest)"
  by (simp add: skips_def)

lemma is_drop_drop [simp]: "is_drop (is_drop s m r1) n r2 = is_drop s (m + n) r2"
  by (simp add: is_drop_def)

lemma unat_sub_of_nat: "n \<le> unat (w :: u64) \<Longrightarrow> unat (w - of_nat n) = unat w - n"
proof -
  assume n: "n \<le> unat w"
  then have "unat (of_nat n :: u64) = n"
    using unat_u64_less [of w] by (simp add: unsigned_of_nat take_bit_eq_mod)
  with n show ?thesis by (simp add: unat_sub word_le_nat_alt)
qed

lemma bytes_left_drop:
  "is_has s bs rest \<Longrightarrow> unat (is_bytes_left (is_drop s (length bs) r)) = unat (is_bytes_left s) - length bs"
  by (simp add: is_has_def is_drop_def unat_sub_of_nat)

lemma is_has_append:
  "is_has s (as @ bs) rest \<longleftrightarrow> is_has s as (bs @ rest) \<and> is_has (is_drop s (length as) (bs @ rest)) bs rest"
  by (auto simp: is_has_def is_drop_def unat_sub_of_nat)

lemma is_has_split:
  assumes "is_has s (as @ bs) rest"
  shows "is_has s as (bs @ rest)" "is_has (is_drop s (length as) (bs @ rest)) bs rest"
  using assms by (simp_all add: is_has_append)

lemma pb_readbyte_has:
  "is_has s (b # bs) rest \<Longrightarrow> pb_readbyte s = (Some b, is_drop s 1 (bs @ rest))"
  by (auto simp: is_has_def pb_readbyte_def is_drop_def buf_read_def)

lemma pb_read_has:
  assumes n: "unat n = length bs" and s: "is_has s bs rest"
  shows "pb_read s n = (True, bs, is_drop s (length bs) rest)"
proof -
  have "n = of_nat (length bs)" by (simp add: n [symmetric])
  then show ?thesis using s n
    by (auto simp: is_has_def pb_read_def is_drop_def buf_read_def word_less_nat_alt)
qed

lemma pb_read_null_has:
  assumes n: "unat n = length bs" and s: "is_has s bs rest"
  shows "pb_read_null s n = (True, is_drop s (length bs) rest)"
proof -
  from s obtain src where "is_source s = Buf src" by (simp add: is_has_def)
  then show ?thesis by (simp add: pb_read_null_def pb_read_has [OF n s])
qed

lemma is_has_Cons: "is_has s (b # bs) rest \<Longrightarrow> is_has (is_drop s (Suc 0) (bs @ rest)) bs rest"
  using is_has_append [of s "[b]" bs rest] by simp

end
