(* ===== verification/PbPrimProps.thy ===== *)
theory PbPrimProps
  imports PbStreamSpec
begin

text \<open>
  The wire format of the primitives: what each encoder emits and that each decoder reads it back,
  for varints, zigzag integers, fixed-width integers, tags, length-prefixed strings and skipped
  values.
\<close>

section \<open>Base-128 varints\<close>

lemma varint_byte:  "ucast ((v AND 0x7F) OR 0x80) = (of_nat (unat v mod 128 + 128) :: byte)" for v :: u64
proof -
  have "(v AND 0x7F) OR push_bit 7 1 = (v AND 0x7F) + push_bit 7 1"
    by (rule or_eq_add_low) (simp add: unat_and_7F)
  then have *: "(v AND 0x7F) OR 0x80 = of_nat (unat v mod 128 + 128)"
    by (simp add: unat_and_7F [symmetric] del: of_nat_mod)
  show ?thesis unfolding *
    by (rule unsigned_word_eqI) (simp add: unsigned_ucast_eq unsigned_of_nat take_bit_eq_mod mod_mod_cancel del: of_nat_mod of_nat_add)
qed

lemma varint_loop_ne: "v \<noteq> 0 \<Longrightarrow> varint_loop v \<noteq> []"
  by (subst varint_loop.simps) simp

lemma list_update_last_Cons:
  "xs \<noteq> [] \<Longrightarrow> (x # xs)[length (x # xs) - 1 := y] = x # xs[length xs - 1 := y]"
  by (cases xs) auto

lemma varint_loop_bytes:
  "v \<noteq> 0 \<Longrightarrow> (varint_loop v)[length (varint_loop v) - 1 := last (varint_loop v) AND 0x7F] = varint_bytes (unat v)"
proof (induction v rule: varint_loop.induct)
  case (1 v)
  have head: "varint_loop v = of_nat (unat v mod 128 + 128) # varint_loop (drop_bit 7 v)"
    using 1(2) by (subst varint_loop.simps) (simp add: varint_byte)
  have div: "unat (drop_bit 7 v) = unat v div 128" using unat_drop_bit [of 7 v] by simp
  show ?case
  proof (cases "drop_bit 7 v = 0")
    case True
    with div have lt: "unat v < 128" by (metis div_eq_0_iff unat_0 zero_neq_numeral)
    then have "of_nat (unat v + 128) AND 0x7F = (of_nat (unat v) :: byte)"
      by (rule byte_and_7F)
    moreover from True have "varint_loop (drop_bit 7 v) = []" by (subst varint_loop.simps) simp
    ultimately show ?thesis using lt by (simp add: head varint_bytes.simps [of "unat v"] del: of_nat_add)
  next
    case False
    then have ge: "\<not> unat v < 128" using div by (metis div_less unsigned_0 word_unat_eq_iff)
    have "(varint_loop v)[length (varint_loop v) - 1 := last (varint_loop v) AND 0x7F]
      = of_nat (unat v mod 128 + 128) # varint_bytes (unat (drop_bit 7 v))"
      unfolding head list_update_last_Cons [OF varint_loop_ne [OF False]]
      using 1(1) [OF 1(2) False] varint_loop_ne [OF False] by simp
    also have "\<dots> = varint_bytes (unat v)"
      using ge div by (simp add: varint_bytes.simps [of "unat v"])
    finally show ?thesis .
  qed
qed

lemma length_varint_bytes_u64: "length (varint_bytes (unat (v :: u64))) \<le> 10"
  using unat_lt [of v] by (intro length_varint_bytes) (auto elim: less_le_trans)

lemma pb_encode_varint_eq:
  "pb_encode_varint s v = pb_write s (varint_bytes (unat v)) (of_nat (length (varint_bytes (unat v))))"
proof (cases "v \<le> 0x7F")
  case True
  then have "unat v < 128" by (simp add: word_le_nat_alt)
  then show ?thesis using True
    by (simp add: pb_encode_varint_def varint_bytes.simps [of "unat v"])
next
  case False
  then have "v \<noteq> 0" by auto
  from varint_loop_bytes [OF this] varint_loop_ne [OF this]
  have "varint_bytes (unat v) = (varint_loop v)[length (varint_loop v) - 1 := varint_loop v ! (length (varint_loop v) - 1) AND 0x7F]"
    by (simp add: last_conv_nth)
  then show ?thesis using False by (simp add: pb_encode_varint_def Let_def)
qed

lemma emits_varint: "emits (\<lambda>s. Some (pb_encode_varint s v)) (varint_bytes (unat v), True)"
  unfolding pb_encode_varint_eq
  by (rule emits_write) (use length_varint_bytes_u64 [of v] in \<open>simp add: unat_u64_of_nat\<close>)

lemma varint_dec_loop_reads:
  assumes "is_has s (varint_bytes n) rest" "unat r < 2 ^ k" "unat r + 2 ^ k * n < 2 ^ 64" "k < 64"
  shows "varint_dec_loop s k r =
    (Some (of_nat (unat r + 2 ^ k * n)), is_drop s (length (varint_bytes n)) rest)"
  using assms
proof (induction n arbitrary: s k r rule: varint_bytes.induct)
  case (1 n)
  let ?b = "hd (varint_bytes n)"
  have low: "unat (?b AND 0x7F) = n mod 128" and more: "?b AND 0x80 \<noteq> 0 \<longleftrightarrow> \<not> n < 128"
    by (simp_all add: varint_bytes.simps [of n] unat_and_7F and_80_zero unat_byte_of_nat mod_add_self2 del: of_nat_add)
  have le: "unat r + 2 ^ k * (n mod 128) \<le> unat r + 2 ^ k * n" by simp
  let ?r = "r OR push_bit k (ucast (?b AND 0x7F))"
  have r: "unat ?r = unat r + 2 ^ k * (n mod 128)"
    using unat_or_push [of r k "ucast (?b AND 0x7F)"] 1(3) le_less_trans [OF le 1(4)] by (simp add: low)
  show ?case
  proof (cases "n < 128")
    case True
    then have "varint_bytes n = [?b]" by (simp add: varint_bytes.simps [of n])
    with 1(2) have rb: "pb_readbyte s = (Some ?b, is_drop s 1 rest)"
      using pb_readbyte_has [of s ?b "[]" rest] by simp
    have "?r = of_nat (unat r + 2 ^ k * n)" using r True 1(4)
      by (simp add: word_unat_eq_iff unat_u64_of_nat del: of_nat_add of_nat_mult)
    with rb more True 1(5) show ?thesis
      by (subst varint_dec_loop.simps) (simp add: Let_def varint_bytes.simps [of n])
  next
    case False
    then have cons: "varint_bytes n = ?b # varint_bytes (n div 128)" by (simp add: varint_bytes.simps [of n])
    with 1(2) have has: "is_has s (?b # varint_bytes (n div 128)) rest" by simp
    from pb_readbyte_has [OF this]
    have rb: "pb_readbyte s = (Some ?b, is_drop s 1 (varint_bytes (n div 128) @ rest))" .
    have split: "unat ?r + 2 ^ (k + 7) * (n div 128) = unat r + 2 ^ k * n"
    proof -
      have "2 ^ k * n = 2 ^ k * (n mod 128 + 128 * (n div 128))" by simp
      also have "\<dots> = 2 ^ k * (n mod 128) + 2 ^ (k + 7) * (n div 128)"
        by (simp only: distrib_left power_add) simp
      finally show ?thesis by (simp add: r)
    qed
    have "unat ?r < 2 ^ (k + 7)"
    proof -
      have "2 ^ k * (n mod 128) \<le> 2 ^ k * (127::nat)" by (rule mult_le_mono2) simp
      then have "unat ?r < 2 ^ k + 2 ^ k * 127" using r 1(3) by linarith
      then show ?thesis by (simp add: power_add)
    qed
    moreover have "k + 7 < 64"
    proof (rule ccontr)
      assume "\<not> k + 7 < 64"
      then have "(2::nat) ^ 64 \<le> 2 ^ (k + 7)" by (intro power_increasing) simp_all
      also have "\<dots> \<le> 2 ^ (k + 7) * (n div 128)" using False by (simp add: div_greater_zero_iff)
      finally show False using 1(4) split by linarith
    qed
    ultimately show ?thesis
      using 1(1) [OF False, of "is_drop s 1 (varint_bytes (n div 128) @ rest)" ?r "k + 7"] is_has_Cons [OF has] 1(4,5)
        rb more False split arg_cong [OF cons, of length]
      by (subst varint_dec_loop.simps) (simp add: Let_def)
  qed
qed

lemma reads_varint: "reads pb_decode_varint (varint_bytes (unat v)) v"
  by (rule readsI) (use unat_lt [of v] in \<open>simp add: pb_decode_varint_def varint_dec_loop_reads\<close>)


section \<open>Zigzag\<close>

definition zigzag :: "u64 \<Rightarrow> u64" where
  "zigzag v = (if sint v < 0 then NOT (push_bit 1 v) else push_bit 1 v)"

lemma sint_neg: "sint v < 0 \<longleftrightarrow> bit v 63" for v :: u64
  using bit_last_iff [of v] by simp

definition unzigzag :: "u64 \<Rightarrow> u64" where
  "unzigzag w = (if w AND 1 \<noteq> 0 then NOT (drop_bit 1 w) else drop_bit 1 w)"

lemma unzigzag_zigzag: "unzigzag (zigzag v) = v"
proof -
  have odd: "zigzag v AND 1 \<noteq> 0 \<longleftrightarrow> bit v 63"
    using and_exp_eq_0_iff_not_bit [of "zigzag v" 0]
    by (simp only: power_0 zigzag_def sint_neg)
      (simp only: bit_push_bit_iff bit_not_iff split: if_split, simp)
  have "bit (unzigzag (zigzag v)) n = bit v n" if "n < LENGTH(64)" for n
  proof (cases "bit v 63")
    case True
    then have "unzigzag (zigzag v) = NOT (drop_bit 1 (NOT (push_bit 1 v)))"
      by (simp only: unzigzag_def odd if_True) (simp only: zigzag_def sint_neg if_True)
    then have "bit (unzigzag (zigzag v)) n \<longleftrightarrow> n = 63 \<or> bit v n"
      using that by (simp only: bit_not_iff bit_drop_bit_eq comp_def bit_push_bit_iff) auto
    with True show ?thesis by auto
  next
    case False
    then have "unzigzag (zigzag v) = drop_bit 1 (push_bit 1 v)"
      by (simp only: unzigzag_def odd if_False) (simp only: zigzag_def sint_neg if_False)
    then have "bit (unzigzag (zigzag v)) n \<longleftrightarrow> n \<noteq> 63 \<and> bit v n"
      using that by (simp only: bit_drop_bit_eq comp_def bit_push_bit_iff) auto
    with False show ?thesis by auto
  qed
  then show ?thesis by (rule bit_word_eqI)
qed

lemma emits_svarint:
  "emits (\<lambda>s. Some (pb_encode_svarint s v)) (varint_bytes (unat (zigzag v)), True)"
  unfolding pb_encode_svarint_def zigzag_def by (rule emits_varint)

lemma reads_svarint: "reads pb_decode_svarint (varint_bytes (unat (zigzag v))) v"
  unfolding pb_decode_svarint_def unzigzag_def [symmetric]
  by (rule readsI) (simp add: readsD [OF reads_varint] unzigzag_zigzag)

lemma emits_fixed32: "emits (\<lambda>s. Some (pb_encode_fixed32 s v)) (le_bytes 4 (unat v), True)"
proof -
  have "pb_encode_fixed32 s v = pb_write s (le_bytes 4 (unat v)) 4" for s :: "obuf pb_ostream"
    by (simp add: pb_encode_fixed32_def le_bytes_4 ucast_and_FF unat_drop_bit)
  then show ?thesis by (simp add: emits_write)
qed

lemma emits_fixed64: "emits (\<lambda>s. Some (pb_encode_fixed64 s v)) (le_bytes 8 (unat v), True)"
proof -
  have "pb_encode_fixed64 s v = pb_write s (le_bytes 8 (unat v)) 8" for s :: "obuf pb_ostream"
    by (simp add: pb_encode_fixed64_def le_bytes_4 le_bytes_8 ucast_and_FF unat_drop_bit div_mult2_eq [symmetric])
  then show ?thesis by (simp add: emits_write)
qed

lemma reads_fixed32: "reads pb_decode_fixed32 (le_bytes 4 (unat v)) v"
proof (rule readsI)
  fix s :: "'s pb_istream" and rest
  assume "is_has s (le_bytes 4 (unat v)) rest"
  then have rd: "pb_read s 4 = (True, le_bytes 4 (unat v), is_drop s 4 rest)"
    using pb_read_has [of 4 "le_bytes 4 (unat v)"] by simp
  obtain b0 b1 b2 b3 where bs: "le_bytes 4 (unat v) = [b0, b1, b2, b3]" using le_list_4 by blast
  have "unat (ucast b0 OR push_bit 8 (ucast b1) OR push_bit 16 (ucast b2) OR push_bit 24 (ucast b3) :: u32) = unat v"
    using or_bytes_4 [where 'a = 32, of b0 b1 b2 b3] le_val_le_bytes [of 4 "unat v"] unat_u32_less [of v]
    by (simp only: bs) simp
  then have "ucast b0 OR push_bit 8 (ucast b1) OR push_bit 16 (ucast b2) OR push_bit 24 (ucast b3) = v"
    by (simp only: word_unat_eq_iff)
  then show "pb_decode_fixed32 s = (Some v, is_drop s (length (le_bytes 4 (unat v))) rest)"
    unfolding pb_decode_fixed32_def rd length_le_bytes unfolding bs by simp
qed

lemma reads_fixed64: "reads pb_decode_fixed64 (le_bytes 8 (unat v)) v"
proof (rule readsI)
  fix s :: "'s pb_istream" and rest
  assume "is_has s (le_bytes 8 (unat v)) rest"
  then have rd: "pb_read s 8 = (True, le_bytes 8 (unat v), is_drop s 8 rest)"
    using pb_read_has [of 8 "le_bytes 8 (unat v)"] by simp
  obtain b0 b1 b2 b3 b4 b5 b6 b7 where bs: "le_bytes 8 (unat v) = [b0, b1, b2, b3, b4, b5, b6, b7]"
    using le_list_8 by blast
  have "unat (ucast b0 OR push_bit 8 (ucast b1) OR push_bit 16 (ucast b2) OR push_bit 24 (ucast b3)
      OR push_bit 32 (ucast b4) OR push_bit 40 (ucast b5) OR push_bit 48 (ucast b6) OR push_bit 56 (ucast b7) :: u64) = unat v"
    using or_bytes_8 [of b0 b1 b2 b3 b4 b5 b6 b7] le_val_le_bytes [of 8 "unat v"] unat_u64_less [of v]
    by (simp only: bs) simp
  then have "ucast b0 OR push_bit 8 (ucast b1) OR push_bit 16 (ucast b2) OR push_bit 24 (ucast b3)
      OR push_bit 32 (ucast b4) OR push_bit 40 (ucast b5) OR push_bit 48 (ucast b6) OR push_bit 56 (ucast b7) = v"
    by (simp only: word_unat_eq_iff)
  then show "pb_decode_fixed64 s = (Some v, is_drop s (length (le_bytes 8 (unat v))) rest)"
    unfolding pb_decode_fixed64_def rd length_le_bytes unfolding bs by simp
qed

lemma and_70_zero: "unat b < 16 \<Longrightarrow> b AND 0x70 = 0" for b :: byte
proof -
  assume "unat b < 16"
  then have "b AND mask 4 = b"
    by (simp add: word_unat_eq_iff unat_and_mask)
  then have "b AND 0x70 = b AND (mask 4 AND 0x70)" by (metis and.assoc)
  then show ?thesis by (simp add: mask_eq_exp_minus_1)
qed

lemma unat_zigzag: "unat (zigzag v) = nat (if sint v < 0 then - 2 * sint v - 1 else 2 * sint v)"
proof -
  have v: "v = word_of_int (sint v)" by simp
  have range: "- (2 ^ 63) \<le> sint v" "sint v < 2 ^ 63"
    using sint_ge [of v] sint_lt [of v] by simp_all
  define x where "x = (if sint v < 0 then - 2 * sint v - 1 else 2 * sint v)"
  have "zigzag v = word_of_int x"
    unfolding zigzag_def not_eq_complement x_def by simp
  moreover have "0 \<le> x" "x < 2 ^ 64" using range unfolding x_def by (simp_all split: if_split)
  ultimately have "unat (zigzag v) = nat x"
    by (simp add: unsigned_of_int take_bit_int_eq_self)
  then show ?thesis by (simp add: x_def)
qed

text \<open>In the range of 32 bits, the loop stops before the bytes it treats as a sign extension.\<close>

lemma varint32_loop_reads:
  assumes "is_has s (varint_bytes n) rest" "unat r < 2 ^ k" "unat r + 2 ^ k * n < 2 ^ 32"
    and "k \<le> 28" "7 dvd k"
  shows "\<exists>b j. varint32_loop s (of_nat k) r =
      (Some (b, of_nat j, of_nat (unat r + 2 ^ k * n)), is_drop s (length (varint_bytes n)) rest) \<and>
      j \<le> 35 \<and> (j = 35 \<longrightarrow> unat b < 16)"
  using assms
proof (induction n arbitrary: s k r rule: varint_bytes.induct)
  case (1 n)
  let ?b = "hd (varint_bytes n)"
  have low: "unat (?b AND 0x7F) = n mod 128" and more: "?b AND 0x80 \<noteq> 0 \<longleftrightarrow> \<not> n < 128"
    by (simp_all add: varint_bytes.simps [of n] unat_and_7F and_80_zero unat_byte_of_nat mod_add_self2 del: of_nat_add)
  have le: "unat r + 2 ^ k * (n mod 128) \<le> unat r + 2 ^ k * n" by simp
  let ?r = "r OR push_bit k (ucast (?b AND 0x7F))"
  have r: "unat ?r = unat r + 2 ^ k * (n mod 128)"
    using unat_or_push [of r k "ucast (?b AND 0x7F)"] 1(3) le_less_trans [OF le 1(4)] by (simp add: low)
  have k: "unat (of_nat k :: byte) = k" using 1(5) by (simp add: unat_byte_of_nat)
  then have small: "\<not> (of_nat k :: byte) \<ge> 32" using 1(5) by (simp add: word_le_nat_alt)
  show ?case
  proof (cases "n < 128")
    case True
    then have vb: "varint_bytes n = [?b]" and b: "unat ?b = n"
      by (simp_all add: varint_bytes.simps [of n] unat_byte_of_nat)
    with 1(2) have rb: "pb_readbyte s = (Some ?b, is_drop s 1 rest)"
      using pb_readbyte_has [of s ?b "[]" rest] by simp
    have "?r = of_nat (unat r + 2 ^ k * n)" using r True 1(4)
      by (simp add: word_unat_eq_iff unsigned_of_nat take_bit_eq_mod del: of_nat_add of_nat_mult)
    with rb more True small k
    have "varint32_loop s (of_nat k) r =
      (Some (?b, of_nat (k + 7), of_nat (unat r + 2 ^ k * n)), is_drop s (length (varint_bytes n)) rest)"
      by (subst varint32_loop.simps) (simp add: Let_def varint_bytes.simps [of n])
    moreover have "n < 16" if "k = 28" using 1(4) that by simp
    ultimately show ?thesis using 1(5) b by (intro exI [of _ ?b] exI [of _ "k + 7"]) simp
  next
    case False
    then have cons: "varint_bytes n = ?b # varint_bytes (n div 128)" by (simp add: varint_bytes.simps [of n])
    with 1(2) have has: "is_has s (?b # varint_bytes (n div 128)) rest" by simp
    from pb_readbyte_has [OF this]
    have rb: "pb_readbyte s = (Some ?b, is_drop s 1 (varint_bytes (n div 128) @ rest))" .
    have split: "unat ?r + 2 ^ (k + 7) * (n div 128) = unat r + 2 ^ k * n"
    proof -
      have "2 ^ k * n = 2 ^ k * (n mod 128 + 128 * (n div 128))" by simp
      also have "\<dots> = 2 ^ k * (n mod 128) + 2 ^ (k + 7) * (n div 128)"
        by (simp only: distrib_left power_add) simp
      finally show ?thesis by (simp add: r)
    qed
    have bound: "unat ?r < 2 ^ (k + 7)"
    proof -
      have "2 ^ k * (n mod 128) \<le> 2 ^ k * (127::nat)" by (rule mult_le_mono2) simp
      then have "unat ?r < 2 ^ k + 2 ^ k * 127" using r 1(3) by linarith
      then show ?thesis by (simp add: power_add)
    qed
    have "k + 7 < 32"
    proof (rule ccontr)
      assume "\<not> k + 7 < 32"
      then have "(2::nat) ^ 32 \<le> 2 ^ (k + 7)" by (intro power_increasing) simp_all
      also have "\<dots> \<le> 2 ^ (k + 7) * (n div 128)" using False by (simp add: div_greater_zero_iff)
      finally show False using 1(4) split by linarith
    qed
    with 1(6) have k7: "k + 7 \<le> 28" "7 dvd k + 7" by presburger+
    have step: "varint32_loop s (of_nat k) r = varint32_loop (is_drop s 1 (varint_bytes (n div 128) @ rest)) (of_nat (k + 7)) ?r"
      using rb more False small k by (subst varint32_loop.simps) (simp add: Let_def)
    show ?thesis
      using 1(1) [OF False, of "is_drop s 1 (varint_bytes (n div 128) @ rest)" ?r "k + 7"]
        is_has_Cons [OF has] bound k7 1(4) split arg_cong [OF cons, of length]
      by (simp add: step)
  qed
qed

lemma pb_decode_varint32_eof_reads:
  assumes s: "is_has s (varint_bytes n) rest" and n: "n < 2 ^ 32"
  shows "pb_decode_varint32_eof s = (Some (of_nat n), False, is_drop s (length (varint_bytes n)) rest)"
proof (cases "n < 128")
  case True
  with s have "pb_readbyte s = (Some (of_nat n), is_drop s 1 rest)"
    using pb_readbyte_has [of s "of_nat n" "[]" rest] by (simp add: varint_bytes.simps [of n])
  moreover have "(of_nat n :: byte) AND 0x80 = 0" using True by (simp add: and_80_zero unat_byte_of_nat)
  moreover have "ucast (of_nat n :: byte) = (of_nat n :: u32)"
    using True by (simp add: word_unat_eq_iff unat_byte_of_nat unsigned_of_nat take_bit_eq_mod)
  ultimately show ?thesis using True by (simp add: pb_decode_varint32_eof_def varint_bytes.simps [of n])
next
  case False
  let ?b = "hd (varint_bytes n)" and ?s = "is_drop s 1 (varint_bytes (n div 128) @ rest)"
  have cons: "varint_bytes n = ?b # varint_bytes (n div 128)" using False by (simp add: varint_bytes.simps [of n])
  with s have has: "is_has s (?b # varint_bytes (n div 128)) rest" by simp
  have low: "unat (?b AND 0x7F) = n mod 128" and more: "?b AND 0x80 \<noteq> 0"
    using False by (simp_all add: varint_bytes.simps [of n] unat_and_7F and_80_zero unat_byte_of_nat mod_add_self2 del: of_nat_add)
  let ?r = "ucast (?b AND 0x7F) :: u32"
  have r: "unat ?r = n mod 128" by (simp add: low)
  have "unat ?r + 2 ^ 7 * (n div 128) = n" unfolding r by simp
  then obtain b j where
    loop: "varint32_loop ?s (of_nat 7) ?r = (Some (b, of_nat j, of_nat n), is_drop s (length (varint_bytes n)) rest)"
    and j: "j \<le> 35" "j = 35 \<longrightarrow> unat b < 16"
    using varint32_loop_reads [of ?s "n div 128" rest ?r 7] is_has_Cons [OF has] n r arg_cong [OF cons, of length]
    by auto
  have "(of_nat j :: byte) = 35 \<longleftrightarrow> j = 35"
    using j(1) by (simp add: word_unat_eq_iff unat_byte_of_nat)
  then show ?thesis
    using pb_readbyte_has [OF has] more loop j(2) and_70_zero [of b]
    by (simp add: pb_decode_varint32_eof_def)
qed

lemma reads_varint32: "n < 2 ^ 32 \<Longrightarrow> reads pb_decode_varint32 (varint_bytes n) (of_nat n)"
  by (rule readsI) (simp add: pb_decode_varint32_def pb_decode_varint32_eof_reads)


section \<open>Every buffer\<close>

text \<open>\<open>varint_span bs\<close>: the length of the varint at the start of \<open>bs\<close>, if one ends there.\<close>

fun varint_span :: "byte list \<Rightarrow> nat option" where
  "varint_span [] = None"
| "varint_span (b # bs) = (if b AND 0x80 = 0 then Some 1 else map_option Suc (varint_span bs))"

lemma varint_dec_loop_span:
  assumes "is_source s = Buf bs" "unat (is_bytes_left s) = length bs" "j \<le> 10"
  shows "case varint_span (take (10 - j) bs) of
      Some n \<Rightarrow> \<exists>v. varint_dec_loop s (7 * j) r = (Some v, is_drop s n (drop n bs))
    | None \<Rightarrow> \<exists>t. varint_dec_loop s (7 * j) r = (None, t) \<and>
        is_errmsg t = PB_SET_ERROR (is_errmsg s)
          (if 10 - j \<le> length bs then ''varint overflow'' else ''end-of-stream'')"
  using assms
proof (induction bs arbitrary: s j r)
  case Nil
  then have "is_bytes_left s = 0" by (simp add: unat_eq_0)
  then show ?case using Nil
    by (cases "j = 10") (subst varint_dec_loop.simps; simp add: pb_readbyte_def is_error_def)+
next
  case (Cons b bs)
  let ?s = "is_drop s 1 bs"
  have has: "is_has s (b # bs) []" using Cons.prems by (simp add: is_has_def)
  from pb_readbyte_has [OF this] have rb: "pb_readbyte s = (Some b, ?s)" by simp
  have s': "is_source ?s = Buf bs" "unat (is_bytes_left ?s) = length bs" "is_errmsg ?s = is_errmsg s"
    using Cons.prems unat_sub_of_nat [of 1 "is_bytes_left s"] by (simp_all add: is_drop_def)
  show ?case
  proof (cases "j = 10")
    case True
    then show ?thesis by (subst varint_dec_loop.simps) (simp add: is_error_def)
  next
    case False
    then have j: "j \<le> 9" "10 - j = Suc (10 - Suc j)" "\<not> 7 * j \<ge> 64" using Cons.prems(3) by auto
    show ?thesis
    proof (cases "b AND 0x80 = 0")
      case True
      then show ?thesis using rb j by (subst varint_dec_loop.simps) (simp add: Let_def)
    next
      case False
      from j(1) have j': "Suc j \<le> 10" by simp
      have "7 * j + 7 = 7 * Suc j" by simp
      then have step: "varint_dec_loop s (7 * j) r =
          varint_dec_loop ?s (7 * Suc j) (r OR push_bit (7 * j) (ucast (b AND 0x7F)))"
        using False rb j(3) by (subst varint_dec_loop.simps) (simp only: Let_def if_False prod.case option.case, simp)
      have "varint_span (take (10 - j) (b # bs)) = map_option Suc (varint_span (take (10 - Suc j) bs))"
        unfolding j(2) using False by simp
      moreover have "10 - j \<le> length (b # bs) \<longleftrightarrow> 10 - Suc j \<le> length bs" unfolding j(2) by simp
      ultimately show ?thesis
        using Cons.IH [OF s'(1,2) j', of "r OR push_bit (7 * j) (ucast (b AND 0x7F))"]
        unfolding step s'(3) by (auto split: option.splits)
    qed
  qed
qed

section \<open>Tags\<close>

lemma tag_value:
  "unat (push_bit 3 (ucast (t :: u32)) OR ucast w :: u64) = 8 * unat t + unat w" if "w < 8" for w :: u32
proof -
  have w: "unat (ucast w :: u64) < 2 ^ 3" using that by (simp add: word_less_nat_alt)
  have "push_bit 3 (ucast t) OR ucast w = ucast w OR push_bit 3 (ucast t :: u64)" by (rule or.commute)
  moreover have "unat (ucast w :: u64) + 2 ^ 3 * unat (ucast t :: u64) < 2 ^ LENGTH(64)"
    using w unat_u32_less [of t] by simp
  ultimately show ?thesis using unat_or_push [OF w, of "ucast t"] by simp
qed

lemma emits_tag:
  "w < 8 \<Longrightarrow> emits (\<lambda>s. Some (pb_encode_tag s w t)) (varint_bytes (8 * unat t + unat w), True)"
  unfolding pb_encode_tag_def using emits_varint [of "push_bit 3 (ucast t) OR ucast w"]
  by (simp add: tag_value)

lemma pb_decode_tag_has:
  assumes s: "is_has s (varint_bytes (8 * unat t + unat w)) rest"
    and w: "w < 8" and t: "0 < t" "t < 0x20000000"
  shows "pb_decode_tag s = (Some (w, t), False, is_drop s (length (varint_bytes (8 * unat t + unat w))) rest)"
proof -
  let ?n = "8 * unat t + unat w"
  have w8: "unat w < 8" and t29: "unat t < 2 ^ 29" and tpos: "0 < unat t" 
    using w t by (simp_all add: word_less_nat_alt unat_gt_0)
  then have n: "?n < 2 ^ 32" by simp
  then have un: "unat (of_nat ?n :: u32) = ?n" by (simp add: unsigned_of_nat take_bit_eq_mod del: of_nat_add of_nat_mult)
  have "(of_nat ?n :: u32) \<noteq> 0" using un tpos by (metis add_is_0 mult_is_0 nat_less_le unsigned_0 zero_neq_numeral)
  moreover have "(of_nat ?n :: u32) AND 7 = w"
    using w8 unat_and_mask [of "of_nat ?n :: u32" 3] un
    by (simp add: word_unat_eq_iff mask_eq_exp_minus_1 del: of_nat_add of_nat_mult)
  moreover have "drop_bit 3 (of_nat ?n :: u32) = t"
    using w8 unat_drop_bit [of 3 "of_nat ?n :: u32"] un
    by (simp add: word_unat_eq_iff del: of_nat_add of_nat_mult)
  ultimately show ?thesis
    by (simp add: pb_decode_tag_def pb_decode_varint32_eof_reads [OF s n] del: of_nat_add of_nat_mult)
qed

section \<open>Length-prefixed strings\<close>

definition string_bytes :: "byte list \<Rightarrow> byte list" where
  "string_bytes bs = varint_bytes (length bs) @ bs"

lemma emits_string:
  assumes n: "unat n = length bs"
  shows "emits (\<lambda>s. Some (pb_encode_string s bs n)) (string_bytes bs, True)"
proof -
  have "Some (pb_encode_string s bs n) = and_then (Some (pb_encode_varint s n)) (\<lambda>s. Some (pb_write s bs n))"
    for s :: "obuf pb_ostream"
    by (simp add: pb_encode_string_def seq_ok_def and_then_def split: prod.splits)
  then show ?thesis unfolding string_bytes_def
    using emits_seq [OF emits_varint [of n] emits_write [OF n]] by (simp add: n)
qed

lemma pb_make_string_substream_has:
  assumes s: "is_has s (string_bytes bs) rest" and n: "length bs < 2 ^ 32"
  shows "pb_make_string_substream s =
    (Some ((is_drop s (length (varint_bytes (length bs))) (bs @ rest))\<lparr>is_bytes_left := of_nat (length bs)\<rparr>),
     (is_drop s (length (string_bytes bs)) (bs @ rest)))"
proof -
  let ?k = "length (varint_bytes (length bs))"
  have uc: "ucast (of_nat (length bs) :: u32) = (of_nat (length bs) :: u64)"
    using n by (simp add: word_unat_eq_iff unsigned_of_nat take_bit_eq_mod)
  from is_has_split [OF s [unfolded string_bytes_def]]
  have v: "is_has s (varint_bytes (length bs)) (bs @ rest)" and b: "is_has (is_drop s ?k (bs @ rest)) bs rest" .
  from b n have "\<not> is_bytes_left (is_drop s ?k (bs @ rest)) < of_nat (length bs)"
    by (simp add: is_has_def word_less_nat_alt unat_u64_of_nat)
  then show ?thesis
    using readsD [OF reads_varint32 [OF n] v] uc
    by (simp add: pb_make_string_substream_def string_bytes_def is_drop_def)
qed

lemma skips_varint: "skips pb_skip_varint (varint_bytes n)"
proof (rule skipsI)
  fix s :: "'s pb_istream" and rest
  show "is_has s (varint_bytes n) rest \<Longrightarrow> pb_skip_varint s = (True, is_drop s (length (varint_bytes n)) rest)"
  proof (induction n arbitrary: s rule: varint_bytes.induct)
    case (1 n)
    show ?case
    proof (cases "n < 128")
      case True
      then show ?thesis using pb_read_has [of 1 "[of_nat n]" s rest] 1(2)
        by (subst pb_skip_varint.simps)
          (simp add: varint_bytes.simps [of n] and_80_zero unat_byte_of_nat)
    next
      case False
      let ?b = "of_nat (n mod 128 + 128) :: byte"
      have vb: "varint_bytes n = ?b # varint_bytes (n div 128)"
        using False by (simp add: varint_bytes.simps [of n])
      from 1(2) have "is_has s ([?b] @ varint_bytes (n div 128)) rest" by (simp add: vb)
      from is_has_split [OF this] have a: "is_has s [?b] (varint_bytes (n div 128) @ rest)"
        and b: "is_has (is_drop s 1 (varint_bytes (n div 128) @ rest)) (varint_bytes (n div 128)) rest" by simp_all
      have "?b AND 0x80 \<noteq> 0" by (simp add: and_80_zero unat_byte_of_nat del: of_nat_add)
      then show ?thesis using pb_read_has [OF _ a, of 1] 1(1) [OF False b]
        by (subst pb_skip_varint.simps) (simp add: vb del: of_nat_add)
    qed
  qed
qed

lemma skips_string:
  assumes n: "length bs < 2 ^ 32"
  shows "skips pb_skip_string (string_bytes bs)"
proof (rule skipsI)
  fix s :: "'s pb_istream" and rest
  assume "is_has s (string_bytes bs) rest"
  from is_has_split [OF this [unfolded string_bytes_def]]
  have v: "is_has s (varint_bytes (length bs)) (bs @ rest)"
    and b: "is_has (is_drop s (length (varint_bytes (length bs))) (bs @ rest)) bs rest" .
  have "unat (ucast (of_nat (length bs) :: u32) :: u64) = length bs"
    using n by (simp add: unsigned_of_nat take_bit_eq_mod)
  from pb_read_null_has [OF this b] show "pb_skip_string s = (True, is_drop s (length (string_bytes bs)) rest)"
    by (simp add: pb_skip_string_def readsD [OF reads_varint32 [OF n] v] string_bytes_def)
qed

section \<open>Values on the wire\<close>

datatype wire_value = WVarint u64 | WFixed64 u64 | WString "byte list" | WFixed32 u32

fun wire_type :: "wire_value \<Rightarrow> u32" where
  "wire_type (WVarint v) = PB_WT_VARINT"
| "wire_type (WFixed64 v) = PB_WT_64BIT"
| "wire_type (WString bs) = PB_WT_STRING"
| "wire_type (WFixed32 v) = PB_WT_32BIT"

fun wire_bytes :: "wire_value \<Rightarrow> byte list" where
  "wire_bytes (WVarint v) = varint_bytes (unat v)"
| "wire_bytes (WFixed64 v) = le_bytes 8 (unat v)"
| "wire_bytes (WString bs) = string_bytes bs"
| "wire_bytes (WFixed32 v) = le_bytes 4 (unat v)"

fun wire_fits :: "wire_value \<Rightarrow> bool" where
  "wire_fits (WString bs) \<longleftrightarrow> length bs < 2 ^ 32"
| "wire_fits _ \<longleftrightarrow> True"

lemma skips_field:
  assumes "wire_fits v"
  shows "skips (\<lambda>s. pb_skip_field s (wire_type v)) (wire_bytes v)"
  using assms
  by (cases v)
    (auto simp: pb_skip_field_def skips_varint skips_string intro!: skipsI pb_read_null_has)


section \<open>Properties\<close>

text \<open>
  A write to a memory buffer either fails and leaves every byte of the buffer as it was, or it
  stores exactly the given bytes at the buffer position, inside the limit, and changes no other byte.
\<close>
theorem pb_write_buffer_safe:
  assumes "os_callback s = Some buf_write" "unat n = length bs"
    and "os_bytes_written s \<le> os_max_size s" "unat (os_bytes_written s) + length bs < 2 ^ 64"
  shows "if unat (os_bytes_written s) + length bs \<le> unat (os_max_size s)
    then \<exists>t. pb_write s bs n = (True, t) \<and>
      unat (os_bytes_written t) = unat (os_bytes_written s) + length bs \<and>
      (\<forall>i. fst (os_state t) i = (if snd (os_state s) \<le> i \<and> i < snd (os_state s) + length bs
                               then bs ! (i - snd (os_state s)) else fst (os_state s) i))
    else \<exists>t. pb_write s bs n = (False, t) \<and> os_state t = os_state s \<and>
      os_errmsg t = PB_SET_ERROR (os_errmsg s) ''stream full''"
proof -
  have n: "n = of_nat (length bs)" using assms(2) by (metis of_nat_unat ucast_id)
  have "unat (os_bytes_written s + n) = unat (os_bytes_written s) + length bs"
    unfolding n using assms(4) by (rule unat_add_small)
  then show ?thesis using assms(1)
    by (auto simp: pb_write_def os_error_def buf_write_def word_less_nat_alt)
qed

theorem pb_write_buffer_safe_witness:
  "\<exists>t. pb_write (pb_ostream_from_buffer (\<lambda>_. 0) 4) [7, 8] 2 = (True, t) \<and> fst (os_state t) 1 = 8
     \<and> fst (os_state t) 2 = 0"
  using pb_write_buffer_safe [of "pb_ostream_from_buffer (\<lambda>_. 0) 4" 2 "[7, 8]"]
  by (auto simp: pb_ostream_from_buffer_def)

text \<open>
  C28: Every 64-bit value is encoded as a varint of at most ten bytes, and decoding these bytes gives
  the value back and consumes nothing else.
\<close>
theorem varint_roundtrip:
  "\<exists>bs. length bs \<le> 10 \<and> emits (\<lambda>s. Some (pb_encode_varint s v)) (bs, True) \<and> reads pb_decode_varint bs v"
  using length_varint_bytes_u64 emits_varint reads_varint by blast

text \<open>
  C29: On every input buffer the varint decoder returns a value and consumes exactly the varint iff one
  ends within the first ten bytes; otherwise it fails, with an overflow error when ten bytes were
  there and an end-of-stream error when the buffer ran out.
\<close>
theorem varint_decode_total:
  assumes "length bs < 2 ^ 64"
  shows "case varint_span (take 10 bs) of
      Some n \<Rightarrow> \<exists>v. pb_decode_varint (pb_istream_from_buffer bs (of_nat (length bs)) :: 'a pb_istream)
                     = (Some v, is_drop (pb_istream_from_buffer bs (of_nat (length bs))) n (drop n bs))
    | None \<Rightarrow> \<exists>t. pb_decode_varint (pb_istream_from_buffer bs (of_nat (length bs)) :: 'a pb_istream) = (None, t) \<and>
        is_errmsg t = Some (if 10 \<le> length bs then ''varint overflow'' else ''end-of-stream'')"
proof -
  let ?s = "pb_istream_from_buffer bs (of_nat (length bs)) :: 'a pb_istream"
  have "is_source ?s = Buf bs" "unat (is_bytes_left ?s) = length bs" "is_errmsg ?s = None"
    using assms by (simp_all add: pb_istream_from_buffer_def unat_u64_of_nat)
  from varint_dec_loop_span [OF this(1,2), of 0 0] this(3) show ?thesis
    unfolding pb_decode_varint_def PB_SET_ERROR_def
    by (simp only: mult_0_right diff_zero option.case)
qed

theorem varint_decode_total_witness:
  "\<exists>t. pb_decode_varint (pb_istream_from_buffer (replicate 11 255) 11 :: unit pb_istream) = (None, t) \<and>
     is_errmsg t = Some ''varint overflow''"
proof -
  have "varint_span (take 10 (replicate 11 255)) = None" by code_simp
  then show ?thesis using varint_decode_total [of "replicate 11 255"] by simp
qed

text \<open>
  A signed value is written as the varint of twice its absolute value, less one when negative
  (so values near zero stay short), and it is read back unchanged.
\<close>
theorem svarint_roundtrip:
  "let n = nat (if sint v < 0 then - 2 * sint v - 1 else 2 * sint v)
   in emits (\<lambda>s. Some (pb_encode_svarint s v)) (varint_bytes n, True) \<and>
      reads pb_decode_svarint (varint_bytes n) v"
  using emits_svarint [of v] reads_svarint [of v] by (simp add: unat_zigzag [symmetric] Let_def)

text \<open>
  Fixed-width integers are stored as four or eight little-endian bytes and read back unchanged.
\<close>
theorem fixed_roundtrip:
  "emits (\<lambda>s. Some (pb_encode_fixed32 s v)) (le_bytes 4 (unat v), True) \<and>
   reads pb_decode_fixed32 (le_bytes 4 (unat v)) v \<and>
   emits (\<lambda>s. Some (pb_encode_fixed64 s w)) (le_bytes 8 (unat w), True) \<and>
   reads pb_decode_fixed64 (le_bytes 8 (unat w)) w"
  using emits_fixed32 emits_fixed64 reads_fixed32 reads_fixed64 by blast

text \<open>
  A tag of a legal field number (at most 29 bits, not zero) with a wire type is read back as the
  same pair, without reporting the end of the message.
\<close>
theorem tag_roundtrip:
  assumes "w < 8" "0 < t" "t < 0x20000000"
  shows "\<exists>bs. emits (\<lambda>s. Some (pb_encode_tag s w t)) (bs, True) \<and>
    (\<forall>s rest. is_has s bs rest \<longrightarrow> pb_decode_tag s = (Some (w, t), False, is_drop s (length bs) rest))"
  using emits_tag [OF assms(1), of t] pb_decode_tag_has [OF _ assms] by blast

theorem tag_roundtrip_witness:
  "\<exists>bs. emits (\<lambda>s. Some (pb_encode_tag s 2 1)) (bs, True) \<and>
    (\<forall>s rest. is_has s bs rest \<longrightarrow> pb_decode_tag s = (Some (2, 1), False, is_drop s (length bs) rest))"
  by (rule tag_roundtrip) simp_all

text \<open>
  After a string was written, opening the substream, reading all of it and closing it returns the
  bytes of the string and leaves the parent right behind them.
\<close>
theorem string_roundtrip:
  assumes "length bs < 2 ^ 32" and "is_has s (string_bytes bs) rest"
  shows "emits (\<lambda>s. Some (pb_encode_string s bs (of_nat (length bs)))) (string_bytes bs, True) \<and>
    (\<exists>sub s1 sub' s2. pb_make_string_substream s = (Some sub, s1) \<and> is_bytes_left sub = of_nat (length bs) \<and>
        pb_read sub (of_nat (length bs)) = (True, bs, sub') \<and>
        pb_close_string_substream s1 sub' = (True, s2) \<and>
        is_source s2 = Buf rest \<and> is_bytes_left s2 = is_bytes_left s - of_nat (length (string_bytes bs)))"
proof -
  let ?sub = "(is_drop s (length (varint_bytes (length bs))) (bs @ rest))\<lparr>is_bytes_left := of_nat (length bs)\<rparr>"
  have n: "unat (of_nat (length bs) :: u64) = length bs"
    using assms(1) by (simp add: unat_u64_of_nat)
  have "is_has ?sub bs rest" by (simp add: is_has_def is_drop_def n)
  from pb_read_has [OF n this]
  have "pb_read ?sub (of_nat (length bs)) = (True, bs, is_drop ?sub (length bs) rest)" .
  moreover have "is_bytes_left (is_drop ?sub (length bs) rest) = 0" by (simp add: is_drop_def)
  ultimately show ?thesis
    using emits_string [OF n] pb_make_string_substream_has [OF assms(2,1)]
    by (simp add: pb_close_string_substream_def is_drop_def)
qed

theorem string_roundtrip_witness:
  "\<exists>sub s1. pb_make_string_substream (pb_istream_from_buffer [2, 65, 66, 8] 4 :: unit pb_istream) = (Some sub, s1)
     \<and> is_bytes_left sub = 2"
  using string_roundtrip [of "[65, 66]" "pb_istream_from_buffer [2, 65, 66, 8] 4 :: unit pb_istream" "[8]"]
  by (auto simp: is_has_def pb_istream_from_buffer_def string_bytes_def varint_bytes.simps)

text \<open>
  Skipping a field whose wire type and value are well formed consumes the bytes of the value and
  nothing more, so decoding goes on at the next field.
\<close>
theorem skip_field_exact:
  assumes "wire_fits v" "is_has s (wire_bytes v) rest"
  shows "pb_skip_field s (wire_type v) = (True, is_drop s (length (wire_bytes v)) rest)"
  using skipsD [OF skips_field [OF assms(1)] assms(2)] .

theorem skip_field_exact_witness:
  "pb_skip_field (pb_istream_from_buffer [2, 65, 66, 8] 4 :: unit pb_istream) 2
     = (True, is_drop (pb_istream_from_buffer [2, 65, 66, 8] 4) 3 [8])"
  using skip_field_exact [of "WString [65, 66]" "pb_istream_from_buffer [2, 65, 66, 8] 4 :: unit pb_istream" "[8]"]
  by (simp add: is_has_def pb_istream_from_buffer_def string_bytes_def varint_bytes.simps is_drop_def)

end
