(* ===== verification/PbEncodeSpec.thy ===== *)
theory PbEncodeSpec
  imports PbEncode PbPrimProps
begin

text \<open>
  The encoder against a reference that has no streams: \<open>message_bytes\<close> maps a message to the bytes of
  its encoding, by concatenation and length prefixes only. The encoder refines it on every stream, so
  its two passes over a submessage agree, the size it computes is the size it writes, and it never
  writes past the end of a buffer.
\<close>

section \<open>Emissions\<close>

text \<open>What an encoder writes, and whether it succeeds; \<open>None\<close> where the code is not defined.\<close>

type_synonym emission = "(byte list \<times> bool) option"

definition e_then :: "emission \<Rightarrow> emission \<Rightarrow> emission" where
  "e_then a b = (case a of
     None \<Rightarrow> None
   | Some (as, False) \<Rightarrow> Some (as, False)
   | Some (as, True) \<Rightarrow> map_option (\<lambda>(bs, ok). (as @ bs, ok)) b)"

definition e_string :: "emission \<Rightarrow> emission" where
  "e_string a = map_option (\<lambda>(bs, ok). (if ok then string_bytes bs else bs, ok)) a"

definition implements :: "(obuf pb_ostream \<Rightarrow> obuf encoding) \<Rightarrow> emission \<Rightarrow> bool" where
  "implements A e \<longleftrightarrow> (\<forall>r. e = Some r \<longrightarrow> emits A r)"

named_theorems implements_intros \<open>encoders that implement an emission\<close>

lemma implements_None [simp]: "implements A None"
  by (simp add: implements_def)

lemma implements_Some [simp]: "implements A (Some r) \<longleftrightarrow> emits A r"
  by (simp add: implements_def)

lemma implements_seq [implements_intros]:
  "implements A a \<Longrightarrow> implements B b \<Longrightarrow> implements (\<lambda>s. and_then (A s) B) (e_then a b)"
  by (cases a; cases b) (auto simp: e_then_def emits_seq emits_fail_first split: bool.splits)

lemma implements_if:
  "(c \<Longrightarrow> implements A a) \<Longrightarrow> (\<not> c \<Longrightarrow> implements B b) \<Longrightarrow>
     implements (\<lambda>s. if c then A s else B s) (if c then a else b)"
  by simp

lemma implements_done [implements_intros]: "implements (\<lambda>s. Some (True, s)) (Some ([], True))"
  by (simp add: emits_nothing)

lemma implements_error [implements_intros]: "implements (\<lambda>s. Some (os_error s msg)) (Some ([], False))"
  by (simp add: emits_error)

lemma implements_tag:
  "w < 8 \<Longrightarrow> implements (\<lambda>s. Some (pb_encode_tag s w t)) (Some (varint_bytes (8 * unat t + unat w), True))"
  by (simp add: emits_tag)

section \<open>The reference encoding\<close>

definition tag_bytes :: "pb_field \<Rightarrow> emission" where
  "tag_bytes field =
     Some (case wiretype_of (PB_LTYPE (fd_type field)) of
             None \<Rightarrow> ([], False)
           | Some w \<Rightarrow> (varint_bytes (8 * unat (fd_tag field) + unat w), True))"

definition number_bytes :: "u64 option \<Rightarrow> (u64 \<Rightarrow> u64) \<Rightarrow> emission" where
  "number_bytes v f = Some (case v of None \<Rightarrow> ([], False) | Some v \<Rightarrow> (varint_bytes (unat (f v)), True))"

text \<open>The value of a field at an address, by the field's type; \<open>sub\<close> encodes a submessage.\<close>

definition value_bytes ::
  "(int \<Rightarrow> pb_field list) \<Rightarrow> mem \<Rightarrow> (pb_field list \<Rightarrow> int \<Rightarrow> emission) \<Rightarrow> pb_field \<Rightarrow> int \<Rightarrow> emission" where
  "value_bytes descr m sub field src =
     (let ltype = PB_LTYPE (fd_type field); sz = fd_data_size field
      in if ltype = PB_LTYPE_VARINT then number_bytes (load_i64 m src sz) id
         else if ltype = PB_LTYPE_UVARINT then number_bytes (load_u64 m src sz) id
         else if ltype = PB_LTYPE_SVARINT then number_bytes (load_i64 m src sz) zigzag
         else if ltype = PB_LTYPE_FIXED32 then Some (load m src 4, True)
         else if ltype = PB_LTYPE_FIXED64 then Some (load m src 8, True)
         else if ltype = PB_LTYPE_BYTES then
           (if src = 0 then Some (string_bytes [], True)
            else let n = load_u32 m (bytes_array_size src)
                 in if PB_ATYPE (fd_type field) = PB_ATYPE_STATIC \<and> unat n + 4 > unat sz
                    then Some ([], False)
                    else Some (string_bytes (load m (bytes_array_bytes src) (unat n)), True))
         else if ltype = PB_LTYPE_STRING then
           Some (string_bytes (load m src (if src = 0 then 0 else str_size m src
             (if PB_ATYPE (fd_type field) = PB_ATYPE_POINTER then 2 ^ 64 - 1 else unat sz))), True)
         else if ltype = PB_LTYPE_SUBMESSAGE then
           (if fd_ptr field = 0 then Some ([], False) else e_string (sub (descr (fd_ptr field)) src))
         else if ltype = PB_LTYPE_FIXED_LENGTH_BYTES then Some (string_bytes (load m src (unat sz)), True)
         else None)"

fun elements_bytes :: "(int \<Rightarrow> emission) \<Rightarrow> int \<Rightarrow> nat \<Rightarrow> int \<Rightarrow> emission" where
  "elements_bytes f step 0 p = Some ([], True)"
| "elements_bytes f step (Suc n) p = e_then (f p) (elements_bytes f step n (p + step))"

definition array_bytes :: "mem \<Rightarrow> (pb_field \<Rightarrow> int \<Rightarrow> emission) \<Rightarrow> pb_field \<Rightarrow> int \<Rightarrow> nat \<Rightarrow> emission" where
  "array_bytes m val field pData n =
     (let step = uint (fd_data_size field); ltype = PB_LTYPE (fd_type field);
          pointer = PB_ATYPE (fd_type field) = PB_ATYPE_POINTER
      in if n = 0 then Some ([], True)
         else if \<not> pointer \<and> n > unat (fd_array_size field) then Some ([], False)
         else if ltype \<le> PB_LTYPE_LAST_PACKABLE then
           e_then (Some (varint_bytes (8 * unat (fd_tag field) + unat PB_WT_STRING), True))
                  (e_string (elements_bytes (val field) step n pData))
         else elements_bytes (\<lambda>p. e_then (tag_bytes field)
                (val field (if pointer \<and> (ltype = PB_LTYPE_STRING \<or> ltype = PB_LTYPE_BYTES)
                            then load_ptr m p else p))) step n pData)"

definition basic_bytes ::
  "(int \<Rightarrow> pb_field list) \<Rightarrow> mem \<Rightarrow> nat \<Rightarrow> (pb_field \<Rightarrow> int \<Rightarrow> emission) \<Rightarrow> pb_field \<Rightarrow> int \<Rightarrow> emission" where
  "basic_bytes descr m fuel val field pData =
     (let htype = PB_HTYPE (fd_type field);
          pSize = pData + sint (fd_size_offset field);
          explicit = (fd_size_offset field \<noteq> 0);
          pointer = (PB_ATYPE (fd_type field) = PB_ATYPE_POINTER);
          pSrc = (if pointer then load_ptr m pData else pData);
          tagged = e_then (tag_bytes field) (val field pSrc);
          skip = Some ([], True)
      in case (if \<not> explicit \<and> htype = PB_HTYPE_OPTIONAL
               then map_option Not (pb_check_proto3_default_value descr m fuel field pData)
               else Some True)
         of None \<Rightarrow> None
          | Some has \<Rightarrow>
              if htype = PB_HTYPE_REQUIRED then (if pSrc = 0 then Some ([], False) else tagged)
              else if htype = PB_HTYPE_OPTIONAL then
                (if (if explicit then load_bool m pSize else if pointer then pSrc \<noteq> 0 else has)
                 then tagged else skip)
              else if htype = PB_HTYPE_REPEATED then
                array_bytes m val field pSrc
                  (if explicit then unat (load_u32 m pSize) else unat (fd_array_size field))
              else if \<not> explicit then None
              else if load_u32 m pSize = fd_tag field then tagged else skip)"

text \<open>What the user's callbacks emit: by function pointer, field and argument, or extension.\<close>

record cb_spec =
  cs_callback :: "int \<Rightarrow> pb_field \<Rightarrow> int \<Rightarrow> emission"
  cs_extension :: "int \<Rightarrow> int \<Rightarrow> emission"

definition field_bytes ::
  "(int \<Rightarrow> pb_field list) \<Rightarrow> cb_spec \<Rightarrow> mem \<Rightarrow> nat \<Rightarrow> (pb_field \<Rightarrow> int \<Rightarrow> emission) \<Rightarrow> pb_field \<Rightarrow> int \<Rightarrow> emission" where
  "field_bytes descr cs m fuel val field pData =
     (let atype = PB_ATYPE (fd_type field); encode = load_ptr m (callback_funcs pData)
      in if atype = PB_ATYPE_STATIC \<or> atype = PB_ATYPE_POINTER then basic_bytes descr m fuel val field pData
         else if atype = PB_ATYPE_CALLBACK then
           (if encode = 0 then Some ([], True) else cs_callback cs encode field (callback_arg pData))
         else Some ([], False))"

fun extensions_bytes ::
  "(int \<Rightarrow> pb_field list) \<Rightarrow> cb_spec \<Rightarrow> mem \<Rightarrow> (pb_field \<Rightarrow> int \<Rightarrow> emission) \<Rightarrow> nat \<Rightarrow> int \<Rightarrow> emission" where
  "extensions_bytes descr cs m fld n ext =
     (if ext = 0 then Some ([], True)
      else case n of
             0 \<Rightarrow> None
           | Suc n \<Rightarrow>
               (let encode = load_ptr m (ext_type_encode (load_ptr m (ext_type ext)));
                    field = field_at (descr (load_ptr m (ext_type_arg (load_ptr m (ext_type ext))))) 0
                in e_then
                     (if encode \<noteq> 0 then cs_extension cs encode ext
                      else fld field (if PB_ATYPE (fd_type field) = PB_ATYPE_POINTER then ext_dest ext
                                      else load_ptr m (ext_dest ext)))
                     (extensions_bytes descr cs m fld n (load_ptr m (ext_next ext)))))"

declare extensions_bytes.simps [simp del]

fun walk_bytes :: "(pb_field \<Rightarrow> int \<Rightarrow> emission) \<Rightarrow> nat \<Rightarrow> pb_field_iter \<Rightarrow> emission" where
  "walk_bytes f 0 it = None"
| "walk_bytes f (Suc n) it =
     e_then (f (it_field it) (it_pData it))
       (case pb_field_iter_next it of (True, it') \<Rightarrow> walk_bytes f n it' | (False, _) \<Rightarrow> Some ([], True))"

text \<open>The bytes of a message: those of its fields in the order of the descriptors.\<close>

fun message_bytes ::
  "(int \<Rightarrow> pb_field list) \<Rightarrow> cb_spec \<Rightarrow> mem \<Rightarrow> nat \<Rightarrow> pb_field list \<Rightarrow> int \<Rightarrow> emission" where
  "message_bytes descr cs m 0 flds src = None"
| "message_bytes descr cs m (Suc fuel) flds src =
     (case pb_field_iter_begin flds src of
        (False, _) \<Rightarrow> Some ([], True)
      | (True, it) \<Rightarrow>
          (let val = value_bytes descr m (message_bytes descr cs m fuel);
               fld = field_bytes descr cs m fuel val
           in walk_bytes (\<lambda>field pData.
                if PB_LTYPE (fd_type field) = PB_LTYPE_EXTENSION
                then extensions_bytes descr cs m fld fuel (load_ptr m pData)
                else fld field pData) (length flds) it))"

section \<open>The encoder implements the reference\<close>

lemma sizing_wf [simp]: "os_wf (PB_OSTREAM_SIZING st)"
  by (simp add: os_wf_def PB_OSTREAM_SIZING_def)

lemma sizing_room [simp]: "os_room (PB_OSTREAM_SIZING st) n"
  by (simp add: os_room_def PB_OSTREAM_SIZING_def)

lemma sizing_written [simp]: "os_bytes_written (PB_OSTREAM_SIZING st) = 0"
  by (simp add: PB_OSTREAM_SIZING_def)

lemma sizing_put [simp]: "os_bytes_written (os_put (PB_OSTREAM_SIZING st) bs) = of_nat (length bs)"
  by (simp add: os_put_def)

text \<open>An emitter on a sizing stream: the size is that of the bytes.\<close>

lemma emits_sizing:
  assumes "emits A (bs, ok)" "length bs < 2 ^ 64"
  shows "if ok then A (PB_OSTREAM_SIZING st) = Some (True, os_put (PB_OSTREAM_SIZING st) bs)
    else \<exists>t. A (PB_OSTREAM_SIZING st) = Some (False, t)"
proof -
  have "emits_at (A (PB_OSTREAM_SIZING st)) (PB_OSTREAM_SIZING st) (bs, ok)"
    using assms by (simp add: emits_def)
  then show ?thesis by (auto simp: emits_at_def)
qed

lemma string_bytes_length: "length bs \<le> length (string_bytes bs)"
  by (simp add: string_bytes_def)

text \<open>The common end of packed arrays and submessages: the size, then the bytes unless only sizing.\<close>

lemma emits_at_prefixed:
  fixes s :: "obuf pb_ostream"
  assumes wf: "os_wf s" and fit: "unat (os_bytes_written s) + length (string_bytes bs) < 2 ^ 64"
    and B: "\<And>s. os_wf s \<Longrightarrow> unat (os_bytes_written s) + length bs < 2 ^ 64 \<Longrightarrow> os_callback s \<noteq> None \<Longrightarrow>
      emits_at (B s) s (bs, True)"
  shows "emits_at (and_then (Some (pb_encode_varint s (of_nat (length bs))))
      (\<lambda>s. if os_callback s = None then Some (pb_write s [] (of_nat (length bs))) else B s))
    s (string_bytes bs, True)"
proof -
  have len: "length bs < 2 ^ 64" using fit string_bytes_length [of bs] by linarith
  then have un: "unat (of_nat (length bs) :: u64) = length bs" by (simp add: unat_u64_of_nat)
  let ?v = "varint_bytes (length bs)"
  have fitv: "unat (os_bytes_written s) + length ?v < 2 ^ 64" using fit by (simp add: string_bytes_def)
  have "emits_at (and_then (Some (pb_encode_varint s (of_nat (length bs))))
      (\<lambda>s. if os_callback s = None then Some (pb_write s [] (of_nat (length bs))) else B s)) s (?v @ bs, True)"
  proof (rule emits_at_seq)
    show "emits_at (Some (pb_encode_varint s (of_nat (length bs)))) s (?v, True)"
      using emits_varint [of "of_nat (length bs)"] wf fitv by (simp add: emits_def un)
    let ?s = "os_put s ?v"
    assume wf': "os_wf ?s"
    have fit': "unat (os_bytes_written ?s) + length bs < 2 ^ 64"
      using fit fitv by (simp add: bytes_written_put string_bytes_def)
    show "emits_at (if os_callback ?s = None then Some (pb_write ?s [] (of_nat (length bs))) else B ?s) ?s (bs, True)"
    proof (cases "os_callback ?s = None")
      case True
      then show ?thesis by (simp add: emits_at_def os_room_def pb_write_def os_put_def)
    next
      case False
      then show ?thesis using B [OF wf' fit'] by auto
    qed
  qed (use wf fit in \<open>simp_all add: string_bytes_def\<close>)
  then show ?thesis by (simp add: string_bytes_def)
qed

lemma implements_submessage:
  assumes "implements (\<lambda>s. rec s flds src) e"
  shows "implements (\<lambda>s. pb_encode_submessage rec s flds src) (e_string e)"
proof (cases e)
  case (Some r)
  obtain bs ok where r: "r = (bs, ok)" by (cases r)
  from assms Some r have em: "emits (\<lambda>s. rec s flds src) (bs, ok)" by simp
  have "emits (\<lambda>s. pb_encode_submessage rec s flds src) (if ok then string_bytes bs else bs, ok)"
    unfolding emits_def
  proof (intro allI impI)
    fix s :: "obuf pb_ostream"
    assume wf: "os_wf s" and fit: "unat (os_bytes_written s) + length (fst (if ok then string_bytes bs else bs, ok)) < 2 ^ 64"
    show "emits_at (pb_encode_submessage rec s flds src) s (if ok then string_bytes bs else bs, ok)"
    proof (cases ok)
      case False
      with fit have "length bs < 2 ^ 64" by simp
      from emits_sizing [OF em this, where st = "os_state s"] False obtain t where
        "rec (PB_OSTREAM_SIZING (os_state s)) flds src = Some (False, t)" by auto
      with wf False show ?thesis
        by (auto simp: pb_encode_submessage_def emits_at_def os_keeps_def os_wf_def)
    next
      case True
      with fit have len: "length bs < 2 ^ 64" using string_bytes_length [of bs] by auto
      let ?sz = "of_nat (length bs) :: u64"
      have un: "unat ?sz = length bs" using len by (simp add: unat_u64_of_nat)
      have size: "rec (PB_OSTREAM_SIZING (os_state s)) flds src
          = Some (True, os_put (PB_OSTREAM_SIZING (os_state s)) bs)"
        using emits_sizing [OF em len] True by simp
      have second: "emits_at
          (if os_bytes_written s + ?sz > os_max_size s then Some (os_error s ''stream full'')
           else case rec (s\<lparr>os_max_size := ?sz, os_bytes_written := 0, os_errmsg := None\<rparr>) flds src of
                  None \<Rightarrow> None
                | Some (status, sub) \<Rightarrow>
                    (let s' = s\<lparr>os_bytes_written := os_bytes_written s + os_bytes_written sub,
                                os_state := os_state sub, os_errmsg := os_errmsg sub\<rparr>
                     in if os_bytes_written sub \<noteq> ?sz then Some (os_error s' ''submsg size changed'')
                        else Some (status, s'))) s (bs, True)"
        if wf': "os_wf s" and fit': "unat (os_bytes_written s) + length bs < 2 ^ 64" and cb: "os_callback s \<noteq> None"
        for s :: "obuf pb_ostream"
      proof (cases "os_room s (length bs)")
        case False
        then have "os_bytes_written s + ?sz > os_max_size s"
          using cb unat_add_small [OF fit'] by (simp add: os_room_def word_less_nat_alt)
        then show ?thesis using False wf'
          by (auto simp: emits_at_def os_error_def os_keeps_def os_wf_def)
      next
        case True
        then have no: "\<not> os_bytes_written s + ?sz > os_max_size s"
          using cb unat_add_small [OF fit'] by (simp add: os_room_def word_less_nat_alt)
        let ?t = "s\<lparr>os_max_size := ?sz, os_bytes_written := 0, os_errmsg := None\<rparr>"
        have "os_wf ?t" "os_room ?t (length bs)" using wf' cb by (auto simp: os_wf_def os_room_def un)
        then have "rec ?t flds src = Some (True, os_put ?t bs)"
          using em \<open>ok\<close> len by (auto simp: emits_def emits_at_def)
        then show ?thesis using no True wf'
          by (cases s) (simp add: emits_at_def os_put_def os_wf_def)
      qed
      have fit': "unat (os_bytes_written s) + length (string_bytes bs) < 2 ^ 64" using fit True by simp
      have ok: "(if ok then string_bytes bs else bs, ok) = (string_bytes bs, True)" using True by simp
      show ?thesis
        unfolding pb_encode_submessage_def size Let_def option.case prod.case bool.case sizing_put ok
        by (rule emits_at_prefixed [OF wf fit']) (rule second [unfolded Let_def])
    qed
  qed
  then show ?thesis by (simp add: Some r e_string_def)
qed (simp add: e_string_def)

lemma implements_elements:
  assumes "\<And>p. implements (\<lambda>s. f s p) (g p)"
  shows "implements (encode_elements f step n p) (elements_bytes g step n p)"
proof (induction n arbitrary: p)
  case 0
  show ?case using emits_nothing by (simp add: emits_def)
next
  case (Suc n)
  show ?case using implements_seq [OF assms Suc.IH] by (simp add: implements_def emits_def)
qed


lemma encoders [simp]:
  "PB_ENCODERS env m rec PB_LTYPE_VARINT = Some (pb_enc_varint m)"
  "PB_ENCODERS env m rec PB_LTYPE_UVARINT = Some (pb_enc_uvarint m)"
  "PB_ENCODERS env m rec PB_LTYPE_SVARINT = Some (pb_enc_svarint m)"
  "PB_ENCODERS env m rec PB_LTYPE_FIXED32 = Some (pb_enc_fixed32 m)"
  "PB_ENCODERS env m rec PB_LTYPE_FIXED64 = Some (pb_enc_fixed64 m)"
  "PB_ENCODERS env m rec PB_LTYPE_BYTES = Some (pb_enc_bytes m)"
  "PB_ENCODERS env m rec PB_LTYPE_STRING = Some (pb_enc_string m)"
  "PB_ENCODERS env m rec PB_LTYPE_SUBMESSAGE = Some (pb_enc_submessage env rec)"
  "PB_ENCODERS env m rec PB_LTYPE_FIXED_LENGTH_BYTES = Some (pb_enc_fixed_length_bytes m)"
  by (simp_all add: PB_ENCODERS_def)

lemma load_le_bytes: "le_bytes n (le_val (load m a n)) = load m a n"
  by (rule le_bytes_le_val) (simp add: load_def)

lemma emits_load_string:
  "n < 2 ^ 64 \<Longrightarrow> k = of_nat n \<Longrightarrow> emits (\<lambda>s. Some (pb_encode_string s (load m a n) k)) (string_bytes (load m a n), True)"
  by (rule emits_string) (simp add: unat_u64_of_nat)

lemma str_size_le: "str_size m p n \<le> n"
  by (induction m p n rule: str_size.induct) (subst str_size.simps, auto)

lemma implements_cond:
  "(c \<Longrightarrow> implements A a) \<Longrightarrow> (\<not> c \<Longrightarrow> implements A b) \<Longrightarrow> implements A (if c then a else b)"
  by simp

lemma emits_bytes:
  "implements (\<lambda>s. pb_enc_bytes m s field src)
     (if src = 0 then Some (string_bytes [], True)
      else let n = load_u32 m (bytes_array_size src)
           in if PB_ATYPE (fd_type field) = PB_ATYPE_STATIC \<and> unat n + 4 > unat (fd_data_size field)
              then Some ([], False)
              else Some (string_bytes (load m (bytes_array_bytes src) (unat n)), True))"
proof -
  let ?n = "load_u32 m (bytes_array_size src)"
  have small: "unat ?n < 2 ^ 64" by (rule unat_u32_less_64)
  have "unat (ucast ?n + 4 :: u64) = unat ?n + 4"
    using unat_add_small [of "ucast ?n" 4] unat_u32_less [of ?n] by simp
  then have "ucast ?n + 4 > (ucast (fd_data_size field) :: u64) \<longleftrightarrow> unat ?n + 4 > unat (fd_data_size field)"
    by (simp add: word_less_nat_alt)
  then have *: "pb_enc_bytes m s field src =
     (if src = 0 then Some (pb_encode_string s [] 0)
      else if PB_ATYPE (fd_type field) = PB_ATYPE_STATIC \<and> unat ?n + 4 > unat (fd_data_size field)
      then Some (os_error s ''bytes size exceeded'')
      else Some (pb_encode_string s (load m (bytes_array_bytes src) (unat ?n)) (ucast ?n)))" for s :: "obuf pb_ostream"
    by (simp only: pb_enc_bytes_def Let_def PB_BYTES_ARRAY_T_ALLOCSIZE_def)
  have "emits (\<lambda>s. Some (pb_encode_string s (load m (bytes_array_bytes src) (unat ?n)) (ucast ?n)))
      (string_bytes (load m (bytes_array_bytes src) (unat ?n)), True)"
    by (rule emits_load_string [OF small]) simp
  then show ?thesis unfolding * Let_def
    using emits_string [of 0 "[]"] by (intro implements_if) (simp_all add: emits_error)
qed

lemma emits_str:
  "emits (\<lambda>s. pb_enc_string m s field src)
    (string_bytes (load m src (if src = 0 then 0 else str_size m src
      (if PB_ATYPE (fd_type field) = PB_ATYPE_POINTER then 2 ^ 64 - 1 else unat (fd_data_size field)))), True)"
proof -
  let ?n = "if src = 0 then 0 else str_size m src
      (if PB_ATYPE (fd_type field) = PB_ATYPE_POINTER then 2 ^ 64 - 1 else unat (fd_data_size field))"
  have "?n < 2 ^ 64"
    using str_size_le [of m src "2 ^ 64 - 1"] str_size_le [of m src "unat (fd_data_size field)"]
      unat_u32_less [of "fd_data_size field"] by auto
  from emits_load_string [OF this refl, of m src] show ?thesis
    by (simp only: pb_enc_string_def Let_def)
qed

lemma tag_implements: "implements (\<lambda>s. Some (pb_encode_tag_for_field s field)) (tag_bytes field)"
proof (cases "wiretype_of (PB_LTYPE (fd_type field))")
  case None
  then show ?thesis by (simp add: pb_encode_tag_for_field_def tag_bytes_def emits_error)
next
  case (Some w)
  then have "w < 8" by (auto simp: wiretype_of_def split: if_splits)
  with Some show ?thesis by (simp add: pb_encode_tag_for_field_def tag_bytes_def emits_tag)
qed

locale enc_callbacks =
  fixes env :: "obuf enc_env" and cs :: cb_spec
  assumes callback: "implements (\<lambda>s. ee_callback env p s field arg) (cs_callback cs p field arg)"
    and extension: "implements (\<lambda>s. ee_extension env p s ext) (cs_extension cs p ext)"
begin

lemma value_implements:
  assumes "\<And>flds src. implements (\<lambda>s. rec s flds src) (sub flds src)"
  shows "implements (\<lambda>s. call_encoder (PB_ENCODERS env m rec (PB_LTYPE (fd_type field))) s field src)
    (value_bytes (ee_descr env) m sub field src)"
proof -
  let ?l = "PB_LTYPE (fd_type field)" and ?sz = "fd_data_size field"
  let ?call = "\<lambda>s. call_encoder (PB_ENCODERS env m rec ?l) s field src"
  note d = call_encoder_def value_bytes_def number_bytes_def Let_def
  consider "?l = PB_LTYPE_VARINT" | "?l = PB_LTYPE_UVARINT" | "?l = PB_LTYPE_SVARINT"
    | "?l = PB_LTYPE_FIXED32" | "?l = PB_LTYPE_FIXED64" | "?l = PB_LTYPE_BYTES" | "?l = PB_LTYPE_STRING"
    | "?l = PB_LTYPE_SUBMESSAGE" | "?l = PB_LTYPE_FIXED_LENGTH_BYTES"
    | "value_bytes (ee_descr env) m sub field src = None"
    unfolding value_bytes_def Let_def by argo
  then show ?thesis
  proof cases
    case 1
    then show ?thesis
      by (cases "load_i64 m src ?sz") (simp_all add: d pb_enc_varint_def emits_varint emits_error)
  next
    case 2
    then show ?thesis
      by (cases "load_u64 m src ?sz") (simp_all add: d pb_enc_uvarint_def emits_varint emits_error)
  next
    case 3
    then show ?thesis
      by (cases "load_i64 m src ?sz") (simp_all add: d pb_enc_svarint_def emits_svarint emits_error)
  next
    case 4
    have "unat (load_u32 m src) = le_val (load m src 4)"
      using le_val_less [of "load m src 4"] by (simp add: load_u32_def unsigned_of_nat take_bit_eq_mod)
    with 4 emits_fixed32 [of "load_u32 m src"] show ?thesis
      by (simp add: d pb_enc_fixed32_def load_le_bytes)
  next
    case 5
    have "unat (of_nat (le_val (load m src 8)) :: u64) = le_val (load m src 8)"
      using le_val_less [of "load m src 8"] by (simp add: unsigned_of_nat take_bit_eq_mod)
    with 5 emits_fixed64 [of "of_nat (le_val (load m src 8))"] show ?thesis
      by (simp add: d pb_enc_fixed64_def load_le_bytes)
  next
    case 6
    with emits_bytes [of m field src] show ?thesis by (simp add: call_encoder_def value_bytes_def Let_def)
  next
    case 7
    with emits_str [of m field src] show ?thesis by (simp add: call_encoder_def value_bytes_def Let_def)
  next
    case 8
    with implements_submessage [where rec = rec and flds = "ee_descr env (fd_ptr field)" and src = src, OF assms] show ?thesis
      by (simp add: d pb_enc_submessage_def emits_error)
  next
    case 9
    have "unat ?sz < 2 ^ 64" by (rule unat_u32_less_64)
    with 9 emits_load_string [of "unat ?sz" "ucast ?sz" m src] show ?thesis
      by (simp add: d pb_enc_fixed_length_bytes_def)
  qed simp
qed

lemma prefixed_implements:
  assumes E: "implements E els"
    and size: "\<And>bs ok st. els = Some (bs, ok) \<Longrightarrow> length bs < 2 ^ 64 \<Longrightarrow>
      if ok then SZ st = Some (True, of_nat (length bs)) else \<exists>x. SZ st = Some (False, x)"
  shows "implements (\<lambda>s. case SZ (os_state s) of
        None \<Rightarrow> None
      | Some (False, _) \<Rightarrow> Some (False, s)
      | Some (True, sz) \<Rightarrow>
          and_then (Some (pb_encode_varint s sz)) (\<lambda>s.
            if os_callback s = None then Some (pb_write s [] sz) else E s)) (e_string els)"
proof (cases els)
  case (Some r)
  obtain bs ok where r: "r = (bs, ok)" by (cases r)
  from E Some r have em: "emits E (bs, ok)" by simp
  show ?thesis unfolding Some r e_string_def option.map prod.case implements_Some emits_def
  proof (intro allI impI)
    fix s :: "obuf pb_ostream"
    assume wf: "os_wf s" and fit: "unat (os_bytes_written s) + length (fst (if ok then string_bytes bs else bs, ok)) < 2 ^ 64"
    have len: "length bs < 2 ^ 64" using fit string_bytes_length [of bs] by (auto split: if_splits)
    show "emits_at (case SZ (os_state s) of
        None \<Rightarrow> None
      | Some (False, _) \<Rightarrow> Some (False, s)
      | Some (True, sz) \<Rightarrow>
          and_then (Some (pb_encode_varint s sz)) (\<lambda>s.
            if os_callback s = None then Some (pb_write s [] sz) else E s))
        s (if ok then string_bytes bs else bs, ok)"
    proof (cases ok)
      case True
      have SZ: "SZ (os_state s) = Some (True, of_nat (length bs))"
        using size [of bs ok "os_state s"] Some r True len by simp
      have ok: "(if ok then string_bytes bs else bs, ok) = (string_bytes bs, True)" using True by simp
      show ?thesis unfolding SZ ok option.case prod.case bool.case
        by (rule emits_at_prefixed [OF wf]) (use fit True em in \<open>simp_all add: emits_def\<close>)
    next
      case False
      then obtain x where "SZ (os_state s) = Some (False, x)"
        using size [of bs ok "os_state s"] Some r len by auto
      with False show ?thesis using os_keeps_refl [OF wf] by (simp add: emits_at_def)
    qed
  qed
qed (simp add: e_string_def)

lemma fixed_elements:
  assumes "\<And>p. \<exists>bs. g p = Some (bs, True) \<and> length bs = k"
  shows "\<exists>bs. elements_bytes g step n p = Some (bs, True) \<and> length bs = k * n"
proof (induction n arbitrary: p)
  case (Suc n)
  obtain as where "g p = Some (as, True)" "length as = k" using assms by blast
  moreover obtain bs where "elements_bytes g step n (p + step) = Some (bs, True)" "length bs = k * n"
    using Suc.IH by blast
  ultimately show ?case by (simp add: e_then_def)
qed simp

lemma array_implements:
  assumes val: "\<And>src. implements (\<lambda>s. call_encoder func s field src) (val field src)"
    and 32: "PB_LTYPE (fd_type field) = PB_LTYPE_FIXED32 \<Longrightarrow> \<forall>p. \<exists>bs. val field p = Some (bs, True) \<and> length bs = 4"
    and 64: "PB_LTYPE (fd_type field) = PB_LTYPE_FIXED64 \<Longrightarrow> \<forall>p. \<exists>bs. val field p = Some (bs, True) \<and> length bs = 8"
  shows "implements (\<lambda>s. encode_array m s field pData n func) (array_bytes m val field pData n)"
proof -
  let ?l = "PB_LTYPE (fd_type field)" and ?step = "uint (fd_data_size field)"
  let ?E = "encode_elements (\<lambda>s. call_encoder func s field) ?step n pData"
  let ?SZ = "\<lambda>st. if ?l = PB_LTYPE_FIXED32 then Some (True, 4 * of_nat n)
                   else if ?l = PB_LTYPE_FIXED64 then Some (True, 8 * of_nat n)
                   else map_option (map_prod id os_bytes_written) (?E (PB_OSTREAM_SIZING st))"
  have E: "implements ?E (elements_bytes (val field) ?step n pData)"
    by (rule implements_elements) (rule val)
  have packed: "implements (\<lambda>s. case ?SZ (os_state s) of
        None \<Rightarrow> None
      | Some (False, _) \<Rightarrow> Some (False, s)
      | Some (True, sz) \<Rightarrow>
          and_then (Some (pb_encode_varint s sz)) (\<lambda>s.
            if os_callback s = None then Some (pb_write s [] sz) else ?E s))
      (e_string (elements_bytes (val field) ?step n pData))"
  proof (rule prefixed_implements [OF E])
    fix bs ok and st :: obuf
    assume els: "elements_bytes (val field) ?step n pData = Some (bs, ok)" and len: "length bs < 2 ^ 64"
    consider "?l = PB_LTYPE_FIXED32" | "?l = PB_LTYPE_FIXED64" | "?l \<noteq> PB_LTYPE_FIXED32" "?l \<noteq> PB_LTYPE_FIXED64" by blast
    then show "if ok then ?SZ st = Some (True, of_nat (length bs)) else \<exists>x. ?SZ st = Some (False, x)"
    proof cases
      case 1
      then show ?thesis using fixed_elements [where g = "val field" and step = ?step and n = n and p = pData, OF spec [OF 32 [OF 1]]] els by auto
    next
      case 2
      then show ?thesis using fixed_elements [where g = "val field" and step = ?step and n = n and p = pData, OF spec [OF 64 [OF 2]]] els by auto
    next
      case 3
      from E els have "emits ?E (bs, ok)" by simp
      from emits_sizing [OF this len, of st] 3 show ?thesis by (auto split: if_splits)
    qed
  qed
  have call_if: "(if c then call_encoder func s field p else call_encoder func s field q)
      = call_encoder func s field (if c then p else q)" for c s p q by simp
  have unpacked: "implements (encode_elements (\<lambda>s p.
             and_then (Some (pb_encode_tag_for_field s field)) (\<lambda>s.
               if PB_ATYPE (fd_type field) = PB_ATYPE_POINTER \<and> (?l = PB_LTYPE_STRING \<or> ?l = PB_LTYPE_BYTES)
               then call_encoder func s field (load_ptr m p)
               else call_encoder func s field p)) ?step n pData)
      (elements_bytes (\<lambda>p. e_then (tag_bytes field)
                (val field (if PB_ATYPE (fd_type field) = PB_ATYPE_POINTER \<and> (?l = PB_LTYPE_STRING \<or> ?l = PB_LTYPE_BYTES)
                            then load_ptr m p else p))) ?step n pData)"
    unfolding call_if by (intro implements_elements implements_seq tag_implements val)
  show ?thesis
    unfolding encode_array_def array_bytes_def Let_def
    by (intro implements_if implements_done implements_error implements_seq packed unpacked
        implements_tag) simp
qed

lemma implements_case_has:
  "(\<And>has. h = Some has \<Longrightarrow> implements (A has) (e has)) \<Longrightarrow>
   implements (\<lambda>s. case h of None \<Rightarrow> None | Some has \<Rightarrow> A has s) (case h of None \<Rightarrow> None | Some has \<Rightarrow> e has)"
  by (cases h) auto

lemma basic_implements:
  assumes "\<And>flds src. implements (\<lambda>s. rec s flds src) (sub flds src)"
  shows "implements (\<lambda>s. encode_basic_field env m fuel rec s field pData)
    (basic_bytes (ee_descr env) m fuel (value_bytes (ee_descr env) m sub) field pData)"
proof -
  note val = value_implements [OF assms]
  have tagged: "implements (\<lambda>s. and_then (Some (pb_encode_tag_for_field s field))
       (\<lambda>s. call_encoder (PB_ENCODERS env m rec (PB_LTYPE (fd_type field))) s field src))
      (e_then (tag_bytes field) (value_bytes (ee_descr env) m sub field src))" for src
    by (rule implements_seq [OF tag_implements val])
  have array: "implements (\<lambda>s. encode_array m s field pSrc n (PB_ENCODERS env m rec (PB_LTYPE (fd_type field))))
      (array_bytes m (value_bytes (ee_descr env) m sub) field pSrc n)" for pSrc n
    by (rule array_implements [OF val]) (simp_all add: value_bytes_def)
  have head: "(if fd_size_offset field \<noteq> 0 then Some True
               else if PB_HTYPE (fd_type field) = PB_HTYPE_OPTIONAL then h else Some True)
      = (if \<not> fd_size_offset field \<noteq> 0 \<and> PB_HTYPE (fd_type field) = PB_HTYPE_OPTIONAL then h else Some True)" for h
    by simp
  show ?thesis
    unfolding encode_basic_field_def basic_bytes_def Let_def head
    by (intro implements_case_has implements_if implements_done implements_error tagged array implements_None)
qed


lemma callback_implements:
  "implements (\<lambda>s. encode_callback_field env m s field pData)
    (if load_ptr m (callback_funcs pData) = 0 then Some ([], True)
     else cs_callback cs (load_ptr m (callback_funcs pData)) field (callback_arg pData))"
proof -
  let ?cb = "\<lambda>s. ee_callback env (load_ptr m (callback_funcs pData)) s field (callback_arg pData)"
  have "implements (\<lambda>s. case ?cb s of None \<Rightarrow> None | Some (True, s') \<Rightarrow> Some (True, s')
              | Some (False, s') \<Rightarrow> Some (os_error s' ''callback error''))
     (cs_callback cs (load_ptr m (callback_funcs pData)) field (callback_arg pData))"
    using callback [of "load_ptr m (callback_funcs pData)" field "callback_arg pData"]
    by (fastforce simp: implements_def emits_def emits_at_def os_error_def os_keeps_def)
  then show ?thesis unfolding encode_callback_field_def Let_def
    by (intro implements_if implements_done) simp_all
qed

lemma field_implements:
  assumes "\<And>flds src. implements (\<lambda>s. rec s flds src) (sub flds src)"
  shows "implements (\<lambda>s. encode_field env m fuel rec s field pData)
    (field_bytes (ee_descr env) cs m fuel (value_bytes (ee_descr env) m sub) field pData)"
  unfolding encode_field_def field_bytes_def Let_def
  by (intro implements_if implements_error basic_implements callback_implements assms)

lemma extensions_implements:
  assumes "\<And>flds src. implements (\<lambda>s. rec s flds src) (sub flds src)"
  shows "implements (encode_extensions env m fuel rec n ext)
    (extensions_bytes (ee_descr env) cs m (field_bytes (ee_descr env) cs m fuel (value_bytes (ee_descr env) m sub)) n ext)"
proof (induction n arbitrary: ext)
  case 0
  show ?case by (auto simp: encode_extensions.simps extensions_bytes.simps emits_def emits_nothing [unfolded emits_def])
next
  case (Suc n)
  let ?enc = "load_ptr m (ext_type_encode (load_ptr m (ext_type ext)))"
  have one: "implements (\<lambda>s. if ?enc \<noteq> 0 then ee_extension env ?enc s ext
                     else default_extension_encoder env m fuel rec s ext)
     (let field = field_at (ee_descr env (load_ptr m (ext_type_arg (load_ptr m (ext_type ext))))) 0
      in if ?enc \<noteq> 0 then cs_extension cs ?enc ext
         else field_bytes (ee_descr env) cs m fuel (value_bytes (ee_descr env) m sub) field
           (if PB_ATYPE (fd_type field) = PB_ATYPE_POINTER then ext_dest ext else load_ptr m (ext_dest ext)))"
    unfolding default_extension_encoder_def Let_def
    by (intro implements_if extension) (simp add: field_implements [OF assms])
  have "encode_extensions env m fuel rec (Suc n) ext = (\<lambda>s. if ext = 0 then Some (True, s) else
      and_then (if ?enc \<noteq> 0 then ee_extension env ?enc s ext
                     else default_extension_encoder env m fuel rec s ext)
         (encode_extensions env m fuel rec n (load_ptr m (ext_next ext))))"
    by (rule ext) (subst encode_extensions.simps, simp add: Let_def)
  moreover have "implements \<dots> (extensions_bytes (ee_descr env) cs m
      (field_bytes (ee_descr env) cs m fuel (value_bytes (ee_descr env) m sub)) (Suc n) ext)"
    using implements_seq [OF one Suc.IH]
    by (subst extensions_bytes.simps) (simp add: Let_def emits_nothing)
  ultimately show ?case by simp
qed

lemma walk_implements:
  assumes "\<And>field p. implements (\<lambda>s. f s field p) (g field p)"
  shows "implements (encode_fields f n it) (walk_bytes g n it)"
proof (induction n arbitrary: it)
  case (Suc n)
  obtain more it' where nxt: "pb_field_iter_next it = (more, it')" by (cases "pb_field_iter_next it")
  have "implements (\<lambda>s. if more then encode_fields f n it' s else Some (True, s))
     (if more then walk_bytes g n it' else Some ([], True))"
    by (intro implements_if implements_done) (rule Suc.IH)
  from implements_seq [OF assms this] show ?case
    by (cases more) (simp_all add: nxt implements_def emits_def)
qed simp

text \<open>The encoder emits the bytes of the message, at every fuel.\<close>

lemma message_implements:
  "implements (\<lambda>s. pb_encode env m fuel s flds src) (message_bytes (ee_descr env) cs m fuel flds src)"
proof (induction fuel arbitrary: flds src)
  case (Suc fuel)
  obtain ne it where b: "pb_field_iter_begin flds src = (ne, it)" by (cases "pb_field_iter_begin flds src")
  have "implements (\<lambda>s. encode_any_field env m fuel (pb_encode env m fuel) s field pData)
     (if PB_LTYPE (fd_type field) = PB_LTYPE_EXTENSION
      then extensions_bytes (ee_descr env) cs m (field_bytes (ee_descr env) cs m fuel
             (value_bytes (ee_descr env) m (message_bytes (ee_descr env) cs m fuel))) fuel (load_ptr m pData)
      else field_bytes (ee_descr env) cs m fuel (value_bytes (ee_descr env) m (message_bytes (ee_descr env) cs m fuel)) field pData)"
    for field pData
    unfolding encode_any_field_def encode_extension_field_def
    by (intro implements_if extensions_implements field_implements Suc.IH)
  from walk_implements [OF this] show ?case
    by (cases ne) (simp_all add: b Let_def emits_nothing)
qed simp

end

section \<open>Termination\<close>

text \<open>
  \<open>nests descr n flds\<close>: the submessage types below \<open>flds\<close> nest at most \<open>n\<close> deep, and every field is one
  that a descriptor macro can make (extension fields aside).
\<close>

fun nests :: "(int \<Rightarrow> pb_field list) \<Rightarrow> nat \<Rightarrow> pb_field list \<Rightarrow> bool" where
  "nests descr 0 flds = False"
| "nests descr (Suc n) flds \<longleftrightarrow> wf_fields flds \<and> (\<forall>f \<in> set flds.
     (unat (PB_LTYPE (fd_type f)) < 8 \<or> unat (PB_LTYPE (fd_type f)) = 9) \<and>
     (PB_HTYPE (fd_type f) = PB_HTYPE_ONEOF \<longrightarrow> fd_size_offset f \<noteq> 0) \<and>
     (PB_LTYPE (fd_type f) = PB_LTYPE_SUBMESSAGE \<longrightarrow> nests descr n (descr (fd_ptr f))))"

lemma nestsD:
  assumes "nests descr n flds" "f \<in> set flds"
  shows "unat (PB_LTYPE (fd_type f)) < 8 \<or> unat (PB_LTYPE (fd_type f)) = 9"
    "PB_HTYPE (fd_type f) = PB_HTYPE_ONEOF \<Longrightarrow> fd_size_offset f \<noteq> 0"
    "PB_LTYPE (fd_type f) = PB_LTYPE_SUBMESSAGE \<Longrightarrow> nests descr (n - 1) (descr (fd_ptr f))"
  using assms by (cases n; simp)+

lemma nests_wf: "nests descr n flds \<Longrightarrow> wf_fields flds"
  by (cases n) auto

lemma and_push_bit: "x AND push_bit n m = push_bit n (drop_bit n x AND m)" for x m :: "'a::len word"
  by (rule bit_word_eqI) (auto simp: bit_and_iff bit_push_bit_iff bit_drop_bit_eq)

lemma and_3_cases: "y AND 3 = 0 \<or> y AND 3 = 1 \<or> y AND 3 = 2 \<or> y AND 3 = 3" for y :: byte
proof -
  have "unat (y AND 3) < 4" using unat_and_mask [of y 2] by (simp add: mask_eq_exp_minus_1)
  then have "unat (y AND 3) = 0 \<or> unat (y AND 3) = 1 \<or> unat (y AND 3) = 2 \<or> unat (y AND 3) = 3" by linarith
  then show ?thesis by (simp only: word_unat_eq_iff unsigned_numeral unsigned_0 unsigned_1) simp
qed

lemma PB_HTYPE_cases:
  "PB_HTYPE x = PB_HTYPE_REQUIRED \<or> PB_HTYPE x = PB_HTYPE_OPTIONAL \<or>
   PB_HTYPE x = PB_HTYPE_REPEATED \<or> PB_HTYPE x = PB_HTYPE_ONEOF"
proof -
  have "push_bit 4 (3 :: byte) = 0x30" by simp
  then have "PB_HTYPE x = push_bit 4 (drop_bit 4 x AND 3)"
    by (simp only: PB_HTYPE_def and_push_bit [symmetric])
  then show ?thesis using and_3_cases [of "drop_bit 4 x"] by (elim disjE) (simp_all only:, simp_all)
qed

definition returns :: "'a option \<Rightarrow> bool" where
  "returns r \<longleftrightarrow> r \<noteq> None"

named_theorems returns_intros \<open>calls that return\<close>

lemma returns_Some [simp, returns_intros]: "returns (Some x)"
  by (simp add: returns_def)

lemma returns_and_then [returns_intros]: "returns r \<Longrightarrow> (\<And>s. returns (k s)) \<Longrightarrow> returns (and_then r k)"
  by (auto simp: returns_def and_then_def split: bool.splits)

lemma returns_if [returns_intros]:
  "(c \<Longrightarrow> returns a) \<Longrightarrow> (\<not> c \<Longrightarrow> returns b) \<Longrightarrow> returns (if c then a else b)"
  by simp

lemma returns_bind [returns_intros]:
  "returns r \<Longrightarrow> (\<And>x. r = Some x \<Longrightarrow> returns (k x)) \<Longrightarrow> returns (case r of None \<Rightarrow> None | Some x \<Rightarrow> k x)"
  by (cases r) (auto simp: returns_def)

lemma returns_verdict [returns_intros]:
  "(\<And>x. returns (f x)) \<Longrightarrow> (\<And>x. returns (g x)) \<Longrightarrow>
     returns (case p of (True, x) \<Rightarrow> f x | (False, x) \<Rightarrow> g x)"
  by (cases p; cases "fst p") auto

lemma returns_map [returns_intros]: "returns r \<Longrightarrow> returns (map_option f r)"
  by (simp add: returns_def)

lemma encode_elements_returns:
  "(\<And>s p. returns (f s p)) \<Longrightarrow> returns (encode_elements f step n p s)"
  by (induction n arbitrary: p s) (simp_all add: returns_and_then)

lemma submessage_returns:
  assumes "\<And>s. returns (rec s flds src)"
  shows "returns (pb_encode_submessage rec s flds src)"
  unfolding pb_encode_submessage_def Let_def case_prod_unfold
  by (intro returns_intros assms) (auto intro!: returns_intros assms split: prod.splits bool.splits)

lemma array_returns:
  "(\<And>s p. returns (call_encoder func s field p)) \<Longrightarrow> returns (encode_array m s field pData n func)"
  unfolding encode_array_def Let_def
  by (intro returns_intros encode_elements_returns) assumption+

lemma value_returns:
  assumes "nests (ee_descr env) n flds" "f \<in> set flds"
    and "\<And>s flds src. nests (ee_descr env) (n - 1) flds \<Longrightarrow> returns (rec s flds src)"
  shows "returns (call_encoder (PB_ENCODERS env m rec (PB_LTYPE (fd_type f))) s f src)"
proof -
  have "unat (PB_LTYPE (fd_type f)) \<in> {0, 1, 2, 3, 4, 5, 6, 7, 9}"
    using nestsD(1) [OF assms(1,2)] by auto
  then have "PB_LTYPE (fd_type f) \<in> {0, 1, 2, 3, 4, 5, 6, 7, 9}"
    by (simp add: word_unat_eq_iff)
  then show ?thesis
    using submessage_returns [of rec] nestsD(3) [OF assms(1,2)] assms(3)
    by (elim insertE) (simp_all add: call_encoder_def pb_enc_varint_def pb_enc_uvarint_def pb_enc_svarint_def
      pb_enc_fixed32_def pb_enc_fixed64_def pb_enc_bytes_def pb_enc_string_def pb_enc_submessage_def
      pb_enc_fixed_length_bytes_def Let_def split: option.splits)
qed

lemma all_default_returns:
  assumes "wf_fields flds" "\<And>f p. f \<in> set flds \<Longrightarrow> returns (check f p)"
  shows "it_start it = flds \<Longrightarrow> it_pos it < length flds \<Longrightarrow> length flds - it_pos it \<le> n \<Longrightarrow>
    returns (all_default check n it)"
proof (induction n arbitrary: it)
  case (Suc n)
  have f: "it_field it \<in> set flds" using Suc.prems by (simp add: field_at_def)
  obtain more it' where nxt: "pb_field_iter_next it = (more, it')" by (cases "pb_field_iter_next it")
  have "returns (all_default check n it')" if more
    using next_pos [of it] next_start [of it] assms(1) Suc.prems nxt that
    by (intro Suc.IH) (auto split: if_splits)
  then show ?case using assms(2) [OF f, of "it_pData it"]
    by (auto simp: nxt returns_def split: option.splits bool.splits)
qed simp

lemma check_returns:
  "nests descr n flds \<Longrightarrow> f \<in> set flds \<Longrightarrow> n \<le> Suc fuel \<Longrightarrow>
     returns (pb_check_proto3_default_value descr m fuel f p)"
proof (induction fuel arbitrary: n flds f p)
  case 0
  then have "PB_LTYPE (fd_type f) \<noteq> PB_LTYPE_SUBMESSAGE"
    using nestsD(3) [OF 0(1,2)] by (cases "n - 1") auto
  then show ?case by (subst pb_check_proto3_default_value.simps) (simp add: Let_def)
next
  case (Suc fuel)
  have "returns (all_default (pb_check_proto3_default_value descr m fuel) (length (it_start it)) it)"
    if sub: "PB_LTYPE (fd_type f) = PB_LTYPE_SUBMESSAGE"
      and b: "pb_field_iter_begin (descr (fd_ptr f)) p = (True, it)" for it
  proof -
    let ?d = "descr (fd_ptr f)"
    from nestsD(3) [OF Suc.prems(1,2) sub] have n: "nests descr (n - 1) ?d" .
    have it: "it_start it = ?d" "it_pos it = 0"
      using begin_simps [of ?d p] b by simp_all
    have "fd_tag (field_at ?d 0) \<noteq> 0" using begin_simps(4) [of ?d p] b by simp
    then have "0 < length ?d" using field_at_tag [OF nests_wf [OF n], of 0] by simp
    then show ?thesis using Suc.IH [OF n] Suc.prems(3) it
      by (intro all_default_returns [OF nests_wf [OF n]]) auto
  qed
  then show ?case
    by (subst pb_check_proto3_default_value.simps) (auto simp: Let_def split: prod.splits bool.splits)
qed

definition callbacks_return :: "'s enc_env \<Rightarrow> bool" where
  "callbacks_return env \<longleftrightarrow> (\<forall>p s f a. ee_callback env p s f a \<noteq> None)"

lemma callback_returns:
  "callbacks_return env \<Longrightarrow> returns (encode_callback_field env m s f pData)"
  unfolding encode_callback_field_def Let_def callbacks_return_def
  by (intro returns_intros) (auto simp: returns_def split: option.splits bool.splits)

lemma basic_returns:
  assumes n: "nests (ee_descr env) n flds" "f \<in> set flds" "n \<le> Suc fuel"
    and rec: "\<And>s flds src. nests (ee_descr env) (n - 1) flds \<Longrightarrow> returns (rec s flds src)"
  shows "returns (encode_basic_field env m fuel rec s f pData)"
proof -
  note val = value_returns [OF n(1,2) rec]
  have has: "returns (if fd_size_offset f \<noteq> 0 then Some True
     else if PB_HTYPE (fd_type f) = PB_HTYPE_OPTIONAL
     then map_option Not (pb_check_proto3_default_value (ee_descr env) m fuel f pData) else Some True)"
    by (intro returns_intros check_returns [OF n])
  have last: "PB_HTYPE (fd_type f) \<noteq> PB_HTYPE_REQUIRED \<Longrightarrow> PB_HTYPE (fd_type f) \<noteq> PB_HTYPE_OPTIONAL \<Longrightarrow>
      PB_HTYPE (fd_type f) \<noteq> PB_HTYPE_REPEATED \<Longrightarrow> fd_size_offset f \<noteq> 0"
    using nestsD(2) [OF n(1,2)] PB_HTYPE_cases [of "fd_type f"] by blast
  have tagged: "returns (and_then (Some (pb_encode_tag_for_field s f))
      (\<lambda>s. call_encoder (PB_ENCODERS env m rec (PB_LTYPE (fd_type f))) s f src))" for s src
    by (intro returns_intros val)
  show ?thesis
    unfolding encode_basic_field_def Let_def
  proof (intro returns_bind has returns_if returns_Some tagged)
  qed (use last in \<open>auto intro: array_returns val\<close>)
qed

lemma field_returns:
  assumes env: "callbacks_return env"
    and n: "nests (ee_descr env) n flds" "f \<in> set flds" "n \<le> Suc fuel"
    and rec: "\<And>s flds src. nests (ee_descr env) (n - 1) flds \<Longrightarrow> returns (rec s flds src)"
  shows "returns (encode_any_field env m fuel rec s f pData)"
proof -
  have "PB_LTYPE (fd_type f) \<noteq> PB_LTYPE_EXTENSION" using nestsD(1) [OF n(1,2)] by auto
  then show ?thesis
    using callback_returns [OF env] basic_returns [OF n rec]
    by (simp add: encode_any_field_def encode_field_def Let_def)
qed

lemma encode_fields_returns:
  assumes "wf_fields flds" "\<And>s f p. f \<in> set flds \<Longrightarrow> returns (enc s f p)"
  shows "it_start it = flds \<Longrightarrow> it_pos it < length flds \<Longrightarrow> length flds - it_pos it \<le> n \<Longrightarrow>
    returns (encode_fields enc n it s)"
proof (induction n arbitrary: it s)
  case (Suc n)
  have f: "it_field it \<in> set flds" using Suc.prems by (simp add: field_at_def)
  obtain more it' where nxt: "pb_field_iter_next it = (more, it')" by (cases "pb_field_iter_next it")
  have "returns (encode_fields enc n it' s)" if more for s
    using next_pos [of it] next_start [of it] assms(1) Suc.prems nxt that
    by (intro Suc.IH) (auto split: if_splits)
  then show ?case using assms(2) [OF f]
    by (cases more) (simp_all add: nxt returns_and_then)
qed simp

lemma encode_returns:
  assumes env: "callbacks_return env"
  shows "nests (ee_descr env) n flds \<Longrightarrow> returns (pb_encode env m n s flds src)"
proof (induction n arbitrary: flds s src)
  case (Suc n)
  obtain ne it where b: "pb_field_iter_begin flds src = (ne, it)" by (cases "pb_field_iter_begin flds src")
  have wf: "wf_fields flds" using nests_wf [OF Suc.prems] .
  have "returns (encode_fields (encode_any_field env m n (pb_encode env m n)) (length flds) it s)" if ne
  proof (rule encode_fields_returns [OF wf])
    show "it_start it = flds" "it_pos it < length flds" "length flds - it_pos it \<le> length flds"
      using begin_simps [of flds src] b that field_at_tag [OF wf, of 0] by auto
    show "returns (encode_any_field env m n (pb_encode env m n) s f p)" if "f \<in> set flds" for s f p
      by (rule field_returns [OF env Suc.prems that]) (use Suc.IH in auto)
  qed
  then show ?case by (cases ne) (simp_all add: b)
qed simp

section \<open>Encoding to a buffer\<close>

lemma encode_fits:
  assumes "enc_callbacks env cs"
    and "message_bytes (ee_descr env) cs m fuel flds src = Some (bs, True)"
    and "length bs \<le> unat bufsize"
  shows "\<exists>t. pb_encode env m fuel (pb_ostream_from_buffer buf bufsize) flds src = Some (True, t) \<and>
    unat (os_bytes_written t) = length bs \<and>
    (\<forall>i. fst (os_state t) i = (if i < length bs then bs ! i else buf i))"
proof -
  let ?s = "pb_ostream_from_buffer buf bufsize"
  have s: "os_wf ?s" "os_room ?s (length bs)" "os_bytes_written ?s = 0" "os_callback ?s = Some buf_write"
    "os_state ?s = (buf, 0)"
    using assms(3) by (simp_all add: pb_ostream_from_buffer_def os_wf_def os_room_def)
  have len: "length bs < 2 ^ 64" using assms(3) unat_lt [of bufsize] by simp
  have "emits (\<lambda>s. pb_encode env m fuel s flds src) (bs, True)"
    using enc_callbacks.message_implements [OF assms(1), of m fuel flds src] assms(2) by simp
  then have "pb_encode env m fuel ?s flds src = Some (True, os_put ?s bs)"
    using s len by (auto simp: emits_def emits_at_def)
  moreover have "unat (os_bytes_written (os_put ?s bs)) = length bs"
    using len s(3) bytes_written_put [of ?s bs] by simp
  ultimately show ?thesis using s(4,5) by (auto simp: os_put_def buf_write_def)
qed

end
