(* ===== verification/PbDecodeSpec.thy ===== *)
theory PbDecodeSpec
  imports PbDecode PbEncodeSpec
begin

text \<open>
  What the field decoders of nanopb do to a memory that holds the message: a value that a field
  encoder wrote is stored back byte by byte, strings and byte arrays stay inside their field, and an
  allocation has the size that its caller computes with.
\<close>

section \<open>Allocation\<close>

lemma small_product:
  fixes a b :: nat
  assumes "a < 2 ^ 32" "b < 2 ^ 32"
  shows "a * b < 2 ^ 64"
proof -
  have "a * b \<le> (2 ^ 32 - 1) * (2 ^ 32 - 1)" using assms by (intro mult_le_mono) simp_all
  then show ?thesis by (rule le_less_trans) simp
qed

lemma allocate_field_True:
  assumes "allocate_field env d p data_size array_size = (True, d')"
  shows "unat array_size * unat data_size < 2 ^ 64"
    and "\<exists>ptr m. de_realloc env (ds_mem d) (load_ptr (ds_mem d) p) (of_nat (unat array_size * unat data_size)) = (ptr, m) \<and>
      ptr \<noteq> 0 \<and> d' = d\<lparr>ds_mem := store_ptr m p ptr\<rparr>"
proof -
  have nz: "array_size \<noteq> 0"
    and no: "\<not> ((data_size \<ge> 2 ^ 32 \<or> array_size \<ge> 2 ^ 32) \<and> (- 1) div array_size < data_size)"
    using assms by (auto simp: allocate_field_def dec_error_def Let_def split: if_splits)
  show lt: "unat array_size * unat data_size < 2 ^ 64"
  proof (cases "data_size \<ge> 2 ^ 32 \<or> array_size \<ge> 2 ^ 32")
    case True
    with no have "data_size \<le> (- 1) div array_size" by (auto simp: not_less)
    then have "unat data_size \<le> (2 ^ 64 - 1) div unat array_size"
      by (simp add: word_le_nat_alt unat_div unsigned_minus_1_eq_mask mask_eq_exp_minus_1)
    then have "unat array_size * unat data_size \<le> unat array_size * ((2 ^ 64 - 1) div unat array_size)"
      by (rule mult_le_mono2)
    also have "\<dots> \<le> 2 ^ 64 - 1" by (rule times_div_less_eq_dividend)
    finally show ?thesis by simp
  next
    case False
    then show ?thesis by (intro small_product) (simp_all add: word_le_nat_alt)
  qed
  have "array_size * data_size = of_nat (unat array_size * unat data_size)" by simp
  then show "\<exists>ptr m. de_realloc env (ds_mem d) (load_ptr (ds_mem d) p) (of_nat (unat array_size * unat data_size)) = (ptr, m) \<and>
      ptr \<noteq> 0 \<and> d' = d\<lparr>ds_mem := store_ptr m p ptr\<rparr>"
    using assms by (auto simp: allocate_field_def dec_error_def Let_def split: if_splits prod.splits)
qed

section \<open>Integers\<close>

lemma with_value_reads:
  "reads D bs x \<Longrightarrow> is_has (ds_stream d) bs rest \<Longrightarrow>
     with_value D d k = k x (d\<lparr>ds_stream := is_drop (ds_stream d) (length bs) rest\<rparr>)"
  by (simp add: with_value_def readsD)

lemma ucast_scast_same:
  fixes w :: "'a::len word"
  assumes "LENGTH('a) \<le> LENGTH('b::len)"
  shows "ucast (scast w :: 'b word) = w"
proof (rule bit_word_eqI)
  fix n assume n: "n < LENGTH('a)"
  then have "min (LENGTH('a) - Suc 0) n = n" by simp
  with n show "bit (ucast (scast w :: 'b word) :: 'a word) n = bit w n"
    using assms by (simp add: bit_unsigned_iff bit_signed_iff)
qed

lemma scast_through:
  fixes w :: "'a::len word"
  assumes "LENGTH('a) \<le> LENGTH('c::len)" "LENGTH('c) \<le> LENGTH('b::len)"
  shows "scast (ucast (scast w :: 'b word) :: 'c word) = (scast w :: 'b word)"
proof (rule bit_word_eqI)
  fix n assume "n < LENGTH('b)"
  then show "bit (scast (ucast (scast w :: 'b word) :: 'c word) :: 'b word) n = bit (scast w :: 'b word) n"
    using assms by (auto simp add: bit_unsigned_iff bit_signed_iff min_def)
qed

lemma le_bytes_mod: "le_bytes n (x mod 256 ^ n) = le_bytes n x"
proof (induction n arbitrary: x)
  case (Suc n)
  have "(of_nat (x mod 256 ^ Suc n) :: byte) = of_nat x"
    by (simp add: word_unat_eq_iff unsigned_of_nat take_bit_eq_mod mod_mod_cancel)
  moreover have "x mod 256 ^ Suc n div 256 = x div 256 mod 256 ^ n"
    by (simp add: mod_mult2_eq)
  ultimately show ?case by (simp only: le_bytes.simps Suc.IH)
qed simp

lemma le_bytes_scast:
  fixes w :: "'a::len word"
  assumes "LENGTH('a) = 8 * n" "n \<le> 8" "length bs = n" "w = of_nat (le_val bs)"
  shows "le_bytes n (unat (scast w :: u64)) = bs"
proof -
  have "unat (scast w :: u64) mod 256 ^ n = unat (ucast (scast w :: u64) :: 'a word)"
    using assms(1) by (simp add: unsigned_ucast_eq take_bit_eq_mod power_mult)
  also have "\<dots> = unat w" using assms(1,2) by (simp add: ucast_scast_same)
  also have "\<dots> = le_val bs"
    using le_val_less [of bs] assms by (simp add: unsigned_of_nat take_bit_nat_eq_self power_mult)
  finally show ?thesis using le_bytes_mod [of n] le_bytes_le_val [OF assms(3)] by metis
qed

lemma load_i64_store:
  assumes "load_i64 m src sz = Some v"
  shows "le_bytes (unat sz) (unat v) = load m src (unat sz) \<and> int_size sz \<and> clamp_signed sz v = v
      \<and> (sz \<noteq> 8 \<longrightarrow> scast (ucast v :: 32 word) = v)"
proof -
  let ?w = "\<lambda>n. of_nat (le_val (load m src n))"
  consider "sz = 1" "v = scast (?w 1 :: 8 word)" | "sz = 2" "v = scast (?w 2 :: 16 word)"
    | "sz = 4" "v = scast (?w 4 :: 32 word)" | "sz = 8" "v = ?w 8"
    using assms by (auto simp: load_i64_def split: if_splits)
  then show ?thesis
  proof cases
    case 1
    then have "le_bytes (unat sz) (unat v) = load m src (unat sz)"
      using le_bytes_scast [where n = 1 and bs = "load m src 1" and w = "?w 1 :: 8 word"] by simp
    with 1 show ?thesis
      by (simp add: int_size_def clamp_signed_def scast_through del: le_bytes.simps)
  next
    case 2
    then have "le_bytes (unat sz) (unat v) = load m src (unat sz)"
      using le_bytes_scast [where n = 2 and bs = "load m src 2" and w = "?w 2 :: 16 word"] by simp
    with 2 show ?thesis
      by (simp add: int_size_def clamp_signed_def scast_through del: le_bytes.simps)
  next
    case 3
    then have "le_bytes (unat sz) (unat v) = load m src (unat sz)"
      using le_bytes_scast [where n = 4 and bs = "load m src 4" and w = "?w 4 :: 32 word"] by simp
    with 3 show ?thesis
      by (simp add: int_size_def clamp_signed_def scast_through del: le_bytes.simps)
  next
    case 4
    have "unat v = le_val (load m src 8)"
      using le_val_less [of "load m src 8"] 4 by (simp add: unsigned_of_nat take_bit_eq_mod)
    with 4 show ?thesis
      by (simp add: load_le_bytes int_size_def clamp_signed_def)
  qed
qed

lemma load_u64_store:
  assumes "load_u64 m src sz = Some v"
  shows "le_bytes (unat sz) (unat v) = load m src (unat sz) \<and> int_size sz \<and> clamp_unsigned sz v = v"
proof -
  have sz: "sz = 1 \<or> sz = 2 \<or> sz = 4 \<or> sz = 8" and v: "v = of_nat (le_val (load m src (unat sz)))"
    using assms by (auto simp: load_u64_def split: if_splits)
  have lt: "le_val (load m src (unat sz)) < 256 ^ unat sz" using le_val_less [of "load m src (unat sz)"] by simp
  have v': "unat v = le_val (load m src (unat sz))"
    using sz lt by (elim disjE) (simp_all add: v unsigned_of_nat take_bit_nat_eq_self)
  have "clamp_unsigned sz v = v"
    using sz lt v' by (elim disjE) (simp_all add: clamp_unsigned_def word_unat_eq_iff unsigned_ucast_eq unsigned_take_bit_eq take_bit_nat_eq_self)
  with sz v' show ?thesis by (auto simp: load_le_bytes int_size_def)
qed


text \<open>An integer field decodes to the bytes it was encoded from.\<close>

lemma dec_varint_reads:
  assumes v: "load_i64 m src (fd_data_size field) = Some v"
    and s: "is_has (ds_stream d) (varint_bytes (unat v)) rest"
  shows "\<exists>d'. pb_dec_varint field dest d = Some (True, d') \<and>
    ds_mem d' = store (ds_mem d) dest (load m src (unat (fd_data_size field))) \<and>
    ds_stream d' = is_drop (ds_stream d) (length (varint_bytes (unat v))) rest"
  unfolding pb_dec_varint_def with_value_reads [OF reads_varint s] Let_def
  using load_i64_store [OF v]
  by (cases "fd_data_size field = 8") (simp_all add: store_int_def map_mem_def)

lemma dec_uvarint_reads:
  assumes v: "load_u64 m src (fd_data_size field) = Some v"
    and s: "is_has (ds_stream d) (varint_bytes (unat v)) rest"
  shows "\<exists>d'. pb_dec_uvarint field dest d = Some (True, d') \<and>
    ds_mem d' = store (ds_mem d) dest (load m src (unat (fd_data_size field))) \<and>
    ds_stream d' = is_drop (ds_stream d) (length (varint_bytes (unat v))) rest"
  unfolding pb_dec_uvarint_def with_value_reads [OF reads_varint s] Let_def
  using load_u64_store [OF v] by (simp add: store_int_def map_mem_def)

lemma dec_svarint_reads:
  assumes v: "load_i64 m src (fd_data_size field) = Some v"
    and s: "is_has (ds_stream d) (varint_bytes (unat (zigzag v))) rest"
  shows "\<exists>d'. pb_dec_svarint field dest d = Some (True, d') \<and>
    ds_mem d' = store (ds_mem d) dest (load m src (unat (fd_data_size field))) \<and>
    ds_stream d' = is_drop (ds_stream d) (length (varint_bytes (unat (zigzag v)))) rest"
  unfolding pb_dec_svarint_def with_value_reads [OF reads_svarint s] Let_def
  using load_i64_store [OF v] by (simp add: store_int_def map_mem_def)

lemma dec_fixed32_reads:
  assumes s: "is_has (ds_stream d) (load m src 4) rest"
  shows "\<exists>d'. pb_dec_fixed32 field dest d = Some (True, d') \<and>
    ds_mem d' = store (ds_mem d) dest (load m src 4) \<and> ds_stream d' = is_drop (ds_stream d) 4 rest"
proof -
  have v: "unat (load_u32 m src) = le_val (load m src 4)"
    using le_val_less [of "load m src 4"] by (simp add: load_u32_def unsigned_of_nat take_bit_eq_mod)
  have "reads pb_decode_fixed32 (load m src 4) (load_u32 m src)"
    using reads_fixed32 [of "load_u32 m src"] by (simp add: v load_le_bytes)
  from with_value_reads [OF this s] show ?thesis
    by (simp add: pb_dec_fixed32_def map_mem_def store_u32_def v load_le_bytes)
qed

lemma dec_fixed64_reads:
  assumes s: "is_has (ds_stream d) (load m src 8) rest"
  shows "\<exists>d'. pb_dec_fixed64 field dest d = Some (True, d') \<and>
    ds_mem d' = store (ds_mem d) dest (load m src 8) \<and> ds_stream d' = is_drop (ds_stream d) 8 rest"
proof -
  let ?v = "of_nat (le_val (load m src 8)) :: u64"
  have v: "unat ?v = le_val (load m src 8)"
    using le_val_less [of "load m src 8"] by (simp add: unsigned_of_nat take_bit_eq_mod)
  have "reads pb_decode_fixed64 (load m src 8) ?v"
    using reads_fixed64 [of ?v] by (simp add: v load_le_bytes)
  from with_value_reads [OF this s] show ?thesis
    by (simp add: pb_dec_fixed64_def map_mem_def v load_le_bytes)
qed

section \<open>Strings\<close>

lemma read_into_has:
  assumes "unat n = length bs" "is_has (ds_stream d) bs rest"
  shows "read_into d a n =
    (True, d\<lparr>ds_stream := is_drop (ds_stream d) (length bs) rest, ds_mem := store (ds_mem d) a bs\<rparr>)"
  using pb_read_has [OF assms] by (simp add: read_into_def)

lemma store_append: "store (store m a bs) (a + int (length bs)) cs = store m a (bs @ cs)"
proof -
  have "nat (x - (a + int (length bs))) = nat (x - a) - length bs" for x by linarith
  then show ?thesis by (cases m) (auto simp: store_def nth_append fun_eq_iff)
qed

lemma string_alloc:
  fixes n :: u32
  assumes "unat n = k" "k < 2 ^ 32 - 1"
  shows "unat (ucast (n + 1) :: u64) = Suc k" and "\<not> (ucast (n + 1) :: u64) < ucast n"
proof -
  have "unat (n + 1) = Suc k" using assms by (simp add: unat_word_ariths)
  then show "unat (ucast (n + 1) :: u64) = Suc k" by simp
  then show "\<not> (ucast (n + 1) :: u64) < ucast n" using assms by (simp add: word_less_nat_alt)
qed

text \<open>A string that fits goes into the field with a terminator behind it.\<close>

lemma dec_string_reads:
  assumes s: "is_has (ds_stream d) (string_bytes bs) rest" and n: "length bs < 2 ^ 32 - 1"
    and static: "PB_ATYPE (fd_type field) \<noteq> PB_ATYPE_POINTER"
  shows "if length bs < unat (fd_data_size field)
    then pb_dec_string env field dest d =
      Some (True, d\<lparr>ds_stream := is_drop (ds_stream d) (length (string_bytes bs)) rest,
                    ds_mem := store (ds_mem d) dest (bs @ [0])\<rparr>)
    else \<exists>d'. pb_dec_string env field dest d = Some (False, d') \<and> ds_mem d' = ds_mem d \<and>
      is_errmsg (ds_stream d') = PB_SET_ERROR (is_errmsg (ds_stream d)) ''string overflow''"
proof -
  let ?n = "of_nat (length bs) :: u32" and ?v = "varint_bytes (length bs)"
  have n32: "length bs < 2 ^ 32" using n by simp
  have un: "unat ?n = length bs" using n by (simp add: unsigned_of_nat take_bit_nat_eq_self)
  then have un64: "unat (ucast ?n :: u64) = length bs" by simp
  note alloc = string_alloc [OF un n]
  from is_has_split [OF s [unfolded string_bytes_def]]
  have v: "is_has (ds_stream d) ?v (bs @ rest)"
    and b: "is_has (is_drop (ds_stream d) (length ?v) (bs @ rest)) bs rest" .
  let ?d = "d\<lparr>ds_stream := is_drop (ds_stream d) (length ?v) (bs @ rest)\<rparr>"
  have fits: "(ucast (?n + 1) :: u64) > ucast (fd_data_size field) \<longleftrightarrow> \<not> length bs < unat (fd_data_size field)"
    using alloc(1) by (simp add: word_less_nat_alt) linarith
  have rd: "read_into ?d dest (ucast ?n) = (True, d\<lparr>ds_stream := is_drop (ds_stream d) (length (string_bytes bs)) rest,
      ds_mem := store (ds_mem d) dest bs\<rparr>)"
    using read_into_has [OF un64, of ?d rest dest] b by (simp add: string_bytes_def)
  have "uint ?n = int (length bs)" using un by (metis uint_nat)
  then have st: "store (store (ds_mem d) dest bs) (dest + uint ?n) [0] = store (ds_mem d) dest (bs @ [0])"
    by (simp add: store_append)
  show ?thesis
    unfolding pb_dec_string_def with_value_reads [OF reads_varint32 [OF n32] v] Let_def
    using alloc(2) static fits rd st
    by (auto simp: dec_error_def is_error_def is_drop_def map_mem_def)
qed

section \<open>Loops over all fields\<close>

lemma begin_at:
  "wf_fields flds \<Longrightarrow> flds \<noteq> [] \<Longrightarrow> pb_field_iter_begin flds dest = (True, iter_at flds dest 0)"
  using field_at_tag [of flds 0] by (simp add: prod_eq_iff)

lemma each_field_at:
  assumes wf: "wf_fields flds"
    and f: "\<And>i m. i < length flds \<Longrightarrow> P m \<Longrightarrow> \<exists>m'. f (iter_at flds dest i) m = Some m' \<and> P m'"
  shows "i < length flds \<Longrightarrow> P m \<Longrightarrow> \<exists>m'. each_field f (length flds - i) (iter_at flds dest i) m = Some m' \<and> P m'"
proof (induction "length flds - i" arbitrary: i m)
  case (Suc r)
  then have r: "length flds - i = Suc r" "r = length flds - Suc i" by simp_all
  obtain m1 where m1: "f (iter_at flds dest i) m = Some m1" "P m1" using f [OF Suc.prems] by blast
  note nx = next_iter_at [OF wf Suc.prems(1), of dest]
  show ?case
  proof (cases "Suc i < length flds")
    case True
    from Suc.hyps(1) [OF r(2) True m1(2)] show ?thesis
      using m1(1) nx True by (simp add: r(1) r(2) [symmetric] del: iter_at.simps)
  next
    case False
    then show ?thesis using m1 nx by (simp add: r(1) del: iter_at.simps)
  qed
qed simp

end
