(* ===== verification/PbRoundtrip.thy ===== *)
theory PbRoundtrip
  imports PbDecodeSpec
begin

text \<open>
  Decoding undoes encoding: for messages of required numbers and strings, \<^verbatim>\<open>pb_decode\<close> of the bytes that
  \<^verbatim>\<open>pb_encode\<close> writes succeeds and gives a structure with the same values, at any two addresses.
\<close>

section \<open>Fields and their values\<close>

text \<open>A required field that holds a number or a string in the structure itself.\<close>

definition scalar_field :: "pb_field \<Rightarrow> bool" where
  "scalar_field f \<longleftrightarrow>
     (fd_type f \<in> {PB_LTYPE_VARINT, PB_LTYPE_UVARINT, PB_LTYPE_SVARINT} \<and> fd_data_size f \<in> {1, 2, 4, 8}) \<or>
     (fd_type f = PB_LTYPE_FIXED32 \<and> fd_data_size f = 4) \<or>
     (fd_type f = PB_LTYPE_FIXED64 \<and> fd_data_size f = 8) \<or>
     fd_type f = PB_LTYPE_STRING"

text \<open>A string has its terminator inside the field.\<close>

definition value_ok :: "mem \<Rightarrow> pb_field \<Rightarrow> int \<Rightarrow> bool" where
  "value_ok m f a \<longleftrightarrow> (fd_type f = PB_LTYPE_STRING \<longrightarrow> str_size m a (unat (fd_data_size f)) < unat (fd_data_size f))"

definition field_value :: "mem \<Rightarrow> pb_field \<Rightarrow> int \<Rightarrow> byte list" where
  "field_value m f a =
     load m a (if fd_type f = PB_LTYPE_STRING then str_size m a (unat (fd_data_size f)) else unat (fd_data_size f))"

lemma scalar_parts:
  assumes "scalar_field f"
  shows "PB_ATYPE (fd_type f) = PB_ATYPE_STATIC" "PB_HTYPE (fd_type f) = PB_HTYPE_REQUIRED"
    "PB_LTYPE (fd_type f) = fd_type f" "\<exists>w. wiretype_of (fd_type f) = Some w \<and> w < 8"
    "fd_type f \<noteq> PB_LTYPE_EXTENSION"
  using assms by (auto simp: scalar_field_def PB_ATYPE_def PB_HTYPE_def PB_LTYPE_def wiretype_of_def)

lemma load_eqI: "(\<And>i. i < n \<Longrightarrow> mbytes m (a + int i) = mbytes m' (b + int i)) \<Longrightarrow> load m a n = load m' b n"
  by (simp add: load_def)

lemma str_size_cong:
  "(\<And>i. i < n \<Longrightarrow> mbytes m (a + int i) = mbytes m' (b + int i)) \<Longrightarrow> str_size m a n = str_size m' b n"
proof (induction n arbitrary: a b)
  case 0
  show ?case by (simp add: str_size.simps [of _ _ 0])
next
  case (Suc n)
  have "mbytes m a = mbytes m' b" using Suc.prems [of 0] by simp
  moreover have "str_size m (a + 1) n = str_size m' (b + 1) n"
    using Suc.prems [of "Suc _"] by (intro Suc.IH) (simp add: algebra_simps)
  ultimately show ?case by (simp add: str_size.simps [of _ _ "Suc n"])
qed

lemma load_Suc: "load m a (Suc n) = mbytes m a # load m (a + 1) n"
proof -
  have "[0..<Suc n] = 0 # map Suc [0..<n]" by (simp add: upt_conv_Cons map_Suc_upt del: upt_Suc)
  then show ?thesis by (simp only: load_def list.map map_map comp_def) (simp add: algebra_simps)
qed

lemma load_take: "k \<le> n \<Longrightarrow> load m a k = take k (load m a n)"
  by (simp add: load_def take_map)

lemma str_size_string:
  assumes "\<And>i. i < length bs \<Longrightarrow> bs ! i \<noteq> 0" "length bs < n" "load m a (Suc (length bs)) = bs @ [0]"
  shows "str_size m a n = length bs"
  using assms
proof (induction bs arbitrary: a n)
  case Nil
  then have "mbytes m a = 0" by (simp add: load_def)
  then show ?case by (simp add: str_size.simps)
next
  case (Cons b bs)
  then obtain k where n: "n = Suc k" by (cases n) auto
  have ld: "load m a (Suc (Suc (length bs))) = mbytes m a # load m (a + 1) (Suc (length bs))"
    by (rule load_Suc)
  have "bs ! i \<noteq> 0" if "i < length bs" for i using Cons.prems(1) [of "Suc i"] that by simp
  then have "str_size m (a + 1) k = length bs"
    using Cons.prems ld n by (intro Cons.IH) auto
  moreover have "mbytes m a \<noteq> 0" using Cons.prems(1) [of 0] Cons.prems(3) ld by simp
  ultimately show ?case by (simp add: n str_size.simps [of _ _ "Suc k"])
qed

lemma str_size_nonzero: "i < str_size m a n \<Longrightarrow> mbytes m (a + int i) \<noteq> 0"
proof (induction n arbitrary: a i)
  case 0
  then show ?case by (simp add: str_size.simps [of _ _ 0])
next
  case (Suc n)
  then show ?case using Suc.IH [of "i - 1" "a + 1"]
    by (cases i) (auto simp: str_size.simps [of _ _ "Suc n"] algebra_simps split: if_splits)
qed

lemma field_value_cong:
  assumes "\<And>i. i < unat (fd_data_size f) \<Longrightarrow> mbytes m (a + int i) = mbytes m' (b + int i)"
  shows "field_value m f a = field_value m' f b"
proof -
  let ?s = "str_size m a (unat (fd_data_size f))"
  have "?s = str_size m' b (unat (fd_data_size f))" using assms by (rule str_size_cong)
  moreover have "?s \<le> unat (fd_data_size f)" by (rule str_size_le)
  ultimately show ?thesis using assms by (auto simp: field_value_def intro!: load_eqI)
qed

text \<open>What decoding stores for a value that was encoded.\<close>

definition decoded_bytes :: "mem \<Rightarrow> pb_field \<Rightarrow> int \<Rightarrow> byte list" where
  "decoded_bytes m f a = field_value m f a @ (if fd_type f = PB_LTYPE_STRING then [0] else [])"

lemma length_decoded:
  "value_ok m f a \<Longrightarrow> length (decoded_bytes m f a) \<le> unat (fd_data_size f)"
  by (auto simp: decoded_bytes_def field_value_def value_ok_def Suc_le_eq)

lemma field_value_decoded:
  assumes "value_ok m f a"
  shows "field_value (store m' b (decoded_bytes m f a)) f b = field_value m f a"
proof (cases "fd_type f = PB_LTYPE_STRING")
  case False
  then show ?thesis by (simp add: decoded_bytes_def field_value_def)
next
  case True
  let ?n = "unat (fd_data_size f)" and ?bs = "field_value m f a"
  have bs: "?bs = load m a (str_size m a ?n)" using True by (simp add: field_value_def)
  have len: "length ?bs < ?n" using assms True by (simp add: bs value_ok_def)
  have ld: "load (store m' b (?bs @ [0])) b (Suc (length ?bs)) = ?bs @ [0]" by (rule load_store_same) simp
  have "str_size (store m' b (?bs @ [0])) b ?n = length ?bs"
    using str_size_nonzero [of _ m a ?n] by (intro str_size_string [OF _ len ld]) (simp add: bs nth_load)
  moreover have "load (store m' b (?bs @ [0])) b (length ?bs) = ?bs"
    using load_take [of "length ?bs" "Suc (length ?bs)"] by (simp only: ld) simp
  ultimately show ?thesis using True by (simp add: decoded_bytes_def field_value_def)
qed


lemma field_value_other:
  assumes "b + int (length bs) \<le> a \<or> a + int (unat (fd_data_size f)) \<le> b"
  shows "field_value (store m b bs) f a = field_value m f a"
proof (rule field_value_cong)
  fix i assume i: "i < unat (fd_data_size f)"
  show "mbytes (store m b bs) (a + int i) = mbytes m (a + int i)"
    by (rule mbytes_store) (use assms i in linarith)
qed

lemma value_bytes_scalar:
  "fd_type f = PB_LTYPE_VARINT \<Longrightarrow> value_bytes descr m sub f src = number_bytes (load_i64 m src (fd_data_size f)) id"
  "fd_type f = PB_LTYPE_UVARINT \<Longrightarrow> value_bytes descr m sub f src = number_bytes (load_u64 m src (fd_data_size f)) id"
  "fd_type f = PB_LTYPE_SVARINT \<Longrightarrow> value_bytes descr m sub f src = number_bytes (load_i64 m src (fd_data_size f)) zigzag"
  "fd_type f = PB_LTYPE_FIXED32 \<Longrightarrow> value_bytes descr m sub f src = Some (load m src 4, True)"
  "fd_type f = PB_LTYPE_FIXED64 \<Longrightarrow> value_bytes descr m sub f src = Some (load m src 8, True)"
  "fd_type f = PB_LTYPE_STRING \<Longrightarrow> value_bytes descr m sub f src =
     Some (string_bytes (load m src (if src = 0 then 0 else str_size m src (unat (fd_data_size f)))), True)"
  by (simp_all add: value_bytes_def PB_LTYPE_def PB_ATYPE_def Let_def)

lemma decoders_scalar:
  "PB_DECODERS env n rec PB_LTYPE_VARINT = Some pb_dec_varint"
  "PB_DECODERS env n rec PB_LTYPE_UVARINT = Some pb_dec_uvarint"
  "PB_DECODERS env n rec PB_LTYPE_SVARINT = Some pb_dec_svarint"
  "PB_DECODERS env n rec PB_LTYPE_FIXED32 = Some pb_dec_fixed32"
  "PB_DECODERS env n rec PB_LTYPE_FIXED64 = Some pb_dec_fixed64"
  "PB_DECODERS env n rec PB_LTYPE_STRING = Some (pb_dec_string env)"
  by (simp_all add: PB_DECODERS_def)

text \<open>The field decoders undo the field encoders.\<close>

lemma scalar_value_decodes:
  assumes f: "scalar_field f" and ok: "value_ok m f src"
    and bytes: "value_bytes descr m sub f src = Some (bs, True)" and src: "src \<noteq> 0"
    and s: "is_has (ds_stream d) bs rest"
  shows "call_decoder (PB_DECODERS env n rec (fd_type f)) f dest d =
    Some (True, d\<lparr>ds_stream := is_drop (ds_stream d) (length bs) rest,
                   ds_mem := store (ds_mem d) dest (decoded_bytes m f src)\<rparr>)"
proof -
  have eqI: "call_decoder (PB_DECODERS env n rec (fd_type f)) f dest d =
    Some (True, d\<lparr>ds_stream := is_drop (ds_stream d) (length bs) rest,
                   ds_mem := store (ds_mem d) dest (decoded_bytes m f src)\<rparr>)"
    if "call_decoder (PB_DECODERS env n rec (fd_type f)) f dest d = Some (True, d')"
      "ds_mem d' = store (ds_mem d) dest (decoded_bytes m f src)"
      "ds_stream d' = is_drop (ds_stream d) (length bs) rest" for d'
    using that by (cases d; cases d') simp
  note vb = value_bytes_scalar [of f descr m sub src] and pd = decoders_scalar [of env n rec]
  note dec = decoded_bytes_def field_value_def call_decoder_def
  consider "fd_type f = PB_LTYPE_VARINT" | "fd_type f = PB_LTYPE_UVARINT" | "fd_type f = PB_LTYPE_SVARINT"
    | "fd_type f = PB_LTYPE_FIXED32" "fd_data_size f = 4" | "fd_type f = PB_LTYPE_FIXED64" "fd_data_size f = 8"
    | "fd_type f = PB_LTYPE_STRING"
    using f unfolding scalar_field_def by blast
  then show ?thesis
  proof cases
    case 1
    then obtain v where v: "load_i64 m src (fd_data_size f) = Some v" "bs = varint_bytes (unat v)"
      using bytes by (auto simp: vb number_bytes_def split: option.splits)
    from dec_varint_reads [OF v(1), of d rest dest] s v(2) 1 show ?thesis
      by (auto simp: pd dec intro!: eqI)
  next
    case 2
    then obtain v where v: "load_u64 m src (fd_data_size f) = Some v" "bs = varint_bytes (unat v)"
      using bytes by (auto simp: vb number_bytes_def split: option.splits)
    from dec_uvarint_reads [OF v(1), of d rest dest] s v(2) 2 show ?thesis
      by (auto simp: pd dec intro!: eqI)
  next
    case 3
    then obtain v where v: "load_i64 m src (fd_data_size f) = Some v" "bs = varint_bytes (unat (zigzag v))"
      using bytes by (auto simp: vb number_bytes_def split: option.splits)
    from dec_svarint_reads [OF v(1), of d rest dest] s v(2) 3 show ?thesis
      by (auto simp: pd dec intro!: eqI)
  next
    case 4
    then have "bs = load m src 4" using bytes by (simp add: vb)
    with dec_fixed32_reads [of d m src rest f dest] s 4 show ?thesis by (auto simp: pd dec intro!: eqI)
  next
    case 5
    then have "bs = load m src 8" using bytes by (simp add: vb)
    with dec_fixed64_reads [of d m src rest f dest] s 5 show ?thesis by (auto simp: pd dec intro!: eqI)
  next
    case 6
    let ?v = "field_value m f src"
    have v: "length ?v < unat (fd_data_size f)" using ok 6 by (simp add: value_ok_def field_value_def)
    then have "length ?v < 2 ^ 32 - 1" using unat_u32_less [of "fd_data_size f"] by simp
    moreover have "bs = string_bytes ?v" using bytes 6 src by (simp add: vb field_value_def)
    moreover have "PB_ATYPE (fd_type f) \<noteq> PB_ATYPE_POINTER" using scalar_parts(1) [OF f] by simp
    ultimately show ?thesis using dec_string_reads [of d ?v rest f env dest] s v 6
      by (simp add: pd call_decoder_def decoded_bytes_def)
  qed
qed

section \<open>The layout of a scalar message\<close>

definition scalar_message :: "pb_field list \<Rightarrow> bool" where
  "scalar_message flds \<longleftrightarrow> wf_fields flds \<and> length flds \<le> 64 \<and> distinct (map fd_tag flds) \<and>
     (\<forall>f \<in> set flds. scalar_field f \<and> fd_tag f < 0x20000000)"

abbreviation (input) field_addr :: "pb_field list \<Rightarrow> int \<Rightarrow> nat \<Rightarrow> int" where
  "field_addr flds base i \<equiv> it_pData (iter_at flds base i)"

lemma scalar_messageD:
  assumes "scalar_message flds" "i < length flds"
  shows "wf_fields flds" "scalar_field (flds ! i)" "0 < fd_tag (flds ! i)" "fd_tag (flds ! i) < 0x20000000"
    "it_field (iter_at flds base i) = flds ! i" "it_pos (iter_at flds base i) = i"
  using assms by (auto simp: scalar_message_def wf_fields_def iter_at_pos field_at_def word_neq_0_conv)

lemma scalar_step:
  assumes m: "scalar_message flds" and i: "Suc i < length flds"
  shows "field_addr flds base (Suc i) =
      field_addr flds base i + uint (fd_data_size (flds ! i)) + uint (fd_data_offset (flds ! Suc i))"
    "it_required_field_index (iter_at flds base (Suc i)) = Suc (it_required_field_index (iter_at flds base i))"
proof -
  have i': "i < length flds" using i by simp
  note a = scalar_messageD [OF m i'] and b = scalar_messageD [OF m i]
  note p = scalar_parts [OF a(2)]
  have tags: "fd_tag (flds ! i) \<noteq> 0" "fd_tag (flds ! Suc i) \<noteq> 0" using a(3) b(3) by auto
  have f: "field_at flds i = flds ! i" "field_at flds (Suc i) = flds ! Suc i" using i by (simp_all add: field_at_def)
  have "snd (pb_field_iter_next (iter_at flds base i)) = (iter_at flds base i)\<lparr>it_pos := Suc i,
      it_required_field_index := Suc (it_required_field_index (iter_at flds base i)),
      it_pData := field_addr flds base i + prev_size (flds ! i) + uint (fd_data_offset (flds ! Suc i)),
      it_pSize := field_addr flds base i + prev_size (flds ! i) + uint (fd_data_offset (flds ! Suc i))
        + sint (fd_size_offset (flds ! Suc i))\<rparr>"
    using a(6) [of base] f p(1,2) tags by (simp add: pb_field_iter_next_def Let_def)
  then show "field_addr flds base (Suc i) =
      field_addr flds base i + uint (fd_data_size (flds ! i)) + uint (fd_data_offset (flds ! Suc i))"
    "it_required_field_index (iter_at flds base (Suc i)) = Suc (it_required_field_index (iter_at flds base i))"
    using p(1,2) by (simp_all add: prev_size_def)
qed

lemma scalar_index:
  "scalar_message flds \<Longrightarrow> i < length flds \<Longrightarrow> it_required_field_index (iter_at flds base i) = i"
proof (induction i)
  case 0
  show ?case by (simp add: pb_field_iter_begin_def Let_def)
next
  case (Suc i)
  then have "it_required_field_index (iter_at flds base i) = i" by simp
  then show ?case by (simp only: scalar_step(2) [OF Suc.prems])
qed

lemma scalar_disjoint:
  assumes m: "scalar_message flds" and "i < j" "j < length flds"
  shows "field_addr flds base i + uint (fd_data_size (flds ! i)) \<le> field_addr flds base j"
  using assms(2,3)
proof (induction j)
  case (Suc j)
  have s: "field_addr flds base (Suc j) =
      field_addr flds base j + uint (fd_data_size (flds ! j)) + uint (fd_data_offset (flds ! Suc j))"
    using scalar_step(1) [OF m Suc.prems(2)] .
  show ?case
  proof (cases "i = j")
    case False
    then have "field_addr flds base i + uint (fd_data_size (flds ! i)) \<le> field_addr flds base j"
      using Suc by simp
    then show ?thesis unfolding s by (simp add: add.assoc) (meson order_trans uint_ge_0 add_nonneg_nonneg le_add_same_cancel1)
  qed (simp add: s del: iter_at.simps)
qed simp

lemma field_addr_ge: "scalar_message flds \<Longrightarrow> i < length flds \<Longrightarrow> base \<le> field_addr flds base i"
proof (induction i)
  case 0
  show ?case by (simp add: pb_field_iter_begin_def Let_def)
next
  case (Suc i)
  then have "base \<le> field_addr flds base i" by simp
  then show ?case using uint_ge_0 [of "fd_data_size (flds ! i)"] uint_ge_0 [of "fd_data_offset (flds ! Suc i)"]
    by (simp only: scalar_step(1) [OF Suc.prems])
qed

section \<open>The bytes of a scalar message\<close>

text \<open>Tag and value of field \<open>i\<close>, from \<open>bytes_from i\<close> on all of them.\<close>

definition field_parts :: "mem \<Rightarrow> pb_field list \<Rightarrow> int \<Rightarrow> nat \<Rightarrow> byte list \<times> byte list" where
  "field_parts m flds src i =
     (fst (the (tag_bytes (flds ! i))),
      fst (the (value_bytes (\<lambda>_. []) m (\<lambda>_ _. None) (flds ! i) (field_addr flds src i))))"

definition bytes_from :: "mem \<Rightarrow> pb_field list \<Rightarrow> int \<Rightarrow> nat \<Rightarrow> byte list" where
  "bytes_from m flds src i =
     concat (map (\<lambda>j. fst (field_parts m flds src j) @ snd (field_parts m flds src j)) [i..<length flds])"

lemma value_bytes_total:
  assumes "scalar_field f"
  shows "\<exists>bs. \<forall>descr sub. value_bytes descr m sub f a = Some (bs, True)"
proof -
  have "\<exists>v. load_i64 m a (fd_data_size f) = Some v" "\<exists>v. load_u64 m a (fd_data_size f) = Some v"
    if "fd_data_size f \<in> {1, 2, 4, 8}"
    using that by (auto simp: load_i64_def load_u64_def)
  then show ?thesis
    using assms unfolding scalar_field_def
    by (elim disjE conjE insertE) (auto simp: value_bytes_scalar number_bytes_def)
qed

lemma tag_bytes_total:
  assumes "scalar_field f"
  shows "\<exists>w :: u32. tag_bytes f = Some (varint_bytes (8 * unat (fd_tag f) + unat w), True) \<and> w < 8"
proof -
  obtain w where "wiretype_of (fd_type f) = Some w" "w < 8" using scalar_parts(4) [OF assms] by blast
  moreover from this have "tag_bytes f = Some (varint_bytes (8 * unat (fd_tag f) + unat w), True)"
    by (simp add: tag_bytes_def scalar_parts(3) [OF assms])
  ultimately show ?thesis by blast
qed

lemma field_parts_value:
  assumes "scalar_message flds" "i < length flds"
  shows "value_bytes descr m sub (flds ! i) (field_addr flds src i) = Some (snd (field_parts m flds src i), True)"
  using value_bytes_total [OF scalar_messageD(2) [OF assms], of m "field_addr flds src i"]
  by (auto simp: field_parts_def)

lemma field_parts_tag:
  assumes "scalar_message flds" "i < length flds"
  shows "tag_bytes (flds ! i) = Some (fst (field_parts m flds src i), True)"
proof -
  obtain bs where tag: "tag_bytes (flds ! i) = Some (bs, True)"
    using tag_bytes_total [OF scalar_messageD(2) [OF assms]] by blast
  show ?thesis unfolding field_parts_def tag by simp
qed

lemma bytes_from_step:
  "i < length flds \<Longrightarrow> bytes_from m flds src i =
     fst (field_parts m flds src i) @ snd (field_parts m flds src i) @ bytes_from m flds src (Suc i)"
  by (simp add: bytes_from_def upt_conv_Cons)

lemma bytes_from_end [simp]: "length flds \<le> i \<Longrightarrow> bytes_from m flds src i = []"
  by (simp add: bytes_from_def)

lemma scalar_walk:
  assumes msg: "scalar_message flds" and src: "0 < src"
    and g: "\<And>i. i < length flds \<Longrightarrow> g (flds ! i) (field_addr flds src i) =
      Some (fst (field_parts m flds src i) @ snd (field_parts m flds src i), True)"
  shows "i < length flds \<Longrightarrow> walk_bytes g (length flds - i) (iter_at flds src i) = Some (bytes_from m flds src i, True)"
proof (induction "length flds - i" arbitrary: i)
  case (Suc r)
  have n: "length flds - i = Suc r" and r: "r = length flds - Suc i" using Suc.hyps(2) by simp_all
  note nx = next_iter_at [OF scalar_messageD(1) [OF msg Suc.prems] Suc.prems, of src]
  note f = scalar_messageD(5) [OF msg Suc.prems, of src]
  show ?case
  proof (cases "Suc i < length flds")
    case True
    have "walk_bytes g r (iter_at flds src (Suc i)) = Some (bytes_from m flds src (Suc i), True)"
      unfolding r using Suc.hyps(1) [OF r True] .
    then show ?thesis using nx True g [OF Suc.prems] f
      by (simp add: n e_then_def bytes_from_step [OF Suc.prems] del: iter_at.simps)
  next
    case False
    then show ?thesis using nx g [OF Suc.prems] f
      by (simp add: n e_then_def bytes_from_step [OF Suc.prems] del: iter_at.simps)
  qed
qed simp

lemma scalar_message_bytes:
  assumes msg: "scalar_message flds" and src: "0 < src"
  shows "message_bytes descr cs m (Suc n) flds src = Some (bytes_from m flds src 0, True)"
proof (cases "flds = []")
  case True
  then show ?thesis by (simp add: pb_field_iter_begin_def Let_def field_at_def PB_LAST_FIELD_def)
next
  case False
  then have pos: "0 < length flds" by simp
  have b: "pb_field_iter_begin flds src = (True, iter_at flds src 0)"
    using field_at_tag [OF scalar_messageD(1) [OF msg pos], of 0] pos by (simp add: prod_eq_iff)
  let ?sub = "message_bytes descr cs m n"
  let ?fld = "field_bytes descr cs m n (value_bytes descr m ?sub)"
  let ?g = "\<lambda>field pData. if PB_LTYPE (fd_type field) = PB_LTYPE_EXTENSION
      then extensions_bytes descr cs m ?fld n (load_ptr m pData) else ?fld field pData"
  have g: "?g (flds ! i) (field_addr flds src i) =
      Some (fst (field_parts m flds src i) @ snd (field_parts m flds src i), True)" if i: "i < length flds" for i
  proof -
    note p = scalar_parts [OF scalar_messageD(2) [OF msg i]]
    have "field_addr flds src i \<noteq> 0" using field_addr_ge [OF msg i, of src] src by simp
    then show ?thesis using p field_parts_value [OF msg i] field_parts_tag [OF msg i, of m src]
      by (simp add: field_bytes_def basic_bytes_def Let_def e_then_def)
  qed
  from scalar_walk [where g = ?g, OF msg src g pos] show ?thesis
    by (simp add: b Let_def del: iter_at.simps)
qed


section \<open>Required fields\<close>

text \<open>The bit mask after the fields with the given indices were seen.\<close>

definition marks :: "nat list \<Rightarrow> u32 list" where
  "marks is = fold (\<lambda>i seen. mark_seen seen i) is [0, 0]"

lemma length_marks [simp]: "length (marks is) = 2"
  by (induction "is" rule: rev_induct) (simp_all add: marks_def mark_seen_def)

lemma bit_marks:
  "\<forall>i \<in> set is. i < 64 \<Longrightarrow> w < 2 \<Longrightarrow> b < 32 \<Longrightarrow> bit (marks is ! w) b \<longleftrightarrow> 32 * w + b \<in> set is"
proof (induction "is" rule: rev_induct)
  case Nil
  then show ?case by (cases w) (simp_all add: marks_def nth_Cons')
next
  case (snoc n ns)
  then have IH: "bit (marks ns ! w) b \<longleftrightarrow> 32 * w + b \<in> set ns" by simp
  have same: "n div 32 = w \<and> n mod 32 = b \<longleftrightarrow> 32 * w + b = n" using snoc.prems(3) by auto
  have "n div 32 < 2" using snoc.prems(1) by auto
  then have "bit (marks (ns @ [n]) ! w) b \<longleftrightarrow> bit (marks ns ! w) b \<or> (n div 32 = w \<and> n mod 32 = b)"
    using snoc.prems(2,3) length_marks [of ns]
    by (auto simp: marks_def mark_seen_def nth_list_update bit_or_iff bit_push_bit_iff bit_1_iff bit_exp_iff)
  then show ?case using IH same by auto
qed

lemma all_seen_bits:
  assumes n: "n \<le> 64" and len: "length seen = 2"
  shows "all_seen seen n \<longleftrightarrow>
    (\<forall>w < n div 32. \<forall>b < 32. bit (seen ! w) b) \<and>
    (n mod 32 \<noteq> 0 \<longrightarrow> (\<forall>b < 32. bit (seen ! (n div 32)) b \<longleftrightarrow> b < n mod 32))"
proof -
  have ones: "x = - 1 \<longleftrightarrow> (\<forall>b < 32. bit x b)" for x :: u32 by (auto simp: bit_eq_iff)
  have high: "x = drop_bit (32 - n mod 32) (- 1) \<longleftrightarrow> (\<forall>b < 32. bit x b \<longleftrightarrow> b < n mod 32)" for x :: u32
    by (auto simp: bit_eq_iff bit_mask_iff)
  have "n div 32 \<le> length seen" using n len by simp
  then have "list_all (\<lambda>w. w = - 1) (take (n div 32) seen) \<longleftrightarrow> (\<forall>w < n div 32. \<forall>b < 32. bit (seen ! w) b)"
    unfolding ones by (auto simp: list_all_length)
  then show ?thesis unfolding all_seen_def high by simp
qed

text \<open>The bit mask of \<^verbatim>\<open>pb_decode_noinit\<close> is the set of the required fields that were read.\<close>

lemma all_seen_marks:
  assumes n: "n \<le> 64" and sub: "\<forall>i \<in> set is. i < n"
  shows "all_seen (marks is) n \<longleftrightarrow> (\<forall>i < n. i \<in> set is)"
proof -
  have sub64: "\<forall>i \<in> set is. i < 64" using sub n by auto
  note bits = bit_marks [OF sub64]
  have div: "32 * (n div 32) + n mod 32 = n" by simp
  show ?thesis
  proof
    assume all: "\<forall>i < n. i \<in> set is"
    have "bit (marks is ! w) b" if "w < n div 32" "b < 32" for w b
      using bits [of w b] that all div n by (auto intro!: all [rule_format])
    moreover have "bit (marks is ! (n div 32)) b \<longleftrightarrow> b < n mod 32" if "n mod 32 \<noteq> 0" "b < 32" for b
    proof -
      have "n div 32 < 2" using n that(1) by (cases "n = 64") auto
      moreover have "32 * (n div 32) + b \<in> set is \<longleftrightarrow> b < n mod 32" using all sub div by (metis nat_add_left_cancel_less)
      ultimately show ?thesis using bits that(2) by simp
    qed
    ultimately show "all_seen (marks is) n" by (simp add: all_seen_bits [OF n])
  next
    assume seen: "all_seen (marks is) n"
    show "\<forall>i < n. i \<in> set is"
    proof (intro allI impI)
      fix i assume i: "i < n"
      have b: "i mod 32 < 32" and w: "i div 32 < 2" and iw: "32 * (i div 32) + i mod 32 = i" using i n by auto
      have "bit (marks is ! (i div 32)) (i mod 32)"
      proof (cases "i div 32 < n div 32")
        case True
        then show ?thesis using seen b by (simp add: all_seen_bits [OF n])
      next
        case False
        then have same: "i div 32 = n div 32" using div_le_mono [of i n 32] i by simp
        then have "i mod 32 < n mod 32" using iw div i by linarith
        then show ?thesis using seen b by (simp add: all_seen_bits [OF n] same)
      qed
      then show "i \<in> set is" using bits [OF w b] iw by simp
    qed
  qed
qed

definition mark_upto :: "nat \<Rightarrow> u32 list" where
  "mark_upto n = marks [0..<n]"

lemma mark_upto_0: "mark_upto 0 = [0, 0]"
  by (simp add: mark_upto_def marks_def)

lemma mark_upto_Suc: "mark_upto (Suc n) = mark_seen (mark_upto n) n"
  by (simp add: mark_upto_def marks_def)

lemma all_seen_mark_upto: "n \<le> 64 \<Longrightarrow> all_seen (mark_upto n) n"
  by (simp add: mark_upto_def all_seen_marks)

section \<open>Decoding a scalar message\<close>

text \<open>The state of the loop before field \<open>i\<close>.\<close>

definition scalar_loop :: "pb_field list \<Rightarrow> int \<Rightarrow> nat \<Rightarrow> 's dec \<Rightarrow> 's dec_loop" where
  "scalar_loop flds dest i d =
     \<lparr>dl_dec = d, dl_iter = iter_at flds dest (i - 1), dl_fields_seen = mark_upto i,
      dl_extension_range_start = 0, dl_fixed_count_field = None\<rparr>"

definition store_field :: "mem \<Rightarrow> pb_field list \<Rightarrow> int \<Rightarrow> int \<Rightarrow> nat \<Rightarrow> mem \<Rightarrow> mem" where
  "store_field m flds src dest i m' =
     store m' (field_addr flds dest i) (decoded_bytes m (flds ! i) (field_addr flds src i))"

lemma scalar_find:
  assumes msg: "scalar_message flds" and i: "i < length flds" and j: "j < length flds"
  shows "pb_field_iter_find (iter_at flds dest j) (fd_tag (flds ! i)) = Some (True, iter_at flds dest i)"
proof (rule iter_find_unique [OF scalar_messageD(1) [OF msg i] j i])
  show "it_matches (fd_tag (flds ! i)) (flds ! i)"
    using scalar_parts(3,5) [OF scalar_messageD(2) [OF msg i]] by (simp add: it_matches_def)
  show "k = i" if "k < length flds" "it_matches (fd_tag (flds ! i)) (flds ! k)" for k
    using msg i that by (auto simp: scalar_message_def it_matches_def distinct_conv_nth)
qed

lemma scalar_round:
  assumes msg: "scalar_message flds" and i: "i < length flds" and src: "0 < src"
    and ok: "value_ok m (flds ! i) (field_addr flds src i)"
    and s: "is_has (ds_stream d) (fst (field_parts m flds src i) @ snd (field_parts m flds src i)) rest"
  shows "decode_round env n rec flds (scalar_loop flds dest i d) =
    Some (Again (scalar_loop flds dest (Suc i)
      (d\<lparr>ds_stream := is_drop (ds_stream d) (length (fst (field_parts m flds src i) @ snd (field_parts m flds src i))) rest,
         ds_mem := store_field m flds src dest i (ds_mem d)\<rparr>)))"
proof -
  let ?f = "flds ! i" and ?tb = "fst (field_parts m flds src i)" and ?vb = "snd (field_parts m flds src i)"
  note D = scalar_messageD [OF msg i]
  note p = scalar_parts [OF D(2)]
  have j: "i - 1 < length flds" using i by simp
  from is_has_split [OF s] have st: "is_has (ds_stream d) ?tb (?vb @ rest)"
    and sv: "is_has (is_drop (ds_stream d) (length ?tb) (?vb @ rest)) ?vb rest" .
  obtain w :: u32 where w: "?tb = varint_bytes (8 * unat (fd_tag ?f) + unat w)" "w < 8"
    using tag_bytes_total [OF D(2)] field_parts_tag [OF msg i, of m src] by auto
  have tag: "pb_decode_tag (ds_stream d) = (Some (w, fd_tag ?f), False, is_drop (ds_stream d) (length ?tb) (?vb @ rest))"
    unfolding w(1) by (rule pb_decode_tag_has) (use st w D(3,4) in simp_all)
  let ?d = "d\<lparr>ds_stream := is_drop (ds_stream d) (length ?tb) (?vb @ rest)\<rparr>"
  have val: "call_decoder (PB_DECODERS env n rec (fd_type ?f)) ?f (field_addr flds dest i) ?d =
      Some (True, d\<lparr>ds_stream := is_drop (ds_stream d) (length (?tb @ ?vb)) rest,
                     ds_mem := store_field m flds src dest i (ds_mem d)\<rparr>)"
    using scalar_value_decodes [OF D(2) ok field_parts_value [OF msg i, of "\<lambda>_. []" m "\<lambda>_ _. None"], of ?d rest env n rec "field_addr flds dest i"]
      sv field_addr_ge [OF msg i, of src] src
    by (simp add: store_field_def)
  have idx: "it_required_field_index (iter_at flds dest i) = i" by (rule scalar_index [OF msg i])
  have lt: "i < 64" using msg i by (simp add: scalar_message_def)
  have field: "decode_field env n rec w (iter_at flds dest i) ?d =
      Some (True, d\<lparr>ds_stream := is_drop (ds_stream d) (length (?tb @ ?vb)) rest,
                     ds_mem := store_field m flds src dest i (ds_mem d)\<rparr>, iter_at flds dest i)"
    using p D(5) [of dest] val by (simp add: decode_field_def decode_static_field_def Let_def del: iter_at.simps)
  show ?thesis
    unfolding decode_round_def scalar_loop_def Let_def
    using tag scalar_find [OF msg i j, of dest] field p(2) D(5) [of dest] idx lt
    by (simp add: decode_known_def Let_def mark_upto_Suc del: iter_at.simps)
qed

lemma store_field_keeps:
  assumes msg: "scalar_message flds" and i: "i < length flds" and j: "j < length flds" "j \<noteq> i"
    and ok: "value_ok m (flds ! i) (field_addr flds src i)"
  shows "field_value (store_field m flds src dest i m') (flds ! j) (field_addr flds dest j) =
    field_value m' (flds ! j) (field_addr flds dest j)"
  unfolding store_field_def
proof (rule field_value_other)
  let ?bs = "decoded_bytes m (flds ! i) (field_addr flds src i)"
  have len: "int (length ?bs) \<le> int (unat (fd_data_size (flds ! i)))"
    using length_decoded [OF ok] by (simp only: of_nat_le_iff)
  have "j < i \<or> i < j" using j(2) by auto
  then show "field_addr flds dest i + int (length ?bs) \<le> field_addr flds dest j \<or>
      field_addr flds dest j + int (unat (fd_data_size (flds ! j))) \<le> field_addr flds dest i"
  proof
    assume "j < i"
    from scalar_disjoint [OF msg this i, of dest] show ?thesis by (simp only: uint_nat) blast
  next
    assume "i < j"
    from scalar_disjoint [OF msg this j(1), of dest] len show ?thesis by (simp only: uint_nat) linarith
  qed
qed


lemma bytes_from_length:
  assumes "scalar_message flds" "i < length flds"
  shows "length (bytes_from m flds src (Suc i)) < length (bytes_from m flds src i)"
proof -
  obtain w :: u32 where "tag_bytes (flds ! i) = Some (varint_bytes (8 * unat (fd_tag (flds ! i)) + unat w), True)"
    using tag_bytes_total [OF scalar_messageD(2) [OF assms]] by blast
  with field_parts_tag [OF assms, of m src]
  have "fst (field_parts m flds src i) = varint_bytes (8 * unat (fd_tag (flds ! i)) + unat w)" by simp
  then have "fst (field_parts m flds src i) \<noteq> []" by (simp add: varint_bytes.simps)
  then show ?thesis by (simp add: bytes_from_step [OF assms(2)])
qed

definition decoded_mem :: "mem \<Rightarrow> pb_field list \<Rightarrow> int \<Rightarrow> int \<Rightarrow> nat \<Rightarrow> mem \<Rightarrow> mem" where
  "decoded_mem m flds src dest i m' = fold (store_field m flds src dest) [i..<length flds] m'"

lemma scalar_decode_loop:
  assumes msg: "scalar_message flds" and src: "0 < src"
    and ok: "\<And>i. i < length flds \<Longrightarrow> value_ok m (flds ! i) (field_addr flds src i)"
  shows "i \<le> length flds \<Longrightarrow> is_has (ds_stream d) (bytes_from m flds src i) rest \<Longrightarrow>
    unat (is_bytes_left (ds_stream d)) = length (bytes_from m flds src i) \<Longrightarrow>
    length (bytes_from m flds src i) < k \<Longrightarrow>
    decode_loop (decode_round env n rec flds) k (scalar_loop flds dest i d) =
      Some (Inr (scalar_loop flds dest (length flds)
        (d\<lparr>ds_stream := is_drop (ds_stream d) (length (bytes_from m flds src i)) rest,
           ds_mem := decoded_mem m flds src dest i (ds_mem d)\<rparr>)))"
proof (induction "length flds - i" arbitrary: i k d)
  case 0
  then have "i = length flds" by simp
  moreover from 0 this have "is_bytes_left (ds_stream d) = 0" "is_source (ds_stream d) = Buf rest"
    by (simp_all add: unat_eq_zero is_has_def)
  moreover obtain k' where "k = Suc k'" using 0 by (cases k) auto
  ultimately show ?case
    by (simp add: scalar_loop_def decoded_mem_def is_drop_def)
next
  case (Suc r)
  then have i: "i < length flds" by simp
  let ?p = "fst (field_parts m flds src i) @ snd (field_parts m flds src i)"
  let ?B = "bytes_from m flds src"
  have B: "?B i = ?p @ ?B (Suc i)" by (simp add: bytes_from_step [OF i])
  note h = is_has_split [OF Suc.prems(2) [unfolded B]]
  let ?d = "d\<lparr>ds_stream := is_drop (ds_stream d) (length ?p) (?B (Suc i) @ rest),
              ds_mem := store_field m flds src dest i (ds_mem d)\<rparr>"
  have round: "decode_round env n rec flds (scalar_loop flds dest i d) = Some (Again (scalar_loop flds dest (Suc i) ?d))"
    by (rule scalar_round [OF msg i src ok [OF i] h(1)])
  note shorter = bytes_from_length [OF msg i, of m src]
  obtain k' where k: "k = Suc k'" using Suc.prems(4) by (cases k) auto
  have left: "unat (is_bytes_left (ds_stream ?d)) = length (?B (Suc i))"
    using bytes_left_drop [OF h(1)] Suc.prems(3) B by simp
  have "decode_loop (decode_round env n rec flds) k' (scalar_loop flds dest (Suc i) ?d) =
      Some (Inr (scalar_loop flds dest (length flds)
        (?d\<lparr>ds_stream := is_drop (ds_stream ?d) (length (?B (Suc i))) rest,
            ds_mem := decoded_mem m flds src dest (Suc i) (ds_mem ?d)\<rparr>)))"
    by (rule Suc.hyps(1)) (use Suc.hyps(2) i h(2) left shorter Suc.prems(4) k in simp_all)
  moreover have "is_bytes_left (ds_stream d) \<noteq> 0" using Suc.prems(3) shorter by auto
  moreover have "decoded_mem m flds src dest (Suc i) (store_field m flds src dest i (ds_mem d)) =
      decoded_mem m flds src dest i (ds_mem d)"
    using i by (simp add: decoded_mem_def upt_conv_Cons)
  moreover have "ds_stream (dl_dec (scalar_loop flds dest i d)) = ds_stream d" by (simp add: scalar_loop_def)
  ultimately show ?case by (simp add: k round B ac_simps)
qed

lemma decoded_values:
  assumes msg: "scalar_message flds"
    and ok: "\<And>i. i < length flds \<Longrightarrow> value_ok m (flds ! i) (field_addr flds src i)"
    and j: "j < length flds"
  shows "i \<le> length flds \<Longrightarrow>
    (j < i \<Longrightarrow> field_value m' (flds ! j) (field_addr flds dest j) = field_value m (flds ! j) (field_addr flds src j)) \<Longrightarrow>
    field_value (decoded_mem m flds src dest i m') (flds ! j) (field_addr flds dest j) =
      field_value m (flds ! j) (field_addr flds src j)"
proof (induction "length flds - i" arbitrary: i m')
  case 0
  then show ?case using j by (simp add: decoded_mem_def)
next
  case (Suc r)
  then have i: "i < length flds" by simp
  have "decoded_mem m flds src dest i m' = decoded_mem m flds src dest (Suc i) (store_field m flds src dest i m')"
    using i by (simp add: decoded_mem_def upt_conv_Cons)
  moreover have "field_value (store_field m flds src dest i m') (flds ! j) (field_addr flds dest j) =
      field_value m (flds ! j) (field_addr flds src j)" if "j < Suc i"
  proof (cases "j = i")
    case True
    show ?thesis unfolding True store_field_def by (rule field_value_decoded [OF ok [OF i]])
  next
    case False
    then show ?thesis using store_field_keeps [OF msg i j False ok [OF i]] Suc.prems(2) that by simp
  qed
  ultimately show ?case using Suc.hyps i by (metis Suc_leI diff_Suc_Suc Suc_diff_Suc diff_Suc_1)
qed

lemma scalar_to_last:
  assumes msg: "scalar_message flds"
  shows "i < length flds \<Longrightarrow> length flds - i \<le> n \<Longrightarrow> to_last_field n (iter_at flds dest i) =
    Some (length flds - 1, fd_type (flds ! (length flds - 1)), iter_at flds dest 0)"
proof (induction "length flds - i" arbitrary: i n)
  case (Suc r)
  then obtain n' where n: "n = Suc n'" by (cases n) auto
  note nx = next_iter_at [OF scalar_messageD(1) [OF msg Suc.prems(1)] Suc.prems(1), of dest]
  show ?case
  proof (cases "Suc i < length flds")
    case True
    have "to_last_field n' (iter_at flds dest (Suc i)) =
        Some (length flds - 1, fd_type (flds ! (length flds - 1)), iter_at flds dest 0)"
      by (rule Suc.hyps(1)) (use Suc n True in simp_all)
    then show ?thesis using nx True by (simp add: n del: iter_at.simps)
  next
    case False
    then have "i = length flds - 1" using Suc.prems(1) by simp
    then show ?thesis
      using nx False scalar_index [OF msg Suc.prems(1), of dest] scalar_messageD(5) [OF msg Suc.prems(1), of dest]
      by (simp add: n del: iter_at.simps)
  qed
qed simp

lemma scalar_check_required:
  assumes msg: "scalar_message flds"
  shows "check_required (scalar_loop flds dest (length flds) d) = Some (True, d)"
proof (cases "flds = []")
  case True
  then show ?thesis
    by (simp add: check_required_def scalar_loop_def pb_field_iter_begin_def pb_field_iter_next_def
        field_at_def PB_LAST_FIELD_def Let_def PB_HTYPE_def)
next
  case False
  then have last: "length flds - 1 < length flds" and pos: "0 < length flds" by simp_all
  note D = scalar_messageD [OF msg last] and D0 = scalar_messageD [OF msg pos]
  have len: "length flds \<le> 64" using msg by (simp add: scalar_message_def)
  have "to_last_field (Suc (length flds)) (iter_at flds dest (length flds - 1)) =
      Some (length flds - 1, fd_type (flds ! (length flds - 1)), iter_at flds dest 0)"
    by (rule scalar_to_last [OF msg last]) simp
  moreover have "it_field (iter_at flds dest 0) = flds ! 0" by (rule D0(5))
  moreover have "fd_tag (flds ! 0) \<noteq> 0" using D0(3) by auto
  moreover have "min (Suc (length flds - 1)) PB_MAX_REQUIRED_FIELDS = length flds" using pos len by simp
  moreover have "all_seen (mark_upto (length flds)) (length flds)" by (rule all_seen_mark_upto [OF len])
  moreover have "Suc (length flds - 1) = length flds" using pos by simp
  ultimately show ?thesis using scalar_parts(2) [OF D(2)]
    by (simp add: check_required_def scalar_loop_def Let_def del: iter_at.simps to_last_field.simps min_Suc_Suc)
qed

lemma scalar_decode_noinit:
  assumes msg: "scalar_message flds" and src: "0 < src"
    and ok: "\<And>i. i < length flds \<Longrightarrow> value_ok m (flds ! i) (field_addr flds src i)"
    and d: "ds_stream d = pb_istream_from_buffer (bytes_from m flds src 0 @ rest) (of_nat (length (bytes_from m flds src 0)))"
    and len: "length (bytes_from m flds src 0) < 2 ^ 64"
  shows "\<exists>d'. pb_decode_noinit env (Suc n) flds dest d = Some (True, d') \<and>
    is_source (ds_stream d') = Buf rest \<and> is_bytes_left (ds_stream d') = 0 \<and>
    ds_mem d' = decoded_mem m flds src dest 0 (store_u32 (ds_mem d) (count_slot n) 0)"
proof -
  let ?B = "bytes_from m flds src 0" and ?d = "map_mem (\<lambda>m. store_u32 m (count_slot n) 0) d"
  have left: "unat (is_bytes_left (ds_stream ?d)) = length ?B"
    using len by (simp add: d map_mem_def pb_istream_from_buffer_def unsigned_of_nat take_bit_eq_mod)
  have s: "is_has (ds_stream ?d) ?B rest"
    using left by (simp add: is_has_def) (simp add: d map_mem_def pb_istream_from_buffer_def)
  have L: "\<lparr>dl_dec = ?d, dl_iter = snd (pb_field_iter_begin flds dest), dl_fields_seen = [0, 0],
      dl_extension_range_start = 0, dl_fixed_count_field = None\<rparr> = scalar_loop flds dest 0 ?d"
    by (simp add: scalar_loop_def mark_upto_0)
  have loop: "decode_loop (decode_round env n (pb_decode_noinit env n) flds) (Suc (unat (is_bytes_left (ds_stream d))))
      (scalar_loop flds dest 0 ?d) = Some (Inr (scalar_loop flds dest (length flds)
        (?d\<lparr>ds_stream := is_drop (ds_stream ?d) (length ?B) rest,
            ds_mem := decoded_mem m flds src dest 0 (ds_mem ?d)\<rparr>)))"
    by (rule scalar_decode_loop [OF msg src ok _ s left]) (use left in \<open>simp_all add: map_mem_def\<close>)
  have zero: "is_bytes_left (is_drop (ds_stream ?d) (length ?B) rest) = 0"
    using bytes_left_drop [OF s, of rest] left by (simp only: unat_eq_zero [symmetric])
  have nofix: "\<not> fixed_count_wrong n flds (dl_fixed_count_field (scalar_loop flds dest (length flds) e)) m'" for e :: "'a dec" and m'
    by (simp add: fixed_count_wrong_def scalar_loop_def)
  show ?thesis
    using loop zero nofix
    by (simp add: L Let_def scalar_check_required [OF msg] del: decode_loop.simps) (simp add: is_drop_def map_mem_def)
qed

lemma scalar_defaults:
  assumes msg: "scalar_message flds"
  shows "\<exists>m'. pb_message_set_to_defaults descr (Suc (Suc n)) flds dest m = Some m'"
proof (cases "flds = []")
  case True
  then show ?thesis by (simp add: pb_field_iter_begin_def Let_def field_at_def PB_LAST_FIELD_def)
next
  case False
  then have pos: "0 < length flds" by simp
  have field: "\<exists>m'. pb_field_set_to_default descr (Suc n) (iter_at flds dest i) m = Some m'" if "i < length flds" for i m
  proof -
    let ?f = "flds ! i"
    note p = scalar_parts [OF scalar_messageD(2) [OF msg that]]
    have "PB_LTYPE (fd_type ?f) \<noteq> PB_LTYPE_SUBMESSAGE" "PB_LTYPE (fd_type ?f) \<noteq> PB_LTYPE_EXTENSION"
      using scalar_messageD(2) [OF msg that] unfolding p(3) by (auto simp: scalar_field_def)
    then show ?thesis using p(1,2) scalar_messageD(5) [OF msg that, of dest]
      by (simp add: Let_def del: iter_at.simps)
  qed
  have "\<exists>m'. each_field (pb_field_set_to_default descr (Suc n)) (length flds - 0) (iter_at flds dest 0) m = Some m' \<and> True"
    by (rule each_field_at [OF scalar_messageD(1) [OF msg pos]]) (use field pos in \<open>simp_all del: iter_at.simps pb_field_set_to_default.simps\<close>)
  with begin_at [OF scalar_messageD(1) [OF msg pos] False, of dest] show ?thesis
    by (simp del: iter_at.simps pb_field_set_to_default.simps)
qed

end
