(* ===== verification/PbDecodeSafe.thy ===== *)
theory PbDecodeSafe
  imports PbRoundtrip
begin

text \<open>
  Memory safety and termination of the decoder on any input: a message of static fields is decoded
  (or refused) in bounded time, and no byte outside of its structure is written. The lemmas follow the
  call graph: readers never give bytes back (\<open>sheds\<close>), field decoders write to a region (\<open>confined\<close>), one
  round of the loop keeps the loop invariant (\<open>loop_ok\<close>).
\<close>

section \<open>Streams over a buffer\<close>

definition is_buf :: "'s pb_istream \<Rightarrow> bool" where
  "is_buf s \<longleftrightarrow> (\<exists>bs. is_source s = Buf bs)"

abbreviation (input) left_of :: "'s pb_istream \<Rightarrow> nat" where
  "left_of s \<equiv> unat (is_bytes_left s)"

text \<open>A reader never gives bytes back, and a value costs at least one byte.\<close>

definition sheds :: "('s pb_istream \<Rightarrow> 'a option \<times> 's pb_istream) \<Rightarrow> bool" where
  "sheds D \<longleftrightarrow> (\<forall>s r s'. is_buf s \<longrightarrow> D s = (r, s') \<longrightarrow>
     is_buf s' \<and> left_of s' \<le> left_of s \<and> (r \<noteq> None \<longrightarrow> left_of s' < left_of s))"

lemma shedsI:
  "(\<And>s r s'. is_buf s \<Longrightarrow> D s = (r, s') \<Longrightarrow>
     is_buf s' \<and> left_of s' \<le> left_of s \<and> (r \<noteq> None \<longrightarrow> left_of s' < left_of s)) \<Longrightarrow> sheds D"
  unfolding sheds_def by blast

lemma shedsD:
  assumes "sheds D" "is_buf s" "D s = (r, s')"
  shows "is_buf s'" "left_of s' \<le> left_of s" "r \<noteq> None \<Longrightarrow> left_of s' < left_of s"
  using assms unfolding sheds_def by blast+

lemma is_error_simps [simp]:
  "is_buf (is_error s msg) = is_buf s" "is_bytes_left (is_error s msg) = is_bytes_left s"
  "is_source (is_error s msg) = is_source s"
  by (simp_all add: is_error_def is_buf_def)

lemma read_sheds:
  assumes "is_buf s" "pb_read s n = (ok, bs, s')"
  shows "is_buf s'" "left_of s' \<le> left_of s" "length bs \<le> unat n" "ok \<Longrightarrow> left_of s' = left_of s - unat n \<and> n \<le> is_bytes_left s"
  using assms
  by (auto simp: pb_read_def is_buf_def buf_read_def word_less_nat_alt word_le_nat_alt unat_sub split: if_splits)

lemma read_null_sheds:
  assumes "is_buf s" "pb_read_null s n = (ok, s')"
  shows "is_buf s'" "left_of s' \<le> left_of s"
proof -
  obtain bs where "is_source s = Buf bs" using assms(1) by (auto simp: is_buf_def)
  then obtain cs where r: "pb_read s n = (ok, cs, s')" using assms(2) by (auto simp: pb_read_null_def split: prod.splits)
  show "is_buf s'" "left_of s' \<le> left_of s" using read_sheds(1,2) [OF assms(1) r] .
qed

lemma readbyte_sheds: "sheds pb_readbyte"
proof (rule shedsI)
  fix s s' :: "'s pb_istream" and r :: "byte option"
  assume s: "is_buf s" "pb_readbyte s = (r, s')"
  then show "is_buf s' \<and> left_of s' \<le> left_of s \<and> (r \<noteq> None \<longrightarrow> left_of s' < left_of s)"
    by (auto simp: pb_readbyte_def is_buf_def buf_read_def unat_minus_one unat_gt_0 split: if_splits)
qed

lemma varint32_loop_sheds: "sheds (\<lambda>s. varint32_loop s bitpos result)"
proof (rule shedsI)
  fix s s' :: "'s pb_istream" and r
  assume "is_buf s" "varint32_loop s bitpos result = (r, s')"
  then show "is_buf s' \<and> left_of s' \<le> left_of s \<and> (r \<noteq> None \<longrightarrow> left_of s' < left_of s)"
  proof (induction s bitpos result rule: varint32_loop.induct)
    case (1 s bitpos result)
    obtain b s1 where b: "pb_readbyte s = (b, s1)" by (cases "pb_readbyte s")
    note h = shedsD [OF readbyte_sheds "1.prems"(1) b]
    show ?case
      using "1.IH" [OF b [symmetric]] h "1.prems"(2)
      by (fastforce simp: varint32_loop.simps [of s] b Let_def split: option.splits if_splits)
  qed
qed


lemma varint32_eof_sheds: "sheds (\<lambda>s. case pb_decode_varint32_eof s of (r, _, s') \<Rightarrow> (r, s'))"
proof (rule shedsI)
  fix s s' :: "'s pb_istream" and r
  assume s: "is_buf s" and r: "(case pb_decode_varint32_eof s of (r, _, s') \<Rightarrow> (r, s')) = (r, s')"
  obtain b s1 where b: "pb_readbyte s = (b, s1)" by (cases "pb_readbyte s")
  note h = shedsD [OF readbyte_sheds s b]
  show "is_buf s' \<and> left_of s' \<le> left_of s \<and> (r \<noteq> None \<longrightarrow> left_of s' < left_of s)"
  proof (cases b)
    case None
    then show ?thesis using r h b by (simp add: pb_decode_varint32_eof_def)
  next
    case (Some byte)
    obtain x s2 where l: "varint32_loop s1 7 (ucast (byte AND 0x7F)) = (x, s2)"
      by (cases "varint32_loop s1 7 (ucast (byte AND 0x7F))")
    note h2 = shedsD [OF varint32_loop_sheds h(1) l]
    show ?thesis using r h h2 b l Some
      by (auto simp: pb_decode_varint32_eof_def split: if_splits option.splits prod.splits)
  qed
qed

lemma varint32_sheds: "sheds pb_decode_varint32"
  using varint32_eof_sheds by (simp add: pb_decode_varint32_def [abs_def])

lemma tag_sheds:
  assumes s: "is_buf s" and t: "pb_decode_tag s = (r, eof, s')"
  shows "is_buf s'" "left_of s' \<le> left_of s" "r \<noteq> None \<Longrightarrow> left_of s' < left_of s"
proof -
  obtain x e s1 where x: "pb_decode_varint32_eof s = (x, e, s1)" by (cases "pb_decode_varint32_eof s")
  note h = shedsD [OF varint32_eof_sheds s, of x s1, unfolded x, simplified]
  show "is_buf s'" "left_of s' \<le> left_of s" "r \<noteq> None \<Longrightarrow> left_of s' < left_of s"
    using h t by (auto simp: pb_decode_tag_def x split: option.splits if_splits)
qed

lemma varint_dec_loop_sheds: "sheds (\<lambda>s. varint_dec_loop s bitpos result)"
proof (rule shedsI)
  fix s s' :: "'s pb_istream" and r
  assume "is_buf s" "varint_dec_loop s bitpos result = (r, s')"
  then show "is_buf s' \<and> left_of s' \<le> left_of s \<and> (r \<noteq> None \<longrightarrow> left_of s' < left_of s)"
  proof (induction s bitpos result rule: varint_dec_loop.induct)
    case (1 s bitpos result)
    obtain b s1 where b: "pb_readbyte s = (b, s1)" by (cases "pb_readbyte s")
    note h = shedsD [OF readbyte_sheds "1.prems"(1) b]
    show ?case
    proof (cases "64 \<le> bitpos")
      case True
      then show ?thesis using "1.prems" by (auto simp: varint_dec_loop.simps [of s])
    next
      case False
      then show ?thesis
        using "1.IH" [OF _ b [symmetric]] h "1.prems"(2)
        by (fastforce simp: varint_dec_loop.simps [of s] b Let_def split: option.splits if_splits)
    qed
  qed
qed

lemma varint_sheds: "sheds pb_decode_varint"
  using varint_dec_loop_sheds by (simp add: pb_decode_varint_def [abs_def])

lemma svarint_sheds: "sheds pb_decode_svarint"
proof (rule shedsI)
  fix s s' :: "'s pb_istream" and r
  assume s: "is_buf s" "pb_decode_svarint s = (r, s')"
  obtain x s1 where x: "pb_decode_varint s = (x, s1)" by (cases "pb_decode_varint s")
  show "is_buf s' \<and> left_of s' \<le> left_of s \<and> (r \<noteq> None \<longrightarrow> left_of s' < left_of s)"
    using shedsD [OF varint_sheds s(1) x] s(2) by (auto simp: pb_decode_svarint_def x split: option.splits)
qed

lemma fixed_sheds: "sheds pb_decode_fixed32" "sheds pb_decode_fixed64"
proof -
  show "sheds pb_decode_fixed32"
  proof (rule shedsI)
    fix s s' :: "'s pb_istream" and r
    assume s: "is_buf s" "pb_decode_fixed32 s = (r, s')"
    obtain ok bs s1 where x: "pb_read s 4 = (ok, bs, s1)" by (cases "pb_read s 4")
    show "is_buf s' \<and> left_of s' \<le> left_of s \<and> (r \<noteq> None \<longrightarrow> left_of s' < left_of s)"
      using read_sheds [OF s(1) x] s(2) by (cases ok) (auto simp: pb_decode_fixed32_def x word_le_nat_alt)
  qed
  show "sheds pb_decode_fixed64"
  proof (rule shedsI)
    fix s s' :: "'s pb_istream" and r
    assume s: "is_buf s" "pb_decode_fixed64 s = (r, s')"
    obtain ok bs s1 where x: "pb_read s 8 = (ok, bs, s1)" by (cases "pb_read s 8")
    show "is_buf s' \<and> left_of s' \<le> left_of s \<and> (r \<noteq> None \<longrightarrow> left_of s' < left_of s)"
      using read_sheds [OF s(1) x] s(2) by (cases ok) (auto simp: pb_decode_fixed64_def x word_le_nat_alt)
  qed
qed

lemma skip_varint_sheds:
  "is_buf s \<Longrightarrow> pb_skip_varint s = (ok, s') \<Longrightarrow> is_buf s' \<and> left_of s' \<le> left_of s"
proof (induction s rule: pb_skip_varint.induct)
  case (1 s)
  obtain k bs s1 where b: "pb_read s 1 = (k, bs, s1)" by (cases "pb_read s 1")
  note h = read_sheds [OF "1.prems"(1) b]
  show ?case
    using "1.IH" [OF b [symmetric]] h "1.prems"(2)
    by (fastforce simp: pb_skip_varint.simps [of s] b split: bool.splits if_splits)
qed

lemma skip_sheds:
  assumes s: "is_buf s" and k: "pb_skip_field s wt = (ok, s')"
  shows "is_buf s' \<and> left_of s' \<le> left_of s"
proof -
  obtain x s1 where v: "pb_decode_varint32 s = (x, s1)" by (cases "pb_decode_varint32 s")
  note h = shedsD [OF varint32_sheds s v]
  have "is_buf s' \<and> left_of s' \<le> left_of s" if "pb_skip_string s = (ok, s')"
    using that h read_null_sheds [OF h(1)] by (fastforce simp: pb_skip_string_def v split: option.splits)
  then show ?thesis
    using k s skip_varint_sheds [OF s] read_null_sheds [OF s]
    by (auto simp: pb_skip_field_def split: if_splits)
qed

lemma substream_sheds:
  assumes s: "is_buf s" and k: "pb_make_string_substream s = (r, s')"
  shows "is_buf s'" "left_of s' \<le> left_of s" "r = Some sub \<Longrightarrow> left_of s' < left_of s \<and> is_buf sub"
proof -
  obtain x s1 where v: "pb_decode_varint32 s = (x, s1)" by (cases "pb_decode_varint32 s")
  note h = shedsD [OF varint32_sheds s v]
  have le: "left_of s1 - unat sz \<le> left_of s1" for sz :: u32 by simp
  show "is_buf s'" "left_of s' \<le> left_of s" "r = Some sub \<Longrightarrow> left_of s' < left_of s \<and> is_buf sub"
    using h k by (auto simp: pb_make_string_substream_def v is_buf_def not_less word_le_nat_alt unat_sub
        split: option.splits if_splits)
qed

lemma close_sheds:
  assumes s: "is_buf s" and sub: "is_buf sub" and k: "pb_close_string_substream s sub = (ok, s')"
  shows "is_buf s'" "left_of s' = left_of s"
proof -
  obtain o1 s1 where r: "pb_read_null sub (is_bytes_left sub) = (o1, s1)" by (cases "pb_read_null sub (is_bytes_left sub)")
  show "is_buf s'" "left_of s' = left_of s"
    using k s sub read_null_sheds(1) [OF sub r]
    by (auto simp: pb_close_string_substream_def r is_buf_def split: if_splits bool.splits)
qed


section \<open>Decoders that write only to a region\<close>

definition same_outside :: "int set \<Rightarrow> mem \<Rightarrow> mem \<Rightarrow> bool" where
  "same_outside R m m' \<longleftrightarrow> (\<forall>a. a \<notin> R \<longrightarrow> mbytes m' a = mbytes m a)"

definition within :: "int set \<Rightarrow> 's dec \<Rightarrow> 's dec \<Rightarrow> bool" where
  "within R d d' \<longleftrightarrow> is_buf (ds_stream d') \<and> left_of (ds_stream d') \<le> left_of (ds_stream d) \<and>
     same_outside R (ds_mem d) (ds_mem d')"

definition confined :: "int set \<Rightarrow> ('s dec \<Rightarrow> 's decoding) \<Rightarrow> bool" where
  "confined R f \<longleftrightarrow> (\<forall>d. is_buf (ds_stream d) \<longrightarrow>
     (\<exists>ok d'. f d = Some (ok, d') \<and> within R d d' \<and> (ok \<longrightarrow> left_of (ds_stream d') < left_of (ds_stream d))))"

lemma same_outside_refl [simp]: "same_outside R m m"
  by (simp add: same_outside_def)

lemma same_outside_trans: "same_outside R m m' \<Longrightarrow> same_outside R m' m'' \<Longrightarrow> same_outside R m m''"
  by (simp add: same_outside_def)

lemma same_outside_store:
  "{a..<a + int (length bs)} \<subseteq> R \<Longrightarrow> same_outside R m (store m a bs)"
  by (auto simp: same_outside_def intro!: mbytes_store)
     (meson atLeastLessThan_iff not_le subset_iff)

lemma same_outside_stores [intro]:
  "{a..<a + 4} \<subseteq> R \<Longrightarrow> same_outside R m (store_u32 m a v)"
  "a \<in> R \<Longrightarrow> same_outside R m (store_bool m a b)"
  by (auto simp: store_u32_def store_bool_def intro!: same_outside_store)

lemma within_trans: "within R d d' \<Longrightarrow> within R d' d'' \<Longrightarrow> within R d d''"
  unfolding within_def by (meson le_trans same_outside_trans)

lemma confinedI:
  "(\<And>d. is_buf (ds_stream d) \<Longrightarrow> \<exists>ok d'. f d = Some (ok, d') \<and> within R d d' \<and>
     (ok \<longrightarrow> left_of (ds_stream d') < left_of (ds_stream d))) \<Longrightarrow> confined R f"
  by (simp add: confined_def)

lemma confinedD:
  "confined R f \<Longrightarrow> is_buf (ds_stream d) \<Longrightarrow> \<exists>ok d'. f d = Some (ok, d') \<and> within R d d' \<and>
     (ok \<longrightarrow> left_of (ds_stream d') < left_of (ds_stream d))"
  by (simp add: confined_def)

lemma confinedE:
  assumes "confined R f" "is_buf (ds_stream d)"
  obtains ok d' where "f d = Some (ok, d')" "within R d d'" "ok \<Longrightarrow> left_of (ds_stream d') < left_of (ds_stream d)"
  using assms unfolding confined_def by blast

text \<open>Any memory effect inside the region may come before the decoder.\<close>

lemma confined_after:
  assumes "confined R f" "\<And>m. same_outside R m (g m)"
  shows "confined R (\<lambda>d. f (map_mem g d))"
proof (rule confinedI)
  fix d :: "'a dec" assume b: "is_buf (ds_stream d)"
  then have "is_buf (ds_stream (map_mem g d))" by (simp add: map_mem_def)
  from confinedE [OF assms(1) this] obtain ok d' where
    f: "f (map_mem g d) = Some (ok, d')" "within R (map_mem g d) d'"
      "ok \<Longrightarrow> left_of (ds_stream d') < left_of (ds_stream (map_mem g d))" by blast
  then have "within R d d'" using assms(2) [of "ds_mem d"] same_outside_trans
    by (auto simp: within_def map_mem_def)
  with f show "\<exists>ok d'. f (map_mem g d) = Some (ok, d') \<and> within R d d' \<and>
     (ok \<longrightarrow> left_of (ds_stream d') < left_of (ds_stream d))" by (auto simp: map_mem_def)
qed

text \<open>
  A value is read, then a continuation writes to the region and says whether it accepts; it does not
  give bytes back.
\<close>

lemma confined_value:
  fixes D :: "'s pb_istream \<Rightarrow> 'a option \<times> 's pb_istream"
  assumes D: "sheds D"
    and k: "\<And>x d. is_buf (ds_stream d) \<Longrightarrow> \<exists>ok d'. k x d = Some (ok, d') \<and> within R d d'"
  shows "confined R (\<lambda>d. with_value D d k)"
proof (rule confinedI)
  fix d :: "'s dec" assume b: "is_buf (ds_stream d)"
  obtain x s where x: "D (ds_stream d) = (x, s)" by (cases "D (ds_stream d)")
  note h = shedsD [OF D b x]
  show "\<exists>ok d'. with_value D d k = Some (ok, d') \<and> within R d d' \<and>
     (ok \<longrightarrow> left_of (ds_stream d') < left_of (ds_stream d))"
  proof (cases x)
    case None
    then show ?thesis using h x by (auto simp: with_value_def within_def)
  next
    case (Some v)
    let ?d = "d\<lparr>ds_stream := s\<rparr>"
    obtain ok d' where "k v ?d = Some (ok, d')" "within R ?d d'" using k [of ?d v] h by auto
    then show ?thesis using h x Some by (auto simp: with_value_def within_def)
  qed
qed

lemma within_error [simp]: "is_buf (ds_stream d) \<Longrightarrow> within R d (snd (dec_error d msg))"
  by (simp add: within_def dec_error_def)

lemma within_is_error: "is_buf (ds_stream d) \<Longrightarrow> within R d (d\<lparr>ds_stream := is_error (ds_stream d) msg\<rparr>)"
  by (simp add: within_def)

lemma within_map_mem: "is_buf (ds_stream d) \<Longrightarrow> same_outside R (ds_mem d) (g (ds_mem d)) \<Longrightarrow> within R d (map_mem g d)"
  by (simp add: within_def map_mem_def)

lemma within_read_into:
  assumes "is_buf (ds_stream d)" "read_into d a n = (ok, d')" "{a..<a + int (unat n)} \<subseteq> R"
  shows "within R d d'"
proof -
  obtain bs s where r: "pb_read (ds_stream d) n = (ok, bs, s)" "d' = d\<lparr>ds_stream := s, ds_mem := store (ds_mem d) a bs\<rparr>"
    using assms(2) by (auto simp: read_into_def split: prod.splits)
  note h = read_sheds [OF assms(1) r(1)]
  have "int (length bs) \<le> int (unat n)" using h(3) by (simp only: of_nat_le_iff)
  then have "{a..<a + int (length bs)} \<subseteq> R" using assms(3) by fastforce
  then show ?thesis using h r by (simp add: within_def same_outside_store)
qed

section \<open>The field decoders\<close>

text \<open>The data types that hold their value in the structure, with the sizes that the generator gives them.\<close>

definition plain_type :: "pb_field \<Rightarrow> bool" where
  "plain_type f \<longleftrightarrow> (let t = PB_LTYPE (fd_type f) in
     t = PB_LTYPE_VARINT \<or> t = PB_LTYPE_UVARINT \<or> t = PB_LTYPE_SVARINT \<or> t = PB_LTYPE_BYTES \<or>
     t = PB_LTYPE_STRING \<or> t = PB_LTYPE_FIXED_LENGTH_BYTES \<or>
     t = PB_LTYPE_FIXED32 \<and> fd_data_size f = 4 \<or> t = PB_LTYPE_FIXED64 \<and> fd_data_size f = 8)"

lemma int_range_of_nat: "{a..<a + int n} \<subseteq> R \<Longrightarrow> k \<le> n \<Longrightarrow> {a..<a + int k} \<subseteq> R"
  by fastforce

lemma same_outside_store_int:
  "{a..<a + int (unat sz)} \<subseteq> R \<Longrightarrow> same_outside R m (store m a (le_bytes (unat sz) v))"
  by (rule same_outside_store) simp


abbreviation (input) field_room :: "pb_field \<Rightarrow> int \<Rightarrow> int set" where
  "field_room f a \<equiv> {a..<a + int (unat (fd_data_size f))}"

lemmas decoder_frames = Let_def store_int_def dec_error_def within_def map_mem_def same_outside_store_int

lemma confined_ints:
  assumes room: "field_room f a \<subseteq> R"
  shows "confined R (pb_dec_varint f a)" "confined R (pb_dec_uvarint f a)" "confined R (pb_dec_svarint f a)"
proof -
  note frame = decoder_frames same_outside_store_int [OF room]
  show "confined R (pb_dec_varint f a)" unfolding pb_dec_varint_def
    by (rule confined_value [OF varint_sheds]) (auto simp: frame)
  show "confined R (pb_dec_uvarint f a)" unfolding pb_dec_uvarint_def
    by (rule confined_value [OF varint_sheds]) (auto simp: frame)
  show "confined R (pb_dec_svarint f a)" unfolding pb_dec_svarint_def
    by (rule confined_value [OF svarint_sheds]) (auto simp: frame)
qed

lemma confined_fixed:
  assumes room: "field_room f a \<subseteq> R"
  shows "fd_data_size f = 4 \<Longrightarrow> confined R (pb_dec_fixed32 f a)"
    "fd_data_size f = 8 \<Longrightarrow> confined R (pb_dec_fixed64 f a)"
proof -
  show "confined R (pb_dec_fixed32 f a)" if "fd_data_size f = 4"
    unfolding pb_dec_fixed32_def using room that
    by (intro confined_value [OF fixed_sheds(1)]) (auto simp: within_def map_mem_def intro!: same_outside_stores)
  show "confined R (pb_dec_fixed64 f a)" if "fd_data_size f = 8"
    unfolding pb_dec_fixed64_def using room that
    by (intro confined_value [OF fixed_sheds(2)]) (auto simp: within_def map_mem_def intro!: same_outside_store)
qed

lemma confined_fixed_length:
  assumes room: "field_room f a \<subseteq> R"
  shows "confined R (pb_dec_fixed_length_bytes f a)"
  unfolding pb_dec_fixed_length_bytes_def
proof (rule confined_value [OF varint32_sheds])
  fix sz and d :: "'a dec"
  assume b: "is_buf (ds_stream d)"
  obtain ok d' where r: "read_into d a (ucast (fd_data_size f)) = (ok, d')" by (cases "read_into d a (ucast (fd_data_size f))")
  have "within R d d'" by (rule within_read_into [OF b r]) (use room in simp)
  moreover have "within R d (map_mem (\<lambda>m. store m a (replicate (unat (fd_data_size f)) 0)) d)"
    by (rule within_map_mem [OF b]) (use room in \<open>auto intro!: same_outside_store\<close>)
  ultimately show "\<exists>ok d'. (if sz = 0 then Some (True, map_mem (\<lambda>m. store m a (replicate (unat (fd_data_size f)) 0)) d)
      else if sz \<noteq> fd_data_size f then Some (dec_error d ''incorrect fixed length bytes size'')
      else Some (read_into d a (ucast (fd_data_size f)))) = Some (ok, d') \<and> within R d d'"
    using r b within_is_error [OF b] by (simp add: dec_error_def ex_bool_eq)
qed

lemma confined_bytes:
  assumes room: "field_room f a \<subseteq> R" and static: "PB_ATYPE (fd_type f) \<noteq> PB_ATYPE_POINTER"
  shows "confined R (pb_dec_bytes env f a)"
  unfolding pb_dec_bytes_def Let_def
proof (rule confined_value [OF varint32_sheds])
  fix sz :: u32 and d :: "'a dec"
  assume b: "is_buf (ds_stream d)"
  let ?alloc = "PB_BYTES_ARRAY_T_ALLOCSIZE (ucast sz)" and ?d = "map_mem (\<lambda>m. store_u32 m a sz) d"
  have alloc: "unat ?alloc = unat sz + 4"
    using unat_u32_less [of sz] unat_add_small [of "ucast sz" 4] by (simp add: PB_BYTES_ARRAY_T_ALLOCSIZE_def)
  obtain ok d' where r: "read_into ?d (a + 4) (ucast sz) = (ok, d')" by (cases "read_into ?d (a + 4) (ucast sz)")
  have "within R d d'" if "\<not> ucast (fd_data_size f) < ?alloc"
  proof -
    have le: "unat sz + 4 \<le> unat (fd_data_size f)" using that alloc by (simp add: word_less_nat_alt)
    have "within R d ?d"
      by (rule within_map_mem [OF b], rule same_outside_stores) (use int_range_of_nat [OF room, of 4] le in simp)
    moreover have "is_buf (ds_stream ?d)" using b by (simp add: map_mem_def)
    moreover have "int (unat sz) + 4 \<le> int (unat (fd_data_size f))" using le by linarith
    then have "{a + 4..<a + 4 + int (unat (ucast sz :: u64))} \<subseteq> R" using room by fastforce
    ultimately show ?thesis using within_read_into [OF _ r, of R] within_trans by blast
  qed
  then show "\<exists>ok d'. (if ?alloc < ucast sz then Some (dec_error d ''size too large'')
      else if PB_ATYPE (fd_type f) = PB_ATYPE_POINTER
           then and_then (Some (allocate_field env d a ?alloc 1))
             (\<lambda>d. Some (read_into (map_mem (\<lambda>m. store_u32 m (load_ptr (ds_mem d) a) sz) d)
                     (load_ptr (ds_mem d) a + 4) (ucast sz)))
      else if ucast (fd_data_size f) < ?alloc then Some (dec_error d ''bytes overflow'')
      else Some (read_into ?d (a + 4) (ucast sz))) = Some (ok, d') \<and> within R d d'"
    using r static within_is_error [OF b] by (simp add: dec_error_def ex_bool_eq)
qed

lemma if_error_or:
  assumes "t \<noteq> PB_ATYPE_POINTER" "is_buf (ds_stream d)" "r = (ok, d')" "\<not> c2 \<Longrightarrow> \<not> c1 \<Longrightarrow> within R d (g d')"
  shows "\<exists>ok d'. (if c1 then Some (dec_error d e1) else if t = PB_ATYPE_POINTER then p
      else if c2 then Some (dec_error d e2)
      else (case r of (status, d') \<Rightarrow> Some (status, g d'))) = Some (ok, d') \<and> within R d d'"
  using assms within_is_error [OF assms(2)] by (simp add: dec_error_def ex_bool_eq)

lemma confined_string:
  assumes room: "field_room f a \<subseteq> R" and static: "PB_ATYPE (fd_type f) \<noteq> PB_ATYPE_POINTER"
  shows "confined R (pb_dec_string env f a)"
  unfolding pb_dec_string_def Let_def
proof (rule confined_value [OF varint32_sheds])
  fix sz :: u32 and d :: "'a dec"
  assume b: "is_buf (ds_stream d)"
  let ?alloc = "ucast (sz + 1) :: u64"
  obtain ok d' where r: "read_into d a (ucast sz) = (ok, d')" by (cases "read_into d a (ucast sz)")
  let ?d = "map_mem (\<lambda>m. store m (a + uint sz) [0]) d'"
  have w: "within R d (map_mem (\<lambda>m. store m (a + uint sz) [0]) d')" if "\<not> ucast (fd_data_size f) < ?alloc" "\<not> ?alloc < ucast sz"
  proof -
    have "sz + 1 \<noteq> 0"
    proof
      assume z: "sz + 1 = 0"
      then have "unat sz = 0" using that(2) by (simp add: word_less_nat_alt)
      then show False using z by (simp add: unat_eq_zero)
    qed
    then have "unat (sz + 1) = unat sz + 1" using unatSuc [of sz] by (simp add: add.commute)
    then have le: "unat sz + 1 \<le> unat (fd_data_size f)" using that(1) by (simp add: word_less_nat_alt)
    then have lt: "int (unat sz) < int (unat (fd_data_size f))" by linarith
    have "{a..<a + int (unat (ucast sz :: u64))} \<subseteq> R" using room lt by fastforce
    from within_read_into [OF b r this] have wr: "within R d d'" .
    have "0 \<le> int (unat sz)" by simp
    then have "a + uint sz \<in> R" using room lt unfolding uint_nat by (intro subsetD [OF room]) simp
    then have "{a + uint sz..<a + uint sz + int (length [0 :: byte])} \<subseteq> R" by auto
    then have "same_outside R (ds_mem d') (store (ds_mem d') (a + uint sz) [0])" by (rule same_outside_store)
    moreover have "is_buf (ds_stream d')" using wr by (simp add: within_def)
    ultimately have "within R d' ?d" by (intro within_map_mem)
    with wr show ?thesis by (rule within_trans)
  qed
  from if_error_or [where g = "map_mem (\<lambda>m. store m (a + uint sz) [0])", OF static b r w]
  show "\<exists>ok d'. (if ?alloc < ucast sz then Some (dec_error d ''size too large'')
      else if PB_ATYPE (fd_type f) = PB_ATYPE_POINTER
           then and_then (Some (allocate_field env d a ?alloc 1))
             (\<lambda>d. case read_into d (load_ptr (ds_mem d) a) (ucast sz) of
                (status, d') \<Rightarrow> Some (status, map_mem (\<lambda>m. store m (load_ptr (ds_mem d) a + uint sz) [0]) d'))
      else if ucast (fd_data_size f) < ?alloc then Some (dec_error d ''string overflow'')
      else (case read_into d a (ucast sz) of
              (status, d') \<Rightarrow> Some (status, map_mem (\<lambda>m. store m (a + uint sz) [0]) d'))) = Some (ok, d') \<and> within R d d'"
    by blast
qed

lemma confined_plain:
  assumes "plain_type f" "field_room f a \<subseteq> R" "PB_ATYPE (fd_type f) \<noteq> PB_ATYPE_POINTER"
  shows "confined R (call_decoder (PB_DECODERS env n rec (PB_LTYPE (fd_type f))) f a)"
proof -
  have "PB_DECODERS env n rec PB_LTYPE_BYTES = Some (pb_dec_bytes env)"
    "PB_DECODERS env n rec PB_LTYPE_FIXED_LENGTH_BYTES = Some pb_dec_fixed_length_bytes"
    by (simp_all add: PB_DECODERS_def)
  then show ?thesis
    using assms confined_ints [OF assms(2)] confined_fixed [OF assms(2)] confined_fixed_length [OF assms(2)]
      confined_bytes [OF assms(2,3)] confined_string [OF assms(2,3)]
    unfolding plain_type_def Let_def
    by (elim disjE conjE) (simp_all add: decoders_scalar call_decoder_def [abs_def])
qed

section \<open>A static field\<close>

definition static_field :: "pb_field \<Rightarrow> bool" where
  "static_field f \<longleftrightarrow> plain_type f \<and> PB_ATYPE (fd_type f) = PB_ATYPE_STATIC \<and>
     (PB_HTYPE (fd_type f) = PB_HTYPE_REQUIRED \<or> PB_HTYPE (fd_type f) = PB_HTYPE_OPTIONAL \<or>
      PB_HTYPE (fd_type f) = PB_HTYPE_REPEATED \<and> unat (fd_data_size f) * unat (fd_array_size f) < 2 ^ 32)"

text \<open>The members of the field that the iterator points to are inside the region.\<close>

definition placed :: "int set \<Rightarrow> pb_field_iter \<Rightarrow> bool" where
  "placed R it \<longleftrightarrow>
     (let f = it_field it; repeated = (PB_HTYPE (fd_type f) = PB_HTYPE_REPEATED)
      in {it_pData it..<it_pData it + int (unat (fd_data_size f) * (if repeated then unat (fd_array_size f) else 1))} \<subseteq> R \<and>
         (repeated \<longrightarrow> {it_pSize it..<it_pSize it + 4} \<subseteq> R) \<and>
         (PB_HTYPE (fd_type f) = PB_HTYPE_OPTIONAL \<and> it_pSize it \<noteq> it_pData it \<longrightarrow> it_pSize it \<in> R))"

lemma unat_mult_small: "unat a * unat b < 2 ^ 32 \<Longrightarrow> unat (a * b :: u32) = unat a * unat b"
  by (simp add: unat_word_ariths)

lemma sub_room:
  assumes "{a..<a + int n} \<subseteq> R" "k + l \<le> n"
  shows "{a + int k..<a + int k + int l} \<subseteq> R"
proof -
  have "int k + int l \<le> int n" using assms(2) by (simp only: of_nat_le_iff flip: of_nat_add)
  then have "{a + int k..<a + int k + int l} \<subseteq> {a..<a + int n}" by auto
  then show ?thesis using assms(1) by (rule order_trans)
qed

lemma item_room:
  assumes "{a..<a + int (unat (fd_data_size f) * unat (fd_array_size f))} \<subseteq> R"
    and i: "i < fd_array_size f" and small: "unat (fd_data_size f) * unat (fd_array_size f) < 2 ^ 32"
  shows "field_room f (item_addr a f i) \<subseteq> R"
proof -
  let ?s = "unat (fd_data_size f)"
  have "Suc (unat i) \<le> unat (fd_array_size f)" using i by (simp add: word_less_nat_alt)
  then have le: "?s * unat i + ?s \<le> ?s * unat (fd_array_size f)" using mult_le_mono2 [of "Suc (unat i)" "unat (fd_array_size f)" ?s] by (simp add: add.commute)
  then have "unat (fd_data_size f * i) = ?s * unat i" using small by (intro unat_mult_small) simp
  then have addr: "item_addr a f i = a + int (?s * unat i)" by (simp only: item_addr_def uint_nat)
  show ?thesis using sub_room [OF assms(1) le] by (simp only: addr)
qed

lemma static_packed_confined:
  assumes dec: "\<And>i. i < fd_array_size (it_field it) \<Longrightarrow> confined R (call_decoder func (it_field it) (item_addr (it_pData it) (it_field it) i))"
    and sz: "{it_pSize it..<it_pSize it + 4} \<subseteq> R"
  shows "is_buf (ds_stream d) \<Longrightarrow> left_of (ds_stream d) < k \<Longrightarrow>
    \<exists>ok d'. static_packed func it k d = Some (ok, d') \<and> within R d d'"
proof (induction k arbitrary: d)
  case (Suc k)
  let ?i = "load_u32 (ds_mem d) (it_pSize it)"
  show ?case
  proof (cases "0 < is_bytes_left (ds_stream d) \<and> ?i < fd_array_size (it_field it)")
    case True
    obtain ok d1 where r: "call_decoder func (it_field it) (item_addr (it_pData it) (it_field it) ?i) d = Some (ok, d1)"
      and w: "within R d d1" and less: "ok \<Longrightarrow> left_of (ds_stream d1) < left_of (ds_stream d)"
      using confinedE [OF dec Suc.prems(1)] True by metis
    let ?d = "map_mem (\<lambda>m. store_u32 m (it_pSize it) (load_u32 m (it_pSize it) + 1)) d1"
    show ?thesis
    proof (cases ok)
      case True
      have b: "is_buf (ds_stream ?d)" and w1: "within R d1 ?d"
        using w sz by (auto simp: within_def map_mem_def intro!: same_outside_stores)
      have "left_of (ds_stream ?d) < k" using less [OF True] Suc.prems(2) by (simp add: map_mem_def)
      from Suc.IH [OF b this] show ?thesis
        using r w w1 True \<open>0 < is_bytes_left (ds_stream d) \<and> ?i < fd_array_size (it_field it)\<close>
        by (auto simp: Let_def dest: within_trans)
    qed (use r w \<open>0 < is_bytes_left (ds_stream d) \<and> ?i < fd_array_size (it_field it)\<close> in \<open>auto simp: Let_def\<close>)
  next
    case False
    then show ?thesis using Suc.prems(1) by (auto simp: Let_def within_def)
  qed
qed simp

lemma confined_static_field:
  assumes f: "static_field (it_field it)" and p: "placed R it"
  shows "confined R (decode_static_field env n rec wt it)"
proof (rule confinedI)
  fix d :: "'a dec"
  assume b: "is_buf (ds_stream d)"
  let ?f = "it_field it" and ?R = "\<lambda>r. \<exists>ok d'. r = Some (ok, d') \<and> within R d d' \<and>
    (ok \<longrightarrow> left_of (ds_stream d') < left_of (ds_stream d))"
  let ?call = "call_decoder (PB_DECODERS env n rec (PB_LTYPE (fd_type ?f))) ?f"
  have pl: "plain_type ?f" "PB_ATYPE (fd_type ?f) \<noteq> PB_ATYPE_POINTER" using f by (simp_all add: static_field_def)
  have at: "confined R (?call a)" if "field_room ?f a \<subseteq> R" for a by (rule confined_plain [OF pl(1) that pl(2)])
  consider (req) "PB_HTYPE (fd_type ?f) = PB_HTYPE_REQUIRED" | (opt) "PB_HTYPE (fd_type ?f) = PB_HTYPE_OPTIONAL"
    | (rep) "PB_HTYPE (fd_type ?f) = PB_HTYPE_REPEATED" "unat (fd_data_size ?f) * unat (fd_array_size ?f) < 2 ^ 32"
    using f by (auto simp: static_field_def)
  then show "?R (decode_static_field env n rec wt it d)"
  proof cases
    case req
    then have "confined R (?call (it_pData it))" using p by (intro at) (simp add: placed_def Let_def)
    from confinedD [OF this b] show ?thesis using req by (simp add: decode_static_field_def Let_def)
  next
    case opt
    then have c: "confined R (?call (it_pData it))" using p by (intro at) (simp add: placed_def Let_def)
    have "confined R (\<lambda>d. ?call (it_pData it) (map_mem (\<lambda>m. store_bool m (it_pSize it) True) d))"
      if "it_pSize it \<noteq> it_pData it"
      using p opt that by (intro confined_after [OF c] same_outside_stores) (simp add: placed_def Let_def)
    from confinedD [OF c b] confinedD [OF this b] show ?thesis using opt
      by (cases "it_pSize it = it_pData it") (simp_all add: decode_static_field_def Let_def)
  next
    case rep
    have sz: "{it_pSize it..<it_pSize it + 4} \<subseteq> R"
      and room: "{it_pData it..<it_pData it + int (unat (fd_data_size ?f) * unat (fd_array_size ?f))} \<subseteq> R"
      using p rep by (simp_all add: placed_def Let_def)
    have item: "confined R (?call (item_addr (it_pData it) ?f i))" if "i < fd_array_size ?f" for i
      by (rule at [OF item_room [OF room that rep(2)]])
    show ?thesis
    proof (cases "wt = PB_WT_STRING \<and> PB_LTYPE (fd_type ?f) \<le> PB_LTYPE_LAST_PACKABLE")
      case True
      obtain r s where mk: "pb_make_string_substream (ds_stream d) = (r, s)" by (cases "pb_make_string_substream (ds_stream d)")
      note h = substream_sheds [OF b mk]
      show ?thesis
      proof (cases r)
        case None
        then show ?thesis using True rep mk h by (auto simp: decode_static_field_def Let_def within_def)
      next
        case (Some sub)
        note hs = h(3) [OF Some]
        have "is_buf (ds_stream (d\<lparr>ds_stream := sub\<rparr>))" using hs by simp
        from static_packed_confined [OF item sz this, where k = "Suc (left_of sub)"]
        obtain ok d' where l: "static_packed (PB_DECODERS env n rec (PB_LTYPE (fd_type ?f))) it (Suc (left_of sub)) (d\<lparr>ds_stream := sub\<rparr>) = Some (ok, d')"
            and w: "within R (d\<lparr>ds_stream := sub\<rparr>) d'" by auto
        have bd: "is_buf (ds_stream d')" using w by (simp add: within_def)
        obtain ok' s' where cl: "pb_close_string_substream s (ds_stream d') = (ok', s')" by (cases "pb_close_string_substream s (ds_stream d')")
        note hc = close_sheds [OF h(1) bd cl]
        show ?thesis using True rep mk Some l cl hc hs h w
          by (auto simp: decode_static_field_def Let_def within_def dec_error_def)
      qed
    next
      case False
      let ?i = "load_u32 (ds_mem d) (it_pSize it)"
      let ?d = "map_mem (\<lambda>m. store_u32 m (it_pSize it) (?i + 1)) d"
      have w: "within R d ?d" by (rule within_map_mem [OF b], rule same_outside_stores(1) [OF sz])
      have bd: "is_buf (ds_stream ?d)" using b by (simp add: map_mem_def)
      show ?thesis
      proof (cases "?i < fd_array_size ?f")
        case True
        from confinedE [OF item [OF True] bd] obtain ok d' where r: "?call (item_addr (it_pData it) ?f ?i) ?d = Some (ok, d')"
          "within R ?d d'" "ok \<Longrightarrow> left_of (ds_stream d') < left_of (ds_stream ?d)" by blast
        moreover have "ds_stream ?d = ds_stream d" by (simp add: map_mem_def)
        ultimately show ?thesis using False True rep within_trans [OF w r(2)]
          by (auto simp: decode_static_field_def Let_def not_le)
      next
        case over: False
        then show ?thesis using False rep within_trans [OF w within_is_error [OF bd]]
          by (auto simp: decode_static_field_def Let_def dec_error_def)
      qed
    qed
  qed
qed

section \<open>The messages\<close>

text \<open>
  A structure inside the region \<open>R\<close> whose fields are all static, without submessages, unions,
  extensions and arrays of a fixed count.
\<close>

definition static_message :: "pb_field list \<Rightarrow> int \<Rightarrow> int set \<Rightarrow> bool" where
  "static_message flds dest R \<longleftrightarrow> wf_fields flds \<and> flds \<noteq> [] \<and>
     (\<forall>i < length flds. static_field (flds ! i) \<and> placed R (iter_at flds dest i) \<and>
        (PB_HTYPE (fd_type (flds ! i)) = PB_HTYPE_REPEATED \<longrightarrow>
           it_pSize (iter_at flds dest i) \<noteq> it_pData (iter_at flds dest i)))"

lemma static_messageD:
  assumes "static_message flds dest R" "i < length flds"
  shows "wf_fields flds" "static_field (flds ! i)" "placed R (iter_at flds dest i)"
    "PB_HTYPE (fd_type (flds ! i)) = PB_HTYPE_REPEATED \<Longrightarrow>
       it_pSize (iter_at flds dest i) \<noteq> it_pData (iter_at flds dest i)"
    "it_field (iter_at flds dest i) = flds ! i"
  using assms by (auto simp: static_message_def iter_at_pos field_at_def simp del: iter_at.simps)

lemma static_type:
  assumes "static_field f"
  shows "PB_LTYPE (fd_type f) \<noteq> PB_LTYPE_EXTENSION" "PB_LTYPE (fd_type f) \<noteq> PB_LTYPE_SUBMESSAGE"
    "PB_HTYPE (fd_type f) \<noteq> PB_HTYPE_ONEOF" "PB_ATYPE (fd_type f) = PB_ATYPE_STATIC"
  using assms by (auto simp: static_field_def plain_type_def Let_def)

definition loop_ok :: "pb_field list \<Rightarrow> int \<Rightarrow> 's dec_loop \<Rightarrow> bool" where
  "loop_ok flds dest L \<longleftrightarrow> is_buf (ds_stream (dl_dec L)) \<and> dl_fixed_count_field L = None \<and>
     (\<exists>j < length flds. dl_iter L = iter_at flds dest j)"

lemma no_extension_field:
  assumes m: "static_message flds dest R" and j: "j < length flds"
  shows "find_extension_field (iter_at flds dest j) = Some (False, iter_at flds dest j)"
proof -
  have "\<not> PB_LTYPE (fd_type (flds ! ((j + k) mod length flds))) = PB_LTYPE_EXTENSION" for k
    by (rule static_type(1) [OF static_messageD(2) [OF m]]) (rule mod_less_divisor, use j in linarith)
  moreover have "flds \<noteq> []" using j by auto
  ultimately show ?thesis
    using iter_find_loop_at [OF static_messageD(1) [OF m j] j, of "length flds" 0 "Suc (length flds)"
        "\<lambda>f. PB_LTYPE (fd_type f) = PB_LTYPE_EXTENSION" dest] j
    by (simp add: find_extension_field_def iter_at_pos [OF static_messageD(1) [OF m j] j] del: iter_find_loop.simps iter_at.simps)
qed

lemma find_stays:
  assumes m: "static_message flds dest R" and j: "j < length flds"
  shows "\<exists>ok i. pb_field_iter_find (iter_at flds dest j) tag = Some (ok, iter_at flds dest i) \<and> i < length flds"
proof -
  have "(j + k) mod length flds < length flds" for k by (rule mod_less_divisor) (use j in linarith)
  then show ?thesis
    using iter_find_at [OF static_messageD(1) [OF m j] j, of dest tag] j
    by (simp del: iter_at.simps) blast
qed

lemma tag_small: "pb_decode_tag s = (Some (wt, tag), eof, s') \<Longrightarrow> tag < - 1"
proof -
  assume "pb_decode_tag s = (Some (wt, tag), eof, s')"
  then obtain x where "tag = drop_bit 3 x" by (auto simp: pb_decode_tag_def split: prod.splits option.splits if_splits)
  then have "unat tag < 2 ^ 29" using unat_u32_less [of x] by (simp add: unat_drop_bit)
  moreover have "unat (- 1 :: u32) = 2 ^ 32 - 1" by (simp add: unsigned_minus_1_eq_mask mask_eq_exp_minus_1)
  ultimately show "tag < - 1" by (simp add: word_less_nat_alt)
qed

definition step_ok :: "pb_field list \<Rightarrow> int \<Rightarrow> int set \<Rightarrow> 's dec_loop \<Rightarrow> 's round option \<Rightarrow> bool" where
  "step_ok flds dest R L r \<longleftrightarrow>
     (case r of None \<Rightarrow> False
      | Some (Break L') \<Rightarrow> loop_ok flds dest L' \<and> within R (dl_dec L) (dl_dec L')
      | Some (Fail d) \<Rightarrow> within R (dl_dec L) d
      | Some (Again L') \<Rightarrow> loop_ok flds dest L' \<and> within R (dl_dec L) (dl_dec L') \<and>
          left_of (ds_stream (dl_dec L')) < left_of (ds_stream (dl_dec L)))"

lemma static_unknown:
  assumes m: "static_message flds dest R" and j: "j < length flds" and tag: "tag < - 1"
    and b: "is_buf (ds_stream (dl_dec L))" and L: "dl_iter L = iter_at flds dest j" "dl_fixed_count_field L = None"
  shows "\<exists>r. decode_unknown env n rec tag wt L = Some r \<and>
    (case r of Fail d \<Rightarrow> within R (dl_dec L) d | Again L' \<Rightarrow> loop_ok flds dest L' \<and> within R (dl_dec L) (dl_dec L') | _ \<Rightarrow> False)"
proof -
  obtain ok s where k: "pb_skip_field (ds_stream (dl_dec L)) wt = (ok, s)" by (cases "pb_skip_field (ds_stream (dl_dec L)) wt")
  have "is_buf s \<and> left_of s \<le> left_of (ds_stream (dl_dec L))" by (rule skip_sheds [OF b k])
  then show ?thesis
    using k L j tag no_extension_field [OF m j]
    by (cases ok) (auto simp: decode_unknown_def Let_def loop_ok_def within_def simp del: iter_at.simps)
qed

lemma static_known:
  assumes m: "static_message flds dest R" and i: "i < length flds"
    and b: "is_buf (ds_stream (dl_dec L))" and L: "dl_iter L = iter_at flds dest i" "dl_fixed_count_field L = None"
  shows "\<exists>r. decode_known env n rec flds wt L = Some r \<and>
    (case r of Fail d \<Rightarrow> within R (dl_dec L) d | Again L' \<Rightarrow> loop_ok flds dest L' \<and> within R (dl_dec L) (dl_dec L') | _ \<Rightarrow> False)"
proof -
  note D = static_messageD [OF m i]
  note t = static_type [OF D(2)]
  have "confined R (decode_static_field env n rec wt (iter_at flds dest i))"
    by (rule confined_static_field) (simp_all only: D)
  from confinedD [OF this b] obtain ok d' where
    "decode_static_field env n rec wt (iter_at flds dest i) (dl_dec L) = Some (ok, d')" "within R (dl_dec L) d'" by blast
  moreover from this have "decode_field env n rec wt (iter_at flds dest i) (dl_dec L) = Some (ok, d', iter_at flds dest i)"
    using t D(5) by (simp add: decode_field_def Let_def del: iter_at.simps)
  moreover have "\<not> (PB_HTYPE (fd_type (flds ! i)) = PB_HTYPE_REPEATED \<and>
      it_pSize (iter_at flds dest i) = it_pData (iter_at flds dest i))" using D(4) by blast
  ultimately show ?thesis using L i D(5)
    by (cases ok) (auto simp: decode_known_def Let_def loop_ok_def within_def simp del: iter_at.simps)
qed

lemma static_round:
  assumes m: "static_message flds dest R" and L: "loop_ok flds dest L"
  shows "step_ok flds dest R L (decode_round env n rec flds L)"
proof -
  from L obtain j where j: "j < length flds" "dl_iter L = iter_at flds dest j" by (auto simp: loop_ok_def)
  have b: "is_buf (ds_stream (dl_dec L))" and nf: "dl_fixed_count_field L = None" using L by (auto simp: loop_ok_def)
  obtain x eof s where t: "pb_decode_tag (ds_stream (dl_dec L)) = (x, eof, s)" by (cases "pb_decode_tag (ds_stream (dl_dec L))")
  note h = tag_sheds [OF b t]
  let ?d = "(dl_dec L)\<lparr>ds_stream := s\<rparr>"
  show ?thesis
  proof (cases x)
    case None
    then show ?thesis using t h j nf by (auto simp: decode_round_def Let_def step_ok_def loop_ok_def within_def simp del: iter_at.simps)
  next
    case (Some wtag)
    obtain wt tag where wt: "wtag = (wt, tag)" by (cases wtag)
    obtain ok i where f: "pb_field_iter_find (dl_iter L) tag = Some (ok, iter_at flds dest i)" "i < length flds"
      using find_stays [OF m j(1), of tag] j(2) by auto
    let ?L = "L\<lparr>dl_dec := ?d, dl_iter := iter_at flds dest i\<rparr>"
    have bL: "is_buf (ds_stream (dl_dec ?L))" using h by simp
    have less: "left_of s < left_of (ds_stream (dl_dec L))" using h Some by simp
    have "tag < - 1" by (rule tag_small) (use t Some wt in auto)
    obtain r where r: "(if ok then decode_known env n rec flds wt ?L else decode_unknown env n rec tag wt ?L) = Some r"
      "case r of Fail d \<Rightarrow> within R (dl_dec ?L) d | Again L' \<Rightarrow> loop_ok flds dest L' \<and> within R (dl_dec ?L) (dl_dec L') | _ \<Rightarrow> False"
      using static_known [OF m f(2) bL, of env n rec wt] static_unknown [OF m f(2) \<open>tag < - 1\<close> bL, of env n rec wt] nf
      by (cases ok) auto
    have "decode_round env n rec flds L = Some r"
      using t Some wt f r(1) by (simp add: decode_round_def Let_def split: if_splits)
    then show ?thesis using r(2) less by (auto simp: step_ok_def within_def split: round.splits)
  qed
qed

lemma static_loop:
  assumes m: "static_message flds dest R"
  shows "loop_ok flds dest L \<Longrightarrow> left_of (ds_stream (dl_dec L)) < k \<Longrightarrow>
    \<exists>r. decode_loop (decode_round env n rec flds) k L = Some r \<and>
      (case r of Inl d \<Rightarrow> within R (dl_dec L) d | Inr L' \<Rightarrow> loop_ok flds dest L' \<and> within R (dl_dec L) (dl_dec L'))"
proof (induction k arbitrary: L)
  case (Suc k)
  show ?case
  proof (cases "is_bytes_left (ds_stream (dl_dec L)) = 0")
    case True
    then show ?thesis using Suc.prems(1) by (simp add: within_def loop_ok_def)
  next
    case False
    from static_round [OF m Suc.prems(1), of env n rec] obtain r where
      r: "decode_round env n rec flds L = Some r" "step_ok flds dest R L (Some r)"
      by (auto simp: step_ok_def split: option.splits)
    show ?thesis
    proof (cases r)
      case (Again L')
      then have h: "loop_ok flds dest L'" "within R (dl_dec L) (dl_dec L')" "left_of (ds_stream (dl_dec L')) < k"
        using r(2) Suc.prems(2) by (auto simp: step_ok_def)
      from Suc.IH [OF h(1,3)] show ?thesis using False r(1) Again within_trans [OF h(2)]
        by (fastforce split: sum.splits)
    qed (use False r in \<open>simp_all add: step_ok_def\<close>)
  qed
qed simp

lemma to_last_returns:
  assumes wf: "wf_fields flds"
  shows "i < length flds \<Longrightarrow> length flds - i \<le> n \<Longrightarrow> \<exists>c t. to_last_field n (iter_at flds dest i) = Some (c, t, iter_at flds dest 0)"
proof (induction "length flds - i" arbitrary: i n)
  case (Suc r)
  then obtain n' where n: "n = Suc n'" by (cases n) auto
  note nx = next_iter_at [OF wf Suc.prems(1), of dest]
  show ?case
  proof (cases "Suc i < length flds")
    case True
    have "\<exists>c t. to_last_field n' (iter_at flds dest (Suc i)) = Some (c, t, iter_at flds dest 0)"
      by (rule Suc.hyps(1)) (use Suc n True in simp_all)
    then show ?thesis using nx True by (simp add: n del: iter_at.simps)
  qed (use nx n in \<open>simp del: iter_at.simps\<close>)
qed simp

lemma check_required_returns:
  assumes m: "static_message flds dest R" and L: "loop_ok flds dest L"
  shows "\<exists>ok d. check_required L = Some (ok, d) \<and> within R (dl_dec L) d"
proof -
  from L obtain j where j: "j < length flds" "dl_iter L = iter_at flds dest j" by (auto simp: loop_ok_def)
  have b: "is_buf (ds_stream (dl_dec L))" using L by (simp add: loop_ok_def)
  obtain c t where "to_last_field (Suc (length flds)) (iter_at flds dest j) = Some (c, t, iter_at flds dest 0)"
    using to_last_returns [OF static_messageD(1) [OF m j(1)] j(1) le_SucI [OF diff_le_self]] by blast
  moreover have "within R (dl_dec L) (dl_dec L)" using b by (simp add: within_def)
  ultimately show ?thesis using j(2) within_is_error [OF b]
    by (simp add: check_required_def Let_def dec_error_def ex_bool_eq del: to_last_field.simps iter_at.simps)
qed

lemma static_decode_noinit:
  assumes m: "static_message flds dest R" and slot: "{count_slot n..<count_slot n + 4} \<subseteq> R"
    and b: "is_buf (ds_stream d)"
  shows "\<exists>ok d'. pb_decode_noinit env (Suc n) flds dest d = Some (ok, d') \<and> within R d d'"
proof -
  let ?d = "map_mem (\<lambda>m. store_u32 m (count_slot n) 0) d"
  let ?L = "\<lparr>dl_dec = ?d, dl_iter = snd (pb_field_iter_begin flds dest), dl_fields_seen = [0, 0],
      dl_extension_range_start = 0, dl_fixed_count_field = None\<rparr>"
  have w: "within R d ?d" by (rule within_map_mem [OF b], rule same_outside_stores(1) [OF slot])
  have "loop_ok flds dest ?L" using b m by (auto simp: loop_ok_def map_mem_def static_message_def intro!: exI [of _ 0])
  moreover have dL: "dl_dec ?L = ?d" "left_of (ds_stream ?d) = left_of (ds_stream d)" by (simp_all add: map_mem_def)
  ultimately obtain r where r: "decode_loop (decode_round env n (pb_decode_noinit env n) flds) (Suc (left_of (ds_stream d))) ?L = Some r"
    and rw: "case r of Inl d \<Rightarrow> within R ?d d | Inr L' \<Rightarrow> loop_ok flds dest L' \<and> within R ?d (dl_dec L')"
    using static_loop [OF m, of ?L "Suc (left_of (ds_stream d))" env n "pb_decode_noinit env n"] unfolding dL by blast
  show ?thesis
  proof (cases r)
    case (Inl d')
    then show ?thesis using r rw within_trans [OF w] by (simp add: Let_def ex_bool_eq del: decode_loop.simps)
  next
    case (Inr L')
    with rw have L': "loop_ok flds dest L'" "within R ?d (dl_dec L')" by simp_all
    then have "\<not> fixed_count_wrong n flds (dl_fixed_count_field L') (ds_mem (dl_dec L'))"
      by (simp add: fixed_count_wrong_def loop_ok_def)
    then show ?thesis using r Inr check_required_returns [OF m L'(1)] within_trans [OF w] within_trans [OF L'(2)]
      by (fastforce simp: Let_def simp del: decode_loop.simps)
  qed
qed

section \<open>Defaults and release\<close>

lemma default_static:
  assumes f: "static_field (it_field it)" and p: "placed R it"
  shows "\<exists>m'. pb_field_set_to_default descr (Suc n) it m = Some m' \<and> same_outside R m m'"
proof -
  let ?f = "it_field it" and ?sz = "unat (fd_data_size (it_field it))"
  note t = static_type [OF f]
  consider (req) "PB_HTYPE (fd_type ?f) = PB_HTYPE_REQUIRED" | (opt) "PB_HTYPE (fd_type ?f) = PB_HTYPE_OPTIONAL"
    | (rep) "PB_HTYPE (fd_type ?f) = PB_HTYPE_REPEATED"
    using f by (auto simp: static_field_def)
  then show ?thesis
  proof cases
    case rep
    then have "{it_pSize it..<it_pSize it + 4} \<subseteq> R" using p by (simp add: placed_def Let_def)
    then show ?thesis using t rep by (simp add: Let_def same_outside_stores)
  next
    case req
    then have room: "field_room ?f (it_pData it) \<subseteq> R" using p by (simp add: placed_def Let_def)
    then have "same_outside R m (store m (it_pData it) bs)" if "length bs = ?sz" for bs m
      using that by (intro same_outside_store) simp
    then show ?thesis using t req by (simp add: Let_def)
  next
    case opt
    then have room: "field_room ?f (it_pData it) \<subseteq> R" using p by (simp add: placed_def Let_def)
    then have st: "same_outside R m (store m (it_pData it) bs)" if "length bs = ?sz" for bs m
      using that by (intro same_outside_store) simp
    have "same_outside R m (store_bool m (it_pSize it) False)" if "it_pSize it \<noteq> it_pData it"
      using p opt that by (intro same_outside_stores) (simp add: placed_def Let_def)
    then show ?thesis using t opt by (simp add: Let_def st same_outside_trans [OF _ st])
  qed
qed

lemma release_static:
  "static_field (it_field it) \<Longrightarrow> pb_release_single_field env (Suc n) it m = Some m"
  using static_type [of "it_field it"] by (simp add: Let_def)

lemma defaults_static_message:
  assumes m: "static_message flds dest R"
  shows "\<exists>mem'. pb_message_set_to_defaults descr (Suc (Suc n)) flds dest mem = Some mem' \<and> same_outside R mem mem'"
proof -
  have ne: "0 < length flds" using m by (simp add: static_message_def)
  note wf = static_messageD(1) [OF m ne]
  have "\<exists>m'. each_field (pb_field_set_to_default descr (Suc n)) (length flds - 0) (iter_at flds dest 0) mem = Some m' \<and> same_outside R mem m'"
  proof (rule each_field_at [OF wf])
    fix i m0 assume i: "i < length flds" and s: "same_outside R mem m0"
    note D = static_messageD [OF m i]
    have "static_field (it_field (iter_at flds dest i))" using D(2,5) by simp
    from default_static [OF this D(3), of descr n m0]
    show "\<exists>m'. pb_field_set_to_default descr (Suc n) (iter_at flds dest i) m0 = Some m' \<and> same_outside R mem m'"
      using same_outside_trans [OF s] by blast
  qed (use ne in simp_all)
  with begin_at [OF wf] ne show ?thesis by (simp del: iter_at.simps pb_field_set_to_default.simps)
qed

lemma release_static_message:
  assumes m: "static_message flds dest R"
  shows "pb_release env (Suc (Suc n)) flds dest mem = Some mem"
proof -
  have ne: "0 < length flds" using m by (simp add: static_message_def)
  note wf = static_messageD(1) [OF m ne]
  have "\<exists>m'. each_field (pb_release_single_field env (Suc n)) (length flds - 0) (iter_at flds dest 0) mem = Some m' \<and> m' = mem"
  proof (rule each_field_at [OF wf])
    fix i m0 assume i: "i < length flds" and s: "m0 = mem"
    note D = static_messageD [OF m i]
    have "static_field (it_field (iter_at flds dest i))" using D(2,5) by simp
    from release_static [OF this] show "\<exists>m'. pb_release_single_field env (Suc n) (iter_at flds dest i) m0 = Some m' \<and> m' = mem"
      using s by blast
  qed (use ne in simp_all)
  with begin_at [OF wf] ne show ?thesis by (simp del: iter_at.simps pb_release_single_field.simps)
qed

lemma static_decode:
  assumes m: "static_message flds dest R" and slot: "{count_slot (Suc n)..<count_slot (Suc n) + 4} \<subseteq> R"
    and b: "is_buf (ds_stream d)"
  shows "\<exists>ok d'. pb_decode env (Suc (Suc n)) flds dest d = Some (ok, d') \<and> within R d d'"
proof -
  obtain m1 where m1: "pb_message_set_to_defaults (de_descr env) (Suc (Suc n)) flds dest (ds_mem d) = Some m1"
    "same_outside R (ds_mem d) m1"
    using defaults_static_message [OF m] by blast
  let ?d = "d\<lparr>ds_mem := m1\<rparr>"
  have "is_buf (ds_stream ?d)" using b by simp
  from static_decode_noinit [OF m slot this, of env] obtain ok d' where
    r: "pb_decode_noinit env (Suc (Suc n)) flds dest ?d = Some (ok, d')" "within R ?d d'" by blast
  have "within R d ?d" using m1(2) b by (simp add: within_def)
  then have "within R d d'" using r(2) by (rule within_trans)
  moreover have "d'\<lparr>ds_mem := ds_mem d'\<rparr> = d'" by simp
  ultimately show ?thesis using r(1) m1(1) release_static_message [OF m, of env n "ds_mem d'"]
    unfolding pb_decode_def decode_with_def with_mem_def
    by (cases ok) (simp_all del: pb_decode_noinit.simps pb_release.simps pb_message_set_to_defaults.simps add: ex_bool_eq)
qed

end
