(* ===== verification/PbEncodeProps.thy ===== *)
theory PbEncodeProps
  imports PbEncodeSpec
begin

text \<open>
  The properties of the message encoder: it writes the reference encoding and nothing else, reports a
  buffer that is too small, computes exact sizes and ends; and a sample message that shows them at work.
\<close>

section \<open>Callbacks that write a string\<close>

text \<open>
  The usual encode callback: write the tag of the field, then a string that it keeps elsewhere (here
  by function pointer). Extension types keep the default encoder.
\<close>

definition string_env :: "(int \<Rightarrow> pb_field list) \<Rightarrow> (int \<Rightarrow> byte list) \<Rightarrow> 's enc_env" where
  "string_env descr cstr =
     \<lparr>ee_descr = descr,
      ee_callback = (\<lambda>p s field arg.
        if length (cstr p) < 2 ^ 64
        then and_then (Some (pb_encode_tag_for_field s field))
               (\<lambda>s. Some (pb_encode_string s (cstr p) (of_nat (length (cstr p)))))
        else Some (False, s)),
      ee_extension = (\<lambda>p s ext. None)\<rparr>"

definition string_spec :: "(int \<Rightarrow> byte list) \<Rightarrow> cb_spec" where
  "string_spec cstr =
     \<lparr>cs_callback = (\<lambda>p field arg.
        if length (cstr p) < 2 ^ 64 then e_then (tag_bytes field) (Some (string_bytes (cstr p), True)) else None),
      cs_extension = (\<lambda>p ext. None)\<rparr>"

interpretation string_cb: enc_callbacks "string_env descr cstr" "string_spec cstr"
  for descr :: "int \<Rightarrow> pb_field list" and cstr :: "int \<Rightarrow> byte list"
proof
  fix p field arg
  show "implements (\<lambda>s. ee_callback (string_env descr cstr) p s field arg) (cs_callback (string_spec cstr) p field arg)"
  proof (cases "length (cstr p) < 2 ^ 64")
    case True
    then have "unat (of_nat (length (cstr p)) :: u64) = length (cstr p)" by (simp add: unat_u64_of_nat)
    with True show ?thesis unfolding string_env_def string_spec_def
      by (simp add: implements_seq tag_implements emits_string)
  qed (simp add: string_spec_def)
qed (simp add: string_spec_def)

lemma string_env_returns: "callbacks_return (string_env descr cstr)"
  unfolding callbacks_return_def
proof (intro allI)
  show "ee_callback (string_env descr cstr) p s f a \<noteq> None" for p s f a
    unfolding string_env_def enc_env.simps returns_def [symmetric] by (intro returns_intros)
qed


section \<open>Properties\<close>

text \<open>
  C20: The encoder refines the reference encoding: when the bytes of a message fit into the buffer,
  encoding succeeds, the buffer starts with exactly these bytes, and the rest of it is unchanged.
  The callbacks are assumed to write what their specification says.
\<close>
theorem pb_encode_correct:
  assumes "enc_callbacks env cs"
    and "message_bytes (ee_descr env) cs m fuel flds src = Some (bs, True)"
    and "length bs \<le> unat bufsize"
  shows "\<exists>t. pb_encode env m fuel (pb_ostream_from_buffer buf bufsize) flds src = Some (True, t) \<and>
    unat (os_bytes_written t) = length bs \<and>
    (\<forall>i. fst (os_state t) i = (if i < length bs then bs ! i else buf i))"
  using assms by (rule encode_fits)

text \<open>
  C21: When the bytes of a message do not fit into the buffer, encoding returns false, and no byte
  behind the end of the buffer is written.
\<close>
theorem pb_encode_never_overruns:
  assumes "enc_callbacks env cs"
    and "message_bytes (ee_descr env) cs m fuel flds src = Some (bs, ok)"
    and "unat bufsize < length bs" "length bs < 2 ^ 64"
  shows "\<exists>t. pb_encode env m fuel (pb_ostream_from_buffer buf bufsize) flds src = Some (False, t) \<and>
    (\<forall>i \<ge> unat bufsize. fst (os_state t) i = buf i)"
proof -
  let ?s = "pb_ostream_from_buffer buf bufsize"
  have s: "os_wf ?s" "\<not> os_room ?s (length bs)" "os_bytes_written ?s = 0" "os_callback ?s = Some buf_write"
    "os_state ?s = (buf, 0)" "os_max_size ?s = bufsize"
    using assms(3) by (simp_all add: pb_ostream_from_buffer_def os_wf_def os_room_def)
  have "emits (\<lambda>s. pb_encode env m fuel s flds src) (bs, ok)"
    using enc_callbacks.message_implements [OF assms(1), of m fuel flds src] assms(2) by simp
  then obtain t where "pb_encode env m fuel ?s flds src = Some (False, t)" "os_keeps ?s t"
    using s(1,2,3) assms(4) unfolding emits_def emits_at_def by fastforce
  with s show ?thesis by (auto simp: os_keeps_def)
qed

text \<open>
  C25: \<^verbatim>\<open>pb_get_encoded_size\<close> returns the exact number of bytes that encoding writes, and the delimited
  encoding is the same message behind that number.
\<close>
theorem encoded_size_exact:
  assumes "enc_callbacks env cs"
    and "message_bytes (ee_descr env) cs m fuel flds src = Some (bs, True)" "length bs < 2 ^ 64"
  shows "pb_get_encoded_size env m fuel null flds src = Some (Some (of_nat (length bs))) \<and>
    emits (\<lambda>s. pb_encode_delimited env m fuel s flds src) (varint_bytes (length bs) @ bs, True)"
proof -
  have im: "implements (\<lambda>s. pb_encode env m fuel s flds src) (Some (bs, True))"
    using enc_callbacks.message_implements [OF assms(1), of m fuel flds src] assms(2) by simp
  then have "pb_encode env m fuel (PB_OSTREAM_SIZING null) flds src
      = Some (True, os_put (PB_OSTREAM_SIZING null) bs)"
    using emits_sizing [of _ bs True, OF _ assms(3)] by simp
  moreover have "implements (\<lambda>s. pb_encode_delimited env m fuel s flds src) (e_string (Some (bs, True)))"
    unfolding pb_encode_delimited_def using implements_submessage [where rec = "pb_encode env m fuel"] im by blast
  ultimately show ?thesis
    by (simp add: pb_get_encoded_size_def e_string_def string_bytes_def)
qed

text \<open>
  C26: Encoding ends for every message type with well-formed field tables, without extension fields, whose
  unions have a nonzero size offset and whose submessage types nest to a bounded depth, on every
  stream and every content of the memory, with that depth as the fuel, provided the callbacks return.
\<close>
theorem pb_encode_terminates:
  assumes "callbacks_return env" "nests (ee_descr env) n flds"
  shows "\<exists>ok t. pb_encode env m n s flds src = Some (ok, t)"
  using encode_returns [OF assms, of m s src] by (auto simp: returns_def)

lemma and_then_return: "and_then r (\<lambda>s. Some (True, s)) = r"
  by (auto simp: and_then_def split: option.splits prod.splits if_splits)

text \<open>The check of one such field: it compares the lowest byte of the pointer.\<close>

lemma string_pointer_default:
  assumes "fd_type f = PB_ATYPE_POINTER OR PB_HTYPE_OPTIONAL OR PB_LTYPE_STRING"
    and "fd_size_offset f = 0" "fd_data_size f = 1"
  shows "pb_check_proto3_default_value descr m fuel f p = Some (load_ptr m p mod 256 = 0)"
proof -
  have "load_ptr m p = int (unat (mbytes m p) + 256 * le_val (map (\<lambda>i. mbytes m (p + int i)) [1..<8]))"
    by (simp add: load_ptr_def load_def upt_conv_Cons)
  then have "load_ptr m p mod 256 = int ((unat (mbytes m p) + 256 * le_val (map (\<lambda>i. mbytes m (p + int i)) [1..<8])) mod 256)"
    by (simp only: of_nat_mod of_nat_numeral)
  also have "\<dots> = int (unat (mbytes m p))"
    using unat_byte_less [of "mbytes m p"] by (simp del: int_plus of_nat_mod)
  finally have "load_ptr m p mod 256 = 0 \<longleftrightarrow> mbytes m p = 0" by (simp only: of_nat_eq_0_iff unat_eq_0)
  then show ?thesis using assms
    by (subst pb_check_proto3_default_value.simps)
      (simp add: Let_def PB_ATYPE_def PB_HTYPE_def PB_LTYPE_def load_def)
qed

text \<open>
  C30: A proto3 submessage whose only field is a string behind a pointer is encoded exactly when the lowest
  byte of the pointer is not zero, because the check for the default value compares as many bytes as one
  element has. So when the string is at an address divisible by 256, encoding the outer message succeeds
  and writes nothing: neither the tag of the submessage nor the string.
\<close>
theorem proto3_pointer_check_one_byte:
  assumes f: "f = PB_SINGULAR_STATIC tag member offset PB_LTYPE_SUBMESSAGE ptr" "tag \<noteq> 0" "ptr \<noteq> 0"
    and g: "ee_descr env ptr = [PB_OPTIONAL_POINTER tag' member' offset' PB_LTYPE_STRING ptr']" "tag' \<noteq> 0"
      "pb_elemsize member' = 1"
    and sub: "sub = it_pData (iter_at [f] src 0)"
    and str: "str = load_ptr m (it_pData (iter_at (ee_descr env ptr) sub 0))"
  shows "pb_encode env m (Suc (Suc k)) s [f] src =
    (if str mod 256 = 0 then Some (True, s)
     else and_then (Some (pb_encode_tag_for_field s f))
            (\<lambda>s. pb_encode_submessage (pb_encode env m (Suc k)) s (ee_descr env ptr) sub))"
proof -
  let ?g = "PB_OPTIONAL_POINTER tag' member' offset' PB_LTYPE_STRING ptr'"
  have wf: "wf_fields [f]" "wf_fields [?g]"
    using f(1,2) g(2) by (simp_all add: wf_fields_def PB_SINGULAR_STATIC_def PB_OPTIONAL_POINTER_def)
  have check: "pb_check_proto3_default_value (ee_descr env) m (Suc n) f sub = Some (str mod 256 = 0)" for n
  proof -
    have "pb_check_proto3_default_value (ee_descr env) m n ?g (it_pData (iter_at [?g] sub 0)) = Some (str mod 256 = 0)"
      unfolding str g(1) using g(3) by (intro string_pointer_default) (simp_all add: PB_OPTIONAL_POINTER_def)
    moreover have "pb_field_iter_next (iter_at [?g] sub 0) = (False, iter_at [?g] sub 0)"
      using next_iter_at [OF wf(2), of 0 sub] by simp
    ultimately have "all_default (pb_check_proto3_default_value (ee_descr env) m n) 1 (iter_at [?g] sub 0) = Some (str mod 256 = 0)"
      by (cases "str mod 256 = 0") (simp_all add: One_nat_def field_at_def iter_at_pos [OF wf(2)] del: iter_at.simps)
    moreover have "pb_field_iter_begin [?g] sub = (True, iter_at [?g] sub 0)"
      using g(2) by (simp add: pb_field_iter_begin_def Let_def field_at_def PB_OPTIONAL_POINTER_def)
    ultimately show ?thesis
      by (subst pb_check_proto3_default_value.simps)
        (simp add: f(1) g(1) PB_SINGULAR_STATIC_def PB_ATYPE_def PB_HTYPE_def PB_LTYPE_def Let_def del: iter_at.simps)
  qed
  have start: "pb_field_iter_begin [f] src = (True, iter_at [f] src 0)"
    using f(1,2) by (simp add: pb_field_iter_begin_def Let_def field_at_def PB_SINGULAR_STATIC_def)
  have "encode_any_field env m (Suc k) rec s f sub =
    (if str mod 256 = 0 then Some (True, s)
     else and_then (Some (pb_encode_tag_for_field s f)) (\<lambda>s. pb_encode_submessage rec s (ee_descr env ptr) sub))" for rec s
    using check [of k] f(3)
    by (simp add: encode_any_field_def encode_field_def encode_basic_field_def call_encoder_def PB_ENCODERS_def
        pb_enc_submessage_def f(1) PB_SINGULAR_STATIC_def PB_ATYPE_def PB_HTYPE_def PB_LTYPE_def Let_def)
  moreover have "pb_field_iter_next (iter_at [f] src 0) = (False, iter_at [f] src 0)"
    using next_iter_at [OF wf(1), of 0 src] by simp
  ultimately show ?thesis
    by (subst pb_encode.simps)
      (simp add: start and_then_return field_at_def iter_at_pos [OF wf(1)] flip: sub del: iter_at.simps pb_encode.simps)
qed

definition p3_member :: member where
  "p3_member = \<lparr>offsetof = 0, pb_membersize = 8, pb_elemsize = 1\<rparr>"

text \<open>The string pointer of the structure at address 8 is set to the address 0x5500, or 0x5501.\<close>

definition p3_outer :: "pb_field list" where
  "p3_outer = [PB_SINGULAR_STATIC 1 p3_member 0 PB_LTYPE_SUBMESSAGE 64]"

definition p3_env :: "obuf enc_env" where
  "p3_env = (string_env (\<lambda>_. []) (\<lambda>_. []))\<lparr>ee_descr := \<lambda>_. [PB_OPTIONAL_POINTER 1 p3_member 0 PB_LTYPE_STRING 0]\<rparr>"

theorem proto3_pointer_check_one_byte_witness:
  "let m = (\<lambda>p. store (store_ptr \<lparr>mbytes = (\<lambda>_. 0), mheap = []\<rparr> 8 p) p [104, 0])
   in pb_encode p3_env (m 0x5500) 2 (pb_ostream_from_buffer (\<lambda>_. 0) 32) p3_outer 8 = Some (True, pb_ostream_from_buffer (\<lambda>_. 0) 32) \<and>
      map_option (os_bytes_written \<circ> snd) (pb_encode p3_env (m 0x5501) 2 (pb_ostream_from_buffer (\<lambda>_. 0) 32) p3_outer 8) = Some 5"
proof -
  have "load_ptr (store (store_ptr \<lparr>mbytes = (\<lambda>_. 0), mheap = []\<rparr> 8 0x5500) 0x5500 [104, 0])
      (it_pData (iter_at (ee_descr p3_env 64) (it_pData (iter_at p3_outer 8 0)) 0)) = 0x5500" by code_simp
  then have "pb_encode p3_env (store (store_ptr \<lparr>mbytes = (\<lambda>_. 0), mheap = []\<rparr> 8 0x5500) 0x5500 [104, 0]) (Suc (Suc 0))
      (pb_ostream_from_buffer (\<lambda>_. 0) 32) p3_outer 8 = Some (True, pb_ostream_from_buffer (\<lambda>_. 0) 32)"
    using proto3_pointer_check_one_byte [where env = p3_env and src = 8 and k = 0 and tag = 1 and ptr = 64
        and member = p3_member and offset = 0 and tag' = 1 and member' = p3_member and offset' = 0 and ptr' = 0
        and m = "store (store_ptr \<lparr>mbytes = (\<lambda>_. 0), mheap = []\<rparr> 8 0x5500) 0x5500 [104, 0]"
        and s = "pb_ostream_from_buffer (\<lambda>_. 0) 32", OF refl _ _ _ _ _ refl refl]
    by (simp add: p3_outer_def p3_env_def p3_member_def del: pb_encode.simps iter_at.simps)
  moreover have "map_option (os_bytes_written \<circ> snd) (pb_encode p3_env
      (store (store_ptr \<lparr>mbytes = (\<lambda>_. 0), mheap = []\<rparr> 8 0x5501) 0x5501 [104, 0]) 2
      (pb_ostream_from_buffer (\<lambda>_. 0) 32) p3_outer 8) = Some 5" by code_simp
  ultimately show ?thesis by (simp add: Let_def numeral_2_eq_2 del: pb_encode.simps)
qed

section \<open>A message type\<close>

text \<open>
  A structure with a required \<^verbatim>\<open>int32_t\<close> (tag 1), a string of at most 7 characters with its \<^verbatim>\<open>has_\<close> flag (tag 2),
  at most two packed \<^verbatim>\<open>uint32_t\<close> (tag 3) and a callback (tag 4), at the offsets of the C compiler.
\<close>

definition sample_fields :: "pb_field list" where
  "sample_fields =
     (let n = \<lparr>offsetof = 0, pb_membersize = 4, pb_elemsize = 4\<rparr>;
          has = \<lparr>offsetof = 4, pb_membersize = 1, pb_elemsize = 1\<rparr>;
          str = \<lparr>offsetof = 5, pb_membersize = 8, pb_elemsize = 1\<rparr>;
          count = \<lparr>offsetof = 16, pb_membersize = 4, pb_elemsize = 4\<rparr>;
          arr = \<lparr>offsetof = 20, pb_membersize = 8, pb_elemsize = 4\<rparr>;
          cb = \<lparr>offsetof = 32, pb_membersize = 16, pb_elemsize = 16\<rparr>
      in [PB_REQUIRED_STATIC 1 n (PB_DATAOFFSET_FIRST n n) PB_LTYPE_VARINT 0,
          PB_OPTIONAL_STATIC 2 has str (PB_DATAOFFSET_OTHER str n) PB_LTYPE_STRING 0,
          PB_REPEATED_STATIC 3 count arr (PB_DATAOFFSET_OTHER arr str) PB_LTYPE_UVARINT 0,
          PB_CALLBACK PB_HTYPE_OPTIONAL 4 cb (PB_DATAOFFSET_OTHER cb arr) PB_LTYPE_STRING 0])"

text \<open>The value -1, ''hi'', [1, 300] and a callback at address 64, stored at address 1000.\<close>

definition sample_mem :: mem where
  "sample_mem =
     store \<lparr>mbytes = (\<lambda>_. 0), mheap = []\<rparr> 1000
       ([0xFF, 0xFF, 0xFF, 0xFF, 1, 104, 105, 0] @ replicate 8 0 @ [2, 0, 0, 0, 1, 0, 0, 0, 44, 1, 0, 0]
        @ replicate 4 0 @ [0, 0, 0, 0, 0, 0, 0, 0])"

lemma sample_bytes:
  "message_bytes (ee_descr (string_env (\<lambda>_. []) (\<lambda>_. [88]) :: obuf enc_env)) (string_spec (\<lambda>_. [88])) sample_mem 1 sample_fields 1000
   = Some ([8, 255, 255, 255, 255, 255, 255, 255, 255, 255, 1, 18, 2, 104, 105, 26, 3, 1, 172, 2], True)"
  by code_simp


lemma sample_cs: "enc_callbacks (string_env (\<lambda>_. []) (\<lambda>_. [88])) (string_spec (\<lambda>_. [88]))"
  by (rule string_cb.enc_callbacks_axioms)

theorem pb_encode_correct_witness:
  "\<exists>t. pb_encode (string_env (\<lambda>_. []) (\<lambda>_. [88])) sample_mem 1 (pb_ostream_from_buffer (\<lambda>_. 0) 32) sample_fields 1000
      = Some (True, t) \<and> unat (os_bytes_written t) = 20 \<and> fst (os_state t) 0 = 8"
proof -
  show ?thesis
    using pb_encode_correct [OF sample_cs sample_bytes, of 32 "\<lambda>_. 0"] by (auto simp: string_env_def)
qed

theorem pb_encode_never_overruns_witness:
  "\<exists>t. pb_encode (string_env (\<lambda>_. []) (\<lambda>_. [88])) sample_mem 1 (pb_ostream_from_buffer (\<lambda>_. 7) 19) sample_fields 1000
      = Some (False, t) \<and> fst (os_state t) 19 = 7"
  using pb_encode_never_overruns [OF sample_cs sample_bytes, of 19 "\<lambda>_. 7"] by auto

theorem encoded_size_exact_witness:
  "pb_get_encoded_size (string_env (\<lambda>_. []) (\<lambda>_. [88])) sample_mem 1 (((\<lambda>_. 0), 0) :: obuf) sample_fields 1000 = Some (Some 20)"
  using encoded_size_exact [OF sample_cs sample_bytes, of "(((\<lambda>_. 0), 0) :: obuf)"] by simp

theorem pb_encode_terminates_witness:
  "\<exists>ok t. pb_encode (string_env (\<lambda>_. []) (\<lambda>_. [88])) sample_mem 1 (PB_OSTREAM_SIZING (((\<lambda>_. 0), 0) :: obuf)) sample_fields 1000 = Some (ok, t)"
proof (rule pb_encode_terminates [OF string_env_returns])
  show "nests (ee_descr (string_env (\<lambda>_. []) (\<lambda>_. [88]) :: obuf enc_env)) 1 sample_fields" by code_simp
qed

end
