(* ===== verification/PbDecodeProps.thy ===== *)
theory PbDecodeProps
  imports PbDecodeSafe PbEncodeProps
begin

text \<open>
  The properties of the message decoder: it undoes the encoder, is memory safe on every input for
  messages of static fields, checks required fields and sizes of allocations exactly; and three
  behaviours on hostile input that the code does not intend.
\<close>

section \<open>Round trip\<close>

text \<open>
  C13: Decoding undoes encoding. A message of required numbers and strings, written by \<^verbatim>\<open>pb_encode\<close> to a
  buffer that is large enough, is read back by \<^verbatim>\<open>pb_decode\<close> into any structure: it succeeds, consumes all
  bytes, and every field has the value that was encoded, whatever the memory was before.
\<close>
theorem pb_decode_inverts_encode:
  assumes "enc_callbacks env cs" "scalar_message flds" "0 < src"
    and "\<forall>i < length flds. value_ok m (flds ! i) (field_addr flds src i)"
    and "message_bytes (ee_descr env) cs m (Suc n) flds src = Some (bs, True)" "length bs \<le> unat bufsize"
  shows "\<exists>t d'. pb_encode env m (Suc n) (pb_ostream_from_buffer buf bufsize) flds src = Some (True, t) \<and>
    pb_decode denv (Suc (Suc k)) flds dest
      \<lparr>ds_stream = pb_istream_from_buffer (map (fst (os_state t)) [0..<unat (os_bytes_written t)]) (os_bytes_written t),
       ds_mem = m'\<rparr> = Some (True, d') \<and>
    is_bytes_left (ds_stream d') = 0 \<and>
    (\<forall>i < length flds. field_value (ds_mem d') (flds ! i) (field_addr flds dest i) =
       field_value m (flds ! i) (field_addr flds src i))"
proof -
  note ok = assms(4) [rule_format]
  have bs: "bs = bytes_from m flds src 0"
    using assms(5) scalar_message_bytes [OF assms(2,3), of "ee_descr env" cs m n] by simp
  obtain t where t: "pb_encode env m (Suc n) (pb_ostream_from_buffer buf bufsize) flds src = Some (True, t)"
    "unat (os_bytes_written t) = length bs" "\<forall>i. fst (os_state t) i = (if i < length bs then bs ! i else buf i)"
    using encode_fits [OF assms(1,5,6)] by blast
  have written: "map (fst (os_state t)) [0..<unat (os_bytes_written t)] = bs"
    using t(2,3) by (auto intro!: nth_equalityI)
  have len: "length bs < 2 ^ 64" using assms(6) unat_lt [of bufsize] by simp
  have size: "os_bytes_written t = of_nat (length bs)" by (simp flip: t(2))
  obtain m1 where m1: "pb_message_set_to_defaults (de_descr denv) (Suc (Suc k)) flds dest m' = Some m1"
    using scalar_defaults [OF assms(2)] by blast
  let ?d = "\<lparr>ds_stream = pb_istream_from_buffer bs (of_nat (length bs)), ds_mem = m1\<rparr>"
  have "ds_stream ?d = pb_istream_from_buffer (bytes_from m flds src 0 @ []) (of_nat (length (bytes_from m flds src 0)))"
    by (simp add: bs)
  from scalar_decode_noinit [OF assms(2,3) ok this len [unfolded bs], of denv "Suc k" dest] obtain d' where
    d': "pb_decode_noinit denv (Suc (Suc k)) flds dest ?d = Some (True, d')" "is_bytes_left (ds_stream d') = 0"
      "ds_mem d' = decoded_mem m flds src dest 0 (store_u32 m1 (count_slot (Suc k)) 0)" by auto
  have "field_value (ds_mem d') (flds ! i) (field_addr flds dest i) = field_value m (flds ! i) (field_addr flds src i)"
    if "i < length flds" for i
    unfolding d'(3) by (rule decoded_values [OF assms(2) ok that]) simp_all
  moreover have "pb_decode denv (Suc (Suc k)) flds dest \<lparr>ds_stream = pb_istream_from_buffer bs (of_nat (length bs)), ds_mem = m'\<rparr> = Some (True, d')"
    using d'(1) m1 unfolding pb_decode_def decode_with_def with_mem_def
    by (simp del: pb_decode_noinit.simps pb_message_set_to_defaults.simps)
  ultimately show ?thesis using t(1) written size d'(2) by (intro exI [of _ t] exI [of _ d']) simp
qed

section \<open>Any input\<close>

text \<open>
  C10: Memory safety and termination on any input, for a non-empty structure whose fields are all statically
  allocated numbers, strings and bytes, each required, optional, or repeated in an array with a count
  member of its own (\<open>static_message\<close>: no submessages, unions, arrays of a fixed count, extensions, callbacks
  or pointers). Whatever the buffer contains, decoding such a message returns, and it writes to no byte
  outside of \<open>R\<close>, any region that holds the members of the structure and the counter on the stack.
\<close>
theorem pb_decode_memory_safe:
  assumes "static_message flds dest R" "{count_slot (Suc n)..<count_slot (Suc n) + 4} \<subseteq> R"
  shows "\<exists>ok d'. pb_decode env (Suc (Suc n)) flds dest \<lparr>ds_stream = pb_istream_from_buffer bs sz, ds_mem = m\<rparr> = Some (ok, d') \<and>
    (\<forall>a. a \<notin> R \<longrightarrow> mbytes (ds_mem d') a = mbytes m a) \<and> is_bytes_left (ds_stream d') \<le> sz"
proof -
  let ?d = "\<lparr>ds_stream = pb_istream_from_buffer bs sz, ds_mem = m\<rparr>"
  have "is_buf (ds_stream ?d)" by (simp add: is_buf_def pb_istream_from_buffer_def)
  from static_decode [OF assms this, of env] obtain ok d' where
    "pb_decode env (Suc (Suc n)) flds dest ?d = Some (ok, d')" "within R ?d d'" by blast
  then show ?thesis
    by (auto simp: within_def same_outside_def pb_istream_from_buffer_def word_le_nat_alt)
qed

section \<open>Required fields\<close>

text \<open>
  C31: The words of \<^verbatim>\<open>fields_seen\<close> are a set of field indices: after the marks for the fields \<open>is\<close>, the check at
  the end of decoding accepts exactly when every one of the \<open>n\<close> required fields was marked, for all
  \<open>n\<close> up to \<^verbatim>\<open>PB_MAX_REQUIRED_FIELDS\<close>.
\<close>
theorem required_check_exact:
  assumes "n \<le> unat (of_nat PB_MAX_REQUIRED_FIELDS :: u32)" "\<forall>i \<in> set is. i < n"
  shows "all_seen (fold (\<lambda>i seen. mark_seen seen i) is [0, 0]) n \<longleftrightarrow> (\<forall>i < n. i \<in> set is)"
  using all_seen_marks [of n "is"] assms by (simp add: marks_def)

theorem required_check_exact_witness:
  "\<not> all_seen (fold (\<lambda>i seen. mark_seen seen i) [0, 2, 33] [0, 0]) 34 \<and>
   all_seen (fold (\<lambda>i seen. mark_seen seen i) [2, 0, 1] [0, 0]) 3"
proof -
  have "\<not> (\<forall>i < (34::nat). i \<in> set [0, 2, 33])" by (auto intro!: exI [of _ 1])
  moreover have "\<forall>i < (3::nat). i \<in> set [2, 0, 1]" by auto
  ultimately show ?thesis using required_check_exact [of 34 "[0, 2, 33]"] required_check_exact [of 3 "[2, 0, 1]"] by simp
qed

section \<open>Allocation\<close>

text \<open>
  When \<^verbatim>\<open>allocate_field\<close> succeeds, the size that \<^verbatim>\<open>realloc\<close> was asked for is the mathematical product of
  the element size and the number of elements: the multiplication did not overflow.
\<close>
theorem allocate_field_no_overflow:
  assumes "allocate_field env d p data_size array_size = (True, d')"
  shows "unat (array_size * data_size) = unat array_size * unat data_size \<and>
    (\<exists>ptr m. de_realloc env (ds_mem d) (load_ptr (ds_mem d) p) (array_size * data_size) = (ptr, m) \<and>
      ptr \<noteq> 0 \<and> ds_mem d' = store_ptr m p ptr)"
proof -
  note a = allocate_field_True [OF assms]
  have "of_nat (unat array_size * unat data_size) = array_size * data_size" by simp
  moreover have "unat (array_size * data_size) = unat array_size * unat data_size"
    using a(1) by (simp add: unat_word_ariths)
  ultimately show ?thesis using a(2) by auto
qed

text \<open>
  An environment whose \<^verbatim>\<open>realloc\<close> always fails and notes the pointer that it was given at address 5000.
\<close>

definition noting_env :: "int \<Rightarrow> unit dec_env" where
  "noting_env ptr = \<lparr>de_descr = (\<lambda>_. []), de_realloc = (\<lambda>m p sz. (ptr, store_ptr m 5000 p)), de_free = (\<lambda>m p. m),
     de_callback = (\<lambda>_ _ _ _. None), de_extension = (\<lambda>_ _ _ _ _. None)\<rparr>"

abbreviation (input) zero_mem :: mem where
  "zero_mem \<equiv> \<lparr>mbytes = (\<lambda>_. 0), mheap = []\<rparr>"

theorem allocate_field_no_overflow_witness:
  "\<exists>d'. allocate_field (noting_env 4096) \<lparr>ds_stream = pb_istream_from_buffer [] 0, ds_mem = zero_mem\<rparr> 8 12 3 = (True, d') \<and>
     unat (3 * 12 :: u64) = 3 * 12"
proof -
  obtain d' where "allocate_field (noting_env 4096) \<lparr>ds_stream = pb_istream_from_buffer [] 0, ds_mem = zero_mem\<rparr> 8 12 3 = (True, d')"
    by (simp add: allocate_field_def noting_env_def)
  with allocate_field_no_overflow [OF this] show ?thesis by simp
qed

text \<open>
  C33: An element of a repeated pointer field that is not a packed array (the wire type is not the string
  type, or the field's type is not packable) makes the decoder grow the array by one. When \<^verbatim>\<open>realloc\<close> fails
  there, and the count is below the maximum of \<^verbatim>\<open>pb_size_t\<close>, decoding the field fails and leaves the count in
  the structure one larger than before, while the pointer to the array is unchanged.
\<close>
theorem failed_growth_leaves_count:
  assumes "PB_HTYPE (fd_type (it_field it)) = PB_HTYPE_REPEATED"
    and "wt \<noteq> PB_WT_STRING \<or> \<not> PB_LTYPE (fd_type (it_field it)) \<le> PB_LTYPE_LAST_PACKABLE"
    and "load_u32 (ds_mem d) (it_pSize it) \<noteq> PB_SIZE_MAX"
    and "it_pSize it + 4 \<le> it_pData it \<or> it_pData it + 8 \<le> it_pSize it"
    and "\<forall>m p sz. de_realloc env m p sz = (0, m)"
  shows "\<exists>d'. decode_pointer_field env n rec wt it d = Some (False, d') \<and>
    load_u32 (ds_mem d') (it_pSize it) = load_u32 (ds_mem d) (it_pSize it) + 1 \<and>
    load_ptr (ds_mem d') (it_pData it) = load_ptr (ds_mem d) (it_pData it)"
proof -
  let ?m = "store_u32 (ds_mem d) (it_pSize it) (load_u32 (ds_mem d) (it_pSize it) + 1)"
  have "load ?m (it_pData it) 8 = load (ds_mem d) (it_pData it) 8"
    unfolding store_u32_def using assms(4) by (intro load_store_other) auto
  then have "load_ptr ?m (it_pData it) = load_ptr (ds_mem d) (it_pData it)" by (simp add: load_ptr_def)
  moreover have "\<exists>d'. allocate_field env (map_mem (\<lambda>m. store_u32 m (it_pSize it) (load_u32 (ds_mem d) (it_pSize it) + 1)) d)
      (it_pData it) a b = (False, d') \<and> ds_mem d' = ?m" for a b
    using assms(5) by (auto simp: allocate_field_def dec_error_def map_mem_def Let_def)
  then obtain d' where "allocate_field env (map_mem (\<lambda>m. store_u32 m (it_pSize it) (load_u32 (ds_mem d) (it_pSize it) + 1)) d)
      (it_pData it) (ucast (fd_data_size (it_field it)))
      (ucast (load_u32 ?m (it_pSize it))) = (False, d')" "ds_mem d' = ?m" by blast
  ultimately show ?thesis using assms(1-3)
    by (auto simp: decode_pointer_field_def Let_def map_mem_def)
qed

theorem failed_growth_leaves_count_witness:
  "let f = PB_REPEATED_POINTER 1 \<lparr>offsetof = 0, pb_membersize = 4, pb_elemsize = 4\<rparr>
             \<lparr>offsetof = 8, pb_membersize = 8, pb_elemsize = 4\<rparr> 8 PB_LTYPE_FIXED32 0
   in \<exists>d'. decode_pointer_field ((noting_env 0)\<lparr>de_realloc := \<lambda>m p sz. (0, m)\<rparr>) 1 (\<lambda>_ _ _. None) PB_WT_32BIT
        (iter_at [f] 0 0) \<lparr>ds_stream = pb_istream_from_buffer [1, 0, 0, 0] 4, ds_mem = zero_mem\<rparr> = Some (False, d') \<and>
        load_u32 (ds_mem d') 0 = 1 \<and> load_ptr (ds_mem d') 8 = 0"
proof -
  let ?f = "PB_REPEATED_POINTER 1 \<lparr>offsetof = 0, pb_membersize = 4, pb_elemsize = 4\<rparr>
             \<lparr>offsetof = 8, pb_membersize = 8, pb_elemsize = 4\<rparr> 8 PB_LTYPE_FIXED32 0"
  let ?d = "\<lparr>ds_stream = pb_istream_from_buffer [1, 0, 0, 0] 4, ds_mem = zero_mem\<rparr> :: unit dec"
  let ?e = "(noting_env 0)\<lparr>de_realloc := \<lambda>m p sz. (0, m)\<rparr>"
  have it: "it_pSize (iter_at [?f] 0 0) = 0" "it_pData (iter_at [?f] 0 0) = 8" by code_simp+
  have z: "load_u32 zero_mem 0 = 0" "load_ptr zero_mem 8 = 0" by code_simp+
  have h: "PB_HTYPE (fd_type (it_field (iter_at [?f] 0 0))) = PB_HTYPE_REPEATED" by code_simp
  have len: "it_pSize (iter_at [?f] 0 0) + 4 \<le> it_pData (iter_at [?f] 0 0)" by (simp only: it)
  have "PB_WT_32BIT \<noteq> PB_WT_STRING \<or> \<not> PB_LTYPE (fd_type (it_field (iter_at [?f] 0 0))) \<le> PB_LTYPE_LAST_PACKABLE" by simp
  then have g: "\<exists>d'. decode_pointer_field ?e 1 (\<lambda>_ _ _. None) PB_WT_32BIT (iter_at [?f] 0 0) ?d = Some (False, d') \<and>
    load_u32 (ds_mem d') (it_pSize (iter_at [?f] 0 0)) = load_u32 (ds_mem ?d) (it_pSize (iter_at [?f] 0 0)) + 1 \<and>
    load_ptr (ds_mem d') (it_pData (iter_at [?f] 0 0)) = load_ptr (ds_mem ?d) (it_pData (iter_at [?f] 0 0))"
  proof (rule failed_growth_leaves_count [OF h])
    show "load_u32 (ds_mem ?d) (it_pSize (iter_at [?f] 0 0)) \<noteq> PB_SIZE_MAX" by (simp only: it dec.simps z) simp
    show "\<forall>m p sz. de_realloc ?e m p sz = (0, m)" by (simp add: noting_env_def)
  qed (rule disjI1 [OF len])
  show ?thesis unfolding Let_def using g [unfolded it dec.simps z add_0] by blast
qed

section \<open>Overlong numbers\<close>

lemma varint32_zeros:
  "k \<le> unat n \<Longrightarrow> varint32_loop (\<lparr>is_source = Buf (replicate k 0x80 @ bs), is_bytes_left = n, is_errmsg = e\<rparr> :: 's pb_istream) pos r =
     varint32_loop \<lparr>is_source = Buf bs, is_bytes_left = n - of_nat k, is_errmsg = e\<rparr> (pos + 7 * of_nat k) r"
proof (induction k arbitrary: n pos)
  case (Suc k)
  then have nz: "n \<noteq> 0" by auto
  then have k: "k \<le> unat (n - 1)" using Suc.prems by (simp add: unat_minus_one)
  have "varint32_loop (\<lparr>is_source = Buf (0x80 # replicate k 0x80 @ bs), is_bytes_left = n, is_errmsg = e\<rparr> :: 's pb_istream) pos r =
      varint32_loop \<lparr>is_source = Buf (replicate k 0x80 @ bs), is_bytes_left = n - 1, is_errmsg = e\<rparr> (pos + 7) r"
    using nz by (subst varint32_loop.simps) (simp add: pb_readbyte_def buf_read_def Let_def)
  moreover have "n - 1 - of_nat k = n - of_nat (Suc k)" "pos + 7 + 7 * of_nat k = pos + 7 * of_nat (Suc k)"
    by (simp_all add: algebra_simps)
  ultimately show ?case using Suc.IH [OF k, of "pos + 7"] by (simp only: replicate_Suc append_Cons)
qed simp

lemma varint_more:
  "n \<noteq> 0 \<Longrightarrow> pos < 64 \<Longrightarrow> varint_dec_loop \<lparr>is_source = Buf (0x80 # bs), is_bytes_left = n, is_errmsg = e\<rparr> pos r =
     varint_dec_loop \<lparr>is_source = Buf bs, is_bytes_left = n - 1, is_errmsg = e\<rparr> (pos + 7) r"
  by (subst varint_dec_loop.simps) (simp add: pb_readbyte_def buf_read_def Let_def)

lemma varint_too_long: "64 \<le> pos \<Longrightarrow> fst (varint_dec_loop s pos r) = None"
  by (subst varint_dec_loop.simps) simp

text \<open>
  C32: The position in \<^verbatim>\<open>pb_decode_varint32_eof\<close> has 8 bits. After 36 continuation bytes it has wrapped
  around to 3, so the 38 byte encoding of a number is accepted, with its last byte shifted by 3, where
  the 64-bit decoder reports an overflow.
\<close>
theorem varint32_position_wraps:
  "let s = pb_istream_from_buffer (replicate 37 0x80 @ [1]) 38 :: unit pb_istream
   in fst (pb_decode_varint32 s) = Some 8 \<and> fst (pb_decode_varint s) = None"
  proof -
  have "(replicate 37 0x80 :: byte list) = 0x80 # replicate 36 0x80" by (simp add: numeral_eq_Suc)
  note bytes = this
  have bytes10: "(replicate 37 0x80 :: byte list) =
      0x80 # 0x80 # 0x80 # 0x80 # 0x80 # 0x80 # 0x80 # 0x80 # 0x80 # 0x80 # replicate 27 0x80" by (simp add: numeral_eq_Suc)
  have "fst (pb_decode_varint32 (\<lparr>is_source = Buf (replicate 37 0x80 @ [1]), is_bytes_left = 38, is_errmsg = None\<rparr> :: unit pb_istream)) = Some 8"
    unfolding bytes pb_decode_varint32_def pb_decode_varint32_eof_def
    by (simp add: pb_readbyte_def buf_read_def varint32_zeros)
      (simp add: varint32_loop.simps [of _ 259] pb_readbyte_def buf_read_def Let_def)
  moreover have "fst (pb_decode_varint (\<lparr>is_source = Buf (replicate 37 0x80 @ [1]), is_bytes_left = 38, is_errmsg = None\<rparr> :: unit pb_istream)) = None"
    unfolding bytes10 pb_decode_varint_def append_Cons by (simp add: varint_more varint_too_long)
  ultimately show ?thesis by (simp add: pb_istream_from_buffer_def Let_def)
qed

section \<open>Sample messages\<close>

text \<open>A required \<^verbatim>\<open>int32_t\<close>, a string of at most 7 characters and a \<^verbatim>\<open>sint32_t\<close>: -5, ''hi'' and 1 at address 1000.\<close>

definition sample_scalars :: "pb_field list" where
  "sample_scalars =
     (let n = \<lparr>offsetof = 0, pb_membersize = 4, pb_elemsize = 4\<rparr>;
          s = \<lparr>offsetof = 4, pb_membersize = 8, pb_elemsize = 1\<rparr>;
          z = \<lparr>offsetof = 12, pb_membersize = 4, pb_elemsize = 4\<rparr>
      in [PB_REQUIRED_STATIC 1 n (PB_DATAOFFSET_FIRST n n) PB_LTYPE_VARINT 0,
          PB_REQUIRED_STATIC 2 s (PB_DATAOFFSET_OTHER s n) PB_LTYPE_STRING 0,
          PB_REQUIRED_STATIC 5 z (PB_DATAOFFSET_OTHER z s) PB_LTYPE_SVARINT 0])"

definition scalars_mem :: mem where
  "scalars_mem = store zero_mem 1000 [0xFB, 0xFF, 0xFF, 0xFF, 104, 105, 0, 0, 0, 0, 0, 0, 1, 0, 0, 0]"

lemma sample_scalar_message: "scalar_message sample_scalars"
  by (simp add: scalar_message_def) code_simp

lemma scalars_bytes:
  "message_bytes (ee_descr (string_env (\<lambda>_. []) (\<lambda>_. [88]) :: obuf enc_env)) (string_spec (\<lambda>_. [88])) scalars_mem (Suc 0) sample_scalars 1000
   = Some ([8, 251, 255, 255, 255, 255, 255, 255, 255, 255, 1, 18, 2, 104, 105, 40, 2], True)"
  by code_simp

theorem pb_decode_inverts_encode_witness:
  "\<exists>t d'. pb_encode (string_env (\<lambda>_. []) (\<lambda>_. [88])) scalars_mem 1 (pb_ostream_from_buffer (\<lambda>_. 0) 17) sample_scalars 1000 = Some (True, t) \<and>
    pb_decode (noting_env 0) 2 sample_scalars 2000
      \<lparr>ds_stream = pb_istream_from_buffer (map (fst (os_state t)) [0..<unat (os_bytes_written t)]) (os_bytes_written t),
       ds_mem = zero_mem\<rparr> = Some (True, d') \<and>
    field_value (ds_mem d') (sample_scalars ! 1) (field_addr sample_scalars 2000 1) = [104, 105]"
proof -
  have len: "length sample_scalars = 3" by code_simp
  have "value_ok scalars_mem (sample_scalars ! i) (field_addr sample_scalars 1000 i)" if "i < 3" for i
  proof -
    from that consider "i = 0" | "i = 1" | "i = 2" by linarith
    then show ?thesis by cases (simp only:, code_simp)+
  qed
  then have ok: "\<forall>i < length sample_scalars. value_ok scalars_mem (sample_scalars ! i) (field_addr sample_scalars 1000 i)"
    by (simp add: len)
  have v: "field_value scalars_mem (sample_scalars ! 1) (field_addr sample_scalars 1000 1) = [104, 105]" by code_simp
  have room: "length [8, 251, 255, 255, 255, 255, 255, 255, 255, 255, 1, 18, 2, 104, 105, 40, 2 :: byte] \<le> unat (17 :: u64)" by simp
  have src: "(0::int) < 1000" and one: "1 < length sample_scalars" by (simp_all add: len)
  from pb_decode_inverts_encode [OF sample_cs sample_scalar_message src ok scalars_bytes room, of "\<lambda>_. 0" "noting_env 0" 0 2000 zero_mem] one
  show ?thesis unfolding numeral_2_eq_2 One_nat_def [symmetric] v [symmetric] by blast
qed

text \<open>The sample message of the encoder without its callback: 28 bytes at address 1000.\<close>

definition sample_statics :: "pb_field list" where
  "sample_statics = take 3 sample_fields"

lemma sample_static_message: "static_message sample_statics 1000 ({1000..<1028} \<union> {- 16..<- 12})"
proof -
  have len: "length sample_statics = 3" by code_simp
  have wf: "wf_fields sample_statics" "sample_statics \<noteq> []" by code_simp+
  have "static_field (sample_statics ! i) \<and> placed ({1000..<1028} \<union> {- 16..<- 12}) (iter_at sample_statics 1000 i) \<and>
        (PB_HTYPE (fd_type (sample_statics ! i)) = PB_HTYPE_REPEATED \<longrightarrow>
           it_pSize (iter_at sample_statics 1000 i) \<noteq> it_pData (iter_at sample_statics 1000 i))" if "i < 3" for i
  proof -
    have a: "it_pData (iter_at sample_statics 1000 0) = 1000" "it_pSize (iter_at sample_statics 1000 0) = 1000"
      "it_pData (iter_at sample_statics 1000 1) = 1005" "it_pSize (iter_at sample_statics 1000 1) = 1004"
      "it_pData (iter_at sample_statics 1000 2) = 1020" "it_pSize (iter_at sample_statics 1000 2) = 1016"
      by code_simp+
    have p: "it_field (iter_at sample_statics 1000 j) = sample_statics ! j" if "j < 3" for j
      using that wf len by (simp add: iter_at_pos field_at_def del: iter_at.simps)
    have f: "static_field (sample_statics ! 0)" "static_field (sample_statics ! 1)" "static_field (sample_statics ! 2)" by code_simp+
    have t: "PB_HTYPE (fd_type (sample_statics ! 0)) = PB_HTYPE_REQUIRED" "PB_HTYPE (fd_type (sample_statics ! 1)) = PB_HTYPE_OPTIONAL"
      "PB_HTYPE (fd_type (sample_statics ! 2)) = PB_HTYPE_REPEATED" "unat (fd_data_size (sample_statics ! 0)) = 4"
      "unat (fd_data_size (sample_statics ! 1)) = 8" "unat (fd_data_size (sample_statics ! 2)) = 4"
      "unat (fd_array_size (sample_statics ! 2)) = 2" by code_simp+
    from that consider "i = 0" | "i = 1" | "i = 2" by linarith
    then show ?thesis
      using p [of 0] p [of 1] p [of 2] by cases (simp_all only: placed_def Let_def a f t, auto)
  qed
  then show ?thesis using wf by (simp add: static_message_def len del: iter_at.simps)
qed

theorem pb_decode_memory_safe_witness:
  "\<exists>ok d'. pb_decode (noting_env 0) 2 sample_statics 1000
      \<lparr>ds_stream = pb_istream_from_buffer [18, 100, 26, 3, 1, 2, 3] 7, ds_mem = zero_mem\<rparr> = Some (ok, d') \<and>
    mbytes (ds_mem d') 1028 = 0 \<and> mbytes (ds_mem d') 999 = 0"
proof -
  have "{count_slot (Suc 0)..<count_slot (Suc 0) + 4} \<subseteq> {1000..<1028} \<union> {- 16..<- 12}" by (simp add: count_slot_def)
  from pb_decode_memory_safe [OF sample_static_message this, where env = "noting_env 0" and bs = "[18, 100, 26, 3, 1, 2, 3]" and sz = 7 and m = zero_mem]
  show ?thesis unfolding numeral_2_eq_2 by fastforce
qed

section \<open>Unions of numbers and pointers\<close>

text \<open>A union of a \<^verbatim>\<open>uint64_t\<close> (tag 1) and a string pointer (tag 2) at offset 8, \<^verbatim>\<open>which_u\<close> at offset 0.\<close>

definition union_fields :: "pb_field list" where
  "union_fields =
     (let which = \<lparr>offsetof = 0, pb_membersize = 4, pb_elemsize = 4\<rparr>;
          num = \<lparr>offsetof = 8, pb_membersize = 8, pb_elemsize = 8\<rparr>;
          str = \<lparr>offsetof = 8, pb_membersize = 8, pb_elemsize = 1\<rparr>
      in [PB_ONEOF_STATIC 1 which num (PB_DATAOFFSET_FIRST num num) PB_LTYPE_UVARINT 0,
          PB_ONEOF_POINTER 2 which str PB_SIZE_MAX PB_LTYPE_STRING 0])"

lemma union_iter:
  "iter_at union_fields a 0 = \<lparr>it_start = union_fields, it_pos = 0, it_required_field_index = 0,
     it_dest_struct = a, it_pData = a + 8, it_pSize = a\<rparr>"
  "iter_at union_fields a 1 = \<lparr>it_start = union_fields, it_pos = 1, it_required_field_index = 0,
     it_dest_struct = a, it_pData = a + 8, it_pSize = a\<rparr>"
  "field_at union_fields 0 = union_fields ! 0" "field_at union_fields 1 = union_fields ! 1"
proof -
  have tags: "field_at union_fields 0 = union_fields ! 0" "field_at union_fields 1 = union_fields ! 1"
    by (simp_all add: field_at_def union_fields_def Let_def)
  have u: "uint (fd_data_offset (union_fields ! 0)) = 8" "sint (fd_size_offset (union_fields ! 0)) = - 8"
    "fd_tag (union_fields ! 0) = 1" "fd_tag (union_fields ! 1) = 2" "fd_data_offset (union_fields ! 1) = PB_SIZE_MAX"
    "PB_HTYPE (fd_type (union_fields ! 0)) = PB_HTYPE_ONEOF" "PB_HTYPE (fd_type (union_fields ! 1)) = PB_HTYPE_ONEOF"
    by code_simp+
  show "field_at union_fields 0 = union_fields ! 0" "field_at union_fields 1 = union_fields ! 1" by (fact tags)+
  show z: "iter_at union_fields a 0 = \<lparr>it_start = union_fields, it_pos = 0, it_required_field_index = 0,
     it_dest_struct = a, it_pData = a + 8, it_pSize = a\<rparr>"
    by (simp add: pb_field_iter_begin_def Let_def tags u)
  show "iter_at union_fields a 1 = \<lparr>it_start = union_fields, it_pos = 1, it_required_field_index = 0,
     it_dest_struct = a, it_pData = a + 8, it_pSize = a\<rparr>"
    unfolding One_nat_def iter_at.simps(2) z using tags u by (simp add: pb_field_iter_next_def Let_def)
qed

lemma union_facts:
  "wf_fields union_fields" "length union_fields = 2"
  "it_matches 1 (union_fields ! 0)" "\<not> it_matches 1 (union_fields ! 1)"
  "it_matches 2 (union_fields ! 1)" "\<not> it_matches 2 (union_fields ! 0)"
  "PB_HTYPE (fd_type (union_fields ! 0)) = PB_HTYPE_ONEOF" "PB_HTYPE (fd_type (union_fields ! 1)) = PB_HTYPE_ONEOF"
  "PB_ATYPE (fd_type (union_fields ! 0)) = PB_ATYPE_STATIC" "PB_ATYPE (fd_type (union_fields ! 1)) = PB_ATYPE_POINTER"
  "PB_LTYPE (fd_type (union_fields ! 0)) = PB_LTYPE_UVARINT" "PB_LTYPE (fd_type (union_fields ! 1)) = PB_LTYPE_STRING"
  "fd_tag (union_fields ! 0) = 1" "fd_tag (union_fields ! 1) = 2"
  by code_simp+

lemma union_find:
  "i < 2 \<Longrightarrow> pb_field_iter_find (iter_at union_fields a i) 1 = Some (True, iter_at union_fields a 0)"
  "i < 2 \<Longrightarrow> pb_field_iter_find (iter_at union_fields a i) 2 = Some (True, iter_at union_fields a 1)"
proof -
  have two: "j < 2 \<longleftrightarrow> j = 0 \<or> j = (1::nat)" for j by auto
  show "i < 2 \<Longrightarrow> pb_field_iter_find (iter_at union_fields a i) 1 = Some (True, iter_at union_fields a 0)"
    by (rule iter_find_unique [OF union_facts(1)]) (use union_facts in \<open>auto simp: two\<close>)
  show "i < 2 \<Longrightarrow> pb_field_iter_find (iter_at union_fields a i) 2 = Some (True, iter_at union_fields a 1)"
    by (rule iter_find_unique [OF union_facts(1)]) (use union_facts in \<open>auto simp: two\<close>)
qed

text \<open>
  C34: Switching a union from a number to a pointer does not clear the member: the bytes of the number
  are passed to \<^verbatim>\<open>realloc\<close> as the old pointer. Here \<^verbatim>\<open>realloc\<close> fails; with a successful one the process
  would resize a block at an address that the sender of the message chose.
\<close>
theorem union_number_reaches_realloc:
  fixes len :: u32
  assumes "load_u32 (ds_mem d) a = 1" "is_has (ds_stream d) (varint_bytes (unat len)) rest" "len < - 1"
    and "de_realloc env (store_u32 (ds_mem d) a 2) (load_ptr (ds_mem d) (a + 8)) (ucast (len + 1)) = (0, m)"
  shows "\<exists>d'. decode_field env (Suc n) rec PB_WT_STRING (iter_at union_fields a 1) d =
      Some (False, d', iter_at union_fields a 1) \<and> ds_mem d' = m"
proof -
  note it = union_iter and uf = union_facts
  note f = union_find(1) [of 1 a, unfolded union_iter, simplified] union_find(2) [of 0 a, unfolded union_iter, simplified]
  have "pb_release_union_field env (Suc n) (iter_at union_fields a 1) d = Some (True, d, iter_at union_fields a 1)"
    using assms(1) uf it(3,4) f unfolding it(2) by (simp add: pb_release_union_field_def Let_def)
  moreover have "load_ptr (store_u32 (ds_mem d) a 2) (a + 8) = load_ptr (ds_mem d) (a + 8)"
    unfolding load_ptr_def store_u32_def by (subst load_store_other) simp_all
  moreover have "allocate_field env (d\<lparr>ds_stream := s, ds_mem := store_u32 (ds_mem d) a 2\<rparr>) (a + 8) (ucast (len + 1)) 1 =
      dec_error (d\<lparr>ds_stream := s, ds_mem := m\<rparr>) ''realloc failed''" for s
  proof -
    have "len + 1 \<noteq> 0" using assms(3) by (metis add.commute add_eq_0_iff2 less_irrefl)
    then have "unat (len + 1) \<noteq> 0" by (simp only: unat_eq_zero not_False_eq_True)
    then have "(ucast (len + 1) :: u64) \<noteq> 0" using unat_ucast_u32_u64 [of "len + 1"] by (metis unsigned_0)
    moreover have "(ucast (len + 1) :: u64) < 2 ^ 32" using unat_u32_less [of "len + 1"] by (simp add: word_less_nat_alt)
    ultimately show ?thesis using assms(4) \<open>load_ptr (store_u32 (ds_mem d) a 2) (a + 8) = load_ptr (ds_mem d) (a + 8)\<close>
      by (simp add: allocate_field_def Let_def not_le [symmetric])
  qed
  moreover have "\<not> (ucast (len + 1) :: u64) < ucast len"
  proof -
    have "unat len < 2 ^ 32 - 1" using assms(3) by (simp add: word_less_nat_alt unsigned_minus_1_eq_mask mask_eq_exp_minus_1)
    then show ?thesis by (intro string_alloc(2)) simp_all
  qed
  moreover have "with_value pb_decode_varint32 (d\<lparr>ds_mem := store_u32 (ds_mem d) a 2\<rparr>) k =
      k len (d\<lparr>ds_stream := is_drop (ds_stream d) (length (varint_bytes (unat len))) rest, ds_mem := store_u32 (ds_mem d) a 2\<rparr>)" for k
    using with_value_reads [OF reads_varint32, of "unat len" "d\<lparr>ds_mem := store_u32 (ds_mem d) a 2\<rparr>" rest k] assms(2) unat_u32_less [of len]
    by (cases d) simp
  ultimately show ?thesis
    using uf it(4) unfolding decode_field_def Let_def it(2)
    by (simp add: decode_pointer_field_def Let_def with_mem_def map_mem_def call_decoder_def decoders_scalar
        pb_dec_string_def dec_error_def it del: iter_at.simps)
qed

theorem union_number_reaches_realloc_witness:
  "\<exists>d'. decode_field \<lparr>de_descr = (\<lambda>_. []), de_realloc = (\<lambda>m p sz. (0, store_ptr m 5000 p)), de_free = (\<lambda>m p. m),
       de_callback = (\<lambda>_ _ _ _. None), de_extension = (\<lambda>_ _ _ _ _. None)\<rparr> 1 (\<lambda>_ _ _. None) PB_WT_STRING (iter_at union_fields 1000 1)
     (\<lparr>ds_stream = pb_istream_from_buffer [1, 65] 2,
       ds_mem = store \<lparr>mbytes = (\<lambda>_. 0), mheap = []\<rparr> 1000 [1, 0, 0, 0, 0, 0, 0, 0, 0x57, 0x04]\<rparr> :: unit dec) =
     Some (False, d', iter_at union_fields 1000 1) \<and> load_ptr (ds_mem d') 5000 = 0x0457"
proof -
  let ?m = "store \<lparr>mbytes = (\<lambda>_. 0), mheap = []\<rparr> 1000 [1, 0, 0, 0, 0, 0, 0, 0, 0x57, 0x04]"
  let ?d = "\<lparr>ds_stream = pb_istream_from_buffer [1, 65] 2, ds_mem = ?m\<rparr> :: unit dec"
  have tag: "load_u32 (ds_mem ?d) 1000 = 1" by code_simp
  have p: "load_ptr (ds_mem ?d) (1000 + 8) = 0x0457" by code_simp
  have s: "is_has (ds_stream ?d) (varint_bytes (unat (1 :: u32))) [65]"
    by (simp add: is_has_def pb_istream_from_buffer_def varint_bytes.simps)
  let ?e = "\<lparr>de_descr = (\<lambda>_. []), de_realloc = (\<lambda>m p sz. (0, store_ptr m 5000 p)), de_free = (\<lambda>m p. m),
       de_callback = (\<lambda>_ _ _ _. None), de_extension = (\<lambda>_ _ _ _ _. None)\<rparr> :: unit dec_env"
  have lt: "(1 :: u32) < - 1" by (simp add: word_less_nat_alt unsigned_minus_1_eq_mask mask_eq_exp_minus_1)
  have r: "de_realloc ?e (store_u32 (ds_mem ?d) 1000 2) (load_ptr (ds_mem ?d) (1000 + 8)) (ucast (1 + 1 :: u32)) =
      (0, store_ptr (store_u32 (ds_mem ?d) 1000 2) 5000 0x0457)" unfolding p by simp
  have "load_ptr (store_ptr (store_u32 (ds_mem ?d) 1000 2) 5000 0x0457) 5000 = 0x0457" by (rule load_ptr_store_ptr) simp_all
  then show ?thesis
    using union_number_reaches_realloc [OF tag s lt r, of 0 "\<lambda>_ _ _. None"] unfolding One_nat_def by auto
qed

end
