(* ===== verification/LdbCoding.thy ===== *)
theory LdbCoding
  imports Bytes
begin

text \<open>
  The number and string encodings of LevelDB (\<^verbatim>\<open>util/coding.cc\<close>, \<^verbatim>\<open>util/coding.h\<close>) and the comparison of
  slices (\<^verbatim>\<open>include/leveldb/slice.h\<close>). A slice or a \<^verbatim>\<open>std::string\<close> is the list of its bytes; a pair of
  pointers \<^verbatim>\<open>p\<close> and \<^verbatim>\<open>limit\<close> is the list of the bytes from \<^verbatim>\<open>p\<close> up to \<^verbatim>\<open>limit\<close>, NULL is \<open>None\<close>.
\<close>

type_synonym slice = "byte list"

section \<open>Slices\<close>

fun memcmp :: "byte list \<Rightarrow> byte list \<Rightarrow> nat \<Rightarrow> int" where
  "memcmp a b 0 = 0"
| "memcmp a b (Suc n) =
     (if hd a < hd b then - 1 else if hd b < hd a then 1 else memcmp (tl a) (tl b) n)"

definition Slice_compare :: "slice \<Rightarrow> slice \<Rightarrow> int" where
  "Slice_compare a b =
     (let min_len = (if length a < length b then length a else length b); r = memcmp a b min_len
      in if r = 0 then (if length a < length b then - 1 else if length a > length b then 1 else r) else r)"

definition Slice_starts_with :: "slice \<Rightarrow> slice \<Rightarrow> bool" where
  "Slice_starts_with a x \<longleftrightarrow> length a \<ge> length x \<and> memcmp a x (length x) = 0"

definition Slice_eq :: "slice \<Rightarrow> slice \<Rightarrow> bool" where
  "Slice_eq x y \<longleftrightarrow> length x = length y \<and> memcmp x y (length x) = 0"

section \<open>Fixed-width numbers\<close>

text \<open>The first argument is \<^verbatim>\<open>port::kLittleEndian\<close>: \<^verbatim>\<open>memcpy\<close> copies the bytes in the order of the machine.\<close>

definition EncodeFixed32 :: "bool \<Rightarrow> u32 \<Rightarrow> byte list" where
  "EncodeFixed32 kLittleEndian v =
     (if kLittleEndian then le_bytes 4 (unat v)
      else [ucast (v AND 0xff), ucast (drop_bit 8 v AND 0xff), ucast (drop_bit 16 v AND 0xff),
            ucast (drop_bit 24 v AND 0xff)])"

definition EncodeFixed64 :: "bool \<Rightarrow> u64 \<Rightarrow> byte list" where
  "EncodeFixed64 kLittleEndian v =
     (if kLittleEndian then le_bytes 8 (unat v)
      else [ucast (v AND 0xff), ucast (drop_bit 8 v AND 0xff), ucast (drop_bit 16 v AND 0xff),
            ucast (drop_bit 24 v AND 0xff), ucast (drop_bit 32 v AND 0xff), ucast (drop_bit 40 v AND 0xff),
            ucast (drop_bit 48 v AND 0xff), ucast (drop_bit 56 v AND 0xff)])"

definition DecodeFixed32 :: "bool \<Rightarrow> byte list \<Rightarrow> u32" where
  "DecodeFixed32 kLittleEndian p =
     (if kLittleEndian then of_nat (le_val (take 4 p))
      else ucast (p ! 0) OR push_bit 8 (ucast (p ! 1)) OR push_bit 16 (ucast (p ! 2)) OR push_bit 24 (ucast (p ! 3)))"

definition DecodeFixed64 :: "bool \<Rightarrow> byte list \<Rightarrow> u64" where
  "DecodeFixed64 kLittleEndian p =
     (if kLittleEndian then of_nat (le_val (take 8 p))
      else let lo = ucast (DecodeFixed32 kLittleEndian p); hi = ucast (DecodeFixed32 kLittleEndian (drop 4 p))
           in push_bit 32 hi OR lo)"

text \<open>From here on the machine is little-endian, as all devices of the app are.\<close>

definition PutFixed32 :: "byte list \<Rightarrow> u32 \<Rightarrow> byte list" where
  "PutFixed32 dst v = dst @ EncodeFixed32 True v"

definition PutFixed64 :: "byte list \<Rightarrow> u64 \<Rightarrow> byte list" where
  "PutFixed64 dst v = dst @ EncodeFixed64 True v"

section \<open>Varints\<close>

definition EncodeVarint32 :: "u32 \<Rightarrow> byte list" where
  "EncodeVarint32 v =
     (let B = 128
      in if v < push_bit 7 1 then [ucast v]
         else if v < push_bit 14 1 then [ucast (v OR B), ucast (drop_bit 7 v)]
         else if v < push_bit 21 1 then [ucast (v OR B), ucast (drop_bit 7 v OR B), ucast (drop_bit 14 v)]
         else if v < push_bit 28 1
         then [ucast (v OR B), ucast (drop_bit 7 v OR B), ucast (drop_bit 14 v OR B), ucast (drop_bit 21 v)]
         else [ucast (v OR B), ucast (drop_bit 7 v OR B), ucast (drop_bit 14 v OR B), ucast (drop_bit 21 v OR B),
               ucast (drop_bit 28 v)])"

definition PutVarint32 :: "byte list \<Rightarrow> u32 \<Rightarrow> byte list" where
  "PutVarint32 dst v = dst @ EncodeVarint32 v"

lemma drop_bit_less: "(128 :: u64) \<le> v \<Longrightarrow> unat (drop_bit 7 v) < unat v"
proof -
  assume "128 \<le> v"
  then have "128 \<le> unat v" by (simp add: word_le_nat_alt)
  then show ?thesis by (simp add: unat_drop_bit)
qed

function EncodeVarint64 :: "u64 \<Rightarrow> byte list" where
  "EncodeVarint64 v = (if v \<ge> 128 then ucast ((v AND 127) OR 128) # EncodeVarint64 (drop_bit 7 v) else [ucast v])"
  by pat_completeness auto
termination
  by (relation "measure unat") (auto intro: drop_bit_less)

declare EncodeVarint64.simps [simp del]

definition PutVarint64 :: "byte list \<Rightarrow> u64 \<Rightarrow> byte list" where
  "PutVarint64 dst v = dst @ EncodeVarint64 v"

function VarintLength_loop :: "u64 \<Rightarrow> nat \<Rightarrow> nat" where
  "VarintLength_loop v len = (if v \<ge> 128 then VarintLength_loop (drop_bit 7 v) (len + 1) else len)"
  by pat_completeness auto
termination
  by (relation "measure (unat \<circ> fst)") (auto intro: drop_bit_less)

declare VarintLength_loop.simps [simp del]

definition VarintLength :: "u64 \<Rightarrow> nat" where
  "VarintLength v = VarintLength_loop v 1"

text \<open>The loops read byte after byte; \<open>shift\<close> grows by 7 up to the width of the number.\<close>

fun GetVarint32_loop :: "nat \<Rightarrow> u32 \<Rightarrow> byte list \<Rightarrow> (u32 \<times> byte list) option" where
  "GetVarint32_loop shift result [] = None"
| "GetVarint32_loop shift result (byte # p) =
     (if shift \<le> 28 then
        if byte AND 128 \<noteq> 0 then GetVarint32_loop (shift + 7) (result OR push_bit shift (ucast byte AND 127)) p
        else Some (result OR push_bit shift (ucast byte), p)
      else None)"

definition GetVarint32PtrFallback :: "byte list \<Rightarrow> (u32 \<times> byte list) option" where
  "GetVarint32PtrFallback p = GetVarint32_loop 0 0 p"

definition GetVarint32Ptr :: "byte list \<Rightarrow> (u32 \<times> byte list) option" where
  "GetVarint32Ptr p =
     (case p of
        byte # q \<Rightarrow> if ucast byte AND (128 :: u32) = 0 then Some (ucast byte, q) else GetVarint32PtrFallback p
      | [] \<Rightarrow> GetVarint32PtrFallback p)"

text \<open>The variants for slices: the value on success, and the slice, which moves only on success.\<close>

definition GetVarint32 :: "slice \<Rightarrow> u32 option \<times> slice" where
  "GetVarint32 input = (case GetVarint32Ptr input of None \<Rightarrow> (None, input) | Some (v, q) \<Rightarrow> (Some v, q))"

fun GetVarint64_loop :: "nat \<Rightarrow> u64 \<Rightarrow> byte list \<Rightarrow> (u64 \<times> byte list) option" where
  "GetVarint64_loop shift result [] = None"
| "GetVarint64_loop shift result (byte # p) =
     (if shift \<le> 63 then
        if byte AND 128 \<noteq> 0 then GetVarint64_loop (shift + 7) (result OR push_bit shift (ucast byte AND 127)) p
        else Some (result OR push_bit shift (ucast byte), p)
      else None)"

definition GetVarint64Ptr :: "byte list \<Rightarrow> (u64 \<times> byte list) option" where
  "GetVarint64Ptr p = GetVarint64_loop 0 0 p"

definition GetVarint64 :: "slice \<Rightarrow> u64 option \<times> slice" where
  "GetVarint64 input = (case GetVarint64Ptr input of None \<Rightarrow> (None, input) | Some (v, q) \<Rightarrow> (Some v, q))"

section \<open>Strings with their length in front\<close>

text \<open>The size becomes a \<^verbatim>\<open>uint32_t\<close>.\<close>

definition PutLengthPrefixedSlice :: "byte list \<Rightarrow> slice \<Rightarrow> byte list" where
  "PutLengthPrefixedSlice dst v = PutVarint32 dst (of_nat (length v)) @ v"

definition GetLengthPrefixedSlicePtr :: "byte list \<Rightarrow> (slice \<times> byte list) option" where
  "GetLengthPrefixedSlicePtr p =
     (case GetVarint32Ptr p of
        None \<Rightarrow> None
      | Some (len, p) \<Rightarrow> if unat len > length p then None else Some (take (unat len) p, drop (unat len) p))"

text \<open>When the length is there but the bytes are not, the slice has moved past the length.\<close>

definition GetLengthPrefixedSlice :: "slice \<Rightarrow> slice option \<times> slice" where
  "GetLengthPrefixedSlice input =
     (case GetVarint32 input of
        (Some len, input) \<Rightarrow>
          if length input \<ge> unat len then (Some (take (unat len) input), drop (unat len) input) else (None, input)
      | (None, input) \<Rightarrow> (None, input))"

section \<open>Both byte orders\<close>

text \<open>The shifts of the portable branch write and read what \<^verbatim>\<open>memcpy\<close> does on a little-endian machine.\<close>

lemma EncodeFixed32_portable: "EncodeFixed32 little v = le_bytes 4 (unat v)"
  by (simp add: EncodeFixed32_def le_bytes_4 ucast_and_FF unat_drop_bit)

lemma EncodeFixed64_portable: "EncodeFixed64 little v = le_bytes 8 (unat v)"
  by (simp add: EncodeFixed64_def le_bytes_4 le_bytes_8 ucast_and_FF unat_drop_bit div_mult2_eq [symmetric])

lemma DecodeFixed32_portable:
  assumes "4 \<le> length p"
  shows "DecodeFixed32 little p = of_nat (le_val (take 4 p))"
proof (cases little)
  case False
  obtain b0 b1 b2 b3 r where p: "p = b0 # b1 # b2 # b3 # r"
    using assms by (auto simp: Suc_le_length_iff numeral_eq_Suc)
  have "unat (ucast b0 OR push_bit 8 (ucast b1) OR push_bit 16 (ucast b2) OR push_bit 24 (ucast b3) :: u32) = le_val [b0, b1, b2, b3]"
    by (rule or_bytes_4) simp
  then have "ucast b0 OR push_bit 8 (ucast b1) OR push_bit 16 (ucast b2) OR push_bit 24 (ucast b3) = (of_nat (le_val [b0, b1, b2, b3]) :: u32)"
    by (metis of_nat_unat ucast_id)
  moreover have "take 4 p = [b0, b1, b2, b3]" by (simp add: p)
  ultimately show ?thesis using False by (simp add: DecodeFixed32_def p)
qed (simp add: DecodeFixed32_def)

lemma DecodeFixed64_portable:
  assumes "8 \<le> length p"
  shows "DecodeFixed64 little p = of_nat (le_val (take 8 p))"
proof (cases little)
  case False
  have "take 8 p = take 4 p @ take 4 (drop 4 p)" using take_add [of 4 4 p] by simp
  then have val: "le_val (take 8 p) = le_val (take 4 p) + 2 ^ 32 * le_val (take 4 (drop 4 p))"
    using assms by (simp add: le_val_append)
  have lt: "le_val (take 4 q) < 2 ^ 32" for q
    using le_val_less [of "take 4 q"] power_increasing [of "length (take 4 q)" 4 "256 :: nat"] by simp
  let ?lo = "of_nat (le_val (take 4 p)) :: u32" and ?hi = "of_nat (le_val (take 4 (drop 4 p))) :: u32"
  have lo: "unat ?lo = le_val (take 4 p)" and hi: "unat ?hi = le_val (take 4 (drop 4 p))"
    using lt by (simp_all add: unsigned_of_nat take_bit_nat_eq_self)
  have "unat (ucast ?lo OR push_bit 32 (ucast ?hi) :: u64) = unat ?lo + 2 ^ 32 * unat ?hi"
    using unat_or_push [of "ucast ?lo :: u64" 32 "ucast ?hi"] unat_u32_less [of ?lo] unat_u32_less [of ?hi] by simp
  then have "ucast ?lo OR push_bit 32 (ucast ?hi) = (of_nat (unat ?lo + 2 ^ 32 * unat ?hi) :: u64)"
    by (metis of_nat_unat ucast_id)
  then show ?thesis using False assms val lo hi
    by (simp add: DecodeFixed64_def DecodeFixed32_portable Let_def or.commute)
qed (simp add: DecodeFixed64_def)

lemma DecodeFixed32_Encode: "DecodeFixed32 l (EncodeFixed32 l' v @ rest) = v"
  using unat_u32_less [of v] by (simp add: DecodeFixed32_portable EncodeFixed32_portable le_val_le_bytes)

lemma DecodeFixed64_Encode: "DecodeFixed64 l (EncodeFixed64 l' v @ rest) = v"
  using unat_u64_less [of v] by (simp add: DecodeFixed64_portable EncodeFixed64_portable le_val_le_bytes)

section \<open>Varints\<close>

lemma ucast_byte: "(ucast w :: byte) = of_nat (unat w)"
  by (rule unsigned_word_eqI) (simp add: unsigned_ucast_eq unsigned_of_nat)

lemma or_128_byte: "b OR 128 = (of_nat (unat b mod 128 + 128) :: byte)"
proof -
  have "b OR 128 = (b AND 0x7F) OR push_bit 7 1"
  proof (rule bit_word_eqI)
    fix n assume "n < LENGTH(8)"
    then have "n \<in> {0, 1, 2, 3, 4, 5, 6, 7}" by auto
    then show "bit (b OR 128) n = bit ((b AND 0x7F) OR push_bit 7 1) n"
      by (auto simp: bit_or_iff bit_and_iff bit_push_bit_iff)
  qed
  also have "\<dots> = (b AND 0x7F) + push_bit 7 1"
    by (rule or_eq_add_low) (simp add: unat_and_7F)
  also have "b AND 0x7F = of_nat (unat b mod 128)"
    by (simp add: word_unat_eq_iff unat_and_7F unat_byte_of_nat)
  finally show ?thesis by simp
qed

lemma ucast_or_128:
  fixes w :: "'a::len word"
  assumes "8 \<le> LENGTH('a)"
  shows "(ucast (w OR 128) :: byte) = of_nat (unat w mod 128 + 128)"
proof -
  have "unat (ucast w :: byte) mod 128 = unat w mod 128"
    by (simp add: unsigned_ucast_eq take_bit_eq_mod mod_mod_cancel)
  moreover have "(ucast (w OR 128) :: byte) = ucast w OR 128"
    by (rule bit_word_eqI) (use assms in \<open>auto simp: bit_or_iff bit_ucast_iff\<close>)
  ultimately show ?thesis by (simp only: or_128_byte)
qed

lemma varint_cons: "\<not> n < 128 \<Longrightarrow> varint_bytes n = of_nat (n mod 128 + 128) # varint_bytes (n div 128)"
  by (simp add: varint_bytes.simps [of n])

lemma varint_one: "n < 128 \<Longrightarrow> varint_bytes n = [of_nat n]"
  by (simp add: varint_bytes.simps [of n])

lemma EncodeVarint32_bytes: "EncodeVarint32 v = varint_bytes (unat v)"
proof -
  let ?n = "unat v"
  have sh: "(ucast (drop_bit k v OR 128) :: byte) = of_nat (?n div 2 ^ k mod 128 + 128)"
      "(ucast (drop_bit k v) :: byte) = of_nat (?n div 2 ^ k)" for k
    by (simp_all only: ucast_or_128 [OF _, of "drop_bit k v"] ucast_byte unat_drop_bit) (simp add: ucast_or_128 unat_drop_bit)
  have z: "(ucast (v OR 128) :: byte) = of_nat (?n mod 128 + 128)" by (rule ucast_or_128) simp
  have lt: "v < push_bit 7 1 \<longleftrightarrow> ?n < 2 ^ 7" "v < push_bit 14 1 \<longleftrightarrow> ?n < 2 ^ 14"
    "v < push_bit 21 1 \<longleftrightarrow> ?n < 2 ^ 21" "v < push_bit 28 1 \<longleftrightarrow> ?n < 2 ^ 28"
    by (simp_all add: word_less_nat_alt)
  have d: "?n div 16384 div 128 = ?n div 2097152" "?n div 2097152 div 128 = ?n div 268435456"
    "?n div 128 div 128 = ?n div 16384" by (simp_all add: div_mult2_eq [symmetric])
  consider "?n < 2 ^ 7" | "\<not> ?n < 2 ^ 7" "?n < 2 ^ 14" | "\<not> ?n < 2 ^ 14" "?n < 2 ^ 21"
    | "\<not> ?n < 2 ^ 21" "?n < 2 ^ 28" | "\<not> ?n < 2 ^ 28" by linarith
  then show ?thesis
  proof cases
    case 1
    then have "v < push_bit 7 1" by (simp only: lt)
    then show ?thesis using 1 by (simp only: EncodeVarint32_def Let_def if_True) (simp add: varint_one)
  next
    case 2
    then have "varint_bytes ?n = [of_nat (?n mod 128 + 128), of_nat (?n div 2 ^ 7)]"
      using varint_cons [of ?n] varint_one [of "?n div 128"] by simp
    then show ?thesis using 2 by (simp only: EncodeVarint32_def Let_def lt z sh if_False if_True)
  next
    case 3
    then have "varint_bytes ?n = [of_nat (?n mod 128 + 128), of_nat (?n div 2 ^ 7 mod 128 + 128), of_nat (?n div 2 ^ 14)]"
      using varint_cons [of ?n] varint_cons [of "?n div 128"] varint_one [of "?n div 2 ^ 14"] by (simp add: d)
    moreover have "\<not> ?n < 2 ^ 7" using 3 by simp
    ultimately show ?thesis using 3 by (simp only: EncodeVarint32_def Let_def lt z sh if_False if_True)
  next
    case 4
    then have "varint_bytes ?n = [of_nat (?n mod 128 + 128), of_nat (?n div 2 ^ 7 mod 128 + 128),
        of_nat (?n div 2 ^ 14 mod 128 + 128), of_nat (?n div 2 ^ 21)]"
      using varint_cons [of ?n] varint_cons [of "?n div 128"] varint_cons [of "?n div 2 ^ 14"] varint_one [of "?n div 2 ^ 21"]
      by (simp add: d)
    moreover have "\<not> ?n < 2 ^ 7" "\<not> ?n < 2 ^ 14" using 4 by simp_all
    ultimately show ?thesis using 4 by (simp only: EncodeVarint32_def Let_def lt z sh if_False if_True)
  next
    case 5
    have "?n < 2 ^ 32" using unat_u32_less [of v] by simp
    with 5 have "varint_bytes ?n = [of_nat (?n mod 128 + 128), of_nat (?n div 2 ^ 7 mod 128 + 128),
        of_nat (?n div 2 ^ 14 mod 128 + 128), of_nat (?n div 2 ^ 21 mod 128 + 128), of_nat (?n div 2 ^ 28)]"
      using varint_cons [of ?n] varint_cons [of "?n div 128"] varint_cons [of "?n div 2 ^ 14"] varint_cons [of "?n div 2 ^ 21"]
        varint_one [of "?n div 2 ^ 28"] by (simp add: d)
    moreover have "\<not> ?n < 2 ^ 7" "\<not> ?n < 2 ^ 14" "\<not> ?n < 2 ^ 21" using 5 by simp_all
    ultimately show ?thesis using 5 by (simp only: EncodeVarint32_def Let_def lt z sh if_False if_True)
  qed
qed

lemma EncodeVarint64_bytes: "EncodeVarint64 v = varint_bytes (unat v)"
proof (induction v rule: EncodeVarint64.induct)
  case (1 v)
  show ?case
  proof (cases "128 \<le> v")
    case True
    then have "\<not> unat v < 128" by (simp add: word_le_nat_alt)
    moreover have "(ucast ((v AND 127) OR 128) :: byte) = of_nat (unat v mod 128 + 128)"
      using ucast_or_128 [of "v AND 127"] by (simp add: unat_and_7F)
    ultimately show ?thesis using True "1.IH" by (simp add: EncodeVarint64.simps [of v] varint_cons unat_drop_bit)
  next
    case False
    then have "unat v < 128" by (simp add: word_le_nat_alt)
    then show ?thesis using False by (simp add: EncodeVarint64.simps [of v] varint_one)
  qed
qed

lemma VarintLength_loop_eq: "VarintLength_loop v n = length (varint_bytes (unat v)) + n - 1"
proof (induction v n rule: VarintLength_loop.induct)
  case (1 v n)
  show ?case
  proof (cases "128 \<le> v")
    case True
    then have "\<not> unat v < 128" by (simp add: word_le_nat_alt)
    then show ?thesis using True "1.IH" by (simp add: VarintLength_loop.simps [of v] varint_cons unat_drop_bit)
  next
    case False
    then have "unat v < 128" by (simp add: word_le_nat_alt)
    then show ?thesis using False by (simp add: VarintLength_loop.simps [of v] varint_one)
  qed
qed

lemma varint_head:
  "unat (hd (varint_bytes n)) mod 128 = n mod 128" "hd (varint_bytes n) AND 128 = 0 \<longleftrightarrow> n < 128"
  "n < 128 \<Longrightarrow> unat (hd (varint_bytes n)) = n"
  by (simp_all add: varint_bytes.simps [of n] and_80_zero unat_byte_of_nat mod_add_self2 del: of_nat_add)

lemma varint_parts:
  obtains b where "n < 128" "varint_bytes n = [b]" "b AND 128 = 0" "unat b = n"
  | b where "\<not> n < 128" "varint_bytes n = b # varint_bytes (n div 128)" "b AND 128 \<noteq> 0" "unat b mod 128 = n mod 128"
proof (cases "n < 128")
  case True
  show ?thesis by (rule that(1) [of "hd (varint_bytes n)"]) (use True varint_head [of n] in \<open>simp_all add: varint_one\<close>)
next
  case False
  show ?thesis
  proof (rule that(2) [of "hd (varint_bytes n)"])
    show "varint_bytes n = hd (varint_bytes n) # varint_bytes (n div 128)" by (simp only: varint_cons [OF False] list.sel)
  qed (use False varint_head [of n] in blast)+
qed

lemma shifted_split: "r + 2 ^ k * (n mod 128) + 2 ^ (k + 7) * (n div 128) = r + 2 ^ k * n" for n :: nat
proof -
  have "2 ^ k * n = 2 ^ k * (n mod 128 + 128 * (n div 128))" by simp
  also have "\<dots> = 2 ^ k * (n mod 128) + 2 ^ (k + 7) * (n div 128)" by (simp only: distrib_left power_add) simp
  finally show ?thesis by simp
qed

lemma low_bits_less: "r < 2 ^ k \<Longrightarrow> r + 2 ^ k * (n mod 128) < 2 ^ (k + 7)" for n :: nat
proof -
  assume "r < 2 ^ k"
  moreover have "2 ^ k * (n mod 128) \<le> 2 ^ k * (127::nat)" by (rule mult_le_mono2) simp
  ultimately have "r + 2 ^ k * (n mod 128) < 2 ^ k + 2 ^ k * 127" by linarith
  then show ?thesis by (simp add: power_add)
qed

lemma shift_room:
  fixes n r :: nat
  assumes "\<not> n < 128" "r + 2 ^ k * n < 2 ^ w"
  shows "k + 7 < w"
proof (rule ccontr)
  assume "\<not> k + 7 < w"
  then have "(2::nat) ^ w \<le> 2 ^ (k + 7)" by (intro power_increasing) simp_all
  also have "\<dots> \<le> 2 ^ k * n" using assms(1) by (simp add: power_add)
  finally show False using assms(2) by linarith
qed

lemma unat_or_value:
  fixes r :: "'a::len word"
  assumes "unat r < 2 ^ k" "unat r + 2 ^ k * n < 2 ^ LENGTH('a)" "unat x = m" "m \<le> n"
  shows "unat (r OR push_bit k x) = unat r + 2 ^ k * m"
proof -
  have "unat r + 2 ^ k * m \<le> unat r + 2 ^ k * n" using assms(4) by simp
  then have "unat r + 2 ^ k * unat x < 2 ^ LENGTH('a)" using assms(2,3) by (simp only: order.strict_trans1)
  from unat_or_push [OF assms(1) this] show ?thesis using assms(3) by simp
qed

lemma GetVarint32_loop_bytes:
  "unat r < 2 ^ k \<Longrightarrow> unat r + 2 ^ k * n < 2 ^ 32 \<Longrightarrow> k \<le> 28 \<Longrightarrow> 7 dvd k \<Longrightarrow>
     GetVarint32_loop k r (varint_bytes n @ rest) = Some (of_nat (unat r + 2 ^ k * n), rest)"
proof (induction n arbitrary: r k rule: varint_bytes.induct)
  case (1 n)
  show ?case
  proof (cases rule: varint_parts [of n])
    case (1 b)
    have "unat (r OR push_bit k (ucast b)) = unat r + 2 ^ k * n"
      by (rule unat_or_value [where n = n]) (use "1.prems" 1 in simp_all)
    then have "r OR push_bit k (ucast b) = of_nat (unat r + 2 ^ k * n)" by (metis of_nat_unat ucast_id)
    then show ?thesis using 1 "1.prems" by simp
  next
    case (2 b)
    let ?r = "r OR push_bit k (ucast b AND 127)"
    have m: "unat (ucast b AND 127 :: u32) = n mod 128" using unat_and_7F [of "ucast b :: u32"] 2(4) by simp
    have r: "unat ?r = unat r + 2 ^ k * (n mod 128)"
      by (rule unat_or_value [where n = n]) (use "1.prems" m in simp_all)
    have "k + 7 < 32" by (rule shift_room [OF 2(1) "1.prems"(2)])
    moreover obtain j where "k = 7 * j" using "1.prems"(4) by (elim dvdE)
    ultimately have k: "k + 7 \<le> 28" "7 dvd k + 7" by auto
    have "GetVarint32_loop (k + 7) ?r (varint_bytes (n div 128) @ rest) =
        Some (of_nat (unat ?r + 2 ^ (k + 7) * (n div 128)), rest)"
    proof (rule "1.IH" [OF 2(1)])
      show "unat ?r < 2 ^ (k + 7)" unfolding r by (rule low_bits_less [OF "1.prems"(1)])
      show "unat ?r + 2 ^ (k + 7) * (n div 128) < 2 ^ 32" unfolding r shifted_split by (rule "1.prems"(2))
    qed (use k in auto)
    then show ?thesis using 2 "1.prems"(3) unfolding r shifted_split by simp
  qed
qed

lemma GetVarint64_loop_bytes:
  "unat r < 2 ^ k \<Longrightarrow> unat r + 2 ^ k * n < 2 ^ 64 \<Longrightarrow> k \<le> 63 \<Longrightarrow>
     GetVarint64_loop k r (varint_bytes n @ rest) = Some (of_nat (unat r + 2 ^ k * n), rest)"
proof (induction n arbitrary: r k rule: varint_bytes.induct)
  case (1 n)
  show ?case
  proof (cases rule: varint_parts [of n])
    case (1 b)
    have "unat (r OR push_bit k (ucast b)) = unat r + 2 ^ k * n"
      by (rule unat_or_value [where n = n]) (use "1.prems" 1 in simp_all)
    then have "r OR push_bit k (ucast b) = of_nat (unat r + 2 ^ k * n)" by (metis of_nat_unat ucast_id)
    then show ?thesis using 1 "1.prems" by simp
  next
    case (2 b)
    let ?r = "r OR push_bit k (ucast b AND 127)"
    have m: "unat (ucast b AND 127 :: u64) = n mod 128" using unat_and_7F [of "ucast b :: u64"] 2(4) by simp
    have r: "unat ?r = unat r + 2 ^ k * (n mod 128)"
      by (rule unat_or_value [where n = n]) (use "1.prems" m in simp_all)
    have k: "k + 7 \<le> 63" using shift_room [OF 2(1) "1.prems"(2)] by simp
    have "GetVarint64_loop (k + 7) ?r (varint_bytes (n div 128) @ rest) =
        Some (of_nat (unat ?r + 2 ^ (k + 7) * (n div 128)), rest)"
    proof (rule "1.IH" [OF 2(1)])
      show "unat ?r < 2 ^ (k + 7)" unfolding r by (rule low_bits_less [OF "1.prems"(1)])
      show "unat ?r + 2 ^ (k + 7) * (n div 128) < 2 ^ 64" unfolding r shifted_split by (rule "1.prems"(2))
    qed (use k in auto)
    then show ?thesis using 2 "1.prems"(3) unfolding r shifted_split by simp
  qed
qed

lemma GetVarint32Ptr_fallback: "GetVarint32Ptr p = GetVarint32_loop 0 0 p"
proof (cases p)
  case (Cons b q)
  have "ucast b AND 128 = (0 :: u32) \<longleftrightarrow> b AND 128 = 0"
    by (simp add: word_unat_eq_iff unsigned_and_eq)
  then show ?thesis using Cons by (simp add: GetVarint32Ptr_def GetVarint32PtrFallback_def)
qed (simp add: GetVarint32Ptr_def GetVarint32PtrFallback_def)

lemma GetVarint32_loop_shorter: "GetVarint32_loop k r p = Some (v, q) \<Longrightarrow> length q < length p"
  by (induction k r p rule: GetVarint32_loop.induct) (auto split: if_splits)

lemma GetVarint64_loop_shorter: "GetVarint64_loop k r p = Some (v, q) \<Longrightarrow> length q < length p"
  by (induction k r p rule: GetVarint64_loop.induct) (auto split: if_splits)

lemma GetVarint32_Encode: "GetVarint32 (EncodeVarint32 v @ rest) = (Some v, rest)"
  using GetVarint32_loop_bytes [of 0 0 "unat v" rest] unat_u32_less [of v]
  by (simp add: GetVarint32_def GetVarint32Ptr_fallback EncodeVarint32_bytes)

lemma GetVarint64_Encode: "GetVarint64 (EncodeVarint64 v @ rest) = (Some v, rest)"
  using GetVarint64_loop_bytes [of 0 0 "unat v" rest] unat_u64_less [of v]
  by (simp add: GetVarint64_def GetVarint64Ptr_def EncodeVarint64_bytes)

lemma GetLengthPrefixedSlice_Put:
  "length v < 2 ^ 32 \<Longrightarrow> GetLengthPrefixedSlice (PutLengthPrefixedSlice [] v @ rest) = (Some v, rest)"
  using GetVarint32_Encode [of "of_nat (length v)" "v @ rest"]
  by (simp add: GetLengthPrefixedSlice_def PutLengthPrefixedSlice_def PutVarint32_def unsigned_of_nat take_bit_nat_eq_self)

lemma Put_append:
  "PutVarint32 dst v = dst @ PutVarint32 [] v" "PutVarint64 dst w = dst @ PutVarint64 [] w"
  "PutFixed32 dst v = dst @ PutFixed32 [] v" "PutFixed64 dst w = dst @ PutFixed64 [] w"
  "PutLengthPrefixedSlice dst s = dst @ PutLengthPrefixedSlice [] s"
  by (simp_all add: PutVarint32_def PutVarint64_def PutFixed32_def PutFixed64_def PutLengthPrefixedSlice_def)

section \<open>Arrays of numbers\<close>

lemma unat_u32_of_nat: "n < 2 ^ 32 \<Longrightarrow> unat (of_nat n :: u32) = n"
  by (simp add: unsigned_of_nat take_bit_nat_eq_self)

lemma of_nat_less_u32: "m < 2 ^ 32 \<Longrightarrow> n < 2 ^ 32 \<Longrightarrow> (of_nat m :: u32) < of_nat n \<longleftrightarrow> m < n"
  by (simp add: word_less_nat_alt unat_u32_of_nat)

lemma drop_concat_4:
  "(\<And>x. x \<in> set xs \<Longrightarrow> length (f x) = 4) \<Longrightarrow> j \<le> length xs \<Longrightarrow> drop (4 * j) (concat (map f xs) @ r) = concat (map f (drop j xs)) @ r"
proof (induction xs arbitrary: j)
  case (Cons x xs)
  then show ?case by (cases j) auto
qed simp

lemma length_concat_4: "(\<And>x. x \<in> set xs \<Longrightarrow> length (f x) = 4) \<Longrightarrow> length (concat (map f xs)) = 4 * length xs"
  by (induction xs) auto

section \<open>The order of slices\<close>

lemma Slice_compare_simps [simp]:
  "Slice_compare [] [] = 0" "Slice_compare (a # as) [] = 1" "Slice_compare [] (b # bs) = - 1"
  "Slice_compare (a # as) (b # bs) = (if a < b then - 1 else if b < a then 1 else Slice_compare as bs)"
  by (auto simp: Slice_compare_def Let_def)

lemma Slice_compare_eq_0: "Slice_compare a b = 0 \<longleftrightarrow> a = b"
  by (induction a b rule: list_induct2') (auto simp: not_less)

lemma Slice_compare_flip: "Slice_compare a b < 0 \<longleftrightarrow> 0 < Slice_compare b a"
  by (induction a b rule: list_induct2') auto

lemma Slice_compare_trans: "Slice_compare a b < 0 \<Longrightarrow> Slice_compare b c < 0 \<Longrightarrow> Slice_compare a c < 0"
proof (induction a arbitrary: b c)
  case Nil
  then show ?case by (cases b; cases c) auto
next
  case (Cons x a)
  then show ?case by (cases b; cases c) (auto split: if_splits)
qed

lemma Slice_compare_append: "Slice_compare (p @ a) (p @ b) = Slice_compare a b"
  by (induction p) auto

lemma Slice_eq_iff: "Slice_eq x y \<longleftrightarrow> x = y"
proof (induction x y rule: list_induct2')
  case (4 x xs y ys)
  then show ?case by (auto simp: Slice_eq_def)
qed (auto simp: Slice_eq_def)

lemma Slice_starts_with_iff: "Slice_starts_with a x \<longleftrightarrow> (\<exists>r. a = x @ r)"
proof (induction a x rule: list_induct2')
  case (4 x xs y ys)
  then show ?case by (auto simp: Slice_starts_with_def)
qed (auto simp: Slice_starts_with_def)

end
