(* ===== verification/LdbCrcProps.thy ===== *)
theory LdbCrcProps
  imports LdbCrc
begin

text \<open>
  The checksum of LevelDB is CRC-32C: the tables of \<^verbatim>\<open>util/crc32c.cc\<close> hold the polynomial division of their indices,
  and the loops of \<^verbatim>\<open>Extend\<close> compute it for the whole buffer.
\<close>

section \<open>The polynomial\<close>

text \<open>One bit of the CRC, from the definition of the code; and a whole buffer, byte by byte.\<close>

definition bitstep :: "u32 \<Rightarrow> u32" where
  "bitstep c = drop_bit 1 c XOR (if odd c then 0x82f63b78 else 0)"

definition crc_bits :: "u32 \<Rightarrow> byte list \<Rightarrow> u32" where
  "crc_bits l p = foldl (\<lambda>l b. (bitstep ^^ 8) (l XOR ucast b)) l p"

text \<open>
  \<^verbatim>\<open>bitstep\<close> is linear, so that a table of $2^8$ entries is given by the entries at the powers of two, and a
  byte in a higher place only has to be shifted down first.
\<close>

lemma bitstep_xor: "bitstep (a XOR b) = bitstep a XOR bitstep b"
  by (rule bit_eqI) (auto simp: bitstep_def bit_simps even_xor_iff split: if_splits)

lemma bitsteps_xor: "(bitstep ^^ n) (a XOR b) = (bitstep ^^ n) a XOR (bitstep ^^ n) b"
  by (induction n arbitrary: a b) (auto simp: bitstep_xor)

lemma bitsteps_shift: "c AND mask n = 0 \<Longrightarrow> (bitstep ^^ n) c = drop_bit n c"
proof (induction n arbitrary: c)
  case (Suc n)
  have low: "\<not> bit c i" if "i \<le> n" "i < 32" for i
    using Suc.prems that by (auto simp: bit_eq_iff bit_simps less_Suc_eq_le)
  then have "even c" using low [of 0] by (simp add: bit_0)
  then have one: "bitstep c = drop_bit 1 c" by (simp add: bitstep_def)
  have "drop_bit 1 c AND mask n = 0"
  proof (rule bit_eqI)
    fix i
    show "bit (drop_bit 1 c AND mask n) i = bit 0 i"
      using low [of "Suc i"] bit_imp_le_length [of c "Suc i"] by (auto simp: bit_simps)
  qed
  then show ?case by (simp add: funpow_Suc_right Suc.IH one del: funpow.simps)
qed simp

lemma bitsteps_pow: "k < 32 \<Longrightarrow> k < n \<Longrightarrow> (bitstep ^^ n) (push_bit k 1) = (bitstep ^^ (n - Suc k)) 0x82f63b78"
proof -
  assume k: "k < 32" "k < n"
  have "(push_bit k 1 :: u32) AND mask k = 0" by (rule bit_eqI) (auto simp: bit_simps)
  then have "(bitstep ^^ k) (push_bit k 1) = drop_bit k (push_bit k 1)" by (rule bitsteps_shift)
  also have "\<dots> = 1" using k by (auto intro!: bit_eqI simp: bit_simps)
  finally have "(bitstep ^^ k) (push_bit k 1) = 1" .
  moreover have "n = (n - Suc k) + Suc 0 + k" using k by simp
  then have "(bitstep ^^ n) x = (bitstep ^^ (n - Suc k)) (bitstep ((bitstep ^^ k) x))" for x
    using funpow_add [of "n - Suc k" "Suc k" bitstep] k by simp
  ultimately show ?thesis by (simp add: bitstep_def)
qed

lemma bitsteps_poly:
  "(bitstep ^^ 0) 0x82f63b78 = 0x82f63b78"
  "(bitstep ^^ 1) 0x82f63b78 = 0x417b1dbc"
  "(bitstep ^^ 2) 0x82f63b78 = 0x20bd8ede"
  "(bitstep ^^ 3) 0x82f63b78 = 0x105ec76f"
  "(bitstep ^^ 4) 0x82f63b78 = 0x8ad958cf"
  "(bitstep ^^ 5) 0x82f63b78 = 0xc79a971f"
  "(bitstep ^^ 6) 0x82f63b78 = 0xe13b70f7"
  "(bitstep ^^ 7) 0x82f63b78 = 0xf26b8303"
  "(bitstep ^^ 8) 0x82f63b78 = 0xfbc3faf9"
  "(bitstep ^^ 9) 0x82f63b78 = 0xff17c604"
  "(bitstep ^^ 10) 0x82f63b78 = 0x7f8be302"
  "(bitstep ^^ 11) 0x82f63b78 = 0x3fc5f181"
  "(bitstep ^^ 12) 0x82f63b78 = 0x9d14c3b8"
  "(bitstep ^^ 13) 0x82f63b78 = 0x4e8a61dc"
  "(bitstep ^^ 14) 0x82f63b78 = 0x274530ee"
  "(bitstep ^^ 15) 0x82f63b78 = 0x13a29877"
  "(bitstep ^^ 16) 0x82f63b78 = 0x8b277743"
  "(bitstep ^^ 17) 0x82f63b78 = 0xc76580d9"
  "(bitstep ^^ 18) 0x82f63b78 = 0xe144fb14"
  "(bitstep ^^ 19) 0x82f63b78 = 0x70a27d8a"
  "(bitstep ^^ 20) 0x82f63b78 = 0x38513ec5"
  "(bitstep ^^ 21) 0x82f63b78 = 0x9edea41a"
  "(bitstep ^^ 22) 0x82f63b78 = 0x4f6f520d"
  "(bitstep ^^ 23) 0x82f63b78 = 0xa541927e"
  "(bitstep ^^ 24) 0x82f63b78 = 0x52a0c93f"
  "(bitstep ^^ 25) 0x82f63b78 = 0xaba65fe7"
  "(bitstep ^^ 26) 0x82f63b78 = 0xd725148b"
  "(bitstep ^^ 27) 0x82f63b78 = 0xe964b13d"
  "(bitstep ^^ 28) 0x82f63b78 = 0xf64463e6"
  "(bitstep ^^ 29) 0x82f63b78 = 0x7b2231f3"
  "(bitstep ^^ 30) 0x82f63b78 = 0xbf672381"
  "(bitstep ^^ 31) 0x82f63b78 = 0xdd45aab8"
proof -
  have steps:
    "bitstep 0x82f63b78 = 0x417b1dbc"
    "bitstep 0x417b1dbc = 0x20bd8ede"
    "bitstep 0x20bd8ede = 0x105ec76f"
    "bitstep 0x105ec76f = 0x8ad958cf"
    "bitstep 0x8ad958cf = 0xc79a971f"
    "bitstep 0xc79a971f = 0xe13b70f7"
    "bitstep 0xe13b70f7 = 0xf26b8303"
    "bitstep 0xf26b8303 = 0xfbc3faf9"
    "bitstep 0xfbc3faf9 = 0xff17c604"
    "bitstep 0xff17c604 = 0x7f8be302"
    "bitstep 0x7f8be302 = 0x3fc5f181"
    "bitstep 0x3fc5f181 = 0x9d14c3b8"
    "bitstep 0x9d14c3b8 = 0x4e8a61dc"
    "bitstep 0x4e8a61dc = 0x274530ee"
    "bitstep 0x274530ee = 0x13a29877"
    "bitstep 0x13a29877 = 0x8b277743"
    "bitstep 0x8b277743 = 0xc76580d9"
    "bitstep 0xc76580d9 = 0xe144fb14"
    "bitstep 0xe144fb14 = 0x70a27d8a"
    "bitstep 0x70a27d8a = 0x38513ec5"
    "bitstep 0x38513ec5 = 0x9edea41a"
    "bitstep 0x9edea41a = 0x4f6f520d"
    "bitstep 0x4f6f520d = 0xa541927e"
    "bitstep 0xa541927e = 0x52a0c93f"
    "bitstep 0x52a0c93f = 0xaba65fe7"
    "bitstep 0xaba65fe7 = 0xd725148b"
    "bitstep 0xd725148b = 0xe964b13d"
    "bitstep 0xe964b13d = 0xf64463e6"
    "bitstep 0xf64463e6 = 0x7b2231f3"
    "bitstep 0x7b2231f3 = 0xbf672381"
    "bitstep 0xbf672381 = 0xdd45aab8"
    by (simp_all add: bitstep_def)
  show
    "(bitstep ^^ 0) 0x82f63b78 = 0x82f63b78"
    "(bitstep ^^ 1) 0x82f63b78 = 0x417b1dbc"
    "(bitstep ^^ 2) 0x82f63b78 = 0x20bd8ede"
    "(bitstep ^^ 3) 0x82f63b78 = 0x105ec76f"
    "(bitstep ^^ 4) 0x82f63b78 = 0x8ad958cf"
    "(bitstep ^^ 5) 0x82f63b78 = 0xc79a971f"
    "(bitstep ^^ 6) 0x82f63b78 = 0xe13b70f7"
    "(bitstep ^^ 7) 0x82f63b78 = 0xf26b8303"
    "(bitstep ^^ 8) 0x82f63b78 = 0xfbc3faf9"
    "(bitstep ^^ 9) 0x82f63b78 = 0xff17c604"
    "(bitstep ^^ 10) 0x82f63b78 = 0x7f8be302"
    "(bitstep ^^ 11) 0x82f63b78 = 0x3fc5f181"
    "(bitstep ^^ 12) 0x82f63b78 = 0x9d14c3b8"
    "(bitstep ^^ 13) 0x82f63b78 = 0x4e8a61dc"
    "(bitstep ^^ 14) 0x82f63b78 = 0x274530ee"
    "(bitstep ^^ 15) 0x82f63b78 = 0x13a29877"
    "(bitstep ^^ 16) 0x82f63b78 = 0x8b277743"
    "(bitstep ^^ 17) 0x82f63b78 = 0xc76580d9"
    "(bitstep ^^ 18) 0x82f63b78 = 0xe144fb14"
    "(bitstep ^^ 19) 0x82f63b78 = 0x70a27d8a"
    "(bitstep ^^ 20) 0x82f63b78 = 0x38513ec5"
    "(bitstep ^^ 21) 0x82f63b78 = 0x9edea41a"
    "(bitstep ^^ 22) 0x82f63b78 = 0x4f6f520d"
    "(bitstep ^^ 23) 0x82f63b78 = 0xa541927e"
    "(bitstep ^^ 24) 0x82f63b78 = 0x52a0c93f"
    "(bitstep ^^ 25) 0x82f63b78 = 0xaba65fe7"
    "(bitstep ^^ 26) 0x82f63b78 = 0xd725148b"
    "(bitstep ^^ 27) 0x82f63b78 = 0xe964b13d"
    "(bitstep ^^ 28) 0x82f63b78 = 0xf64463e6"
    "(bitstep ^^ 29) 0x82f63b78 = 0x7b2231f3"
    "(bitstep ^^ 30) 0x82f63b78 = 0xbf672381"
    "(bitstep ^^ 31) 0x82f63b78 = 0xdd45aab8"
    by (simp_all add: numeral_eq_Suc steps)
qed

text \<open>A table is doubled by the entry for the next bit.\<close>

definition double :: "u32 list \<Rightarrow> u32 \<Rightarrow> u32 list" where
  "double ts b = ts @ map (\<lambda>t. b XOR t) ts"

lemma double_linear:
  assumes "length ts = 2 ^ k" "\<And>i. i < 2 ^ k \<Longrightarrow> ts ! i = f (of_nat i)" "k < 32" "b = f (push_bit k 1)"
    and lin: "\<And>a b :: u32. f (a XOR b) = f a XOR f b"
  shows "length (double ts b) = 2 ^ Suc k" "i < 2 ^ Suc k \<Longrightarrow> double ts b ! i = f (of_nat i)"
proof -
  show "length (double ts b) = 2 ^ Suc k" using assms(1) by (simp add: double_def)
  assume i: "i < 2 ^ Suc k"
  show "double ts b ! i = f (of_nat i)"
  proof (cases "i < 2 ^ k")
    case False
    have r: "i - 2 ^ k < 2 ^ k" and i_eq: "i = 2 ^ k + (i - 2 ^ k)" using False i by auto
    then have nb: "\<not> bit (i - 2 ^ k) k" by (simp add: bit_iff_odd)
    have "(of_nat i :: u32) = of_nat (2 ^ k) + of_nat (i - 2 ^ k)" by (subst i_eq) (rule of_nat_add)
    also have "\<dots> = push_bit k 1 XOR of_nat (i - 2 ^ k)"
    proof -
      have "(push_bit k 1 :: u32) AND of_nat (i - 2 ^ k) = 0"
        using nb by (auto intro!: bit_eqI simp: bit_simps)
      then show ?thesis by (simp add: disjunctive_add_eq_xor push_bit_eq_mult)
    qed
    finally have "f (of_nat i) = b XOR ts ! (i - 2 ^ k)" using assms r by simp
    then show ?thesis using False r assms(1) by (simp add: double_def nth_append)
  qed (use assms in \<open>simp add: double_def nth_append\<close>)
qed

lemma table_linear:
  assumes lin: "\<And>a b :: u32. f (a XOR b) = f a XOR f b" and zero: "f 0 = 0"
    and bs: "length bs \<le> 32" "\<And>k. k < length bs \<Longrightarrow> bs ! k = f (push_bit k 1)"
  shows "length (foldl double [0] bs) = 2 ^ length bs \<and>
         (\<forall>i < 2 ^ length bs. foldl double [0] bs ! i = f (of_nat i))"
  using bs
proof (induction bs rule: rev_induct)
  case (snoc b bs)
  have pre: "bs ! k = f (push_bit k 1)" if "k < length bs" for k
    using snoc.prems(2) [of k] that by (simp add: nth_append)
  have IH: "length (foldl double [0] bs) = 2 ^ length bs"
    "\<And>i. i < 2 ^ length bs \<Longrightarrow> foldl double [0] bs ! i = f (of_nat i)"
    using snoc.IH pre snoc.prems(1) by auto
  have b: "b = f (push_bit (length bs) 1)" using snoc.prems(2) [of "length bs"] by simp
  note d = double_linear [OF IH _ b lin]
  show ?case using d snoc.prems(1) by simp
qed (simp add: zero)

text \<open>Each table of the source holds the CRC of its index, run over one, two, three and four bytes.\<close>
lemma table0_bits:
  assumes "i < 256"
  shows "table0 ! i = (bitstep ^^ 8) (of_nat i)"
proof -
  let ?bs = "[0xf26b8303, 0xe13b70f7, 0xc79a971f, 0x8ad958cf, 0x105ec76f, 0x20bd8ede, 0x417b1dbc, 0x82f63b78] :: u32 list"
  have "table0 = foldl double [0] ?bs" by (simp add: table0_def double_def)
  moreover have "?bs ! k = (bitstep ^^ 8) (push_bit k 1)" if "k < length ?bs" for k
  proof -
    have "(bitstep ^^ 8) (push_bit k 1) = (bitstep ^^ (7 - k)) 0x82f63b78" using bitsteps_pow [of k 8] that by simp
    moreover have "k \<in> {0, 1, 2, 3, 4, 5, 6, 7}" using that by auto
    ultimately show ?thesis by (auto simp: bitsteps_poly bitsteps_poly(2) [simplified])
  qed
  ultimately show ?thesis
    using table_linear [of "bitstep ^^ 8" ?bs, OF bitsteps_xor] assms by (simp add: bitsteps_shift)
qed

lemma table1_bits:
  assumes "i < 256"
  shows "table1 ! i = (bitstep ^^ 16) (of_nat i)"
proof -
  let ?bs = "[0x13a29877, 0x274530ee, 0x4e8a61dc, 0x9d14c3b8, 0x3fc5f181, 0x7f8be302, 0xff17c604, 0xfbc3faf9] :: u32 list"
  have "table1 = foldl double [0] ?bs" by (simp add: table1_def double_def)
  moreover have "?bs ! k = (bitstep ^^ 16) (push_bit k 1)" if "k < length ?bs" for k
  proof -
    have "(bitstep ^^ 16) (push_bit k 1) = (bitstep ^^ (15 - k)) 0x82f63b78" using bitsteps_pow [of k 16] that by simp
    moreover have "k \<in> {0, 1, 2, 3, 4, 5, 6, 7}" using that by auto
    ultimately show ?thesis by (auto simp: bitsteps_poly bitsteps_poly(2) [simplified])
  qed
  ultimately show ?thesis
    using table_linear [of "bitstep ^^ 16" ?bs, OF bitsteps_xor] assms by (simp add: bitsteps_shift)
qed

lemma table2_bits:
  assumes "i < 256"
  shows "table2 ! i = (bitstep ^^ 24) (of_nat i)"
proof -
  let ?bs = "[0xa541927e, 0x4f6f520d, 0x9edea41a, 0x38513ec5, 0x70a27d8a, 0xe144fb14, 0xc76580d9, 0x8b277743] :: u32 list"
  have "table2 = foldl double [0] ?bs" by (simp add: table2_def double_def)
  moreover have "?bs ! k = (bitstep ^^ 24) (push_bit k 1)" if "k < length ?bs" for k
  proof -
    have "(bitstep ^^ 24) (push_bit k 1) = (bitstep ^^ (23 - k)) 0x82f63b78" using bitsteps_pow [of k 24] that by simp
    moreover have "k \<in> {0, 1, 2, 3, 4, 5, 6, 7}" using that by auto
    ultimately show ?thesis by (auto simp: bitsteps_poly bitsteps_poly(2) [simplified])
  qed
  ultimately show ?thesis
    using table_linear [of "bitstep ^^ 24" ?bs, OF bitsteps_xor] assms by (simp add: bitsteps_shift)
qed

lemma table3_bits:
  assumes "i < 256"
  shows "table3 ! i = (bitstep ^^ 32) (of_nat i)"
proof -
  let ?bs = "[0xdd45aab8, 0xbf672381, 0x7b2231f3, 0xf64463e6, 0xe964b13d, 0xd725148b, 0xaba65fe7, 0x52a0c93f] :: u32 list"
  have "table3 = foldl double [0] ?bs" by (simp add: table3_def double_def)
  moreover have "?bs ! k = (bitstep ^^ 32) (push_bit k 1)" if "k < length ?bs" for k
  proof -
    have "(bitstep ^^ 32) (push_bit k 1) = (bitstep ^^ (31 - k)) 0x82f63b78" using bitsteps_pow [of k 32] that by simp
    moreover have "k \<in> {0, 1, 2, 3, 4, 5, 6, 7}" using that by auto
    ultimately show ?thesis by (auto simp: bitsteps_poly bitsteps_poly(2) [simplified])
  qed
  ultimately show ?thesis
    using table_linear [of "bitstep ^^ 32" ?bs, OF bitsteps_xor] assms by (simp add: bitsteps_shift)
qed

section \<open>The code computes the polynomial\<close>

lemma mask8: "(0xff :: u32) = mask 8" by (simp add: mask_eq_exp_minus_1)

lemma byte_split: "c = (c AND mask 8) XOR push_bit 8 (drop_bit 8 c)" for c :: u32
  by (rule bit_eqI) (auto simp: bit_simps dest: bit_imp_le_length)

lemma bitsteps_push: "n + m = k \<Longrightarrow> drop_bit n (push_bit n u) = u \<Longrightarrow> (bitstep ^^ k) (push_bit n u) = (bitstep ^^ m) u"
proof -
  assume k: "n + m = k" and u: "drop_bit n (push_bit n u) = u"
  have "push_bit n u AND mask n = 0" by (rule bit_eqI) (auto simp: bit_simps)
  then have "(bitstep ^^ n) (push_bit n u) = u" using u by (simp add: bitsteps_shift)
  moreover have "(bitstep ^^ k) x = (bitstep ^^ m) ((bitstep ^^ n) x)" for x
    using k funpow_add [of m n bitstep] by (simp add: add.commute)
  ultimately show ?thesis by simp
qed

lemma drop_push: "drop_bit n (push_bit n (drop_bit n c)) = drop_bit n c" for c :: u32
  by (rule bit_eqI) (auto simp: bit_simps dest: bit_imp_le_length)

lemma drop_push_byte: "n \<le> 24 \<Longrightarrow> drop_bit n (push_bit n (c AND mask 8)) = c AND mask 8" for c :: u32
  by (rule bit_eqI) (auto simp: bit_simps dest: bit_imp_le_length)

lemma drop_push_ucast: "n \<le> 24 \<Longrightarrow> drop_bit n (push_bit n (ucast b)) = (ucast b :: u32)" for b :: byte
  by (rule bit_eqI) (auto simp: bit_simps dest: bit_imp_le_length)

lemma unat_low_byte: "unat ((c :: u32) AND mask 8) < 256"
  by (simp add: unat_and_mask)

lemma STEP1_bits: "STEP1 l b = (bitstep ^^ 8) (l XOR ucast b)"
proof -
  let ?c = "l XOR ucast b"
  have low: "(l AND 0xff) XOR ucast b = ?c AND mask 8"
    by (rule bit_eqI) (auto simp: mask8 bit_simps dest: bit_imp_le_length)
  have high: "drop_bit 8 l = drop_bit 8 ?c"
    by (rule bit_eqI) (auto simp: bit_simps dest: bit_imp_le_length)
  have shift: "(bitstep ^^ 8) (push_bit 8 (drop_bit 8 c)) = drop_bit 8 c" for c
    by (simp add: bitsteps_push [of 8 0 8] drop_push)
  have "(bitstep ^^ 8) ?c = (bitstep ^^ 8) (?c AND mask 8) XOR (bitstep ^^ 8) (push_bit 8 (drop_bit 8 ?c))"
    by (rule trans [OF arg_cong [where f = "bitstep ^^ 8", OF byte_split] bitsteps_xor])
  also have "(bitstep ^^ 8) (push_bit 8 (drop_bit 8 ?c)) = drop_bit 8 ?c"
    by (rule shift)
  also have "(bitstep ^^ 8) (?c AND mask 8) = table0 ! unat (?c AND mask 8)"
    using table0_bits [OF unat_low_byte, of ?c] by simp
  finally show ?thesis unfolding STEP1_def Let_def high [symmetric] low [symmetric] by simp
qed

lemma word_bytes:
  "c = (c AND mask 8) XOR push_bit 8 (drop_bit 8 c AND mask 8) XOR push_bit 16 (drop_bit 16 c AND mask 8) XOR
       push_bit 24 (drop_bit 24 c)" for c :: u32
  by (rule bit_eqI) (auto simp: bit_simps dest: bit_imp_le_length)

lemma DecodeFixed32_xor:
  "DecodeFixed32 True (b0 # b1 # b2 # b3 # r) =
   ucast b0 XOR push_bit 8 (ucast b1) XOR push_bit 16 (ucast b2) XOR push_bit 24 (ucast b3)"
proof -
  have "DecodeFixed32 True (b0 # b1 # b2 # b3 # r) = DecodeFixed32 False (b0 # b1 # b2 # b3 # r)"
    by (simp add: DecodeFixed32_portable)
  also have "\<dots> = ucast b0 OR push_bit 8 (ucast b1) OR push_bit 16 (ucast b2) OR push_bit 24 (ucast b3)"
    by (simp add: DecodeFixed32_def)
  also have "\<dots> = ucast b0 XOR push_bit 8 (ucast b1) XOR push_bit 16 (ucast b2) XOR push_bit 24 (ucast b3)"
    by (rule bit_eqI) (auto simp: bit_simps dest: bit_imp_le_length)
  finally show ?thesis .
qed

lemma bitsteps_add: "(bitstep ^^ m) ((bitstep ^^ n) x) = (bitstep ^^ (m + n)) x"
  by (simp add: funpow_add)

lemma STEP4_bits:
  assumes "4 \<le> length p"
  shows "STEP4 l p = crc_bits l (take 4 p)"
proof -
  obtain b0 b1 b2 b3 r where p: "p = b0 # b1 # b2 # b3 # r"
    using assms by (auto simp: Suc_le_length_iff numeral_eq_Suc)
  define c where "c = l XOR DecodeFixed32 True p"
  have top: "unat (drop_bit 24 c) < 256" using unat_u32_less [of c] by (simp add: unat_drop_bit)
  have "STEP4 l p = (bitstep ^^ 32) (c AND mask 8) XOR (bitstep ^^ 24) (drop_bit 8 c AND mask 8) XOR
          (bitstep ^^ 16) (drop_bit 16 c AND mask 8) XOR (bitstep ^^ 8) (drop_bit 24 c)"
    using table0_bits [OF top]
    by (simp add: STEP4_def Let_def c_def [symmetric] mask8 unat_low_byte table1_bits table2_bits table3_bits)
  also have "\<dots> = (bitstep ^^ 32) c"
    by (rule sym, rule trans [OF arg_cong [where f = "bitstep ^^ 32", OF word_bytes]])
      (simp add: bitsteps_xor bitsteps_push [of 8 24 32] bitsteps_push [of 16 16 32] bitsteps_push [of 24 8 32]
        drop_push_byte drop_push del: push_bit_and)
  also have "\<dots> = crc_bits l (take 4 p)"
    by (simp add: c_def p DecodeFixed32_xor crc_bits_def bitsteps_xor bitsteps_add bitsteps_push [of 8 24 32]
        bitsteps_push [of 16 16 32] bitsteps_push [of 24 8 32] drop_push_ucast ac_simps)
  finally show ?thesis .
qed

lemma STEP1s_bits: "foldl STEP1 l p = crc_bits l p"
  by (induction p arbitrary: l) (simp_all add: crc_bits_def STEP1_bits)

lemma crc_bits_append: "crc_bits (crc_bits l p) q = crc_bits l (p @ q)"
  by (simp add: crc_bits_def)

lemma crc_bits_split: "crc_bits (crc_bits l (take n p)) (take m (drop n p)) = crc_bits l (take (n + m) p)"
  by (simp add: crc_bits_append take_add)

lemma steps4_bits: "steps4 l p = (l', p') \<Longrightarrow> crc_bits l' p' = crc_bits l p"
proof (induction l p rule: steps4.induct)
  case (1 l p)
  then show ?case
    by (cases "4 \<le> length p") (auto simp: steps4.simps [of l p] STEP4_bits crc_bits_append)
qed

lemma steps16_bits: "steps16 l p = (l', p') \<Longrightarrow> crc_bits l' p' = crc_bits l p"
proof (induction l p rule: steps16.induct)
  case (1 l p)
  show ?case
  proof (cases "16 \<le> length p")
    case True
    then have "STEP4 (STEP4 (STEP4 (STEP4 l p) (drop 4 p)) (drop 8 p)) (drop 12 p) = crc_bits l (take 16 p)"
      by (simp add: STEP4_bits crc_bits_split)
    then show ?thesis using 1 True by (simp add: steps16.simps [of l p] crc_bits_append)
  qed (use 1 in \<open>simp add: steps16.simps [of l p]\<close>)
qed

lemma not_accelerated: "\<not> CanAccelerateCRC32C"
  by (simp add: CanAccelerateCRC32C_def AcceleratedCRC32C_def)

text \<open>The standard CRC-32C: the register starts and ends complemented.\<close>

definition crc32c :: "u32 \<Rightarrow> byte list \<Rightarrow> u32" where
  "crc32c crc data = crc_bits (crc XOR 0xffffffff) data XOR 0xffffffff"

lemma crc_Extend_bits: "crc_Extend pval crc buf = crc32c crc buf"
proof -
  define x where "x = (pval + 3) div 4 * 4 - pval"
  define l where "l = crc XOR 0xffffffff"
  obtain l1 p1 where 1: "(if x \<le> length buf then (foldl STEP1 l (take x buf), drop x buf) else (l, buf)) = (l1, p1)"
    by (meson surj_pair)
  obtain l2 p2 where 2: "steps16 l1 p1 = (l2, p2)" by (meson surj_pair)
  obtain l3 p3 where 3: "steps4 l2 p2 = (l3, p3)" by (meson surj_pair)
  have "crc_bits l1 p1 = crc_bits l buf"
    using 1 by (auto simp: STEP1s_bits crc_bits_append split: if_splits)
  then have "crc_bits l3 p3 = crc_bits l buf" using steps16_bits [OF 2] steps4_bits [OF 3] by simp
  moreover have "crc_Extend pval crc buf = foldl STEP1 l3 p3 XOR 0xffffffff"
    unfolding crc_Extend_def Let_def x_def [symmetric] l_def [symmetric] 1 using not_accelerated by (simp add: 2 3)
  ultimately show ?thesis by (simp add: crc32c_def STEP1s_bits l_def)
qed

lemma crc32c_append: "crc32c (crc32c crc a) b = crc32c crc (a @ b)"
  by (simp add: crc32c_def crc_bits_append xor.assoc)

lemma crc_mask_rotates: "drop_bit 17 (drop_bit 15 c OR push_bit 17 c) OR push_bit 15 (drop_bit 15 c OR push_bit 17 c) = c" for c :: u32
proof (rule bit_eqI)
  fix i
  show "bit (drop_bit 17 (drop_bit 15 c OR push_bit 17 c) OR push_bit 15 (drop_bit 15 c OR push_bit 17 c)) i = bit c i"
    by (cases "i < 15") (auto simp: bit_simps dest: bit_imp_le_length)
qed


lemma crc_Unmask_Mask: "crc_Unmask (crc_Mask c) = c"
  unfolding crc_Unmask_def crc_Mask_def Let_def add_diff_cancel_right' by (rule crc_mask_rotates)

text \<open>C24: The checksum the code computes with its four tables, four bytes at a time from the first aligned address
  on, is CRC-32C computed bit by bit with the reversed polynomial \<^verbatim>\<open>0x82f63b78\<close>, at every address of the bytes.\<close>

theorem crc_Extend_is_crc32c: "crc_Extend pval crc buf = crc32c crc buf"
  by (rule crc_Extend_bits)

text \<open>The checksum of a concatenation is the checksum of the first part extended by the second, as the log
  writer uses it with the checksums of the type bytes, and \<^verbatim>\<open>Unmask\<close> undoes \<^verbatim>\<open>Mask\<close>.\<close>

theorem crc_incremental_masked:
  "crc_Unmask (crc_Mask (crc_Extend a1 (crc_Value a2 xs) ys)) = crc_Value a3 (xs @ ys)"
  by (simp add: crc_Unmask_Mask crc_Value_def crc_Extend_bits crc32c_append)

end
