(* ===== verification/LdbStatus.thy ===== *)
theory LdbStatus
  imports LdbCoding "HOL-Library.Char_ord"
begin

text \<open>
  Statuses (\<^verbatim>\<open>util/status.cc\<close>, \<^verbatim>\<open>include/leveldb/status.h\<close>), with their encoding in the bytes of \<^verbatim>\<open>state_\<close>: four
  of length, one of code, then the message; a NULL \<^verbatim>\<open>state_\<close> is success.
\<close>

definition bytes_of :: "string \<Rightarrow> byte list" where
  "bytes_of s = map of_char s"

type_synonym Status = "byte list option"

definition OK :: Status where
  "OK = None"

definition kOk :: byte where "kOk = 0"
definition kNotFound :: byte where "kNotFound = 1"
definition kCorruption :: byte where "kCorruption = 2"
definition kNotSupported :: byte where "kNotSupported = 3"
definition kInvalidArgument :: byte where "kInvalidArgument = 4"
definition kIOError :: byte where "kIOError = 5"

lemmas code_defs = kOk_def kNotFound_def kCorruption_def kNotSupported_def kInvalidArgument_def kIOError_def

text \<open>The lengths are cut to 32 bits; the colon and the blank are only there with a second message.\<close>

definition Status_make :: "byte \<Rightarrow> slice \<Rightarrow> slice \<Rightarrow> Status" where
  "Status_make code msg msg2 =
     (let len1 = length msg mod 2 ^ 32; len2 = length msg2 mod 2 ^ 32;
          sz = (len1 + (if len2 \<noteq> 0 then 2 + len2 else 0)) mod 2 ^ 32
      in Some (le_bytes 4 sz @ [code] @ take len1 msg @
               (if len2 \<noteq> 0 then bytes_of '': '' @ take len2 msg2 else [])))"

definition NotFound :: "slice \<Rightarrow> slice \<Rightarrow> Status" where
  "NotFound msg msg2 = Status_make kNotFound msg msg2"

definition Corruption :: "slice \<Rightarrow> slice \<Rightarrow> Status" where
  "Corruption msg msg2 = Status_make kCorruption msg msg2"

definition NotSupported :: "slice \<Rightarrow> slice \<Rightarrow> Status" where
  "NotSupported msg msg2 = Status_make kNotSupported msg msg2"

definition InvalidArgument :: "slice \<Rightarrow> slice \<Rightarrow> Status" where
  "InvalidArgument msg msg2 = Status_make kInvalidArgument msg msg2"

definition IOError :: "slice \<Rightarrow> slice \<Rightarrow> Status" where
  "IOError msg msg2 = Status_make kIOError msg msg2"

lemmas status_defs = NotFound_def Corruption_def NotSupported_def InvalidArgument_def IOError_def

definition ok :: "Status \<Rightarrow> bool" where
  "ok s \<longleftrightarrow> s = None"

definition Status_code :: "Status \<Rightarrow> byte" where
  "Status_code s = (case s of None \<Rightarrow> kOk | Some state \<Rightarrow> state ! 4)"

definition IsNotFound :: "Status \<Rightarrow> bool" where "IsNotFound s \<longleftrightarrow> Status_code s = kNotFound"
definition IsCorruption :: "Status \<Rightarrow> bool" where "IsCorruption s \<longleftrightarrow> Status_code s = kCorruption"
definition IsIOError :: "Status \<Rightarrow> bool" where "IsIOError s \<longleftrightarrow> Status_code s = kIOError"

definition CopyState :: "byte list \<Rightarrow> byte list" where
  "CopyState state = (let sz = le_val (take 4 state) in take (sz + 5) state)"

text \<open>Assignment leaves a status alone when it already shares the bytes of the other.\<close>

definition Status_copy :: "Status \<Rightarrow> Status" where
  "Status_copy s = (case s of None \<Rightarrow> None | Some state \<Rightarrow> Some (CopyState state))"

definition Status_assign :: "bool \<Rightarrow> Status \<Rightarrow> Status \<Rightarrow> Status" where
  "Status_assign same_pointer this s = (if same_pointer then this else Status_copy s)"

text \<open>\<open>unknown n\<close> is what \<^verbatim>\<open>snprintf\<close> writes for the default branch.\<close>

definition Status_ToString :: "(int \<Rightarrow> string) \<Rightarrow> Status \<Rightarrow> byte list" where
  "Status_ToString unknown s =
     (case s of None \<Rightarrow> bytes_of ''OK''
      | Some state \<Rightarrow>
          let c = Status_code s;
              type = (if c = kOk then ''OK'' else if c = kNotFound then ''NotFound: ''
                      else if c = kCorruption then ''Corruption: '' else if c = kNotSupported then ''Not implemented: ''
                      else if c = kInvalidArgument then ''Invalid argument: '' else if c = kIOError then ''IO error: ''
                      else unknown (sint c));
              len = le_val (take 4 state)
          in bytes_of type @ take len (drop 5 state))"

section \<open>The messages\<close>

lemma ok_simps [simp]: "ok OK" "ok None" "\<not> ok (Some st)" "\<not> ok (Status_make c m m2)"
  "\<not> ok (Corruption m m2)" "\<not> ok (NotFound m m2)" "\<not> ok (InvalidArgument m m2)" "\<not> ok (IOError m m2)"
  "\<not> ok (NotSupported m m2)"
  by (simp_all add: ok_def OK_def Status_make_def Let_def status_defs)

lemma ok_iff: "ok s \<longleftrightarrow> s = OK"
  by (simp add: ok_def OK_def)

definition message :: "slice \<Rightarrow> slice \<Rightarrow> byte list" where
  "message msg msg2 = msg @ (if msg2 = [] then [] else bytes_of '': '' @ msg2)"

lemma Status_make_short:
  assumes "length msg + length msg2 + 2 < 2 ^ 32"
  shows "Status_make c msg msg2 = Some (le_bytes 4 (length (message msg msg2)) @ c # message msg msg2)"
    "length (message msg msg2) < 2 ^ 32"
proof -
  have 1: "length msg mod 4294967296 = length msg" "length msg2 mod 4294967296 = length msg2"
    "(length msg + (2 + length msg2)) mod 4294967296 = length msg + (2 + length msg2)"
    using assms by simp_all
  then show "Status_make c msg msg2 = Some (le_bytes 4 (length (message msg msg2)) @ c # message msg msg2)"
    by (simp add: Status_make_def message_def Let_def bytes_of_def del: mod_less)
  show "length (message msg msg2) < 2 ^ 32" using assms by (simp add: message_def bytes_of_def)
qed

lemma Status_code_make [simp]: "Status_code (Status_make c m m2) = c"
  by (simp add: Status_code_def Status_make_def Let_def nth_append)

lemma IsCorruption_Corruption [simp]: "IsCorruption (Corruption m m2)"
  by (simp add: IsCorruption_def Corruption_def)

lemma copy_short:
  "length msg + length msg2 + 2 < 2 ^ 32 \<Longrightarrow> Status_copy (Status_make c msg msg2) = Status_make c msg msg2"
  using Status_make_short(2) [of msg msg2]
  by (simp add: Status_make_short(1) Status_copy_def CopyState_def Let_def le_val_le_bytes)

lemma ToString_short:
  assumes "length msg + length msg2 + 2 < 2 ^ 32"
  shows "Status_ToString u (Status_make c msg msg2) =
           bytes_of (if c = 0 then ''OK'' else if c = 1 then ''NotFound: '' else if c = 2 then ''Corruption: ''
                     else if c = 3 then ''Not implemented: '' else if c = 4 then ''Invalid argument: ''
                     else if c = 5 then ''IO error: '' else u (sint c)) @
           message msg msg2"
  using Status_make_short [OF assms]
  by (simp add: Status_ToString_def Status_code_def code_defs nth_append Let_def le_val_le_bytes)

end
