(* ===== verification/LdbFile.thy ===== *)
theory LdbFile
  imports LdbStatus
begin

text \<open>
  The files of LevelDB: the abstract classes \<^verbatim>\<open>WritableFile\<close> and \<^verbatim>\<open>SequentialFile\<close> (\<^verbatim>\<open>include/leveldb/env.h\<close>) as
  records of their virtual methods, and the classes that \<^verbatim>\<open>util/env_posix.cc\<close> gives for them, over the
  streams of the C library. A locale states what the log relies on, and is interpreted on those classes.
\<close>

section \<open>Streams of the C library\<close>

text \<open>
  A stream has the bytes already in the file, the bytes still in the buffer of the library, the position of a
  reading stream, and the outcomes of the next calls: \<open>None\<close> for success, \<open>Some (k, msg)\<close> for a failure after \<open>k\<close>
  bytes with the error message \<open>msg\<close>. An empty list of outcomes stands for success from then on.
\<close>

record FILE =
  disk :: "byte list"
  pending :: "byte list"
  pos :: nat
  outcomes :: "(nat \<times> slice) option list"

definition next_outcome :: "FILE \<Rightarrow> (nat \<times> slice) option \<times> FILE" where
  "next_outcome f = (case outcomes f of [] \<Rightarrow> (None, f) | r # rs \<Rightarrow> (r, f\<lparr>outcomes := rs\<rparr>))"

definition fwrite :: "byte list \<Rightarrow> FILE \<Rightarrow> nat \<times> slice \<times> FILE" where
  "fwrite d f =
     (case next_outcome f of
        (None, f) \<Rightarrow> (length d, [], f\<lparr>pending := pending f @ d\<rparr>)
      | (Some (k, msg), f) \<Rightarrow> let r = min k (length d) in (r, msg, f\<lparr>pending := pending f @ take r d\<rparr>))"

definition fflush :: "FILE \<Rightarrow> int \<times> slice \<times> FILE" where
  "fflush f =
     (case next_outcome f of
        (None, f) \<Rightarrow> (0, [], f\<lparr>disk := disk f @ pending f, pending := []\<rparr>)
      | (Some (k, msg), f) \<Rightarrow> (- 1, msg, f\<lparr>disk := disk f @ take k (pending f), pending := drop k (pending f)\<rparr>))"

definition call :: "FILE \<Rightarrow> int \<times> slice \<times> FILE" where
  "call f = (case next_outcome f of (None, f) \<Rightarrow> (0, [], f) | (Some (k, msg), f) \<Rightarrow> (- 1, msg, f))"

text \<open>A short count with \<^verbatim>\<open>feof\<close> unset is an error; the bytes read before it are delivered.\<close>

definition fread :: "nat \<Rightarrow> FILE \<Rightarrow> byte list \<times> bool \<times> slice \<times> FILE" where
  "fread n f =
     (case next_outcome f of
        (None, f) \<Rightarrow> let r = take n (drop (pos f) (disk f)) in (r, length r < n, [], f\<lparr>pos := pos f + length r\<rparr>)
      | (Some (k, msg), f) \<Rightarrow> let r = take (min k n) (drop (pos f) (disk f))
                             in (r, False, msg, f\<lparr>pos := pos f + length r\<rparr>))"

definition fseek :: "nat \<Rightarrow> FILE \<Rightarrow> int \<times> slice \<times> FILE" where
  "fseek n f = (case next_outcome f of (None, f) \<Rightarrow> (0, [], f\<lparr>pos := pos f + n\<rparr>) | (Some (k, msg), f) \<Rightarrow> (- 1, msg, f))"

section \<open>Writable files\<close>

record 'f WritableFile =
  Append :: "'f \<Rightarrow> slice \<Rightarrow> Status \<times> 'f"
  Flush :: "'f \<Rightarrow> Status \<times> 'f"
  Sync :: "'f \<Rightarrow> Status \<times> 'f"
  Close :: "'f \<Rightarrow> Status \<times> 'f"

record posix_file =
  filename :: "slice"
  file_of :: "FILE option"

definition posix_file_new :: "slice \<Rightarrow> FILE \<Rightarrow> posix_file" where
  "posix_file_new fname f = \<lparr>filename = fname, file_of = Some f\<rparr>"

definition posix_IOError :: "slice \<Rightarrow> slice \<Rightarrow> Status" where
  "posix_IOError context strerror = IOError context strerror"

text \<open>Methods after \<^verbatim>\<open>Close\<close> would use a NULL stream; the model then changes nothing and reports an error.\<close>

definition posix_Append :: "posix_file \<Rightarrow> slice \<Rightarrow> Status \<times> posix_file" where
  "posix_Append this data =
     (case file_of this of None \<Rightarrow> (posix_IOError (filename this) [], this)
      | Some f \<Rightarrow> (case fwrite data f of (r, err, f) \<Rightarrow>
          (if r \<noteq> length data then posix_IOError (filename this) err else OK, this\<lparr>file_of := Some f\<rparr>)))"

definition posix_Close :: "posix_file \<Rightarrow> Status \<times> posix_file" where
  "posix_Close this =
     (case file_of this of None \<Rightarrow> (posix_IOError (filename this) [], this)
      | Some f \<Rightarrow> (case fflush f of (r, err, f) \<Rightarrow>
          (if r \<noteq> 0 then posix_IOError (filename this) err else OK, this\<lparr>file_of := None\<rparr>)))"

definition posix_Flush :: "posix_file \<Rightarrow> Status \<times> posix_file" where
  "posix_Flush this =
     (case file_of this of None \<Rightarrow> (posix_IOError (filename this) [], this)
      | Some f \<Rightarrow> (case fflush f of (r, err, f) \<Rightarrow>
          (if r \<noteq> 0 then posix_IOError (filename this) err else OK, this\<lparr>file_of := Some f\<rparr>)))"

text \<open>The part of the name after the last slash decides whether the directory is synced too.\<close>

definition split_name :: "slice \<Rightarrow> slice \<times> slice" where
  "split_name f = (let base = rev (takeWhile (\<lambda>c. c \<noteq> 47) (rev f))
                   in if 47 \<in> set f then (take (length f - length base - 1) f, base) else (bytes_of ''.'', f))"

definition SyncDirIfManifest :: "posix_file \<Rightarrow> FILE \<Rightarrow> Status \<times> FILE" where
  "SyncDirIfManifest this f =
     (case split_name (filename this) of (dir, basename) \<Rightarrow>
        if Slice_starts_with basename (bytes_of ''MANIFEST'')
        then case call f of (fd, err, f) \<Rightarrow>
               if fd < 0 then (posix_IOError dir err, f)
               else case call f of (r, err, f) \<Rightarrow> (if r < 0 then posix_IOError dir err else OK, f)
        else (OK, f))"

definition posix_Sync :: "posix_file \<Rightarrow> Status \<times> posix_file" where
  "posix_Sync this =
     (case file_of this of None \<Rightarrow> (posix_IOError (filename this) [], this)
      | Some f \<Rightarrow>
          (case SyncDirIfManifest this f of (s, f) \<Rightarrow>
             if \<not> ok s then (s, this\<lparr>file_of := Some f\<rparr>)
             else case fflush f of (r, err, f) \<Rightarrow>
               if r \<noteq> 0 then (IOError (filename this) err, this\<lparr>file_of := Some f\<rparr>)
               else case call f of (r, err, f) \<Rightarrow>
                 (if r \<noteq> 0 then IOError (filename this) err else s, this\<lparr>file_of := Some f\<rparr>)))"

definition PosixWritableFile :: "posix_file WritableFile" where
  "PosixWritableFile = \<lparr>Append = posix_Append, Flush = posix_Flush, Sync = posix_Sync, Close = posix_Close\<rparr>"

section \<open>Sequential files\<close>

record 's SequentialFile =
  Read :: "'s \<Rightarrow> nat \<Rightarrow> Status \<times> slice \<times> 's"
  Skip :: "'s \<Rightarrow> nat \<Rightarrow> Status \<times> 's"

definition posix_Read :: "slice \<times> FILE \<Rightarrow> nat \<Rightarrow> Status \<times> slice \<times> slice \<times> FILE" where
  "posix_Read this n =
     (case this of (fname, f) \<Rightarrow> case fread n f of (r, feof, err, f) \<Rightarrow>
        if length r < n then (if feof then OK else posix_IOError fname err, r, fname, f) else (OK, r, fname, f))"

definition posix_Skip :: "slice \<times> FILE \<Rightarrow> nat \<Rightarrow> Status \<times> slice \<times> FILE" where
  "posix_Skip this n =
     (case this of (fname, f) \<Rightarrow> case fseek n f of (r, err, f) \<Rightarrow>
        (if r \<noteq> 0 then posix_IOError fname err else OK, fname, f))"

definition PosixSequentialFile :: "(slice \<times> FILE) SequentialFile" where
  "PosixSequentialFile = \<lparr>Read = posix_Read, Skip = posix_Skip\<rparr>"

section \<open>The contracts\<close>

text \<open>
  What a client may rely on: an append that succeeds adds all the bytes, one that fails adds a prefix of them, and
  flushing and syncing never change what has been appended. A reader of a file without faults gets the bytes in
  order, and fewer than it asked for only at the end.
\<close>

locale writable_file =
  fixes ops :: "'f WritableFile" and content :: "'f \<Rightarrow> byte list"
  assumes append_ok: "Append ops f d = (OK, f') \<Longrightarrow> content f' = content f @ d"
    and append_prefix: "Append ops f d = (s, f') \<Longrightarrow> \<exists>n. content f' = content f @ take n d"
    and flush_content: "Flush ops f = (s, f') \<Longrightarrow> content f' = content f"
    and sync_content: "Sync ops f = (s, f') \<Longrightarrow> content f' = content f"

locale reliable_file = writable_file +
  fixes good :: "'f \<Rightarrow> bool"
  assumes append_good: "good f \<Longrightarrow> \<exists>f'. Append ops f d = (OK, f') \<and> good f'"
    and flush_good: "good f \<Longrightarrow> \<exists>f'. Flush ops f = (OK, f') \<and> good f'"

locale synced_file = reliable_file +
  assumes sync_good: "good f \<Longrightarrow> \<exists>f'. Sync ops f = (OK, f') \<and> good f'"

locale sequential_file =
  fixes ops :: "'s SequentialFile" and reads :: "'s \<Rightarrow> byte list \<Rightarrow> nat \<Rightarrow> bool"
  assumes read_next: "reads f data p \<Longrightarrow>
      \<exists>f'. Read ops f n = (OK, take n (drop p data), f') \<and> reads f' data (p + length (take n (drop p data)))"
    and skip_next: "reads f data p \<Longrightarrow> \<exists>f'. Skip ops f n = (OK, f') \<and> reads f' data (p + n)"

definition posix_content :: "posix_file \<Rightarrow> byte list" where
  "posix_content this = (case file_of this of None \<Rightarrow> [] | Some f \<Rightarrow> disk f @ pending f)"

definition posix_good :: "posix_file \<Rightarrow> bool" where
  "posix_good this \<longleftrightarrow> (\<exists>f. file_of this = Some f \<and> outcomes f = [])"

definition posix_reads :: "slice \<times> FILE \<Rightarrow> byte list \<Rightarrow> nat \<Rightarrow> bool" where
  "posix_reads this data p \<longleftrightarrow> disk (snd this) = data \<and> pos (snd this) = p \<and> outcomes (snd this) = []"

lemmas stream_defs = next_outcome_def fwrite_def fflush_def call_def

lemma fwrite_prefix: "fwrite d f = (r, e, f') \<Longrightarrow> disk f' = disk f \<and> pending f' = pending f @ take r d"
  by (auto simp: fwrite_def next_outcome_def Let_def split: option.splits list.splits)

interpretation posix_out: writable_file PosixWritableFile posix_content
proof
  fix f d f' s
  show "posix_content f' = posix_content f @ d" if "Append PosixWritableFile f d = (OK, f')"
    using that
    by (auto simp: PosixWritableFile_def posix_Append_def posix_content_def stream_defs Let_def posix_IOError_def
          OK_def IOError_def Status_make_def min_def split: option.splits list.splits if_splits)
  show "\<exists>n. posix_content f' = posix_content f @ take n d" if "Append PosixWritableFile f d = (s, f')"
  proof (cases "file_of f")
    case None
    then have "f' = f" using that by (auto simp: PosixWritableFile_def posix_Append_def)
    then show ?thesis by (metis append_Nil2 take_0)
  next
    case (Some g)
    obtain r e g' where w: "fwrite d g = (r, e, g')" by (metis prod_cases3)
    then have "posix_content f' = posix_content f @ take r d"
      using that Some fwrite_prefix [OF w]
      by (auto simp: PosixWritableFile_def posix_Append_def posix_content_def split: option.splits)
    then show ?thesis by blast
  qed
  show "posix_content f' = posix_content f" if "Flush PosixWritableFile f = (s, f')"
    using that
    by (auto simp: PosixWritableFile_def posix_Flush_def posix_content_def stream_defs split: option.splits list.splits)
  show "posix_content f' = posix_content f" if "Sync PosixWritableFile f = (s, f')"
    using that
    by (auto simp: PosixWritableFile_def posix_Sync_def SyncDirIfManifest_def posix_content_def stream_defs
        split: option.splits list.splits prod.splits if_splits)
qed

interpretation posix_reliable: reliable_file PosixWritableFile posix_content posix_good
proof
  fix f d
  assume "posix_good f"
  then show "\<exists>f'. Append PosixWritableFile f d = (OK, f') \<and> posix_good f'"
    and "\<exists>f'. Flush PosixWritableFile f = (OK, f') \<and> posix_good f'"
    by (auto simp: posix_good_def PosixWritableFile_def posix_Append_def posix_Flush_def stream_defs)
qed

interpretation posix_synced: synced_file PosixWritableFile posix_content posix_good
proof
  show "\<exists>f'. Sync PosixWritableFile f = (OK, f') \<and> posix_good f'" if "posix_good f" for f
    using that by (auto simp: posix_good_def PosixWritableFile_def posix_Sync_def SyncDirIfManifest_def stream_defs ok_def OK_def
        split: prod.splits)
qed

interpretation posix_in: sequential_file PosixSequentialFile posix_reads
proof
  fix f data p n
  assume r: "posix_reads f data p"
  show "\<exists>f'. Read PosixSequentialFile f n = (OK, take n (drop p data), f') \<and>
          posix_reads f' data (p + length (take n (drop p data)))"
    using r by (auto simp: PosixSequentialFile_def posix_Read_def posix_reads_def fread_def next_outcome_def Let_def
        split: prod.splits)
  show "\<exists>f'. Skip PosixSequentialFile f n = (OK, f') \<and> posix_reads f' data (p + n)"
    using r by (auto simp: PosixSequentialFile_def posix_Skip_def posix_reads_def fseek_def next_outcome_def
        split: prod.splits)
qed

end
