(* ===== verification/LdbLog.thy ===== *)
theory LdbLog
  imports LdbCrcProps LdbFile "HOL-Library.Monad_Syntax"
begin

text \<open>
  The log of LevelDB (\<^verbatim>\<open>db/log_format.h\<close>, \<^verbatim>\<open>db/log_writer.cc\<close>, \<^verbatim>\<open>db/log_reader.cc\<close>): records are cut into fragments
  that never cross a block of 32768 bytes, each behind a header with a masked checksum, a length and a
  type. Writer and reader use the virtual methods of a file, as the record \<open>ops\<close> of \<^verbatim>\<open>LdbFile\<close>. The address at which
  a checksum starts does not matter (\<open>crc_Extend_is_crc32c\<close>), and is 0 here.
\<close>

section \<open>Format\<close>

definition kZeroType :: u32 where "kZeroType = 0"
definition kFullType :: u32 where "kFullType = 1"
definition kFirstType :: u32 where "kFirstType = 2"
definition kMiddleType :: u32 where "kMiddleType = 3"
definition kLastType :: u32 where "kLastType = 4"
definition kMaxRecordType :: u32 where "kMaxRecordType = kLastType"
definition kBlockSize :: nat where "kBlockSize = 32768"
definition kHeaderSize :: nat where "kHeaderSize = 4 + 2 + 1"

definition kEof :: u32 where "kEof = kMaxRecordType + 1"
definition kBadRecord :: u32 where "kBadRecord = kMaxRecordType + 2"

section \<open>Writer\<close>

record 'f Writer =
  dest :: "'f"
  block_offset :: int
  type_crc :: "u32 list"

definition InitTypeCrc :: "u32 list" where
  "InitTypeCrc = map (\<lambda>i. crc_Value 0 [of_nat i]) [0..<unat kMaxRecordType + 1]"

definition Writer_new :: "'f \<Rightarrow> 'f Writer" where
  "Writer_new d = \<lparr>dest = d, block_offset = 0, type_crc = InitTypeCrc\<rparr>"

definition Writer_at :: "'f \<Rightarrow> u64 \<Rightarrow> 'f Writer" where
  "Writer_at d dest_length = \<lparr>dest = d, block_offset = int (unat dest_length mod kBlockSize), type_crc = InitTypeCrc\<rparr>"

text \<open>The offset advances even where an append fails.\<close>

definition EmitPhysicalRecord :: "'f WritableFile \<Rightarrow> 'f Writer \<Rightarrow> u32 \<Rightarrow> slice \<Rightarrow> Status \<times> 'f Writer" where
  "EmitPhysicalRecord ops this t ptr =
     (let n = length ptr;
          crc = crc_Mask (crc_Extend 0 (type_crc this ! unat t) ptr);
          buf = EncodeFixed32 True crc @ [of_nat (n mod 256), of_nat (n div 256), ucast t];
          (s, d) = (case Append ops (dest this) buf of (s, d) \<Rightarrow>
                      if ok s then (case Append ops d ptr of (s, d) \<Rightarrow> if ok s then Flush ops d else (s, d))
                      else (s, d))
      in (s, this\<lparr>dest := d, block_offset := block_offset this + int kHeaderSize + int n\<rparr>))"

lemma Emit_block_offset:
  "EmitPhysicalRecord ops w t ptr = (s, w') \<Longrightarrow> block_offset w' = block_offset w + int kHeaderSize + int (length ptr)"
  by (auto simp: EmitPhysicalRecord_def Let_def split: prod.splits)

text \<open>The status of the append that fills the trailer of a block is not looked at.\<close>

definition switch_block :: "'f WritableFile \<Rightarrow> 'f Writer \<Rightarrow> 'f Writer" where
  "switch_block ops this =
     (let leftover = int kBlockSize - block_offset this
      in if leftover < int kHeaderSize
         then (if leftover > 0 then this\<lparr>dest := snd (Append ops (dest this) (replicate (nat leftover) 0))\<rparr> else this)
                \<lparr>block_offset := 0\<rparr>
         else this)"

definition AddRecord_body :: "'f WritableFile \<Rightarrow> 'f Writer \<Rightarrow> slice \<Rightarrow> bool \<Rightarrow> Status \<times> nat \<times> 'f Writer" where
  "AddRecord_body ops this ptr begin =
     (let this = switch_block ops this;
          avail = nat (int kBlockSize - block_offset this - int kHeaderSize);
          fragment_length = (if length ptr < avail then length ptr else avail);
          end = (length ptr = fragment_length);
          type = (if begin \<and> end then kFullType else if begin then kFirstType else if end then kLastType
                  else kMiddleType)
      in case EmitPhysicalRecord ops this type (take fragment_length ptr) of (s, this) \<Rightarrow> (s, fragment_length, this))"

lemma AddRecord_body_shrinks:
  assumes "AddRecord_body ops w ptr b = (s, n, w')" "length ptr - n > 0"
  shows "2 * (length ptr - n) + (if block_offset w' = int kBlockSize - int kHeaderSize then 1 else 0)
         < 2 * length ptr + (if block_offset w = int kBlockSize - int kHeaderSize then 1 else (0 :: nat))"
proof -
  define w1 where "w1 = switch_block ops w"
  have n: "n = nat (int kBlockSize - block_offset w1 - int kHeaderSize)" and le: "n \<le> length ptr"
    using assms by (auto simp: AddRecord_body_def Let_def w1_def split: prod.splits if_splits)
  have bo: "block_offset w' = block_offset w1 + int kHeaderSize + int n"
    using assms by (auto simp: AddRecord_body_def Let_def w1_def dest!: Emit_block_offset split: prod.splits if_splits)
  show ?thesis
  proof (cases "n = 0")
    case True
    then have "block_offset w = int kBlockSize - int kHeaderSize \<and> block_offset w1 = block_offset w"
      using n by (auto simp: w1_def switch_block_def Let_def kBlockSize_def kHeaderSize_def split: if_splits)
    then show ?thesis using True bo by (simp add: kHeaderSize_def)
  next
    case False
    then show ?thesis using assms(2) by auto
  qed
qed

function AddRecord_loop :: "'f WritableFile \<Rightarrow> 'f Writer \<Rightarrow> slice \<Rightarrow> bool \<Rightarrow> Status \<times> 'f Writer" where
  "AddRecord_loop ops this ptr begin =
     (case AddRecord_body ops this ptr begin of (s, n, this) \<Rightarrow>
        if ok s \<and> length ptr - n > 0 then AddRecord_loop ops this (drop n ptr) False else (s, this))"
  by pat_completeness auto
termination
  by (relation "measure (\<lambda>(ops, w, ptr, b).
        2 * length ptr + (if block_offset w = int kBlockSize - int kHeaderSize then 1 else 0))")
    (use AddRecord_body_shrinks [OF sym] in \<open>auto simp only: in_measure prod.case wf_measure length_drop\<close>)

declare AddRecord_loop.simps [simp del]

definition AddRecord :: "'f WritableFile \<Rightarrow> 'f Writer \<Rightarrow> slice \<Rightarrow> Status \<times> 'f Writer" where
  "AddRecord ops this data = AddRecord_loop ops this data True"

section \<open>Reader\<close>

record 's Reader =
  rfile :: "'s"
  has_reporter :: bool
  reports :: "(u64 \<times> Status) list"
  checksum :: bool
  buffer :: slice
  eof :: bool
  last_record_offset :: u64
  end_of_buffer_offset :: u64
  initial_offset :: u64
  resyncing :: bool

definition Reader_new :: "'s \<Rightarrow> bool \<Rightarrow> bool \<Rightarrow> u64 \<Rightarrow> 's Reader" where
  "Reader_new f rep chk initial =
     \<lparr>rfile = f, has_reporter = rep, reports = [], checksum = chk, buffer = [], eof = False, last_record_offset = 0,
      end_of_buffer_offset = 0, initial_offset = initial, resyncing = (initial > 0)\<rparr>"

definition ReportDrop :: "u64 \<Rightarrow> Status \<Rightarrow> 's Reader \<Rightarrow> 's Reader" where
  "ReportDrop bytes reason this =
     (if has_reporter this \<and>
         end_of_buffer_offset this - of_nat (length (buffer this)) - bytes \<ge> initial_offset this
      then this\<lparr>reports := reports this @ [(bytes, reason)]\<rparr> else this)"

definition ReportCorruption :: "u64 \<Rightarrow> string \<Rightarrow> 's Reader \<Rightarrow> 's Reader" where
  "ReportCorruption bytes reason this = ReportDrop bytes (Corruption (bytes_of reason) []) this"

definition SkipToInitialBlock :: "'s SequentialFile \<Rightarrow> 's Reader \<Rightarrow> bool \<times> 's Reader" where
  "SkipToInitialBlock ops this =
     (let offset_in_block = initial_offset this mod of_nat kBlockSize;
          block_start_location = initial_offset this - offset_in_block;
          block_start_location =
            (if offset_in_block > of_nat kBlockSize - 6 then block_start_location + of_nat kBlockSize
             else block_start_location);
          this = this\<lparr>end_of_buffer_offset := block_start_location\<rparr>
      in if block_start_location > 0
         then case Skip ops (rfile this) (unat block_start_location) of (skip_status, f) \<Rightarrow>
                let this = this\<lparr>rfile := f\<rparr>
                in if \<not> ok skip_status then (False, ReportDrop block_start_location skip_status this) else (True, this)
         else (True, this))"

text \<open>
  The part of \<^verbatim>\<open>ReadPhysicalRecord\<close> after the buffer holds a header; \<open>result\<close> is the fragment of the caller, which
  is left alone on most errors. The type byte is a signed \<^verbatim>\<open>char\<close>, converted to \<^verbatim>\<open>unsigned int\<close>.
\<close>

definition parse_record :: "slice \<Rightarrow> 's Reader \<Rightarrow> u32 \<times> slice \<times> 's Reader" where
  "parse_record result this =
     (let header = buffer this;
          a = ucast (header ! 4) AND (0xff :: u32);
          b = ucast (header ! 5) AND (0xff :: u32);
          type = (scast (header ! 6) :: u32);
          len = unat (a OR push_bit 8 b)
      in if kHeaderSize + len > length (buffer this)
         then let drop_size = length (buffer this);
                  this = this\<lparr>buffer := []\<rparr>
              in if \<not> eof this then (kBadRecord, result, ReportCorruption (of_nat drop_size) ''bad record length'' this)
                 else (kEof, result, this)
         else if type = kZeroType \<and> len = 0 then (kBadRecord, result, this\<lparr>buffer := []\<rparr>)
         else if checksum this \<and>
                 crc_Value 0 (take (1 + len) (drop 6 header)) \<noteq> crc_Unmask (DecodeFixed32 True header)
         then let drop_size = length (buffer this)
              in (kBadRecord, result, ReportCorruption (of_nat drop_size) ''checksum mismatch'' (this\<lparr>buffer := []\<rparr>))
         else let this = this\<lparr>buffer := drop (kHeaderSize + len) (buffer this)\<rparr>
              in if end_of_buffer_offset this - of_nat (length (buffer this)) - of_nat kHeaderSize - of_nat len <
                    initial_offset this
                 then (kBadRecord, [], this)
                 else (type, take len (drop kHeaderSize header), this))"

function ReadPhysicalRecord :: "'s SequentialFile \<Rightarrow> slice \<Rightarrow> 's Reader \<Rightarrow> u32 \<times> slice \<times> 's Reader" where
  "ReadPhysicalRecord ops result this =
     (if length (buffer this) < kHeaderSize
      then if \<not> eof this
           then case Read ops (rfile this) kBlockSize of (status, b, f) \<Rightarrow>
             let this = this\<lparr>rfile := f, buffer := b,
                              end_of_buffer_offset := end_of_buffer_offset this + of_nat (length b)\<rparr>
             in if \<not> ok status
                then (kEof, result, (ReportDrop (of_nat kBlockSize) status (this\<lparr>buffer := []\<rparr>))\<lparr>eof := True\<rparr>)
                else ReadPhysicalRecord ops result (if length b < kBlockSize then this\<lparr>eof := True\<rparr> else this)
           else (kEof, result, this\<lparr>buffer := []\<rparr>)
      else parse_record result this)"
  by pat_completeness auto
termination
  by (relation "measure (\<lambda>(ops, x, r). if length (buffer r) < kHeaderSize \<and> \<not> eof r then 1 else 0)")
    (auto simp: kHeaderSize_def kBlockSize_def)

declare ReadPhysicalRecord.simps [simp del]

text \<open>
  One turn of the loop of \<^verbatim>\<open>ReadRecord\<close>, with its local variables: \<open>Inl\<close> is a return, with the result, the record
  and the scratch space, \<open>Inr\<close> the next turn. \<open>unknown n\<close> is the text of
  \<^verbatim>\<open>snprintf(buf, sizeof(buf), "unknown record type %u", n)\<close>.
\<close>

record 's read_loop =
  scratch :: slice
  fragment :: slice
  in_fragmented_record :: bool
  prospective_record_offset :: u64
  reader :: "'s Reader"

definition ReadRecord_turn ::
  "'s SequentialFile \<Rightarrow> (u32 \<Rightarrow> string) \<Rightarrow> 's read_loop \<Rightarrow> (bool \<times> slice \<times> slice \<times> 's Reader) + 's read_loop"
where
  "ReadRecord_turn ops unknown l =
     (case ReadPhysicalRecord ops (fragment l) (reader l) of (record_type, frag, this) \<Rightarrow>
        let physical_record_offset =
              end_of_buffer_offset this - of_nat (length (buffer this)) - of_nat kHeaderSize - of_nat (length frag);
            l = l\<lparr>fragment := frag, reader := this\<rparr>
        in if resyncing this \<and> record_type = kMiddleType then Inr l
           else if resyncing this \<and> record_type = kLastType then Inr (l\<lparr>reader := this\<lparr>resyncing := False\<rparr>\<rparr>)
           else let this = this\<lparr>resyncing := False\<rparr>; l = l\<lparr>reader := this\<rparr>
           in if record_type = kFullType
           then let this = (if in_fragmented_record l \<and> scratch l \<noteq> []
                            then ReportCorruption (of_nat (length (scratch l))) ''partial record without end(1)'' this
                            else this)
                in Inl (True, frag, [], this\<lparr>last_record_offset := physical_record_offset\<rparr>)
           else if record_type = kFirstType
           then let this = (if in_fragmented_record l \<and> scratch l \<noteq> []
                            then ReportCorruption (of_nat (length (scratch l))) ''partial record without end(2)'' this
                            else this)
                in Inr (l\<lparr>scratch := frag, in_fragmented_record := True,
                          prospective_record_offset := physical_record_offset, reader := this\<rparr>)
           else if record_type = kMiddleType
           then if \<not> in_fragmented_record l
                then Inr (l\<lparr>reader := ReportCorruption (of_nat (length frag)) ''missing start of fragmented record(1)'' this\<rparr>)
                else Inr (l\<lparr>scratch := scratch l @ frag\<rparr>)
           else if record_type = kLastType
           then if \<not> in_fragmented_record l
                then Inr (l\<lparr>reader := ReportCorruption (of_nat (length frag)) ''missing start of fragmented record(2)'' this\<rparr>)
                else Inl (True, scratch l @ frag, scratch l @ frag,
                          this\<lparr>last_record_offset := prospective_record_offset l\<rparr>)
           else if record_type = kEof
           then Inl (False, [], if in_fragmented_record l then [] else scratch l, this)
           else if record_type = kBadRecord
           then if in_fragmented_record l
                then Inr (l\<lparr>scratch := [], in_fragmented_record := False,
                            reader := ReportCorruption (of_nat (length (scratch l))) ''error in middle of record'' this\<rparr>)
                else Inr l
           else Inr (l\<lparr>scratch := [], in_fragmented_record := False,
                       reader := ReportCorruption
                         (of_nat (length frag + (if in_fragmented_record l then length (scratch l) else 0)))
                         (unknown record_type) this\<rparr>))"

partial_function (option) ReadRecord_loop ::
  "'s SequentialFile \<Rightarrow> (u32 \<Rightarrow> string) \<Rightarrow> 's read_loop \<Rightarrow> (bool \<times> slice \<times> slice \<times> 's Reader) option"
where
  "ReadRecord_loop ops unknown l =
     (case ReadRecord_turn ops unknown l of Inl r \<Rightarrow> Some r | Inr l \<Rightarrow> ReadRecord_loop ops unknown l)"

text \<open>The result is whether a record was read, the record, and the scratch space of the caller.\<close>

definition ReadRecord ::
  "'s SequentialFile \<Rightarrow> (u32 \<Rightarrow> string) \<Rightarrow> slice \<Rightarrow> slice \<Rightarrow> 's Reader \<Rightarrow> (bool \<times> slice \<times> slice \<times> 's Reader) option"
where
  "ReadRecord ops unknown rec scr this =
     (let (good, this) = (if last_record_offset this < initial_offset this then SkipToInitialBlock ops this else (True, this))
      in if \<not> good then Some (False, rec, scr, this)
         else ReadRecord_loop ops unknown
                \<lparr>scratch = [], fragment = [], in_fragmented_record = False, prospective_record_offset = 0, reader = this\<rparr>)"

definition LastRecordOffset :: "'s Reader \<Rightarrow> u64" where
  "LastRecordOffset this = last_record_offset this"

end
