(* ===== verification/LdbLogProps.thy ===== *)
theory LdbLogProps
  imports LdbLog
begin

text \<open>
  What is written to a log is what is read from it, also when the file is cut at any byte by a crash. The bytes that
  \<^verbatim>\<open>AddRecord\<close> appends at position \<open>p\<close> of the file are \<open>frag_bytes p True record\<close>; the reader is followed by the position
  up to which it has delivered the file.
\<close>

section \<open>The bytes of a record\<close>

lemmas type_defs = kZeroType_def kFullType_def kFirstType_def kMiddleType_def kLastType_def kMaxRecordType_def
  kEof_def kBadRecord_def
lemmas size_defs = kBlockSize_def kHeaderSize_def

definition physical :: "u32 \<Rightarrow> slice \<Rightarrow> byte list" where
  "physical t d = EncodeFixed32 True (crc_Mask (crc_Value 0 (ucast t # d))) @
     [of_nat (length d mod 256), of_nat (length d div 256), ucast t] @ d"

definition trailer :: "nat \<Rightarrow> nat" where
  "trailer p = (if kBlockSize - p mod kBlockSize < kHeaderSize then kBlockSize - p mod kBlockSize else 0)"

definition room :: "nat \<Rightarrow> nat" where
  "room q = kBlockSize - q mod kBlockSize - kHeaderSize"

definition fragment_type :: "bool \<Rightarrow> bool \<Rightarrow> u32" where
  "fragment_type begin end =
     (if begin \<and> end then kFullType else if begin then kFirstType else if end then kLastType else kMiddleType)"

lemma length_physical [simp]: "length (physical t d) = kHeaderSize + length d"
  by (simp add: physical_def EncodeFixed32_def kHeaderSize_def)

lemma fill_block: "(p + (kBlockSize - p mod kBlockSize)) mod kBlockSize = 0"
  by (metis add.commute kBlockSize_def le_add_diff_inverse2 less_imp_le mod_less_divisor mod_add_left_eq mod_self
      zero_less_numeral)

lemma trailer_new_block: "trailer p \<noteq> 0 \<Longrightarrow> (p + trailer p) mod kBlockSize = 0"
  using fill_block [of p] by (auto simp: trailer_def split: if_splits)

lemma after_trailer: "(p + trailer p) mod kBlockSize + kHeaderSize \<le> kBlockSize"
proof (cases "trailer p = 0")
  case True
  moreover have "p mod kBlockSize < kBlockSize" by (simp add: kBlockSize_def)
  ultimately show ?thesis by (auto simp: trailer_def split: if_splits)
next
  case False
  then show ?thesis using trailer_new_block by (simp add: size_defs)
qed

function frag_bytes :: "nat \<Rightarrow> bool \<Rightarrow> slice \<Rightarrow> byte list" where
  "frag_bytes p begin d =
     (let q = p + trailer p; n = min (length d) (room q)
      in replicate (trailer p) 0 @ physical (fragment_type begin (n = length d)) (take n d) @
         (if n < length d then frag_bytes (q + kHeaderSize + n) False (drop n d) else []))"
  by pat_completeness auto
termination
proof (relation "measure (\<lambda>(p, b, d). 2 * length d + (if p mod kBlockSize = kBlockSize - kHeaderSize then 1 else 0))", goal_cases)
  case (2 p b d q n)
  show ?case
  proof (cases "n = 0")
    case True
    then have "q mod kBlockSize = kBlockSize - kHeaderSize"
      using 2 after_trailer [of p] by (auto simp: room_def min_def split: if_splits)
    moreover have "trailer p = 0"
      using trailer_new_block [of p] calculation 2(1) by (force simp: size_defs)
    moreover have "(q + kHeaderSize) mod kBlockSize \<noteq> kBlockSize - kHeaderSize"
      using mod_add_left_eq [of q kBlockSize kHeaderSize] calculation(1) by (simp add: size_defs)
    ultimately show ?thesis using 2 True by simp
  next
    case False
    then show ?thesis using 2 by auto
  qed
qed simp

declare frag_bytes.simps [simp del]

section \<open>Writing\<close>

text \<open>The writer is at position \<open>p\<close> of its file; its offset is that of \<open>p\<close> in the block, or the whole block.\<close>

definition at_offset :: "nat \<Rightarrow> 'f Writer \<Rightarrow> bool" where
  "at_offset p w \<longleftrightarrow> type_crc w = InitTypeCrc \<and> 0 \<le> block_offset w \<and> block_offset w \<le> int kBlockSize \<and>
     nat (block_offset w) mod kBlockSize = p mod kBlockSize"

lemma at_offset_new: "at_offset 0 (Writer_new d)" "p < 2 ^ 64 \<Longrightarrow> at_offset p (Writer_at d (of_nat p))"
  by (simp_all add: at_offset_def Writer_new_def Writer_at_def kBlockSize_def unat_u64_of_nat nat_mod_distrib)

lemma type_crc_extend:
  assumes "t \<in> {kFullType, kFirstType, kMiddleType, kLastType}"
  shows "crc_Extend 0 (InitTypeCrc ! unat t) d = crc_Value 0 (ucast t # d)"
proof -
  have "InitTypeCrc ! unat t = crc_Value 0 [ucast t]"
    using assms by (auto simp: InitTypeCrc_def type_defs nth_append)
  then show ?thesis using crc32c_append [of 0 "[ucast t]" d] by (simp add: crc_Value_def crc_Extend_bits)
qed

lemma fragment_type_cases: "fragment_type b e \<in> {kFullType, kFirstType, kMiddleType, kLastType}"
  by (simp add: fragment_type_def)

context reliable_file
begin

lemma emit_good:
  assumes "good (dest w)" "type_crc w = InitTypeCrc" "t \<in> {kFullType, kFirstType, kMiddleType, kLastType}"
  shows "\<exists>d. EmitPhysicalRecord ops w t x =
               (OK, w\<lparr>dest := d, block_offset := block_offset w + int kHeaderSize + int (length x)\<rparr>) \<and>
             good d \<and> content d = content (dest w) @ physical t x"
proof -
  define buf where "buf = EncodeFixed32 True (crc_Mask (crc_Extend 0 (type_crc w ! unat t) x)) @
    [of_nat (length x mod 256), of_nat (length x div 256), ucast t]"
  obtain d1 where 1: "Append ops (dest w) buf = (OK, d1)" "good d1" using append_good assms(1) by blast
  obtain d2 where 2: "Append ops d1 x = (OK, d2)" "good d2" using append_good 1 by blast
  obtain d3 where 3: "Flush ops d2 = (OK, d3)" "good d3" using flush_good 2 by blast
  have "content d3 = content (dest w) @ buf @ x"
    using append_ok [OF 1(1)] append_ok [OF 2(1)] flush_content [OF 3(1)] by simp
  moreover have "buf @ x = physical t x"
    using type_crc_extend [OF assms(3)] assms(2) by (simp add: buf_def physical_def)
  moreover have "EmitPhysicalRecord ops w t x =
      (OK, w\<lparr>dest := d3, block_offset := block_offset w + int kHeaderSize + int (length x)\<rparr>)"
    using 1 2 3 by (simp add: EmitPhysicalRecord_def Let_def buf_def)
  ultimately show ?thesis using 3 by (intro exI [of _ d3]) simp
qed

lemma switch_good:
  assumes "good (dest w)" "at_offset p w"
  shows "\<exists>d. switch_block ops w = w\<lparr>dest := d, block_offset := int ((p + trailer p) mod kBlockSize)\<rparr> \<and>
             good d \<and> content d = content (dest w) @ replicate (trailer p) 0"
proof -
  define bo where "bo = nat (block_offset w)"
  have w: "w = w\<lparr>dest := dest w, block_offset := int bo\<rparr>" "block_offset w = int bo"
    and bo: "bo \<le> kBlockSize" "bo mod kBlockSize = p mod kBlockSize"
    using assms(2) by (auto simp: at_offset_def bo_def)
  show ?thesis
  proof (cases "bo = kBlockSize")
    case True
    then have "p mod kBlockSize = 0" using bo by simp
    then have "trailer p = 0" "(p + trailer p) mod kBlockSize = 0" by (simp_all add: trailer_def size_defs)
    then show ?thesis using assms(1) w True
      by (auto simp: switch_block_def Let_def kHeaderSize_def intro!: exI [of _ "dest w"])
  next
    case False
    then have p: "p mod kBlockSize = bo" and less: "bo < kBlockSize" using bo by auto
    show ?thesis
    proof (cases "kBlockSize - bo < kHeaderSize")
      case True
      then have t: "trailer p = kBlockSize - bo" "(p + trailer p) mod kBlockSize = 0"
        using p less trailer_new_block [of p] by (auto simp: trailer_def)
      obtain d where d: "Append ops (dest w) (replicate (kBlockSize - bo) 0) = (OK, d)" "good d"
        using append_good assms(1) by blast
      have "nat (int kBlockSize - int bo) = kBlockSize - bo" by simp
      then have "switch_block ops w = w\<lparr>dest := d, block_offset := 0\<rparr>"
        using True less d w(2) by (simp add: switch_block_def Let_def)
      then show ?thesis using t d append_ok [OF d(1)] by (intro exI [of _ d]) simp
    next
      case False
      then have "trailer p = 0" using p by (simp add: trailer_def)
      then show ?thesis using False assms(1) w p less
        by (auto simp: switch_block_def Let_def intro!: exI [of _ "dest w"])
    qed
  qed
qed

text \<open>On a file without faults a record is written as specified, and the writer is behind it.\<close>

lemma AddRecord_loop_good:
  assumes "good (dest w)" "at_offset p w"
  shows "\<exists>w'. AddRecord_loop ops w x b = (OK, w') \<and> good (dest w') \<and> at_offset (p + length (frag_bytes p b x)) w' \<and>
              content (dest w') = content (dest w) @ frag_bytes p b x"
  using assms
proof (induction p b x arbitrary: w rule: frag_bytes.induct)
  case (1 p b x)
  define q where "q = p + trailer p"
  define n where "n = min (length x) (room q)"
  obtain d where d: "switch_block ops w = w\<lparr>dest := d, block_offset := int (q mod kBlockSize)\<rparr>" "good d"
    "content d = content (dest w) @ replicate (trailer p) 0"
    using switch_good [OF 1(2,3)] by (auto simp: q_def)
  define w1 where "w1 = w\<lparr>dest := d, block_offset := int (q mod kBlockSize)\<rparr>"
  have room: "nat (int kBlockSize - block_offset w1 - int kHeaderSize) = room q"
    by (simp add: w1_def room_def)
  have pre: "good (dest w1)" "type_crc w1 = InitTypeCrc" "length (take n x) = n" "dest w1 = d"
    using d(2) 1(3) by (simp_all add: w1_def at_offset_def n_def)
  obtain d' where e: "EmitPhysicalRecord ops w1 (fragment_type b (n = length x)) (take n x) =
        (OK, w1\<lparr>dest := d', block_offset := block_offset w1 + int kHeaderSize + int n\<rparr>)" "good d'"
      "content d' = content (dest w1) @ physical (fragment_type b (n = length x)) (take n x)"
    using emit_good [OF pre(1,2) fragment_type_cases, of b "n = length x" "take n x"] pre(3) by auto
  define w2 where "w2 = w1\<lparr>dest := d', block_offset := block_offset w1 + int kHeaderSize + int n\<rparr>"
  have body: "AddRecord_body ops w x b = (OK, n, w2)"
    using e(1) by (auto simp: AddRecord_body_def Let_def d(1) room w2_def fragment_type_def n_def min_def
        simp flip: w1_def split: if_splits)
  have le: "q mod kBlockSize + kHeaderSize + n \<le> kBlockSize"
    using after_trailer [of p] by (simp add: n_def room_def q_def)
  then have off: "at_offset (q + kHeaderSize + n) w2"
  proof -
    have "nat (block_offset w2) = q mod kBlockSize + kHeaderSize + n" by (simp add: w2_def w1_def)
    moreover have "(q mod kBlockSize + kHeaderSize + n) mod kBlockSize = (q + kHeaderSize + n) mod kBlockSize"
      by (simp add: mod_add_left_eq add.assoc)
    ultimately show ?thesis using le 1(3) by (simp add: at_offset_def w2_def w1_def)
  qed
  have bytes: "frag_bytes p b x = replicate (trailer p) 0 @ physical (fragment_type b (n = length x)) (take n x) @
      (if n < length x then frag_bytes (q + kHeaderSize + n) False (drop n x) else [])"
    by (subst frag_bytes.simps) (simp add: Let_def q_def n_def)
  have n_le: "n \<le> length x" by (simp add: n_def)
  show ?case
  proof (cases "n < length x")
    case True
    obtain w' where w': "AddRecord_loop ops w2 (drop n x) False = (OK, w')" "good (dest w')"
        "at_offset (q + kHeaderSize + n + length (frag_bytes (q + kHeaderSize + n) False (drop n x))) w'"
        "content (dest w') = content (dest w2) @ frag_bytes (q + kHeaderSize + n) False (drop n x)"
      using 1(1) [OF q_def n_def True _ off] e(2) by (auto simp: w2_def)
    then show ?thesis using True body bytes d(3) e(3) n_le
      by (auto simp: AddRecord_loop.simps [of ops w] w2_def pre(4) q_def add.assoc)
  next
    case False
    then have "n = length x" using n_le by simp
    then show ?thesis using body bytes d(3) e off
      by (auto simp: AddRecord_loop.simps [of ops w] w2_def pre(4) q_def add.assoc)
  qed
qed

end

section \<open>Reading\<close>

lemma length_field: "n < 65536 \<Longrightarrow>
    unat ((ucast (of_nat (n mod 256) :: byte) AND (0xff :: u32)) OR push_bit 8 (ucast (of_nat (n div 256) :: byte) AND 0xff)) = n"
proof -
  assume n: "n < 65536"
  have and_ff: "ucast (b :: byte) AND (0xff :: u32) = ucast b" for b
    by (rule bit_eqI) (auto simp: mask8 bit_simps dest: bit_imp_le_length)
  show ?thesis using n or_byte [of "ucast (of_nat (n mod 256) :: byte) :: u32" 8 "of_nat (n div 256)"]
    by (simp add: and_ff unat_byte_of_nat)
qed

text \<open>A complete record in the buffer is delivered, a record that the end of the file cuts is the end.\<close>

lemma parse_complete:
  assumes "buffer r = physical t d @ rest" "length d \<le> kBlockSize - kHeaderSize" "initial_offset r = 0"
    "t \<in> {kFullType, kFirstType, kMiddleType, kLastType}"
  shows "parse_record f r = (t, d, r\<lparr>buffer := rest\<rparr>)"
proof -
  obtain c0 c1 c2 c3 where c: "EncodeFixed32 True (crc_Mask (crc_Value 0 (ucast t # d))) = [c0, c1, c2, c3]"
    using le_list_4 [of "unat (crc_Mask (crc_Value 0 (ucast t # d)))"] by (auto simp: EncodeFixed32_def)
  have dec: "DecodeFixed32 True (buffer r) = crc_Mask (crc_Value 0 (ucast t # d))"
    by (simp add: assms(1) physical_def DecodeFixed32_Encode)
  have h: "buffer r = c0 # c1 # c2 # c3 # of_nat (length d mod 256) # of_nat (length d div 256) # ucast t # d @ rest"
    by (simp add: assms(1) physical_def c)
  have t: "scast (ucast t :: byte) = t" using assms(4) by (auto simp: type_defs)
  have len: "unat ((ucast (buffer r ! 4) AND (0xff :: u32)) OR push_bit 8 (ucast (buffer r ! 5) AND 0xff)) = length d"
    using length_field [of "length d"] assms(2) by (simp add: h size_defs)
  have parts: "take (1 + length d) (drop 6 (buffer r)) = ucast t # d" "scast (buffer r ! 6) = t"
    "take (length d) (drop kHeaderSize (buffer r)) = d" "kHeaderSize + length d \<le> length (buffer r)"
    using t by (simp_all add: h kHeaderSize_def)
  have "drop (length d) (drop kHeaderSize (buffer r)) = rest" by (simp add: h kHeaderSize_def)
  then have rest: "drop (kHeaderSize + length d) (buffer r) = rest" by (simp add: add.commute)
  have "t \<noteq> kZeroType" using assms(4) by (auto simp: type_defs)
  then show ?thesis using parts rest assms(3) dec
    by (simp add: parse_record_def Let_def len crc_Unmask_Mask del: push_bit_and)
qed

lemma parse_cut:
  assumes "buffer r = take m (physical t d)" "kHeaderSize \<le> m" "m < kHeaderSize + length d"
    "length d \<le> kBlockSize - kHeaderSize" "eof r"
  shows "parse_record f r = (kEof, f, r\<lparr>buffer := []\<rparr>)"
proof -
  obtain c0 c1 c2 c3 where c: "EncodeFixed32 True (crc_Mask (crc_Value 0 (ucast t # d))) = [c0, c1, c2, c3]"
    using le_list_4 [of "unat (crc_Mask (crc_Value 0 (ucast t # d)))"] by (auto simp: EncodeFixed32_def)
  obtain m' where m: "m = Suc (Suc (Suc (Suc (Suc (Suc (Suc m'))))))"
    using assms(2) by (auto simp: kHeaderSize_def Suc_le_length_iff numeral_eq_Suc dest!: le_Suc_ex)
  have h: "buffer r = c0 # c1 # c2 # c3 # of_nat (length d mod 256) # of_nat (length d div 256) # ucast t # take m' d"
    by (simp add: assms(1) physical_def c m)
  have len: "unat ((ucast (buffer r ! 4) AND (0xff :: u32)) OR push_bit 8 (ucast (buffer r ! 5) AND 0xff)) = length d"
    using length_field [of "length d"] assms(4) by (simp add: h size_defs)
  have "length (buffer r) < kHeaderSize + length d" using assms(3) by (simp add: assms(1))
  then show ?thesis using assms(5) by (simp add: parse_record_def Let_def len del: push_bit_and)
qed

text \<open>What one call of the reader leaves alone.\<close>

definition quiet :: "'s Reader \<Rightarrow> 's Reader \<Rightarrow> bool" where
  "quiet r r' \<longleftrightarrow> reports r' = reports r \<and> has_reporter r' = has_reporter r \<and> checksum r' = checksum r \<and>
     initial_offset r' = initial_offset r \<and> resyncing r' = resyncing r \<and> last_record_offset r' = last_record_offset r"

lemma quiet_refl [simp]: "quiet r r"
  by (simp add: quiet_def)

lemma quiet_trans: "quiet r r' \<Longrightarrow> quiet r' r'' \<Longrightarrow> quiet r r''"
  by (simp add: quiet_def)

context sequential_file
begin

text \<open>
  The reader \<open>r\<close> has delivered the file \<open>F\<close> up to position \<open>p\<close>: its buffer holds the bytes from \<open>p\<close> to the end of the
  block or of the file.
\<close>

definition delivered :: "byte list \<Rightarrow> nat \<Rightarrow> 's Reader \<Rightarrow> bool" where
  "delivered F p r \<longleftrightarrow> (\<exists>e. reads (rfile r) F e \<and> p \<le> e \<and> e \<le> length F \<and> buffer r = take (e - p) (drop p F) \<and>
     (if eof r then e = length F else kBlockSize dvd e) \<and> e - p \<le> kBlockSize - p mod kBlockSize) \<and>
   initial_offset r = 0 \<and> \<not> resyncing r"

lemma delivered_buffer:
  assumes "delivered F p r"
  shows "length (buffer r) \<le> kBlockSize - p mod kBlockSize" "p + length (buffer r) \<le> length F"
    "buffer r = take (length (buffer r)) (drop p F)"
    "eof r \<Longrightarrow> p + length (buffer r) = length F"
    "\<not> eof r \<Longrightarrow> buffer r \<noteq> [] \<Longrightarrow> length (buffer r) = kBlockSize - p mod kBlockSize"
    "\<not> eof r \<Longrightarrow> buffer r = [] \<Longrightarrow> p mod kBlockSize = 0"
proof -
  obtain e where e: "p \<le> e" "e \<le> length F" "buffer r = take (e - p) (drop p F)"
    "if eof r then e = length F else kBlockSize dvd e" "e - p \<le> kBlockSize - p mod kBlockSize"
    using assms by (auto simp: delivered_def)
  have "length (take (e - p) (drop p F)) = e - p" using e(1,2) by simp
  then have len: "length (buffer r) = e - p" using e(3) by simp
  then show "length (buffer r) \<le> kBlockSize - p mod kBlockSize" "p + length (buffer r) \<le> length F"
    "buffer r = take (length (buffer r)) (drop p F)" "eof r \<Longrightarrow> p + length (buffer r) = length F"
    using e by auto
  have dvd: "kBlockSize dvd e" if "\<not> eof r" using e(4) that by simp
  show "p mod kBlockSize = 0" if "\<not> eof r" "buffer r = []"
    using that dvd len e(1) by auto
  show "length (buffer r) = kBlockSize - p mod kBlockSize" if "\<not> eof r" "buffer r \<noteq> []"
  proof -
    have "p < e" using len that(2) by (metis length_greater_0_conv zero_less_diff)
    then have "kBlockSize - p mod kBlockSize \<le> e - p"
    proof -
      have "kBlockSize dvd (e - (p - p mod kBlockSize))" using dvd that(1) by (simp add: minus_mod_eq_mult_div)
      then have "kBlockSize \<le> e - (p - p mod kBlockSize)" using \<open>p < e\<close> by (auto intro: dvd_imp_le)
      then show ?thesis by arith
    qed
    then show ?thesis using len e(5) by simp
  qed
qed

lemma ReadPhysicalRecord_delivered:
  assumes r: "delivered F p r"
  shows "length F < p + trailer p + kHeaderSize \<Longrightarrow> \<exists>r'. ReadPhysicalRecord ops f r = (kEof, f, r') \<and> quiet r r'"
    "p + trailer p + kHeaderSize \<le> length F \<Longrightarrow>
       \<exists>r'. ReadPhysicalRecord ops f r = parse_record f r' \<and> quiet r r' \<and> delivered F (p + trailer p) r' \<and>
            kHeaderSize \<le> length (buffer r')"
proof -
  note b = delivered_buffer [OF r]
  let ?A = "length F < p + trailer p + kHeaderSize \<and> (\<exists>r'. ReadPhysicalRecord ops f r = (kEof, f, r') \<and> quiet r r')"
  let ?B = "p + trailer p + kHeaderSize \<le> length F \<and>
      (\<exists>r'. ReadPhysicalRecord ops f r = parse_record f r' \<and> quiet r r' \<and> delivered F (p + trailer p) r' \<and>
            kHeaderSize \<le> length (buffer r'))"
  have "?A \<or> ?B"
  proof (cases "kHeaderSize \<le> length (buffer r)")
    case True
    then have "trailer p = 0" using b(1) by (auto simp: trailer_def)
    then have ?B using True b(2) r by (auto simp: ReadPhysicalRecord.simps [of ops f r])
    then show ?thesis by simp
  next
    case short: False
    show ?thesis
    proof (cases "eof r")
      case True
      then have ?A using short b(4) by (auto simp: ReadPhysicalRecord.simps [of ops f r] quiet_def)
      then show ?thesis by simp
    next
      case False
      have q: "p + trailer p = p + length (buffer r)" "(p + trailer p) mod kBlockSize = 0"
      proof -
        show q: "p + trailer p = p + length (buffer r)"
          using b(5,6) False short by (cases "buffer r = []") (auto simp: trailer_def size_defs)
        show "(p + trailer p) mod kBlockSize = 0"
          using b(6) False q trailer_new_block [of p] by (cases "buffer r = []") auto
      qed
      define q' where "q' = p + trailer p"
      obtain e where e: "reads (rfile r) F e" "buffer r = take (e - p) (drop p F)" "p \<le> e" "e \<le> length F"
        using r by (auto simp: delivered_def)
      then have "e = q'" using q(1) by (simp add: q'_def)
      then obtain g where g: "Read ops (rfile r) kBlockSize = (OK, take kBlockSize (drop q' F), g)"
          "reads g F (q' + length (take kBlockSize (drop q' F)))"
        using read_next e(1) by blast
      define bl where "bl = take kBlockSize (drop q' F)"
      define r1 where "r1 = r\<lparr>rfile := g, buffer := bl,
                             end_of_buffer_offset := end_of_buffer_offset r + of_nat (length bl)\<rparr>"
      define r2 where "r2 = (if length bl < kBlockSize then r1\<lparr>eof := True\<rparr> else r1)"
      have step: "ReadPhysicalRecord ops f r = ReadPhysicalRecord ops f r2"
        using short False g(1) by (subst ReadPhysicalRecord.simps) (simp add: Let_def r2_def r1_def bl_def)
      have quiet: "quiet r r2" by (simp add: quiet_def r2_def r1_def)
      have bl: "buffer r2 = bl" "length bl = min kBlockSize (length F - q')" by (simp_all add: r2_def r1_def bl_def)
      have eof2: "eof r2 \<longleftrightarrow> length bl < kBlockSize" using False by (simp add: r2_def r1_def)
      have "delivered F q' r2"
        unfolding delivered_def
      proof (intro conjI exI [of _ "q' + length bl"])
        show "reads (rfile r2) F (q' + length bl)"
          using g(2) unfolding bl_def [symmetric] by (simp add: r2_def r1_def)
        show "q' + length bl \<le> length F" using bl(2) \<open>e = q'\<close> e(4) by simp
        show "buffer r2 = take (q' + length bl - q') (drop q' F)" using bl(1) by (simp add: bl_def min_def)
        show "if eof r2 then q' + length bl = length F else kBlockSize dvd q' + length bl"
          using eof2 bl(2) q(2) \<open>e = q'\<close> e(4) by (auto simp: q'_def min_def mod_eq_0_iff_dvd split: if_splits)
        show "q' + length bl - q' \<le> kBlockSize - q' mod kBlockSize" using bl(2) q(2) by (simp add: q'_def)
        show "initial_offset r2 = 0" "\<not> resyncing r2" using r by (simp_all add: delivered_def r2_def r1_def)
      qed simp
      then have ?A if "length bl < kHeaderSize"
        using that step quiet bl eof2 \<open>e = q'\<close> e(4)
        by (auto simp: ReadPhysicalRecord.simps [of ops f r2] size_defs q'_def quiet_def)
      moreover have ?B if "kHeaderSize \<le> length bl"
        using that step quiet bl \<open>delivered F q' r2\<close> \<open>e = q'\<close> e(4) by (auto simp: ReadPhysicalRecord.simps [of ops f r2] q'_def)
      ultimately show ?thesis by (meson not_less)
    qed
  qed
  then show "length F < p + trailer p + kHeaderSize \<Longrightarrow> \<exists>r'. ReadPhysicalRecord ops f r = (kEof, f, r') \<and> quiet r r'"
    and "p + trailer p + kHeaderSize \<le> length F \<Longrightarrow>
       \<exists>r'. ReadPhysicalRecord ops f r = parse_record f r' \<and> quiet r r' \<and> delivered F (p + trailer p) r' \<and>
            kHeaderSize \<le> length (buffer r')"
    by (meson not_less)+
qed

lemma read_fragment:
  assumes r: "delivered F p r" and F: "drop p F = replicate (trailer p) 0 @ physical t d @ rest"
    and d: "length d \<le> room (p + trailer p)" and t: "t \<in> {kFullType, kFirstType, kMiddleType, kLastType}"
  shows "\<exists>r'. ReadPhysicalRecord ops f r = (t, d, r') \<and> quiet r r' \<and>
              delivered F (p + trailer p + kHeaderSize + length d) r'"
proof -
  define q where "q = p + trailer p"
  have "drop q F = drop (trailer p) (drop p F)" by (simp add: q_def add.commute)
  then have dq: "drop q F = physical t d @ rest" by (simp add: F)
  have "length (drop q F) = kHeaderSize + length d + length rest" unfolding dq by simp
  then have lenF: "q + kHeaderSize + length d + length rest = length F" by (simp add: kHeaderSize_def)
  have fits: "q mod kBlockSize + kHeaderSize + length d \<le> kBlockSize"
    using d after_trailer [of p] by (simp add: room_def q_def)
  obtain r1 where r1: "ReadPhysicalRecord ops f r = parse_record f r1" "quiet r r1" "delivered F q r1"
    "kHeaderSize \<le> length (buffer r1)"
    using ReadPhysicalRecord_delivered(2) [OF r, of f] lenF by (auto simp: q_def)
  note b = delivered_buffer [OF r1(3)]
  have "buffer r1 \<noteq> []" using r1(4) by (auto simp: kHeaderSize_def)
  then have long: "kHeaderSize + length d \<le> length (buffer r1)"
    using b(4,5) lenF fits by (cases "eof r1") auto
  define rest' where "rest' = drop (kHeaderSize + length d) (buffer r1)"
  have buf: "buffer r1 = physical t d @ rest'"
  proof -
    have "take (kHeaderSize + length d) (buffer r1) = physical t d"
      using long by (subst b(3)) (simp add: dq min_absorb1)
    then show ?thesis unfolding rest'_def by (metis append_take_drop_id)
  qed
  have "initial_offset r1 = 0" using r1(3) by (simp add: delivered_def)
  then have p: "parse_record f r1 = (t, d, r1\<lparr>buffer := rest'\<rparr>)"
    using parse_complete [OF buf _ _ t] d by (simp add: room_def)
  have "delivered F (q + kHeaderSize + length d) (r1\<lparr>buffer := rest'\<rparr>)"
  proof -
    obtain e where e: "reads (rfile r1) F e" "q \<le> e" "e \<le> length F" "buffer r1 = take (e - q) (drop q F)"
        "if eof r1 then e = length F else kBlockSize dvd e" "e - q \<le> kBlockSize - q mod kBlockSize"
        "initial_offset r1 = 0" "\<not> resyncing r1"
      using r1(3) by (auto simp: delivered_def)
    have le: "length (buffer r1) \<le> e - q" unfolding e(4) by simp
    have "e - (q + kHeaderSize + length d) \<le> kBlockSize - (q + kHeaderSize + length d) mod kBlockSize"
    proof (cases "q mod kBlockSize + kHeaderSize + length d = kBlockSize")
      case True
      then have "e \<le> q + kHeaderSize + length d" using e(2,6) by simp
      then show ?thesis by simp
    next
      case False
      then have "(q + kHeaderSize + length d) mod kBlockSize = q mod kBlockSize + kHeaderSize + length d"
        using fits mod_add_left_eq [of q kBlockSize "kHeaderSize + length d"] by (simp add: add.assoc)
      then show ?thesis using e(6) by simp
    qed
    moreover have "rest' = take (e - (q + kHeaderSize + length d)) (drop (q + kHeaderSize + length d) F)"
      unfolding rest'_def e(4) by (simp add: drop_take add.commute add.left_commute)
    ultimately show ?thesis using e le long unfolding delivered_def by (intro conjI exI [of _ e]) auto
  qed
  then show ?thesis using r1(1,2) p by (auto simp: q_def quiet_def)
qed

lemma read_cut:
  assumes r: "delivered F p r" and F: "drop p F = take m (replicate (trailer p) 0 @ physical t d)"
    and m: "m < trailer p + kHeaderSize + length d" and p: "p \<le> length F"
    and d: "length d \<le> room (p + trailer p)"
  shows "\<exists>r'. ReadPhysicalRecord ops f r = (kEof, f, r') \<and> quiet r r'"
proof (cases "m < trailer p + kHeaderSize")
  case True
  have "length (drop p F) = m" using m unfolding F by simp
  then have "length F < p + trailer p + kHeaderSize" using True by simp
  then show ?thesis using ReadPhysicalRecord_delivered(1) [OF r] by blast
next
  case False
  define q where "q = p + trailer p"
  have "length (drop p F) = m" using m unfolding F by simp
  then have len: "length F = p + m" using p by simp
  have dq: "drop q F = take (m - trailer p) (physical t d)"
  proof -
    have "drop q F = drop (trailer p) (drop p F)" by (simp add: q_def add.commute)
    then show ?thesis using False by (simp add: F min_absorb2)
  qed
  obtain r1 where r1: "ReadPhysicalRecord ops f r = parse_record f r1" "quiet r r1" "delivered F q r1"
    "kHeaderSize \<le> length (buffer r1)"
    using ReadPhysicalRecord_delivered(2) [OF r, of f] len False by (auto simp: q_def)
  note b = delivered_buffer [OF r1(3)]
  have nonempty: "buffer r1 \<noteq> []" using r1(4) by (auto simp: kHeaderSize_def)
  have eof: "eof r1"
  proof (rule ccontr)
    assume "\<not> eof r1"
    then have "length (buffer r1) = kBlockSize - q mod kBlockSize" using b(5) nonempty by blast
    then show False using b(2) len m d after_trailer [of p] by (simp add: q_def room_def)
  qed
  then have "q + length (buffer r1) = length F" using b(4) by blast
  then have "buffer r1 = drop q F" using b(3) by simp
  then have "parse_record f r1 = (kEof, f, r1\<lparr>buffer := []\<rparr>)"
    using parse_cut [of r1 "m - trailer p" t d f] dq eof False m d by (simp add: room_def)
  then show ?thesis using r1(1,2) by (auto simp: quiet_def)
qed

text \<open>
  One record, from the state of the loop: the whole record is returned, behind what the scratch space
  holds; a record that the end of the file cuts ends the reading without a report.
\<close>

lemma frag_bytes_unfold:
  "frag_bytes p b d =
     (let q = p + trailer p; n = min (length d) (room q)
      in replicate (trailer p) 0 @ physical (fragment_type b (n = length d)) (take n d) @
         (if n < length d then frag_bytes (q + kHeaderSize + n) False (drop n d) else []))"
  by (rule frag_bytes.simps)

lemma read_record_bytes:
  assumes "delivered F p (reader l)" "drop p F = frag_bytes p b d @ rest" "in_fragmented_record l = (\<not> b)"
    "b \<Longrightarrow> scratch l = []"
  shows "\<exists>s r'. ReadRecord_loop ops u l = Some (True, scratch l @ d, s, r') \<and> reports r' = reports (reader l) \<and>
              delivered F (p + length (frag_bytes p b d)) r'"
  using assms
proof (induction p b d arbitrary: l rule: frag_bytes.induct)
  case (1 p b d)
  define q where "q = p + trailer p"
  define n where "n = min (length d) (room q)"
  have nroom: "n \<le> room q" "n \<le> length d" by (simp_all add: n_def)
  have bytes: "frag_bytes p b d = replicate (trailer p) 0 @ physical (fragment_type b (n = length d)) (take n d) @
      (if n < length d then frag_bytes (q + kHeaderSize + n) False (drop n d) else [])"
    by (subst frag_bytes_unfold) (simp add: Let_def q_def n_def)
  have dF: "drop p F = replicate (trailer p) 0 @ physical (fragment_type b (n = length d)) (take n d) @
      (if n < length d then frag_bytes (q + kHeaderSize + n) False (drop n d) else []) @ rest"
    by (simp add: 1(3) bytes)
  obtain r' where r': "ReadPhysicalRecord ops (fragment l) (reader l) = (fragment_type b (n = length d), take n d, r')"
      "quiet (reader l) r'" "delivered F (q + kHeaderSize + n) r'"
    using read_fragment [OF 1(2) dF _ fragment_type_cases] nroom by (auto simp: q_def min_absorb2)
  have res: "\<not> resyncing r'" using r'(3) by (simp add: delivered_def)
  then have upd: "r'\<lparr>resyncing := False\<rparr> = r'" by simp
  show ?case
  proof (cases "n < length d")
    case False
    then have n: "n = length d" using nroom(2) by simp
    show ?thesis
    proof (cases b)
      case True
      have "ReadRecord_turn ops u l = Inl (True, d, [], r'\<lparr>last_record_offset :=
          end_of_buffer_offset r' - of_nat (length (buffer r')) - of_nat kHeaderSize - of_nat (length d)\<rparr>)"
        using r'(1) n True res upd 1(4) by (simp add: ReadRecord_turn_def Let_def fragment_type_def type_defs)
      then show ?thesis using r' n True 1(5) bytes
        by (auto simp: ReadRecord_loop.simps [of ops u l] quiet_def delivered_def q_def add.assoc)
    next
      case False
      have "ReadRecord_turn ops u l = Inl (True, scratch l @ d, scratch l @ d,
          r'\<lparr>last_record_offset := prospective_record_offset l\<rparr>)"
        using r'(1) n False res upd 1(4) by (simp add: ReadRecord_turn_def Let_def fragment_type_def type_defs)
      then show ?thesis using r' n bytes
        by (auto simp: ReadRecord_loop.simps [of ops u l] quiet_def delivered_def q_def add.assoc)
    qed
  next
    case more: True
    obtain l' where turn: "ReadRecord_turn ops u l = Inr l'" and l': "reader l' = r'" "in_fragmented_record l'"
        "scratch l' = scratch l @ take n d"
      using r'(1) more res upd 1(4,5)
      by (cases b) (auto simp: ReadRecord_turn_def Let_def fragment_type_def type_defs)
    have "drop (q + kHeaderSize + n) F = frag_bytes (q + kHeaderSize + n) False (drop n d) @ rest"
    proof -
      have "drop (q + kHeaderSize + n) F = drop (trailer p + kHeaderSize + n) (drop p F)"
        by (simp add: q_def add.assoc add.commute add.left_commute)
      then show ?thesis using more nroom(2) by (simp add: 1(3) bytes)
    qed
    then obtain s r'' where rec: "ReadRecord_loop ops u l' = Some (True, scratch l' @ drop n d, s, r'')"
        "reports r'' = reports r'"
        "delivered F (q + kHeaderSize + n + length (frag_bytes (q + kHeaderSize + n) False (drop n d))) r''"
      using 1(1) [OF q_def n_def more, of l'] r'(3) l' by auto
    then show ?thesis using turn l' r'(2) more nroom(2)
      by (auto simp: ReadRecord_loop.simps [of ops u l] quiet_def bytes q_def add.assoc)
  qed
qed

lemma read_record_cut:
  assumes "delivered F p (reader l)" "drop p F = take m (frag_bytes p b d)" "m < length (frag_bytes p b d)"
    "p \<le> length F" "in_fragmented_record l = (\<not> b)"
  shows "\<exists>s r'. ReadRecord_loop ops u l = Some (False, [], s, r') \<and> reports r' = reports (reader l)"
  using assms
proof (induction p b d arbitrary: l m rule: frag_bytes.induct)
  case (1 p b d)
  define q where "q = p + trailer p"
  define n where "n = min (length d) (room q)"
  have nroom: "n \<le> room q" "n \<le> length d" by (simp_all add: n_def)
  let ?t = "fragment_type b (n = length d)"
  have bytes: "frag_bytes p b d = replicate (trailer p) 0 @ physical ?t (take n d) @
      (if n < length d then frag_bytes (q + kHeaderSize + n) False (drop n d) else [])"
    by (subst frag_bytes_unfold) (simp add: Let_def q_def n_def)
  show ?case
  proof (cases "m < trailer p + kHeaderSize + n")
    case True
    have "drop p F = take m (replicate (trailer p) 0 @ physical ?t (take n d))"
      using True nroom(2) by (simp add: 1(3) bytes min_absorb2)
    then obtain r' where r': "ReadPhysicalRecord ops (fragment l) (reader l) = (kEof, fragment l, r')"
        "quiet (reader l) r'"
      using read_cut [OF 1(2), of m ?t "take n d"] True nroom 1(5) by (auto simp: q_def)
    have "\<not> resyncing r'" using r'(2) 1(2) by (simp add: delivered_def quiet_def)
    then have "\<exists>s. ReadRecord_turn ops u l = Inl (False, [], s, r')"
      using r'(1) by (simp add: ReadRecord_turn_def Let_def type_defs)
    then show ?thesis using r'(2) by (auto simp: ReadRecord_loop.simps [of ops u l] quiet_def)
  next
    case False
    then have more: "n < length d" using 1(4) nroom(2) by (auto simp: bytes split: if_splits)
    define m' where "m' = m - (trailer p + kHeaderSize + n)"
    have dF: "drop p F = replicate (trailer p) 0 @ physical ?t (take n d) @
        take m' (frag_bytes (q + kHeaderSize + n) False (drop n d))"
      using False more nroom(2) by (simp add: 1(3) bytes m'_def min_absorb2 add.assoc)
    obtain r' where r': "ReadPhysicalRecord ops (fragment l) (reader l) = (?t, take n d, r')"
        "quiet (reader l) r'" "delivered F (q + kHeaderSize + n) r'"
      using read_fragment [OF 1(2) dF _ fragment_type_cases] nroom by (auto simp: q_def min_absorb2)
    have res: "\<not> resyncing r'" using r'(3) by (simp add: delivered_def)
    then have upd: "r'\<lparr>resyncing := False\<rparr> = r'" by simp
    obtain l' where turn: "ReadRecord_turn ops u l = Inr l'" and l': "reader l' = r'" "in_fragmented_record l'"
      "reports (reader l') = reports r'"
      using r'(1) more res upd 1(6)
      by (cases "b \<or> scratch l = []") (auto simp: ReadRecord_turn_def Let_def fragment_type_def type_defs)
    have "drop (q + kHeaderSize + n) F = take m' (frag_bytes (q + kHeaderSize + n) False (drop n d))"
    proof -
      have "drop (q + kHeaderSize + n) F = drop (trailer p + kHeaderSize + n) (drop p F)"
        by (simp add: q_def add.assoc add.commute add.left_commute)
      then show ?thesis using more nroom(2) by (simp add: dF)
    qed
    moreover have "m' < length (frag_bytes (q + kHeaderSize + n) False (drop n d))"
      using 1(4) False more nroom(2) by (auto simp: bytes m'_def)
    moreover have "q + kHeaderSize + n \<le> length F" using delivered_buffer(2) [OF r'(3)] by simp
    ultimately obtain s r'' where "ReadRecord_loop ops u l' = Some (False, [], s, r'')" "reports r'' = reports r'"
      using 1(1) [OF q_def n_def more, of l' m'] r'(3) l' by auto
    then show ?thesis using turn r'(2) by (auto simp: ReadRecord_loop.simps [of ops u l] quiet_def)
  qed
qed

lemma delivered_start:
  assumes "reads f F 0"
  shows "delivered F 0 (Reader_new f rep chk 0)"
  using assms unfolding delivered_def by (intro conjI exI [of _ 0]) (auto simp: Reader_new_def)

end

section \<open>Logs\<close>

text \<open>A client that writes records, and one that reads until there are no more, as recovery does.\<close>

fun add_records :: "'f WritableFile \<Rightarrow> slice list \<Rightarrow> 'f Writer \<Rightarrow> Status list \<times> 'f Writer" where
  "add_records ops [] w = ([], w)"
| "add_records ops (d # ds) w =
     (case AddRecord ops w d of (s, w) \<Rightarrow> case add_records ops ds w of (ss, w) \<Rightarrow> (s # ss, w))"

fun read_records :: "'s SequentialFile \<Rightarrow> (u32 \<Rightarrow> string) \<Rightarrow> nat \<Rightarrow> 's Reader \<Rightarrow> (slice list \<times> 's Reader) option" where
  "read_records ops u 0 r = None"
| "read_records ops u (Suc k) r =
     (case ReadRecord ops u [] [] r of
        None \<Rightarrow> None
      | Some (True, d, s, r) \<Rightarrow> (case read_records ops u k r of None \<Rightarrow> None | Some (ds, r) \<Rightarrow> Some (d # ds, r))
      | Some (False, d, s, r) \<Rightarrow> Some ([], r))"

fun log_bytes :: "nat \<Rightarrow> slice list \<Rightarrow> byte list" where
  "log_bytes p [] = []"
| "log_bytes p (d # ds) = frag_bytes p True d @ log_bytes (p + length (frag_bytes p True d)) ds"

lemma log_bytes_append:
  "log_bytes p (ds @ es) = log_bytes p ds @ log_bytes (p + length (log_bytes p ds)) es"
  by (induction ds arbitrary: p) (simp_all add: add.assoc)

lemma frag_bytes_nonempty: "0 < length (frag_bytes p b d)"
  by (subst frag_bytes.simps) (simp add: Let_def kHeaderSize_def)

context reliable_file
begin

lemma add_records_good:
  assumes "good (dest w)" "at_offset p w"
  shows "\<exists>w'. add_records ops ds w = (replicate (length ds) OK, w') \<and> content (dest w') = content (dest w) @ log_bytes p ds"
  using assms
proof (induction ds arbitrary: w p)
  case (Cons d ds)
  then show ?case using AddRecord_loop_good [OF Cons.prems, of d True] Cons.IH
    by (fastforce simp: AddRecord_def)
qed auto

end

context sequential_file
begin

lemma ReadRecord_delivered:
  "delivered F p r \<Longrightarrow> ReadRecord ops u x s r =
     ReadRecord_loop ops u
       \<lparr>scratch = [], fragment = [], in_fragmented_record = False, prospective_record_offset = 0, reader = r\<rparr>"
  by (simp add: ReadRecord_def delivered_def)

text \<open>One call, where \<open>m\<close> more bytes of the log are left: the next record when they hold it, the end otherwise.\<close>

lemma read_next_record [consumes 3, case_names none one]:
  assumes "delivered F p r" "drop p F = take m (log_bytes p ds)" "p \<le> length F"
  obtains (none) s r' where "ReadRecord ops u x y r = Some (False, [], s, r')" "reports r' = reports r"
      "\<And>i. i \<le> length ds \<Longrightarrow> length (log_bytes p (take i ds)) \<le> m \<Longrightarrow> i = 0"
  | (one) d ds' n s r' where "ds = d # ds'" "n = length (frag_bytes p True d)" "n \<le> m"
      "ReadRecord ops u x y r = Some (True, d, s, r')" "reports r' = reports r" "delivered F (p + n) r'"
      "drop (p + n) F = take (m - n) (log_bytes (p + n) ds')" "p + n \<le> length F"
proof -
  define l where "l = \<lparr>scratch = [], fragment = [], in_fragmented_record = False, prospective_record_offset = 0, reader = r\<rparr>"
  have l: "reader l = r" "scratch l = []" "\<not> in_fragmented_record l" by (simp_all add: l_def)
  have rr: "ReadRecord ops u x y r = ReadRecord_loop ops u l" using ReadRecord_delivered [OF assms(1)] by (simp add: l_def)
  obtain d where d: "ds = [] \<or> hd ds = d" "ds = [] \<Longrightarrow> d = []" by (cases ds) auto
  define n where "n = length (frag_bytes p True d)"
  show thesis
  proof (cases "ds = [] \<or> m < n")
    case True
    define m' where "m' = (if ds = [] then 0 else m)"
    have "drop p F = take m' (frag_bytes p True d)" "m' < n"
      using True assms(2) d frag_bytes_nonempty [of p True d] by (cases ds; simp add: m'_def n_def)+
    then obtain s r' where "ReadRecord_loop ops u l = Some (False, [], s, r')" "reports r' = reports r"
      using read_record_cut [of F p l m' True d u] assms(1,3) l by (auto simp: n_def)
    moreover have "i = 0" if "i \<le> length ds" "length (log_bytes p (take i ds)) \<le> m" for i
      using that True d by (cases ds; cases i) (auto simp: n_def)
    ultimately show thesis using none rr by auto
  next
    case False
    then obtain ds' where ds: "ds = d # ds'" using d by (cases ds) auto
    have dF: "drop p F = frag_bytes p True d @ take (m - n) (log_bytes (p + n) ds')"
      using assms(2) False by (simp add: n_def ds)
    then obtain s r' where r': "ReadRecord_loop ops u l = Some (True, d, s, r')" "reports r' = reports r"
        "delivered F (p + n) r'"
      using read_record_bytes [of F p l True d _ u] assms(1) l by (fastforce simp: n_def)
    have "drop (p + n) F = drop n (drop p F)" by (simp add: add.commute)
    also have "\<dots> = take (m - n) (log_bytes (p + n) ds')" unfolding dF by (simp add: n_def)
    finally show thesis
      using one [OF ds n_def] r' rr False delivered_buffer(2) [OF r'(3), THEN add_leD1] by auto
  qed
qed

lemma read_log_cut:
  assumes "delivered F p r" "drop p F = take m (log_bytes p ds)" "p \<le> length F" "length ds < k"
  shows "\<exists>j r'. read_records ops u k r = Some (take j ds, r') \<and> reports r' = reports r \<and> j \<le> length ds \<and>
     length (log_bytes p (take j ds)) \<le> m \<and> (\<forall>i \<le> length ds. length (log_bytes p (take i ds)) \<le> m \<longrightarrow> i \<le> j)"
  using assms
proof (induction ds arbitrary: p r k m)
  case Nil
  obtain k' where k: "k = Suc k'" using Nil(4) by (cases k) auto
  from Nil(1,2,3) show ?case
    by (cases rule: read_next_record [where u = u and x = "[]" and y = "[]"]) (auto simp: k)
next
  case (Cons d ds)
  obtain k' where k: "k = Suc k'" "length ds < k'" using Cons(5) by (cases k) auto
  from Cons(2,3,4) show ?case
  proof (cases rule: read_next_record [where u = u and x = "[]" and y = "[]"])
    case (none s r')
    then show ?thesis by (intro exI [of _ 0]) (auto simp: k)
  next
    case (one d' ds' n s r')
    obtain j r'' where j: "read_records ops u k' r' = Some (take j ds, r'')" "reports r'' = reports r'" "j \<le> length ds"
        "length (log_bytes (p + n) (take j ds)) \<le> m - n"
        "\<forall>i \<le> length ds. length (log_bytes (p + n) (take i ds)) \<le> m - n \<longrightarrow> i \<le> j"
      using Cons.IH [OF one(6) _ one(8) k(2), of "m - n"] one(1,7) by auto
    have "i \<le> Suc j" if "i \<le> length (d # ds)" "length (log_bytes p (take i (d # ds))) \<le> m" for i
      using that j(5) one(1,2,3) by (cases i) auto
    then show ?thesis using j one by (intro exI [of _ "Suc j"]) (auto simp: k(1))
  qed
qed

end

section \<open>Crash safety\<close>

definition empty_file :: FILE where
  "empty_file = \<lparr>disk = [], pending = [], pos = 0, outcomes = []\<rparr>"

definition written_log :: "slice \<Rightarrow> slice list \<Rightarrow> byte list" where
  "written_log name ds = posix_content (dest (snd (add_records PosixWritableFile ds (Writer_new (posix_file_new name empty_file)))))"

lemma written_log_bytes:
  "add_records PosixWritableFile ds (Writer_new (posix_file_new name empty_file)) =
     (replicate (length ds) OK, snd (add_records PosixWritableFile ds (Writer_new (posix_file_new name empty_file))))"
  "written_log name ds = log_bytes 0 ds"
proof -
  let ?w = "Writer_new (posix_file_new name empty_file)"
  have "posix_good (dest ?w)" "posix_content (dest ?w) = []"
    by (simp_all add: Writer_new_def posix_file_new_def posix_good_def empty_file_def posix_content_def)
  then show "add_records PosixWritableFile ds ?w = (replicate (length ds) OK, snd (add_records PosixWritableFile ds ?w))"
    and "written_log name ds = log_bytes 0 ds"
    using posix_reliable.add_records_good [OF _ at_offset_new(1), of "posix_file_new name empty_file" ds]
    by (auto simp: written_log_def)
qed

text \<open>C14: Crash safety of the log. Every \<^verbatim>\<open>AddRecord\<close> on an empty file without faults succeeds; when a crash then keeps
  any number of bytes of the file, reading it back with checksums ends, returns exactly the records that are complete in
  those bytes, in order and unchanged, and reports no corruption.\<close>

theorem log_crash_safe:
  "fst (add_records PosixWritableFile ds (Writer_new (posix_file_new name empty_file))) = replicate (length ds) OK \<and>
   (\<exists>j r. read_records PosixSequentialFile unknown (Suc (length ds))
            (Reader_new (name, \<lparr>disk = take n (written_log name ds), pending = [], pos = 0, outcomes = []\<rparr>) rep chk 0)
         = Some (take j ds, r) \<and> reports r = [] \<and> j \<le> length ds \<and>
     length (written_log name (take j ds)) \<le> n \<and>
     (\<forall>i \<le> length ds. length (written_log name (take i ds)) \<le> n \<longrightarrow> i \<le> j))"
proof -
  let ?F = "take n (log_bytes 0 ds)"
  have "posix_reads (name, \<lparr>disk = ?F, pending = [], pos = 0, outcomes = []\<rparr>) ?F 0"
    by (simp add: posix_reads_def)
  from posix_in.read_log_cut [OF posix_in.delivered_start [OF this], of n ds "Suc (length ds)" unknown rep chk]
  have "\<exists>j r. read_records PosixSequentialFile unknown (Suc (length ds))
            (Reader_new (name, \<lparr>disk = ?F, pending = [], pos = 0, outcomes = []\<rparr>) rep chk 0)
         = Some (take j ds, r) \<and> reports r = [] \<and> j \<le> length ds \<and> length (log_bytes 0 (take j ds)) \<le> n \<and>
     (\<forall>i \<le> length ds. length (log_bytes 0 (take i ds)) \<le> n \<longrightarrow> i \<le> j)"
    by (simp add: Reader_new_def)
  then show ?thesis by (subst written_log_bytes(1)) (simp add: written_log_bytes(2))
qed

lemma one_record_bytes: "length (written_log name [[7]]) = 8"
  by (simp add: written_log_bytes frag_bytes.simps [of 0] trailer_def room_def size_defs Let_def)

theorem log_crash_safe_witness:
  "\<exists>r. read_records PosixSequentialFile (\<lambda>n. []) 2
         (Reader_new ([], \<lparr>disk = take 8 (written_log [] [[7]]), pending = [], pos = 0, outcomes = []\<rparr>) True True 0)
       = Some ([[7]], r) \<and> reports r = []"
proof -
  obtain j r where j: "read_records PosixSequentialFile (\<lambda>n. []) (Suc (length [[7 :: byte]]))
      (Reader_new ([], \<lparr>disk = take 8 (written_log [] [[7]]), pending = [], pos = 0, outcomes = []\<rparr>) True True 0)
      = Some (take j [[7]], r)" "reports r = []"
    "\<forall>i \<le> length [[7 :: byte]]. length (written_log [] (take i [[7]])) \<le> 8 \<longrightarrow> i \<le> j"
    using log_crash_safe [of "[[7]]" "[]" "\<lambda>n. []" 8 True True] by blast
  have "1 \<le> j" using j(3) [rule_format, of 1] by (simp add: one_record_bytes)
  then show ?thesis using j(1,2) by (cases j) (simp_all add: numeral_2_eq_2)
qed

section \<open>Errors\<close>

text \<open>C39: A physical record whose checksum does not match its type and bytes is not delivered: when checksums are on, the
  record is not empty and all of it is in the buffer, a reader with initial offset 0 and a reporter drops the rest of
  its buffer, reports that many bytes with a corruption status, and returns \<^verbatim>\<open>kBadRecord\<close>.\<close>

theorem checksum_mismatch_dropped:
  assumes "kHeaderSize + length d \<le> length (buffer r)" "length d < 65536" "d \<noteq> []" "checksum r" "has_reporter r"
    "initial_offset r = 0"
    "buffer r = EncodeFixed32 True (crc_Mask c) @ [of_nat (length d mod 256), of_nat (length d div 256), t] @ d @ rest"
    "c \<noteq> crc32c 0 (t # d)"
  shows "ReadPhysicalRecord ops f r =
    (kBadRecord, f, r\<lparr>buffer := [],
       reports := reports r @ [(of_nat (length (buffer r)), Corruption (bytes_of ''checksum mismatch'') [])]\<rparr>)"
proof -
  obtain c0 c1 c2 c3 where c: "EncodeFixed32 True (crc_Mask c) = [c0, c1, c2, c3]"
    using le_list_4 [of "unat (crc_Mask c)"] by (auto simp: EncodeFixed32_def)
  have dec: "DecodeFixed32 True (buffer r) = crc_Mask c" by (simp add: assms(7) DecodeFixed32_Encode)
  have h: "buffer r = c0 # c1 # c2 # c3 # of_nat (length d mod 256) # of_nat (length d div 256) # t # d @ rest"
    by (simp add: assms(7) c)
  have len: "unat ((ucast (buffer r ! 4) AND (0xff :: u32)) OR push_bit 8 (ucast (buffer r ! 5) AND 0xff)) = length d"
    using length_field [of "length d"] assms(2) by (simp add: h)
  have "take (Suc (length d)) (drop 6 (buffer r)) = t # d" by (simp add: h)
  then have "crc_Value 0 (take (1 + length d) (drop 6 (buffer r))) \<noteq> crc_Unmask (DecodeFixed32 True (buffer r))"
    using assms(8) by (simp add: dec crc_Unmask_Mask crc_Value_def crc_Extend_bits)
  then have "parse_record f r = (kBadRecord, f, ReportCorruption (of_nat (length (buffer r))) ''checksum mismatch'' (r\<lparr>buffer := []\<rparr>))"
    using assms(1,3,4) by (simp add: parse_record_def Let_def len del: push_bit_and)
  then show ?thesis using assms(1,5,6)
    by (simp add: ReadPhysicalRecord.simps [of ops f r] ReportCorruption_def ReportDrop_def)
qed

definition bad_buffer :: slice where
  "bad_buffer = EncodeFixed32 True (crc_Mask (crc32c 0 [1, 7] + 1)) @ [1, 0, 1, 7]"

theorem checksum_mismatch_dropped_witness:
  "ReadPhysicalRecord PosixSequentialFile [] ((Reader_new ([], empty_file) True True 0)\<lparr>buffer := bad_buffer\<rparr>) =
   (kBadRecord, [], (Reader_new ([], empty_file) True True 0)
      \<lparr>buffer := [], reports := [(8, Corruption (bytes_of ''checksum mismatch'') [])]\<rparr>)"
proof -
  have "length bad_buffer = 8" by (simp add: bad_buffer_def EncodeFixed32_def)
  then show ?thesis
    using checksum_mismatch_dropped [of "[7]" "(Reader_new ([], empty_file) True True 0)\<lparr>buffer := bad_buffer\<rparr>"
        "crc32c 0 [1, 7] + 1" 1 "[]" PosixSequentialFile "[]"]
    by (simp add: Reader_new_def kHeaderSize_def bad_buffer_def)
qed

context sequential_file
begin

lemma read_records_then:
  assumes "delivered F p r" "drop p F = log_bytes p ds @ rest"
  shows "\<exists>r'. read_records ops u (length ds + k) r = map_option (\<lambda>(es, r). (ds @ es, r)) (read_records ops u k r') \<and>
    reports r' = reports r \<and> delivered F (p + length (log_bytes p ds)) r'"
  using assms
proof (induction ds arbitrary: p r)
  case (Cons d ds)
  define n where "n = length (frag_bytes p True d)"
  obtain s r1 where r1: "ReadRecord ops u [] [] r = Some (True, d, s, r1)" "reports r1 = reports r" "delivered F (p + n) r1"
    using read_record_bytes [of F p "\<lparr>scratch = [], fragment = [], in_fragmented_record = False, prospective_record_offset = 0,
        reader = r\<rparr>" True d "log_bytes (p + n) ds @ rest" u] Cons.prems
    by (auto simp: ReadRecord_delivered n_def)
  have "drop (p + n) F = drop n (drop p F)" by (simp add: add.commute)
  also have "\<dots> = log_bytes (p + n) ds @ rest" by (simp add: Cons.prems(2) n_def)
  finally obtain r' where "read_records ops u (length ds + k) r1 = map_option (\<lambda>(es, r). (ds @ es, r)) (read_records ops u k r')"
      "reports r' = reports r1" "delivered F (p + n + length (log_bytes (p + n) ds)) r'"
    using Cons.IH [OF r1(3)] by blast
  then show ?case using r1(1,2)
    by (intro exI [of _ r']) (auto simp: n_def add.assoc option.map_comp split: option.split)
next
  case Nil
  then show ?case by (intro exI [of _ r]) (simp add: case_prod_beta option.map_ident)
qed

text \<open>A record of one byte that starts at the last byte of a block: behind it the reader sees a header with the length 256.\<close>

lemma record_in_trailer_lost:
  assumes r: "delivered F p r" and F: "drop p F = physical kFullType [x]" "p \<le> length F" and p: "p mod kBlockSize = kBlockSize - 1"
  shows "\<exists>s r'. ReadRecord ops u a b r = Some (False, [], s, r') \<and> reports r' = reports r"
proof -
  have t: "trailer p = 1" using p by (simp add: trailer_def size_defs)
  have "length (drop p F) = kHeaderSize + 1" by (simp add: F(1))
  then have len: "length F = p + trailer p + kHeaderSize" using F(2) t by simp
  define rr where "rr = \<lparr>scratch = [], fragment = [], in_fragmented_record = False, prospective_record_offset = 0, reader = r\<rparr>"
  obtain r1 where r1: "ReadPhysicalRecord ops [] r = parse_record [] r1" "quiet r r1" "delivered F (p + 1) r1"
    "kHeaderSize \<le> length (buffer r1)"
    using ReadPhysicalRecord_delivered(2) [OF r, of "[]"] len t by auto
  note b = delivered_buffer [OF r1(3)]
  have nonempty: "buffer r1 \<noteq> []" using r1(4) by (auto simp: kHeaderSize_def)
  have q0: "(p + 1) mod kBlockSize = 0" using trailer_new_block [of p] t by simp
  have eof: "eof r1"
  proof (rule ccontr)
    assume "\<not> eof r1"
    then have "length (buffer r1) = kBlockSize - (p + 1) mod kBlockSize" using b(5) nonempty by blast
    then show False using b(2) len t q0 by (simp add: size_defs)
  qed
  then have "p + 1 + length (buffer r1) = length F" using b(4) by blast
  then have "buffer r1 = drop (p + 1) F" using b(3) by simp
  also have "\<dots> = drop 1 (drop p F)" by simp
  finally have bytes: "buffer r1 = drop 1 (physical kFullType [x])" by (simp only: F(1))
  obtain c0 c1 c2 c3 where "EncodeFixed32 True (crc_Mask (crc_Value 0 [ucast kFullType, x])) = [c0, c1, c2, c3]"
    using le_list_4 [of "unat (crc_Mask (crc_Value 0 [ucast kFullType, x]))"] by (auto simp: EncodeFixed32_def)
  then have buf: "buffer r1 = [c1, c2, c3, 1, 0, 1, x]"
    by (simp add: bytes physical_def) (simp add: type_defs)
  have "parse_record [] r1 = (kEof, [], r1\<lparr>buffer := []\<rparr>)"
    using eof by (simp add: parse_record_def buf Let_def size_defs)
  then have turn: "ReadPhysicalRecord ops (fragment rr) (reader rr) = (kEof, [], r1\<lparr>buffer := []\<rparr>)"
    using r1(1) by (simp add: rr_def)
  moreover have "\<not> resyncing r1" using r1(3) by (simp add: delivered_def)
  ultimately have "\<exists>s. ReadRecord_turn ops u rr = Inl (False, [], s, r1\<lparr>buffer := []\<rparr>)"
    by (simp add: ReadRecord_turn_def Let_def type_defs rr_def)
  then show ?thesis using r1(2) ReadRecord_delivered [OF r, of u a b]
    by (auto simp: ReadRecord_loop.simps [of ops u rr] quiet_def simp flip: rr_def)
qed

end

text \<open>C40: The writer ignores the status of the append that fills the end of a block, and a record is lost without a
  trace: take any log that was written without faults and ends one byte before the end of a block, opened again to
  append to it, on a disk that refuses just that one byte. \<^verbatim>\<open>AddRecord\<close> of a record of one byte reports success, the
  file is the log followed by the bytes of the record, and reading the file with checksums on or off returns the records
  of the log and then the end of the file, with no report: the new record is not read.\<close>

theorem trailer_failure_ignored:
  assumes "length (written_log name ds) mod kBlockSize = kBlockSize - 1" "length (written_log name ds) < 2 ^ 64"
  shows "\<exists>w r. AddRecord PosixWritableFile
      (Writer_at (posix_file_new name \<lparr>disk = written_log name ds, pending = [], pos = 0, outcomes = [Some (0, [])]\<rparr>)
         (of_nat (length (written_log name ds)))) [x] = (OK, w) \<and>
    posix_content (dest w) = written_log name ds @ physical kFullType [x] \<and>
    read_records PosixSequentialFile unknown (Suc (length ds))
      (Reader_new (name, \<lparr>disk = posix_content (dest w), pending = [], pos = 0, outcomes = []\<rparr>) True chk 0) = Some (ds, r) \<and>
    reports r = []"
proof -
  let ?L = "written_log name ds"
  let ?F = "?L @ physical kFullType [x]"
  let ?w = "Writer_at (posix_file_new name \<lparr>disk = ?L, pending = [], pos = 0, outcomes = [Some (0, [])]\<rparr>) (of_nat (length ?L))"
  have off: "block_offset ?w = 32767"
    using assms by (simp add: Writer_at_def unat_of_nat take_bit_nat_eq_self kBlockSize_def)
  moreover have "nat (int kBlockSize - 32767) = 1" by (simp add: kBlockSize_def)
  moreover have "crc_Extend 0 (InitTypeCrc ! unat kFullType) [x] = crc_Value 0 (ucast kFullType # [x])"
    by (rule type_crc_extend) simp
  ultimately obtain w where w: "AddRecord PosixWritableFile ?w [x] = (OK, w)" "posix_content (dest w) = ?F"
    by (simp add: AddRecord_def AddRecord_loop.simps AddRecord_body_def switch_block_def Writer_at_def size_defs Let_def
        EmitPhysicalRecord_def PosixWritableFile_def posix_Append_def posix_Flush_def stream_defs posix_content_def
        physical_def posix_file_new_def)
  let ?r = "Reader_new (name, \<lparr>disk = ?F, pending = [], pos = 0, outcomes = []\<rparr>) True chk 0"
  have d: "posix_in.delivered ?F 0 ?r" by (rule posix_in.delivered_start) (simp add: posix_reads_def)
  have "drop 0 ?F = log_bytes 0 ds @ physical kFullType [x]" by (simp add: written_log_bytes(2))
  from posix_in.read_records_then [OF d this, of unknown 1] obtain r1 where r1:
    "read_records PosixSequentialFile unknown (length ds + 1) ?r =
       map_option (\<lambda>(es, r). (ds @ es, r)) (read_records PosixSequentialFile unknown 1 r1)"
    "reports r1 = reports ?r" "posix_in.delivered ?F (length ?L) r1" by (auto simp: written_log_bytes(2))
  obtain s r where "ReadRecord PosixSequentialFile unknown [] [] r1 = Some (False, [], s, r)" "reports r = reports r1"
    using posix_in.record_in_trailer_lost [OF r1(3), of x unknown "[]" "[]"] assms(1) by auto
  then have "read_records PosixSequentialFile unknown (Suc (length ds)) ?r = Some (ds, r)" "reports r = []"
    using r1(1,2) by (simp_all add: Reader_new_def)
  then show ?thesis using w by auto
qed

lemma full_block_bytes: "length (written_log [] [replicate 32760 0]) = 32767"
  by (simp add: written_log_bytes frag_bytes.simps [of 0] trailer_def room_def size_defs Let_def)

theorem trailer_failure_ignored_witness:
  "\<exists>w r. AddRecord PosixWritableFile
      (Writer_at (posix_file_new [] \<lparr>disk = written_log [] [replicate 32760 0], pending = [], pos = 0,
         outcomes = [Some (0, [])]\<rparr>) 32767) [42] = (OK, w) \<and>
    read_records PosixSequentialFile (\<lambda>n. []) 2
      (Reader_new ([], \<lparr>disk = posix_content (dest w), pending = [], pos = 0, outcomes = []\<rparr>) True True 0)
      = Some ([replicate 32760 0], r) \<and> reports r = []"
proof -
  have "length (written_log [] [replicate 32760 0]) mod kBlockSize = kBlockSize - 1"
    unfolding full_block_bytes by (simp add: kBlockSize_def)
  then have "\<exists>w r. AddRecord PosixWritableFile
      (Writer_at (posix_file_new [] \<lparr>disk = written_log [] [replicate 32760 0], pending = [], pos = 0,
         outcomes = [Some (0, [])]\<rparr>) (of_nat (length (written_log [] [replicate 32760 0])))) [42] = (OK, w) \<and>
    posix_content (dest w) = written_log [] [replicate 32760 0] @ physical kFullType [42] \<and>
    read_records PosixSequentialFile (\<lambda>n. []) (Suc (length [replicate 32760 (0 :: byte)]))
      (Reader_new ([], \<lparr>disk = posix_content (dest w), pending = [], pos = 0, outcomes = []\<rparr>) True True 0)
      = Some ([replicate 32760 0], r) \<and> reports r = []"
    by (rule trailer_failure_ignored) (simp add: full_block_bytes)
  then show ?thesis
    unfolding full_block_bytes by (auto simp: numeral_2_eq_2 simp del: read_records.simps)
qed

end
