(* ===== verification/LdbKeys.thy ===== *)
theory LdbKeys
  imports LdbCoding
begin

text \<open>
  The orders of LevelDB (\<^verbatim>\<open>util/comparator.cc\<close>) and its internal keys (\<^verbatim>\<open>db/dbformat.h\<close>, \<^verbatim>\<open>db/dbformat.cc\<close>):
  a user key followed by a sequence number and a value type, ordered by increasing user key and
  then by decreasing sequence number. The contract of a comparator is the locale \<open>comparator\<close>.
\<close>

section \<open>Comparators\<close>

text \<open>The virtual methods. The methods that shorten a key return the new value of the string they change.\<close>

record comparator_class =
  Compare :: "slice \<Rightarrow> slice \<Rightarrow> int"
  FindShortestSeparator :: "slice \<Rightarrow> slice \<Rightarrow> slice"
  FindShortSuccessor :: "slice \<Rightarrow> slice"

fun diff_index_loop :: "slice \<Rightarrow> slice \<Rightarrow> nat \<Rightarrow> nat" where
  "diff_index_loop (a # start) (b # limit) i = (if a = b then diff_index_loop start limit (i + 1) else i)"
| "diff_index_loop start limit i = i"

definition Bytewise_separator :: "slice \<Rightarrow> slice \<Rightarrow> slice" where
  "Bytewise_separator start limit =
     (let min_length = min (length start) (length limit); diff_index = diff_index_loop start limit 0
      in if diff_index \<ge> min_length then start
         else let diff_byte = start ! diff_index
              in if diff_byte < 0xff \<and> unat diff_byte + 1 < unat (limit ! diff_index)
                 then take (diff_index + 1) (start[diff_index := diff_byte + 1]) else start)"

fun successor_loop :: "slice \<Rightarrow> nat \<Rightarrow> nat \<Rightarrow> slice" where
  "successor_loop key i 0 = key"
| "successor_loop key i (Suc n) =
     (let byte = key ! i
      in if byte \<noteq> 0xff then take (i + 1) (key[i := byte + 1]) else successor_loop key (i + 1) n)"

definition Bytewise_successor :: "slice \<Rightarrow> slice" where
  "Bytewise_successor key = successor_loop key 0 (length key)"

definition BytewiseComparator :: comparator_class where
  "BytewiseComparator =
     \<lparr>Compare = Slice_compare, FindShortestSeparator = Bytewise_separator, FindShortSuccessor = Bytewise_successor\<rparr>"

text \<open>
  The contract. \<open>valid\<close> are the keys that the comparator accepts; on them \<^verbatim>\<open>Compare\<close> is a total order,
  a separator of \<open>start < limit\<close> is in \<open>[start, limit)\<close>, and a successor is not smaller.
\<close>

locale comparator =
  fixes c :: comparator_class and valid :: "slice \<Rightarrow> bool"
  assumes compare_eq_0: "valid a \<Longrightarrow> valid b \<Longrightarrow> Compare c a b = 0 \<longleftrightarrow> a = b"
    and compare_flip: "valid a \<Longrightarrow> valid b \<Longrightarrow> Compare c a b < 0 \<longleftrightarrow> 0 < Compare c b a"
    and compare_trans: "valid x \<Longrightarrow> valid y \<Longrightarrow> valid z \<Longrightarrow> Compare c x y < 0 \<Longrightarrow> Compare c y z < 0 \<Longrightarrow> Compare c x z < 0"
    and separator_valid: "valid start \<Longrightarrow> valid limit \<Longrightarrow> valid (FindShortestSeparator c start limit)"
    and separator: "valid start \<Longrightarrow> valid limit \<Longrightarrow> Compare c start limit < 0 \<Longrightarrow>
      Compare c start (FindShortestSeparator c start limit) \<le> 0 \<and> Compare c (FindShortestSeparator c start limit) limit < 0"
    and separator_same: "valid start \<Longrightarrow> FindShortestSeparator c start start = start"
    and successor: "valid key \<Longrightarrow> valid (FindShortSuccessor c key) \<and> Compare c key (FindShortSuccessor c key) \<le> 0"
begin

lemma compare_refl: "valid a \<Longrightarrow> Compare c a a = 0"
  using compare_eq_0 [of a a] by simp

lemma compare_le_trans:
  "valid x \<Longrightarrow> valid y \<Longrightarrow> valid z \<Longrightarrow> Compare c x y \<le> 0 \<Longrightarrow> Compare c y z < 0 \<Longrightarrow> Compare c x z < 0"
  using compare_trans [of x y z] compare_eq_0 [of x y] by force

lemma compare_total: "valid a \<Longrightarrow> valid b \<Longrightarrow> a = b \<or> Compare c a b < 0 \<or> Compare c b a < 0"
  using compare_eq_0 [of a b] compare_flip [of b a] by linarith

end

lemma diff_index_loop_add: "diff_index_loop a b (i + k) = diff_index_loop a b i + k"
proof (induction a b i rule: diff_index_loop.induct)
  case (1 a start b limit i)
  then show ?case by simp
qed auto

lemma diff_index_split:
  "\<exists>p s l. start = p @ s \<and> limit = p @ l \<and> diff_index_loop start limit 0 = length p \<and> (s = [] \<or> l = [] \<or> hd s \<noteq> hd l)"
proof (induction start limit rule: list_induct2')
  case (4 x xs y ys)
  show ?case
  proof (cases "x = y")
    case True
    with 4 obtain p s l where "xs = p @ s" "ys = p @ l" "diff_index_loop xs ys 0 = length p" "s = [] \<or> l = [] \<or> hd s \<noteq> hd l"
      by auto
    then show ?thesis using True diff_index_loop_add [of xs ys 0 1]
      by (intro exI [of _ "x # p"] exI [of _ s] exI [of _ l]) simp
  next
    case False
    then show ?thesis by (intro exI [of _ "[]"] exI [of _ "x # xs"] exI [of _ "y # ys"]) simp
  qed
qed auto

lemma unat_byte_Suc: "b < 0xff \<Longrightarrow> unat (b + 1) = unat b + 1" for b :: byte
proof -
  assume "b < 0xff"
  then have "unat b < 255" by (simp add: word_less_nat_alt)
  then show ?thesis by (simp add: unat_word_ariths)
qed

lemma Bytewise_separator_cases:
  "Bytewise_separator start limit = start \<or>
   (\<exists>p a s b l. start = p @ a # s \<and> limit = p @ b # l \<and> a < 0xff \<and> unat a + 1 < unat b \<and>
      Bytewise_separator start limit = p @ [a + 1])"
proof -
  obtain p s l where p: "start = p @ s" "limit = p @ l" "diff_index_loop start limit 0 = length p"
    using diff_index_split [of start limit] by blast
  show ?thesis
  proof (cases "s = [] \<or> l = []")
    case True
    then show ?thesis using p by (auto simp: Bytewise_separator_def Let_def)
  next
    case False
    then obtain a s' b l' where sl: "s = a # s'" "l = b # l'" by (metis neq_Nil_conv)
    have "Bytewise_separator start limit =
        (if a < 0xff \<and> unat a + 1 < unat b then p @ [a + 1] else start)"
      using p sl by (simp add: Bytewise_separator_def Let_def min_def)
    then show ?thesis using p sl by auto
  qed
qed

lemma successor_loop_cases:
  "i + n = length key \<Longrightarrow>
     successor_loop key i n = key \<or> (\<exists>j < length key. key ! j < 0xff \<and> successor_loop key i n = take j key @ [key ! j + 1])"
proof (induction n arbitrary: i)
  case (Suc n)
  show ?case
  proof (cases "key ! i = 0xff")
    case True
    then show ?thesis using Suc.IH [of "i + 1"] Suc.prems by simp
  next
    case False
    have i: "i < length key" using Suc.prems by simp
    have "unat (key ! i) \<noteq> 255" using False by (simp add: word_unat_eq_iff)
    then have "key ! i < 0xff" using unat_byte_less [of "key ! i"] by (simp add: word_less_nat_alt)
    moreover have "take (i + 1) (key[i := key ! i + 1]) = take i key @ [key ! i + 1]"
      using i by (simp add: take_Suc_conv_app_nth)
    ultimately show ?thesis using i False by auto
  qed
qed simp

interpretation bytewise: comparator BytewiseComparator "\<lambda>_. True"
proof
  fix start limit key :: slice
  show "Compare BytewiseComparator start limit < 0 \<Longrightarrow>
      Compare BytewiseComparator start (FindShortestSeparator BytewiseComparator start limit) \<le> 0 \<and>
      Compare BytewiseComparator (FindShortestSeparator BytewiseComparator start limit) limit < 0"
  proof (cases "Bytewise_separator start limit = start")
    case False
    then obtain p a s b l where "start = p @ a # s" "limit = p @ b # l" "a < 0xff" "unat a + 1 < unat b"
        "Bytewise_separator start limit = p @ [a + 1]" using Bytewise_separator_cases [of start limit] by blast
    moreover from this have "a < a + 1" "a + 1 < b" by (simp_all add: word_less_nat_alt unat_byte_Suc)
    ultimately show ?thesis by (simp add: BytewiseComparator_def Slice_compare_append)
  qed (use Slice_compare_eq_0 [of start start] in \<open>simp add: BytewiseComparator_def\<close>)
  show "FindShortestSeparator BytewiseComparator start start = start"
    using Bytewise_separator_cases [of start start] by (auto simp: BytewiseComparator_def)
  show "True \<and> Compare BytewiseComparator key (FindShortSuccessor BytewiseComparator key) \<le> 0"
  proof (cases "Bytewise_successor key = key")
    case False
    then obtain j where j: "j < length key" "key ! j < 0xff" "Bytewise_successor key = take j key @ [key ! j + 1]"
      using successor_loop_cases [of 0 "length key" key] by (auto simp: Bytewise_successor_def)
    have "key = take j key @ key ! j # drop (Suc j) key" using j(1) by (simp add: id_take_nth_drop)
    moreover have "key ! j < key ! j + 1" using unat_byte_Suc [OF j(2)] by (simp add: word_less_nat_alt)
    ultimately have "Slice_compare key (take j key @ [key ! j + 1]) < 0"
      using Slice_compare_append [of "take j key" "key ! j # drop (Suc j) key" "[key ! j + 1]"] by simp
    then show ?thesis using j(3) by (simp add: BytewiseComparator_def)
  qed (use Slice_compare_eq_0 [of key key] in \<open>simp add: BytewiseComparator_def\<close>)
qed (simp_all add: BytewiseComparator_def Slice_compare_eq_0 Slice_compare_flip, metis Slice_compare_trans Slice_compare_flip)

section \<open>Internal keys\<close>

type_synonym SequenceNumber = u64

definition kMaxSequenceNumber :: SequenceNumber where
  "kMaxSequenceNumber = push_bit 56 1 - 1"

datatype ValueType = kTypeDeletion | kTypeValue

fun type_code :: "ValueType \<Rightarrow> u64" where
  "type_code kTypeDeletion = 0x0"
| "type_code kTypeValue = 0x1"

definition kValueTypeForSeek :: ValueType where
  "kValueTypeForSeek = kTypeValue"

record ParsedInternalKey =
  pk_user_key :: slice
  pk_sequence :: SequenceNumber
  pk_type :: ValueType

definition InternalKeyEncodingLength :: "ParsedInternalKey \<Rightarrow> nat" where
  "InternalKeyEncodingLength key = length (pk_user_key key) + 8"

definition PackSequenceAndType :: "SequenceNumber \<Rightarrow> ValueType \<Rightarrow> u64" where
  "PackSequenceAndType seq t = push_bit 8 seq OR type_code t"

definition AppendInternalKey :: "slice \<Rightarrow> ParsedInternalKey \<Rightarrow> slice" where
  "AppendInternalKey result key =
     PutFixed64 (result @ pk_user_key key) (PackSequenceAndType (pk_sequence key) (pk_type key))"

text \<open>The type byte may be any byte; only the two codes are accepted.\<close>

definition ParseInternalKey :: "slice \<Rightarrow> ParsedInternalKey option" where
  "ParseInternalKey internal_key =
     (let n = length internal_key
      in if n < 8 then None
         else let num = DecodeFixed64 True (drop (n - 8) internal_key); c = num AND 0xff
              in if c \<le> type_code kTypeValue
                 then Some \<lparr>pk_user_key = take (n - 8) internal_key, pk_sequence = drop_bit 8 num,
                            pk_type = (if c = type_code kTypeDeletion then kTypeDeletion else kTypeValue)\<rparr>
                 else None)"

definition ExtractUserKey :: "slice \<Rightarrow> slice" where
  "ExtractUserKey internal_key = take (length internal_key - 8) internal_key"

text \<open>The sequence number and the type of an internal key, packed.\<close>

definition key_tag :: "slice \<Rightarrow> u64" where
  "key_tag key = DecodeFixed64 True (drop (length key - 8) key)"

definition ExtractValueType :: "slice \<Rightarrow> byte" where
  "ExtractValueType internal_key = ucast (key_tag internal_key AND 0xff)"

definition InternalKey_Compare :: "comparator_class \<Rightarrow> slice \<Rightarrow> slice \<Rightarrow> int" where
  "InternalKey_Compare user_comparator akey bkey =
     (let r = Compare user_comparator (ExtractUserKey akey) (ExtractUserKey bkey)
      in if r = 0 then
           let anum = key_tag akey; bnum = key_tag bkey
           in if anum > bnum then - 1 else if anum < bnum then 1 else r
         else r)"

definition InternalKey_separator :: "comparator_class \<Rightarrow> slice \<Rightarrow> slice \<Rightarrow> slice" where
  "InternalKey_separator user_comparator start limit =
     (let user_start = ExtractUserKey start; user_limit = ExtractUserKey limit;
          tmp = FindShortestSeparator user_comparator user_start user_limit
      in if length tmp < length user_start \<and> Compare user_comparator user_start tmp < 0
         then PutFixed64 tmp (PackSequenceAndType kMaxSequenceNumber kValueTypeForSeek)
         else start)"

definition InternalKey_successor :: "comparator_class \<Rightarrow> slice \<Rightarrow> slice" where
  "InternalKey_successor user_comparator key =
     (let user_key = ExtractUserKey key; tmp = FindShortSuccessor user_comparator user_key
      in if length tmp < length user_key \<and> Compare user_comparator user_key tmp < 0
         then PutFixed64 tmp (PackSequenceAndType kMaxSequenceNumber kValueTypeForSeek)
         else key)"

definition InternalKeyComparator :: "comparator_class \<Rightarrow> comparator_class" where
  "InternalKeyComparator user_comparator =
     \<lparr>Compare = InternalKey_Compare user_comparator,
      FindShortestSeparator = InternalKey_separator user_comparator,
      FindShortSuccessor = InternalKey_successor user_comparator\<rparr>"

text \<open>A lookup key: its bytes and the offset \<open>kstart\<close> of the internal key in them.\<close>

record LookupKey =
  lk_bytes :: slice
  lk_kstart :: nat

definition make_LookupKey :: "slice \<Rightarrow> SequenceNumber \<Rightarrow> LookupKey" where
  "make_LookupKey user_key s =
     (let head = EncodeVarint32 (of_nat (length user_key + 8))
      in \<lparr>lk_bytes = head @ user_key @ EncodeFixed64 True (PackSequenceAndType s kValueTypeForSeek),
          lk_kstart = length head\<rparr>)"

definition memtable_key :: "LookupKey \<Rightarrow> slice" where
  "memtable_key k = lk_bytes k"

definition internal_key :: "LookupKey \<Rightarrow> slice" where
  "internal_key k = drop (lk_kstart k) (lk_bytes k)"

definition user_key :: "LookupKey \<Rightarrow> slice" where
  "user_key k = take (length (lk_bytes k) - lk_kstart k - 8) (drop (lk_kstart k) (lk_bytes k))"

section \<open>Packing\<close>

lemma unat_PackSequenceAndType:
  "s \<le> kMaxSequenceNumber \<Longrightarrow> unat (PackSequenceAndType s t) = 256 * unat s + unat (type_code t)"
proof -
  assume "s \<le> kMaxSequenceNumber"
  then have s: "unat s < 2 ^ 56" by (simp add: kMaxSequenceNumber_def word_le_nat_alt)
  have "unat (type_code t) < 2 ^ 8" by (cases t) simp_all
  moreover from s this have "unat (type_code t) + 2 ^ 8 * unat s < 2 ^ 64" by simp
  ultimately show ?thesis using unat_or_push [of "type_code t" 8 s]
    by (simp add: PackSequenceAndType_def or.commute)
qed

lemma Pack_parts:
  assumes "s \<le> kMaxSequenceNumber"
  shows "PackSequenceAndType s t AND 0xff = type_code t" "drop_bit 8 (PackSequenceAndType s t) = s"
proof -
  have t: "unat (type_code t) < 256" by (cases t) simp_all
  have "unat (PackSequenceAndType s t AND 0xff) = unat (type_code t)"
    using unat_and_mask [of "PackSequenceAndType s t" 8] t
    by (simp add: mask_eq_exp_minus_1 unat_PackSequenceAndType [OF assms])
  then show "PackSequenceAndType s t AND 0xff = type_code t" by (simp only: word_unat_eq_iff)
  have "unat (drop_bit 8 (PackSequenceAndType s t)) = unat s"
    using t by (simp add: unat_drop_bit unat_PackSequenceAndType [OF assms])
  then show "drop_bit 8 (PackSequenceAndType s t) = s" by (simp only: word_unat_eq_iff)
qed

lemma length_PutFixed64 [simp]: "length (PutFixed64 dst v) = length dst + 8"
  by (simp add: PutFixed64_def EncodeFixed64_portable)

lemma key_parts [simp]:
  "ExtractUserKey (PutFixed64 u v) = u" "key_tag (PutFixed64 u v) = v"
  using DecodeFixed64_Encode [of True True v "[]"]
  by (simp_all add: ExtractUserKey_def key_tag_def) (simp_all add: PutFixed64_def EncodeFixed64_portable)

lemma key_split: "8 \<le> length k \<Longrightarrow> k = PutFixed64 (ExtractUserKey k) (key_tag k)"
proof -
  assume k: "8 \<le> length k"
  let ?t = "drop (length k - 8) k"
  have t: "length ?t = 8" using k by simp
  have "le_val ?t < 2 ^ 64" using le_val_less [of ?t] by (simp only: t) simp
  then have "unat (key_tag k) = le_val ?t"
    using t by (simp add: key_tag_def DecodeFixed64_portable unsigned_of_nat take_bit_nat_eq_self)
  then have "EncodeFixed64 True (key_tag k) = ?t" by (simp add: EncodeFixed64_portable le_bytes_le_val [OF t])
  then show ?thesis by (simp add: PutFixed64_def ExtractUserKey_def)
qed

lemma ParseInternalKey_Append:
  "pk_sequence k \<le> kMaxSequenceNumber \<Longrightarrow> ParseInternalKey (AppendInternalKey [] k) = Some k"
  using key_parts [of "pk_user_key k" "PackSequenceAndType (pk_sequence k) (pk_type k)"]
  by (cases "pk_type k") (simp_all add: ParseInternalKey_def AppendInternalKey_def Let_def Pack_parts key_tag_def ExtractUserKey_def)

section \<open>The order of internal keys is a comparator\<close>

context comparator
begin

lemma internal_comparator:
  "comparator (InternalKeyComparator c) (\<lambda>k. 8 \<le> length k \<and> valid (ExtractUserKey k))"
proof
  let ?v = "\<lambda>k. 8 \<le> length k \<and> valid (ExtractUserKey k)"
  let ?cmp = "Compare (InternalKeyComparator c)"
  let ?max = "PackSequenceAndType kMaxSequenceNumber kValueTypeForSeek"
  have cmp: "?cmp a b = (let r = Compare c (ExtractUserKey a) (ExtractUserKey b)
      in if r = 0 then if key_tag b < key_tag a then - 1 else if key_tag a < key_tag b then 1 else 0 else r)" for a b
    by (simp add: InternalKeyComparator_def InternalKey_Compare_def Let_def)
  fix a b d :: slice
  assume va: "?v a" and vb: "?v b"
  let ?ua = "ExtractUserKey a" and ?ub = "ExtractUserKey b"
  have eq: "a = b \<longleftrightarrow> ?ua = ?ub \<and> key_tag a = key_tag b" using key_split [of a] key_split [of b] va vb by metis
  show "?cmp a b = 0 \<longleftrightarrow> a = b" unfolding eq
    using va vb by (auto simp: cmp Let_def compare_eq_0 not_less_iff_gr_or_eq)
  show "?cmp a b < 0 \<longleftrightarrow> 0 < ?cmp b a"
  proof (cases "?ua = ?ub")
    case True
    then have "?cmp a b = (if key_tag b < key_tag a then - 1 else if key_tag a < key_tag b then 1 else 0)"
        "?cmp b a = (if key_tag a < key_tag b then - 1 else if key_tag b < key_tag a then 1 else 0)"
      using compare_refl [of ?ub] vb by (simp_all add: cmp)
    then show ?thesis by (auto simp: not_less_iff_gr_or_eq)
  next
    case False
    then have "Compare c ?ua ?ub \<noteq> 0" "Compare c ?ub ?ua \<noteq> 0" using va vb by (simp_all add: compare_eq_0)
    then show ?thesis using va vb compare_flip [of ?ua ?ub] by (simp add: cmp)
  qed
  show "?v (FindShortestSeparator (InternalKeyComparator c) a b)"
    using va vb by (simp add: InternalKeyComparator_def InternalKey_separator_def Let_def separator_valid)
  show "FindShortestSeparator (InternalKeyComparator c) a a = a"
    using va by (simp add: InternalKeyComparator_def InternalKey_separator_def Let_def separator_same)
  show "?cmp a b < 0 \<Longrightarrow> ?cmp a (FindShortestSeparator (InternalKeyComparator c) a b) \<le> 0 \<and>
      ?cmp (FindShortestSeparator (InternalKeyComparator c) a b) b < 0"
  proof -
    assume less: "?cmp a b < 0"
    let ?tmp = "FindShortestSeparator c ?ua ?ub"
    show ?thesis
    proof (cases "length ?tmp < length ?ua \<and> Compare c ?ua ?tmp < 0")
      case True
      have "?ua \<noteq> ?ub" using True va by (auto simp: separator_same)
      then have "Compare c ?ua ?ub < 0" using less va vb compare_eq_0 [of ?ua ?ub] by (simp add: cmp Let_def split: if_splits)
      then have "Compare c ?tmp ?ub < 0" using separator va vb by blast
      then show ?thesis using True by (simp add: cmp Let_def InternalKeyComparator_def InternalKey_separator_def InternalKey_Compare_def)
    next
      case False
      then show ?thesis using less compare_refl [of ?ua] va
        by (auto simp: cmp InternalKeyComparator_def InternalKey_separator_def Let_def InternalKey_Compare_def)
    qed
  qed
  show "?v (FindShortSuccessor (InternalKeyComparator c) a) \<and> ?cmp a (FindShortSuccessor (InternalKeyComparator c) a) \<le> 0"
    using va successor [of ?ua] compare_refl [of ?ua]
    by (auto simp: cmp InternalKeyComparator_def InternalKey_successor_def InternalKey_Compare_def Let_def)
  assume vd: "?v d"
  let ?ud = "ExtractUserKey d"
  show "?cmp a b < 0 \<Longrightarrow> ?cmp b d < 0 \<Longrightarrow> ?cmp a d < 0"
    using va vb vd compare_eq_0 [of ?ua ?ub] compare_eq_0 [of ?ub ?ud] compare_eq_0 [of ?ua ?ud]
      compare_trans [of ?ua ?ub ?ud] by (auto simp: cmp Let_def split: if_splits)
qed

end

interpretation internal: comparator "InternalKeyComparator BytewiseComparator" "\<lambda>k. 8 \<le> length k \<and> True"
  by (rule bytewise.internal_comparator)

end
