(* ===== verification/Loops.thy ===== *)
theory Loops
  imports Main
begin

text \<open>
  Loops of the form \<^verbatim>\<open>while (true)\<close>: the body either returns or starts the next turn. The result is \<open>None\<close>
  exactly for a loop that never returns.
\<close>

partial_function (option) while_true :: "('s \<Rightarrow> 'r + 's) \<Rightarrow> 's \<Rightarrow> 'r option" where
  "while_true body s = (case body s of Inl r \<Rightarrow> Some r | Inr s' \<Rightarrow> while_true body s')"

declare while_true.simps [code]

lemma while_true_return: "body s = Inl r \<Longrightarrow> while_true body s = Some r"
  by (simp add: while_true.simps [of body s])

lemma while_true_turn: "body s = Inr s' \<Longrightarrow> while_true body s = while_true body s'"
  by (simp add: while_true.simps [of body s])

text \<open>A loop with an invariant and a measure returns, with a result that its last state allows.\<close>

lemma while_true_rule:
  fixes m :: "'s \<Rightarrow> nat"
  assumes "I s"
    and step: "\<And>s s'. I s \<Longrightarrow> body s = Inr s' \<Longrightarrow> I s' \<and> m s' < m s"
    and return: "\<And>s r. I s \<Longrightarrow> body s = Inl r \<Longrightarrow> Q r"
  shows "\<exists>r. while_true body s = Some r \<and> Q r"
  using assms(1)
proof (induction "m s" arbitrary: s rule: less_induct)
  case less
  show ?case
  proof (cases "body s")
    case (Inl r)
    then show ?thesis using return less.prems by (auto simp: while_true_return)
  next
    case (Inr s')
    then show ?thesis using step [OF less.prems Inr] less.hyps by (auto simp: while_true_turn)
  qed
qed

end
