(* ===== verification/LdbSkip.thy ===== *)
theory LdbSkip
  imports LdbKeys Loops
begin

text \<open>
  The skip list of LevelDB (\<^verbatim>\<open>db/skiplist.h\<close>) and its random numbers (\<^verbatim>\<open>util/random.h\<close>). The nodes live in an arena
  that only grows: a pointer to a node is its index in \<open>heap\<close>, NULL is \<open>None\<close>, and the head is node 0.
\<close>

section \<open>Random numbers\<close>

definition Random_new :: "u32 \<Rightarrow> u32" where
  "Random_new s = (let seed = s AND 0x7fffffff in if seed = 0 \<or> seed = 2147483647 then 1 else seed)"

definition Random_Next :: "u32 \<Rightarrow> u32" where
  "Random_Next seed =
     (let M = 2147483647; A = 16807;
          product = ucast seed * A :: u64;
          seed = ucast (drop_bit 31 product + (product AND ucast M))
      in if seed > M then seed - M else seed)"

section \<open>Nodes\<close>

record 'k Node =
  nkey :: 'k
  nexts :: "nat option list"

record 'k SkipList =
  heap :: "'k Node list"
  max_height :: nat
  rnd :: u32

definition kMaxHeight :: nat where
  "kMaxHeight = 12"

definition head_node :: nat where
  "head_node = 0"

definition Node_Next :: "'k SkipList \<Rightarrow> nat \<Rightarrow> nat \<Rightarrow> nat option" where
  "Node_Next s x n = nexts (heap s ! x) ! n"

definition Node_SetNext :: "nat \<Rightarrow> nat \<Rightarrow> nat option \<Rightarrow> 'k SkipList \<Rightarrow> 'k SkipList" where
  "Node_SetNext x n y s =
     s\<lparr>heap := (heap s)[x := (heap s ! x)\<lparr>nexts := (nexts (heap s ! x))[n := y]\<rparr>]\<rparr>"

definition NewNode :: "'k \<Rightarrow> nat \<Rightarrow> 'k SkipList \<Rightarrow> nat \<times> 'k SkipList" where
  "NewNode key height s = (length (heap s), s\<lparr>heap := heap s @ [\<lparr>nkey = key, nexts = replicate height None\<rparr>]\<rparr>)"

text \<open>The key of the head is any key.\<close>

definition SkipList_new :: "'k \<Rightarrow> 'k SkipList" where
  "SkipList_new any_key =
     (let s = snd (NewNode any_key kMaxHeight \<lparr>heap = [], max_height = 1, rnd = Random_new 0xdeadbeef\<rparr>)
      in fold (\<lambda>i s. Node_SetNext head_node i None s) [0..<kMaxHeight] s)"

section \<open>Searching\<close>

definition KeyIsAfterNode :: "('k \<Rightarrow> 'k \<Rightarrow> int) \<Rightarrow> 'k SkipList \<Rightarrow> 'k \<Rightarrow> nat option \<Rightarrow> bool" where
  "KeyIsAfterNode compare s key n = (case n of None \<Rightarrow> False | Some a \<Rightarrow> compare (nkey (heap s ! a)) key < 0)"

text \<open>The array \<open>prev\<close> of the caller may be NULL, here the empty list, which an update leaves alone.\<close>

definition FindGreaterOrEqual_turn ::
  "('k \<Rightarrow> 'k \<Rightarrow> int) \<Rightarrow> 'k SkipList \<Rightarrow> 'k \<Rightarrow> nat \<times> nat \<times> nat list \<Rightarrow> (nat option \<times> nat list) + (nat \<times> nat \<times> nat list)"
where
  "FindGreaterOrEqual_turn compare s key = (\<lambda>(x, level, prev).
     let nxt = Node_Next s x level
     in if KeyIsAfterNode compare s key nxt then Inr (the nxt, level, prev)
        else let prev = prev[level := x]
             in if level = 0 then Inl (nxt, prev) else Inr (x, level - 1, prev))"

definition FindGreaterOrEqual :: "('k \<Rightarrow> 'k \<Rightarrow> int) \<Rightarrow> 'k SkipList \<Rightarrow> 'k \<Rightarrow> nat list \<Rightarrow> (nat option \<times> nat list) option" where
  "FindGreaterOrEqual compare s key prev =
     while_true (FindGreaterOrEqual_turn compare s key) (head_node, max_height s - 1, prev)"

definition FindLessThan :: "('k \<Rightarrow> 'k \<Rightarrow> int) \<Rightarrow> 'k SkipList \<Rightarrow> 'k \<Rightarrow> nat option" where
  "FindLessThan compare s key =
     while_true (\<lambda>(x, level).
       let nxt = Node_Next s x level
       in if nxt = None \<or> compare (nkey (heap s ! the nxt)) key \<ge> 0
          then if level = 0 then Inl x else Inr (x, level - 1)
          else Inr (the nxt, level)) (head_node, max_height s - 1)"

definition FindLast :: "'k SkipList \<Rightarrow> nat option" where
  "FindLast s =
     while_true (\<lambda>(x, level).
       let nxt = Node_Next s x level
       in if nxt = None then if level = 0 then Inl x else Inr (x, level - 1)
          else Inr (the nxt, level)) (head_node, max_height s - 1)"

section \<open>Insertion\<close>

fun RandomHeight_loop :: "nat \<Rightarrow> nat \<Rightarrow> u32 \<Rightarrow> nat \<times> u32" where
  "RandomHeight_loop 0 height r = (height, r)"
| "RandomHeight_loop (Suc n) height r =
     (let r = Random_Next r in if r mod 4 = 0 then RandomHeight_loop n (height + 1) r else (height, r))"

definition RandomHeight :: "'k SkipList \<Rightarrow> nat \<times> 'k SkipList" where
  "RandomHeight s = (case RandomHeight_loop (kMaxHeight - 1) 1 (rnd s) of (h, r) \<Rightarrow> (h, s\<lparr>rnd := r\<rparr>))"

definition link_level :: "nat \<Rightarrow> nat list \<Rightarrow> nat \<Rightarrow> 'k SkipList \<Rightarrow> 'k SkipList" where
  "link_level x prev i s =
     (let s = Node_SetNext x i (Node_Next s (prev ! i) i) s in Node_SetNext (prev ! i) i (Some x) s)"

definition Insert :: "('k \<Rightarrow> 'k \<Rightarrow> int) \<Rightarrow> 'k \<Rightarrow> 'k SkipList \<Rightarrow> 'k SkipList option" where
  "Insert compare key s =
     (case FindGreaterOrEqual compare s key (replicate kMaxHeight 0) of
        None \<Rightarrow> None
      | Some (x, prev) \<Rightarrow>
          (case RandomHeight s of (height, s) \<Rightarrow>
             let (prev, s) =
                   (if height > max_height s
                    then (fold (\<lambda>i prev. prev[i := head_node]) [max_height s..<height] prev, s\<lparr>max_height := height\<rparr>)
                    else (prev, s));
                 (x, s) = NewNode key height s
             in Some (fold (link_level x prev) [0..<height] s)))"

definition Contains :: "('k \<Rightarrow> 'k \<Rightarrow> int) \<Rightarrow> 'k \<Rightarrow> 'k SkipList \<Rightarrow> bool option" where
  "Contains compare key s =
     (case FindGreaterOrEqual compare s key [] of
        None \<Rightarrow> None
      | Some (x, _) \<Rightarrow> Some (case x of None \<Rightarrow> False | Some a \<Rightarrow> compare key (nkey (heap s ! a)) = 0))"

section \<open>Iterators\<close>

text \<open>An iterator is the pointer \<^verbatim>\<open>node_\<close>; the methods that need a valid iterator take the node.\<close>

definition Iter_new :: "nat option" where "Iter_new = None"

definition Iter_Valid :: "nat option \<Rightarrow> bool" where "Iter_Valid it \<longleftrightarrow> it \<noteq> None"

definition Iter_key :: "'k SkipList \<Rightarrow> nat \<Rightarrow> 'k" where "Iter_key s it = nkey (heap s ! it)"

definition Iter_Next :: "'k SkipList \<Rightarrow> nat \<Rightarrow> nat option" where "Iter_Next s it = Node_Next s it 0"

definition Iter_Prev :: "('k \<Rightarrow> 'k \<Rightarrow> int) \<Rightarrow> 'k SkipList \<Rightarrow> nat \<Rightarrow> nat option option" where
  "Iter_Prev compare s it =
     map_option (\<lambda>n. if n = head_node then None else Some n) (FindLessThan compare s (nkey (heap s ! it)))"

definition Iter_Seek :: "('k \<Rightarrow> 'k \<Rightarrow> int) \<Rightarrow> 'k SkipList \<Rightarrow> 'k \<Rightarrow> nat option option" where
  "Iter_Seek compare s target = map_option fst (FindGreaterOrEqual compare s target [])"

definition Iter_SeekToFirst :: "'k SkipList \<Rightarrow> nat option" where
  "Iter_SeekToFirst s = Node_Next s head_node 0"

definition Iter_SeekToLast :: "'k SkipList \<Rightarrow> nat option option" where
  "Iter_SeekToLast s = map_option (\<lambda>n. if n = head_node then None else Some n) (FindLast s)"

end
