(* ===== verification/LdbSkipProps.thy ===== *)
theory LdbSkipProps
  imports LdbSkip "HOL-Library.Multiset"
begin

text \<open>
  The skip list holds its keys in order, whatever heights the random numbers give: every search returns, and finds
  what a search in the sorted list of the keys finds.
\<close>

section \<open>Random numbers\<close>

lemma unat_Random_Next:
  assumes "0 < unat r" "unat r < 2147483647"
  shows "unat (Random_Next r) = unat r * 16807 mod 2147483647" "0 < unat (Random_Next r)"
    "unat (Random_Next r) < 2147483647"
proof -
  define p where "p = unat r * 16807"
  define product where "product = (ucast r * 16807 :: u64)"
  have p: "p < 2 ^ 46" using assms by (simp add: p_def)
  have "unat product = p"
    using p by (simp add: product_def p_def unat_word_ariths)
  moreover have "unat (product AND mask 31) = unat product mod 2 ^ 31" by (rule unat_and_mask)
  then have "unat (product AND 2147483647) = unat product mod 2 ^ 31" by (simp add: mask_eq_exp_minus_1)
  ultimately have parts: "unat (drop_bit 31 product) = p div 2 ^ 31"
      "unat (product AND ucast (2147483647 :: u32)) = p mod 2 ^ 31"
    by (simp_all add: unat_drop_bit)
  define m where "m = p div 2 ^ 31 + p mod 2 ^ 31"
  have m_less: "m < 2 * 2147483647"
  proof -
    have "p div 2 ^ 31 < 32768" using p by (simp add: less_mult_imp_div_less)
    moreover have "p mod 2 ^ 31 < 2 ^ 31" by simp
    ultimately show ?thesis unfolding m_def by simp
  qed
  have sum: "unat (drop_bit 31 product + (product AND ucast (2147483647 :: u32))) = m"
    using m_less parts by (simp add: unat_word_ariths m_def)
  then have s: "unat (ucast (drop_bit 31 product + (product AND ucast (2147483647 :: u32))) :: u32) = m"
    using m_less by (simp add: unsigned_ucast_eq take_bit_nat_eq_self)
  have "p = 2147483647 * (p div 2 ^ 31) + m"
    using mult_div_mod_eq [of "2 ^ 31" p] unfolding m_def by simp
  then have mod_m: "m mod 2147483647 = p mod 2147483647" by (metis mod_mult_self4)
  have "\<not> 2147483647 dvd p"
  proof
    assume "2147483647 dvd p"
    moreover have "coprime (2147483647 :: nat) 16807" by (simp add: coprime_iff_gcd_eq_1 gcd_nat.simps)
    ultimately have "2147483647 dvd unat r" unfolding p_def by (simp only: coprime_dvd_mult_left_iff)
    then show False using assms by (auto dest: dvd_imp_le)
  qed
  then have nz: "0 < p mod 2147483647" "m \<noteq> 2147483647" using mod_m by (auto simp: dvd_eq_mod_eq_0)
  have "unat (Random_Next r) = (if m > 2147483647 then m - 2147483647 else m)"
    using s unfolding Random_Next_def Let_def product_def [symmetric]
    by (auto simp: word_less_nat_alt unat_sub word_le_nat_alt)
  also have "\<dots> = m mod 2147483647"
    using m_less nz by (auto simp: mod_if)
  finally show "unat (Random_Next r) = unat r * 16807 mod 2147483647" "0 < unat (Random_Next r)"
      "unat (Random_Next r) < 2147483647"
    using mod_m nz by (simp_all add: p_def)
qed

lemma RandomHeight_loop_bounds: "RandomHeight_loop n h r = (h', r') \<Longrightarrow> h \<le> h' \<and> h' \<le> h + n"
  by (induction n h r rule: RandomHeight_loop.induct) (fastforce simp: Let_def split: if_splits)+

lemma RandomHeight_bounds: "RandomHeight s = (h, s') \<Longrightarrow> 0 < h \<and> h \<le> kMaxHeight \<and> heap s' = heap s \<and> max_height s' = max_height s"
  by (auto simp: RandomHeight_def kMaxHeight_def split: prod.splits dest!: RandomHeight_loop_bounds)

section \<open>Levels\<close>

definition height :: "'k SkipList \<Rightarrow> nat \<Rightarrow> nat" where
  "height s a = length (nexts (heap s ! a))"

definition level :: "'k SkipList \<Rightarrow> nat \<Rightarrow> nat list \<Rightarrow> nat list" where
  "level s i ns = filter (\<lambda>a. i < height s a) ns"

text \<open>The pointers of level \<open>i\<close> lead from node \<open>x\<close> through \<open>ys\<close> to NULL.\<close>

fun links :: "'k SkipList \<Rightarrow> nat \<Rightarrow> nat \<Rightarrow> nat list \<Rightarrow> bool" where
  "links s i x [] \<longleftrightarrow> Node_Next s x i = None"
| "links s i x (y # ys) \<longleftrightarrow> Node_Next s x i = Some y \<and> links s i y ys"

lemma links_from: "links s i x (P @ y # Q) \<Longrightarrow> links s i y Q"
  by (induction P arbitrary: x) auto

lemma links_suffix:
  assumes "links s i x L" "x # L = P @ y # Q"
  shows "links s i y Q"
proof (cases P)
  case (Cons a P')
  then show ?thesis using assms links_from [of s i x P' y Q] by simp
qed (use assms in simp)

text \<open>What \<open>upd\<close> makes of the last nodes of the levels from \<open>l\<close> down to 0.\<close>

primrec record_prev :: "(nat \<Rightarrow> nat \<Rightarrow> 'p \<Rightarrow> 'p) \<Rightarrow> 'k SkipList \<Rightarrow> nat \<Rightarrow> nat list \<Rightarrow> 'p \<Rightarrow> 'p" where
  "record_prev upd s 0 A p = upd 0 (last (0 # level s 0 A)) p"
| "record_prev upd s (Suc l) A p = record_prev upd s l A (upd (Suc l) (last (0 # level s (Suc l) A)) p)"

text \<open>
  All three searches walk right as long as \<open>go\<close> allows and then down. \<open>st\<close> builds the state of the loop, \<open>upd\<close> is what
  a turn down records, and \<open>ret\<close> the result.
\<close>

locale search =
  fixes s :: "'k SkipList" and go :: "nat \<Rightarrow> bool"
    and body :: "'st \<Rightarrow> 'r + 'st" and st :: "nat \<Rightarrow> nat \<Rightarrow> 'p \<Rightarrow> 'st"
    and upd :: "nat \<Rightarrow> nat \<Rightarrow> 'p \<Rightarrow> 'p" and ret :: "nat \<Rightarrow> nat option \<Rightarrow> 'p \<Rightarrow> 'r"
  assumes right: "Node_Next s x l = Some y \<Longrightarrow> go y \<Longrightarrow> body (st x l p) = Inr (st y l p)"
    and down: "\<forall>y. Node_Next s x l = Some y \<longrightarrow> \<not> go y \<Longrightarrow> 0 < l \<Longrightarrow> body (st x l p) = Inr (st x (l - 1) (upd l x p))"
    and bottom: "\<forall>y. Node_Next s x 0 = Some y \<longrightarrow> \<not> go y \<Longrightarrow> body (st x 0 p) = Inl (ret x (Node_Next s x 0) (upd 0 x p))"
begin

lemma walk_right:
  "links s l x (A @ B) \<Longrightarrow> \<forall>y \<in> set A. go y \<Longrightarrow> while_true body (st x l p) = while_true body (st (last (x # A)) l p)"
proof (induction A arbitrary: x)
  case (Cons y A)
  then have "body (st x l p) = Inr (st y l p)" by (intro right) auto
  then show ?case using Cons by (simp add: while_true_turn)
qed simp

lemma links_last: "links s i x (A @ B) \<Longrightarrow> Node_Next s (last (x # A)) i = (case B of [] \<Rightarrow> None | b # _ \<Rightarrow> Some b)"
proof (induction A arbitrary: x)
  case Nil
  then show ?case by (cases B) auto
next
  case (Cons y A)
  then show ?case by auto
qed

lemma walk_level:
  assumes "links s l 0 (level s l (A @ B))" "\<forall>y \<in> set A. go y" "x \<in> set (0 # level s l A)"
  shows "while_true body (st x l p) = while_true body (st (last (0 # level s l A)) l p)"
    "Node_Next s (last (0 # level s l A)) l = (case level s l B of [] \<Rightarrow> None | b # _ \<Rightarrow> Some b)"
proof -
  have whole: "links s l 0 (level s l A @ level s l B)" using assms(1) by (simp add: level_def)
  then show "Node_Next s (last (0 # level s l A)) l = (case level s l B of [] \<Rightarrow> None | b # _ \<Rightarrow> Some b)"
    by (rule links_last)
  obtain P Q where PQ: "0 # level s l A = P @ x # Q" using split_list [OF assms(3)] by blast
  then have last: "last (0 # level s l A) = last (x # Q)" by simp
  have "links s l x (Q @ level s l B)"
    by (rule links_suffix [OF whole, of P]) (use PQ in \<open>metis append_Cons append_assoc\<close>)
  moreover have "set Q \<subseteq> set (level s l A)" using PQ by (cases P) auto
  then have "\<forall>y \<in> set Q. go y" using assms(2) by (auto simp: level_def)
  ultimately show "while_true body (st x l p) = while_true body (st (last (0 # level s l A)) l p)"
    unfolding last by (rule walk_right)
qed

lemma descend:
  assumes "\<And>i. i \<le> l \<Longrightarrow> links s i 0 (level s i (A @ B))" "\<forall>y \<in> set A. go y" "\<forall>y \<in> set B. \<not> go y"
    "x \<in> set (0 # level s l A)"
  shows "while_true body (st x l p) =
     Some (ret (last (0 # level s 0 A)) (case level s 0 B of [] \<Rightarrow> None | b # _ \<Rightarrow> Some b) (record_prev upd s l A p))"
  using assms(1,4)
proof (induction l arbitrary: x p)
  case (0 x p)
  note w = walk_level(1) [OF 0(1) [OF order_refl] assms(2) 0(2), of p] walk_level(2) [OF 0(1) [OF order_refl] assms(2) 0(2)]
  have "body (st (last (0 # level s 0 A)) 0 p) = Inl (ret (last (0 # level s 0 A))
      (case level s 0 B of [] \<Rightarrow> None | b # _ \<Rightarrow> Some b) (upd 0 (last (0 # level s 0 A)) p))"
    unfolding w(2) [symmetric]
    by (rule bottom) (use assms(3) w(2) in \<open>auto simp: level_def filter_eq_Cons_iff split: list.splits\<close>)
  then show ?case unfolding w(1) by (simp add: while_true_return)
next
  case (Suc l x p)
  let ?x = "last (0 # level s (Suc l) A)"
  note w = walk_level(1) [OF Suc(2) [OF order_refl] assms(2) Suc(3), of p]
    walk_level(2) [OF Suc(2) [OF order_refl] assms(2) Suc(3)]
  have "body (st ?x (Suc l) p) = Inr (st ?x (Suc l - 1) (upd (Suc l) ?x p))"
    by (rule down) (use assms(3) w(2) in \<open>auto simp: level_def filter_eq_Cons_iff split: list.splits\<close>)
  moreover have "?x \<in> set (0 # level s (Suc l) A)" by (rule last_in_set) simp
  then have "?x \<in> set (0 # level s l A)" by (auto simp: level_def)
  ultimately show ?case unfolding w(1) using Suc.IH [of ?x] Suc(2) by (simp add: while_true_turn)
qed

end

abbreviation key_of :: "'k SkipList \<Rightarrow> nat \<Rightarrow> 'k" where
  "key_of s a \<equiv> nkey (heap s ! a)"

interpretation ge: search s "\<lambda>a. compare (key_of s a) key < 0" "FindGreaterOrEqual_turn compare s key"
    "\<lambda>x l prev. (x, l, prev)" "\<lambda>l x prev. prev[l := x]" "\<lambda>x nxt prev. (nxt, prev)"
  for s and compare :: "'k \<Rightarrow> 'k \<Rightarrow> int" and key
  by unfold_locales (auto simp: FindGreaterOrEqual_turn_def KeyIsAfterNode_def Let_def split: option.splits)

interpretation less_than: search s "\<lambda>a. compare (key_of s a) key < 0"
    "\<lambda>(x, level). let nxt = Node_Next s x level
       in if nxt = None \<or> compare (nkey (heap s ! the nxt)) key \<ge> 0
          then if level = 0 then Inl x else Inr (x, level - 1) else Inr (the nxt, level)"
    "\<lambda>x l (p :: unit). (x, l)" "\<lambda>l x p. p" "\<lambda>x nxt p. x"
  for s and compare :: "'k \<Rightarrow> 'k \<Rightarrow> int" and key
  by unfold_locales (auto simp: Let_def not_less not_le, metis linorder_not_less option.collapse)

interpretation to_last: search s "\<lambda>a. True"
    "\<lambda>(x, level). let nxt = Node_Next s x level
       in if nxt = None then if level = 0 then Inl x else Inr (x, level - 1) else Inr (the nxt, level)"
    "\<lambda>x l (p :: unit). (x, l)" "\<lambda>l x p. p" "\<lambda>x nxt p. x"
  for s :: "'k SkipList"
  by unfold_locales (auto simp: Let_def)

section \<open>The invariant\<close>

text \<open>
  What the list relies on: comparing is a total preorder on the valid keys. Every comparator gives one, also when the
  keys are only a part of what is stored.
\<close>

locale key_order =
  fixes compare :: "'k \<Rightarrow> 'k \<Rightarrow> int" and valid :: "'k \<Rightarrow> bool"
  assumes flip: "valid a \<Longrightarrow> valid b \<Longrightarrow> compare a b < 0 \<longleftrightarrow> 0 < compare b a"
    and le_trans: "valid x \<Longrightarrow> valid y \<Longrightarrow> valid z \<Longrightarrow> compare x y \<le> 0 \<Longrightarrow> compare y z \<le> 0 \<Longrightarrow> compare x z \<le> 0"

text \<open>\<open>ns\<close> are the nodes in the order of their keys.\<close>

definition sl_inv :: "('k \<Rightarrow> 'k \<Rightarrow> int) \<Rightarrow> ('k \<Rightarrow> bool) \<Rightarrow> 'k SkipList \<Rightarrow> nat list \<Rightarrow> bool" where
  "sl_inv compare valid s ns \<longleftrightarrow>
     distinct ns \<and> set ns = {1..<length (heap s)} \<and> 0 < length (heap s) \<and> height s 0 = kMaxHeight \<and>
     (\<forall>a \<in> set ns. valid (key_of s a) \<and> 0 < height s a \<and> height s a \<le> max_height s) \<and>
     0 < max_height s \<and> max_height s \<le> kMaxHeight \<and>
     sorted_wrt (\<lambda>a b. compare (key_of s a) (key_of s b) < 0) ns \<and>
     (\<forall>i < kMaxHeight. links s i 0 (level s i ns))"

lemma record_prev_eq:
  "j \<le> l \<Longrightarrow> j < length pv \<Longrightarrow> record_prev (\<lambda>l x prev. prev[l := x]) s l A pv ! j = last (0 # level s j A)"
  "l < j \<Longrightarrow> record_prev (\<lambda>l x prev. prev[l := x]) s l A pv ! j = pv ! j"
  "length (record_prev (\<lambda>l x prev. prev[l := x]) s l A pv) = length pv"
proof (induction l arbitrary: pv)
  case 0
  { case 1 then show ?case by simp }
  { case 2 then show ?case by simp }
  { case 3 then show ?case by simp }
next
  case (Suc l)
  { case 1
    show ?case
    proof (cases "j = Suc l")
      case True
      then show ?thesis using 1 Suc.IH(2) [of "pv[Suc l := last (0 # level s (Suc l) A)]"] by simp
    next
      case False
      then show ?thesis using 1 Suc.IH(1) [of "pv[Suc l := last (0 # level s (Suc l) A)]"] by simp
    qed }
  { case 2
    then show ?case using Suc.IH(2) [of "pv[Suc l := last (0 # level s (Suc l) A)]"] by simp }
  { case 3
    then show ?case using Suc.IH(3) [of "pv[Suc l := last (0 # level s (Suc l) A)]"] by simp }
qed

context key_order
begin

lemma less_trans:
  assumes "valid x" "valid y" "valid z" "compare x y < 0" "compare y z \<le> 0"
  shows "compare x z < 0"
proof (rule ccontr)
  assume "\<not> compare x z < 0"
  then have "compare z x \<le> 0" using assms flip [of x z] flip [of z x] by linarith
  then have "compare y x \<le> 0" using le_trans [of y z x] assms by simp
  then show False using assms flip [of x y] by linarith
qed

text \<open>The nodes split at a key.\<close>

definition before :: "'k SkipList \<Rightarrow> nat list \<Rightarrow> 'k \<Rightarrow> nat list" where
  "before s ns key = takeWhile (\<lambda>a. compare (key_of s a) key < 0) ns"

definition behind :: "'k SkipList \<Rightarrow> nat list \<Rightarrow> 'k \<Rightarrow> nat list" where
  "behind s ns key = dropWhile (\<lambda>a. compare (key_of s a) key < 0) ns"

lemma split_nodes: "before s ns key @ behind s ns key = ns"
  by (simp add: before_def behind_def)

lemma before_less: "\<forall>a \<in> set (before s ns key). compare (key_of s a) key < 0"
  by (auto simp: before_def dest: set_takeWhileD)

lemma behind_not_less:
  assumes "sl_inv compare valid s ns" "valid key"
  shows "\<forall>a \<in> set (behind s ns key). \<not> compare (key_of s a) key < 0"
proof (cases "behind s ns key")
  case (Cons b bs)
  have nb: "\<not> compare (key_of s b) key < 0"
    using Cons by (simp add: behind_def dropWhile_eq_Cons_conv)
  have "sorted_wrt (\<lambda>a b. compare (key_of s a) (key_of s b) < 0) (behind s ns key)"
    using assms(1) split_nodes [of s ns key] unfolding sl_inv_def by (metis sorted_wrt_append)
  then have sorted: "\<forall>a \<in> set bs. compare (key_of s b) (key_of s a) < 0" unfolding Cons by simp
  have valid: "\<forall>a \<in> set (b # bs). valid (key_of s a)"
    using assms(1) Cons split_nodes [of s ns key] by (metis UnCI set_append sl_inv_def)
  have "\<not> compare (key_of s a) key < 0" if "a \<in> set bs" for a
    using less_trans [of "key_of s b" "key_of s a" key] that sorted valid nb assms(2) by auto
  then show ?thesis using nb Cons by auto
qed simp

lemma level_nonempty_0: "sl_inv compare valid s ns \<Longrightarrow> set B \<subseteq> set ns \<Longrightarrow> level s 0 B = B"
  by (auto simp: level_def sl_inv_def filter_id_conv)

text \<open>The searches return; what they find is given by the sorted list.\<close>

lemma FindGreaterOrEqual_inv:
  assumes "sl_inv compare valid s ns" "valid key"
  shows "\<exists>pv. FindGreaterOrEqual compare s key prev =
      Some (case behind s ns key of [] \<Rightarrow> None | b # _ \<Rightarrow> Some b, pv) \<and> length pv = length prev \<and>
    (\<forall>i < length prev. pv ! i = (if i < max_height s then last (0 # level s i (before s ns key)) else prev ! i))"
proof -
  let ?A = "before s ns key" and ?B = "behind s ns key" and ?l = "max_height s - 1"
  have l: "?l < kMaxHeight" "0 < max_height s" using assms(1) by (auto simp: sl_inv_def)
  have "while_true (FindGreaterOrEqual_turn compare s key) (0, ?l, prev) =
      Some (case level s 0 ?B of [] \<Rightarrow> None | b # _ \<Rightarrow> Some b, record_prev (\<lambda>l x prev. prev[l := x]) s ?l ?A prev)"
    using ge.descend [of ?l s ?A ?B compare key 0 prev] assms l behind_not_less [OF assms] before_less [of s ns key]
    by (auto simp: split_nodes sl_inv_def)
  moreover have "level s 0 ?B = ?B"
    by (rule level_nonempty_0 [OF assms(1)]) (metis split_nodes Un_upper2 set_append)
  moreover have "record_prev (\<lambda>l x prev. prev[l := x]) s ?l ?A prev ! i = (if i < max_height s then last (0 # level s i ?A) else prev ! i)"
    if "i < length prev" for i
    using record_prev_eq(1) [of i ?l prev s ?A] record_prev_eq(2) [of ?l i s ?A prev] that l(2) by auto
  ultimately show ?thesis by (simp add: FindGreaterOrEqual_def head_node_def record_prev_eq(3))
qed

lemma FindLessThan_inv:
  assumes "sl_inv compare valid s ns" "valid key"
  shows "FindLessThan compare s key = Some (last (0 # before s ns key))"
proof -
  let ?A = "before s ns key" and ?B = "behind s ns key" and ?l = "max_height s - 1"
  have "level s 0 ?A = ?A"
    by (rule level_nonempty_0 [OF assms(1)]) (metis split_nodes Un_upper1 set_append)
  then show ?thesis
    using less_than.descend [of ?l s ?A ?B compare key 0] assms behind_not_less [OF assms] before_less [of s ns key]
    by (auto simp: split_nodes sl_inv_def FindLessThan_def head_node_def)
qed

lemma FindLast_inv:
  assumes "sl_inv compare valid s ns"
  shows "FindLast s = Some (last (0 # ns))"
  using to_last.descend [of "max_height s - 1" s ns "[]" 0] level_nonempty_0 [OF assms, of ns] assms
  by (auto simp: sl_inv_def FindLast_def head_node_def)

end

section \<open>Inserting\<close>

lemma SetNext_simps [simp]:
  "length (heap (Node_SetNext x i y s)) = length (heap s)"
  "max_height (Node_SetNext x i y s) = max_height s"
  "key_of (Node_SetNext x i y s) a = key_of s a"
  "height (Node_SetNext x i y s) a = height s a"
  by (auto simp: Node_SetNext_def height_def nth_list_update)
    (metis (no_types, lifting) list_update_beyond not_le nth_list_update Node.select_convs(1) Node.surjective Node.update_convs(2),
     metis (no_types, lifting) length_list_update list_update_beyond not_le nth_list_update Node.select_convs(2) Node.surjective Node.update_convs(2))

lemma Node_Next_SetNext:
  "x < length (heap s) \<Longrightarrow> i < height s x \<Longrightarrow>
     Node_Next (Node_SetNext x i y s) x' i' = (if x = x' \<and> i = i' then y else Node_Next s x' i')"
  by (auto simp: Node_SetNext_def Node_Next_def height_def nth_list_update)

lemma link_level_simps [simp]:
  "length (heap (link_level x prev i s)) = length (heap s)" "max_height (link_level x prev i s) = max_height s"
  "key_of (link_level x prev i s) a = key_of s a" "height (link_level x prev i s) a = height s a"
  by (simp_all add: link_level_def Let_def)

lemma fold_link_simps [simp]:
  "length (heap (fold (link_level x prev) is s)) = length (heap s)"
  "max_height (fold (link_level x prev) is s) = max_height s"
  "key_of (fold (link_level x prev) is s) a = key_of s a" "height (fold (link_level x prev) is s) a = height s a"
  by (induction "is" arbitrary: s) simp_all

lemma Node_Next_link_level:
  "n < length (heap s) \<Longrightarrow> prev ! i < length (heap s) \<Longrightarrow> i < height s n \<Longrightarrow> i < height s (prev ! i) \<Longrightarrow> prev ! i \<noteq> n \<Longrightarrow>
     Node_Next (link_level n prev i s) y j =
       (if j = i then if y = prev ! i then Some n else if y = n then Node_Next s (prev ! i) i else Node_Next s y i
        else Node_Next s y j)"
  by (simp add: link_level_def Let_def Node_Next_SetNext)

lemma links_cong: "(\<And>y. y \<in> set (x # L) \<Longrightarrow> Node_Next s' y i = Node_Next s y i) \<Longrightarrow> links s' i x L = links s i x L"
  by (induction L arbitrary: x) auto

lemma links_insert:
  assumes "links s i x (P @ Q)" "distinct (x # P @ Q)" "n \<notin> set (x # P @ Q)"
    and nx: "\<And>y. Node_Next s' y i = (if y = last (x # P) then Some n else if y = n then Node_Next s (last (x # P)) i
                 else Node_Next s y i)"
  shows "links s' i x (P @ n # Q)"
  using assms(1,2,3) nx
proof (induction P arbitrary: x)
  case Nil
  show ?case
  proof (cases Q)
    case Nil
    then show ?thesis using Nil.prems by simp
  next
    case (Cons y ys)
    have "links s' i y ys = links s i y ys"
      using Nil.prems(2,3) by (intro links_cong) (auto simp: Nil.prems(4) Cons)
    then show ?thesis using Nil.prems by (simp add: Cons)
  qed
next
  case (Cons y P)
  have "last (y # P) \<noteq> x" using Cons.prems(2) last_in_set [of "y # P"] by auto
  then have "Node_Next s' x i = Node_Next s x i" using Cons.prems(3) by (auto simp: Cons.prems(4))
  then show ?case using Cons.IH [of y] Cons.prems by simp
qed

lemma fold_link_levels:
  assumes "n < length (heap s)" "j \<le> height s n"
    and prev: "\<And>i. i < j \<Longrightarrow> prev ! i = last (0 # A i) \<and> prev ! i < length (heap s) \<and> i < height s (prev ! i)"
    and lev: "\<And>i. i < j \<Longrightarrow> links s i 0 (A i @ B i) \<and> distinct (0 # A i @ B i) \<and> n \<notin> set (0 # A i @ B i)"
  shows "(\<forall>i < j. links (fold (link_level n prev) [0..<j] s) i 0 (A i @ n # B i)) \<and>
         (\<forall>i \<ge> j. \<forall>x. Node_Next (fold (link_level n prev) [0..<j] s) x i = Node_Next s x i)"
  using assms(2) prev lev
proof (induction j)
  case (Suc j)
  let ?s = "fold (link_level n prev) [0..<j] s"
  have IH: "\<forall>i < j. links ?s i 0 (A i @ n # B i)" "\<And>i x. j \<le> i \<Longrightarrow> Node_Next ?s x i = Node_Next s x i"
    using Suc.IH [OF Suc_leD [OF Suc.prems(1)] Suc.prems(2,3) [OF less_SucI]] by blast+
  have p: "prev ! j = last (0 # A j)" "prev ! j < length (heap s)" "j < height s (prev ! j)"
    and l: "links s j 0 (A j @ B j)" "distinct (0 # A j @ B j)" "n \<notin> set (0 # A j @ B j)"
    using Suc.prems by blast+
  have "last (0 # A j) \<in> set (0 # A j @ B j)" using last_in_set [of "0 # A j"] by auto
  then have pn: "prev ! j \<noteq> n" using l(3) p(1) by metis
  have step: "Node_Next (link_level n prev j ?s) y i =
       (if i = j then if y = prev ! j then Some n else if y = n then Node_Next ?s (prev ! j) j else Node_Next ?s y j
        else Node_Next ?s y i)" for y i
    using assms(1) p pn Suc.prems(1) by (intro Node_Next_link_level) simp_all
  have "links ?s j 0 (A j @ B j)" using l(1) IH(2) [of j] by (simp add: links_cong [of 0 _ ?s j s])
  then have "links (link_level n prev j ?s) j 0 (A j @ n # B j)"
    by (rule links_insert [OF _ l(2,3)]) (simp add: step p(1))
  moreover have "links (link_level n prev j ?s) i 0 (A i @ n # B i)" if "i < j" for i
    using IH(1) that links_cong [of 0 "A i @ n # B i" "link_level n prev j ?s" i ?s] by (simp add: step)
  ultimately have "\<forall>i < Suc j. links (link_level n prev j ?s) i 0 (A i @ n # B i)" by (auto simp: less_Suc_eq)
  moreover have "\<forall>i \<ge> Suc j. \<forall>x. Node_Next (link_level n prev j ?s) x i = Node_Next s x i" using step IH(2) by simp
  ultimately show ?case by simp
qed simp

lemma prev_heads:
  "length (fold (\<lambda>i prev. prev[i := head_node]) [m..<h] prev) = length prev \<and>
   (i < length prev \<longrightarrow> fold (\<lambda>i prev. prev[i := head_node]) [m..<h] prev ! i =
     (if m \<le> i \<and> i < h then head_node else prev ! i))"
  by (induction h) (auto simp: nth_list_update less_Suc_eq)

lemma sl_inv_new:
  "sl_inv compare valid (SkipList_new k) []"
  by (auto simp: sl_inv_def SkipList_new_def NewNode_def kMaxHeight_def head_node_def level_def Node_SetNext_def
      Node_Next_def height_def Let_def upt_rec numeral_eq_Suc less_Suc_eq)

context key_order
begin

lemma Insert_inv:
  assumes inv: "sl_inv compare valid s ns" and key: "valid key" and new: "\<forall>a \<in> set ns. compare (key_of s a) key \<noteq> 0"
  shows "\<exists>s'. Insert compare key s = Some s' \<and> length (heap s') = Suc (length (heap s)) \<and>
     sl_inv compare valid s' (before s ns key @ length (heap s) # behind s ns key) \<and>
     key_of s' (length (heap s)) = key \<and> (\<forall>a < length (heap s). key_of s' a = key_of s a)"
proof -
  let ?A = "before s ns key" and ?B = "behind s ns key" and ?n = "length (heap s)"
  define p where "p = (\<lambda>i. last (0 # level s i ?A))"
  obtain x pv where find: "FindGreaterOrEqual compare s key (replicate kMaxHeight 0) = Some (x, pv)" "length pv = kMaxHeight"
      "\<And>i. i < kMaxHeight \<Longrightarrow> i < max_height s \<Longrightarrow> pv ! i = p i"
    using FindGreaterOrEqual_inv [OF inv key, of "replicate kMaxHeight 0"] by (auto simp: p_def)
  obtain h s1 where rh: "RandomHeight s = (h, s1)" by fastforce
  then have h: "0 < h" "h \<le> kMaxHeight" "heap s1 = heap s" "max_height s1 = max_height s"
    using RandomHeight_bounds by auto
  have ns: "set ns = {1..<?n}" "distinct ns" "0 < ?n" "height s 0 = kMaxHeight" "0 < max_height s" "max_height s \<le> kMaxHeight"
    and nodes: "\<And>a. a \<in> set ns \<Longrightarrow> valid (key_of s a) \<and> 0 < height s a \<and> height s a \<le> max_height s"
    and sorted: "sorted_wrt (\<lambda>a b. compare (key_of s a) (key_of s b) < 0) ns"
    and lnk: "\<And>i. i < kMaxHeight \<Longrightarrow> links s i 0 (level s i ns)"
    using inv by (auto simp: sl_inv_def)
  have parts: "set ns = set ?A \<union> set ?B" "?A @ ?B = ns" by (metis split_nodes set_append) (rule split_nodes)
  have high: "level s i ?A = []" if "max_height s \<le> i" for i
    using nodes that parts(1) by (fastforce simp: level_def filter_empty_conv)
  define mh where "mh = (if h > max_height s then h else max_height s)"
  define pv' where "pv' = (if h > max_height s then fold (\<lambda>i prev. prev[i := head_node]) [max_height s..<h] pv else pv)"
  have pv': "pv' ! i = p i" if "i < h" for i
    using that find(2,3) h(2) high [of i] prev_heads [of "max_height s" h pv i]
    by (auto simp: pv'_def p_def head_node_def)
  define s3 where "s3 = s1\<lparr>max_height := mh, heap := heap s @ [\<lparr>nkey = key, nexts = replicate h None\<rparr>]\<rparr>"
  define s' where "s' = fold (link_level ?n pv') [0..<h] s3"
  have same: "s1\<lparr>max_height := max_height s, heap := hp\<rparr> = s1\<lparr>heap := hp\<rparr>" for hp
    using h(4) by (cases s1) simp
  have ins: "Insert compare key s = Some s'"
  proof (cases "h > max_height s")
    case True
    then show ?thesis using find(1) rh h(3,4) by (simp add: Insert_def NewNode_def Let_def s'_def s3_def pv'_def mh_def)
  next
    case False
    then show ?thesis using find(1) rh h(3,4)
      by (simp add: Insert_def NewNode_def Let_def s'_def s3_def pv'_def mh_def same)
  qed
  have old: "key_of s3 a = key_of s a" "height s3 a = height s a" "Node_Next s3 a i = Node_Next s a i"
    if "a < ?n" for a i
    using that by (simp_all add: s3_def nth_append height_def Node_Next_def)
  have nw: "key_of s3 ?n = key" "height s3 ?n = h" "length (heap s3) = Suc ?n" "max_height s3 = mh"
    by (simp_all add: s3_def height_def)
  have mem: "a < ?n" if "a \<in> set ns" for a using that ns(1) by auto
  have lev3: "level s3 i L = level s i L" if "set L \<subseteq> set ns" for i L
    using that old(2) mem by (force simp: level_def intro: filter_cong)
  have sub: "set ?A \<subseteq> set ns" "set ?B \<subseteq> set ns" using parts(1) by auto
  have pin: "p i < ?n \<and> i < height s (p i)" if "i < h" for i
  proof -
    have "p i \<in> set (0 # level s i ?A)" unfolding p_def by (rule last_in_set) simp
    then show ?thesis using ns(3,4) that h(2) mem sub by (auto simp: level_def)
  qed
  have lnk3: "links s3 i 0 (level s i ?A @ level s i ?B)" if "i < kMaxHeight" for i
  proof -
    have "level s i ns = level s i ?A @ level s i ?B" by (metis filter_append level_def parts(2))
    moreover have "links s3 i 0 (level s i ns) = links s i 0 (level s i ns)"
      using ns(3) mem old(3) by (intro links_cong) (auto simp: level_def)
    ultimately show ?thesis using lnk [OF that] by simp
  qed
  have dist: "distinct (0 # level s i ?A @ level s i ?B) \<and> ?n \<notin> set (0 # level s i ?A @ level s i ?B)" for i
  proof -
    have "level s i ns = level s i ?A @ level s i ?B" by (metis filter_append level_def parts(2))
    moreover have "distinct (0 # level s i ns) \<and> ?n \<notin> set (0 # level s i ns)"
      using ns(1,2,3) by (auto simp: level_def)
    ultimately show ?thesis by simp
  qed
  have links': "(\<forall>i < h. links s' i 0 (level s i ?A @ ?n # level s i ?B)) \<and>
      (\<forall>i \<ge> h. \<forall>x. Node_Next s' x i = Node_Next s3 x i)"
    unfolding s'_def
  proof (rule fold_link_levels)
    show "?n < length (heap s3)" "h \<le> height s3 ?n" using nw by simp_all
    show "pv' ! i = last (0 # level s i ?A) \<and> pv' ! i < length (heap s3) \<and> i < height s3 (pv' ! i)" if "i < h" for i
      using pv' [OF that] pin [OF that] old(2) nw(3) by (simp add: p_def less_Suc_eq)
    show "links s3 i 0 (level s i ?A @ level s i ?B) \<and> distinct (0 # level s i ?A @ level s i ?B) \<and>
        ?n \<notin> set (0 # level s i ?A @ level s i ?B)" if "i < h" for i
      using lnk3 dist that h(2) by simp
  qed
  have s': "key_of s' a = key_of s3 a" "height s' a = height s3 a" "length (heap s') = Suc ?n" "max_height s' = mh" for a
    by (simp_all add: s'_def nw)
  have lev': "level s' i (?A @ ?n # ?B) = (if i < h then level s i ?A @ ?n # level s i ?B else level s i ?A @ level s i ?B)" for i
    using lev3 [OF sub(1), of i] lev3 [OF sub(2), of i] nw(2) by (simp add: level_def s'(2))
  have "links s' i 0 (level s' i (?A @ ?n # ?B))" if "i < kMaxHeight" for i
  proof (cases "i < h")
    case True
    then show ?thesis using links' by (simp add: lev')
  next
    case False
    then have "links s' i 0 (level s i ?A @ level s i ?B) = links s3 i 0 (level s i ?A @ level s i ?B)"
      using links' by (intro links_cong) simp
    then show ?thesis using False lnk3 [OF that] by (simp add: lev')
  qed
  moreover have "sorted_wrt (\<lambda>a b. compare (key_of s' a) (key_of s' b) < 0) (?A @ ?n # ?B)"
  proof -
    have k: "key_of s' ?n = key" "\<And>a. a \<in> set ns \<Longrightarrow> key_of s' a = key_of s a" using nw(1) old(1) mem by (simp_all add: s'(1))
    have "compare key (key_of s b) < 0" if "b \<in> set ?B" for b
      using behind_not_less [OF inv key] new that sub(2) flip [of key "key_of s b"] key nodes by fastforce
    moreover have "compare (key_of s a) key < 0" if "a \<in> set ?A" for a using before_less that by blast
    moreover have "sorted_wrt (\<lambda>a b. compare (key_of s' a) (key_of s' b) < 0) (?A @ ?B)"
      using sorted k(2) unfolding parts(2) by (simp add: sorted_wrt_iff_nth_less)
    ultimately show ?thesis using k sub by (auto simp: sorted_wrt_append subset_iff)
  qed
  moreover have "distinct (?A @ ?n # ?B)" "set (?A @ ?n # ?B) = {1..<length (heap s')}"
  proof -
    have "distinct (?A @ ?B)" "?n \<notin> set (?A @ ?B)" using ns(1,2) unfolding parts(2) by auto
    then show "distinct (?A @ ?n # ?B)" by auto
    have "{1..<Suc ?n} = insert ?n {1..<?n}"
      using ns(3) by (simp add: atLeastLessThanSuc Suc_leI del: length_greater_0_conv)
    then show "set (?A @ ?n # ?B) = {1..<length (heap s')}" using ns(1) parts(1) by (simp add: s'(3))
  qed
  moreover have "valid (key_of s' a) \<and> 0 < height s' a \<and> height s' a \<le> max_height s'" if "a \<in> set (?A @ ?n # ?B)" for a
    using that nodes [of a] old [of a] mem [of a] parts(1) nw(1,2) key h(1) by (auto simp: s' mh_def)
  ultimately have "sl_inv compare valid s' (?A @ ?n # ?B)"
    using ns(3,4,5,6) old(2) [of 0] h(2) by (auto simp: sl_inv_def s' mh_def)
  then show ?thesis using ins nw(1) old(1) by (simp add: s')
qed

lemma Contains_inv:
  assumes "sl_inv compare valid s ns" "valid key"
  shows "Contains compare key s = Some (\<exists>a \<in> set ns. compare (key_of s a) key = 0)"
proof -
  obtain pv where f: "FindGreaterOrEqual compare s key [] = Some (case behind s ns key of [] \<Rightarrow> None | b # _ \<Rightarrow> Some b, pv)"
    using FindGreaterOrEqual_inv [OF assms, of "[]"] by auto
  have nodes: "set ns = set (before s ns key) \<union> set (behind s ns key)" by (metis split_nodes set_append)
  have zero: "compare key (key_of s a) = 0 \<longleftrightarrow> compare (key_of s a) key = 0" if "a \<in> set ns" for a
    using flip [of key "key_of s a"] flip [of "key_of s a" key] assms that by (auto simp: sl_inv_def)
  show ?thesis
  proof (cases "behind s ns key")
    case Nil
    then show ?thesis using f nodes before_less [of s ns key] by (fastforce simp: Contains_def)
  next
    case (Cons b bs)
    have "sorted_wrt (\<lambda>a b. compare (key_of s a) (key_of s b) < 0) (before s ns key @ b # bs)"
      using assms(1) Cons split_nodes [of s ns key] by (simp add: sl_inv_def)
    then have gt: "\<forall>a \<in> set bs. compare (key_of s b) (key_of s a) < 0" by (simp add: sorted_wrt_append)
    have v: "valid (key_of s a)" if "a \<in> set ns" for a using assms(1) that by (simp add: sl_inv_def)
    have "compare (key_of s a) key \<noteq> 0" if "a \<in> set bs" for a
    proof
      assume "compare (key_of s a) key = 0"
      then have "compare (key_of s b) key < 0"
        using less_trans [of "key_of s b" "key_of s a" key] gt that v nodes Cons assms(2) by simp
      then show False using behind_not_less [OF assms] Cons by simp
    qed
    then have "(\<exists>a \<in> set ns. compare (key_of s a) key = 0) \<longleftrightarrow> compare (key_of s b) key = 0"
      using nodes Cons before_less [of s ns key] by fastforce
    then show ?thesis using f Cons zero [of b] nodes by (simp add: Contains_def)
  qed
qed

end

section \<open>A list of keys\<close>

fun insert_all :: "('k \<Rightarrow> 'k \<Rightarrow> int) \<Rightarrow> 'k list \<Rightarrow> 'k SkipList \<Rightarrow> 'k SkipList option" where
  "insert_all compare [] s = Some s"
| "insert_all compare (k # ks) s = (case Insert compare k s of None \<Rightarrow> None | Some s \<Rightarrow> insert_all compare ks s)"

text \<open>The keys that an iterator delivers in at most \<open>n\<close> steps.\<close>

fun scan :: "'k SkipList \<Rightarrow> nat \<Rightarrow> nat option \<Rightarrow> 'k list" where
  "scan s (Suc n) (Some a) = Iter_key s a # scan s n (Iter_Next s a)"
| "scan s _ _ = []"

lemma scan_links: "links s 0 x ns \<Longrightarrow> length ns \<le> n \<Longrightarrow> scan s n (Node_Next s x 0) = map (key_of s) ns"
proof (induction ns arbitrary: x n)
  case (Cons a ns)
  then show ?case by (cases n) (auto simp: Iter_key_def Iter_Next_def)
qed (cases n, auto)

context key_order
begin

lemma insert_all_inv:
  assumes "sl_inv compare valid s ns" "\<forall>k \<in> set ks. valid k"
    "\<forall>k \<in> set ks. \<forall>a \<in> set ns. compare (key_of s a) k \<noteq> 0" "pairwise (\<lambda>a b. compare a b \<noteq> 0) (set ks)" "distinct ks"
  shows "\<exists>s' ns'. insert_all compare ks s = Some s' \<and> sl_inv compare valid s' ns' \<and>
           mset (map (key_of s') ns') = mset ks + mset (map (key_of s) ns)"
  using assms
proof (induction ks arbitrary: s ns)
  case (Cons k ks)
  let ?n = "length (heap s)" and ?A = "before s ns k" and ?B = "behind s ns k"
  obtain s1 where s1: "Insert compare k s = Some s1" "sl_inv compare valid s1 (?A @ ?n # ?B)" "key_of s1 ?n = k"
      "\<forall>a < ?n. key_of s1 a = key_of s a"
    using Insert_inv [OF Cons.prems(1)] Cons.prems(2,3) by auto
  have same: "key_of s1 a = key_of s a" if "a \<in> set ns" for a
    using s1(4) that Cons.prems(1) by (auto simp: sl_inv_def)
  have parts: "set ns = set ?A \<union> set ?B" "mset ns = mset ?A + mset ?B"
    by (metis split_nodes set_append) (metis split_nodes mset_append)
  have keys: "mset (map (key_of s1) (?A @ ?n # ?B)) = add_mset k (mset (map (key_of s) ns))"
  proof -
    have "image_mset (key_of s1) (mset ns) = image_mset (key_of s) (mset ns)"
      using same by (intro image_mset_cong) simp
    then show ?thesis using s1(3) by (simp add: parts(2))
  qed
  have "\<forall>k' \<in> set ks. \<forall>a \<in> set (?A @ ?n # ?B). compare (key_of s1 a) k' \<noteq> 0"
    using Cons.prems(3,4,5) same s1(3) parts(1) by (auto simp: pairwise_def)
  then obtain s' ns' where "insert_all compare ks s1 = Some s'" "sl_inv compare valid s' ns'"
      "mset (map (key_of s') ns') = mset ks + mset (map (key_of s1) (?A @ ?n # ?B))"
    using Cons.IH [OF s1(2)] Cons.prems(2,4,5) by (auto simp: pairwise_insert)
  then show ?case using s1(1) keys by auto
qed auto

lemma skiplist_correct:
  assumes "\<forall>k \<in> set ks. valid k" "pairwise (\<lambda>a b. compare a b \<noteq> 0) (set ks)" "distinct ks"
  shows "\<exists>s. insert_all compare ks (SkipList_new any_key) = Some s \<and>
     sorted_wrt (\<lambda>a b. compare a b < 0) (scan s (length ks) (Iter_SeekToFirst s)) \<and>
     mset (scan s (length ks) (Iter_SeekToFirst s)) = mset ks \<and>
     (\<forall>k. valid k \<longrightarrow> Contains compare k s = Some (\<exists>k' \<in> set ks. compare k' k = 0))"
proof -
  obtain s ns where s: "insert_all compare ks (SkipList_new any_key) = Some s" "sl_inv compare valid s ns"
      "mset (map (key_of s) ns) = mset ks"
    using insert_all_inv [OF sl_inv_new, of ks any_key] assms by auto
  then have "length ns = length ks" by (metis length_map size_mset)
  moreover have "level s 0 ns = ns" using level_nonempty_0 [OF s(2)] by simp
  then have "links s 0 0 ns" using s(2) unfolding sl_inv_def by (metis kMaxHeight_def zero_less_numeral)
  ultimately have "scan s (length ks) (Iter_SeekToFirst s) = map (key_of s) ns"
    by (simp add: Iter_SeekToFirst_def head_node_def scan_links)
  moreover have "set ks = key_of s ` set ns" using arg_cong [OF s(3), of set_mset] by simp
  moreover have "sorted_wrt (\<lambda>a b. compare a b < 0) (map (key_of s) ns)"
    using s(2) by (simp add: sl_inv_def sorted_wrt_map)
  ultimately show ?thesis using s Contains_inv [OF s(2)] by auto
qed

end

text \<open>Every comparator orders keys.\<close>

sublocale comparator \<subseteq> order: key_order "Compare c" valid
proof
  show "Compare c a b < 0 \<longleftrightarrow> 0 < Compare c b a" if "valid a" "valid b" for a b
    using that by (rule compare_flip)
  show "Compare c x z \<le> 0" if "valid x" "valid y" "valid z" "Compare c x y \<le> 0" "Compare c y z \<le> 0" for x y z
  proof (cases "y = z")
    case False
    then have "Compare c y z < 0" using that compare_eq_0 [of y z] by linarith
    then show ?thesis using that compare_le_trans [of x y z] by simp
  qed (use that in simp)
qed

text \<open>C17: A skip list is a sorted list. After any distinct keys have been inserted, in any order and with whatever heights
  the random numbers gave the nodes, the insertions have returned, iterating delivers exactly these keys in
  increasing order, and \<^verbatim>\<open>Contains\<close> returns and is exact.\<close>

theorem skiplist_sorted:
  assumes "distinct ks"
  shows "\<exists>s. insert_all (Compare BytewiseComparator) ks (SkipList_new any_key) = Some s \<and>
     sorted_wrt (\<lambda>a b. Compare BytewiseComparator a b < 0) (scan s (length ks) (Iter_SeekToFirst s)) \<and>
     mset (scan s (length ks) (Iter_SeekToFirst s)) = mset ks \<and>
     (\<forall>k. Contains (Compare BytewiseComparator) k s = Some (k \<in> set ks))"
proof -
  have "pairwise (\<lambda>a b. Compare BytewiseComparator a b \<noteq> 0) (set ks)"
    by (auto simp: pairwise_def bytewise.compare_eq_0)
  from bytewise.order.skiplist_correct [OF _ this assms, of any_key] show ?thesis
    by (simp add: bytewise.compare_eq_0)
qed

theorem skiplist_sorted_witness:
  "\<exists>s. insert_all (Compare BytewiseComparator) [[3], [1, 2], []] (SkipList_new []) = Some s \<and>
     Contains (Compare BytewiseComparator) [1, 2] s = Some True \<and> Contains (Compare BytewiseComparator) [1] s = Some False"
  using skiplist_sorted [of "[[3], [1, 2], []]" "[]"] by auto

text \<open>The random numbers of the skip list are those of the multiplicative generator: without a division, and in 32 and
  64 bits, \<^verbatim>\<open>Next\<close> computes \<open>seed * 16807 mod (2^31 - 1)\<close>, and never reaches the bad seeds 0 and \<open>2^31 - 1\<close>.\<close>

theorem Random_Next_lehmer:
  assumes "0 < unat seed" "unat seed < 2147483647"
  shows "unat (Random_Next seed) = unat seed * 16807 mod 2147483647 \<and>
         0 < unat (Random_Next seed) \<and> unat (Random_Next seed) < 2147483647 \<and>
         (\<forall>s. 0 < unat (Random_new s) \<and> unat (Random_new s) < 2147483647)"
proof -
  have "0 < unat (Random_new s) \<and> unat (Random_new s) < 2147483647" for s
  proof -
    have "unat (s AND mask 31) < 2 ^ 31" using unat_and_mask [of s 31] by simp
    then have less: "unat (s AND 0x7fffffff) < 2147483648" by (simp add: mask_eq_exp_minus_1)
    show ?thesis
    proof (cases "s AND 0x7fffffff = 0 \<or> s AND 0x7fffffff = 2147483647")
      case True
      then have "Random_new s = 1" unfolding Random_new_def Let_def by (simp only: if_True)
      then show ?thesis by simp
    next
      case False
      then have "Random_new s = s AND 0x7fffffff" unfolding Random_new_def Let_def by (simp only: if_False)
      moreover have "unat (s AND 0x7fffffff) \<noteq> unat (0 :: u32)" "unat (s AND 0x7fffffff) \<noteq> unat (2147483647 :: u32)"
        using False by (simp_all only: word_unat_eq_iff [symmetric] de_Morgan_disj not_False_eq_True)
      then have "0 < unat (s AND 0x7fffffff)" "unat (s AND 0x7fffffff) \<noteq> 2147483647" by simp_all
      moreover have "n < 2147483648 \<Longrightarrow> n \<noteq> 2147483647 \<Longrightarrow> n < 2147483647" for n :: nat by arith
      ultimately show ?thesis using less by (simp only: simp_thms)
    qed
  qed
  then show ?thesis using unat_Random_Next [OF assms] by blast
qed

theorem Random_Next_lehmer_witness: "unat (Random_Next 1) = 16807"
  using Random_Next_lehmer [of 1] by simp

end
