(* ===== verification/LdbMem.thy ===== *)
theory LdbMem
  imports LdbSkipProps LdbStatus
begin

text \<open>
  The memtable of LevelDB (\<^verbatim>\<open>db/memtable.cc\<close>): a skip list of entries in the arena. A key of the skip list is the
  pointer to an entry, here the bytes from that pointer on.
\<close>

section \<open>Entries\<close>

text \<open>
  The string with its length in front at a pointer, and the bytes behind it. The length is read from the next five bytes;
  where they hold none the code would build a slice on NULL, and the model has an empty one.
\<close>

definition prefixed_at :: "byte list \<Rightarrow> slice \<times> byte list" where
  "prefixed_at data =
     (case GetVarint32Ptr (take 5 data) of
        None \<Rightarrow> ([], [])
      | Some (len, rest) \<Rightarrow> let p = drop (length (take 5 data) - length rest) data in (take (unat len) p, drop (unat len) p))"

record MemTable =
  user_cmp :: comparator_class
  table :: "byte list SkipList"

definition MemTable_new :: "comparator_class \<Rightarrow> MemTable" where
  "MemTable_new cmp = \<lparr>user_cmp = cmp, table = SkipList_new []\<rparr>"

definition KeyComparator :: "comparator_class \<Rightarrow> byte list \<Rightarrow> byte list \<Rightarrow> int" where
  "KeyComparator cmp aptr bptr = Compare (InternalKeyComparator cmp) (fst (prefixed_at aptr)) (fst (prefixed_at bptr))"

definition EncodeKey :: "slice \<Rightarrow> byte list" where
  "EncodeKey target = PutVarint32 [] (of_nat (length target)) @ target"

definition encode_entry :: "SequenceNumber \<Rightarrow> ValueType \<Rightarrow> slice \<Rightarrow> slice \<Rightarrow> byte list" where
  "encode_entry s type key value =
     (let key_size = length key; val_size = length value; internal_key_size = key_size + 8
      in EncodeVarint32 (of_nat internal_key_size) @ key @ EncodeFixed64 True (push_bit 8 s OR type_code type) @
         EncodeVarint32 (of_nat val_size) @ value)"

definition MemTable_Add :: "SequenceNumber \<Rightarrow> ValueType \<Rightarrow> slice \<Rightarrow> slice \<Rightarrow> MemTable \<Rightarrow> MemTable option" where
  "MemTable_Add s type key value m =
     map_option (\<lambda>t. m\<lparr>table := t\<rparr>) (Insert (KeyComparator (user_cmp m)) (encode_entry s type key value) (table m))"

text \<open>The result is whether the key was found, the value of the caller and its status.\<close>

definition MemTable_Get :: "MemTable \<Rightarrow> LookupKey \<Rightarrow> slice \<Rightarrow> Status \<Rightarrow> (bool \<times> slice \<times> Status) option" where
  "MemTable_Get m key value s =
     (case Iter_Seek (KeyComparator (user_cmp m)) (table m) (memtable_key key) of
        None \<Rightarrow> None
      | Some None \<Rightarrow> Some (False, value, s)
      | Some (Some it) \<Rightarrow>
          let entry = Iter_key (table m) it; (ikey, behind) = prefixed_at entry
          in if Compare (user_cmp m) (take (length ikey - 8) ikey) (user_key key) = 0
             then let tag = DecodeFixed64 True (drop (length ikey - 8) ikey)
                  in if tag AND 0xff = type_code kTypeValue then Some (True, fst (prefixed_at behind), s)
                     else if tag AND 0xff = type_code kTypeDeletion then Some (True, value, NotFound [] [])
                     else Some (False, value, s)
             else Some (False, value, s))"

section \<open>Iterators\<close>

definition MemIter_Seek :: "MemTable \<Rightarrow> slice \<Rightarrow> nat option option" where
  "MemIter_Seek m k = Iter_Seek (KeyComparator (user_cmp m)) (table m) (EncodeKey k)"

definition MemIter_SeekToFirst :: "MemTable \<Rightarrow> nat option" where
  "MemIter_SeekToFirst m = Iter_SeekToFirst (table m)"

definition MemIter_SeekToLast :: "MemTable \<Rightarrow> nat option option" where
  "MemIter_SeekToLast m = Iter_SeekToLast (table m)"

definition MemIter_Next :: "MemTable \<Rightarrow> nat \<Rightarrow> nat option" where
  "MemIter_Next m it = Iter_Next (table m) it"

definition MemIter_Prev :: "MemTable \<Rightarrow> nat \<Rightarrow> nat option option" where
  "MemIter_Prev m it = Iter_Prev (KeyComparator (user_cmp m)) (table m) it"

definition MemIter_key :: "MemTable \<Rightarrow> nat \<Rightarrow> slice" where
  "MemIter_key m it = fst (prefixed_at (Iter_key (table m) it))"

definition MemIter_value :: "MemTable \<Rightarrow> nat \<Rightarrow> slice" where
  "MemIter_value m it = fst (prefixed_at (snd (prefixed_at (Iter_key (table m) it))))"

section \<open>Entries can be read back\<close>

lemma EncodeVarint32_length: "length (EncodeVarint32 v) \<le> 5" "EncodeVarint32 v \<noteq> []"
proof -
  show "length (EncodeVarint32 v) \<le> 5"
    using length_varint_bytes [of "unat v" 5] unat_u32_less [of v] by (simp add: EncodeVarint32_bytes)
  show "EncodeVarint32 v \<noteq> []" by (simp add: EncodeVarint32_def Let_def)
qed

lemma prefixed_at_Encode:
  "length v < 2 ^ 32 \<Longrightarrow> prefixed_at (EncodeVarint32 (of_nat (length v)) @ v @ rest) = (v, rest)"
proof -
  assume v: "length v < 2 ^ 32"
  let ?e = "EncodeVarint32 (of_nat (length v))"
  let ?k = "5 - length ?e"
  have "take 5 (?e @ v @ rest) = ?e @ take ?k (v @ rest)" using EncodeVarint32_length(1) [of "of_nat (length v)"] by simp
  then have "GetVarint32Ptr (take 5 (?e @ v @ rest)) = Some (of_nat (length v), take ?k (v @ rest))"
    using GetVarint32_loop_bytes [of 0 0 "length v" "take ?k (v @ rest)"] v
    by (simp add: GetVarint32Ptr_fallback EncodeVarint32_bytes unsigned_of_nat take_bit_nat_eq_self)
  moreover have "length (take 5 (?e @ v @ rest)) - length (take ?k (v @ rest)) = length ?e"
    using EncodeVarint32_length(1) [of "of_nat (length v)"] by (simp add: min_def)
  ultimately show ?thesis using v
    by (simp add: prefixed_at_def Let_def unsigned_of_nat take_bit_nat_eq_self)
qed

lemma prefixed_at_entry:
  assumes "length key + 8 < 2 ^ 32"
  shows "prefixed_at (encode_entry s t key v) =
     (PutFixed64 key (PackSequenceAndType s t), EncodeVarint32 (of_nat (length v)) @ v)"
proof -
  let ?ik = "PutFixed64 key (PackSequenceAndType s t)"
  have "encode_entry s t key v = EncodeVarint32 (of_nat (length ?ik)) @ ?ik @ EncodeVarint32 (of_nat (length v)) @ v"
    by (simp add: encode_entry_def Let_def PutFixed64_def PackSequenceAndType_def EncodeFixed64_portable)
  then show ?thesis using prefixed_at_Encode [of ?ik] assms by simp
qed

lemma memtable_key_eq: "memtable_key (make_LookupKey key s) =
    EncodeVarint32 (of_nat (length (PutFixed64 key (PackSequenceAndType s kTypeValue)))) @
    PutFixed64 key (PackSequenceAndType s kTypeValue)"
  by (simp add: memtable_key_def make_LookupKey_def Let_def PutFixed64_def kValueTypeForSeek_def EncodeFixed64_portable)

lemma user_key_eq: "user_key (make_LookupKey key s) = key"
  by (simp add: user_key_def make_LookupKey_def Let_def EncodeFixed64_portable)

lemma prefixed_at_memtable_key:
  "length key + 8 < 2 ^ 32 \<Longrightarrow> prefixed_at (memtable_key (make_LookupKey key s)) = (PutFixed64 key (PackSequenceAndType s kTypeValue), [])"
  using prefixed_at_Encode [of "PutFixed64 key (PackSequenceAndType s kTypeValue)" "[]"] by (simp add: memtable_key_eq)

end
