(* ===== verification/LdbMemProps.thy ===== *)
theory LdbMemProps
  imports LdbMem
begin

text \<open>
  The memtable is a multi-version map: looking up a key at a snapshot gives the newest operation on the key that is not
  newer than the snapshot.
\<close>

abbreviation entry_cmp :: "byte list \<Rightarrow> byte list \<Rightarrow> int" where
  "entry_cmp \<equiv> KeyComparator BytewiseComparator"

abbreviation entry_valid :: "byte list \<Rightarrow> bool" where
  "entry_valid e \<equiv> 8 \<le> length (fst (prefixed_at e))"

interpretation mem_order: key_order entry_cmp entry_valid
proof
  show "entry_cmp a b < 0 \<longleftrightarrow> 0 < entry_cmp b a" if "entry_valid a" "entry_valid b" for a b
    using internal.order.flip that by (simp add: KeyComparator_def)
  show "entry_cmp x z \<le> 0" if "entry_valid x" "entry_valid y" "entry_valid z" "entry_cmp x y \<le> 0" "entry_cmp y z \<le> 0" for x y z
    using internal.order.le_trans [of "fst (prefixed_at x)" "fst (prefixed_at y)" "fst (prefixed_at z)"] that
    by (simp add: KeyComparator_def)
qed

section \<open>Operations\<close>

text \<open>An operation has a sequence number, a type, a key and a value.\<close>

type_synonym operation = "SequenceNumber \<times> ValueType \<times> slice \<times> slice"

definition op_ok :: "operation \<Rightarrow> bool" where
  "op_ok = (\<lambda>(s, t, k, v). s \<le> kMaxSequenceNumber \<and> length k + 8 < 2 ^ 32 \<and> length v < 2 ^ 32)"

definition op_entry :: "operation \<Rightarrow> byte list" where
  "op_entry = (\<lambda>(s, t, k, v). encode_entry s t k v)"

fun add_operations :: "operation list \<Rightarrow> MemTable \<Rightarrow> MemTable option" where
  "add_operations [] m = Some m"
| "add_operations ((s, t, k, v) # ops) m = (case MemTable_Add s t k v m of None \<Rightarrow> None | Some m \<Rightarrow> add_operations ops m)"

text \<open>The specification: the last operation on the key, not newer than the snapshot.\<close>

definition visible :: "operation list \<Rightarrow> slice \<Rightarrow> SequenceNumber \<Rightarrow> operation list" where
  "visible ops key snapshot = filter (\<lambda>(s, t, k, v). k = key \<and> s \<le> snapshot) ops"

definition lookup_spec :: "operation list \<Rightarrow> slice \<Rightarrow> SequenceNumber \<Rightarrow> slice \<Rightarrow> Status \<Rightarrow> bool \<times> slice \<times> Status" where
  "lookup_spec ops key snapshot value s =
     (if visible ops key snapshot = [] then (False, value, s)
      else case last (visible ops key snapshot) of
             (_, kTypeValue, _, v) \<Rightarrow> (True, v, s)
           | (_, kTypeDeletion, _, _) \<Rightarrow> (True, value, NotFound [] []))"

section \<open>Comparing entries\<close>

definition target :: "slice \<Rightarrow> SequenceNumber \<Rightarrow> byte list" where
  "target key s = memtable_key (make_LookupKey key s)"

lemma InternalKey_Compare_parts:
  "Compare (InternalKeyComparator BytewiseComparator) (PutFixed64 k t) (PutFixed64 k' t') =
     (if k = k' then if t > t' then - 1 else if t < t' then 1 else 0 else Slice_compare k k')"
  by (simp add: InternalKeyComparator_def InternalKey_Compare_def BytewiseComparator_def Slice_compare_eq_0 Let_def)

lemma Pack_le:
  assumes "s \<le> kMaxSequenceNumber" "s' \<le> kMaxSequenceNumber"
  shows "PackSequenceAndType s t \<le> PackSequenceAndType s' kTypeValue \<longleftrightarrow> s \<le> s'"
    "s < s' \<Longrightarrow> PackSequenceAndType s t < PackSequenceAndType s' t'"
proof -
  have b: "unat (type_code t) \<le> 1" "unat (type_code t') \<le> 1" by (cases t; simp) (cases t'; simp)
  show "PackSequenceAndType s t \<le> PackSequenceAndType s' kTypeValue \<longleftrightarrow> s \<le> s'"
    using b(1) assms by (auto simp: word_le_nat_alt unat_PackSequenceAndType)
  show "s < s' \<Longrightarrow> PackSequenceAndType s t < PackSequenceAndType s' t'"
    using b assms by (auto simp: word_less_nat_alt unat_PackSequenceAndType)
qed

lemma entry_parts:
  "op_ok (s, t, k, v) \<Longrightarrow> prefixed_at (op_entry (s, t, k, v)) = (PutFixed64 k (PackSequenceAndType s t), EncodeVarint32 (of_nat (length v)) @ v)"
  by (simp add: op_ok_def op_entry_def prefixed_at_entry)

lemma entry_is_valid: "op_ok op \<Longrightarrow> entry_valid (op_entry op)"
  by (cases op) (simp add: entry_parts)

lemma entry_cmp_entry:
  assumes "op_ok (s, t, k, v)" "op_ok (s', t', k', v')"
  shows "entry_cmp (op_entry (s, t, k, v)) (op_entry (s', t', k', v')) =
     (if k = k' then if PackSequenceAndType s t > PackSequenceAndType s' t' then - 1
                     else if PackSequenceAndType s t < PackSequenceAndType s' t' then 1 else 0
      else Slice_compare k k')"
  using assms by (simp add: KeyComparator_def entry_parts InternalKey_Compare_parts)

lemma entry_cmp_target:
  assumes "op_ok (s, t, k, v)" "length key + 8 < 2 ^ 32"
  shows "entry_cmp (op_entry (s, t, k, v)) (target key snap) =
     (if k = key then if PackSequenceAndType s t > PackSequenceAndType snap kTypeValue then - 1
                      else if PackSequenceAndType s t < PackSequenceAndType snap kTypeValue then 1 else 0
      else Slice_compare k key)"
  using assms by (simp add: KeyComparator_def entry_parts target_def prefixed_at_memtable_key InternalKey_Compare_parts)

section \<open>The contents of a memtable\<close>

definition mem_inv :: "MemTable \<Rightarrow> nat list \<Rightarrow> operation list \<Rightarrow> bool" where
  "mem_inv m ns ops \<longleftrightarrow> user_cmp m = BytewiseComparator \<and> sl_inv entry_cmp entry_valid (table m) ns \<and>
     key_of (table m) ` set ns = op_entry ` set ops \<and> (\<forall>op \<in> set ops. op_ok op)"

lemma mem_inv_new: "mem_inv (MemTable_new BytewiseComparator) [] []"
  by (simp add: mem_inv_def MemTable_new_def sl_inv_new)

lemma MemTable_Add_inv:
  assumes "mem_inv m ns ops" "op_ok (s, t, k, v)" "\<forall>op \<in> set ops. fst op < s"
  shows "\<exists>m' ns'. MemTable_Add s t k v m = Some m' \<and> mem_inv m' ns' (ops @ [(s, t, k, v)])"
proof -
  let ?e = "op_entry (s, t, k, v)" and ?n = "length (heap (table m))"
  have "entry_cmp (key_of (table m) a) ?e \<noteq> 0" if "a \<in> set ns" for a
  proof -
    have "key_of (table m) a \<in> op_entry ` set ops" using assms(1) that unfolding mem_inv_def by blast
    then obtain op where "key_of (table m) a = op_entry op" "op \<in> set ops" by blast
    then obtain s' t' k' v' where op: "key_of (table m) a = op_entry (s', t', k', v')" "(s', t', k', v') \<in> set ops"
      by (cases op) blast
    then have "op_ok (s', t', k', v')" "s' < s" using assms(1,3) by (auto simp: mem_inv_def)
    moreover from this have "PackSequenceAndType s' t' < PackSequenceAndType s t"
      using assms(2) by (intro Pack_le(2)) (auto simp: op_ok_def)
    ultimately show ?thesis using assms(2) op(1) by (simp add: entry_cmp_entry Slice_compare_eq_0)
  qed
  then obtain s' where s': "Insert entry_cmp ?e (table m) = Some s'" "key_of s' ?n = ?e"
      "sl_inv entry_cmp entry_valid s' (mem_order.before (table m) ns ?e @ ?n # mem_order.behind (table m) ns ?e)"
      "\<forall>a < ?n. key_of s' a = key_of (table m) a"
    using mem_order.Insert_inv [of "table m" ns ?e] assms(1) entry_is_valid [OF assms(2)] by (auto simp: mem_inv_def)
  have nodes: "set ns = set (mem_order.before (table m) ns ?e) \<union> set (mem_order.behind (table m) ns ?e)"
    by (metis mem_order.split_nodes set_append)
  have "a < ?n" if "a \<in> set ns" for a using assms(1) that by (simp add: mem_inv_def sl_inv_def)
  then have "key_of s' ` set ns = key_of (table m) ` set ns" using s'(4) by (intro image_cong) auto
  then have "key_of s' ` set (mem_order.before (table m) ns ?e @ ?n # mem_order.behind (table m) ns ?e) =
      insert ?e (op_entry ` set ops)"
    using nodes s'(2) assms(1) by (auto simp: mem_inv_def)
  then have "mem_inv (m\<lparr>table := s'\<rparr>) (mem_order.before (table m) ns ?e @ ?n # mem_order.behind (table m) ns ?e)
      (ops @ [(s, t, k, v)])"
    using assms(1,2) s'(3) by (simp add: mem_inv_def)
  moreover have "MemTable_Add s t k v m = Some (m\<lparr>table := s'\<rparr>)"
    using s'(1) assms(1) by (simp add: MemTable_Add_def op_entry_def mem_inv_def)
  ultimately show ?thesis by blast
qed

lemma add_operations_inv:
  assumes "mem_inv m ns ops" "\<forall>op \<in> set new. op_ok op" "sorted_wrt (\<lambda>a b. fst a < fst b) (ops @ new)"
  shows "\<exists>m' ns'. add_operations new m = Some m' \<and> mem_inv m' ns' (ops @ new)"
  using assms
proof (induction new arbitrary: m ns ops)
  case (Cons op new)
  obtain s t k v where op: "op = (s, t, k, v)" by (cases op)
  have "\<forall>o' \<in> set ops. fst o' < s" using Cons.prems(3) by (simp add: sorted_wrt_append op)
  then obtain m1 ns1 where m1: "MemTable_Add s t k v m = Some m1" "mem_inv m1 ns1 (ops @ [op])"
    using MemTable_Add_inv [OF Cons.prems(1), of s t k v] Cons.prems(2) by (auto simp: op)
  obtain m' ns' where "add_operations new m1 = Some m'" "mem_inv m' ns' ((ops @ [op]) @ new)"
    using Cons.IH [OF m1(2)] Cons.prems(2,3) by auto
  then show ?case using m1(1) by (auto simp: op)
qed auto

section \<open>Lookups\<close>

lemma sorted_last:
  "sorted_wrt (\<lambda>a b. f a < (f b :: 'b::linorder)) xs \<Longrightarrow> x \<in> set xs \<Longrightarrow> \<forall>y \<in> set xs. f y \<le> f x \<Longrightarrow> last xs = x"
proof (cases xs rule: rev_cases)
  case (snoc ys y)
  assume "sorted_wrt (\<lambda>a b. f a < f b) xs" "x \<in> set xs" "\<forall>y \<in> set xs. f y \<le> f x"
  then show ?thesis by (auto simp: snoc sorted_wrt_append)
qed simp

lemma visible_key: "op \<in> set (visible ops key snap) \<Longrightarrow> \<exists>s t v. op = (s, t, key, v)"
  by (cases op) (simp add: visible_def)

lemma visible_not_less:
  assumes "op_ok op" "op \<in> set (visible ops key snap)" "snap \<le> kMaxSequenceNumber" "length key + 8 < 2 ^ 32"
  shows "\<not> entry_cmp (op_entry op) (target key snap) < 0"
proof -
  obtain s t k v where op: "op = (s, t, k, v)" by (cases op)
  have "k = key" "s \<le> snap" using assms(2) by (auto simp: visible_def op)
  moreover from this have "PackSequenceAndType s t \<le> PackSequenceAndType snap kTypeValue"
    using assms(1,3) by (subst Pack_le(1)) (auto simp: op_ok_def op)
  ultimately show ?thesis using assms(1,4) by (simp add: op entry_cmp_target not_less)
qed

lemma target_valid: "length key + 8 < 2 ^ 32 \<Longrightarrow> entry_valid (target key snap)"
  by (simp add: target_def prefixed_at_memtable_key)

text \<open>The first entry that is not less than the target: where its key is the one looked up, it is the newest
  visible one; otherwise nothing is visible.\<close>

lemma first_not_less:
  assumes inv: "mem_inv m ns ops" and sorted: "sorted_wrt (\<lambda>a b. fst a < fst b) ops"
    and snap: "snap \<le> kMaxSequenceNumber" "length key + 8 < 2 ^ 32"
  shows "mem_order.behind (table m) ns (target key snap) = [] \<Longrightarrow> visible ops key snap = []"
    "mem_order.behind (table m) ns (target key snap) = b # bs \<Longrightarrow>
       \<exists>s t k v. (s, t, k, v) \<in> set ops \<and> key_of (table m) b = op_entry (s, t, k, v) \<and>
         (if k = key then visible ops key snap \<noteq> [] \<and> last (visible ops key snap) = (s, t, k, v)
          else visible ops key snap = [])"
proof -
  let ?A = "mem_order.before (table m) ns (target key snap)" and ?B = "mem_order.behind (table m) ns (target key snap)"
  have nodes: "set ns = set ?A \<union> set ?B" by (metis mem_order.split_nodes set_append)
  have ops: "key_of (table m) ` set ns = op_entry ` set ops" "\<forall>op \<in> set ops. op_ok op"
    and sl: "sl_inv entry_cmp entry_valid (table m) ns"
    using inv by (simp_all add: mem_inv_def)
  have behind: "\<exists>a \<in> set ?B. key_of (table m) a = op_entry op" if "op \<in> set (visible ops key snap)" for op
  proof -
    have "op \<in> set ops" using that by (simp add: visible_def)
    then have "op_entry op \<in> key_of (table m) ` set ns" using ops(1) by simp
    then obtain a where a: "a \<in> set ns" "key_of (table m) a = op_entry op" by fastforce
    then show ?thesis
      using visible_not_less [OF _ that snap] ops(2) \<open>op \<in> set ops\<close> mem_order.before_less [of "table m" ns "target key snap"] nodes
      by auto
  qed
  show "visible ops key snap = []" if "?B = []"
    using behind that by (cases "visible ops key snap") auto
  assume B: "?B = b # bs"
  then have "key_of (table m) b \<in> op_entry ` set ops" using ops(1) nodes by auto
  then obtain op where "key_of (table m) b = op_entry op" "op \<in> set ops" by blast
  then obtain s t k v where op: "key_of (table m) b = op_entry (s, t, k, v)" "(s, t, k, v) \<in> set ops"
    by (cases op) blast
  have ok: "op_ok (s, t, k, v)" using op(2) ops(2) by blast
  have b_ge: "\<not> entry_cmp (op_entry (s, t, k, v)) (target key snap) < 0"
    using mem_order.behind_not_less [OF sl target_valid [OF snap(2)]] B by (simp add: op(1) [symmetric])
  have "sorted_wrt (\<lambda>a b. entry_cmp (key_of (table m) a) (key_of (table m) b) < 0) (?A @ ?B)"
    using sl by (simp add: sl_inv_def mem_order.split_nodes)
  then have b_first: "\<forall>a \<in> set bs. entry_cmp (op_entry (s, t, k, v)) (key_of (table m) a) < 0"
    unfolding B by (simp add: sorted_wrt_append op(1))
  have vis: "op' = (s, t, k, v) \<or> entry_cmp (op_entry (s, t, k, v)) (op_entry op') < 0 \<or> op_entry op' = op_entry (s, t, k, v)"
    if "op' \<in> set (visible ops key snap)" for op'
    using behind [OF that] b_first op(1) unfolding B by auto
  show "\<exists>s t k v. (s, t, k, v) \<in> set ops \<and> key_of (table m) b = op_entry (s, t, k, v) \<and>
         (if k = key then visible ops key snap \<noteq> [] \<and> last (visible ops key snap) = (s, t, k, v)
          else visible ops key snap = [])"
  proof (cases "k = key")
    case True
    then have "PackSequenceAndType s t \<le> PackSequenceAndType snap kTypeValue"
      using b_ge ok snap(2) by (auto simp: entry_cmp_target split: if_splits)
    then have "s \<le> snap" using ok snap(1) by (subst (asm) Pack_le(1)) (auto simp: op_ok_def)
    then have mem: "(s, t, k, v) \<in> set (visible ops key snap)" using op(2) True by (simp add: visible_def)
    have "fst op' \<le> s" if "op' \<in> set (visible ops key snap)" for op'
    proof -
      note vk = visible_key [OF that]
      obtain s' t' v' where op': "op' = (s', t', key, v')" using vk by blast
      have ok': "op_ok (s', t', key, v')" using that ops(2) by (auto simp: visible_def op')
      have "PackSequenceAndType s' t' \<le> PackSequenceAndType s t"
        using vis [OF that] ok ok' True entry_parts [OF ok] entry_parts [OF ok']
        by (auto simp: op' entry_cmp_entry split: if_splits dest: arg_cong [of _ _ "\<lambda>e. key_tag (fst (prefixed_at e))"])
      then show ?thesis
        using Pack_le(2) [of s s' t t'] ok ok' by (force simp: op' op_ok_def not_le [symmetric])
    qed
    moreover have "sorted_wrt (\<lambda>a b. fst a < fst b) (visible ops key snap)"
      using sorted by (simp add: visible_def sorted_wrt_filter)
    ultimately have "last (visible ops key snap) = (s, t, k, v)"
      using mem by (intro sorted_last [of fst]) auto
    then show ?thesis using op mem True by (intro exI [of _ s] exI [of _ t] exI [of _ k] exI [of _ v]) auto
  next
    case False
    have "visible ops key snap = []"
    proof (rule ccontr)
      assume "visible ops key snap \<noteq> []"
      then obtain op' where m': "op' \<in> set (visible ops key snap)" by (meson list.set_sel(1))
      then obtain s' t' v' where op': "op' = (s', t', key, v')" using visible_key by blast
      have ok': "op_ok (s', t', key, v')" using m' ops(2) by (auto simp: visible_def op')
      have "op_entry op' \<noteq> op_entry (s, t, k, v)"
        using entry_parts [OF ok] entry_parts [OF ok'] False op' by (metis key_parts(1) fst_conv)
      then have "entry_cmp (op_entry (s, t, k, v)) (op_entry op') < 0" using vis [OF m'] by auto
      then have "Slice_compare k key < 0" using False ok ok' by (simp add: op' entry_cmp_entry)
      then show False using b_ge False ok snap(2) by (simp add: entry_cmp_target)
    qed
    then show ?thesis using op False by (intro exI [of _ s] exI [of _ t] exI [of _ k] exI [of _ v]) auto
  qed
qed

lemma MemTable_Get_spec:
  assumes inv: "mem_inv m ns ops" and sorted: "sorted_wrt (\<lambda>a b. fst a < fst b) ops"
    and snap: "snap \<le> kMaxSequenceNumber" "length key + 8 < 2 ^ 32"
  shows "MemTable_Get m (make_LookupKey key snap) dflt st = Some (lookup_spec ops key snap dflt st)"
proof -
  have sl: "sl_inv entry_cmp entry_valid (table m) ns" "user_cmp m = BytewiseComparator"
    and ok: "\<forall>op \<in> set ops. op_ok op"
    using inv by (simp_all add: mem_inv_def)
  obtain pv where find: "FindGreaterOrEqual entry_cmp (table m) (target key snap) [] =
      Some (case mem_order.behind (table m) ns (target key snap) of [] \<Rightarrow> None | b # _ \<Rightarrow> Some b, pv)"
    using mem_order.FindGreaterOrEqual_inv [OF sl(1) target_valid [OF snap(2), of snap], of "[]"] by auto
  show ?thesis
  proof (cases "mem_order.behind (table m) ns (target key snap)")
    case Nil
    then show ?thesis using first_not_less(1) [OF assms Nil] find sl(2)
      by (simp add: MemTable_Get_def Iter_Seek_def target_def lookup_spec_def)
  next
    case (Cons b bs)
    obtain s t k v where op: "(s, t, k, v) \<in> set ops" "key_of (table m) b = op_entry (s, t, k, v)"
        "if k = key then visible ops key snap \<noteq> [] \<and> last (visible ops key snap) = (s, t, k, v) else visible ops key snap = []"
      using first_not_less(2) [OF assms Cons] by blast
    have okb: "op_ok (s, t, k, v)" using ok op(1) by blast
    have val: "fst (prefixed_at (EncodeVarint32 (of_nat (length v)) @ v)) = v"
      using prefixed_at_Encode [of v "[]"] okb by (simp add: op_ok_def)
    have parts: "take (length (PutFixed64 k u) - 8) (PutFixed64 k u) = k" "DecodeFixed64 True (drop (length (PutFixed64 k u) - 8) (PutFixed64 k u)) = u" for u
      using key_parts [of k u] by (simp_all add: ExtractUserKey_def key_tag_def)
    have code: "PackSequenceAndType s t AND 0xff = type_code t" using okb Pack_parts(1) by (simp add: op_ok_def)
    have "MemTable_Get m (make_LookupKey key snap) dflt st =
        Some (if k = key then if t = kTypeValue then (True, v, st) else (True, dflt, NotFound [] []) else (False, dflt, st))"
      using find Cons sl(2) op(2) entry_parts [OF okb] val parts [of "PackSequenceAndType s t"] code
      by (cases t) (auto simp: MemTable_Get_def Iter_Seek_def target_def Iter_key_def Let_def user_key_eq BytewiseComparator_def Slice_compare_eq_0)
    then show ?thesis using op(3) by (cases t) (auto simp: lookup_spec_def)
  qed
qed

text \<open>C11: The memtable is a multi-version map. After operations with increasing sequence numbers have been added, every
  lookup returns, and gives the last operation on the key that is not newer than the snapshot: its value, or the status
  \<^verbatim>\<open>NotFound\<close> for a deletion; where there is none it reports that the key is not in the table and leaves the
  value and the status of the caller alone.\<close>

theorem memtable_lookup:
  assumes "sorted_wrt (\<lambda>a b. fst a < fst b) ops" "\<forall>op \<in> set ops. op_ok op"
    and "snap \<le> kMaxSequenceNumber" "length key + 8 < 2 ^ 32"
  shows "\<exists>m. add_operations ops (MemTable_new BytewiseComparator) = Some m \<and>
     MemTable_Get m (make_LookupKey key snap) dflt st = Some (lookup_spec ops key snap dflt st)"
  using add_operations_inv [OF mem_inv_new, of ops] assms MemTable_Get_spec [OF _ assms(1,3,4)] by fastforce

theorem memtable_lookup_witness:
  "\<exists>m. add_operations [(1, kTypeValue, [5], [9]), (2, kTypeDeletion, [5], []), (3, kTypeValue, [5], [8])]
         (MemTable_new BytewiseComparator) = Some m \<and>
       MemTable_Get m (make_LookupKey [5] 2) [] OK = Some (True, [], NotFound [] [])"
  using memtable_lookup [where ops = "[(1, kTypeValue, [5], [9]), (2, kTypeDeletion, [5], []), (3, kTypeValue, [5], [8])]"
      and snap = 2 and key = "[5]" and dflt = "[]" and st = OK]
  by (simp add: op_ok_def kMaxSequenceNumber_def lookup_spec_def visible_def)

end
