(* ===== verification/LdbBatch.thy ===== *)
theory LdbBatch
  imports LdbMemProps
begin

text \<open>
  Write batches (\<^verbatim>\<open>db/write_batch.cc\<close>): the operations of one atomic write, encoded in one string behind a header
  of a sequence number and a count, and replayed to a handler. A handler is the record of its virtual
  methods on its state; a method that does not return is \<open>None\<close>.
\<close>

type_synonym WriteBatch = "byte list"

definition kHeader :: nat where
  "kHeader = 12"

definition Batch_Clear :: WriteBatch where
  "Batch_Clear = replicate kHeader 0"

text \<open>The count is a \<^verbatim>\<open>uint32_t\<close> in the header and an \<^verbatim>\<open>int\<close> outside.\<close>

definition Batch_Count :: "WriteBatch \<Rightarrow> int" where
  "Batch_Count rep = sint (DecodeFixed32 True (drop 8 rep))"

definition Batch_SetCount :: "WriteBatch \<Rightarrow> int \<Rightarrow> WriteBatch" where
  "Batch_SetCount rep n = take 8 rep @ EncodeFixed32 True (of_int n) @ drop 12 rep"

definition Batch_Sequence :: "WriteBatch \<Rightarrow> SequenceNumber" where
  "Batch_Sequence rep = DecodeFixed64 True rep"

definition Batch_SetSequence :: "WriteBatch \<Rightarrow> SequenceNumber \<Rightarrow> WriteBatch" where
  "Batch_SetSequence rep s = EncodeFixed64 True s @ drop 8 rep"

definition Batch_Put :: "WriteBatch \<Rightarrow> slice \<Rightarrow> slice \<Rightarrow> WriteBatch" where
  "Batch_Put rep key val =
     (let rep = Batch_SetCount rep (Batch_Count rep + 1);
          rep = rep @ [ucast (type_code kTypeValue)];
          rep = PutLengthPrefixedSlice rep key
      in PutLengthPrefixedSlice rep val)"

definition Batch_Delete :: "WriteBatch \<Rightarrow> slice \<Rightarrow> WriteBatch" where
  "Batch_Delete rep key =
     (let rep = Batch_SetCount rep (Batch_Count rep + 1);
          rep = rep @ [ucast (type_code kTypeDeletion)]
      in PutLengthPrefixedSlice rep key)"

definition Batch_Contents :: "WriteBatch \<Rightarrow> slice" where
  "Batch_Contents rep = rep"

definition Batch_SetContents :: "slice \<Rightarrow> WriteBatch" where
  "Batch_SetContents contents = contents"

definition Batch_Append :: "WriteBatch \<Rightarrow> WriteBatch \<Rightarrow> WriteBatch" where
  "Batch_Append dst src = Batch_SetCount dst (Batch_Count dst + Batch_Count src) @ drop kHeader src"

section \<open>Replay\<close>

record 'h Handler =
  on_Put :: "slice \<Rightarrow> slice \<Rightarrow> 'h \<Rightarrow> 'h option"
  on_Delete :: "slice \<Rightarrow> 'h \<Rightarrow> 'h option"

lemma GetLengthPrefixedSlice_shorter: "length (snd (GetLengthPrefixedSlice p)) \<le> length p"
  by (auto simp: GetLengthPrefixedSlice_def GetVarint32_def GetVarint32Ptr_fallback split: option.splits
      dest!: GetVarint32_loop_shorter)

text \<open>One record: the rest of the input and the state of the handler, or the status of an early return.\<close>

definition Iterate_record :: "'h Handler \<Rightarrow> slice \<Rightarrow> 'h \<Rightarrow> ((Status + slice) \<times> 'h) option" where
  "Iterate_record H input h =
     (let tag = input ! 0; input = drop 1 input
      in if tag = ucast (type_code kTypeValue) then
           (case GetLengthPrefixedSlice input of
              (Some key, input) \<Rightarrow>
                (case GetLengthPrefixedSlice input of
                   (Some val, input) \<Rightarrow> map_option (\<lambda>h. (Inr input, h)) (on_Put H key val h)
                 | (None, input) \<Rightarrow> Some (Inl (Corruption (bytes_of ''bad WriteBatch Put'') []), h))
            | (None, input) \<Rightarrow> Some (Inl (Corruption (bytes_of ''bad WriteBatch Put'') []), h))
         else if tag = ucast (type_code kTypeDeletion) then
           (case GetLengthPrefixedSlice input of
              (Some key, input) \<Rightarrow> map_option (\<lambda>h. (Inr input, h)) (on_Delete H key h)
            | (None, input) \<Rightarrow> Some (Inl (Corruption (bytes_of ''bad WriteBatch Delete'') []), h))
         else Some (Inl (Corruption (bytes_of ''unknown WriteBatch tag'') []), h))"

lemma Iterate_record_shorter:
  assumes "Iterate_record H input h = Some (Inr input', h')" "input \<noteq> []"
  shows "length input' < length input"
proof -
  obtain tag rest where input: "input = tag # rest" using assms(2) by (cases input) auto
  have "length (snd (GetLengthPrefixedSlice rest)) \<le> length rest"
    "length (snd (GetLengthPrefixedSlice (snd (GetLengthPrefixedSlice rest)))) \<le> length (snd (GetLengthPrefixedSlice rest))"
    by (simp_all add: GetLengthPrefixedSlice_shorter)
  then show ?thesis using assms(1)
    by (auto simp: Iterate_record_def Let_def input split: if_splits prod.splits option.splits)
qed

function Iterate_loop :: "'h Handler \<Rightarrow> slice \<Rightarrow> int \<Rightarrow> 'h \<Rightarrow> ((Status + int) \<times> 'h) option" where
  "Iterate_loop H input found h =
     (if input = [] then Some (Inr found, h)
      else case Iterate_record H input h of
             None \<Rightarrow> None
           | Some (Inl s, h) \<Rightarrow> Some (Inl s, h)
           | Some (Inr input, h) \<Rightarrow> Iterate_loop H input (found + 1) h)"
  by pat_completeness auto
termination
  by (relation "measure (\<lambda>(H, input, found, h). length input)") (auto intro: Iterate_record_shorter)

declare Iterate_loop.simps [simp del]

definition Batch_Iterate :: "'h Handler \<Rightarrow> WriteBatch \<Rightarrow> 'h \<Rightarrow> (Status \<times> 'h) option" where
  "Batch_Iterate H rep h =
     (if length rep < kHeader then Some (Corruption (bytes_of ''malformed WriteBatch (too small)'') [], h)
      else case Iterate_loop H (drop kHeader rep) 0 h of
             None \<Rightarrow> None
           | Some (Inl s, h) \<Rightarrow> Some (s, h)
           | Some (Inr found, h) \<Rightarrow>
               Some (if found \<noteq> Batch_Count rep then Corruption (bytes_of ''WriteBatch has wrong count'') [] else OK, h))"

record MemTableInserter =
  sequence :: SequenceNumber
  mem :: MemTable

definition MemTableInserter_handler :: "MemTableInserter Handler" where
  "MemTableInserter_handler =
     \<lparr>on_Put = (\<lambda>key val this. map_option (\<lambda>m. this\<lparr>mem := m, sequence := sequence this + 1\<rparr>)
                                   (MemTable_Add (sequence this) kTypeValue key val (mem this))),
      on_Delete = (\<lambda>key this. map_option (\<lambda>m. this\<lparr>mem := m, sequence := sequence this + 1\<rparr>)
                                 (MemTable_Add (sequence this) kTypeDeletion key [] (mem this)))\<rparr>"

definition Batch_InsertInto :: "WriteBatch \<Rightarrow> MemTable \<Rightarrow> (Status \<times> MemTable) option" where
  "Batch_InsertInto b memtable =
     map_option (\<lambda>(s, this). (s, mem this))
       (Batch_Iterate MemTableInserter_handler b \<lparr>sequence = Batch_Sequence b, mem = memtable\<rparr>)"

section \<open>What a batch holds\<close>

datatype batch_op = Put slice slice | Delete slice

fun record_bytes :: "batch_op \<Rightarrow> byte list" where
  "record_bytes (Put k v) = 1 # PutLengthPrefixedSlice [] k @ PutLengthPrefixedSlice [] v"
| "record_bytes (Delete k) = 0 # PutLengthPrefixedSlice [] k"

fun apply_op :: "WriteBatch \<Rightarrow> batch_op \<Rightarrow> WriteBatch" where
  "apply_op rep (Put k v) = Batch_Put rep k v"
| "apply_op rep (Delete k) = Batch_Delete rep k"

definition batch_of :: "batch_op list \<Rightarrow> WriteBatch" where
  "batch_of ops = foldl apply_op Batch_Clear ops"

fun op_short :: "batch_op \<Rightarrow> bool" where
  "op_short (Put k v) \<longleftrightarrow> length k < 2 ^ 32 \<and> length v < 2 ^ 32"
| "op_short (Delete k) \<longleftrightarrow> length k < 2 ^ 32"

text \<open>The specification of the replay: the methods of the handler, one after the other.\<close>

fun handle :: "'h Handler \<Rightarrow> batch_op \<Rightarrow> 'h \<Rightarrow> 'h option" where
  "handle H (Put k v) h = on_Put H k v h"
| "handle H (Delete k) h = on_Delete H k h"

fun handle_all :: "'h Handler \<Rightarrow> batch_op list \<Rightarrow> 'h \<Rightarrow> 'h option" where
  "handle_all H [] h = Some h"
| "handle_all H (p # ps) h = (case handle H p h of None \<Rightarrow> None | Some h \<Rightarrow> handle_all H ps h)"

text \<open>A batch with a sequence number, a number of operations, and their bytes.\<close>

definition batch_bytes :: "SequenceNumber \<Rightarrow> nat \<Rightarrow> byte list \<Rightarrow> WriteBatch" where
  "batch_bytes s n body = EncodeFixed64 True s @ EncodeFixed32 True (of_nat n) @ body"

lemma length_EncodeFixed [simp]: "length (EncodeFixed64 l s) = 8" "length (EncodeFixed32 l v) = 4"
  by (simp_all add: EncodeFixed64_portable EncodeFixed32_portable)

lemma batch_bytes_parts [simp]:
  "drop 8 (batch_bytes s n body) = EncodeFixed32 True (of_nat n) @ body" "take 8 (batch_bytes s n body) = EncodeFixed64 True s"
  "drop 12 (batch_bytes s n body) = body" "length (batch_bytes s n body) = 12 + length body"
  "Batch_Sequence (batch_bytes s n body) = s"
  by (simp_all add: batch_bytes_def Batch_Sequence_def DecodeFixed64_Encode)

lemma Batch_Count_bytes: "n < 2 ^ 31 \<Longrightarrow> Batch_Count (batch_bytes s n body) = int n"
  by (simp add: Batch_Count_def DecodeFixed32_Encode sint_uint unsigned_of_nat signed_take_bit_int_eq_self
      take_bit_nat_eq_self)

lemma Batch_SetCount_bytes: "Batch_SetCount (batch_bytes s n body) (int m) = batch_bytes s m body"
  by (simp add: Batch_SetCount_def batch_bytes_def)

lemma Batch_SetSequence_bytes: "Batch_SetSequence (batch_bytes s n body) s' = batch_bytes s' n body"
  by (simp add: Batch_SetSequence_def batch_bytes_def)

lemma batch_bytes_append: "batch_bytes s n body @ x = batch_bytes s n (body @ x)"
  by (simp add: batch_bytes_def)

lemma le_bytes_0: "le_bytes n 0 = replicate n 0"
  by (induction n) simp_all

lemma Batch_Clear_bytes: "Batch_Clear = batch_bytes 0 0 []"
  by (simp add: Batch_Clear_def kHeader_def batch_bytes_def EncodeFixed64_portable EncodeFixed32_portable
      le_bytes_0 replicate_add [symmetric])

lemma record_bytes_not_Nil [simp]: "record_bytes p \<noteq> []"
  by (cases p) simp_all

lemma apply_op_bytes: "n < 2 ^ 31 - 1 \<Longrightarrow> apply_op (batch_bytes s n body) p = batch_bytes s (Suc n) (body @ record_bytes p)"
proof -
  assume n: "n < 2 ^ 31 - 1"
  have "Batch_SetCount (batch_bytes s n body) (Batch_Count (batch_bytes s n body) + 1) = batch_bytes s (Suc n) body"
    using n Batch_Count_bytes [of n s body] Batch_SetCount_bytes [of s n body "Suc n"] by (simp add: add.commute)
  then show ?thesis
    using Put_append(5) by (cases p) (simp_all add: Batch_Put_def Batch_Delete_def Let_def batch_bytes_append
        PutLengthPrefixedSlice_def PutVarint32_def)
qed

lemma foldl_apply_op:
  "n + length ops < 2 ^ 31 \<Longrightarrow> foldl apply_op (batch_bytes s n body) ops =
     batch_bytes s (n + length ops) (body @ concat (map record_bytes ops))"
  by (induction ops arbitrary: n body) (simp_all add: apply_op_bytes)

lemma batch_of_bytes: "length ops < 2 ^ 31 \<Longrightarrow> batch_of ops = batch_bytes 0 (length ops) (concat (map record_bytes ops))"
  using foldl_apply_op [of 0 ops 0 "[]"] by (simp add: batch_of_def Batch_Clear_bytes)

lemma Iterate_record_bytes:
  assumes "op_short p"
  shows "Iterate_record H (record_bytes p @ rest) h = map_option (\<lambda>h. (Inr rest, h)) (handle H p h)"
  using assms GetLengthPrefixedSlice_Put
  by (cases p) (simp_all add: Iterate_record_def Let_def)

lemma Iterate_loop_bytes:
  "\<forall>p \<in> set ops. op_short p \<Longrightarrow> Iterate_loop H (concat (map record_bytes ops)) found h =
     map_option (\<lambda>h. (Inr (found + int (length ops)), h)) (handle_all H ops h)"
proof (induction ops arbitrary: found h)
  case (Cons p ops)
  show ?case using Cons
    by (simp add: Iterate_loop.simps [of H "record_bytes p @ concat (map record_bytes ops)"] Iterate_record_bytes
        add.assoc split: option.splits)
qed (simp add: Iterate_loop.simps)

lemma Batch_Iterate_bytes:
  assumes "length ops < 2 ^ 31" "\<forall>p \<in> set ops. op_short p" "n < 2 ^ 31"
  shows "Batch_Iterate H (batch_bytes s n (concat (map record_bytes ops))) h =
     map_option (\<lambda>h. (if n = length ops then OK else Corruption (bytes_of ''WriteBatch has wrong count'') [], h))
       (handle_all H ops h)"
  using assms Iterate_loop_bytes [of ops H 0 h]
  by (simp add: Batch_Iterate_def kHeader_def Batch_Count_bytes split: option.splits)

text \<open>C22: Writing a batch and replaying it are inverse. A batch built with \<^verbatim>\<open>Put\<close> and \<^verbatim>\<open>Delete\<close> calls the handler with
  exactly these operations in order and reports success, whatever the handler does, and \<^verbatim>\<open>Append\<close> concatenates
  batches.\<close>

theorem batch_replay:
  assumes "length (ps @ qs) < 2 ^ 31" "\<forall>p \<in> set (ps @ qs). op_short p"
  shows "Batch_Iterate H (batch_of (ps @ qs)) h = map_option (\<lambda>h. (OK, h)) (handle_all H (ps @ qs) h) \<and>
         Batch_Append (batch_of ps) (batch_of qs) = batch_of (ps @ qs)"
proof -
  have "Batch_Count (batch_of ps) + Batch_Count (batch_of qs) = int (length (ps @ qs))"
    using assms(1) by (simp add: batch_of_bytes Batch_Count_bytes)
  then have "Batch_Append (batch_of ps) (batch_of qs) = batch_of (ps @ qs)"
    using assms(1) by (simp add: Batch_Append_def batch_of_bytes kHeader_def Batch_SetCount_bytes [of _ _ _ "length ps + length qs", simplified] batch_bytes_append)
  then show ?thesis using Batch_Iterate_bytes [OF assms assms(1), of H 0 h] assms(1) by (simp add: batch_of_bytes)
qed

theorem batch_replay_witness:
  "Batch_Iterate \<lparr>on_Put = (\<lambda>k v h. Some (h @ [(k, v)])), on_Delete = (\<lambda>k h. Some (h @ [(k, [])]))\<rparr>
     (batch_of ([Put [1] [2]] @ [Delete [1]])) [] = Some (OK, [([1], [2]), ([1], [])])"
  using batch_replay [of "[Put [1] [2]]" "[Delete [1]]"
      "\<lparr>on_Put = (\<lambda>k v h. Some (h @ [(k, v)])), on_Delete = (\<lambda>k h. Some (h @ [(k, [])]))\<rparr>" "[]"] by simp

section \<open>Batches in a memtable\<close>

fun number_ops :: "SequenceNumber \<Rightarrow> batch_op list \<Rightarrow> operation list" where
  "number_ops s [] = []"
| "number_ops s (Put k v # ps) = (s, kTypeValue, k, v) # number_ops (s + 1) ps"
| "number_ops s (Delete k # ps) = (s, kTypeDeletion, k, []) # number_ops (s + 1) ps"

lemma handle_all_inserter:
  "handle_all MemTableInserter_handler ps \<lparr>sequence = s, mem = m\<rparr> =
     map_option (\<lambda>m. \<lparr>sequence = s + of_nat (length ps), mem = m\<rparr>) (add_operations (number_ops s ps) m)"
proof (induction s ps arbitrary: m rule: number_ops.induct)
  case (2 s k v ps)
  then show ?case by (simp add: MemTableInserter_handler_def add.assoc option.map_comp comp_def split: option.splits)
next
  case (3 s k ps)
  then show ?case by (simp add: MemTableInserter_handler_def add.assoc option.map_comp comp_def split: option.splits)
qed (simp add: option.map_comp comp_def)

lemma Batch_InsertInto_bytes:
  assumes "length ps < 2 ^ 31" "\<forall>p \<in> set ps. op_short p"
  shows "Batch_InsertInto (batch_bytes s (length ps) (concat (map record_bytes ps))) m =
     map_option (\<lambda>m. (OK, m)) (add_operations (number_ops s ps) m)"
  using assms by (simp add: Batch_InsertInto_def Batch_Iterate_bytes handle_all_inserter option.map_comp comp_def)

lemma length_number_ops [simp]: "length (number_ops s ps) = length ps"
  by (induction s ps rule: number_ops.induct) simp_all

lemma number_ops_append: "number_ops s (ps @ qs) = number_ops s ps @ number_ops (s + of_nat (length ps)) qs"
  by (induction s ps rule: number_ops.induct) (simp_all add: add.assoc)

lemma number_ops_nth: "i < length ps \<Longrightarrow> fst (number_ops s ps ! i) = s + of_nat i"
proof (induction s ps arbitrary: i rule: number_ops.induct)
  case (2 s k v ps)
  then show ?case by (cases i) (simp_all add: add.assoc)
next
  case (3 s k ps)
  then show ?case by (cases i) (simp_all add: add.assoc)
qed simp

lemma number_ops_unat:
  assumes "unat s + length ps \<le> 2 ^ 56" "i < length ps"
  shows "unat (fst (number_ops s ps ! i)) = unat s + i"
proof -
  have "unat (of_nat i :: u64) = i" using assms by (simp add: unsigned_of_nat take_bit_nat_eq_self)
  then show ?thesis using assms by (simp add: number_ops_nth unat_word_ariths)
qed

lemma number_ops_sorted:
  "unat s + length ps \<le> 2 ^ 56 \<Longrightarrow> sorted_wrt (\<lambda>a b. fst a < fst b) (number_ops s ps)"
  by (simp add: sorted_wrt_iff_nth_less word_less_nat_alt number_ops_unat)

text \<open>Keys must leave room for the eight bytes of the sequence number and the type.\<close>

fun op_fits :: "batch_op \<Rightarrow> bool" where
  "op_fits (Put k v) \<longleftrightarrow> length k + 8 < 2 ^ 32 \<and> length v < 2 ^ 32"
| "op_fits (Delete k) \<longleftrightarrow> length k + 8 < 2 ^ 32"

lemma op_fits_short: "op_fits p \<Longrightarrow> op_short p"
  by (cases p) simp_all

lemma number_ops_fields:
  "op \<in> set (number_ops s ps) \<Longrightarrow> \<forall>p \<in> set ps. op_fits p \<Longrightarrow>
     case op of (_, t, k, v) \<Rightarrow> length k + 8 < 2 ^ 32 \<and> length v < 2 ^ 32"
  by (induction s ps rule: number_ops.induct) auto

lemma number_ops_ok:
  assumes "unat s + length ps \<le> 2 ^ 56" "\<forall>p \<in> set ps. op_fits p"
  shows "\<forall>op \<in> set (number_ops s ps). op_ok op"
proof
  fix op
  assume op: "op \<in> set (number_ops s ps)"
  then obtain i where "i < length ps" "number_ops s ps ! i = op" by (auto simp: in_set_conv_nth)
  then have "unat (fst op) < 2 ^ 56" using number_ops_unat [OF assms(1), of i] assms(1) by simp
  then have "fst op \<le> kMaxSequenceNumber" by (simp add: kMaxSequenceNumber_def word_le_nat_alt)
  then show "op_ok op" using number_ops_fields [OF op assms(2)] by (auto simp: op_ok_def)
qed

end
