(* ===== verification/LdbMemTables.thy ===== *)
theory LdbMemTables
  imports LdbBatch
begin

text \<open>
  Lookups in several memtables: when the operations of a list are split over memtables, searching the newest first finds the last
  operation that is visible, and goes on to whatever is behind them when there is none.
\<close>

section \<open>Lookups in parts\<close>

lemma visible_append: "visible (xs @ ys) key snap = visible xs key snap @ visible ys key snap"
  by (simp add: visible_def)

lemma lookup_found [simp]: "fst (lookup_spec ops key snap v st) \<longleftrightarrow> visible ops key snap \<noteq> []"
  by (auto simp: lookup_spec_def split: prod.splits ValueType.splits)

lemma lookup_someE:
  assumes "visible ops key snap \<noteq> []"
  obtains v' st' where "lookup_spec ops key snap v st = (True, v', st')"
  using lookup_found [of ops key snap v st] assms by (cases "lookup_spec ops key snap v st") auto

lemma lookup_none: "visible ops key snap = [] \<Longrightarrow> lookup_spec ops key snap v st = (False, v, st)"
  by (simp add: lookup_spec_def)

lemma lookup_append:
  "lookup_spec (xs @ ys) key snap v st =
     (if visible ys key snap = [] then lookup_spec xs key snap v st else lookup_spec ys key snap v st)"
  by (simp add: lookup_spec_def visible_append)

text \<open>The result of \<^verbatim>\<open>Get\<close> on a list of operations, with \<open>rest\<close> behind it.\<close>

definition lookup_or ::
    "operation list \<Rightarrow> slice \<Rightarrow> SequenceNumber \<Rightarrow> slice \<Rightarrow> (Status \<times> slice) option \<Rightarrow> (Status \<times> slice) option" where
  "lookup_or ops key snap v rest = (case lookup_spec ops key snap v OK of (found, v', st) \<Rightarrow> if found then Some (st, v') else rest)"

definition DB_lookup :: "operation list \<Rightarrow> slice \<Rightarrow> SequenceNumber \<Rightarrow> slice \<Rightarrow> Status \<times> slice" where
  "DB_lookup ops key snap v =
     (case lookup_spec ops key snap v OK of (found, v', st) \<Rightarrow> if found then (st, v') else (NotFound [] [], v))"

lemma lookup_or_NotFound: "lookup_or ops key snap v (Some (NotFound [] [], v)) = Some (DB_lookup ops key snap v)"
  by (simp add: lookup_or_def DB_lookup_def split: prod.split)

lemma lookup_or_none: "visible ops key snap = [] \<Longrightarrow> lookup_or ops key snap v rest = rest"
  by (simp add: lookup_or_def lookup_none)

lemma lookup_or_append: "lookup_or (xs @ ys) key snap v rest = lookup_or ys key snap v (lookup_or xs key snap v rest)"
proof (cases "visible ys key snap = []")
  case False
  obtain v' st where "lookup_spec ys key snap v OK = (True, v', st)" by (rule lookup_someE [OF False])
  then show ?thesis using False by (simp add: lookup_or_def lookup_append)
qed (simp add: lookup_or_def lookup_append lookup_none)

lemma lookup_or_Nil [simp]: "lookup_or [] key snap v rest = rest"
  by (simp add: lookup_or_def lookup_spec_def visible_def)

section \<open>Memtables and their operations\<close>

definition mem_has :: "MemTable \<Rightarrow> operation list \<Rightarrow> bool" where
  "mem_has m ops \<longleftrightarrow> (\<exists>ns. mem_inv m ns ops)"

definition mems_have :: "MemTable list \<Rightarrow> operation list \<Rightarrow> bool" where
  "mems_have ms ops \<longleftrightarrow> (\<exists>segs. concat segs = ops \<and> list_all2 mem_has ms segs)"

lemma mems_have_Nil [simp]: "mems_have [] ops \<longleftrightarrow> ops = []"
  by (auto simp: mems_have_def)

lemma mems_have_snoc: "mems_have ms xs \<Longrightarrow> mem_has m ys \<Longrightarrow> mems_have (ms @ [m]) (xs @ ys)"
  by (auto simp: mems_have_def intro: exI [of _ "segs @ [ys]" for segs] list_all2_appendI)

lemma mems_have_append: "mems_have ms xs \<Longrightarrow> mems_have ms' ys \<Longrightarrow> mems_have (ms @ ms') (xs @ ys)"
  unfolding mems_have_def by (metis concat_append list_all2_appendI)

lemma mems_have_snocE:
  assumes "mems_have (ms @ [m]) ops"
  obtains xs ys where "ops = xs @ ys" "mems_have ms xs" "mem_has m ys"
  using assms that unfolding mems_have_def by (auto simp: list_all2_append1 list_all2_Cons1) blast

lemma mem_Get:
  assumes "mem_has m ops" "sorted_wrt (\<lambda>a b. fst a < fst b) ops" "snap \<le> kMaxSequenceNumber" "length key + 8 < 2 ^ 32"
  shows "MemTable_Get m (make_LookupKey key snap) v st = Some (lookup_spec ops key snap v st)"
  using assms MemTable_Get_spec by (auto simp: mem_has_def)

text \<open>The search, the newest memtable first.\<close>

fun search_mems :: "MemTable list \<Rightarrow> LookupKey \<Rightarrow> slice \<Rightarrow> (Status \<times> slice) option \<Rightarrow> (Status \<times> slice) option" where
  "search_mems [] k v rest = rest"
| "search_mems (m # ms) k v rest =
     (case MemTable_Get m k v OK of Some (True, v', st) \<Rightarrow> Some (st, v') | _ \<Rightarrow> search_mems ms k v rest)"

lemma search_mems_spec:
  assumes "mems_have ms ops" "sorted_wrt (\<lambda>a b. fst a < fst b) ops" "snap \<le> kMaxSequenceNumber" "length key + 8 < 2 ^ 32"
  shows "search_mems (rev ms) (make_LookupKey key snap) v rest = lookup_or ops key snap v rest"
  using assms(1,2)
proof (induction ms arbitrary: ops rule: rev_induct)
  case (snoc m ms)
  then obtain xs ys where s: "ops = xs @ ys" "mems_have ms xs" "mem_has m ys" by (auto elim: mems_have_snocE)
  have "sorted_wrt (\<lambda>a b. fst a < fst b) xs" "sorted_wrt (\<lambda>a b. fst a < fst b) ys"
    using snoc.prems(2) by (simp_all add: s(1) sorted_wrt_append)
  note IH = snoc.IH [OF s(2) this(1)] and Get = mem_Get [OF s(3) this(2) assms(3,4), of v OK]
  obtain f v' st where l: "lookup_spec ys key snap v OK = (f, v', st)" by (metis prod_cases3)
  then show ?case using IH Get by (cases f) (simp_all add: s(1) lookup_or_append, simp_all add: lookup_or_def)
qed simp

end
