(* ===== verification/LdbRecover.thy ===== *)
theory LdbRecover
  imports LdbLogProps LdbMemTables
begin

text \<open>
  Recovery of a log (\<^verbatim>\<open>DBImpl::RecoverLogFile\<close> in \<^verbatim>\<open>db/db_impl.cc\<close>): every record of the log is a write batch, replayed
  into a memtable. What the code calls outside of the parts modelled here is a parameter: \<open>usage\<close> is
  \<^verbatim>\<open>ApproximateMemoryUsage\<close> and \<open>write_level0\<close> the status of \<^verbatim>\<open>WriteLevel0Table\<close> for a memtable.
\<close>

record DBOptions =
  paranoid_checks :: bool
  reuse_logs :: bool
  write_buffer_size :: nat

text \<open>The state of the function: \<open>level0\<close> lists the memtables handed to \<^verbatim>\<open>WriteLevel0Table\<close>.\<close>

record 's Recovery =
  r_reader :: "'s Reader"
  r_status :: Status
  r_mem :: "MemTable option"
  max_sequence :: SequenceNumber
  compactions :: int
  save_manifest :: bool
  level0 :: "MemTable list"

definition MaybeIgnoreError :: "bool \<Rightarrow> Status \<Rightarrow> Status" where
  "MaybeIgnoreError paranoid s = (if ok s \<or> paranoid then s else OK)"

text \<open>The reporter keeps the first status it is given, and only with paranoid checks.\<close>

definition LogReporter_Corruption :: "bool \<Rightarrow> Status \<Rightarrow> Status \<Rightarrow> Status" where
  "LogReporter_Corruption paranoid s status = (if paranoid \<and> ok status then s else status)"

definition flush_if_full :: "DBOptions \<Rightarrow> (MemTable \<Rightarrow> nat) \<Rightarrow> (MemTable \<Rightarrow> Status) \<Rightarrow> MemTable \<Rightarrow> 's Recovery \<Rightarrow> 's Recovery" where
  "flush_if_full opts usage write_level0 m this =
     (if usage m > write_buffer_size opts
      then this\<lparr>compactions := compactions this + 1, save_manifest := True, level0 := level0 this @ [m],
                r_status := write_level0 m, r_mem := None\<rparr>
      else this)"

definition recover_turn ::
  "'s SequentialFile \<Rightarrow> (u32 \<Rightarrow> string) \<Rightarrow> DBOptions \<Rightarrow> (MemTable \<Rightarrow> nat) \<Rightarrow> (MemTable \<Rightarrow> Status) \<Rightarrow>
   's Recovery \<Rightarrow> 's Recovery option + 's Recovery"
where
  "recover_turn ops unknown opts usage write_level0 this =
     (case ReadRecord ops unknown [] [] (r_reader this) of
        None \<Rightarrow> Inl None
      | Some (good, record, scr, rd) \<Rightarrow>
          let reported = drop (length (reports (r_reader this))) (reports rd);
              this = this\<lparr>r_reader := rd,
                          r_status := fold (\<lambda>(n, s). LogReporter_Corruption (paranoid_checks opts) s) reported (r_status this)\<rparr>
          in if \<not> (good \<and> ok (r_status this)) then Inl (Some this)
             else if length record < 12
             then Inr (this\<lparr>r_status := LogReporter_Corruption (paranoid_checks opts)
                                          (Corruption (bytes_of ''log record too small'') []) (r_status this)\<rparr>)
             else let batch = Batch_SetContents record;
                      m = (case r_mem this of None \<Rightarrow> MemTable_new BytewiseComparator | Some m \<Rightarrow> m)
                  in case Batch_InsertInto batch m of
                       None \<Rightarrow> Inl None
                     | Some (s, m) \<Rightarrow>
                         let this = this\<lparr>r_mem := Some m, r_status := MaybeIgnoreError (paranoid_checks opts) s\<rparr>
                         in if \<not> ok (r_status this) then Inl (Some this)
                            else let last_seq = Batch_Sequence batch + of_int (Batch_Count batch) - 1;
                                     this = (if last_seq > max_sequence this then this\<lparr>max_sequence := last_seq\<rparr> else this);
                                     this = flush_if_full opts usage write_level0 m this
                                 in if \<not> ok (r_status this) then Inl (Some this) else Inr this)"

text \<open>
  \<open>opened\<close> is the result of opening the log for reading. \<open>appendable\<close> is what \<^verbatim>\<open>GetFileSize\<close> and
  \<^verbatim>\<open>NewAppendableFile\<close> give where the last log is to be reused: the size of the file, or \<open>None\<close> for a failure of
  either. The second result is the memtable and the offset at which the log goes on.
\<close>

definition RecoverLogFile ::
  "'s SequentialFile \<Rightarrow> (u32 \<Rightarrow> string) \<Rightarrow> DBOptions \<Rightarrow> (MemTable \<Rightarrow> nat) \<Rightarrow> (MemTable \<Rightarrow> Status) \<Rightarrow> Status + 's \<Rightarrow> u64 option \<Rightarrow>
   bool \<Rightarrow> bool \<Rightarrow> SequenceNumber \<Rightarrow>
   (Status \<times> SequenceNumber \<times> bool \<times> MemTable list \<times> (MemTable \<times> u64) option) option"
where
  "RecoverLogFile ops unknown opts usage write_level0 opened appendable last_log save max_seq =
     (case opened of
        Inl status \<Rightarrow> Some (MaybeIgnoreError (paranoid_checks opts) status, max_seq, save, [], None)
      | Inr f \<Rightarrow>
          Option.bind (Option.bind
            (while_true (recover_turn ops unknown opts usage write_level0)
              \<lparr>r_reader = Reader_new f True True 0, r_status = OK, r_mem = None, max_sequence = max_seq, compactions = 0,
               save_manifest = save, level0 = []\<rparr>) id)
          (\<lambda>this.
            if ok (r_status this) \<and> reuse_logs opts \<and> last_log \<and> compactions this = 0 \<and> appendable \<noteq> None
            then Some (r_status this, max_sequence this, save_manifest this, level0 this,
                       Some (case r_mem this of Some m \<Rightarrow> m | None \<Rightarrow> MemTable_new BytewiseComparator, the appendable))
            else case r_mem this of
                   None \<Rightarrow> Some (r_status this, max_sequence this, save_manifest this, level0 this, None)
                 | Some m \<Rightarrow> if ok (r_status this)
                             then Some (write_level0 m, max_sequence this, True, level0 this @ [m], None)
                             else Some (r_status this, max_sequence this, save_manifest this, level0 this, None)))"

text \<open>
  The loop of \<^verbatim>\<open>DBImpl::Recover\<close> over the logs, which are given in the order of their numbers: the memtables that were written to
  level 0, oldest first, and the memtable that goes on with the last log, if that is reused.
\<close>

fun Recover_logs ::
  "'s SequentialFile \<Rightarrow> (u32 \<Rightarrow> string) \<Rightarrow> DBOptions \<Rightarrow> (MemTable \<Rightarrow> nat) \<Rightarrow> (MemTable \<Rightarrow> Status) \<Rightarrow> ((Status + 's) \<times> u64 option) list \<Rightarrow>
   bool \<Rightarrow> SequenceNumber \<Rightarrow> MemTable list \<Rightarrow>
   (Status \<times> SequenceNumber \<times> bool \<times> MemTable list \<times> (MemTable \<times> u64) option) option"
where
  "Recover_logs ops unknown opts usage write_level0 [] save max_seq tables = Some (OK, max_seq, save, tables, None)"
| "Recover_logs ops unknown opts usage write_level0 ((opened, appendable) # logs) save max_seq tables =
     Option.bind (RecoverLogFile ops unknown opts usage write_level0 opened appendable (logs = []) save max_seq)
       (\<lambda>(s, max_seq, save, ts, reused).
          if \<not> ok s \<or> logs = [] then Some (s, max_seq, save, tables @ ts, reused)
          else Recover_logs ops unknown opts usage write_level0 logs save max_seq (tables @ ts))"

section \<open>Recovery after a crash\<close>

text \<open>The batches of a log, with consecutive sequence numbers from \<open>s\<close> on.\<close>

fun batches_from :: "SequenceNumber \<Rightarrow> batch_op list list \<Rightarrow> slice list" where
  "batches_from s [] = []"
| "batches_from s (g # gs) =
     batch_bytes s (length g) (concat (map record_bytes g)) # batches_from (s + of_nat (length g)) gs"

lemma length_batches_from [simp]: "length (batches_from s gs) = length gs"
  by (induction s gs rule: batches_from.induct) simp_all

lemma take_batches_from: "take i (batches_from s gs) = batches_from s (take i gs)"
proof (induction s gs arbitrary: i rule: batches_from.induct)
  case (2 s g gs)
  then show ?case by (cases i) simp_all
qed simp

definition mem_holds :: "MemTable option \<Rightarrow> operation list \<Rightarrow> bool" where
  "mem_holds m ops \<longleftrightarrow> (case m of None \<Rightarrow> ops = [] | Some m \<Rightarrow> \<exists>ns. mem_inv m ns ops)"

text \<open>The operations behind the first \<open>b\<close> ones, split over the memtables written to level 0 and the one that is being filled.\<close>

definition replayed :: "nat \<Rightarrow> batch_op list \<Rightarrow> MemTable list \<Rightarrow> MemTable option \<Rightarrow> bool" where
  "replayed b ps ms m \<longleftrightarrow> (\<exists>p1 p2. ps = p1 @ p2 \<and> mems_have ms (number_ops (1 + of_nat b) p1) \<and>
     mem_holds m (number_ops (1 + of_nat (b + length p1)) p2))"

lemma insert_group:
  assumes "mem_holds m (number_ops (1 + of_nat b) ps)" "length g < 2 ^ 31" "\<forall>p \<in> set (ps @ g). op_fits p"
    "b + length (ps @ g) < 2 ^ 56"
  shows "\<exists>m'. Batch_InsertInto (batch_bytes (1 + of_nat (b + length ps)) (length g) (concat (map record_bytes g)))
      (case m of None \<Rightarrow> MemTable_new BytewiseComparator | Some m \<Rightarrow> m) = Some (OK, m') \<and>
     mem_holds (Some m') (number_ops (1 + of_nat b) (ps @ g))"
proof -
  let ?m = "case m of None \<Rightarrow> MemTable_new BytewiseComparator | Some m \<Rightarrow> m" and ?s = "1 + of_nat b :: u64"
  have num: "number_ops ?s (ps @ g) = number_ops ?s ps @ number_ops (1 + of_nat (b + length ps)) g"
    by (simp add: number_ops_append add.assoc)
  obtain ns where inv: "mem_inv ?m ns (number_ops ?s ps)"
    using assms(1) mem_inv_new by (cases m) (auto simp: mem_holds_def)
  have "unat ?s = Suc b" using assms(4) by (simp add: unat_word_ariths unsigned_of_nat take_bit_nat_eq_self)
  then have total: "unat ?s + length (ps @ g) \<le> 2 ^ 56" using assms(4) by simp
  have ok: "\<forall>op \<in> set (number_ops ?s (ps @ g)). op_ok op" by (rule number_ops_ok [OF total assms(3)])
  have "sorted_wrt (\<lambda>a b. fst a < fst b) (number_ops ?s (ps @ g))" by (rule number_ops_sorted [OF total])
  then obtain m' ns' where "add_operations (number_ops (1 + of_nat (b + length ps)) g) ?m = Some m'"
      "mem_inv m' ns' (number_ops ?s ps @ number_ops (1 + of_nat (b + length ps)) g)"
    using add_operations_inv [OF inv, of "number_ops (1 + of_nat (b + length ps)) g"] ok unfolding num by auto
  moreover have "\<forall>p \<in> set g. op_short p" using assms(3) op_fits_short by auto
  ultimately show ?thesis using assms(2) unfolding num
    by (auto simp: Batch_InsertInto_bytes mem_holds_def)
qed

lemma replay_group:
  assumes "replayed b ps ms m" "length g < 2 ^ 31" "\<forall>p \<in> set (ps @ g). op_fits p" "b + length (ps @ g) < 2 ^ 56"
  shows "\<exists>m'. Batch_InsertInto (batch_bytes (1 + of_nat (b + length ps)) (length g) (concat (map record_bytes g)))
      (case m of None \<Rightarrow> MemTable_new BytewiseComparator | Some m \<Rightarrow> m) = Some (OK, m') \<and> replayed b (ps @ g) ms (Some m')"
proof -
  obtain p1 p2 where p: "ps = p1 @ p2" "mems_have ms (number_ops (1 + of_nat b) p1)" "mem_holds m (number_ops (1 + of_nat (b + length p1)) p2)"
    using assms(1) by (auto simp: replayed_def)
  obtain m' where "Batch_InsertInto (batch_bytes (1 + of_nat (b + length p1 + length p2)) (length g) (concat (map record_bytes g)))
      (case m of None \<Rightarrow> MemTable_new BytewiseComparator | Some m \<Rightarrow> m) = Some (OK, m')" "mem_holds (Some m') (number_ops (1 + of_nat (b + length p1)) (p2 @ g))"
    using insert_group [OF p(3) assms(2)] assms(3,4) by (auto simp: p(1))
  moreover have "b + length ps = b + length p1 + length p2" by (simp add: p(1))
  ultimately show ?thesis unfolding replayed_def using p(1,2) by (metis append.assoc)
qed

text \<open>The memtable is written to level 0.\<close>

lemma replayed_flush: "replayed b ps ms (Some m) \<Longrightarrow> replayed b ps (ms @ [m]) None"
proof -
  assume "replayed b ps ms (Some m)"
  then obtain p1 p2 where p: "ps = p1 @ p2" "mems_have ms (number_ops (1 + of_nat b) p1)" "mem_has m (number_ops (1 + of_nat (b + length p1)) p2)"
    by (auto simp: replayed_def mem_holds_def mem_has_def)
  then have "mems_have (ms @ [m]) (number_ops (1 + of_nat b) ps)"
    using mems_have_snoc [OF p(2,3)] by (simp add: number_ops_append add.assoc)
  then show "replayed b ps (ms @ [m]) None"
    unfolding replayed_def by (intro exI [of _ ps] exI [of _ "[]"]) (simp add: mem_holds_def)
qed

lemma replayed_none: "replayed b ps ms None \<Longrightarrow> mems_have ms (number_ops (1 + of_nat b) ps)"
proof -
  assume "replayed b ps ms None"
  then obtain p1 p2 where p: "ps = p1 @ p2" "mems_have ms (number_ops (1 + of_nat b) p1)" "number_ops (1 + of_nat (b + length p1)) p2 = []"
    unfolding replayed_def mem_holds_def by auto
  have "p2 = []" using arg_cong [OF p(3), of length] by simp
  then show ?thesis using p by simp
qed

lemma replayed_all: "replayed b ps ms m \<Longrightarrow> mems_have (ms @ (case m of None \<Rightarrow> [] | Some m \<Rightarrow> [m])) (number_ops (1 + of_nat b) ps)"
  using replayed_none [of b ps ms] replayed_none [OF replayed_flush, of b ps ms] by (cases m) simp_all

context sequential_file
begin

lemma recover_turn_none:
  assumes "ReadRecord ops u [] [] (r_reader st) = Some (False, [], s, r')" "reports r' = reports (r_reader st)"
  shows "while_true (recover_turn ops u opts usage w0) st = Some (Some (st\<lparr>r_reader := r'\<rparr>))"
  by (rule while_true_return) (use assms in \<open>simp add: recover_turn_def Let_def\<close>)

lemma recover_turn_one:
  assumes "ReadRecord ops u [] [] (r_reader st) = Some (True, d, s, r')" "reports r' = reports (r_reader st)"
    "r_status st = OK" "12 \<le> length d"
    "Batch_InsertInto d (case r_mem st of None \<Rightarrow> MemTable_new BytewiseComparator | Some m \<Rightarrow> m) = Some (OK, m')"
    "\<forall>m. w0 m = OK"
  shows "while_true (recover_turn ops u opts usage w0) st = while_true (recover_turn ops u opts usage w0)
     (flush_if_full opts usage w0 m' (st\<lparr>r_reader := r', r_mem := Some m',
         max_sequence := max (max_sequence st) (Batch_Sequence d + of_int (Batch_Count d) - 1)\<rparr>))"
proof (rule while_true_turn)
  let ?l = "Batch_Sequence d + of_int (Batch_Count d) - 1"
  have "max (max_sequence st) ?l = (if ?l > max_sequence st then ?l else max_sequence st)"
    by (cases "?l > max_sequence st") (auto simp: max_def)
  then show "recover_turn ops u opts usage w0 st = Inr (flush_if_full opts usage w0 m' (st\<lparr>r_reader := r', r_mem := Some m',
         max_sequence := max (max_sequence st) ?l\<rparr>))"
    using assms
    by (cases st) (simp add: recover_turn_def Let_def MaybeIgnoreError_def flush_if_full_def Batch_SetContents_def)
qed

text \<open>What the loop keeps: how many memtables were written, and whether the manifest must be saved.\<close>

definition counts_ok :: "bool \<Rightarrow> 's Recovery \<Rightarrow> bool" where
  "counts_ok save st \<longleftrightarrow> compactions st = int (length (level0 st)) \<and> (save_manifest st \<longleftrightarrow> save \<or> level0 st \<noteq> [])"

lemma flush_if_full_fields:
  assumes "\<forall>m. w0 m = OK" "r_status st = OK" "replayed b ps (level0 st) (Some m)" "r_mem st = Some m" "counts_ok save st"
  shows "r_status (flush_if_full opts usage w0 m st) = OK" "r_reader (flush_if_full opts usage w0 m st) = r_reader st"
    "max_sequence (flush_if_full opts usage w0 m st) = max_sequence st" "counts_ok save (flush_if_full opts usage w0 m st)"
    "replayed b ps (level0 (flush_if_full opts usage w0 m st)) (r_mem (flush_if_full opts usage w0 m st))"
  using assms replayed_flush [OF assms(3)] by (auto simp: flush_if_full_def counts_ok_def)

text \<open>
  The loop, when \<open>ps\<close> has been replayed and \<open>m\<close> more bytes of the log of \<open>gs\<close> are left; the log begins behind the
  first \<open>b\<close> operations of the database.
\<close>

lemma recover_loop:
  assumes "delivered F p (r_reader st)" "drop p F = take m (log_bytes p (batches_from (1 + of_nat (b + length ps)) gs))"
    "p \<le> length F" "r_status st = OK" "replayed b ps (level0 st) (r_mem st)" "counts_ok save st"
    "\<forall>g \<in> set gs. length g < 2 ^ 31" "\<forall>q \<in> set (ps @ concat gs). op_fits q" "b + length (ps @ concat gs) < 2 ^ 56"
    "\<forall>m. w0 m = OK"
  shows "\<exists>j st'. while_true (recover_turn ops u opts usage w0) st = Some (Some st') \<and> j \<le> length gs \<and>
     r_status st' = OK \<and> replayed b (ps @ concat (take j gs)) (level0 st') (r_mem st') \<and> counts_ok save st' \<and>
     max_sequence st' = (if j = 0 then max_sequence st else max (max_sequence st) (of_nat (b + length (ps @ concat (take j gs))))) \<and>
     (\<forall>i \<le> length gs. length (log_bytes p (batches_from (1 + of_nat (b + length ps)) (take i gs))) \<le> m \<longrightarrow> i \<le> j)"
  using assms
proof (induction gs arbitrary: p st m ps)
  case Nil
  from Nil(1,2,3) show ?case
  proof (cases rule: read_next_record [where u = u and x = "[]" and y = "[]"])
    case (none s r')
    then show ?thesis using Nil recover_turn_none [OF none(1,2)] by (intro exI [of _ 0]) (auto simp: counts_ok_def)
  qed simp
next
  case (Cons g gs)
  let ?s = "1 + of_nat (b + length ps) :: u64"
  from Cons.prems(1,2,3) show ?case
  proof (cases rule: read_next_record [where u = u and x = "[]" and y = "[]"])
    case (none s r')
    have "i = 0" if "i \<le> length (g # gs)" "length (log_bytes p (batches_from ?s (take i (g # gs)))) \<le> m" for i
    proof (rule none(3))
      show "i \<le> length (batches_from ?s (g # gs))" using that(1) by simp
      show "length (log_bytes p (take i (batches_from ?s (g # gs)))) \<le> m"
        using that(2) by (simp only: take_batches_from)
    qed
    then show ?thesis using Cons.prems recover_turn_none [OF none(1,2)] by (intro exI [of _ 0]) (auto simp: counts_ok_def)
  next
    case (one d ds' n s r')
    have d: "d = batch_bytes ?s (length g) (concat (map record_bytes g))" and ds': "ds' = batches_from (?s + of_nat (length g)) gs"
      using one(1) by simp_all
    have short: "length g < 2 ^ 31" using Cons.prems(7) by simp
    obtain m' where m': "Batch_InsertInto d (case r_mem st of None \<Rightarrow> MemTable_new BytewiseComparator | Some m \<Rightarrow> m) = Some (OK, m')"
        "replayed b (ps @ g) (level0 st) (Some m')"
      using replay_group [OF Cons.prems(5) short] Cons.prems(8,9) by (auto simp: d)
    let ?l = "of_nat (b + length (ps @ g)) :: u64"
    have l: "Batch_Sequence d + of_int (Batch_Count d) - 1 = ?l" using short by (simp add: d Batch_Count_bytes add.assoc)
    define st0 where "st0 = st\<lparr>r_reader := r', r_mem := Some m', max_sequence := max (max_sequence st) ?l\<rparr>"
    define st1 where "st1 = flush_if_full opts usage w0 m' st0"
    have "replayed b (ps @ g) (level0 st0) (Some m')" "r_status st0 = OK" "r_mem st0 = Some m'" "counts_ok save st0"
      using m'(2) Cons.prems(4,6) by (simp_all add: st0_def counts_ok_def)
    note st1 = flush_if_full_fields [OF Cons.prems(10) this(2,1,3,4), of opts usage, folded st1_def]
    have turn: "while_true (recover_turn ops u opts usage w0) st = while_true (recover_turn ops u opts usage w0) st1"
      using recover_turn_one [OF one(4,5) Cons.prems(4) _ m'(1) Cons.prems(10)] unfolding l st1_def st0_def by (simp add: d)
    have seq: "?s + of_nat (length g) = 1 + of_nat (b + length (ps @ g))" by simp
    have "\<exists>j st'. while_true (recover_turn ops u opts usage w0) st1 = Some (Some st') \<and> j \<le> length gs \<and>
       r_status st' = OK \<and> replayed b ((ps @ g) @ concat (take j gs)) (level0 st') (r_mem st') \<and> counts_ok save st' \<and>
       max_sequence st' = (if j = 0 then max_sequence st1 else max (max_sequence st1) (of_nat (b + length ((ps @ g) @ concat (take j gs))))) \<and>
       (\<forall>i \<le> length gs. length (log_bytes (p + n) (batches_from (1 + of_nat (b + length (ps @ g))) (take i gs))) \<le> m - n \<longrightarrow> i \<le> j)"
    proof (rule Cons.IH)
      show "drop (p + n) F = take (m - n) (log_bytes (p + n) (batches_from (1 + of_nat (b + length (ps @ g))) gs))"
        using one(7) unfolding ds' seq .
    qed (use one Cons.prems st1 in \<open>simp_all add: st0_def\<close>)
    then obtain j st' where j: "while_true (recover_turn ops u opts usage w0) st1 = Some (Some st')" "j \<le> length gs"
       "r_status st' = OK" "replayed b (ps @ g @ concat (take j gs)) (level0 st') (r_mem st')" "counts_ok save st'"
       "max_sequence st' = (if j = 0 then max_sequence st1 else max (max_sequence st1) (of_nat (b + length ((ps @ g) @ concat (take j gs)))))"
       "\<forall>i \<le> length gs. length (log_bytes (p + n) (batches_from (1 + of_nat (b + length (ps @ g))) (take i gs))) \<le> m - n \<longrightarrow> i \<le> j"
      by auto
    have "i \<le> Suc j" if "i \<le> length (g # gs)" "length (log_bytes p (batches_from ?s (take i (g # gs)))) \<le> m" for i
    proof (cases i)
      case (Suc i')
      have "length (log_bytes (p + n) (batches_from (?s + of_nat (length g)) (take i' gs))) \<le> m - n"
        using that(2) one(2) by (simp add: Suc d [symmetric] del: of_nat_add)
      then have "length (log_bytes (p + n) (batches_from (1 + of_nat (b + length (ps @ g))) (take i' gs))) \<le> m - n"
        unfolding seq .
      then show ?thesis using j(7) that(1) Suc by simp
    qed simp
    moreover have "max_sequence st' = max (max_sequence st) (of_nat (b + length (ps @ concat (take (Suc j) (g # gs)))))"
    proof -
      let ?k = "b + length (ps @ g @ concat (take j gs))"
      have "length (concat (take j gs)) \<le> length (concat gs)" by (metis append_take_drop_id concat_append le_add1 length_append)
      then have "b + length (ps @ g) \<le> ?k" "?k < 2 ^ 64" using Cons.prems(9) by simp_all
      then have "?l \<le> of_nat ?k"
        by (simp add: word_le_nat_alt unsigned_of_nat take_bit_nat_eq_self del: length_append of_nat_add)
      moreover have "max_sequence st1 = max (max_sequence st) ?l" using st1(3) by (simp add: st0_def)
      ultimately show ?thesis using j(6) by (cases "j = 0") (simp_all add: max.assoc max.absorb2 del: of_nat_add)
    qed
    ultimately show ?thesis using j turn by (intro exI [of _ "Suc j"] exI [of _ st']) auto
  qed
qed

end

text \<open>The memtable that is kept for the log that is reused.\<close>

definition kept_mem :: "(MemTable \<times> u64) option \<Rightarrow> MemTable list" where
  "kept_mem reused = (case reused of None \<Rightarrow> [] | Some (m, sz) \<Rightarrow> [m])"

lemma RecoverLogFile_replays:
  assumes gs: "\<forall>g \<in> set gs. length g < 2 ^ 31" "\<forall>q \<in> set (concat gs). op_fits q" "b + length (concat gs) < 2 ^ 56" and w0: "\<forall>m. w0 m = OK"
  shows "\<exists>j ms reused save'. RecoverLogFile PosixSequentialFile unknown opts usage w0
       (Inr (name, \<lparr>disk = take n (log_bytes 0 (batches_from (1 + of_nat b) gs)), pending = [], pos = 0, outcomes = []\<rparr>))
       appendable last_log save max_seq
     = Some (OK, if j = 0 then max_seq else max max_seq (of_nat (b + length (concat (take j gs)))), save', ms, reused) \<and> j \<le> length gs \<and>
     (\<forall>i \<le> length gs. length (log_bytes 0 (batches_from (1 + of_nat b) (take i gs))) \<le> n \<longrightarrow> i \<le> j) \<and>
     (save' \<longleftrightarrow> save \<or> ms \<noteq> []) \<and> (reused \<noteq> None \<longrightarrow> reuse_logs opts \<and> last_log \<and> ms = []) \<and>
     mems_have (ms @ kept_mem reused) (number_ops (1 + of_nat b) (concat (take j gs)))"
proof -
  let ?F = "take n (log_bytes 0 (batches_from (1 + of_nat b) gs))"
  let ?f = "(name, \<lparr>disk = ?F, pending = [], pos = 0, outcomes = []\<rparr>) :: slice \<times> FILE"
  let ?st = "\<lparr>r_reader = Reader_new ?f True True 0, r_status = OK, r_mem = None, max_sequence = max_seq, compactions = 0,
      save_manifest = save, level0 = []\<rparr> :: (slice \<times> FILE) Recovery"
  have "posix_reads ?f ?F 0" by (simp add: posix_reads_def)
  then have start: "posix_in.delivered ?F 0 (r_reader ?st)" by (simp add: posix_in.delivered_start)
  have c: "posix_in.counts_ok save ?st" "replayed b [] (level0 ?st) (r_mem ?st)" by (simp_all add: posix_in.counts_ok_def replayed_def mem_holds_def)
  obtain j st' where j: "while_true (recover_turn PosixSequentialFile unknown opts usage w0) ?st = Some (Some st')"
      "j \<le> length gs" "r_status st' = OK" "replayed b (concat (take j gs)) (level0 st') (r_mem st')" "posix_in.counts_ok save st'"
      "max_sequence st' = (if j = 0 then max_seq else max max_seq (of_nat (b + length (concat (take j gs)))))"
      "\<forall>i \<le> length gs. length (log_bytes 0 (batches_from (1 + of_nat b) (take i gs))) \<le> n \<longrightarrow> i \<le> j"
    using posix_in.recover_loop [OF start, of n b "[]" gs save w0 unknown opts usage] gs w0 c by auto
  have counts: "compactions st' = int (length (level0 st'))" "save_manifest st' \<longleftrightarrow> save \<or> level0 st' \<noteq> []"
    using j(5) by (simp_all add: posix_in.counts_ok_def)
  define ms reused save' where "ms = level0 st' @ (if reuse_logs opts \<and> last_log \<and> level0 st' = [] \<and> appendable \<noteq> None then []
       else case r_mem st' of None \<Rightarrow> [] | Some m \<Rightarrow> [m])"
    and "reused = (if reuse_logs opts \<and> last_log \<and> level0 st' = [] \<and> appendable \<noteq> None
       then Some (case r_mem st' of Some m \<Rightarrow> m | None \<Rightarrow> MemTable_new BytewiseComparator, the appendable) else None)"
    and "save' = (save \<or> ms \<noteq> [])"
  have run: "RecoverLogFile PosixSequentialFile unknown opts usage w0 (Inr ?f) appendable last_log save max_seq
      = Some (OK, max_sequence st', save', ms, reused)"
    using j(1,3) counts w0 by (auto simp: RecoverLogFile_def ms_def reused_def save'_def split: option.split)
  have "mem_has (MemTable_new BytewiseComparator) []" using mem_inv_new by (auto simp: mem_has_def)
  then have "mems_have (ms @ kept_mem reused) (number_ops (1 + of_nat b) (concat (take j gs)))"
    using replayed_all [OF j(4)] mems_have_snoc [OF replayed_none, of b "concat (take j gs)" "level0 st'" "MemTable_new BytewiseComparator" "[]"] j(4)
    by (cases "r_mem st'") (auto simp: ms_def reused_def kept_mem_def)
  then show ?thesis using run j(2,6,7)
    by (intro exI [of _ j] exI [of _ ms] exI [of _ reused] exI [of _ save']) (auto simp: save'_def ms_def reused_def)
qed

lemma complete_log_recovered:
  assumes "D = log_bytes 0 (batches_from (1 + of_nat b) gs)" "\<forall>g \<in> set gs. length g < 2 ^ 31" "\<forall>q \<in> set (concat gs). op_fits q"
    "b + length (concat gs) < 2 ^ 56" "\<forall>m. w0 m = OK"
  shows "\<exists>ms reused save'. RecoverLogFile PosixSequentialFile unknown opts usage w0
       (Inr (name, \<lparr>disk = D, pending = [], pos = 0, outcomes = []\<rparr>)) appendable last_log save max_seq
     = Some (OK, if gs = [] then max_seq else max max_seq (of_nat (b + length (concat gs))), save', ms, reused) \<and>
     (reused \<noteq> None \<longrightarrow> last_log) \<and> mems_have (ms @ kept_mem reused) (number_ops (1 + of_nat b) (concat gs))"
proof -
  obtain j ms reused save' where r: "RecoverLogFile PosixSequentialFile unknown opts usage w0
       (Inr (name, \<lparr>disk = take (length D) D, pending = [], pos = 0, outcomes = []\<rparr>)) appendable last_log save max_seq
     = Some (OK, if j = 0 then max_seq else max max_seq (of_nat (b + length (concat (take j gs)))), save', ms, reused)" "j \<le> length gs"
     "\<forall>i \<le> length gs. length (log_bytes 0 (batches_from (1 + of_nat b) (take i gs))) \<le> length D \<longrightarrow> i \<le> j"
     "reused \<noteq> None \<longrightarrow> reuse_logs opts \<and> last_log \<and> ms = []"
     "mems_have (ms @ kept_mem reused) (number_ops (1 + of_nat b) (concat (take j gs)))"
    using RecoverLogFile_replays [OF assms(2-5), of unknown opts usage name "length D" appendable last_log save max_seq,
        folded assms(1)]
    by (elim exE conjE) (rule that)
  have "j = length gs" using r(2,3) assms(1) by (metis order.refl take_all le_antisym)
  then show ?thesis using r by (intro exI [of _ ms] exI [of _ reused] exI [of _ save']) auto
qed

text \<open>C2: Recovery after a crash, from the bytes of a log through the batches to memtables. Let batches with consecutive sequence
  numbers be written to a log, let a crash keep any number of bytes of it, and let every table that \<^verbatim>\<open>WriteLevel0Table\<close> is asked for be
  written. With any options, any size of the write buffer and whether or not it is the last log, \<^verbatim>\<open>RecoverLogFile\<close> returns with success. The
  memtables that it wrote to level 0 and the one that it keeps when the log is reused, searched newest first, answer every lookup as the
  last visible operation of the first \<open>j\<close> batches does, and what is behind them is asked when there is none; among these batches is every one that
  was completely on disk, and a batch is recovered as a whole or not at all. The last sequence number becomes that of the last operation
  recovered if that is larger, and the manifest is to be saved when a table was written.\<close>

theorem recovery_after_crash:
  assumes gs: "\<forall>g \<in> set gs. length g < 2 ^ 31" "\<forall>q \<in> set (concat gs). op_fits q" "b + length (concat gs) < 2 ^ 56"
    and written: "\<forall>m. wlevel m = OK"
  shows "\<exists>j ms reused save'. RecoverLogFile PosixSequentialFile unknown opts usage wlevel
       (Inr (name, \<lparr>disk = take n (written_log name (batches_from (1 + of_nat b) gs)), pending = [], pos = 0, outcomes = []\<rparr>))
       appendable last_log save max_seq
     = Some (OK, if j = 0 then max_seq else max max_seq (of_nat (b + length (concat (take j gs)))), save', ms, reused) \<and> j \<le> length gs \<and>
     (\<forall>i \<le> length gs. length (written_log name (batches_from (1 + of_nat b) (take i gs))) \<le> n \<longrightarrow> i \<le> j) \<and>
     (save' \<longleftrightarrow> save \<or> ms \<noteq> []) \<and> (reused \<noteq> None \<longrightarrow> reuse_logs opts \<and> last_log \<and> ms = []) \<and>
     (\<forall>key snap dflt rest. snap \<le> kMaxSequenceNumber \<and> length key + 8 < 2 ^ 32 \<longrightarrow>
        search_mems (rev (ms @ kept_mem reused)) (make_LookupKey key snap) dflt rest =
          lookup_or (number_ops (1 + of_nat b) (concat (take j gs))) key snap dflt rest)"
proof -
  obtain j ms reused save' where r: "RecoverLogFile PosixSequentialFile unknown opts usage wlevel
       (Inr (name, \<lparr>disk = take n (log_bytes 0 (batches_from (1 + of_nat b) gs)), pending = [], pos = 0, outcomes = []\<rparr>))
       appendable last_log save max_seq
     = Some (OK, if j = 0 then max_seq else max max_seq (of_nat (b + length (concat (take j gs)))), save', ms, reused)" "j \<le> length gs"
     "\<forall>i \<le> length gs. length (log_bytes 0 (batches_from (1 + of_nat b) (take i gs))) \<le> n \<longrightarrow> i \<le> j"
     "save' \<longleftrightarrow> save \<or> ms \<noteq> []" "reused \<noteq> None \<longrightarrow> reuse_logs opts \<and> last_log \<and> ms = []"
     "mems_have (ms @ kept_mem reused) (number_ops (1 + of_nat b) (concat (take j gs)))"
    using RecoverLogFile_replays [OF gs written, of unknown opts usage name n appendable last_log save max_seq]
    by (elim exE conjE) (rule that)
  have "unat (1 + of_nat b :: u64) = Suc b" using gs(3) by (simp add: unat_word_ariths unsigned_of_nat take_bit_nat_eq_self)
  moreover have "length (concat (take j gs)) \<le> length (concat gs)" by (metis append_take_drop_id concat_append le_add1 length_append)
  ultimately have "unat (1 + of_nat b :: u64) + length (concat (take j gs)) \<le> 2 ^ 56" using gs(3) by linarith
  then have "sorted_wrt (\<lambda>a b. fst a < fst b) (number_ops (1 + of_nat b) (concat (take j gs)))" by (rule number_ops_sorted)
  from search_mems_spec [OF r(6) this] show ?thesis
    using r(1-5) by (intro exI [of _ j] exI [of _ ms] exI [of _ reused] exI [of _ save']) (simp add: written_log_bytes(2))
qed

lemma one_batch_bytes: "length (written_log name (batches_from 1 [[Put [1] [2]]])) = 24"
  by (simp add: written_log_bytes frag_bytes.simps [of 0] trailer_def room_def size_defs Let_def
      PutLengthPrefixedSlice_def PutVarint32_def EncodeVarint32_def)

text \<open>With the options that are the default, the one batch goes to a table of level 0.\<close>

theorem recovery_after_crash_witness:
  "\<exists>ms save'. RecoverLogFile PosixSequentialFile (\<lambda>n. []) \<lparr>paranoid_checks = False, reuse_logs = False, write_buffer_size = 4194304\<rparr>
           (\<lambda>m. 0) (\<lambda>m. OK)
           (Inr ([], \<lparr>disk = take 24 (written_log [] (batches_from 1 [[Put [1] [2]]])), pending = [], pos = 0, outcomes = []\<rparr>))
           None True False 0
         = Some (OK, 1, save', ms, None) \<and> ms \<noteq> [] \<and>
       search_mems (rev ms) (make_LookupKey [1] 1) [] None = Some (OK, [2])"
proof -
  let ?o = "\<lparr>paranoid_checks = False, reuse_logs = False, write_buffer_size = 4194304\<rparr>"
  obtain j ms reused save' where j: "RecoverLogFile PosixSequentialFile (\<lambda>n. []) ?o (\<lambda>m. 0) (\<lambda>m. OK)
           (Inr ([], \<lparr>disk = take 24 (written_log [] (batches_from 1 [[Put [1] [2]]])), pending = [], pos = 0, outcomes = []\<rparr>)) None True False 0
         = Some (OK, if j = 0 then 0 else max 0 (of_nat (0 + length (concat (take j [[Put [1] [2]]])))), save', ms, reused)"
      "\<forall>i \<le> length [[Put [1] [2]]]. length (written_log [] (batches_from 1 (take i [[Put [1] [2]]]))) \<le> 24 \<longrightarrow> i \<le> j"
      "save' \<longleftrightarrow> False \<or> ms \<noteq> []" "reused \<noteq> None \<longrightarrow> reuse_logs ?o \<and> True \<and> ms = []"
      "\<forall>key snap dflt rest. snap \<le> kMaxSequenceNumber \<and> length key + 8 < 2 ^ 32 \<longrightarrow>
        search_mems (rev (ms @ kept_mem reused)) (make_LookupKey key snap) dflt rest =
          lookup_or (number_ops 1 (concat (take j [[Put [1] [2]]]))) key snap dflt rest"
    using recovery_after_crash [where gs = "[[Put [1] [2]]]" and b = 0 and opts = ?o and wlevel = "\<lambda>m. OK"
        and usage = "\<lambda>m. 0" and unknown = "\<lambda>n. []" and name = "[]" and n = 24
        and appendable = None and last_log = True and max_seq = 0 and save = False] by (auto simp del: batches_from.simps)
  have "1 \<le> j" using j(2) [rule_format, of 1] one_batch_bytes [of "[]"] by (simp del: batches_from.simps)
  then have t: "take j [[Put [1] [2]]] = [[Put [1] [2]]]" "j \<noteq> 0" by simp_all
  have none: "reused = None" using j(4) by (cases reused) auto
  have found: "search_mems (rev ms) (make_LookupKey [1] 1) [] None = Some (OK, [2])"
    using j(5) unfolding t(1) none by (simp add: kept_mem_def kMaxSequenceNumber_def lookup_or_def lookup_spec_def visible_def)
  then have "ms \<noteq> []" by auto
  then show ?thesis using j(1) found unfolding t(1) none by (auto simp: t(2))
qed

end
