(* ===== verification/LdbWrite.thy ===== *)
theory LdbWrite
  imports LdbRecover
begin

text \<open>
  Concurrent writes (\<^verbatim>\<open>DBImpl::Write\<close>, \<^verbatim>\<open>BuildBatchGroup\<close>, \<^verbatim>\<open>MakeRoomForWrite\<close>, \<^verbatim>\<open>Get\<close> and what they call in
  \<^verbatim>\<open>db/db_impl.cc\<close>). A call of \<^verbatim>\<open>Write\<close> is a thread whose local \<^verbatim>\<open>Writer\<close> is an element of \<open>threads\<close>; its position there
  is the address of the writer. The function is cut into the pieces between which other threads may run: every piece is
  a function on the state, and the step relation at the end interleaves the pieces of all threads with the background
  work. A piece that holds the mutex may be followed by other threads before the next one, so the relation has all the
  interleavings of the code, and some more.
\<close>

section \<open>The state\<close>

text \<open>The batch a group is written from: \<^verbatim>\<open>tmp_batch_\<close> or the batch of a caller.\<close>

datatype batch_ptr = Tmp | Caller nat

text \<open>
  Where a thread is, with the local variables that are live there: in the loop on the condition variable, in
  \<^verbatim>\<open>MakeRoomForWrite\<close> (\<open>force\<close>, \<open>allow_delay\<close>), behind it with its status, before \<^verbatim>\<open>AddRecord\<close>, \<^verbatim>\<open>Sync\<close> and
  \<^verbatim>\<open>InsertInto\<close> (\<open>last_writer\<close>, \<open>updates\<close>, \<open>last_sequence\<close>), before the mutex is taken again (with \<open>status\<close> and
  \<open>sync_error\<close>), and returned.
\<close>

datatype phase =
    Waiting
  | MakingRoom bool bool
  | Room Status
  | Logging nat batch_ptr u64
  | Syncing nat batch_ptr u64
  | Inserting nat batch_ptr u64
  | Publishing nat batch_ptr u64 Status bool
  | Returned Status

record DBWriter =
  w_status :: Status
  w_batch :: "WriteBatch option"
  w_sync :: bool
  w_done :: bool
  w_awake :: bool
  w_phase :: phase

text \<open>
  \<open>w_awake\<close> is whether the thread runs, as opposed to being blocked in \<^verbatim>\<open>cv.Wait()\<close>. \<open>level0_files\<close> is
  \<^verbatim>\<open>versions_->NumLevelFiles(0)\<close>, and \<open>flushed\<close> are the memtables that have become tables of the current version.
  \<open>imm_log\<close> is the file of the log of \<^verbatim>\<open>imm_\<close>: closed when the log is switched, it stays in the directory, and recovery reads it until
  \<^verbatim>\<open>CompactMemTable\<close> has recorded in the manifest that earlier logs are no longer needed.
\<close>

record 'f DBImpl =
  threads :: "DBWriter list"
  writers :: "nat list"
  tmp_batch :: WriteBatch
  last_seq :: SequenceNumber
  next_file_number :: u64
  level0_files :: nat
  db_log :: "'f Writer"
  imm_log :: "'f option"
  logfile_number :: u64
  db_mem :: MemTable
  db_imm :: "MemTable option"
  flushed :: "MemTable list"
  bg_error :: Status

definition set_phase :: "nat \<Rightarrow> phase \<Rightarrow> 'f DBImpl \<Rightarrow> 'f DBImpl" where
  "set_phase t p s = s\<lparr>threads := (threads s)[t := (threads s ! t)\<lparr>w_phase := p\<rparr>]\<rparr>"

definition the_batch :: "batch_ptr \<Rightarrow> 'f DBImpl \<Rightarrow> WriteBatch" where
  "the_batch p s = (case p of Tmp \<Rightarrow> tmp_batch s | Caller t \<Rightarrow> the (w_batch (threads s ! t)))"

definition set_batch :: "batch_ptr \<Rightarrow> WriteBatch \<Rightarrow> 'f DBImpl \<Rightarrow> 'f DBImpl" where
  "set_batch p b s =
     (case p of Tmp \<Rightarrow> s\<lparr>tmp_batch := b\<rparr>
      | Caller t \<Rightarrow> s\<lparr>threads := (threads s)[t := (threads s ! t)\<lparr>w_batch := Some b\<rparr>]\<rparr>)"

section \<open>Errors and file numbers\<close>

definition RecordBackgroundError :: "Status \<Rightarrow> 'f DBImpl \<Rightarrow> 'f DBImpl" where
  "RecordBackgroundError st s = (if ok (bg_error s) then s\<lparr>bg_error := st\<rparr> else s)"

definition NewFileNumber :: "'f DBImpl \<Rightarrow> u64 \<times> 'f DBImpl" where
  "NewFileNumber s = (next_file_number s, s\<lparr>next_file_number := next_file_number s + 1\<rparr>)"

definition ReuseFileNumber :: "u64 \<Rightarrow> 'f DBImpl \<Rightarrow> 'f DBImpl" where
  "ReuseFileNumber n s = (if next_file_number s = n + 1 then s\<lparr>next_file_number := n\<rparr> else s)"

definition kL0_SlowdownWritesTrigger :: nat where "kL0_SlowdownWritesTrigger = 8"

definition kL0_StopWritesTrigger :: nat where "kL0_StopWritesTrigger = 12"

text \<open>
  The background thread: \<open>st\<close> is the status of writing the table and of applying the version edit.
\<close>

definition CompactMemTable :: "Status \<Rightarrow> 'f DBImpl \<Rightarrow> 'f DBImpl" where
  "CompactMemTable st s =
     (case db_imm s of None \<Rightarrow> s
      | Some m \<Rightarrow> if ok st then s\<lparr>db_imm := None, imm_log := None, flushed := flushed s @ [m]\<rparr> else RecordBackgroundError st s)"

section \<open>Groups of batches\<close>

text \<open>
  The loop of \<^verbatim>\<open>BuildBatchGroup\<close> over the writers behind the first one: the pointer \<open>result\<close>, the contents of
  \<^verbatim>\<open>tmp_batch_\<close> and \<open>last_writer\<close>.
\<close>

fun group_loop :: "DBWriter list \<Rightarrow> nat \<Rightarrow> nat \<Rightarrow> nat \<Rightarrow> nat list \<Rightarrow> batch_ptr \<Rightarrow> WriteBatch \<Rightarrow> nat \<Rightarrow> batch_ptr \<times> WriteBatch \<times> nat" where
  "group_loop ws first max_size sz [] result tmp lw = (result, tmp, lw)"
| "group_loop ws first max_size sz (w # rest) result tmp lw =
     (if w_sync (ws ! w) \<and> \<not> w_sync (ws ! first) then (result, tmp, lw)
      else case w_batch (ws ! w) of
             None \<Rightarrow> group_loop ws first max_size sz rest result tmp w
           | Some b \<Rightarrow>
               let sz = sz + length b
               in if sz > max_size then (result, tmp, lw)
                  else let tmp = (if result = Caller first then Batch_Append tmp (the (w_batch (ws ! first))) else tmp)
                       in group_loop ws first max_size sz rest Tmp (Batch_Append tmp b) w)"

definition group_limit :: "nat \<Rightarrow> nat" where
  "group_limit sz = (if sz \<le> 128 * 2 ^ 10 then sz + 128 * 2 ^ 10 else 2 ^ 20)"

definition BuildBatchGroup :: "'f DBImpl \<Rightarrow> batch_ptr \<times> nat \<times> 'f DBImpl" where
  "BuildBatchGroup s =
     (let first = hd (writers s); sz = length (the (w_batch (threads s ! first)))
      in case group_loop (threads s) first (group_limit sz) sz (tl (writers s)) (Caller first) (tmp_batch s) first of
           (result, tmp, lw) \<Rightarrow> (result, lw, s\<lparr>tmp_batch := tmp\<rparr>))"

section \<open>The pieces of Write\<close>

definition Write_enter :: "WriteBatch option \<Rightarrow> bool \<Rightarrow> 'f DBImpl \<Rightarrow> 'f DBImpl" where
  "Write_enter my_batch sync s =
     s\<lparr>threads := threads s @ [\<lparr>w_status = OK, w_batch = my_batch, w_sync = sync, w_done = False, w_awake = True,
                                w_phase = Waiting\<rparr>],
       writers := writers s @ [length (threads s)]\<rparr>"

text \<open>The loop on the condition variable, each time the thread runs.\<close>

definition Write_wait :: "nat \<Rightarrow> 'f DBImpl \<Rightarrow> 'f DBImpl" where
  "Write_wait t s =
     (let w = threads s ! t
      in if w_done w then set_phase t (Returned (w_status w)) s
         else if t \<noteq> hd (writers s) then s\<lparr>threads := (threads s)[t := w\<lparr>w_awake := False\<rparr>]\<rparr>
         else set_phase t (MakingRoom (w_batch w = None) (\<not> (w_batch w = None))) s)"

text \<open>
  One turn of the loop of \<^verbatim>\<open>MakeRoomForWrite\<close>. The turns that sleep or wait only come back to the head of the loop.
  \<open>new_file\<close> is the result of \<^verbatim>\<open>env_->NewWritableFile\<close>, \<open>usage\<close> is \<^verbatim>\<open>ApproximateMemoryUsage\<close>.
\<close>

definition MakeRoom_turn :: "DBOptions \<Rightarrow> (MemTable \<Rightarrow> nat) \<Rightarrow> Status + 'f \<Rightarrow> nat \<Rightarrow> bool \<Rightarrow> bool \<Rightarrow> 'f DBImpl \<Rightarrow> 'f DBImpl" where
  "MakeRoom_turn opts usage new_file t force allow_delay s =
     (if \<not> ok (bg_error s) then set_phase t (Room (bg_error s)) s
      else if allow_delay \<and> level0_files s \<ge> kL0_SlowdownWritesTrigger then set_phase t (MakingRoom force False) s
      else if \<not> force \<and> usage (db_mem s) \<le> write_buffer_size opts then set_phase t (Room OK) s
      else if db_imm s \<noteq> None then s
      else if level0_files s \<ge> kL0_StopWritesTrigger then s
      else case NewFileNumber s of (new_log_number, s) \<Rightarrow>
        (case new_file of
           Inl st \<Rightarrow> set_phase t (Room st) (ReuseFileNumber new_log_number s)
         | Inr f \<Rightarrow>
             set_phase t (MakingRoom False allow_delay)
               (s\<lparr>logfile_number := new_log_number, imm_log := Some (dest (db_log s)), db_log := Writer_new f, db_imm := Some (db_mem s),
                  db_mem := MemTable_new (user_cmp (db_mem s))\<rparr>)))"

text \<open>
  The loop that takes the group out of the queue, up to \<open>lw\<close>; \<^verbatim>\<open>front()\<close> of an empty queue is undefined, here it
  ends the loop.
\<close>

fun pop_writers :: "nat \<Rightarrow> nat \<Rightarrow> Status \<Rightarrow> nat list \<Rightarrow> DBWriter list \<Rightarrow> nat list \<times> DBWriter list" where
  "pop_writers t lw st [] ws = ([], ws)"
| "pop_writers t lw st (ready # q) ws =
     (let ws = (if ready \<noteq> t then ws[ready := (ws ! ready)\<lparr>w_status := st, w_done := True, w_awake := True\<rparr>] else ws)
      in if ready = lw then (q, ws) else pop_writers t lw st q ws)"

definition Write_finish :: "nat \<Rightarrow> nat \<Rightarrow> Status \<Rightarrow> 'f DBImpl \<Rightarrow> 'f DBImpl" where
  "Write_finish t lw st s =
     (case pop_writers t lw st (writers s) (threads s) of (q, ws) \<Rightarrow>
        let ws = (if q \<noteq> [] then ws[hd q := (ws ! hd q)\<lparr>w_awake := True\<rparr>] else ws)
        in set_phase t (Returned st) (s\<lparr>writers := q, threads := ws\<rparr>))"

definition Write_start :: "nat \<Rightarrow> Status \<Rightarrow> 'f DBImpl \<Rightarrow> 'f DBImpl" where
  "Write_start t st s =
     (if ok st \<and> w_batch (threads s ! t) \<noteq> None
      then case BuildBatchGroup s of (updates, last_writer, s) \<Rightarrow>
             let s = set_batch updates (Batch_SetSequence (the_batch updates s) (last_seq s + 1)) s
             in set_phase t (Logging last_writer updates (last_seq s + of_int (Batch_Count (the_batch updates s)))) s
      else Write_finish t t st s)"

definition Write_log :: "'f WritableFile \<Rightarrow> nat \<Rightarrow> nat \<Rightarrow> batch_ptr \<Rightarrow> u64 \<Rightarrow> 'f DBImpl \<Rightarrow> 'f DBImpl" where
  "Write_log ops t last_writer updates seq s =
     (case AddRecord ops (db_log s) (Batch_Contents (the_batch updates s)) of (st, w) \<Rightarrow>
        set_phase t (if ok st then if w_sync (threads s ! t) then Syncing last_writer updates seq
                                   else Inserting last_writer updates seq
                     else Publishing last_writer updates seq st False) (s\<lparr>db_log := w\<rparr>))"

definition Write_sync :: "'f WritableFile \<Rightarrow> nat \<Rightarrow> nat \<Rightarrow> batch_ptr \<Rightarrow> u64 \<Rightarrow> 'f DBImpl \<Rightarrow> 'f DBImpl" where
  "Write_sync ops t last_writer updates seq s =
     (case Sync ops (dest (db_log s)) of (st, f) \<Rightarrow>
        set_phase t (if ok st then Inserting last_writer updates seq else Publishing last_writer updates seq st True)
          (s\<lparr>db_log := (db_log s)\<lparr>dest := f\<rparr>\<rparr>))"

definition Write_insert :: "nat \<Rightarrow> nat \<Rightarrow> batch_ptr \<Rightarrow> u64 \<Rightarrow> 'f DBImpl \<Rightarrow> 'f DBImpl option" where
  "Write_insert t last_writer updates seq s =
     map_option (\<lambda>(st, m). set_phase t (Publishing last_writer updates seq st False) (s\<lparr>db_mem := m\<rparr>))
       (Batch_InsertInto (the_batch updates s) (db_mem s))"

definition Write_publish :: "nat \<Rightarrow> nat \<Rightarrow> batch_ptr \<Rightarrow> u64 \<Rightarrow> Status \<Rightarrow> bool \<Rightarrow> 'f DBImpl \<Rightarrow> 'f DBImpl" where
  "Write_publish t last_writer updates seq st sync_error s =
     (let s = (if sync_error then RecordBackgroundError st s else s);
          s = (if updates = Tmp then s\<lparr>tmp_batch := Batch_Clear\<rparr> else s)
      in Write_finish t last_writer st (s\<lparr>last_seq := seq\<rparr>))"

text \<open>\<^verbatim>\<open>DB::Put\<close> and \<^verbatim>\<open>DB::Delete\<close> are writes of a batch with one operation.\<close>

definition DB_Put :: "bool \<Rightarrow> slice \<Rightarrow> slice \<Rightarrow> 'f DBImpl \<Rightarrow> 'f DBImpl" where
  "DB_Put sync key val = Write_enter (Some (Batch_Put Batch_Clear key val)) sync"

definition DB_Delete :: "bool \<Rightarrow> slice \<Rightarrow> 'f DBImpl \<Rightarrow> 'f DBImpl" where
  "DB_Delete sync key = Write_enter (Some (Batch_Delete Batch_Clear key)) sync"

section \<open>Reading\<close>

text \<open>
  \<^verbatim>\<open>DBImpl::Get\<close>: the memtable, then the one being compacted, then the tables. \<open>version_get\<close> is \<^verbatim>\<open>Version::Get\<close> of the
  current version. The value of the caller is part of the result.
\<close>

definition DBImpl_Get :: "(LookupKey \<Rightarrow> slice \<Rightarrow> (Status \<times> slice) option) \<Rightarrow> SequenceNumber option \<Rightarrow> slice \<Rightarrow> slice \<Rightarrow>
   'f DBImpl \<Rightarrow> (Status \<times> slice) option" where
  "DBImpl_Get version_get snapshot key val s =
     (let lkey = make_LookupKey key (case snapshot of Some n \<Rightarrow> n | None \<Rightarrow> last_seq s)
      in Option.bind (MemTable_Get (db_mem s) lkey val OK) (\<lambda>(found, v, st).
           if found then Some (st, v)
           else case db_imm s of
                  None \<Rightarrow> version_get lkey v
                | Some m \<Rightarrow> Option.bind (MemTable_Get m lkey v st) (\<lambda>(found, v, st).
                    if found then Some (st, v) else version_get lkey v)))"

section \<open>The interleavings\<close>

text \<open>
  A new database: an empty memtable and a fresh log. \<open>creates r\<close> says which results \<^verbatim>\<open>NewWritableFile\<close> can have.
\<close>

definition DB_init :: "'f \<Rightarrow> u64 \<Rightarrow> 'f DBImpl" where
  "DB_init f n =
     \<lparr>threads = [], writers = [], tmp_batch = Batch_Clear, last_seq = 0, next_file_number = n + 1, level0_files = 0,
      db_log = Writer_new f, imm_log = None, logfile_number = n, db_mem = MemTable_new BytewiseComparator, db_imm = None, flushed = [],
      bg_error = OK\<rparr>"

inductive db_step :: "DBOptions \<Rightarrow> (MemTable \<Rightarrow> nat) \<Rightarrow> (Status + 'f \<Rightarrow> bool) \<Rightarrow> 'f WritableFile \<Rightarrow> 'f DBImpl \<Rightarrow> 'f DBImpl \<Rightarrow> bool"
  for opts usage creates ops
where
  enter: "db_step opts usage creates ops s (Write_enter b sync s)"
| wait: "t < length (threads s) \<Longrightarrow> w_phase (threads s ! t) = Waiting \<Longrightarrow> w_awake (threads s ! t) \<Longrightarrow>
    db_step opts usage creates ops s (Write_wait t s)"
| room: "t < length (threads s) \<Longrightarrow> w_phase (threads s ! t) = MakingRoom force delay \<Longrightarrow> creates r \<Longrightarrow>
    db_step opts usage creates ops s (MakeRoom_turn opts usage r t force delay s)"
| start: "t < length (threads s) \<Longrightarrow> w_phase (threads s ! t) = Room st \<Longrightarrow>
    db_step opts usage creates ops s (Write_start t st s)"
| log: "t < length (threads s) \<Longrightarrow> w_phase (threads s ! t) = Logging lw u seq \<Longrightarrow>
    db_step opts usage creates ops s (Write_log ops t lw u seq s)"
| sync: "t < length (threads s) \<Longrightarrow> w_phase (threads s ! t) = Syncing lw u seq \<Longrightarrow>
    db_step opts usage creates ops s (Write_sync ops t lw u seq s)"
| insert: "t < length (threads s) \<Longrightarrow> w_phase (threads s ! t) = Inserting lw u seq \<Longrightarrow> Write_insert t lw u seq s = Some s' \<Longrightarrow>
    db_step opts usage creates ops s s'"
| publish: "t < length (threads s) \<Longrightarrow> w_phase (threads s ! t) = Publishing lw u seq st e \<Longrightarrow>
    db_step opts usage creates ops s (Write_publish t lw u seq st e s)"
| compacted: "db_imm s = Some m \<Longrightarrow> ok (bg_error s) \<Longrightarrow> db_step opts usage creates ops s (CompactMemTable st s)"
| background: "ok (bg_error s) \<Longrightarrow> db_step opts usage creates ops s (RecordBackgroundError st (s\<lparr>level0_files := k\<rparr>))"

abbreviation db_reach :: "DBOptions \<Rightarrow> (MemTable \<Rightarrow> nat) \<Rightarrow> (Status + 'f \<Rightarrow> bool) \<Rightarrow> 'f WritableFile \<Rightarrow> 'f DBImpl \<Rightarrow> 'f DBImpl \<Rightarrow> bool" where
  "db_reach opts usage creates ops \<equiv> (db_step opts usage creates ops)\<^sup>*\<^sup>*"

end
