(* ===== verification/LdbWriteQueue.thy ===== *)
theory LdbWriteQueue
  imports LdbWrite
begin

text \<open>
  The queue of writers, for any file and any batches: the writers leave it in the order in which they came, only its
  first one is past the loop on the condition variable, and nobody sleeps who could go on.
\<close>

inductive_cases db_stepE: "db_step opts usage creates ops s s'"

section \<open>The parts of the invariant\<close>

definition gone :: "DBWriter \<Rightarrow> bool" where
  "gone w \<longleftrightarrow> (case w_phase w of Returned st \<Rightarrow> True | Waiting \<Rightarrow> w_done w \<and> w_awake w | _ \<Rightarrow> False)"

definition queued :: "DBWriter \<Rightarrow> bool" where
  "queued w \<longleftrightarrow> w_phase w = Waiting \<and> \<not> w_done w"

text \<open>The last writer of the group of a leader, and the batch it writes.\<close>

fun group_of :: "phase \<Rightarrow> (nat \<times> batch_ptr) option" where
  "group_of (Logging lw u seq) = Some (lw, u)"
| "group_of (Syncing lw u seq) = Some (lw, u)"
| "group_of (Inserting lw u seq) = Some (lw, u)"
| "group_of (Publishing lw u seq st e) = Some (lw, u)"
| "group_of p = None"

text \<open>The first writer of the queue: it runs, and its group, where it has one, is the beginning of the queue.\<close>

definition leads :: "nat \<Rightarrow> nat \<Rightarrow> DBWriter \<Rightarrow> bool" where
  "leads c n w \<longleftrightarrow> \<not> w_done w \<and> (\<forall>st. w_phase w \<noteq> Returned st) \<and> w_awake w \<and>
     (\<forall>lw u. group_of (w_phase w) = Some (lw, u) \<longrightarrow> c \<le> lw \<and> lw < n \<and> (u = Tmp \<or> u = Caller c))"

definition tmp_clear :: "'f DBImpl \<Rightarrow> nat \<Rightarrow> bool" where
  "tmp_clear s c \<longleftrightarrow> tmp_batch s = Batch_Clear \<or> (c < length (threads s) \<and> (\<exists>lw. group_of (w_phase (threads s ! c)) = Some (lw, Tmp)))"

definition queue_inv :: "nat \<Rightarrow> 'f DBImpl \<Rightarrow> bool" where
  "queue_inv c s \<longleftrightarrow> c \<le> length (threads s) \<and> writers s = [c..<length (threads s)] \<and>
     (\<forall>t < c. gone (threads s ! t)) \<and> (\<forall>t < length (threads s). c < t \<longrightarrow> queued (threads s ! t)) \<and>
     (c < length (threads s) \<longrightarrow> leads c (length (threads s)) (threads s ! c)) \<and> tmp_clear s c"

lemma queue_inv_init: "queue_inv 0 (DB_init f n)"
  by (simp add: queue_inv_def DB_init_def tmp_clear_def)

section \<open>The loops\<close>

lemma pop_writers_upt:
  assumes "a \<le> lw" "lw < n" "n \<le> length ws"
  shows "\<exists>ws'. pop_writers t lw st [a..<n] ws = ([Suc lw..<n], ws') \<and> length ws' = length ws \<and>
    (\<forall>i < length ws. ws' ! i = (if a \<le> i \<and> i \<le> lw \<and> i \<noteq> t
       then (ws ! i)\<lparr>w_status := st, w_done := True, w_awake := True\<rparr> else ws ! i))"
  using assms
proof (induction "lw - a" arbitrary: a ws)
  case 0
  then show ?case by (auto simp: upt_conv_Cons nth_list_update)
next
  case (Suc d)
  define ws1 where "ws1 = (if a \<noteq> t then ws[a := (ws ! a)\<lparr>w_status := st, w_done := True, w_awake := True\<rparr>] else ws)"
  have len: "length ws1 = length ws" by (simp add: ws1_def)
  have "d = lw - Suc a" "Suc a \<le> lw" "n \<le> length ws1" using Suc by (simp_all add: len)
  from Suc.hyps(1) [OF this(1,2) Suc.prems(2) this(3)]
  obtain ws' where ws': "pop_writers t lw st [Suc a..<n] ws1 = ([Suc lw..<n], ws')" "length ws' = length ws1"
    "\<forall>i < length ws1. ws' ! i = (if Suc a \<le> i \<and> i \<le> lw \<and> i \<noteq> t
       then (ws1 ! i)\<lparr>w_status := st, w_done := True, w_awake := True\<rparr> else ws1 ! i)"
    by blast
  have "[a..<n] = a # [Suc a..<n]" "a \<noteq> lw" using Suc.prems(2) Suc.hyps(2) by (simp_all add: upt_conv_Cons)
  then have "pop_writers t lw st [a..<n] ws = pop_writers t lw st [Suc a..<n] ws1"
    by (simp only: pop_writers.simps Let_def ws1_def if_False)
  then show ?case using ws' len Suc.prems by (auto simp: ws1_def nth_list_update)
qed

text \<open>The group ends at a writer of the queue, and is in \<^verbatim>\<open>tmp_batch_\<close> unless it is the leader alone.\<close>

lemma group_loop_last:
  "group_loop ws f ms sz [Suc lw..<n] r tmp lw = (r', tmp', lw') \<Longrightarrow> lw < n \<Longrightarrow>
     lw \<le> lw' \<and> lw' < n \<and> (r' = Tmp \<or> r' = r \<and> tmp' = tmp)"
proof (induction "n - lw" arbitrary: sz r tmp lw)
  case (Suc d)
  show ?case
  proof (cases "Suc lw < n")
    case True
    then have "d = n - Suc lw" using Suc.hyps(2) by simp
    note IH = Suc.hyps(1) [OF this _ True]
    have "[Suc lw..<n] = Suc lw # [Suc (Suc lw)..<n]" using True by (simp add: upt_conv_Cons)
    then show ?thesis
      using Suc.prems IH True by (force simp: Let_def split: if_splits option.splits)
  next
    case False
    then show ?thesis using Suc.prems by simp
  qed
qed simp

section \<open>Every piece keeps the invariant\<close>

lemma phase_flags [simp]:
  "gone (w\<lparr>w_batch := b\<rparr>) = gone w" "queued (w\<lparr>w_batch := b\<rparr>) = queued w" "leads c n (w\<lparr>w_batch := b\<rparr>) = leads c n w"
  by (simp_all add: gone_def queued_def leads_def split: phase.split)

lemma queue_invI:
  assumes "c \<le> length (threads s)" "writers s = [c..<length (threads s)]"
    "\<And>t. t < c \<Longrightarrow> gone (threads s ! t)" "\<And>t. c < t \<Longrightarrow> t < length (threads s) \<Longrightarrow> queued (threads s ! t)"
    "c < length (threads s) \<Longrightarrow> leads c (length (threads s)) (threads s ! c)" "tmp_clear s c"
  shows "queue_inv c s"
  using assms by (simp add: queue_inv_def)

lemma queue_invD:
  assumes "queue_inv c s"
  shows "writers s = [c..<length (threads s)]" "c \<le> length (threads s)"
    "t < c \<Longrightarrow> gone (threads s ! t)" "c < t \<Longrightarrow> t < length (threads s) \<Longrightarrow> queued (threads s ! t)"
    "c < length (threads s) \<Longrightarrow> leads c (length (threads s)) (threads s ! c)" "tmp_clear s c"
  using assms by (simp_all add: queue_inv_def)

text \<open>A thread that is past the loop and has not returned is the first of the queue.\<close>

lemma the_leader:
  assumes "queue_inv c s" "t < length (threads s)" "w_phase (threads s ! t) \<noteq> Waiting" "\<forall>st. w_phase (threads s ! t) \<noteq> Returned st"
  shows "t = c"
proof (rule linorder_cases [of t c])
  show "t = c" if "t < c" using queue_invD(3) [OF assms(1) that] assms by (auto simp: gone_def split: phase.splits)
  show "t = c" if "c < t" using queue_invD(4) [OF assms(1) that assms(2)] assms by (simp add: queued_def)
qed

lemma the_group:
  assumes "queue_inv c s" "t < length (threads s)" "group_of (w_phase (threads s ! t)) = Some (lw, u)"
  shows "t = c" "c \<le> lw" "lw < length (threads s)" "u = Tmp \<or> u = Caller c"
proof -
  show t: "t = c" using assms by (intro the_leader [OF assms(1,2)]) auto
  show "c \<le> lw" "lw < length (threads s)" "u = Tmp \<or> u = Caller c"
    using queue_invD(5) [OF assms(1)] assms(2,3) by (auto simp: leads_def t)
qed

lemma queue_inv_phase:
  assumes "queue_inv c s" "c < length (threads s)" "\<forall>st. p \<noteq> Returned st"
    "\<forall>lw u. group_of p = Some (lw, u) \<longrightarrow> c \<le> lw \<and> lw < length (threads s) \<and> (u = Tmp \<or> u = Caller c)"
    "threads s' = threads s" "writers s' = writers s" "tmp_batch s' = Batch_Clear \<or> (\<exists>lw. group_of p = Some (lw, Tmp))"
  shows "queue_inv c (set_phase c p s')"
  using assms by (auto simp: queue_inv_def set_phase_def leads_def tmp_clear_def nth_list_update)

lemma tmp_is_clear:
  assumes "queue_inv c s" "c < length (threads s)" "\<forall>lw. group_of (w_phase (threads s ! c)) \<noteq> Some (lw, Tmp)"
  shows "tmp_batch s = Batch_Clear"
  using queue_invD(6) [OF assms(1)] assms(2,3) by (auto simp: tmp_clear_def)

lemma queue_inv_enter:
  assumes inv: "queue_inv c s"
  shows "queue_inv c (Write_enter b y s)"
proof (rule queue_invI)
  let ?s = "Write_enter b y s" and ?n = "length (threads s)"
  have th: "threads ?s = threads s @ [\<lparr>w_status = OK, w_batch = b, w_sync = y, w_done = False, w_awake = True, w_phase = Waiting\<rparr>]"
    and tmp: "tmp_batch ?s = tmp_batch s" "writers ?s = writers s @ [?n]"
    by (simp_all add: Write_enter_def)
  note D = queue_invD [OF inv]
  show "writers ?s = [c..<length (threads ?s)]" using D(1,2) by (simp add: th tmp)
  show "gone (threads ?s ! t)" if "t < c" for t using D(2,3) that by (simp add: th nth_append)
  show "queued (threads ?s ! t)" if "c < t" "t < length (threads ?s)" for t
    using D(4) [OF that(1)] that(2) by (cases "t = ?n") (simp_all add: th nth_append queued_def)
  show "leads c (length (threads ?s)) (threads ?s ! c)"
    using D(5,2) by (cases "c = ?n") (auto simp: th nth_append leads_def)
  show "tmp_clear ?s c" using D(6) by (auto simp: tmp_clear_def tmp th nth_append)
qed (use queue_invD(2) [OF inv] in \<open>simp add: Write_enter_def\<close>)

lemma queue_inv_wait:
  assumes inv: "queue_inv c s" and t: "t < length (threads s)" "w_phase (threads s ! t) = Waiting"
  shows "queue_inv c (Write_wait t s)"
proof (cases "t < c")
  case True
  then have "gone (threads s ! t)" using queue_invD(3) [OF inv] by simp
  then show ?thesis using inv t True
    by (auto simp: Write_wait_def Let_def gone_def queue_inv_def set_phase_def tmp_clear_def nth_list_update)
next
  case False
  then have "c < length (threads s)" using t(1) by simp
  then have hd: "hd (writers s) = c" using queue_invD(1) [OF inv] by (simp add: upt_conv_Cons)
  show ?thesis
  proof (cases "t = c")
    case True
    then show ?thesis using inv t hd tmp_is_clear [OF inv] queue_invD(5) [OF inv]
      by (auto simp: Write_wait_def Let_def leads_def intro!: queue_inv_phase)
  next
    case c: False
    then have "queued (threads s ! t)" using queue_invD(4) [OF inv] t False by simp
    then show ?thesis using inv t hd False c
      by (auto simp: Write_wait_def Let_def queued_def queue_inv_def tmp_clear_def nth_list_update)
  qed
qed

text \<open>A turn of \<^verbatim>\<open>MakeRoomForWrite\<close> leaves, waits, or switches to a new memtable and a new log.\<close>

lemma MakeRoom_turn_cases:
  obtains (leave) st n where "MakeRoom_turn opts usage r t force delay s = set_phase t (Room st) (s\<lparr>next_file_number := n\<rparr>)"
      "st = bg_error s \<or> st = OK \<or> r = Inl st"
  | (again) d where "MakeRoom_turn opts usage r t force delay s = set_phase t (MakingRoom force d) s"
  | (stay) "MakeRoom_turn opts usage r t force delay s = s"
  | (switch) f where "r = Inr f" "db_imm s = None"
      "MakeRoom_turn opts usage r t force delay s = set_phase t (MakingRoom False delay)
         (s\<lparr>next_file_number := next_file_number s + 1, logfile_number := next_file_number s, imm_log := Some (dest (db_log s)), db_log := Writer_new f,
            db_imm := Some (db_mem s), db_mem := MemTable_new (user_cmp (db_mem s))\<rparr>)"
proof -
  have id: "s\<lparr>next_file_number := next_file_number s\<rparr> = s" by simp
  show thesis
  proof (cases "\<not> ok (bg_error s)")
    case True
    then show thesis using leave [of "bg_error s" "next_file_number s"] by (simp add: MakeRoom_turn_def)
  next
    case fine: False
    show thesis
    proof (cases "delay \<and> level0_files s \<ge> kL0_SlowdownWritesTrigger")
      case True
      then show thesis using fine again [of False] by (simp add: MakeRoom_turn_def)
    next
      case nodelay: False
      show thesis
      proof (cases "\<not> force \<and> usage (db_mem s) \<le> write_buffer_size opts")
        case True
        then show thesis using fine nodelay leave [of OK "next_file_number s"] by (cases delay) (auto simp: MakeRoom_turn_def)
      next
        case False
        note here = fine nodelay False
        show thesis
        proof (cases "db_imm s \<noteq> None \<or> level0_files s \<ge> kL0_StopWritesTrigger")
          case True
          then show thesis using here stay by (auto simp: MakeRoom_turn_def)
        next
          case False
          then show thesis
          proof (cases r)
            case (Inl st)
            then show thesis using here False leave [of st "next_file_number s"]
              by (auto simp: MakeRoom_turn_def NewFileNumber_def ReuseFileNumber_def)
          next
            case (Inr f)
            then show thesis using here False switch [of f]
              by (auto simp: MakeRoom_turn_def NewFileNumber_def)
          qed
        qed
      qed
    qed
  qed
qed

lemma queue_inv_room:
  assumes inv: "queue_inv c s" and t: "t < length (threads s)" "w_phase (threads s ! t) = MakingRoom force delay"
  shows "queue_inv c (MakeRoom_turn opts usage r t force delay s)"
proof -
  have c: "t = c" using the_leader [OF inv t(1)] t(2) by simp
  have tmp: "tmp_batch s = Batch_Clear" using tmp_is_clear [OF inv] t c by simp
  show ?thesis
  proof (cases rule: MakeRoom_turn_cases [of opts usage r t force delay s])
    case (leave st n)
    show ?thesis unfolding leave(1) unfolding c by (rule queue_inv_phase [OF inv]) (use t c tmp in simp_all)
  next
    case (again d)
    show ?thesis unfolding again unfolding c by (rule queue_inv_phase [OF inv]) (use t c tmp in simp_all)
  next
    case (switch f)
    show ?thesis unfolding switch(3) unfolding c by (rule queue_inv_phase [OF inv]) (use t c tmp in simp_all)
  qed (use inv in simp)
qed

lemma pop_writers_queue:
  assumes "queue_inv c s" "c \<le> lw" "lw < length (threads s)" "writers s' = writers s" "threads s' = threads s"
  obtains ws where "pop_writers c lw st (writers s') (threads s') = ([Suc lw..<length (threads s)], ws)"
    "length ws = length (threads s)"
    "\<forall>i < length (threads s). ws ! i = (if c < i \<and> i \<le> lw
       then (threads s ! i)\<lparr>w_status := st, w_done := True, w_awake := True\<rparr> else threads s ! i)"
proof -
  let ?n = "length (threads s)"
  have "writers s' = [c..<?n]" using queue_invD(1) [OF assms(1)] assms(4) by simp
  then obtain ws where ws: "pop_writers c lw st (writers s') (threads s') = ([Suc lw..<?n], ws)" "length ws = ?n"
      "\<forall>i < ?n. ws ! i = (if c \<le> i \<and> i \<le> lw \<and> i \<noteq> c
         then (threads s ! i)\<lparr>w_status := st, w_done := True, w_awake := True\<rparr> else threads s ! i)"
    using pop_writers_upt [OF assms(2,3) order.refl, of c st] assms(5) by auto
  show thesis
  proof (rule that [OF ws(1,2)], intro allI impI)
    fix i assume "i < ?n"
    then show "ws ! i = (if c < i \<and> i \<le> lw
       then (threads s ! i)\<lparr>w_status := st, w_done := True, w_awake := True\<rparr> else threads s ! i)"
      using ws(3) by (cases "c = i") (auto simp: le_less)
  qed
qed

text \<open>What finishing a group does to the writers: those of the group are gone, the next one is woken up.\<close>

definition released :: "nat \<Rightarrow> nat \<Rightarrow> Status \<Rightarrow> nat \<Rightarrow> DBWriter \<Rightarrow> DBWriter" where
  "released c lw st i w =
     (if i = c then w\<lparr>w_phase := Returned st\<rparr>
      else if c < i \<and> i \<le> lw then w\<lparr>w_status := st, w_done := True, w_awake := True\<rparr>
      else if i = Suc lw then w\<lparr>w_awake := True\<rparr> else w)"

lemma Write_finish_eq:
  assumes "queue_inv c s" "c \<le> lw" "lw < length (threads s)" "writers s' = writers s" "threads s' = threads s"
  obtains ws where "Write_finish c lw st s' = s'\<lparr>writers := [Suc lw..<length (threads s)], threads := ws\<rparr>"
    "length ws = length (threads s)" "\<forall>i < length (threads s). ws ! i = released c lw st i (threads s ! i)"
proof -
  let ?n = "length (threads s)"
  obtain ws where ws: "pop_writers c lw st (writers s') (threads s') = ([Suc lw..<?n], ws)" "length ws = ?n"
    "\<forall>i < ?n. ws ! i = (if c < i \<and> i \<le> lw
       then (threads s ! i)\<lparr>w_status := st, w_done := True, w_awake := True\<rparr> else threads s ! i)"
    by (rule pop_writers_queue [OF assms(1-5)])
  define ws1 where "ws1 = (if Suc lw < ?n then ws[Suc lw := (ws ! Suc lw)\<lparr>w_awake := True\<rparr>] else ws)"
  show thesis
  proof (rule that [of "ws1[c := (ws1 ! c)\<lparr>w_phase := Returned st\<rparr>]"])
    show "Write_finish c lw st s' = s'\<lparr>writers := [Suc lw..<?n], threads := ws1[c := (ws1 ! c)\<lparr>w_phase := Returned st\<rparr>]\<rparr>"
      using ws(1) by (cases "Suc lw < ?n") (simp_all add: Write_finish_def set_phase_def Let_def ws1_def upt_conv_Cons)
    show "length (ws1[c := (ws1 ! c)\<lparr>w_phase := Returned st\<rparr>]) = ?n" using ws(2) by (simp add: ws1_def)
    show "\<forall>i < ?n. ws1[c := (ws1 ! c)\<lparr>w_phase := Returned st\<rparr>] ! i = released c lw st i (threads s ! i)"
      using ws(2,3) assms(2,3) by (auto simp: ws1_def released_def nth_list_update)
  qed
qed

lemma queue_inv_finish:
  assumes inv: "queue_inv c s" "c \<le> lw" "lw < length (threads s)" and s': "threads s' = threads s" "writers s' = writers s"
    "tmp_batch s' = Batch_Clear"
  shows "queue_inv (Suc lw) (Write_finish c lw st s')"
proof -
  obtain ws where ws: "Write_finish c lw st s' = s'\<lparr>writers := [Suc lw..<length (threads s)], threads := ws\<rparr>"
    "length ws = length (threads s)" "\<forall>i < length (threads s). ws ! i = released c lw st i (threads s ! i)"
    by (rule Write_finish_eq [OF inv s'(2,1)])
  show ?thesis unfolding ws(1)
  proof (rule queue_invI)
    show "gone (threads (s'\<lparr>writers := [Suc lw..<length (threads s)], threads := ws\<rparr>) ! t)" if "t < Suc lw" for t
      using ws(3) [rule_format, of t] that inv queue_invD(3,4) [OF inv(1), of t]
      by (auto simp: released_def gone_def queued_def less_Suc_eq_le not_less)
    show "queued (threads (s'\<lparr>writers := [Suc lw..<length (threads s)], threads := ws\<rparr>) ! t)"
      if "Suc lw < t" "t < length (threads (s'\<lparr>writers := [Suc lw..<length (threads s)], threads := ws\<rparr>))" for t
      using ws(2,3) that inv(2) queue_invD(4) [OF inv(1), of t] by (simp add: released_def)
    show "leads (Suc lw) (length (threads (s'\<lparr>writers := [Suc lw..<length (threads s)], threads := ws\<rparr>)))
       (threads (s'\<lparr>writers := [Suc lw..<length (threads s)], threads := ws\<rparr>) ! Suc lw)"
      if "Suc lw < length (threads (s'\<lparr>writers := [Suc lw..<length (threads s)], threads := ws\<rparr>))"
      using ws(2,3) that inv(2) queue_invD(4) [OF inv(1), of "Suc lw"] by (simp add: released_def queued_def leads_def)
  qed (use inv ws(2) s'(3) in \<open>simp_all add: tmp_clear_def\<close>)
qed

lemma queue_inv_same:
  assumes "queue_inv c s" "threads s' = threads s" "writers s' = writers s" "tmp_batch s' = tmp_batch s"
  shows "queue_inv c s'"
  using assms by (simp add: queue_inv_def tmp_clear_def)

lemma queue_inv_set_batch:
  assumes inv: "queue_inv c s" "c < length (threads s)" and p: "p = Caller c \<or> p = Tmp" "lw < length (threads s)" "c \<le> lw"
    and tmp: "p = Caller c \<Longrightarrow> tmp_batch s' = Batch_Clear" and s': "threads s' = threads s" "writers s' = writers s"
  shows "queue_inv c (set_phase c (Logging lw p seq) (set_batch p b s'))"
proof -
  have "queue_inv c (set_batch p b s'\<lparr>tmp_batch := Batch_Clear\<rparr>)"
    using inv p(1) s' by (auto simp: queue_inv_def set_batch_def nth_list_update tmp_clear_def)
  then show ?thesis by (rule queue_inv_phase) (use inv p tmp s' in \<open>auto simp: set_batch_def\<close>)
qed

text \<open>The group that a leader builds.\<close>

lemma BuildBatchGroup_last:
  assumes inv: "queue_inv c s" "c < length (threads s)" and "BuildBatchGroup s = (u, lw, s')"
  shows "c \<le> lw" "lw < length (threads s)" "u = Tmp \<or> u = Caller c \<and> tmp_batch s' = tmp_batch s" "threads s' = threads s"
    "writers s' = writers s" "\<exists>tmp. s' = s\<lparr>tmp_batch := tmp\<rparr>"
proof -
  have w: "hd (writers s) = c" "tl (writers s) = [Suc c..<length (threads s)]"
    using queue_invD(1) [OF inv(1)] inv(2) by (simp_all add: upt_conv_Cons)
  obtain tmp where g: "group_loop (threads s) c (group_limit (length (the (w_batch (threads s ! c)))))
       (length (the (w_batch (threads s ! c)))) [Suc c..<length (threads s)] (Caller c) (tmp_batch s) c = (u, tmp, lw)"
      "s' = s\<lparr>tmp_batch := tmp\<rparr>"
    using assms(3) by (auto simp: BuildBatchGroup_def Let_def w split: prod.splits)
  show "c \<le> lw" "lw < length (threads s)" "u = Tmp \<or> u = Caller c \<and> tmp_batch s' = tmp_batch s" "threads s' = threads s"
    "writers s' = writers s" "\<exists>tmp. s' = s\<lparr>tmp_batch := tmp\<rparr>"
    using group_loop_last [OF g(1) inv(2)] g(2) by auto
qed

lemma queue_inv_start:
  assumes inv: "queue_inv c s" and t: "t < length (threads s)" "w_phase (threads s ! t) = Room st"
  shows "\<exists>c' \<ge> c. queue_inv c' (Write_start t st s)"
proof -
  have c: "t = c" using the_leader [OF inv t(1)] t(2) by simp
  have tmp: "tmp_batch s = Batch_Clear" using tmp_is_clear [OF inv] t c by simp
  show ?thesis
  proof (cases "ok st \<and> w_batch (threads s ! t) \<noteq> None")
    case False
    then have "Write_start t st s = Write_finish c c st s" by (auto simp: Write_start_def c)
    then show ?thesis using queue_inv_finish [OF inv order.refl, of s st] t c tmp by (auto intro!: exI [of _ "Suc c"])
  next
    case True
    obtain u lw s1 where b: "BuildBatchGroup s = (u, lw, s1)" by (metis prod_cases3)
    define s2 where "s2 = set_batch u (Batch_SetSequence (the_batch u s1) (last_seq s1 + 1)) s1"
    have "Write_start t st s = set_phase c (Logging lw u (last_seq s2 + of_int (Batch_Count (the_batch u s2)))) s2"
      using True by (simp add: Write_start_def b s2_def c Let_def)
    moreover have "queue_inv c (set_phase c (Logging lw u (last_seq s2 + of_int (Batch_Count (the_batch u s2)))) s2)"
      unfolding s2_def by (rule queue_inv_set_batch [OF inv]) (use BuildBatchGroup_last [OF inv _ b] t c tmp in auto)
    ultimately show ?thesis by auto
  qed
qed

lemma queue_inv_in_group:
  assumes inv: "queue_inv c s" and t: "t < length (threads s)" "group_of (w_phase (threads s ! t)) = Some g"
    and p: "group_of p = Some g" and s': "threads s' = threads s" "writers s' = writers s" "tmp_batch s' = tmp_batch s"
  shows "queue_inv c (set_phase t p s')"
proof -
  obtain lw u where g: "g = (lw, u)" by (cases g)
  note G = the_group [OF inv t(1) t(2) [unfolded g]]
  have "tmp_batch s' = Batch_Clear \<or> (\<exists>lw. group_of p = Some (lw, Tmp))"
    using tmp_is_clear [OF inv] t G(1) p s'(3) by auto
  moreover have "\<forall>st. p \<noteq> Returned st" using p by auto
  ultimately show ?thesis unfolding G(1)
    by (intro queue_inv_phase [OF inv]) (use G t p s' g in auto)
qed

lemma queue_inv_publish:
  assumes inv: "queue_inv c s" and t: "t < length (threads s)" "w_phase (threads s ! t) = Publishing lw u seq st e"
  shows "\<exists>c' \<ge> c. queue_inv c' (Write_publish t lw u seq st e s)"
proof -
  note G = the_group [OF inv t(1), of lw u]
  have lw: "t = c" "c \<le> lw" "lw < length (threads s)" "u = Tmp \<or> u = Caller c" using G t(2) by auto
  have "u = Caller c \<Longrightarrow> tmp_batch s = Batch_Clear" using tmp_is_clear [OF inv] t lw(1) by simp
  then have "queue_inv (Suc lw) (Write_publish t lw u seq st e s)"
    unfolding Write_publish_def Let_def lw(1)
    by (intro queue_inv_finish [OF inv lw(2,3)]) (use lw(4) in \<open>auto simp: RecordBackgroundError_def\<close>)
  then show ?thesis using lw(2) by (intro exI [of _ "Suc lw"]) simp
qed

lemma queue_inv_step:
  "db_step opts usage creates ops s s' \<Longrightarrow> queue_inv c s \<Longrightarrow> \<exists>c' \<ge> c. queue_inv c' s'"
proof (induction rule: db_step.induct)
  case (enter s b y)
  then show ?case using queue_inv_enter by blast
next
  case (wait t s)
  then show ?case using queue_inv_wait by blast
next
  case (room t s force delay r)
  then show ?case using queue_inv_room by blast
next
  case (start t s st)
  then show ?case using queue_inv_start by blast
next
  case (log t s lw u seq)
  then show ?case
    by (auto simp: Write_log_def split: prod.splits intro!: exI [of _ c] queue_inv_in_group)
next
  case (sync t s lw u seq)
  then show ?case
    by (auto simp: Write_sync_def split: prod.splits intro!: exI [of _ c] queue_inv_in_group)
next
  case (insert t s lw u seq s')
  then show ?case by (auto simp: Write_insert_def intro!: exI [of _ c] queue_inv_in_group)
next
  case (publish t s lw u seq st e)
  then show ?case using queue_inv_publish by blast
next
  case (compacted s m st)
  then show ?case
    by (intro exI [of _ c]) (auto simp: CompactMemTable_def RecordBackgroundError_def intro: queue_inv_same)
next
  case (background s st k)
  then show ?case by (intro exI [of _ c]) (auto simp: RecordBackgroundError_def intro: queue_inv_same)
qed

lemma queue_inv_reach:
  assumes "db_reach opts usage creates ops s s'" "queue_inv c s"
  obtains c' where "c \<le> c'" "queue_inv c' s'"
proof -
  have "\<exists>c' \<ge> c. queue_inv c' s'"
    using assms by (induction rule: rtranclp_induct) (use queue_inv_step order.trans in \<open>metis order.refl\<close>, blast dest: queue_inv_step intro: order.trans)
  then show thesis using that by blast
qed

section \<open>First in, first out\<close>

text \<open>C18: The writers are served in the order in which they came, one group at a time. In every state that any number of
  concurrent calls of \<^verbatim>\<open>Write\<close> can reach, whatever the file and the background thread do, the queue holds the most
  recent calls in order, only calls before them have returned, at most the first of the queue is past the loop on the
  condition variable, so that only one thread uses the log, and no wakeup is lost: a thread that waits for something
  that is true runs.\<close>

theorem write_queue_fifo:
  assumes "db_reach opts usage creates ops (DB_init f n) s"
  shows "\<exists>c \<le> length (threads s). writers s = [c..<length (threads s)] \<and>
     (\<forall>t < length (threads s). (\<exists>st. w_phase (threads s ! t) = Returned st) \<longrightarrow> t < c) \<and>
     (\<forall>t < length (threads s). w_phase (threads s ! t) \<noteq> Waiting \<and> (\<forall>st. w_phase (threads s ! t) \<noteq> Returned st) \<longrightarrow> t = c) \<and>
     (\<forall>t < length (threads s). w_phase (threads s ! t) = Waiting \<and> (w_done (threads s ! t) \<or> t = hd (writers s)) \<longrightarrow>
        w_awake (threads s ! t))"
proof -
  obtain c where inv: "queue_inv c s" by (rule queue_inv_reach [OF assms queue_inv_init])
  note D = queue_invD [OF inv]
  have before: "t < c" if t: "t < length (threads s)" "w_phase (threads s ! t) = Returned st" for t st
    using D(4) [OF _ t(1)] D(5) t by (cases rule: linorder_cases [of t c]) (auto simp: queued_def leads_def)
  have awake: "w_awake (threads s ! t)"
    if t: "t < length (threads s)" "w_phase (threads s ! t) = Waiting" "w_done (threads s ! t) \<or> t = hd (writers s)" for t
  proof (cases rule: linorder_cases [of t c])
    case less
    then show ?thesis using D(3) [OF less] t by (auto simp: gone_def)
  next
    case equal
    then show ?thesis using D(5) t by (auto simp: leads_def)
  next
    case greater
    then show ?thesis using D(1) D(4) [OF greater t(1)] t by (auto simp: queued_def upt_conv_Cons)
  qed
  show ?thesis
    by (intro exI [of _ c] conjI allI impI) (use D(1,2) before awake the_leader [OF inv] in auto)
qed

theorem write_queue_fifo_witness:
  "let s = Write_wait 1 (Write_enter None True (Write_enter None False (DB_init (posix_file_new [] empty_file) 1)))
   in \<exists>c \<le> length (threads s). writers s = [c..<length (threads s)] \<and>
        (\<forall>t < length (threads s). w_phase (threads s ! t) = Waiting \<and> t = hd (writers s) \<longrightarrow> w_awake (threads s ! t))"
proof -
  let ?step = "db_step \<lparr>paranoid_checks = True, reuse_logs = True, write_buffer_size = 5\<rparr> (\<lambda>m. 0) (\<lambda>r. False) PosixWritableFile"
  let ?i = "DB_init (posix_file_new [] empty_file) 1"
  let ?s = "Write_enter None True (Write_enter None False ?i)"
  have "?step ?s (Write_wait 1 ?s)" by (rule db_step.wait) (simp_all add: Write_enter_def DB_init_def nth_append)
  moreover have "?step\<^sup>*\<^sup>* ?i (Write_enter None False ?i)" by (rule r_into_rtranclp) (rule db_step.enter)
  then have "?step\<^sup>*\<^sup>* ?i ?s" by (rule rtranclp.rtrancl_into_rtrancl) (rule db_step.enter)
  ultimately have "?step\<^sup>*\<^sup>* ?i (Write_wait 1 ?s)" by (rule rtranclp.rtrancl_into_rtrancl [rotated])
  from write_queue_fifo [OF this] show ?thesis unfolding Let_def by blast
qed

end
