(* ===== verification/LdbWriteData.thy ===== *)
theory LdbWriteData
  imports LdbWriteQueue
begin

text \<open>
  What concurrent writes do to the data, on files without faults: the log, the memtables and the sequence numbers hold
  the operations of the calls that have succeeded, in the order of the queue.
\<close>

section \<open>Batches of the callers\<close>

text \<open>A batch holds operations, whatever its sequence number, which \<^verbatim>\<open>Write\<close> overwrites.\<close>

definition holds_ops :: "WriteBatch \<Rightarrow> batch_op list \<Rightarrow> bool" where
  "holds_ops b ps \<longleftrightarrow> 8 \<le> length b \<and> drop 8 b = EncodeFixed32 True (of_nat (length ps)) @ concat (map record_bytes ps)"

lemma holds_ops_length:
  assumes "holds_ops b ps"
  shows "length ps + 12 \<le> length b"
proof -
  have "length ps \<le> length (concat (map record_bytes ps))"
    by (induction ps) (auto simp: Suc_le_eq less_le_trans intro: add_less_le_mono [of 0 "length (record_bytes p)" for p, simplified])
  moreover have "drop 8 b = EncodeFixed32 True (of_nat (length ps)) @ concat (map record_bytes ps)" "8 \<le> length b"
    using assms by (simp_all add: holds_ops_def)
  from this(1) have "length (drop 8 b) = 4 + length (concat (map record_bytes ps))"
    by (simp only: length_append length_EncodeFixed)
  then have "length b = 12 + length (concat (map record_bytes ps))" by (simp only: length_drop)
  ultimately show ?thesis by linarith
qed

lemma holds_ops_SetSequence: "holds_ops (Batch_SetSequence b q) ps \<longleftrightarrow> holds_ops b ps"
proof -
  have "8 \<le> length b" if "drop 8 b = EncodeFixed32 True v @ xs" for v xs
    using that length_EncodeFixed(2) [of True v] by (metis append_is_Nil_conv drop_all length_0_conv nat_le_linear zero_neq_numeral)
  then show ?thesis by (auto simp: holds_ops_def Batch_SetSequence_def)
qed

lemma SetSequence_holds: "holds_ops b ps \<Longrightarrow> Batch_SetSequence b q = batch_bytes q (length ps) (concat (map record_bytes ps))"
  by (simp add: holds_ops_def Batch_SetSequence_def batch_bytes_def)

lemma holds_ops_bytes: "holds_ops (batch_bytes q (length ps) (concat (map record_bytes ps))) ps"
  by (simp add: holds_ops_def)

lemma Count_holds:
  assumes "holds_ops b ps" "length ps < 2 ^ 31"
  shows "Batch_Count b = int (length ps)"
proof -
  have "Batch_Count b = Batch_Count (batch_bytes 0 (length ps) (concat (map record_bytes ps)))"
    using assms(1) by (simp add: holds_ops_def Batch_Count_def)
  then show ?thesis using assms(2) by (simp add: Batch_Count_bytes)
qed

lemma Append_holds:
  assumes "holds_ops b qs" "length ps + length qs < 2 ^ 31"
  shows "Batch_Append (batch_bytes s (length ps) (concat (map record_bytes ps))) b =
    batch_bytes s (length (ps @ qs)) (concat (map record_bytes (ps @ qs)))"
proof -
  let ?d = "batch_bytes s (length ps) (concat (map record_bytes ps))"
  have b: "drop 8 b = EncodeFixed32 True (of_nat (length qs)) @ concat (map record_bytes qs)"
    using assms(1) by (simp add: holds_ops_def)
  have "drop kHeader b = drop 4 (drop 8 b)" by (simp add: kHeader_def)
  then have "drop kHeader b = concat (map record_bytes qs)" unfolding b by simp
  moreover have "Batch_Count ?d + Batch_Count b = int (length (ps @ qs))"
    using assms by (simp add: Batch_Count_bytes Count_holds)
  then have "Batch_SetCount ?d (Batch_Count ?d + Batch_Count b) = batch_bytes s (length (ps @ qs)) (concat (map record_bytes ps))"
    by (simp only: Batch_SetCount_bytes)
  ultimately show ?thesis by (simp add: Batch_Append_def batch_bytes_append)
qed

text \<open>
  The clients of a run: \<open>calls t\<close> are the operations in the batch of call \<open>t\<close>. A batch is shorter than a gigabyte and
  there are at most as many operations as there are sequence numbers.
\<close>

definition client :: "batch_op list \<Rightarrow> WriteBatch option \<Rightarrow> bool" where
  "client ps b \<longleftrightarrow> (case b of None \<Rightarrow> ps = [] | Some b \<Rightarrow> holds_ops b ps \<and> length b < 2 ^ 30 \<and> (\<forall>p \<in> set ps. op_fits p))"

definition clients :: "(nat \<Rightarrow> batch_op list) \<Rightarrow> 'f DBImpl \<Rightarrow> bool" where
  "clients calls s \<longleftrightarrow> (\<forall>t < length (threads s). client (calls t) (w_batch (threads s ! t))) \<and>
     length (concat (map calls [0..<length (threads s)])) < 2 ^ 56"

section \<open>The batch of a group\<close>

text \<open>What the loop has collected: the batch of the leader alone, or everything so far in \<^verbatim>\<open>tmp_batch_\<close>.\<close>

definition collected :: "nat \<Rightarrow> batch_op list \<Rightarrow> batch_ptr \<Rightarrow> WriteBatch \<Rightarrow> batch_op list \<Rightarrow> bool" where
  "collected c ps r tmp qs \<longleftrightarrow> (r = Caller c \<and> tmp = Batch_Clear \<and> qs = ps) \<or>
     (r = Tmp \<and> tmp = batch_bytes 0 (length qs) (concat (map record_bytes qs)))"

lemma group_loop_spec:
  assumes "group_loop ws c ms sz [Suc lw..<n] r tmp lw = (r', tmp', lw')" "c \<le> lw" "lw < n"
    "\<forall>t < n. client (calls t) (w_batch (ws ! t))" "w_batch (ws ! c) \<noteq> None"
    "collected c (calls c) r tmp (concat (map calls [c..<Suc lw]))" "length (concat (map calls [c..<Suc lw])) \<le> sz" "sz < 2 ^ 31" "ms < 2 ^ 31"
  shows "collected c (calls c) r' tmp' (concat (map calls [c..<Suc lw'])) \<and> length (concat (map calls [c..<Suc lw'])) < 2 ^ 31"
  using assms
proof (induction "n - lw" arbitrary: sz r tmp lw)
  case (Suc d)
  show ?case
  proof (cases "Suc lw < n")
    case False
    then show ?thesis using Suc.prems by auto
  next
    case True
    have d: "d = n - Suc lw" using Suc.hyps(2) by simp
    note IH = Suc.hyps(1) [OF d _ _ True Suc.prems(4,5)]
    have q: "[Suc lw..<n] = Suc lw # [Suc (Suc lw)..<n]" using True by (simp add: upt_conv_Cons)
    have snoc: "concat (map calls [c..<Suc (Suc lw)]) = concat (map calls [c..<Suc lw]) @ calls (Suc lw)"
      using Suc.prems(2) by simp
    have cl: "client (calls (Suc lw)) (w_batch (ws ! Suc lw))" using Suc.prems(4) True by blast
    show ?thesis
    proof (cases "w_sync (ws ! Suc lw) \<and> \<not> w_sync (ws ! c)")
      case True
      then show ?thesis using Suc.prems by (auto simp: q)
    next
      case False
      show ?thesis
      proof (cases "w_batch (ws ! Suc lw)")
        case None
        then have "concat (map calls [c..<Suc (Suc lw)]) = concat (map calls [c..<Suc lw])"
          using cl unfolding snoc by (simp add: client_def)
        then show ?thesis using IH [of sz r tmp] Suc.prems False None by (auto simp: q simp del: upt_Suc)
      next
        case (Some b)
        then have b: "holds_ops b (calls (Suc lw))" using cl by (simp add: client_def)
        show ?thesis
        proof (cases "sz + length b > ms")
          case True
          then show ?thesis using Suc.prems False Some by (auto simp: q Let_def)
        next
          case small: False
          let ?P = "concat (map calls [c..<Suc lw])"
          define tmp1 where "tmp1 = (if r = Caller c then Batch_Append tmp (the (w_batch (ws ! c))) else tmp)"
          have len: "length ?P + length (calls (Suc lw)) \<le> sz + length b" "length ?P + length (calls (Suc lw)) < 2 ^ 31"
            using Suc.prems(7,9) holds_ops_length [OF b] small by linarith+
          have first: "holds_ops (the (w_batch (ws ! c))) (calls c)"
            using Suc.prems(2,3,4,5) by (auto simp: client_def split: option.splits)
          have "tmp1 = batch_bytes 0 (length ?P) (concat (map record_bytes ?P))"
          proof (cases "r = Caller c")
            case True
            then have P: "?P = calls c" "tmp = batch_bytes 0 (length ([] :: batch_op list)) (concat (map record_bytes []))"
              using Suc.prems(6) by (auto simp: collected_def Batch_Clear_bytes)
            have "Batch_Append tmp (the (w_batch (ws ! c))) = batch_bytes 0 (length ?P) (concat (map record_bytes ?P))"
              unfolding P(2) using Append_holds [OF first, of "[]" 0] len(2) unfolding P(1) by simp
            then show ?thesis using True by (simp add: tmp1_def)
          next
            case False
            then show ?thesis using Suc.prems(6) by (auto simp: tmp1_def collected_def)
          qed
          then have "Batch_Append tmp1 b = batch_bytes 0 (length (?P @ calls (Suc lw))) (concat (map record_bytes (?P @ calls (Suc lw))))"
            using Append_holds [OF b len(2)] by simp
          then have "collected c (calls c) Tmp (Batch_Append tmp1 b) (concat (map calls [c..<Suc (Suc lw)]))"
            unfolding snoc by (simp add: collected_def)
          moreover have "group_loop ws c ms (sz + length b) [Suc (Suc lw)..<n] Tmp (Batch_Append tmp1 b) (Suc lw) = (r', tmp', lw')"
            using Suc.prems(1) False Some small by (simp add: q Let_def tmp1_def)
          moreover have "length (concat (map calls [c..<Suc (Suc lw)])) \<le> sz + length b" unfolding snoc using len(1) by simp
          ultimately show ?thesis
            using IH [of "sz + length b" Tmp "Batch_Append tmp1 b"] Suc.prems(2,9) small by linarith
        qed
      qed
    qed
  qed
qed simp

text \<open>The batch a leader writes holds the operations of its group, with the next sequence number.\<close>

lemma BuildBatchGroup_spec:
  assumes inv: "queue_inv c s" "c < length (threads s)" and cl: "clients calls s" and b: "w_batch (threads s ! c) \<noteq> None"
    and tmp: "tmp_batch s = Batch_Clear" and g: "BuildBatchGroup s = (u, lw, s')"
  shows "Batch_SetSequence (the_batch u s') q =
      batch_bytes q (length (concat (map calls [c..<Suc lw]))) (concat (map record_bytes (concat (map calls [c..<Suc lw]))))"
    "length (concat (map calls [c..<Suc lw])) < 2 ^ 31"
proof -
  let ?n = "length (threads s)" and ?P = "concat (map calls [c..<Suc lw])"
  obtain x where x: "w_batch (threads s ! c) = Some x" using b by blast
  have "client (calls c) (Some x)" using cl inv(2) x by (metis clients_def)
  then have h: "holds_ops x (calls c)" "length x < 2 ^ 30" by (simp_all add: client_def)
  have w: "hd (writers s) = c" "tl (writers s) = [Suc c..<?n]"
    using queue_invD(1) [OF inv(1)] inv(2) by (simp_all add: upt_conv_Cons)
  obtain t where loop: "group_loop (threads s) c (group_limit (length x)) (length x) [Suc c..<?n] (Caller c) Batch_Clear c = (u, t, lw)"
      and s': "s' = s\<lparr>tmp_batch := t\<rparr>"
    using g by (auto simp: BuildBatchGroup_def Let_def w x tmp split: prod.splits)
  have "length (calls c) \<le> length x" using holds_ops_length [OF h(1)] by simp
  moreover have "group_limit (length x) < 2 ^ 31" by (simp add: group_limit_def)
  moreover have "collected c (calls c) (Caller c) Batch_Clear (concat (map calls [c..<Suc c]))" by (simp add: collected_def)
  ultimately have spec: "collected c (calls c) u t ?P" "length ?P < 2 ^ 31"
    using group_loop_spec [OF loop order.refl inv(2), of calls] cl b h(2) by (auto simp: clients_def)
  show "length ?P < 2 ^ 31" by (rule spec(2))
  show "Batch_SetSequence (the_batch u s') q = batch_bytes q (length ?P) (concat (map record_bytes ?P))"
    using spec(1) SetSequence_holds [OF h(1), of q]
    by (auto simp: collected_def the_batch_def s' x Batch_SetSequence_bytes simp del: upt_Suc)
qed

section \<open>The batches stay what they are\<close>

definition kept :: "'f DBImpl \<Rightarrow> 'f DBImpl \<Rightarrow> bool" where
  "kept s s' \<longleftrightarrow> length (threads s) \<le> length (threads s') \<and>
     (\<forall>t < length (threads s). \<forall>ps. client ps (w_batch (threads s' ! t)) \<longleftrightarrow> client ps (w_batch (threads s ! t)))"

lemma client_SetSequence: "client ps (Some (Batch_SetSequence b q)) \<longleftrightarrow> client ps (Some b)"
proof -
  have "length (Batch_SetSequence b q) = length b" if "holds_ops b ps"
    using holds_ops_length [OF that] by (simp add: Batch_SetSequence_def)
  then show ?thesis by (auto simp: client_def holds_ops_SetSequence)
qed

lemma kept_clients: "kept s s' \<Longrightarrow> clients calls s' \<Longrightarrow> clients calls s"
proof -
  assume k: "kept s s'" and cl: "clients calls s'"
  have "length (threads s) \<le> length (threads s')" using k by (simp add: kept_def)
  then have "[0..<length (threads s')] = [0..<length (threads s)] @ [length (threads s)..<length (threads s')]"
    by (metis le0 le_Suc_ex upt_add_eq_append)
  then have "length (concat (map calls [0..<length (threads s)])) \<le> length (concat (map calls [0..<length (threads s')]))" by simp
  moreover have "client (calls t) (w_batch (threads s ! t))" if "t < length (threads s)" for t
    using k cl that by (metis clients_def kept_def less_le_trans)
  ultimately show "clients calls s" using cl by (simp add: clients_def)
qed

lemma kept_set_phase: "kept s s' \<Longrightarrow> kept s (set_phase t p s')"
  by (cases "t < length (threads s')") (auto simp: kept_def set_phase_def nth_list_update)

lemma kept_same: "threads s' = threads s \<Longrightarrow> kept s s'"
  by (simp add: kept_def)

lemma kept_finish:
  assumes "queue_inv c s" "c \<le> lw" "lw < length (threads s)" "writers s' = writers s" "threads s' = threads s"
  shows "kept s (Write_finish c lw st s')"
  by (rule Write_finish_eq [OF assms, of st]) (simp add: kept_def released_def)

lemma kept_start:
  assumes inv: "queue_inv c s" and t: "t < length (threads s)" "w_phase (threads s ! t) = Room st"
  shows "kept s (Write_start t st s)"
proof -
  have c: "t = c" using the_leader [OF inv t(1)] t(2) by simp
  show ?thesis
  proof (cases "ok st \<and> w_batch (threads s ! t) \<noteq> None")
    case False
    then have "Write_start t st s = Write_finish c c st s" by (auto simp: Write_start_def c)
    then show ?thesis using kept_finish [OF inv order.refl, of s st] t c by simp
  next
    case True
    obtain u lw s1 where b: "BuildBatchGroup s = (u, lw, s1)" by (metis prod_cases3)
    have "u = Tmp \<or> u = Caller c" "threads s1 = threads s" using BuildBatchGroup_last [OF inv _ b] t c by auto
    then have "kept s (set_batch u (Batch_SetSequence (the_batch u s1) q) s1)" for q
      using True t(1) client_SetSequence [of _ "the (w_batch (threads s ! c))" q]
      by (auto simp: kept_def set_batch_def the_batch_def nth_list_update c split: if_splits)
    then show ?thesis using True by (simp add: Write_start_def b Let_def kept_set_phase)
  qed
qed

lemma kept_step: "db_step opts usage creates ops s s' \<Longrightarrow> queue_inv c s \<Longrightarrow> kept s s'"
proof (induction rule: db_step.induct)
  case (enter s b y)
  then show ?case by (simp add: kept_def Write_enter_def nth_append)
next
  case (wait t s)
  have "kept s (s\<lparr>threads := (threads s)[t := (threads s ! t)\<lparr>w_awake := False\<rparr>]\<rparr>)"
    using wait(1) by (auto simp: kept_def nth_list_update split: if_splits)
  then show ?case by (simp add: Write_wait_def Let_def kept_same kept_set_phase)
next
  case (room t s force delay r)
  then show ?case
    by (cases rule: MakeRoom_turn_cases [of opts usage r t force delay s]) (simp_all add: kept_set_phase kept_same)
next
  case (start t s st)
  then show ?case using kept_start by blast
next
  case (log t s lw u seq)
  then show ?case by (auto simp: Write_log_def kept_same split: prod.splits intro!: kept_set_phase)
next
  case (sync t s lw u seq)
  then show ?case by (auto simp: Write_sync_def kept_same split: prod.splits intro!: kept_set_phase)
next
  case (insert t s lw u seq s')
  then show ?case by (auto simp: Write_insert_def kept_same intro!: kept_set_phase)
next
  case (publish t s lw u seq st e)
  have "group_of (w_phase (threads s ! t)) = Some (lw, u)" using publish(2) by simp
  note G = the_group [OF publish(3,1) this]
  show ?case unfolding Write_publish_def Let_def G(1)
    by (rule kept_finish [OF publish(3) G(2,3)]) (auto simp: RecordBackgroundError_def)
next
  case (compacted s m st)
  then show ?case by (simp add: CompactMemTable_def RecordBackgroundError_def kept_same)
next
  case (background s st k)
  then show ?case by (simp add: RecordBackgroundError_def kept_same)
qed

lemma kept_reach:
  assumes "db_reach opts usage creates ops s s'" "queue_inv c s"
  shows "kept s s'"
  using assms(1)
proof (induction rule: rtranclp_induct)
  case base
  then show ?case by (simp add: kept_def)
next
  case (step s1 s2)
  obtain c1 where "queue_inv c1 s1" by (rule queue_inv_reach [OF step(1) assms(2)])
  then have "kept s1 s2" by (rule kept_step [OF step(2)])
  then show ?case using step.IH by (auto simp: kept_def)
qed

end
