(* ===== verification/LdbWriteInv.thy ===== *)
theory LdbWriteInv
  imports LdbWriteData
begin

text \<open>
  The contents of the database. With \<open>C\<close> the operations of the calls that have succeeded, in the order of the queue, the
  operations 1, 2, ... of \<open>C\<close> are split at \<open>a \<le> b\<close>: up to \<open>a\<close> they are in tables, up to \<open>b\<close> in the memtable that
  is being compacted, and the rest is in the memtable and in its log. The group that is being written is in the log and
  in the memtable before its calls have succeeded.
\<close>

section \<open>Parts of the contents\<close>

definition outcome :: "DBWriter \<Rightarrow> Status" where
  "outcome w = (case w_phase w of Returned st \<Rightarrow> st | _ \<Rightarrow> w_status w)"

text \<open>The operations of the calls that have left the queue with success.\<close>

definition committed :: "(nat \<Rightarrow> batch_op list) \<Rightarrow> nat \<Rightarrow> 'f DBImpl \<Rightarrow> batch_op list" where
  "committed calls c s = concat (map calls (filter (\<lambda>t. ok (outcome (threads s ! t))) [0..<c]))"

definition phase_of :: "nat \<Rightarrow> 'f DBImpl \<Rightarrow> phase" where
  "phase_of c s = (if c < length (threads s) then w_phase (threads s ! c) else Waiting)"

definition in_flight :: "(nat \<Rightarrow> batch_op list) \<Rightarrow> nat \<Rightarrow> phase \<Rightarrow> batch_op list" where
  "in_flight calls c p = (case group_of p of None \<Rightarrow> [] | Some (lw, u) \<Rightarrow> concat (map calls [c..<Suc lw]))"

fun in_log :: "phase \<Rightarrow> bool" where
  "in_log (Syncing lw u seq) = True"
| "in_log (Inserting lw u seq) = True"
| "in_log (Publishing lw u seq st e) = True"
| "in_log p = False"

fun in_mem :: "phase \<Rightarrow> bool" where
  "in_mem (Publishing lw u seq st e) = True"
| "in_mem p = False"

fun next_seq :: "phase \<Rightarrow> u64 option" where
  "next_seq (Logging lw u seq) = Some seq"
| "next_seq (Syncing lw u seq) = Some seq"
| "next_seq (Inserting lw u seq) = Some seq"
| "next_seq (Publishing lw u seq st e) = Some seq"
| "next_seq p = None"

definition no_error :: "phase \<Rightarrow> bool" where
  "no_error p \<longleftrightarrow> (\<forall>lw u seq st e. p = Publishing lw u seq st e \<longrightarrow> st = OK \<and> \<not> e)"

text \<open>The tables and the two memtables.\<close>

definition mems_hold :: "nat \<Rightarrow> nat \<Rightarrow> batch_op list \<Rightarrow> batch_op list \<Rightarrow> 'f DBImpl \<Rightarrow> bool" where
  "mems_hold a b C M s \<longleftrightarrow> a \<le> b \<and> b \<le> length C \<and> mems_have (flushed s) (take a (number_ops 1 C)) \<and>
     (case db_imm s of None \<Rightarrow> a = b | Some m \<Rightarrow> mem_has m (drop a (take b (number_ops 1 C)))) \<and>
     mem_has (db_mem s) (drop b (number_ops 1 M))"

lemma number_ops_prefix: "take n (number_ops s (xs @ ys)) = take n (number_ops s xs) @ take (n - length xs) (number_ops (s + of_nat (length xs)) ys)"
  by (simp add: number_ops_append)

lemma drop_number_ops: "n \<le> length xs \<Longrightarrow> drop n (number_ops s (xs @ ys)) = drop n (number_ops s xs) @ number_ops (s + of_nat (length xs)) ys"
  by (simp add: number_ops_append)

lemma mems_hold_commit: "mems_hold a b C (C @ F) s \<Longrightarrow> mems_hold a b (C @ F) (C @ F) s"
  by (auto simp: mems_hold_def number_ops_prefix split: option.splits)

lemma mems_hold_cong:
  "flushed s' = flushed s \<Longrightarrow> db_imm s' = db_imm s \<Longrightarrow> db_mem s' = db_mem s \<Longrightarrow> mems_hold a b C M s' = mems_hold a b C M s"
  by (simp add: mems_hold_def)

text \<open>Switching to a new memtable, and the end of the compaction of the old one.\<close>

lemma mems_hold_switch:
  assumes "mems_hold a b C C s" "db_imm s = None" "flushed s' = flushed s" "db_imm s' = Some (db_mem s)"
    "db_mem s' = MemTable_new (user_cmp (db_mem s))"
  shows "mems_hold a (length C) C C s'"
proof -
  have "user_cmp (db_mem s) = BytewiseComparator" using assms(1) by (auto simp: mems_hold_def mem_has_def mem_inv_def)
  then have "mem_has (db_mem s') []" using mem_inv_new assms(5) by (auto simp: mem_has_def)
  then show ?thesis using assms by (auto simp: mems_hold_def)
qed

lemma mems_hold_compact:
  assumes "mems_hold a b C M s" "db_imm s = Some m" "flushed s' = flushed s @ [m]" "db_imm s' = None" "db_mem s' = db_mem s"
  shows "mems_hold b b C M s'"
proof -
  have "take a (number_ops 1 C) @ drop a (take b (number_ops 1 C)) = take b (number_ops 1 C)"
    using append_take_drop_id [of a "take b (number_ops 1 C)"] assms(1) by (simp add: mems_hold_def min_absorb1)
  then have "mems_have (flushed s') (take b (number_ops 1 C))"
    using assms(1,2,3) mems_have_snoc [of "flushed s" "take a (number_ops 1 C)" m "drop a (take b (number_ops 1 C))"]
    by (simp add: mems_hold_def)
  then show ?thesis using assms by (simp add: mems_hold_def)
qed

text \<open>Inserting a batch.\<close>

lemma table_insert:
  assumes "mem_has m (drop b (number_ops 1 C))" "b \<le> length C" "length F < 2 ^ 31" "\<forall>p \<in> set (C @ F). op_fits p"
    "length (C @ F) < 2 ^ 56"
  shows "\<exists>m'. Batch_InsertInto (batch_bytes (of_nat (length C) + 1) (length F) (concat (map record_bytes F))) m = Some (OK, m') \<and>
     mem_has m' (drop b (number_ops 1 (C @ F)))"
proof -
  obtain ns where inv: "mem_inv m ns (drop b (number_ops 1 C))" using assms(1) by (auto simp: mem_has_def)
  have split: "drop b (number_ops 1 (C @ F)) = drop b (number_ops 1 C) @ number_ops (of_nat (length C) + 1) F"
    using assms(2) by (simp add: number_ops_append add.commute)
  have total: "unat (1 :: u64) + length (C @ F) \<le> 2 ^ 56" using assms(5) by simp
  have all: "number_ops 1 (C @ F) = number_ops 1 C @ number_ops (of_nat (length C) + 1) F"
    by (simp add: number_ops_append add.commute)
  have "\<forall>op \<in> set (number_ops (of_nat (length C) + 1) F). op_ok op"
    using number_ops_ok [OF total assms(4)] by (simp add: all)
  moreover have "sorted_wrt (\<lambda>a b. fst a < fst b) (drop b (number_ops 1 (C @ F)))"
    by (intro sorted_wrt_drop number_ops_sorted [OF total])
  ultimately obtain m' ns' where "add_operations (number_ops (of_nat (length C) + 1) F) m = Some m'"
      "mem_inv m' ns' (drop b (number_ops 1 (C @ F)))"
    using add_operations_inv [OF inv, of "number_ops (of_nat (length C) + 1) F"] unfolding split by auto
  moreover have "\<forall>p \<in> set F. op_short p" using assms(4) op_fits_short by auto
  ultimately show ?thesis using assms(3) by (auto simp: Batch_InsertInto_bytes mem_has_def)
qed

section \<open>How many operations there are\<close>

lemma filtered_length: "length (concat (map f (filter P xs))) \<le> length (concat (map f xs))"
  by (induction xs) auto

lemma committed_in_flight:
  assumes "clients calls s" "c \<le> n" "n \<le> length (threads s)"
  shows "length (committed calls c s @ concat (map calls [c..<n])) < 2 ^ 56"
    "\<forall>p \<in> set (committed calls c s @ concat (map calls [c..<n])). op_fits p"
proof -
  let ?N = "length (threads s)"
  have parts: "[0..<?N] = [0..<c] @ [c..<n] @ [n..<?N]"
    using assms(2,3) upt_add_eq_append [of 0 c "?N - c"] upt_add_eq_append [of c n "?N - n"] by simp
  have "length (committed calls c s) \<le> length (concat (map calls [0..<c]))"
    unfolding committed_def by (rule filtered_length)
  moreover have "length (concat (map calls [0..<?N])) < 2 ^ 56" using assms(1) by (simp add: clients_def)
  ultimately show "length (committed calls c s @ concat (map calls [c..<n])) < 2 ^ 56"
    unfolding parts by simp
  have "op_fits p" if "t < ?N" "p \<in> set (calls t)" for t p
    using assms(1) that by (auto simp: clients_def client_def split: option.splits dest!: spec [of _ t])
  then have "op_fits p" if "t < n" "p \<in> set (calls t)" for t p using that assms(3) less_le_trans by blast
  then show "\<forall>p \<in> set (committed calls c s @ concat (map calls [c..<n])). op_fits p"
    using assms(2) by (auto simp: committed_def intro: less_le_trans)
qed

lemma committed_cong:
  "(\<And>t. t < c \<Longrightarrow> outcome (threads s' ! t) = outcome (threads s ! t)) \<Longrightarrow> committed calls c s' = committed calls c s"
  unfolding committed_def by (intro arg_cong [of _ _ concat] map_cong filter_cong) auto

section \<open>The log\<close>

lemma batches_from_append: "batches_from s (gs @ hs) = batches_from s gs @ batches_from (s + of_nat (length (concat gs))) hs"
  by (induction s gs rule: batches_from.induct) (simp_all add: add.assoc)

context synced_file
begin

text \<open>The log holds the operations \<open>ps\<close>, which follow the first \<open>b\<close> ones.\<close>

definition log_holds :: "'a Writer \<Rightarrow> nat \<Rightarrow> batch_op list \<Rightarrow> bool" where
  "log_holds w b ps \<longleftrightarrow> good (dest w) \<and> at_offset (length (content (dest w))) w \<and>
     (\<exists>gs. content (dest w) = log_bytes 0 (batches_from (1 + of_nat b) gs) \<and> concat gs = ps \<and> (\<forall>g \<in> set gs. length g < 2 ^ 31))"

lemma log_holds_new: "good f \<Longrightarrow> content f = [] \<Longrightarrow> log_holds (Writer_new f) b []"
  unfolding log_holds_def using at_offset_new(1) [of f] by (auto simp: Writer_new_def intro!: exI [of _ "[]"])

lemma AddRecord_holds:
  assumes "log_holds w b ps" "length F < 2 ^ 31"
  shows "\<exists>w'. AddRecord ops w (batch_bytes (of_nat (b + length ps) + 1) (length F) (concat (map record_bytes F))) = (OK, w') \<and>
     log_holds w' b (ps @ F)"
proof -
  let ?d = "batch_bytes (of_nat (b + length ps) + 1) (length F) (concat (map record_bytes F))"
  obtain gs where gs: "content (dest w) = log_bytes 0 (batches_from (1 + of_nat b) gs)" "concat gs = ps" "\<forall>g \<in> set gs. length g < 2 ^ 31"
    and w: "good (dest w)" "at_offset (length (content (dest w))) w"
    using assms(1) by (auto simp: log_holds_def)
  obtain w' where w': "AddRecord ops w ?d = (OK, w')" "good (dest w')"
      "at_offset (length (content (dest w)) + length (frag_bytes (length (content (dest w))) True ?d)) w'"
      "content (dest w') = content (dest w) @ frag_bytes (length (content (dest w))) True ?d"
    using AddRecord_loop_good [OF w, of ?d True] by (auto simp: AddRecord_def)
  have "batches_from (1 + of_nat b) (gs @ [F]) = batches_from (1 + of_nat b) gs @ [?d]"
    using gs(2) by (simp add: batches_from_append add.commute add.left_commute)
  then have "content (dest w') = log_bytes 0 (batches_from (1 + of_nat b) (gs @ [F]))"
    using w'(4) gs(1) by (simp add: log_bytes_append)
  moreover have "concat (gs @ [F]) = ps @ F" "\<forall>g \<in> set (gs @ [F]). length g < 2 ^ 31" using gs assms(2) by auto
  moreover have "at_offset (length (content (dest w'))) w'" using w'(3) by (simp only: w'(4) length_append)
  ultimately have "log_holds w' b (ps @ F)"
    unfolding log_holds_def using w'(2) by blast
  then show ?thesis using w'(1) by blast
qed

lemma Sync_holds:
  assumes "log_holds w b ps"
  shows "\<exists>f. Sync ops (dest w) = (OK, f) \<and> log_holds (w\<lparr>dest := f\<rparr>) b ps"
proof -
  obtain f where f: "Sync ops (dest w) = (OK, f)" "good f" using assms sync_good by (auto simp: log_holds_def)
  have "content f = content (dest w)" by (rule sync_content [OF f(1)])
  then show ?thesis using assms f by (auto simp: log_holds_def at_offset_def)
qed

text \<open>The log of the memtable that is being compacted has its operations too.\<close>

definition old_log_holds :: "'a \<Rightarrow> nat \<Rightarrow> batch_op list \<Rightarrow> bool" where
  "old_log_holds f a ps \<longleftrightarrow>
     (\<exists>gs. content f = log_bytes 0 (batches_from (1 + of_nat a) gs) \<and> concat gs = ps \<and> (\<forall>g \<in> set gs. length g < 2 ^ 31))"

definition stored :: "nat \<Rightarrow> nat \<Rightarrow> batch_op list \<Rightarrow> batch_op list \<Rightarrow> 'a DBImpl \<Rightarrow> bool" where
  "stored a b C M s \<longleftrightarrow> mems_hold a b C M s \<and>
     (db_imm s = None \<longrightarrow> imm_log s = None) \<and> (db_imm s \<noteq> None \<longrightarrow> (\<exists>f. imm_log s = Some f \<and> old_log_holds f a (drop a (take b C))))"

lemma stored_le: "stored a b C M s \<Longrightarrow> a \<le> b \<and> b \<le> length C"
  by (simp add: stored_def mems_hold_def)

lemma stored_commit: "stored a b C (C @ F) s \<Longrightarrow> stored a b (C @ F) (C @ F) s"
  using mems_hold_commit [of a b C F s] by (auto simp: stored_def mems_hold_def split: option.splits)

lemma stored_cong:
  "flushed s' = flushed s \<Longrightarrow> db_imm s' = db_imm s \<Longrightarrow> db_mem s' = db_mem s \<Longrightarrow> imm_log s' = imm_log s \<Longrightarrow> stored a b C M s' = stored a b C M s"
  by (simp add: stored_def mems_hold_def)

lemma stored_switch:
  assumes "stored a b C C s" "log_holds (db_log s) b (drop b C)" "db_imm s = None" "flushed s' = flushed s" "db_imm s' = Some (db_mem s)"
    "db_mem s' = MemTable_new (user_cmp (db_mem s))" "imm_log s' = Some (dest (db_log s))"
  shows "stored a (length C) C C s'"
proof -
  have "a = b" using assms(1,3) by (simp add: stored_def mems_hold_def)
  moreover have "mems_hold a (length C) C C s'" using mems_hold_switch [of a b C s s'] assms by (simp add: stored_def)
  ultimately show ?thesis using assms(2,5,7) by (auto simp: stored_def old_log_holds_def log_holds_def)
qed

lemma stored_compact:
  assumes "stored a b C M s" "db_imm s = Some m" "flushed s' = flushed s @ [m]" "db_imm s' = None" "db_mem s' = db_mem s" "imm_log s' = None"
  shows "stored b b C M s'"
  using mems_hold_compact [OF _ assms(2-5), of a b C M] assms(1,4,6) by (simp add: stored_def)

section \<open>The invariant\<close>

definition data_inv :: "(nat \<Rightarrow> batch_op list) \<Rightarrow> nat \<Rightarrow> 'a DBImpl \<Rightarrow> bool" where
  "data_inv calls c s \<longleftrightarrow> queue_inv c s \<and>
     (let C = committed calls c s; p = phase_of c s; F = in_flight calls c p
      in last_seq s = of_nat (length C) \<and> no_error p \<and>
         (\<exists>a b. stored a b C (C @ (if in_mem p then F else [])) s \<and>
                log_holds (db_log s) b (drop b (C @ (if in_log p then F else [])))) \<and>
         (\<forall>lw u. group_of p = Some (lw, u) \<longrightarrow>
            the_batch u s = batch_bytes (of_nat (length C) + 1) (length F) (concat (map record_bytes F)) \<and>
            next_seq p = Some (of_nat (length (C @ F))) \<and> length F < 2 ^ 31))"

lemma data_invI:
  assumes "queue_inv c s" "committed calls c s = C" "phase_of c s = p" "in_flight calls c p = F"
    "last_seq s = of_nat (length C)" "no_error p" "stored a b C (C @ (if in_mem p then F else [])) s"
    "log_holds (db_log s) b (drop b (C @ (if in_log p then F else [])))"
    "\<And>lw u. group_of p = Some (lw, u) \<Longrightarrow>
       the_batch u s = batch_bytes (of_nat (length C) + 1) (length F) (concat (map record_bytes F)) \<and>
       next_seq p = Some (of_nat (length (C @ F))) \<and> length F < 2 ^ 31"
  shows "data_inv calls c s"
  unfolding data_inv_def Let_def assms(2,3,4)
proof (intro conjI)
  show "\<exists>a b. stored a b C (C @ (if in_mem p then F else [])) s \<and>
          log_holds (db_log s) b (drop b (C @ (if in_log p then F else [])))"
    using assms(7,8) by blast
  show "\<forall>lw u. group_of p = Some (lw, u) \<longrightarrow>
       the_batch u s = batch_bytes (of_nat (length C) + 1) (length F) (concat (map record_bytes F)) \<and>
       next_seq p = Some (of_nat (length (C @ F))) \<and> length F < 2 ^ 31"
    using assms(9) by blast
qed (rule assms(1,5,6))+

lemma data_invE:
  assumes "data_inv calls c s"
  obtains C p F a b where "queue_inv c s" "committed calls c s = C" "phase_of c s = p" "in_flight calls c p = F"
    "last_seq s = of_nat (length C)" "no_error p" "stored a b C (C @ (if in_mem p then F else [])) s"
    "log_holds (db_log s) b (drop b (C @ (if in_log p then F else [])))"
    "\<forall>lw u. group_of p = Some (lw, u) \<longrightarrow>
       the_batch u s = batch_bytes (of_nat (length C) + 1) (length F) (concat (map record_bytes F)) \<and>
       next_seq p = Some (of_nat (length (C @ F))) \<and> length F < 2 ^ 31"
  using assms unfolding data_inv_def Let_def by blast

lemmas stored_defs = stored_def mems_hold_def

lemma data_inv_init: "good f \<Longrightarrow> content f = [] \<Longrightarrow> data_inv calls 0 (DB_init f n)"
  by (rule data_invI [OF queue_inv_init refl refl refl, where a = 0 and b = 0])
    (auto simp: DB_init_def committed_def phase_of_def no_error_def stored_defs mems_have_def mem_has_def mem_inv_new
       log_holds_new intro: exI [of _ "[]"])

section \<open>Steps outside of the group\<close>

text \<open>A step that leaves the phase of the leader without a group, and the contents alone.\<close>

lemma no_group: "group_of q = None \<Longrightarrow> in_flight calls c q = [] \<and> \<not> in_log q \<and> \<not> in_mem q \<and> no_error q"
  by (cases q) (auto simp: in_flight_def no_error_def)

lemma data_inv_idleE:
  assumes "data_inv calls c s" "group_of (phase_of c s) = None"
  obtains a b where "stored a b (committed calls c s) (committed calls c s) s"
      "log_holds (db_log s) b (drop b (committed calls c s))" "last_seq s = of_nat (length (committed calls c s))"
  by (rule data_invE [OF assms(1)]) (use no_group [OF assms(2)] in auto)

lemma data_inv_idle:
  assumes inv: "data_inv calls c s" and q: "queue_inv c s'" and C: "committed calls c s' = committed calls c s"
    and p: "group_of (phase_of c s) = None" "group_of (phase_of c s') = None" "last_seq s' = last_seq s"
    and m: "\<And>a b. stored a b (committed calls c s) (committed calls c s) s \<Longrightarrow>
        log_holds (db_log s) b (drop b (committed calls c s)) \<Longrightarrow>
      \<exists>a b. stored a b (committed calls c s) (committed calls c s) s' \<and> log_holds (db_log s') b (drop b (committed calls c s))"
  shows "data_inv calls c s'"
proof -
  obtain a b where ab: "stored a b (committed calls c s) (committed calls c s) s"
      "log_holds (db_log s) b (drop b (committed calls c s))" "last_seq s = of_nat (length (committed calls c s))"
    by (rule data_inv_idleE [OF inv p(1)])
  obtain a b where "stored a b (committed calls c s) (committed calls c s) s'"
      "log_holds (db_log s') b (drop b (committed calls c s))"
    using m [OF ab(1,2)] by blast
  then show ?thesis
    by (intro data_invI [OF q C refl refl, where a = a and b = b]) (use no_group [OF p(2)] p ab(3) in simp_all)
qed

text \<open>The phase of the first writer after a piece of it, and after a piece of another one.\<close>

lemma phase_of_set [simp]: "c < length (threads s) \<Longrightarrow> phase_of c (set_phase c p s) = p"
  by (simp add: phase_of_def set_phase_def)

lemma phase_of_other: "t \<noteq> c \<Longrightarrow> phase_of c (set_phase t p s) = phase_of c s"
  by (simp add: phase_of_def set_phase_def)

lemma committed_set_phase [simp]: "committed calls c (set_phase c p s) = committed calls c s"
  by (rule committed_cong) (simp add: set_phase_def)

lemma committed_file_number [simp]: "committed calls c (s\<lparr>next_file_number := n\<rparr>) = committed calls c s"
  by (simp add: committed_def)

lemma set_phase_fields [simp]:
  "flushed (set_phase t p s) = flushed s" "db_imm (set_phase t p s) = db_imm s" "db_mem (set_phase t p s) = db_mem s"
  "db_log (set_phase t p s) = db_log s" "imm_log (set_phase t p s) = imm_log s" "last_seq (set_phase t p s) = last_seq s" "tmp_batch (set_phase t p s) = tmp_batch s"
  by (simp_all add: set_phase_def)

lemma the_batch_set_phase [simp]: "the_batch u (set_phase t p s) = the_batch u s"
proof (cases u)
  case (Caller x)
  then show ?thesis by (cases "t < length (threads s)"; cases "x = t") (simp_all add: the_batch_def set_phase_def list_update_beyond not_less)
qed (simp add: the_batch_def)

text \<open>A step that leaves the group alone.\<close>

lemma data_inv_frame:
  assumes inv: "data_inv calls c s" and q: "queue_inv c s'" and C: "committed calls c s' = committed calls c s"
    and p: "phase_of c s' = phase_of c s" "last_seq s' = last_seq s" "db_log s' = db_log s"
    and u: "\<And>lw u. group_of (phase_of c s) = Some (lw, u) \<Longrightarrow> the_batch u s' = the_batch u s"
    and m: "\<And>a b C M. stored a b C M s \<Longrightarrow> \<exists>a. stored a b C M s'"
  shows "data_inv calls c s'"
proof -
  obtain C p F a b where I: "committed calls c s = C" "phase_of c s = p" "in_flight calls c p = F"
    "last_seq s = of_nat (length C)" "no_error p" "stored a b C (C @ (if in_mem p then F else [])) s"
    "log_holds (db_log s) b (drop b (C @ (if in_log p then F else [])))"
    "\<forall>lw u. group_of p = Some (lw, u) \<longrightarrow>
       the_batch u s = batch_bytes (of_nat (length C) + 1) (length F) (concat (map record_bytes F)) \<and>
       next_seq p = Some (of_nat (length (C @ F))) \<and> length F < 2 ^ 31"
    by (rule data_invE [OF inv])
  obtain a' where "stored a' b C (C @ (if in_mem p then F else [])) s'" using m [OF I(6)] by blast
  then show ?thesis
    by (intro data_invI [OF q, where a = a' and b = b and C = C and p = p and F = F]) (use I C p u in \<open>simp_all\<close>)
qed

lemma the_batch_frame:
  assumes "queue_inv c s" "group_of (phase_of c s) = Some (lw, u)" "tmp_batch s' = tmp_batch s"
    "c < length (threads s) \<Longrightarrow> w_batch (threads s' ! c) = w_batch (threads s ! c)"
  shows "the_batch u s' = the_batch u s"
proof -
  have c: "c < length (threads s)" using assms(2) by (auto simp: phase_of_def split: if_splits)
  then have "u = Tmp \<or> u = Caller c" using the_group(4) [OF assms(1) c, of lw u] assms(2) by (simp add: phase_of_def)
  then show ?thesis using assms(3,4) c by (auto simp: the_batch_def)
qed

lemma data_inv_enter:
  assumes inv: "data_inv calls c s"
  shows "data_inv calls c (Write_enter b y s)"
proof -
  have q: "queue_inv c s" using inv by (simp add: data_inv_def)
  note le = queue_invD(2) [OF q]
  show ?thesis
  proof (rule data_inv_frame [OF inv queue_inv_enter [OF q]])
    show "committed calls c (Write_enter b y s) = committed calls c s"
      using le by (intro committed_cong) (simp add: Write_enter_def nth_append)
    show "phase_of c (Write_enter b y s) = phase_of c s"
      using le by (cases "c = length (threads s)") (simp_all add: phase_of_def Write_enter_def nth_append)
    show "the_batch u (Write_enter b y s) = the_batch u s" if "group_of (phase_of c s) = Some (lw, u)" for lw u
      by (rule the_batch_frame [OF q that]) (simp_all add: Write_enter_def nth_append)
  qed (auto simp: Write_enter_def stored_defs)
qed

lemma data_inv_wait:
  assumes inv: "data_inv calls c s" and t: "t < length (threads s)" "w_phase (threads s ! t) = Waiting"
  shows "data_inv calls c (Write_wait t s)"
proof -
  have q: "queue_inv c s" using inv by (simp add: data_inv_def)
  note q' = queue_inv_wait [OF q t]
  have same: "last_seq (Write_wait t s) = last_seq s" "db_log (Write_wait t s) = db_log s" "tmp_batch (Write_wait t s) = tmp_batch s"
    "flushed (Write_wait t s) = flushed s" "db_imm (Write_wait t s) = db_imm s" "db_mem (Write_wait t s) = db_mem s"
    "imm_log (Write_wait t s) = imm_log s"
    by (simp_all add: Write_wait_def Let_def)
  show ?thesis
  proof (cases "t = c")
    case True
    then have wait: "phase_of c s = Waiting" "\<not> w_done (threads s ! c)" using t queue_invD(5) [OF q] by (simp_all add: phase_of_def leads_def)
    then have none: "group_of (phase_of c (Write_wait t s)) = None"
      using t True by (auto simp: Write_wait_def Let_def phase_of_def set_phase_def nth_list_update)
    have "committed calls c (Write_wait t s) = committed calls c s"
      by (rule committed_cong) (use True wait(2) in \<open>auto simp: Write_wait_def Let_def set_phase_def\<close>)
    then show ?thesis
    proof (rule data_inv_idle [OF inv q' _ _ none same(1)])
      show "\<exists>a b. stored a b (committed calls c s) (committed calls c s) (Write_wait t s) \<and>
          log_holds (db_log (Write_wait t s)) b (drop b (committed calls c s))"
        if "stored a b (committed calls c s) (committed calls c s) s" "log_holds (db_log s) b (drop b (committed calls c s))" for a b
        using that stored_cong [OF same(4-7)] same(2) by auto
    qed (use wait in simp)
  next
    case False
    show ?thesis
    proof (rule data_inv_frame [OF inv q'])
      show "committed calls c (Write_wait t s) = committed calls c s"
      proof (rule committed_cong)
        fix i assume i: "i < c"
        show "outcome (threads (Write_wait t s) ! i) = outcome (threads s ! i)"
        proof (cases "i = t")
          case True
          then have "w_done (threads s ! t)" using queue_invD(3) [OF q i] t by (simp add: gone_def)
          then show ?thesis using True t by (simp add: Write_wait_def Let_def set_phase_def outcome_def)
        next
          case False
          then show ?thesis by (simp add: Write_wait_def Let_def set_phase_def)
        qed
      qed
      show "phase_of c (Write_wait t s) = phase_of c s"
        using False by (simp add: Write_wait_def Let_def phase_of_def set_phase_def)
      show "the_batch u (Write_wait t s) = the_batch u s" if "group_of (phase_of c s) = Some (lw, u)" for lw u
        by (rule the_batch_frame [OF q that]) (use False in \<open>simp_all add: Write_wait_def Let_def set_phase_def\<close>)
    qed (use same stored_cong [of "Write_wait t s" s] in auto)
  qed
qed

lemma data_inv_room:
  assumes inv: "data_inv calls c s" and t: "t < length (threads s)" "w_phase (threads s ! t) = MakingRoom force delay"
    and fresh: "\<And>f. r = Inr f \<Longrightarrow> good f \<and> content f = []"
  shows "data_inv calls c (MakeRoom_turn opts usage r t force delay s)"
proof -
  have q: "queue_inv c s" using inv by (simp add: data_inv_def)
  have c: "t = c" using the_leader [OF q t(1)] t(2) by simp
  have p: "group_of (phase_of c s) = None" "c < length (threads s)" using t c by (simp_all add: phase_of_def)
  note q' = queue_inv_room [OF q t, of opts usage r]
  show ?thesis
  proof (cases rule: MakeRoom_turn_cases [of opts usage r t force delay s])
    case (leave st n)
    show ?thesis
      unfolding leave(1)
      by (rule data_inv_idle [OF inv q' [unfolded leave(1)] _ p(1)]) (use p(2) in \<open>auto simp: c stored_defs\<close>)
  next
    case (again d)
    show ?thesis
      unfolding again
      by (rule data_inv_idle [OF inv q' [unfolded again] _ p(1)]) (use p(2) in \<open>auto simp: c stored_defs\<close>)
  next
    case (switch f)
    let ?s = "MakeRoom_turn opts usage r t force delay s" and ?C = "committed calls c s"
    show ?thesis
    proof (rule data_inv_idle [OF inv q' _ p(1)])
      fix a b
      assume "stored a b ?C ?C s" "log_holds (db_log s) b (drop b ?C)"
      then have "stored a (length ?C) ?C ?C ?s"
        by (rule stored_switch [OF _ _ switch(2)]) (simp_all add: switch(3))
      moreover have "log_holds (db_log ?s) (length ?C) (drop (length ?C) ?C)"
        using fresh [OF switch(1)] by (simp add: switch(3) log_holds_new)
      ultimately show "\<exists>a b. stored a b ?C ?C ?s \<and> log_holds (db_log ?s) b (drop b ?C)" by blast
    next
      show "committed calls c ?s = committed calls c s" unfolding switch(3) by (rule committed_cong) (simp add: c set_phase_def)
    qed (use p(2) in \<open>simp_all add: switch(3)\<close>, simp_all add: c phase_of_def set_phase_def)
  qed (use inv in simp)
qed

section \<open>Steps of the group\<close>

text \<open>The end of a group: its calls have succeeded or failed together.\<close>

lemma committed_finish:
  assumes q: "queue_inv c s" "c \<le> lw" "lw < length (threads s)" and s': "writers s' = writers s" "threads s' = threads s"
  shows "committed calls (Suc lw) (Write_finish c lw st s') =
    committed calls c s @ (if ok st then concat (map calls [c..<Suc lw]) else [])"
    "phase_of (Suc lw) (Write_finish c lw st s') = Waiting"
proof -
  obtain ws where ws: "Write_finish c lw st s' = s'\<lparr>writers := [Suc lw..<length (threads s)], threads := ws\<rparr>"
    "length ws = length (threads s)" "\<forall>i < length (threads s). ws ! i = released c lw st i (threads s ! i)"
    by (rule Write_finish_eq [OF q s'])
  have split: "[0..<Suc lw] = [0..<c] @ [c..<Suc lw]" using q(2) by (metis le0 le_SucI le_Suc_ex upt_add_eq_append)
  have before: "ok (outcome (ws ! i)) \<longleftrightarrow> ok (outcome (threads s ! i))" if "i < c" for i
    using ws(3) that q(2,3) by (simp add: released_def)
  have out: "ok (outcome (ws ! i)) \<longleftrightarrow> ok st" if "i \<in> set [c..<Suc lw]" for i
    using ws(3) that q queue_invD(4) [OF q(1), of i]
    by (cases "i = c") (auto simp: released_def outcome_def queued_def)
  have "filter (\<lambda>t. ok (outcome (ws ! t))) [0..<c] = filter (\<lambda>t. ok (outcome (threads s ! t))) [0..<c]"
    using before by (intro filter_cong) auto
  moreover have "filter (\<lambda>t. ok (outcome (ws ! t))) [c..<Suc lw] = (if ok st then [c..<Suc lw] else [])"
    using out by (auto simp: filter_id_conv filter_empty_conv)
  ultimately show "committed calls (Suc lw) (Write_finish c lw st s') =
    committed calls c s @ (if ok st then concat (map calls [c..<Suc lw]) else [])"
    unfolding committed_def ws(1) split by simp
  show "phase_of (Suc lw) (Write_finish c lw st s') = Waiting"
    using ws(2,3) q queue_invD(4) [OF q(1), of "Suc lw"] unfolding ws(1)
    by (simp add: phase_of_def released_def queued_def)
qed

lemma Write_finish_fields [simp]:
  "flushed (Write_finish t lw st s) = flushed s" "db_imm (Write_finish t lw st s) = db_imm s"
  "db_mem (Write_finish t lw st s) = db_mem s" "db_log (Write_finish t lw st s) = db_log s" "imm_log (Write_finish t lw st s) = imm_log s"
  "last_seq (Write_finish t lw st s) = last_seq s"
  by (simp_all add: Write_finish_def Let_def split: prod.splits)

lemma data_inv_finish:
  assumes q: "queue_inv c s" "c \<le> lw" "lw < length (threads s)" and s': "threads s' = threads s" "writers s' = writers s"
      "tmp_batch s' = Batch_Clear"
    and C: "C = committed calls c s @ (if ok st then concat (map calls [c..<Suc lw]) else [])"
    and h: "last_seq s' = of_nat (length C)" "stored a b C C s'" "log_holds (db_log s') b (drop b C)"
  shows "data_inv calls (Suc lw) (Write_finish c lw st s')"
proof (rule data_invI [OF queue_inv_finish [OF q s'] _ committed_finish(2) [OF q s'(2,1)] refl, where a = a and b = b])
  show "committed calls (Suc lw) (Write_finish c lw st s') = C"
    unfolding C by (rule committed_finish(1) [OF q s'(2,1)])
qed (use h in \<open>simp_all add: stored_defs no_error_def\<close>)

lemma data_inv_start:
  assumes inv: "data_inv calls c s" and t: "t < length (threads s)" "w_phase (threads s ! t) = Room st" and cl: "clients calls s"
  shows "\<exists>c' \<ge> c. data_inv calls c' (Write_start t st s)"
proof -
  have q: "queue_inv c s" using inv by (simp add: data_inv_def)
  have c: "t = c" using the_leader [OF q t(1)] t(2) by simp
  note cN = t(1) [unfolded c]
  have p: "phase_of c s = Room st" using t c by (simp add: phase_of_def)
  have tmp: "tmp_batch s = Batch_Clear" using tmp_is_clear [OF q] t c by simp
  obtain a b where "stored a b (committed calls c s) (committed calls c s) s"
      "log_holds (db_log s) b (drop b (committed calls c s))" "last_seq s = of_nat (length (committed calls c s))"
    by (rule data_inv_idleE [OF inv]) (simp_all add: p)
  note ab = this(3,1,2)
  show ?thesis
  proof (cases "ok st \<and> w_batch (threads s ! t) \<noteq> None")
    case False
    then have eq: "Write_start t st s = Write_finish c c st s" by (auto simp: Write_start_def c)
    have "client (calls c) (w_batch (threads s ! c))" using cl cN by (simp add: clients_def)
    then have "(if ok st then concat (map calls [c..<Suc c]) else []) = []" using False c by (auto simp: client_def)
    then have "data_inv calls (Suc c) (Write_start t st s)"
      unfolding eq by (intro data_inv_finish [OF q order.refl cN refl refl tmp refl, where a = a and b = b]) (use ab in simp_all)
    then show ?thesis by (intro exI [of _ "Suc c"]) simp
  next
    case True
    obtain u lw s1 where g: "BuildBatchGroup s = (u, lw, s1)" by (metis prod_cases3)
    let ?F = "concat (map calls [c..<Suc lw])" and ?C = "committed calls c s"
    note last = BuildBatchGroup_last [OF q cN g]
    obtain tmp1 where s1: "s1 = s\<lparr>tmp_batch := tmp1\<rparr>" using last(6) by blast
    define d where "d = batch_bytes (of_nat (length ?C) + 1) (length ?F) (concat (map record_bytes ?F))"
    define s2 where "s2 = set_batch u d s1"
    define p where "p = Logging lw u (of_nat (length (?C @ ?F)))"
    have spec: "Batch_SetSequence (the_batch u s1) (last_seq s1 + 1) = d" "length ?F < 2 ^ 31"
      using BuildBatchGroup_spec [OF q cN cl _ tmp g] True c ab(1) by (simp_all add: d_def s1)
    have same: "last_seq s2 = last_seq s" "flushed s2 = flushed s" "db_imm s2 = db_imm s" "db_mem s2 = db_mem s" "db_log s2 = db_log s"
      "imm_log s2 = imm_log s"
      by (simp_all add: s2_def s1 set_batch_def split: batch_ptr.splits)
    have u: "the_batch u s2 = d" using last(3) cN by (auto simp: s2_def set_batch_def the_batch_def s1)
    have count: "Batch_Count d = int (length ?F)" using spec(2) by (simp add: d_def Batch_Count_bytes)
    have eq: "Write_start t st s = set_phase c p s2"
      using True unfolding Write_start_def g c
      by (simp add: Let_def spec(1) s2_def [symmetric] u count same(1) ab(1) p_def)
    have q': "queue_inv c (set_phase c p s2)"
      unfolding s2_def p_def by (rule queue_inv_set_batch [OF q cN]) (use last tmp in auto)
    have C: "committed calls c (set_phase c p s2) = ?C"
      by (rule committed_cong) (use last(3) in \<open>auto simp: set_phase_def s2_def s1 set_batch_def\<close>)
    have N: "c < length (threads s2)" using cN by (simp add: s2_def s1 set_batch_def split: batch_ptr.splits)
    have "data_inv calls c (set_phase c p s2)"
    proof (rule data_invI [OF q' C _ _, where p = p and F = ?F and a = a and b = b])
      show "stored a b ?C (?C @ (if in_mem p then ?F else [])) (set_phase c p s2)"
        using ab(2) same by (simp add: p_def stored_defs)
      show "the_batch v (set_phase c p s2) = batch_bytes (of_nat (length ?C) + 1) (length ?F) (concat (map record_bytes ?F)) \<and>
          next_seq p = Some (of_nat (length (?C @ ?F))) \<and> length ?F < 2 ^ 31" if "group_of p = Some (l, v)" for l v
        using that u spec(2) by (simp add: p_def d_def)
    qed (use N ab same in \<open>simp_all add: p_def in_flight_def no_error_def\<close>)
    then show ?thesis unfolding eq by auto
  qed
qed

text \<open>The leader between the pieces in which it writes.\<close>

lemma data_inv_groupE:
  assumes "data_inv calls c s" "t < length (threads s)" "group_of (w_phase (threads s ! t)) = Some (lw, u)"
  obtains C F a b where "t = c" "queue_inv c s" "c \<le> lw" "lw < length (threads s)" "committed calls c s = C" "concat (map calls [c..<Suc lw]) = F"
    "last_seq s = of_nat (length C)" "no_error (w_phase (threads s ! c))"
    "stored a b C (C @ (if in_mem (w_phase (threads s ! c)) then F else [])) s"
    "log_holds (db_log s) b (drop b (C @ (if in_log (w_phase (threads s ! c)) then F else [])))"
    "the_batch u s = batch_bytes (of_nat (length C) + 1) (length F) (concat (map record_bytes F))"
    "next_seq (w_phase (threads s ! c)) = Some (of_nat (length (C @ F)))" "length F < 2 ^ 31"
proof -
  have q: "queue_inv c s" using assms(1) by (simp add: data_inv_def)
  note G = the_group [OF q assms(2,3)]
  have p: "phase_of c s = w_phase (threads s ! c)" using assms(2) G(1) by (simp add: phase_of_def)
  have F: "in_flight calls c (w_phase (threads s ! c)) = concat (map calls [c..<Suc lw])" using assms(3) G(1) by (simp add: in_flight_def)
  show thesis
    by (rule data_invE [OF assms(1)], rule that [OF G(1) q G(2,3)]) (use assms(3) G(1) in \<open>auto simp: p F\<close>)
qed

text \<open>The leader goes on to a phase of the same group.\<close>

lemma data_inv_go_on:
  assumes q: "queue_inv c s" "queue_inv c (set_phase c p s')" and N: "c < length (threads s)" "threads s' = threads s" "tmp_batch s' = tmp_batch s"
    and g: "group_of p = Some (lw, u)" "next_seq p = Some (of_nat (length (C @ F)))" "no_error p"
    and C: "committed calls c s = C" "concat (map calls [c..<Suc lw]) = F" "last_seq s' = of_nat (length C)"
    and h: "stored a b C (C @ (if in_mem p then F else [])) s'" "log_holds (db_log s') b (drop b (C @ (if in_log p then F else [])))"
      "the_batch u s = batch_bytes (of_nat (length C) + 1) (length F) (concat (map record_bytes F))" "length F < 2 ^ 31"
  shows "data_inv calls c (set_phase c p s')"
proof (rule data_invI [OF q(2) _ _ _, where p = p and C = C and F = F and a = a and b = b])
  have "committed calls c s' = committed calls c s" using N(2) by (simp add: committed_def)
  then show "committed calls c (set_phase c p s') = C" using C(1) by simp
  show "stored a b C (C @ (if in_mem p then F else [])) (set_phase c p s')" using h(1) by (simp add: stored_defs)
  have "the_batch u s' = the_batch u s" using N by (simp add: the_batch_def split: batch_ptr.splits)
  then show "the_batch v (set_phase c p s') = batch_bytes (of_nat (length C) + 1) (length F) (concat (map record_bytes F)) \<and>
      next_seq p = Some (of_nat (length (C @ F))) \<and> length F < 2 ^ 31" if "group_of p = Some (l, v)" for l v
    using that g(1,2) h(3,4) by simp
qed (use N C(2,3) g(1,3) h(2) in \<open>simp_all add: in_flight_def\<close>)

lemma data_inv_log:
  assumes inv: "data_inv calls c s" and t: "t < length (threads s)" "w_phase (threads s ! t) = Logging lw u seq"
  shows "data_inv calls c (Write_log ops t lw u seq s)"
proof -
  have "group_of (w_phase (threads s ! t)) = Some (lw, u)" using t(2) by simp
  then obtain C F a b where I: "t = c" "queue_inv c s" "committed calls c s = C" "concat (map calls [c..<Suc lw]) = F"
    "last_seq s = of_nat (length C)" "stored a b C C s" "log_holds (db_log s) b (drop b C)"
    "the_batch u s = batch_bytes (of_nat (length C) + 1) (length F) (concat (map record_bytes F))"
    "seq = of_nat (length (C @ F))" "length F < 2 ^ 31"
    by (rule data_inv_groupE [OF inv t(1)]) (use t(2) in auto)
  have b: "b \<le> length C" using I(6) by (simp add: stored_defs)
  then have num: "of_nat (b + length (drop b C)) + 1 = (of_nat (length C) + 1 :: u64)" by simp
  obtain w where w: "AddRecord ops (db_log s) (the_batch u s) = (OK, w)" "log_holds w b (drop b C @ F)"
    using AddRecord_holds [OF I(7,10)] unfolding num I(8) by blast
  define p where "p = (if w_sync (threads s ! c) then Syncing lw u seq else Inserting lw u seq)"
  have eq: "Write_log ops t lw u seq s = set_phase c p (s\<lparr>db_log := w\<rparr>)"
    using w(1) by (simp add: Write_log_def Batch_Contents_def I(1) p_def)
  have g: "group_of p = Some (lw, u)" "next_seq p = Some (of_nat (length (C @ F)))" "no_error p" "in_log p" "\<not> in_mem p"
    using I(9) by (simp_all add: p_def no_error_def)
  have "queue_inv c (set_phase c p (s\<lparr>db_log := w\<rparr>))"
    using queue_inv_in_group [OF I(2) t(1), of "(lw, u)" p "s\<lparr>db_log := w\<rparr>"] t(2) g(1) I(1) by simp
  then show ?thesis unfolding eq
    by (rule data_inv_go_on [OF I(2) _ _ _ _ g(1-3) I(3,4), where a = a and b = b])
      (use t(1) I w(2) g b in \<open>simp_all add: stored_defs\<close>)
qed

lemma data_inv_sync:
  assumes inv: "data_inv calls c s" and t: "t < length (threads s)" "w_phase (threads s ! t) = Syncing lw u seq"
  shows "data_inv calls c (Write_sync ops t lw u seq s)"
proof -
  have "group_of (w_phase (threads s ! t)) = Some (lw, u)" using t(2) by simp
  then obtain C F a b where I: "t = c" "queue_inv c s" "committed calls c s = C" "concat (map calls [c..<Suc lw]) = F"
    "last_seq s = of_nat (length C)" "stored a b C C s" "log_holds (db_log s) b (drop b (C @ F))"
    "the_batch u s = batch_bytes (of_nat (length C) + 1) (length F) (concat (map record_bytes F))"
    "seq = of_nat (length (C @ F))" "length F < 2 ^ 31"
    by (rule data_inv_groupE [OF inv t(1)]) (use t(2) in auto)
  obtain f where f: "Sync ops (dest (db_log s)) = (OK, f)" "log_holds ((db_log s)\<lparr>dest := f\<rparr>) b (drop b (C @ F))"
    using Sync_holds [OF I(7)] by blast
  have eq: "Write_sync ops t lw u seq s = set_phase c (Inserting lw u seq) (s\<lparr>db_log := (db_log s)\<lparr>dest := f\<rparr>\<rparr>)"
    using f(1) by (simp add: Write_sync_def I(1))
  have "queue_inv c (set_phase c (Inserting lw u seq) (s\<lparr>db_log := (db_log s)\<lparr>dest := f\<rparr>\<rparr>))"
    using queue_inv_in_group [OF I(2) t(1), of "(lw, u)" "Inserting lw u seq" "s\<lparr>db_log := (db_log s)\<lparr>dest := f\<rparr>\<rparr>"] t(2) I(1) by simp
  then show ?thesis unfolding eq
    by (rule data_inv_go_on [OF I(2) _ _ _ _ _ _ _ I(3,4), where a = a and b = b])
      (use t(1) I f(2) in \<open>simp_all add: stored_defs no_error_def\<close>)
qed

lemma insert_result:
  assumes inv: "data_inv calls c s" and t: "t < length (threads s)" "w_phase (threads s ! t) = Inserting lw u seq" and cl: "clients calls s"
  shows "\<exists>s'. Write_insert t lw u seq s = Some s' \<and> data_inv calls c s'"
proof -
  have "group_of (w_phase (threads s ! t)) = Some (lw, u)" using t(2) by simp
  then obtain C F a b where I: "t = c" "queue_inv c s" "committed calls c s = C" "concat (map calls [c..<Suc lw]) = F"
    "last_seq s = of_nat (length C)" "stored a b C C s" "log_holds (db_log s) b (drop b (C @ F))"
    "the_batch u s = batch_bytes (of_nat (length C) + 1) (length F) (concat (map record_bytes F))"
    "seq = of_nat (length (C @ F))" "length F < 2 ^ 31" "c \<le> lw" "lw < length (threads s)"
    by (rule data_inv_groupE [OF inv t(1)]) (use t(2) in auto)
  have "length (C @ F) < 2 ^ 56" "\<forall>p \<in> set (C @ F). op_fits p"
    using committed_in_flight [OF cl, of c "Suc lw"] I(11,12) unfolding I(3) I(4) by simp_all
  moreover have b: "mem_has (db_mem s) (drop b (number_ops 1 C))" "b \<le> length C" using I(6) by (simp_all add: stored_defs)
  ultimately obtain m where m: "Batch_InsertInto (the_batch u s) (db_mem s) = Some (OK, m)" "mem_has m (drop b (number_ops 1 (C @ F)))"
    using table_insert [OF b I(10)] unfolding I(8) by blast
  have eq: "Write_insert t lw u seq s = Some (set_phase c (Publishing lw u seq OK False) (s\<lparr>db_mem := m\<rparr>))"
    using m(1) by (simp add: Write_insert_def I(1))
  have "queue_inv c (set_phase c (Publishing lw u seq OK False) (s\<lparr>db_mem := m\<rparr>))"
    using queue_inv_in_group [OF I(2) t(1), of "(lw, u)" "Publishing lw u seq OK False" "s\<lparr>db_mem := m\<rparr>"] t(2) I(1) by simp
  then have "data_inv calls c (set_phase c (Publishing lw u seq OK False) (s\<lparr>db_mem := m\<rparr>))"
    by (rule data_inv_go_on [OF I(2) _ _ _ _ _ _ _ I(3,4), where a = a and b = b])
      (use t(1) I m(2) in \<open>simp_all add: stored_defs no_error_def\<close>)
  then show ?thesis unfolding eq by blast
qed

lemma data_inv_publish:
  assumes inv: "data_inv calls c s" and t: "t < length (threads s)" "w_phase (threads s ! t) = Publishing lw u seq st e"
  shows "\<exists>c' \<ge> c. data_inv calls c' (Write_publish t lw u seq st e s)"
proof -
  have g: "group_of (w_phase (threads s ! t)) = Some (lw, u)" using t(2) by simp
  then obtain C F a b where I: "t = c" "queue_inv c s" "committed calls c s = C" "concat (map calls [c..<Suc lw]) = F"
    "stored a b C (C @ F) s" "log_holds (db_log s) b (drop b (C @ F))"
    "seq = of_nat (length (C @ F))" "c \<le> lw" "lw < length (threads s)" "st = OK" "\<not> e"
    by (rule data_inv_groupE [OF inv t(1)]) (use t(2) in \<open>auto simp: no_error_def\<close>)
  have u: "u = Tmp \<or> u = Caller c" using the_group(4) [OF I(2) t(1) g] .
  define s1 where "s1 = (if u = Tmp then s\<lparr>tmp_batch := Batch_Clear\<rparr> else s)\<lparr>last_seq := seq\<rparr>"
  have tmp: "tmp_batch s1 = Batch_Clear"
    using u tmp_is_clear [OF I(2)] t I(1) by (auto simp: s1_def)
  have eq: "Write_publish t lw u seq st e s = Write_finish c lw st s1"
    using I(1,11) by (simp add: Write_publish_def s1_def Let_def)
  have "data_inv calls (Suc lw) (Write_finish c lw st s1)"
    by (rule data_inv_finish [OF I(2,8,9), where C = "C @ F" and a = a and b = b])
      (use I tmp stored_commit [OF I(5)] in \<open>simp_all add: s1_def stored_defs\<close>)
  then show ?thesis unfolding eq using I(8) by (intro exI [of _ "Suc lw"]) simp
qed

lemma data_inv_background:
  assumes inv: "data_inv calls c s"
  shows "data_inv calls c (RecordBackgroundError st (s\<lparr>level0_files := k\<rparr>))" "data_inv calls c (CompactMemTable st s)"
proof -
  have q: "queue_inv c s" using inv by (simp add: data_inv_def)
  have same: "committed calls c s' = committed calls c s" "phase_of c s' = phase_of c s" "queue_inv c s'"
      "tmp_batch s' = tmp_batch s \<Longrightarrow> the_batch u s' = the_batch u s"
    if "threads s' = threads s" "writers s' = writers s" "tmp_batch s' = tmp_batch s" for s' :: "'a DBImpl" and u
    using that queue_inv_same [OF q that] by (simp_all add: committed_def phase_of_def the_batch_def split: batch_ptr.splits)
  show "data_inv calls c (RecordBackgroundError st (s\<lparr>level0_files := k\<rparr>))"
    by (rule data_inv_frame [OF inv same(3) same(1,2)]) (auto simp: RecordBackgroundError_def stored_defs intro!: same(4))
  show "data_inv calls c (CompactMemTable st s)"
  proof (cases "db_imm s")
    case None
    then show ?thesis using inv by (simp add: CompactMemTable_def)
  next
    case (Some m)
    show ?thesis
    proof (cases "ok st")
      case True
      then have eq: "CompactMemTable st s = s\<lparr>db_imm := None, imm_log := None, flushed := flushed s @ [m]\<rparr>" using Some by (simp add: CompactMemTable_def)
      show ?thesis unfolding eq
      proof (rule data_inv_frame [OF inv same(3) same(1,2)])
        show "\<exists>a. stored a b C M (s\<lparr>db_imm := None, imm_log := None, flushed := flushed s @ [m]\<rparr>)" if "stored a b C M s" for a b C M
          by (rule exI, rule stored_compact [OF that Some]) simp_all
      qed (auto intro!: same(4))
    next
      case False
      then have eq: "CompactMemTable st s = RecordBackgroundError st s" using Some by (simp add: CompactMemTable_def)
      show ?thesis unfolding eq
        by (rule data_inv_frame [OF inv same(3) same(1,2)]) (auto simp: RecordBackgroundError_def stored_defs intro!: same(4))
    qed
  qed
qed

lemma data_inv_step:
  assumes "db_step opts usage creates ops s s'" "data_inv calls c s" "clients calls s" "\<And>f. creates (Inr f) \<Longrightarrow> good f \<and> content f = []"
  shows "\<exists>c' \<ge> c. data_inv calls c' s'"
  using assms
proof (induction rule: db_step.induct)
  case (enter s b y)
  then show ?case using data_inv_enter by blast
next
  case (wait t s)
  then show ?case using data_inv_wait by blast
next
  case (room t s force delay r)
  then have "data_inv calls c (MakeRoom_turn opts usage r t force delay s)" by (intro data_inv_room) auto
  then show ?case by blast
next
  case (start t s st)
  then show ?case using data_inv_start by blast
next
  case (log t s lw u seq)
  then show ?case using data_inv_log by blast
next
  case (sync t s lw u seq)
  then show ?case using data_inv_sync by blast
next
  case (insert t s lw u seq s')
  then show ?case using insert_result [OF insert(4,1,2,5)] by auto
next
  case (publish t s lw u seq st e)
  then show ?case using data_inv_publish by blast
next
  case (compacted s m st)
  then show ?case using data_inv_background by blast
next
  case (background s st k)
  then show ?case using data_inv_background by blast
qed

lemma data_inv_reach:
  assumes "db_reach opts usage creates ops s s'" "data_inv calls c s" "clients calls s'" "\<And>f. creates (Inr f) \<Longrightarrow> good f \<and> content f = []"
  shows "\<exists>c' \<ge> c. data_inv calls c' s'"
  using assms(1,3)
proof (induction rule: rtranclp_induct)
  case base
  then show ?case using assms(2) by blast
next
  case (step s1 s2)
  obtain c1 where "queue_inv c1 s1"
    by (rule queue_inv_reach [OF step(1), of c]) (use assms(2) in \<open>auto simp: data_inv_def\<close>)
  then have cl: "clients calls s1" using kept_clients [OF kept_step [OF step(2)]] step(4) by blast
  obtain c' where "c \<le> c'" "data_inv calls c' s1" using step.IH [OF cl] by blast
  then show ?case using data_inv_step [OF step(2) _ cl assms(4)] order.trans by blast
qed

end

end
