(* ===== verification/LdbWriteLive.thy ===== *)
theory LdbWriteLive
  imports LdbWriteInv
begin

text \<open>
  Progress: the first writer of the queue can go on to its return, from every place where it can be, when the background
  thread does its work.
\<close>

lemma kept_clients_forward: "kept s s' \<Longrightarrow> length (threads s') = length (threads s) \<Longrightarrow> clients calls s \<Longrightarrow> clients calls s'"
  by (simp add: kept_def clients_def)

lemma length_set_phase [simp]: "length (threads (set_phase t p s)) = length (threads s)"
  by (simp add: set_phase_def)

lemma phase_set_phase [simp]: "t < length (threads s) \<Longrightarrow> w_phase (threads (set_phase t p s) ! t) = p"
  by (simp add: set_phase_def)

lemma ok_is_OK: "ok st \<longleftrightarrow> st = OK"
  by (simp add: ok_def OK_def)

lemma finish_returns:
  assumes "queue_inv c s" "c \<le> lw" "lw < length (threads s)" "writers s' = writers s" "threads s' = threads s"
  shows "length (threads (Write_finish c lw st s')) = length (threads s)" "w_phase (threads (Write_finish c lw st s') ! c) = Returned st"
  by (rule Write_finish_eq [OF assms, of st]; use assms in \<open>simp add: released_def\<close>)+

text \<open>The call \<open>c\<close> can be brought to return with the status \<open>st\<close>.\<close>

definition returns :: "('f DBImpl \<Rightarrow> 'f DBImpl \<Rightarrow> bool) \<Rightarrow> nat \<Rightarrow> Status \<Rightarrow> 'f DBImpl \<Rightarrow> bool" where
  "returns step c st s \<longleftrightarrow> (\<exists>s'. step\<^sup>*\<^sup>* s s' \<and> length (threads s') = length (threads s) \<and> w_phase (threads s' ! c) = Returned st)"

lemma returns_step: "step s s' \<Longrightarrow> length (threads s') = length (threads s) \<Longrightarrow> returns step c st s' \<Longrightarrow> returns step c st s"
  unfolding returns_def by (metis converse_rtranclp_into_rtranclp)

lemmas returns_db_step = returns_step [of "db_step opts usage creates ops" for opts usage creates ops]

context synced_file
begin

lemma publish_returns:
  assumes inv: "data_inv calls c s" and N: "c < length (threads s)" "w_phase (threads s ! c) = Publishing lw u seq st e"
  shows "returns (db_step opts usage creates ops) c OK s"
proof -
  have q: "queue_inv c s" using inv by (simp add: data_inv_def)
  have g: "group_of (w_phase (threads s ! c)) = Some (lw, u)" using N(2) by simp
  note G = the_group(2,3) [OF q N(1) g]
  have st: "st = OK" by (rule data_inv_groupE [OF inv N(1) g]) (use N(2) in \<open>auto simp: no_error_def\<close>)
  define s1 where "s1 = (let s = (if e then RecordBackgroundError st s else s); s = (if u = Tmp then s\<lparr>tmp_batch := Batch_Clear\<rparr> else s)
      in s\<lparr>last_seq := seq\<rparr>)"
  have s1: "writers s1 = writers s" "threads s1 = threads s" by (simp_all add: s1_def Let_def RecordBackgroundError_def)
  have "Write_publish c lw u seq st e s = Write_finish c lw st s1" by (simp add: Write_publish_def s1_def Let_def)
  then have "db_step opts usage creates ops s (Write_finish c lw st s1)" using db_step.publish [OF N] by metis
  then show ?thesis
    unfolding returns_def using finish_returns [OF q G s1, of st] st by blast
qed

lemma insert_returns:
  assumes inv: "data_inv calls c s" and cl: "clients calls s" and N: "c < length (threads s)" "w_phase (threads s ! c) = Inserting lw u seq"
  shows "returns (db_step opts usage creates ops) c OK s"
proof -
  obtain s' where s': "Write_insert c lw u seq s = Some s'" "data_inv calls c s'" using insert_result [OF inv N cl] by blast
  have len: "length (threads s') = length (threads s)" using s'(1) by (auto simp: Write_insert_def)
  obtain st where "w_phase (threads s' ! c) = Publishing lw u seq st False" using s'(1) N(1) by (auto simp: Write_insert_def)
  then have "returns (db_step opts usage creates ops) c OK s'" using publish_returns [OF s'(2), of lw u seq st False] N(1) len by simp
  then show ?thesis by (rule returns_db_step [OF db_step.insert [OF N s'(1)] len])
qed

lemma sync_returns:
  assumes inv: "data_inv calls c s" and cl: "clients calls s" and N: "c < length (threads s)" "w_phase (threads s ! c) = Syncing lw u seq"
  shows "returns (db_step opts usage creates ops) c OK s"
proof -
  let ?s = "Write_sync ops c lw u seq s"
  have q: "queue_inv c s" using inv by (simp add: data_inv_def)
  obtain b L where "log_holds (db_log s) b L" by (rule data_invE [OF inv])
  then obtain f where "Sync ops (dest (db_log s)) = (OK, f)" using Sync_holds by blast
  then have p: "w_phase (threads ?s ! c) = Inserting lw u seq" "length (threads ?s) = length (threads s)"
    using N(1) by (simp_all add: Write_sync_def ok_is_OK)
  have step: "db_step opts usage creates ops s ?s" by (rule db_step.sync [OF N])
  have "clients calls ?s" by (rule kept_clients_forward [OF kept_step [OF step q] p(2) cl])
  then show ?thesis using insert_returns [OF data_inv_sync [OF inv N]] p N(1) returns_db_step [OF step] by metis
qed

lemma log_returns:
  assumes inv: "data_inv calls c s" and cl: "clients calls s" and N: "c < length (threads s)" "w_phase (threads s ! c) = Logging lw u seq"
  shows "returns (db_step opts usage creates ops) c OK s"
proof -
  let ?s = "Write_log ops c lw u seq s"
  have q: "queue_inv c s" using inv by (simp add: data_inv_def)
  have step: "db_step opts usage creates ops s ?s" by (rule db_step.log [OF N])
  have inv': "data_inv calls c ?s" by (rule data_inv_log [OF inv N])
  obtain st w where "AddRecord ops (db_log s) (Batch_Contents (the_batch u s)) = (st, w)" by (metis surj_pair)
  then have len: "length (threads ?s) = length (threads s)"
    and p: "w_phase (threads ?s ! c) = (if ok st then if w_sync (threads s ! c) then Syncing lw u seq else Inserting lw u seq
       else Publishing lw u seq st False)"
    using N(1) by (simp_all add: Write_log_def)
  have cl': "clients calls ?s" by (rule kept_clients_forward [OF kept_step [OF step q] len cl])
  have "returns (db_step opts usage creates ops) c OK ?s"
    using publish_returns [OF inv', of lw u seq st False] insert_returns [OF inv' cl'] sync_returns [OF inv' cl'] p N(1) len by (simp split: if_splits)
  then show ?thesis by (rule returns_db_step [OF step len])
qed

lemma start_returns:
  assumes inv: "data_inv calls c s" and cl: "clients calls s" and N: "c < length (threads s)" "w_phase (threads s ! c) = Room st"
  shows "returns (db_step opts usage creates ops) c st s"
proof -
  let ?s = "Write_start c st s"
  have q: "queue_inv c s" using inv by (simp add: data_inv_def)
  have step: "db_step opts usage creates ops s ?s" by (rule db_step.start [OF N])
  show ?thesis
  proof (cases "ok st \<and> w_batch (threads s ! c) \<noteq> None")
    case False
    then have "?s = Write_finish c c st s" by (auto simp: Write_start_def)
    then show ?thesis using finish_returns [OF q order.refl N(1) refl refl, of st] step unfolding returns_def by auto
  next
    case True
    obtain u lw s1 where g: "BuildBatchGroup s = (u, lw, s1)" by (metis prod_cases3)
    have th: "threads s1 = threads s" by (rule BuildBatchGroup_last(4) [OF q N(1) g])
    have len: "length (threads ?s) = length (threads s)"
      using True by (simp add: Write_start_def g th Let_def set_batch_def split: batch_ptr.splits)
    have "c < length (threads (set_batch u b s1))" for b using N(1) th by (simp add: set_batch_def split: batch_ptr.splits)
    then obtain seq where p: "w_phase (threads ?s ! c) = Logging lw u seq" using True by (simp add: Write_start_def g Let_def)
    have cl': "clients calls ?s" by (rule kept_clients_forward [OF kept_step [OF step q] len cl])
    obtain c' where c': "c \<le> c'" "data_inv calls c' ?s" using data_inv_start [OF inv N cl] by blast
    have "c = c'" using the_leader [of c' ?s c] c'(2) p N(1) len by (simp add: data_inv_def)
    then have "returns (db_step opts usage creates ops) c OK ?s" using log_returns [OF _ cl'] c'(2) p N(1) len by simp
    then show ?thesis using returns_db_step [OF step len] True by (simp add: ok_is_OK)
  qed
qed

text \<open>
  With room for a new memtable, and with a background thread that compacts the old one, a leader gets out of
  \<^verbatim>\<open>MakeRoomForWrite\<close>: without a background error with success.
\<close>

lemma room_now_returns:
  assumes inv: "data_inv calls c s" and cl: "clients calls s" and N: "c < length (threads s)" "w_phase (threads s ! c) = MakingRoom False delay"
    and fits: "usage (db_mem s) \<le> write_buffer_size opts" and ok: "bg_error s = OK" "level0_files s = 0"
    and new: "creates (Inr f)" "\<And>f. creates (Inr f) \<Longrightarrow> good f \<and> content f = []"
  shows "returns (db_step opts usage creates ops) c OK s"
proof -
  let ?s = "MakeRoom_turn opts usage (Inr f) c False delay s"
  have q: "queue_inv c s" using inv by (simp add: data_inv_def)
  have eq: "?s = set_phase c (Room OK) s" using fits ok by (simp add: MakeRoom_turn_def ok_is_OK kL0_SlowdownWritesTrigger_def)
  have step: "db_step opts usage creates ops s ?s" by (rule db_step.room [where creates = creates and r = "Inr f", OF N new(1)])
  have inv': "data_inv calls c ?s" by (rule data_inv_room [OF inv N]) (use new in blast)
  have len: "length (threads ?s) = length (threads s)" by (simp add: eq)
  have cl': "clients calls ?s" by (rule kept_clients_forward [OF kept_step [OF step q] len cl])
  have "returns (db_step opts usage creates ops) c OK ?s" by (rule start_returns [OF inv' cl']) (use N eq in simp_all)
  then show ?thesis by (rule returns_db_step [OF step len])
qed

lemma room_returns:
  assumes inv: "data_inv calls c s" and cl: "clients calls s" and N: "c < length (threads s)" "w_phase (threads s ! c) = MakingRoom force delay"
    and fits: "usage (MemTable_new BytewiseComparator) \<le> write_buffer_size opts"
    and new: "creates (Inr f)" "\<And>f. creates (Inr f) \<Longrightarrow> good f \<and> content f = []"
  shows "returns (db_step opts usage creates ops) c (bg_error s) s"
proof (cases "ok (bg_error s)")
  case False
  let ?s = "MakeRoom_turn opts usage (Inr f) c force delay s"
  have q: "queue_inv c s" using inv by (simp add: data_inv_def)
  have eq: "?s = set_phase c (Room (bg_error s)) s" using False by (simp add: MakeRoom_turn_def)
  have step: "db_step opts usage creates ops s ?s" by (rule db_step.room [where creates = creates and r = "Inr f", OF N new(1)])
  have inv': "data_inv calls c ?s" by (rule data_inv_room [OF inv N]) (use new in blast)
  have len: "length (threads ?s) = length (threads s)" by (simp add: eq)
  have cl': "clients calls ?s" by (rule kept_clients_forward [OF kept_step [OF step q] len cl])
  have "returns (db_step opts usage creates ops) c (bg_error s) ?s" by (rule start_returns [OF inv' cl']) (use N eq in simp_all)
  then show ?thesis by (rule returns_db_step [OF step len])
next
  case True
  then have bg: "bg_error s = OK" by (simp add: ok_is_OK)
  define s1 where "s1 = s\<lparr>level0_files := 0\<rparr>"
  have q: "queue_inv c s" using inv by (simp add: data_inv_def)
  have "s1 = RecordBackgroundError OK (s\<lparr>level0_files := 0\<rparr>)" using bg by (simp add: s1_def RecordBackgroundError_def)
  then have step1: "db_step opts usage creates ops s s1" and inv1: "data_inv calls c s1"
    using db_step.background [OF True, of opts usage creates ops OK 0] data_inv_background(1) [OF inv, of OK 0] by simp_all
  have th1: "threads s1 = threads s" "bg_error s1 = OK" "level0_files s1 = 0" "db_mem s1 = db_mem s" "db_imm s1 = db_imm s"
    by (simp_all add: s1_def bg)
  have cl1: "clients calls s1" using cl by (simp add: clients_def th1)
  define s2 where "s2 = CompactMemTable OK s1"
  have th2: "threads s2 = threads s" "bg_error s2 = OK" "level0_files s2 = 0" "db_mem s2 = db_mem s" "db_imm s2 = None"
    by (simp_all add: s2_def CompactMemTable_def th1 ok_is_OK split: option.splits)
  have inv2: "data_inv calls c s2" unfolding s2_def by (rule data_inv_background(2) [OF inv1])
  have cl2: "clients calls s2" using cl by (simp add: clients_def th2)
  have N2: "c < length (threads s2)" "w_phase (threads s2 ! c) = MakingRoom force delay" using N by (simp_all add: th2)
  have ret2: "returns (db_step opts usage creates ops) c OK s2"
  proof (cases "\<not> force \<and> usage (db_mem s2) \<le> write_buffer_size opts")
    case True
    then show ?thesis using room_now_returns [where creates = creates and f = f and usage = usage and opts = opts, OF inv2 cl2 N2(1) _ _ th2(2,3) new] N2(2) by simp
  next
    case False
    let ?s = "MakeRoom_turn opts usage (Inr f) c force delay s2"
    define s3 where "s3 = s2\<lparr>next_file_number := next_file_number s2 + 1, logfile_number := next_file_number s2, imm_log := Some (dest (db_log s2)), db_log := Writer_new f,
            db_imm := Some (db_mem s2), db_mem := MemTable_new (user_cmp (db_mem s2))\<rparr>"
    have eq: "?s = set_phase c (MakingRoom False delay) s3"
      using False th2 by (auto simp: MakeRoom_turn_def ok_is_OK kL0_SlowdownWritesTrigger_def kL0_StopWritesTrigger_def NewFileNumber_def s3_def)
    have q2: "queue_inv c s2" using inv2 by (simp add: data_inv_def)
    have step: "db_step opts usage creates ops s2 ?s" by (rule db_step.room [where creates = creates and r = "Inr f", OF N2 new(1)])
    have inv': "data_inv calls c ?s" by (rule data_inv_room [OF inv2 N2]) (use new in blast)
    have len: "length (threads ?s) = length (threads s2)" by (simp add: eq s3_def)
    have cl': "clients calls ?s" by (rule kept_clients_forward [OF kept_step [OF step q2] len cl2])
    obtain a b C M where "stored a b C M s2" by (rule data_invE [OF inv2])
    then have "user_cmp (db_mem s2) = BytewiseComparator" by (auto simp: stored_defs mem_has_def mem_inv_def)
    then have u: "usage (db_mem ?s) \<le> write_buffer_size opts" using fits by (simp add: eq s3_def)
    have "returns (db_step opts usage creates ops) c OK ?s"
      by (rule room_now_returns [where creates = creates and f = f and usage = usage and opts = opts and delay = delay, OF inv' cl' _ _ u _ _ new]) (use N2 th2 in \<open>simp_all add: eq s3_def set_phase_def\<close>)
    then show ?thesis by (rule returns_db_step [OF step len])
  qed
  have "returns (db_step opts usage creates ops) c OK s1"
  proof (cases "db_imm s1")
    case None
    then show ?thesis using ret2 by (simp add: s2_def CompactMemTable_def)
  next
    case (Some m)
    then have "db_step opts usage creates ops s1 s2" unfolding s2_def by (rule db_step.compacted) (simp add: th1 ok_is_OK)
    then show ?thesis by (rule returns_db_step) (use ret2 in \<open>simp_all add: th1 th2\<close>)
  qed
  then show ?thesis unfolding bg by (intro returns_db_step [OF step1]) (simp_all add: th1)
qed

lemma wait_returns:
  assumes inv: "data_inv calls c s" and cl: "clients calls s" and N: "c < length (threads s)" "w_phase (threads s ! c) = Waiting"
    and fits: "usage (MemTable_new BytewiseComparator) \<le> write_buffer_size opts"
    and new: "creates (Inr f)" "\<And>f. creates (Inr f) \<Longrightarrow> good f \<and> content f = []"
  shows "returns (db_step opts usage creates ops) c (bg_error s) s"
proof -
  let ?s = "Write_wait c s"
  have q: "queue_inv c s" using inv by (simp add: data_inv_def)
  note lead = queue_invD(5) [OF q N(1)]
  have "hd (writers s) = c" using queue_invD(1) [OF q] N(1) by (simp add: upt_conv_Cons)
  then obtain force delay where eq: "?s = set_phase c (MakingRoom force delay) s"
    using lead by (simp add: Write_wait_def leads_def Let_def)
  have step: "db_step opts usage creates ops s ?s" by (rule db_step.wait [OF N]) (use lead in \<open>simp add: leads_def\<close>)
  have len: "length (threads ?s) = length (threads s)" "bg_error ?s = bg_error s" by (simp_all add: eq set_phase_def)
  have cl': "clients calls ?s" by (rule kept_clients_forward [OF kept_step [OF step q] len(1) cl])
  have "returns (db_step opts usage creates ops) c (bg_error ?s) ?s"
    by (rule room_returns [where creates = creates and f = f and usage = usage and opts = opts, OF data_inv_wait [OF inv N] cl' _ _ fits new]) (use N eq in simp_all)
  then show ?thesis unfolding len(2) by (rule returns_db_step [OF step len(1)])
qed

text \<open>Wherever the leader is.\<close>

lemma leader_returns:
  assumes inv: "data_inv calls c s" and cl: "clients calls s" and N: "c < length (threads s)"
    and fits: "usage (MemTable_new BytewiseComparator) \<le> write_buffer_size opts"
    and new: "creates (Inr f)" "\<And>f. creates (Inr f) \<Longrightarrow> good f \<and> content f = []"
  shows "\<exists>st. returns (db_step opts usage creates ops) c st s"
proof (cases "w_phase (threads s ! c)")
  case Waiting
  then show ?thesis using wait_returns [where creates = creates and f = f and usage = usage and opts = opts, OF inv cl N _ fits new] by blast
next
  case (MakingRoom force delay)
  then show ?thesis using room_returns [where creates = creates and f = f and usage = usage and opts = opts, OF inv cl N _ fits new] by blast
next
  case (Room st)
  then show ?thesis using start_returns [OF inv cl N] by blast
next
  case (Logging lw u seq)
  then show ?thesis using log_returns [OF inv cl N] by blast
next
  case (Syncing lw u seq)
  then show ?thesis using sync_returns [OF inv cl N] by blast
next
  case (Inserting lw u seq)
  then show ?thesis using insert_returns [OF inv cl N] by blast
next
  case (Publishing lw u seq st e)
  then show ?thesis using publish_returns [OF inv N] by blast
next
  case (Returned st)
  then show ?thesis using queue_invD(5) [of c s] inv N by (auto simp: data_inv_def leads_def)
qed

end

end
