(* ===== verification/LdbWriteErrors.thy ===== *)
theory LdbWriteErrors
  imports LdbWriteQueue
begin

text \<open>Writes after a background error, and requests for a compaction that are lost. The file can be any file.\<close>

section \<open>A background error stays\<close>

text \<open>
  The states of a database with the error \<open>e\<close> in which nobody writes: \<open>w\<close> and \<open>m\<close> are the log and the memtable, and
  the calls from \<open>k\<close> on can only return \<open>e\<close>.
\<close>

definition stopped :: "Status \<Rightarrow> nat \<Rightarrow> 'f Writer \<Rightarrow> MemTable \<Rightarrow> 'f DBImpl \<Rightarrow> bool" where
  "stopped e k w m s \<longleftrightarrow> bg_error s = e \<and> db_log s = w \<and> db_mem s = m \<and>
     (\<forall>t < length (threads s).
        (case w_phase (threads s ! t) of Waiting \<Rightarrow> True | MakingRoom _ _ \<Rightarrow> True | Room st \<Rightarrow> st = e
         | Returned st \<Rightarrow> k \<le> t \<longrightarrow> st = e | _ \<Rightarrow> False) \<and>
        (k \<le> t \<and> w_done (threads s ! t) \<longrightarrow> w_status (threads s ! t) = e))"

lemma stopped_phase:
  assumes "stopped e k w m s" "t < length (threads s)"
    "case p of Waiting \<Rightarrow> True | MakingRoom _ _ \<Rightarrow> True | Room st \<Rightarrow> st = e | Returned st \<Rightarrow> k \<le> t \<longrightarrow> st = e | _ \<Rightarrow> False"
  shows "stopped e k w m (set_phase t p s)"
  using assms by (auto simp: stopped_def set_phase_def nth_list_update)

lemma stopped_step:
  assumes "db_step opts usage creates ops s s'" "queue_inv c s" "stopped e k w m s" "\<not> ok e"
  shows "stopped e k w m s'"
  using assms
proof (induction rule: db_step.induct)
  case (enter s b y)
  then show ?case by (auto simp: stopped_def Write_enter_def nth_append less_Suc_eq)
next
  case (wait t s)
  have "stopped e k w m (s\<lparr>threads := (threads s)[t := (threads s ! t)\<lparr>w_awake := False\<rparr>]\<rparr>)"
    using wait by (auto simp: stopped_def nth_list_update)
  then show ?case using wait stopped_phase [OF wait(5,1)]
    by (auto simp: Write_wait_def Let_def) (simp_all add: stopped_def)
next
  case (room t s force delay r)
  have "MakeRoom_turn opts usage r t force delay s = set_phase t (Room e) s"
    using room(5,6) by (simp add: MakeRoom_turn_def stopped_def)
  then show ?case using stopped_phase [OF room(5,1), of "Room e"] by simp
next
  case (start t s st)
  have c: "t = c" using the_leader [OF start(3,1)] start(2) by simp
  have "st = e" using start(1,2,4) by (auto simp: stopped_def)
  then have eq: "Write_start t st s = Write_finish c c e s" using start(5) by (simp add: Write_start_def c)
  obtain ws where ws: "Write_finish c c e s = s\<lparr>writers := [Suc c..<length (threads s)], threads := ws\<rparr>"
    "length ws = length (threads s)" "\<forall>i < length (threads s). ws ! i = released c c e i (threads s ! i)"
    by (rule Write_finish_eq [OF start(3) order.refl start(1) [unfolded c] refl refl])
  show ?case unfolding eq ws(1) using start(4) ws(2,3) by (auto simp: stopped_def released_def)
next
  case (log t s lw u seq)
  then show ?case by (auto simp: stopped_def)
next
  case (sync t s lw u seq)
  then show ?case by (auto simp: stopped_def)
next
  case (insert t s lw u seq s')
  then show ?case by (auto simp: stopped_def)
next
  case (publish t s lw u seq st e')
  then show ?case by (auto simp: stopped_def)
next
  case (compacted s m' st)
  then show ?case by (simp add: stopped_def)
next
  case (background s st k')
  then show ?case by (simp add: stopped_def)
qed

lemma stopped_reach:
  assumes "db_reach opts usage creates ops s s'" "queue_inv c s" "stopped e k w m s" "\<not> ok e"
  shows "stopped e k w m s'"
  using assms(1)
proof (induction rule: rtranclp_induct)
  case (step s1 s2)
  obtain c1 where "queue_inv c1 s1" by (rule queue_inv_reach [OF step(1) assms(2)])
  then show ?case by (rule stopped_step [OF step(2) _ step.IH assms(4)])
qed (rule assms(3))

text \<open>C36: After a background error nothing is written any more. Let a reachable state have a background error while no call is
  behind \<^verbatim>\<open>MakeRoomForWrite\<close>. Then in every later state the error is the same, the log and the memtable are as they were,
  and every call that was still in the queue or came later returns nothing but this error.\<close>

theorem background_error_is_final:
  assumes "db_reach opts usage creates ops (DB_init f n) s" "\<not> ok (bg_error s)"
    and "\<forall>t < length (threads s). case w_phase (threads s ! t) of Waiting \<Rightarrow> True | MakingRoom _ _ \<Rightarrow> True | Returned _ \<Rightarrow> True | _ \<Rightarrow> False"
    and "db_reach opts usage creates ops s s'"
  shows "bg_error s' = bg_error s \<and> db_log s' = db_log s \<and> db_mem s' = db_mem s \<and>
     (\<forall>t < length (threads s'). \<forall>st. length (threads s) - length (writers s) \<le> t \<and> w_phase (threads s' ! t) = Returned st \<longrightarrow> st = bg_error s)"
proof -
  obtain c where q: "queue_inv c s" by (rule queue_inv_reach [OF assms(1) queue_inv_init])
  have k: "length (threads s) - length (writers s) = c" using q by (simp add: queue_inv_def)
  have later: "\<not> w_done (threads s ! t) \<and> (\<forall>st. w_phase (threads s ! t) \<noteq> Returned st)" if "c \<le> t" "t < length (threads s)" for t
    using queue_invD(4) [OF q, of t] queue_invD(5) [OF q] that by (cases "t = c") (auto simp: queued_def leads_def)
  have "stopped (bg_error s) c (db_log s) (db_mem s) s"
    unfolding stopped_def
  proof (intro conjI allI impI refl)
    fix t assume t: "t < length (threads s)"
    then show "case w_phase (threads s ! t) of Waiting \<Rightarrow> True | MakingRoom _ _ \<Rightarrow> True | Room st \<Rightarrow> st = bg_error s
         | Returned st \<Rightarrow> c \<le> t \<longrightarrow> st = bg_error s | _ \<Rightarrow> False"
      using assms(3) [rule_format, OF t] later by (auto split: phase.splits)
    show "w_status (threads s ! t) = bg_error s" if "c \<le> t \<and> w_done (threads s ! t)" using later t that by blast
  qed
  then have "stopped (bg_error s) c (db_log s) (db_mem s) s'" by (rule stopped_reach [OF assms(4) q _ assms(2)])
  then show ?thesis unfolding k by (auto simp: stopped_def)
qed

theorem background_error_is_final_witness:
  "let s = RecordBackgroundError (IOError [] []) ((DB_init (posix_file_new [] empty_file) 1)\<lparr>level0_files := 0\<rparr>);
       s' = Write_enter None True s
   in \<not> ok (bg_error s) \<and> bg_error s' = bg_error s \<and> db_log s' = db_log s"
proof -
  let ?i = "DB_init (posix_file_new [] empty_file) 1" and
    ?step = "db_step \<lparr>paranoid_checks = True, reuse_logs = True, write_buffer_size = 5\<rparr> (\<lambda>m. 0) (\<lambda>r. False) PosixWritableFile"
  define s where "s = RecordBackgroundError (IOError [] []) (?i\<lparr>level0_files := 0\<rparr>)"
  have "ok (bg_error ?i)" by (simp add: DB_init_def ok_def OK_def)
  then have 1: "?step\<^sup>*\<^sup>* ?i s" unfolding s_def by (intro r_into_rtranclp db_step.background)
  have 2: "\<not> ok (bg_error s)" "threads s = []"
    by (simp_all add: s_def RecordBackgroundError_def DB_init_def ok_def OK_def IOError_def Status_make_def)
  have 3: "?step\<^sup>*\<^sup>* s (Write_enter None True s)" by (intro r_into_rtranclp db_step.enter)
  show ?thesis using background_error_is_final [OF 1 2(1) _ 3] 2 unfolding s_def [symmetric] Let_def by simp
qed

section \<open>Requests for a compaction\<close>

lemma group_loop_mono:
  "group_loop ws f ms sz [Suc lw..<n] r tmp lw = (r', tmp', lw') \<Longrightarrow> Suc lw < n \<Longrightarrow> w_batch (ws ! Suc lw) = None \<Longrightarrow>
     \<not> w_sync (ws ! Suc lw) \<Longrightarrow> Suc lw \<le> lw'"
proof -
  assume a: "group_loop ws f ms sz [Suc lw..<n] r tmp lw = (r', tmp', lw')" "Suc lw < n" "w_batch (ws ! Suc lw) = None" "\<not> w_sync (ws ! Suc lw)"
  then have "group_loop ws f ms sz [Suc (Suc lw)..<n] r tmp (Suc lw) = (r', tmp', lw')" by (simp add: upt_conv_Cons)
  then show "Suc lw \<le> lw'" using group_loop_last [of ws f ms sz "Suc lw" n] a(2) by blast
qed

text \<open>C37: A request for a compaction can be lost. \<^verbatim>\<open>TEST_CompactMemTable\<close> asks for a new memtable with a write of no batch, and
  the writer of no batch is to force \<^verbatim>\<open>MakeRoomForWrite\<close>. When it comes right behind a writer with a batch it becomes a member
  of that writer's group instead: the group includes it, and when the group ends the request has the status of the group,
  while neither the memtable nor the one being compacted has changed since the group was written.\<close>

theorem compaction_request_absorbed:
  assumes "db_reach opts usage creates ops (DB_init f n) s"
    and "t < length (threads s)" "w_phase (threads s ! t) = Room OK" "w_batch (threads s ! t) \<noteq> None"
    and "Suc t < length (threads s)" "w_batch (threads s ! Suc t) = None" "\<not> w_sync (threads s ! Suc t)"
  shows "\<exists>lw u seq. w_phase (threads (Write_start t OK s) ! t) = Logging lw u seq \<and> Suc t \<le> lw \<and>
     (\<forall>s' st e. db_reach opts usage creates ops (Write_start t OK s) s' \<and> t < length (threads s') \<and>
        w_phase (threads s' ! t) = Publishing lw u seq st e \<longrightarrow>
        (let s'' = Write_publish t lw u seq st e s'
         in w_done (threads s'' ! Suc t) \<and> w_status (threads s'' ! Suc t) = st \<and> db_imm s'' = db_imm s' \<and> db_mem s'' = db_mem s'))"
proof -
  obtain c where q: "queue_inv c s" by (rule queue_inv_reach [OF assms(1) queue_inv_init])
  have c: "t = c" using the_leader [OF q assms(2)] assms(3) by simp
  obtain u lw s1 where g: "BuildBatchGroup s = (u, lw, s1)" by (metis prod_cases3)
  have w: "hd (writers s) = t" "tl (writers s) = [Suc t..<length (threads s)]"
    using queue_invD(1) [OF q] assms(2) by (simp_all add: upt_conv_Cons c)
  obtain tmp where "group_loop (threads s) t (group_limit (length (the (w_batch (threads s ! t)))))
       (length (the (w_batch (threads s ! t)))) [Suc t..<length (threads s)] (Caller t) (tmp_batch s) t = (u, tmp, lw)"
    using g by (auto simp: BuildBatchGroup_def Let_def w split: prod.splits)
  then have lw: "Suc t \<le> lw" by (rule group_loop_mono [OF _ assms(5-7)])
  have th: "threads s1 = threads s" by (rule BuildBatchGroup_last(4) [OF q _ g]) (use assms(2) c in simp)
  have N: "t < length (threads (set_batch u b s1))" for b using assms(2) th by (simp add: set_batch_def split: batch_ptr.splits)
  have "w_phase (threads (set_phase t p (set_batch u b s1)) ! t) = p" for p b using N by (simp add: set_phase_def)
  then have "\<exists>seq. w_phase (threads (Write_start t OK s) ! t) = Logging lw u seq"
    using assms(4) by (simp add: Write_start_def g Let_def ok_def OK_def)
  then obtain seq where seq: "w_phase (threads (Write_start t OK s) ! t) = Logging lw u seq" by blast
  have step: "db_step opts usage creates ops s (Write_start t OK s)" by (rule db_step.start [OF assms(2,3)])
  have "let s'' = Write_publish t lw u seq st e s'
         in w_done (threads s'' ! Suc t) \<and> w_status (threads s'' ! Suc t) = st \<and> db_imm s'' = db_imm s' \<and> db_mem s'' = db_mem s'"
    if run: "db_reach opts usage creates ops (Write_start t OK s) s'" and p: "t < length (threads s')" "w_phase (threads s' ! t) = Publishing lw u seq st e"
    for s' st e
  proof -
    obtain c' where q': "queue_inv c' s'"
      by (rule queue_inv_reach [OF converse_rtranclp_into_rtranclp [of "db_step opts usage creates ops", OF step run] q])
    have "group_of (w_phase (threads s' ! t)) = Some (lw, u)" using p(2) by simp
    note G = the_group [OF q' p(1) this]
    have h: "queue_inv t s'" "lw < length (threads s')" using q' G by simp_all
    define s2 where "s2 = (let s = (if e then RecordBackgroundError st s' else s'); s = (if u = Tmp then s\<lparr>tmp_batch := Batch_Clear\<rparr> else s)
      in s\<lparr>last_seq := seq\<rparr>)"
    have s2: "writers s2 = writers s'" "threads s2 = threads s'" "db_imm s2 = db_imm s'" "db_mem s2 = db_mem s'"
      by (simp_all add: s2_def Let_def RecordBackgroundError_def)
    have eq: "Write_publish t lw u seq st e s' = Write_finish t lw st s2" by (simp add: Write_publish_def s2_def Let_def)
    obtain ws where ws: "Write_finish t lw st s2 = s2\<lparr>writers := [Suc lw..<length (threads s')], threads := ws\<rparr>"
      "length ws = length (threads s')" "\<forall>i < length (threads s'). ws ! i = released t lw st i (threads s' ! i)"
      by (rule Write_finish_eq [OF h(1) _ h(2) s2(1,2)]) (use lw in simp)
    show ?thesis unfolding eq ws(1) using ws(3) h(2) lw s2 by (simp add: released_def)
  qed
  then show ?thesis using seq lw by (intro exI [of _ lw] exI [of _ u] exI [of _ seq]) blast
qed

theorem compaction_request_absorbed_witness:
  "\<exists>(s :: posix_file DBImpl) lw u seq. w_batch (threads s ! 1) = None \<and> w_phase (threads s ! 1) = Waiting \<and>
     w_phase (threads (Write_start 0 OK s) ! 0) = Logging lw u seq \<and> 1 \<le> lw"
proof -
  let ?i = "DB_init (posix_file_new [] empty_file) 1" and ?o = "\<lparr>paranoid_checks = True, reuse_logs = True, write_buffer_size = 5\<rparr>"
  let ?step = "db_step ?o (\<lambda>m. 0) (\<lambda>r. r = Inl OK) PosixWritableFile"
  define s1 where "s1 = Write_enter (Some (Batch_Put Batch_Clear [1] [2])) False ?i"
  define s2 where "s2 = Write_enter None False s1"
  define s3 where "s3 = Write_wait 0 s2"
  define s4 where "s4 = MakeRoom_turn ?o (\<lambda>m. 0) (Inl OK) 0 False True s3"
  note defs = s1_def s2_def s3_def s4_def Write_enter_def DB_init_def Write_wait_def Let_def set_phase_def
  have s3: "w_phase (threads s3 ! 0) = MakingRoom False True" "length (threads s3) = 2" by (simp_all add: defs)
  have "?step ?i s1" "?step s1 s2" unfolding s1_def s2_def by (rule db_step.enter)+
  moreover have "?step s2 s3" unfolding s3_def by (rule db_step.wait) (simp_all add: defs)
  moreover have "?step s3 s4" unfolding s4_def by (rule db_step.room [OF _ s3(1)]) (simp_all add: s3)
  ultimately have run: "?step\<^sup>*\<^sup>* ?i s4" by (meson rtranclp.rtrancl_into_rtrancl r_into_rtranclp)
  have "s4 = set_phase 0 (Room OK) s3"
    by (simp add: s4_def MakeRoom_turn_def) (simp add: defs ok_def OK_def kL0_SlowdownWritesTrigger_def)
  then have "threads s4 ! 0 = (threads s3 ! 0)\<lparr>w_phase := Room OK\<rparr>" "threads s4 ! 1 = threads s3 ! 1" "length (threads s4) = 2"
    by (simp_all add: set_phase_def s3)
  then have s4: "w_phase (threads s4 ! 0) = Room OK" "w_batch (threads s4 ! 0) \<noteq> None" "w_batch (threads s4 ! Suc 0) = None"
     "\<not> w_sync (threads s4 ! Suc 0)" "w_phase (threads s4 ! 1) = Waiting" "0 < length (threads s4)" "Suc 0 < length (threads s4)"
    by (simp_all add: defs)
  obtain lw u seq where "w_phase (threads (Write_start 0 OK s4) ! 0) = Logging lw u seq" "Suc 0 \<le> lw"
    using compaction_request_absorbed [OF run s4(6,1,2,7,3,4)] by blast
  then show ?thesis using s4 by (intro exI [of _ s4] exI [of _ lw] exI [of _ u] exI [of _ seq]) simp
qed

end
