(* ===== verification/LdbBlock.thy ===== *)
theory LdbBlock
  imports LdbKeys LdbStatus Loops
begin

text \<open>
  The blocks of a sorted table: \<^verbatim>\<open>table/block_builder.cc\<close> writes entries whose keys leave out what they share
  with the key before, with restart points in between; \<^verbatim>\<open>table/block.cc\<close> searches them and walks over them in both directions. A pointer
  into a block is an offset. \<open>None\<close> stands for a read outside the block, a pointer difference between different
  arrays, or a loop that does not return.
\<close>

section \<open>Building a block\<close>

record BlockBuilder =
  bb_interval :: int
  bb_buffer :: "byte list"
  bb_restarts :: "u32 list"
  bb_counter :: int
  bb_finished :: bool
  bb_last_key :: slice

definition BlockBuilder_new :: "int \<Rightarrow> BlockBuilder" where
  "BlockBuilder_new interval =
     \<lparr>bb_interval = interval, bb_buffer = [], bb_restarts = [0], bb_counter = 0, bb_finished = False, bb_last_key = []\<rparr>"

definition BlockBuilder_Reset :: "BlockBuilder \<Rightarrow> BlockBuilder" where
  "BlockBuilder_Reset b =
     b\<lparr>bb_buffer := [], bb_restarts := [0], bb_counter := 0, bb_finished := False, bb_last_key := []\<rparr>"

definition CurrentSizeEstimate :: "BlockBuilder \<Rightarrow> nat" where
  "CurrentSizeEstimate b = length (bb_buffer b) + length (bb_restarts b) * 4 + 4"

definition BlockBuilder_empty :: "BlockBuilder \<Rightarrow> bool" where
  "BlockBuilder_empty b \<longleftrightarrow> bb_buffer b = []"

definition BlockBuilder_Finish :: "BlockBuilder \<Rightarrow> slice \<times> BlockBuilder" where
  "BlockBuilder_Finish b =
     (let buffer = PutFixed32 (foldl PutFixed32 (bb_buffer b) (bb_restarts b)) (of_nat (length (bb_restarts b)))
      in (buffer, b\<lparr>bb_buffer := buffer, bb_finished := True\<rparr>))"

fun shared_loop :: "slice \<Rightarrow> slice \<Rightarrow> nat" where
  "shared_loop (a # last_key) (b # key) = (if a = b then Suc (shared_loop last_key key) else 0)"
| "shared_loop last_key key = 0"

definition BlockBuilder_Add :: "slice \<Rightarrow> slice \<Rightarrow> BlockBuilder \<Rightarrow> BlockBuilder" where
  "BlockBuilder_Add key val b =
     (let (shared, b) =
            (if bb_counter b < bb_interval b then (shared_loop (bb_last_key b) key, b)
             else (0, b\<lparr>bb_restarts := bb_restarts b @ [of_nat (length (bb_buffer b))], bb_counter := 0\<rparr>));
          non_shared = length key - shared;
          buffer = PutVarint32 (bb_buffer b) (of_nat shared);
          buffer = PutVarint32 buffer (of_nat non_shared);
          buffer = PutVarint32 buffer (of_nat (length val));
          delta = take non_shared (drop shared key)
      in b\<lparr>bb_buffer := buffer @ delta @ val, bb_last_key := take shared (bb_last_key b) @ delta,
           bb_counter := bb_counter b + 1\<rparr>)"

section \<open>Blocks\<close>

text \<open>\<open>restart_offset\<close> is not set in a block that is too small; nothing reads it there, and the model has 0.\<close>

record Block =
  blk_data :: "byte list"
  blk_size :: nat
  restart_offset :: u32

definition NumRestarts :: "byte list \<Rightarrow> nat \<Rightarrow> u32" where
  "NumRestarts data sz = DecodeFixed32 True (drop (sz - 4) data)"

definition Block_new :: "slice \<Rightarrow> Block" where
  "Block_new contents =
     (let sz = length contents
      in if sz < 4 then \<lparr>blk_data = contents, blk_size = 0, restart_offset = 0\<rparr>
         else let max_restarts_allowed = (sz - 4) div 4
              in if unat (NumRestarts contents sz) > max_restarts_allowed
                 then \<lparr>blk_data = contents, blk_size = 0, restart_offset = 0\<rparr>
                 else \<lparr>blk_data = contents, blk_size = sz,
                       restart_offset = of_nat (sz - unat (1 + NumRestarts contents sz) * 4)\<rparr>)"

text \<open>
  The next entry between two pointers: how much it shares, the lengths of the rest of its key and of its
  value, and the bytes from the key on. The sum of the two lengths is a 32-bit one.
\<close>

definition DecodeEntry :: "byte list \<Rightarrow> (u32 \<times> u32 \<times> u32 \<times> byte list) option" where
  "DecodeEntry p =
     (if length p < 3 then None
      else let shared = ucast (p ! 0); non_shared = ucast (p ! 1); value_length = ucast (p ! 2);
               header = (if (shared OR non_shared OR value_length) < (128 :: u32)
                         then Some (shared, non_shared, value_length, drop 3 p)
                         else Option.bind (GetVarint32Ptr p) (\<lambda>(shared, p).
                              Option.bind (GetVarint32Ptr p) (\<lambda>(non_shared, p).
                              map_option (\<lambda>(value_length, p). (shared, non_shared, value_length, p)) (GetVarint32Ptr p))))
           in Option.bind header (\<lambda>(shared, non_shared, value_length, p).
                if of_nat (length p) < non_shared + value_length then None
                else Some (shared, non_shared, value_length, p)))"

text \<open>Reading \<open>n\<close> bytes at a pointer into the block.\<close>

definition read_block :: "byte list \<Rightarrow> nat \<Rightarrow> nat \<Rightarrow> slice option" where
  "read_block data p n = (if p + n \<le> length data then Some (take n (drop p data)) else None)"

section \<open>Iterators over a block\<close>

text \<open>The value is a slice of the block, given by its offset and its length, or \<open>None\<close> for the empty slice that points elsewhere.\<close>

record BlockIter =
  bi_data :: "byte list"
  bi_restarts :: u32
  bi_num_restarts :: u32
  bi_current :: u32
  bi_restart_index :: u32
  bi_key :: slice
  bi_value :: "(nat \<times> nat) option"
  bi_status :: Status

definition BlockIter_new :: "byte list \<Rightarrow> u32 \<Rightarrow> u32 \<Rightarrow> BlockIter" where
  "BlockIter_new data restarts num_restarts =
     \<lparr>bi_data = data, bi_restarts = restarts, bi_num_restarts = num_restarts, bi_current = restarts,
      bi_restart_index = num_restarts, bi_key = [], bi_value = None, bi_status = OK\<rparr>"

definition BlockIter_Valid :: "BlockIter \<Rightarrow> bool" where
  "BlockIter_Valid it \<longleftrightarrow> bi_current it < bi_restarts it"

definition BlockIter_value :: "BlockIter \<Rightarrow> slice option" where
  "BlockIter_value it = (case bi_value it of None \<Rightarrow> Some [] | Some (p, n) \<Rightarrow> read_block (bi_data it) p n)"

definition NextEntryOffset :: "BlockIter \<Rightarrow> u32 option" where
  "NextEntryOffset it = map_option (\<lambda>(p, n). of_nat (p + n)) (bi_value it)"

definition GetRestartPoint :: "BlockIter \<Rightarrow> u32 \<Rightarrow> u32" where
  "GetRestartPoint it index = DecodeFixed32 True (drop (unat (bi_restarts it) + unat index * 4) (bi_data it))"

definition SeekToRestartPoint :: "u32 \<Rightarrow> BlockIter \<Rightarrow> BlockIter" where
  "SeekToRestartPoint index it =
     it\<lparr>bi_key := [], bi_restart_index := index, bi_value := Some (unat (GetRestartPoint it index), 0)\<rparr>"

definition CorruptionError :: "BlockIter \<Rightarrow> BlockIter" where
  "CorruptionError it =
     it\<lparr>bi_current := bi_restarts it, bi_restart_index := bi_num_restarts it,
        bi_status := Corruption (bytes_of ''bad entry in block'') [], bi_key := [], bi_value := None\<rparr>"

lemma unat_pred_less: "d \<noteq> 0 \<Longrightarrow> unat (d - 1) < unat d" for d :: "'a::len word"
proof -
  assume "d \<noteq> 0"
  then have "1 \<le> d" by (simp add: word_le_nat_alt unat_gt_0 Suc_leI)
  with \<open>d \<noteq> 0\<close> show ?thesis by (simp add: unat_sub unat_gt_0)
qed

function restart_loop :: "BlockIter \<Rightarrow> u32 \<Rightarrow> u32" where
  "restart_loop it index =
     (if index + 1 < bi_num_restarts it \<and> GetRestartPoint it (index + 1) < bi_current it
      then restart_loop it (index + 1) else index)"
  by pat_completeness auto
termination
proof (relation "measure (\<lambda>(it, index). unat (bi_num_restarts it - (index + 1)))")
  fix it :: BlockIter and index :: u32
  let ?d = "bi_num_restarts it - (index + 1)"
  assume "index + 1 < bi_num_restarts it \<and> GetRestartPoint it (index + 1) < bi_current it"
  then have "?d \<noteq> 0" by auto
  moreover have "bi_num_restarts it - (index + 1 + 1) = ?d - 1" by (simp add: algebra_simps)
  moreover from \<open>?d \<noteq> 0\<close> have "unat (?d - 1) < unat ?d" by (rule unat_pred_less)
  ultimately have "unat (bi_num_restarts it - (index + 1 + 1)) < unat ?d" by (simp only:)
  then show "((it, index + 1), it, index) \<in> measure (\<lambda>(it, index). unat (bi_num_restarts it - (index + 1)))"
    by (simp only: in_measure prod.case)
qed simp

declare restart_loop.simps [simp del]

text \<open>The region between \<open>p\<close> and the restart array.\<close>

definition entries_from :: "BlockIter \<Rightarrow> u32 \<Rightarrow> byte list" where
  "entries_from it p = drop (unat p) (take (unat (bi_restarts it)) (bi_data it))"

definition ParseNextKey :: "BlockIter \<Rightarrow> (bool \<times> BlockIter) option" where
  "ParseNextKey it =
     Option.bind (NextEntryOffset it) (\<lambda>current.
       let it = it\<lparr>bi_current := current\<rparr>
       in if current \<ge> bi_restarts it
          then Some (False, it\<lparr>bi_current := bi_restarts it, bi_restart_index := bi_num_restarts it\<rparr>)
          else case DecodeEntry (entries_from it current) of
                 None \<Rightarrow> Some (False, CorruptionError it)
               | Some (shared, non_shared, value_length, rest) \<Rightarrow>
                   if length (bi_key it) < unat shared then Some (False, CorruptionError it)
                   else let p = unat current + (length (entries_from it current) - length rest)
                        in map_option (\<lambda>delta.
                             let it = it\<lparr>bi_key := take (unat shared) (bi_key it) @ delta,
                                         bi_value := Some (p + unat non_shared, unat value_length)\<rparr>
                             in (True, it\<lparr>bi_restart_index := restart_loop it (bi_restart_index it)\<rparr>))
                           (read_block (bi_data it) p (unat non_shared)))"

definition BlockIter_Next :: "BlockIter \<Rightarrow> BlockIter option" where
  "BlockIter_Next it = map_option snd (ParseNextKey it)"

text \<open>The loops \<^verbatim>\<open>ParseNextKey() && NextEntryOffset() < limit\<close>.\<close>

definition skip_turn :: "u32 \<Rightarrow> BlockIter \<Rightarrow> BlockIter option + BlockIter" where
  "skip_turn limit it =
     (case ParseNextKey it of
        None \<Rightarrow> Inl None
      | Some (found, it) \<Rightarrow>
          if found then case NextEntryOffset it of
                          None \<Rightarrow> Inl None
                        | Some n \<Rightarrow> if n < limit then Inr it else Inl (Some it)
          else Inl (Some it))"

definition skip_until :: "u32 \<Rightarrow> BlockIter \<Rightarrow> BlockIter option" where
  "skip_until limit it = Option.bind (while_true (skip_turn limit) it) id"

definition back_turn :: "BlockIter \<Rightarrow> u32 \<Rightarrow> u32 option + u32" where
  "back_turn it index =
     (if GetRestartPoint it index \<ge> bi_current it then if index = 0 then Inl None else Inr (index - 1)
      else Inl (Some index))"

definition BlockIter_Prev :: "BlockIter \<Rightarrow> BlockIter option" where
  "BlockIter_Prev it =
     (let original = bi_current it
      in Option.bind (while_true (back_turn it) (bi_restart_index it)) (\<lambda>index.
           case index of
             None \<Rightarrow> Some (it\<lparr>bi_current := bi_restarts it, bi_restart_index := bi_num_restarts it\<rparr>)
           | Some index \<Rightarrow> skip_until original (SeekToRestartPoint index it)))"

definition BlockIter_SeekToFirst :: "BlockIter \<Rightarrow> BlockIter option" where
  "BlockIter_SeekToFirst it = map_option snd (ParseNextKey (SeekToRestartPoint 0 it))"

definition BlockIter_SeekToLast :: "BlockIter \<Rightarrow> BlockIter option" where
  "BlockIter_SeekToLast it = skip_until (bi_restarts it) (SeekToRestartPoint (bi_num_restarts it - 1) it)"

text \<open>The binary search ends at a restart point, at a corrupt entry or with a read outside the block.\<close>

datatype search = Undefined | Corrupt | Restart u32

definition search_turn :: "comparator_class \<Rightarrow> slice \<Rightarrow> BlockIter \<Rightarrow> u32 \<times> u32 \<Rightarrow> search + u32 \<times> u32" where
  "search_turn c target it = (\<lambda>(left, right).
     if left < right then
       let mid = (left + right + 1) div 2; region_offset = GetRestartPoint it mid
       in case DecodeEntry (entries_from it region_offset) of
            None \<Rightarrow> Inl Corrupt
          | Some (shared, non_shared, value_length, rest) \<Rightarrow>
              if shared \<noteq> 0 then Inl Corrupt
              else case read_block (bi_data it) (unat region_offset + (length (entries_from it region_offset) - length rest))
                          (unat non_shared) of
                     None \<Rightarrow> Inl Undefined
                   | Some mid_key \<Rightarrow> if Compare c mid_key target < 0 then Inr (mid, right) else Inr (left, mid - 1)
     else Inl (Restart left))"

definition seek_turn :: "comparator_class \<Rightarrow> slice \<Rightarrow> BlockIter \<Rightarrow> BlockIter option + BlockIter" where
  "seek_turn c target it =
     (case ParseNextKey it of
        None \<Rightarrow> Inl None
      | Some (found, it) \<Rightarrow> if \<not> found then Inl (Some it) else if Compare c (bi_key it) target \<ge> 0 then Inl (Some it) else Inr it)"

definition BlockIter_Seek :: "comparator_class \<Rightarrow> slice \<Rightarrow> BlockIter \<Rightarrow> BlockIter option" where
  "BlockIter_Seek c target it =
     (case while_true (search_turn c target it) (0, bi_num_restarts it - 1) of
        Some (Restart left) \<Rightarrow> Option.bind (while_true (seek_turn c target) (SeekToRestartPoint left it)) id
      | Some Corrupt \<Rightarrow> Some (CorruptionError it)
      | _ \<Rightarrow> None)"

datatype block_iterator = ErrorIterator Status | EmptyIterator | BlockIterator BlockIter

definition Block_NewIterator :: "Block \<Rightarrow> block_iterator" where
  "Block_NewIterator b =
     (if blk_size b < 4 then ErrorIterator (Corruption (bytes_of ''bad block contents'') [])
      else let num_restarts = NumRestarts (blk_data b) (blk_size b)
           in if num_restarts = 0 then EmptyIterator
              else BlockIterator (BlockIter_new (blk_data b) (restart_offset b) num_restarts))"

end
