(* ===== verification/LdbBlockSpec.thy ===== *)
theory LdbBlockSpec
  imports LdbBlock
begin

text \<open>
  What a block holds: the bytes of its entries, the offsets of the entries that a restart point names, and their
  number. The locale \<open>block_format\<close> states this as the contract between a builder and an iterator; the builder of
  \<^verbatim>\<open>table/block_builder.cc\<close> keeps it.
\<close>

section \<open>Entries\<close>

type_synonym entry = "slice \<times> slice"

definition entry_bytes :: "nat \<Rightarrow> entry \<Rightarrow> byte list" where
  "entry_bytes s e =
     EncodeVarint32 (of_nat s) @ EncodeVarint32 (of_nat (length (fst e) - s)) @ EncodeVarint32 (of_nat (length (snd e))) @
     drop s (fst e) @ snd e"

definition body :: "entry list \<Rightarrow> nat list \<Rightarrow> byte list" where
  "body es sh = concat (map2 entry_bytes sh es)"

definition off :: "entry list \<Rightarrow> nat list \<Rightarrow> nat \<Rightarrow> nat" where
  "off es sh i = length (body (take i es) (take i sh))"

lemma EncodeVarint32_not_Nil [simp]: "EncodeVarint32 v \<noteq> []"
  by (simp add: EncodeVarint32_def Let_def)

lemma length_entry_bytes: "3 \<le> length (entry_bytes s e)"
proof -
  have "1 \<le> length (EncodeVarint32 v)" for v by (simp add: Suc_leI)
  from this [of "of_nat s"] this [of "of_nat (length (fst e) - s)"] this [of "of_nat (length (snd e))"]
  show ?thesis by (simp only: entry_bytes_def length_append)
qed

lemma off_0 [simp]: "off es sh 0 = 0"
  by (simp add: off_def body_def)

lemma off_all [simp]: "length sh = length es \<Longrightarrow> off es sh (length es) = length (body es sh)"
  by (simp add: off_def)

lemma off_Suc: "length sh = length es \<Longrightarrow> i < length es \<Longrightarrow> off es sh (Suc i) = off es sh i + length (entry_bytes (sh ! i) (es ! i))"
  by (simp add: off_def body_def take_Suc_conv_app_nth)

lemma off_less: "length sh = length es \<Longrightarrow> i < j \<Longrightarrow> j \<le> length es \<Longrightarrow> off es sh i < off es sh j"
proof (induction j)
  case (Suc j)
  then have step: "off es sh j < off es sh (Suc j)"
    using length_entry_bytes [of "sh ! j" "es ! j"] off_Suc [of sh es j] by linarith
  show ?case
  proof (cases "i = j")
    case False
    then have "off es sh i < off es sh j" using Suc by simp
    then show ?thesis using step by (rule less_trans)
  qed (use step in simp)
qed simp

lemma off_less_iff:
  "length sh = length es \<Longrightarrow> i \<le> length es \<Longrightarrow> j \<le> length es \<Longrightarrow> off es sh i < off es sh j \<longleftrightarrow> i < j"
  using off_less [of sh es i j] off_less [of sh es j i] by (metis less_irrefl linorder_neqE_nat not_less_iff_gr_or_eq)

lemma body_at:
  assumes "length sh = length es" "i < length es"
  shows "drop (off es sh i) (body es sh) = entry_bytes (sh ! i) (es ! i) @ drop (off es sh (Suc i)) (body es sh)"
proof -
  have split: "body es sh = body (take j es) (take j sh) @ body (drop j es) (drop j sh)" for j
  proof -
    have "zip sh es = zip (take j sh) (take j es) @ zip (drop j sh) (drop j es)"
      by (metis append_take_drop_id take_zip drop_zip)
    then show ?thesis by (simp only: body_def map_append concat_append)
  qed
  have dr: "drop (off es sh j) (body es sh) = body (drop j es) (drop j sh)" for j
    using split [of j] by (simp add: off_def)
  have "drop i es = es ! i # drop (Suc i) es" "drop i sh = sh ! i # drop (Suc i) sh"
    using assms by (simp_all add: Cons_nth_drop_Suc)
  then show ?thesis by (simp add: dr) (simp add: body_def)
qed

section \<open>Decoding an entry\<close>

lemma or_less_128:
  assumes "(ucast a OR ucast b OR ucast c :: u32) < 128"
  shows "ucast a AND (128 :: u32) = 0" "ucast b AND (128 :: u32) = 0" "ucast c AND (128 :: u32) = 0"
proof -
  have nb: "w AND 128 = 0 \<longleftrightarrow> \<not> bit w 7" for w :: u32
    using and_exp_eq_0_iff_not_bit [of w 7] by simp
  have "\<not> bit (ucast a OR ucast b OR ucast c :: u32) 7"
  proof -
    have "unat (ucast a OR ucast b OR ucast c :: u32) < 128" using assms by (simp add: word_less_nat_alt)
    then have "unat (ucast a OR ucast b OR ucast c :: u32) div 2 ^ 7 = 0" by simp
    then have "\<not> bit (unat (ucast a OR ucast b OR ucast c :: u32)) 7" by (simp add: bit_iff_odd)
    then show ?thesis by (simp only: bit_unsigned_iff) (simp add: possible_bit_def)
  qed
  then show "ucast a AND (128 :: u32) = 0" "ucast b AND (128 :: u32) = 0" "ucast c AND (128 :: u32) = 0"
    unfolding nb by (simp_all add: bit_or_iff)
qed

text \<open>The fast path reads what the varints hold.\<close>

lemma DecodeEntry_varints:
  "3 \<le> length p \<Longrightarrow> DecodeEntry p =
     Option.bind (Option.bind (GetVarint32Ptr p) (\<lambda>(shared, p).
        Option.bind (GetVarint32Ptr p) (\<lambda>(non_shared, p).
        map_option (\<lambda>(value_length, p). (shared, non_shared, value_length, p)) (GetVarint32Ptr p))))
     (\<lambda>(shared, non_shared, value_length, p).
        if of_nat (length p) < non_shared + value_length then None else Some (shared, non_shared, value_length, p))"
proof -
  assume "3 \<le> length p"
  then obtain a b c q where p: "p = a # b # c # q" by (auto simp: Suc_le_length_iff numeral_eq_Suc)
  show ?thesis
  proof (cases "(ucast a OR ucast b OR ucast c :: u32) < 128")
    case True
    note zero = or_less_128 [OF True]
    have "GetVarint32Ptr p = Some (ucast a, b # c # q)" "GetVarint32Ptr (b # c # q) = Some (ucast b, c # q)"
        "GetVarint32Ptr (c # q) = Some (ucast c, q)"
      using zero by (simp_all add: GetVarint32Ptr_def p)
    then show ?thesis using True by (simp add: DecodeEntry_def p Let_def numeral_eq_Suc)
  next
    case False
    then show ?thesis by (simp add: DecodeEntry_def p Let_def numeral_eq_Suc)
  qed
qed

lemma GetVarint32Ptr_Encode: "GetVarint32Ptr (EncodeVarint32 v @ rest) = Some (v, rest)"
  using GetVarint32_loop_bytes [of 0 0 "unat v" rest] unat_u32_less [of v]
  by (simp add: GetVarint32Ptr_fallback EncodeVarint32_bytes)

lemma DecodeEntry_bytes:
  assumes "length (entry_bytes s e @ rest) < 2 ^ 32"
  shows "DecodeEntry (entry_bytes s e @ rest) =
     Some (of_nat s, of_nat (length (fst e) - s), of_nat (length (snd e)), drop s (fst e) @ snd e @ rest)"
proof -
  let ?p = "drop s (fst e) @ snd e @ rest"
  have "3 \<le> length (entry_bytes s e @ rest)" using length_entry_bytes [of s e] by simp
  moreover have "length ?p < 2 ^ 32" using assms by (simp add: entry_bytes_def)
  then have "\<not> (of_nat (length ?p) :: u32) < of_nat (length (fst e) - s) + of_nat (length (snd e))"
    by (simp only: of_nat_add [symmetric]) (subst of_nat_less_u32, simp_all)
  ultimately show ?thesis
    by (simp only: DecodeEntry_varints) (simp add: entry_bytes_def GetVarint32Ptr_Encode del: of_nat_add length_append)
qed

section \<open>The format\<close>

definition block_bytes :: "entry list \<Rightarrow> nat list \<Rightarrow> nat list \<Rightarrow> byte list" where
  "block_bytes es sh rs = body es sh @ concat (map (\<lambda>r. le_bytes 4 (off es sh r)) rs) @ le_bytes 4 (length rs)"

text \<open>
  \<open>fits\<close> are the lists of entries that the builder can hold; \<open>shared\<close> says how many bytes every key takes over from
  the one before and \<open>starts\<close> which entries are restart points.
\<close>

locale block_format =
  fixes build :: "entry list \<Rightarrow> byte list" and fits :: "entry list \<Rightarrow> bool"
    and shared :: "entry list \<Rightarrow> nat list" and starts :: "entry list \<Rightarrow> nat list"
  assumes content: "fits es \<Longrightarrow> build es = block_bytes es (shared es) (starts es)"
    and small: "fits es \<Longrightarrow> length (build es) < 2 ^ 32"
    and shared_length: "fits es \<Longrightarrow> length (shared es) = length es"
    and shared_key: "fits es \<Longrightarrow> i < length es \<Longrightarrow> shared es ! i \<le> length (fst (es ! i))"
    and shared_prefix: "fits es \<Longrightarrow> Suc i < length es \<Longrightarrow> shared es ! Suc i \<le> length (fst (es ! i)) \<and>
      take (shared es ! Suc i) (fst (es ! i)) = take (shared es ! Suc i) (fst (es ! Suc i))"
    and starts_first: "fits es \<Longrightarrow> starts es \<noteq> [] \<and> hd (starts es) = 0"
    and starts_order: "fits es \<Longrightarrow> sorted_wrt (<) (starts es)"
    and starts_entry: "fits es \<Longrightarrow> r \<in> set (starts es) \<Longrightarrow> r \<noteq> 0 \<Longrightarrow> r < length es"
    and starts_full: "fits es \<Longrightarrow> r \<in> set (starts es) \<Longrightarrow> r < length es \<Longrightarrow> shared es ! r = 0"

end
