(* ===== verification/LdbBlockIter.thy ===== *)
theory LdbBlockIter
  imports LdbBlockSpec
begin

text \<open>
  The iterator over a block is a cursor over its entries: every operation moves it as the same operation moves a
  position in the list of the entries. Everything here rests on the contract \<open>block_format\<close> of the builder, and the search also on
  the contract of a comparator.
\<close>

section \<open>Where an iterator stands\<close>

definition over :: "byte list \<Rightarrow> nat \<Rightarrow> nat \<Rightarrow> BlockIter \<Rightarrow> bool" where
  "over data m r it \<longleftrightarrow>
     bi_data it = data \<and> bi_restarts it = of_nat m \<and> bi_num_restarts it = of_nat r \<and> bi_status it = OK"

context block_format
begin

abbreviation n_of :: "entry list \<Rightarrow> nat" where "n_of es \<equiv> length (starts es)"
abbreviation bytes :: "entry list \<Rightarrow> byte list" where "bytes es \<equiv> body es (shared es)"
abbreviation pos :: "entry list \<Rightarrow> nat \<Rightarrow> nat" where "pos es \<equiv> off es (shared es)"
abbreviation on :: "entry list \<Rightarrow> BlockIter \<Rightarrow> bool" where
  "on es it \<equiv> over (build es) (length (bytes es)) (n_of es) it"

text \<open>Between two entries, about to parse the entry with number \<open>i\<close>; at the entry \<open>i\<close>; behind the last one.\<close>

definition ready :: "entry list \<Rightarrow> nat \<Rightarrow> BlockIter \<Rightarrow> bool" where
  "ready es i it \<longleftrightarrow> on es it \<and> NextEntryOffset it = Some (of_nat (pos es i)) \<and>
     unat (bi_restart_index it) < n_of es \<and> starts es ! unat (bi_restart_index it) \<le> i \<and>
     (i < length es \<longrightarrow> shared es ! i \<le> length (bi_key it) \<and> take (shared es ! i) (bi_key it) = take (shared es ! i) (fst (es ! i)))"

definition at :: "entry list \<Rightarrow> nat \<Rightarrow> BlockIter \<Rightarrow> bool" where
  "at es i it \<longleftrightarrow> on es it \<and> i < length es \<and> bi_current it = of_nat (pos es i) \<and> bi_key it = fst (es ! i) \<and>
     bi_value it = Some (pos es (Suc i) - length (snd (es ! i)), length (snd (es ! i))) \<and>
     unat (bi_restart_index it) < n_of es \<and> starts es ! unat (bi_restart_index it) \<le> i"

definition outside :: "entry list \<Rightarrow> BlockIter \<Rightarrow> bool" where
  "outside es it \<longleftrightarrow> on es it \<and> bi_current it = bi_restarts it"

lemma sizes:
  assumes "fits es"
  shows "length (build es) = length (bytes es) + 4 * n_of es + 4" "length (bytes es) < 2 ^ 32" "n_of es < 2 ^ 32" "0 < n_of es"
proof -
  have "length (concat (map (\<lambda>r. le_bytes 4 (pos es r)) (starts es))) = 4 * n_of es"
    by (rule length_concat_4) simp
  then show len: "length (build es) = length (bytes es) + 4 * n_of es + 4"
    using content [OF assms] by (simp add: block_bytes_def)
  show "length (bytes es) < 2 ^ 32" "n_of es < 2 ^ 32" using len small [OF assms] by simp_all
  show "0 < n_of es" using starts_first [OF assms] by simp
qed

lemma pos_le: "fits es \<Longrightarrow> i \<le> length es \<Longrightarrow> pos es i \<le> length (bytes es)"
  using off_less [of "shared es" es i "length es"] shared_length [of es] by (cases "i = length es") auto

lemma pos_small: "fits es \<Longrightarrow> i \<le> length es \<Longrightarrow> pos es i < 2 ^ 32"
  using pos_le sizes(2) by (meson le_less_trans)

lemma pos_less_u32: "fits es \<Longrightarrow> i \<le> length es \<Longrightarrow> j \<le> length es \<Longrightarrow> (of_nat (pos es i) :: u32) < of_nat (pos es j) \<longleftrightarrow> i < j"
  using off_less_iff [of "shared es" es i j] shared_length [of es] by (simp only: of_nat_less_u32 pos_small)

lemma starts_le: "fits es \<Longrightarrow> j < n_of es \<Longrightarrow> starts es ! j \<le> length es"
  using starts_entry [of es "starts es ! j"] by (cases "starts es ! j = 0") auto

lemma restart_point:
  assumes "fits es" "on es it" "j < n_of es"
  shows "GetRestartPoint it (of_nat j) = of_nat (pos es (starts es ! j))"
proof -
  let ?f = "\<lambda>r. le_bytes 4 (pos es r)"
  have it: "bi_data it = build es" "unat (bi_restarts it) = length (bytes es)" "unat (of_nat j :: u32) = j"
    using assms sizes [OF assms(1)] by (simp_all add: over_def unat_u32_of_nat)
  have "drop (length (bytes es) + j * 4) (build es) = concat (map ?f (drop j (starts es))) @ le_bytes 4 (n_of es)"
    using assms(3) drop_concat_4 [of "starts es" ?f j "le_bytes 4 (n_of es)"]
    by (simp add: content [OF assms(1)] block_bytes_def mult.commute)
  also have "drop j (starts es) = starts es ! j # drop (Suc j) (starts es)"
    using assms(3) by (simp add: Cons_nth_drop_Suc)
  finally have d: "drop (length (bytes es) + j * 4) (build es) =
      EncodeFixed32 True (of_nat (pos es (starts es ! j))) @ concat (map ?f (drop (Suc j) (starts es))) @ le_bytes 4 (n_of es)"
    using pos_small [OF assms(1) starts_le [OF assms(1,3)]] by (simp add: EncodeFixed32_portable unat_u32_of_nat)
  show ?thesis by (simp only: GetRestartPoint_def it d DecodeFixed32_Encode)
qed

lemma entries:
  assumes "fits es" "on es it" "i \<le> length es"
  shows "entries_from it (of_nat (pos es i)) = drop (pos es i) (bytes es)"
proof -
  have "take (length (bytes es)) (build es) = bytes es" by (simp add: content [OF assms(1)] block_bytes_def)
  then show ?thesis using assms(2) sizes(2) [OF assms(1)] pos_small [OF assms(1,3)]
    by (simp add: entries_from_def over_def unat_u32_of_nat)
qed

lemma decode:
  assumes "fits es" "on es it" "i < length es"
  shows "DecodeEntry (entries_from it (of_nat (pos es i))) =
     Some (of_nat (shared es ! i), of_nat (length (fst (es ! i)) - shared es ! i), of_nat (length (snd (es ! i))),
           drop (shared es ! i) (fst (es ! i)) @ snd (es ! i) @ drop (pos es (Suc i)) (bytes es))"
proof -
  let ?b = "entry_bytes (shared es ! i) (es ! i)" and ?r = "drop (pos es (Suc i)) (bytes es)"
  have e: "entries_from it (of_nat (pos es i)) = ?b @ ?r"
    using entries [OF assms(1,2), of i] body_at [of "shared es" es i] shared_length [OF assms(1)] assms(3) by simp
  have "length (?b @ ?r) \<le> length (bytes es)"
    unfolding e [symmetric] using entries [OF assms(1,2), of i] assms(3) by simp
  then have "length (?b @ ?r) < 2 ^ 32" using sizes(2) [OF assms(1)] by (rule le_less_trans)
  then show ?thesis unfolding e by (rule DecodeEntry_bytes)
qed

lemma restart_loop_at:
  assumes "fits es"
  shows "on es it \<Longrightarrow> bi_current it = of_nat (pos es i) \<Longrightarrow> i \<le> length es \<Longrightarrow> unat index < n_of es \<Longrightarrow>
     starts es ! unat index \<le> i \<Longrightarrow>
     unat (restart_loop it index) < n_of es \<and> starts es ! unat (restart_loop it index) \<le> i"
proof (induction it index rule: restart_loop.induct)
  case (1 it index)
  show ?case
  proof (cases "index + 1 < bi_num_restarts it \<and> GetRestartPoint it (index + 1) < bi_current it")
    case True
    have num: "bi_num_restarts it = of_nat (n_of es)" using "1.prems"(1) by (simp add: over_def)
    have un: "unat (index + 1) = unat index + 1"
      using "1.prems"(4) sizes(3) [OF assms] by (simp add: unat_word_ariths)
    have less: "unat index + 1 < n_of es"
      using True un sizes(3) [OF assms] by (simp add: num word_less_nat_alt unat_u32_of_nat)
    have "index + 1 = of_nat (unat index + 1)" by simp
    then have "GetRestartPoint it (index + 1) = of_nat (pos es (starts es ! (unat index + 1)))"
      using restart_point [OF assms "1.prems"(1) less] by (simp only:)
    then have "starts es ! (unat index + 1) < i"
      using True "1.prems"(2,3) starts_le [OF assms less] by (simp add: pos_less_u32 [OF assms])
    then show ?thesis using "1.IH" [OF True "1.prems"(1-3)] True less un by (simp add: restart_loop.simps [of it index])
  next
    case False
    then have "restart_loop it index = index" by (subst restart_loop.simps) (simp only: if_False)
    then show ?thesis using "1.prems" by simp
  qed
qed

text \<open>The place of the key and of the value of an entry.\<close>

lemma entry_place:
  assumes fits: "fits es" and i: "i < length es"
  defines "rest \<equiv> drop (shared es ! i) (fst (es ! i)) @ snd (es ! i) @ drop (pos es (Suc i)) (bytes es)"
  defines "p \<equiv> pos es i + (length (drop (pos es i) (bytes es)) - length rest)"
  shows "pos es (Suc i) = p + (length (fst (es ! i)) - shared es ! i) + length (snd (es ! i))"
    "drop p (build es) = drop (shared es ! i) (fst (es ! i)) @ snd (es ! i) @ drop (pos es (Suc i)) (build es)"
    "pos es (Suc i) < 2 ^ 32" "length (fst (es ! i)) < 2 ^ 32 \<Longrightarrow> shared es ! i < 2 ^ 32" "shared es ! i \<le> length (fst (es ! i))"
proof -
  define header where "header = EncodeVarint32 (of_nat (shared es ! i)) @ EncodeVarint32 (of_nat (length (fst (es ! i)) - shared es ! i)) @
    EncodeVarint32 (of_nat (length (snd (es ! i))))"
  have len: "length (shared es) = length es" using shared_length [OF fits] .
  have e: "entry_bytes (shared es ! i) (es ! i) = header @ drop (shared es ! i) (fst (es ! i)) @ snd (es ! i)"
    by (simp add: entry_bytes_def header_def)
  have at_i: "drop (pos es i) (bytes es) = header @ rest"
    using body_at [OF len i] by (simp add: e rest_def)
  have p: "p = pos es i + length header" by (simp add: p_def at_i)
  show "pos es (Suc i) = p + (length (fst (es ! i)) - shared es ! i) + length (snd (es ! i))"
    using off_Suc [OF len i] by (simp add: p e)
  show "pos es (Suc i) < 2 ^ 32" using pos_small [OF fits, of "Suc i"] i by simp
  show "shared es ! i \<le> length (fst (es ! i))" using shared_key [OF fits i] .
  then show "length (fst (es ! i)) < 2 ^ 32 \<Longrightarrow> shared es ! i < 2 ^ 32" by simp
  let ?t = "concat (map (\<lambda>r. le_bytes 4 (pos es r)) (starts es)) @ le_bytes 4 (n_of es)"
  have bld: "build es = bytes es @ ?t" by (simp add: content [OF fits] block_bytes_def)
  have "drop p (bytes es) = rest" using arg_cong [OF at_i, of "drop (length header)"] by (simp add: p add.commute)
  moreover have "p \<le> length (bytes es)" using arg_cong [OF at_i, of length] pos_le [OF fits, of i] i by (simp add: p)
  moreover have "pos es (Suc i) \<le> length (bytes es)" using pos_le [OF fits, of "Suc i"] i by simp
  ultimately show "drop p (build es) = drop (shared es ! i) (fst (es ! i)) @ snd (es ! i) @ drop (pos es (Suc i)) (build es)"
    by (simp add: bld rest_def)
qed

text \<open>No key is longer than what the bytes before the end of its entry hold.\<close>

lemma key_small: "fits es \<Longrightarrow> i < length es \<Longrightarrow> length (fst (es ! i)) \<le> pos es (Suc i)"
proof (induction i)
  case 0
  then have "shared es ! 0 = 0"
    using starts_full [of es 0] starts_first [of es] by (metis hd_in_set)
  then show ?case using entry_place(1) [OF 0] by simp
next
  case (Suc i)
  then have "shared es ! Suc i \<le> pos es (Suc i)" using shared_prefix [of es i] by simp
  moreover have "pos es (Suc i) + (length (fst (es ! Suc i)) - shared es ! Suc i) \<le> pos es (Suc (Suc i))"
    using entry_place(1) [OF Suc.prems] by simp
  ultimately show ?case by simp
qed

lemma parse:
  assumes fits: "fits es" and it: "ready es i it" and i: "i < length es"
  obtains it' where "ParseNextKey it = Some (True, it')" "at es i it'"
proof -
  let ?k = "fst (es ! i)" and ?v = "snd (es ! i)" and ?s = "shared es ! i" and ?p = "of_nat (pos es i) :: u32"
  let ?rest = "drop ?s ?k @ ?v @ drop (pos es (Suc i)) (bytes es)"
  define it1 where "it1 = it\<lparr>bi_current := ?p\<rparr>"
  have on: "on es it" "on es it1" and "NextEntryOffset it = Some ?p" using it by (simp_all add: ready_def over_def it1_def)
  have valid: "?p < bi_restarts it1"
    using pos_less_u32 [OF fits, of i "length es"] i on(2) shared_length [OF fits] by (simp add: over_def)
  have ent: "entries_from it1 ?p = drop (pos es i) (bytes es)" using entries [OF fits on(2), of i] i by simp
  define p where "p = pos es i + (length (drop (pos es i) (bytes es)) - length ?rest)"
  note place = entry_place [OF fits i, folded p_def]
  have len: "length ?k < 2 ^ 32" "length ?v < 2 ^ 32" "?s < 2 ^ 32" "length ?k - ?s < 2 ^ 32"
    using key_small [OF fits i] place(1,3,4) by simp_all
  have pos: "unat ?p = pos es i" using pos_small [OF fits, of i] i by (simp add: unat_u32_of_nat)
  have "length ?k - ?s \<le> length (drop p (build es))" unfolding place(2) by simp
  then have delta: "read_block (build es) p (length ?k - ?s) = Some (drop ?s ?k)"
    using place(2) sizes(1) [OF fits] place(1) pos_le [OF fits, of "Suc i"] i by (simp add: read_block_def)
  define it2 where "it2 = it1\<lparr>bi_key := take ?s (bi_key it) @ drop ?s ?k, bi_value := Some (p + (length ?k - ?s), length ?v)\<rparr>"
  define it3 where "it3 = it2\<lparr>bi_restart_index := restart_loop it2 (bi_restart_index it2)\<rparr>"
  have key: "length (bi_key it) \<ge> ?s" "take ?s (bi_key it) = take ?s ?k" using it i by (simp_all add: ready_def)
  have it1: "bi_data it1 = build es" "bi_key it1 = bi_key it" "bi_restarts it = bi_restarts it1" using on(2) by (simp_all add: over_def it1_def)
  have "ParseNextKey it = Some (True, it3)"
    using valid decode [OF fits on(2) i] delta len key(1) it1 ent pos
    by (simp add: ParseNextKey_def \<open>NextEntryOffset it = Some ?p\<close> it1_def [symmetric] Let_def it3_def it2_def p_def
        unat_u32_of_nat not_le not_less del: length_append length_drop)
  moreover have "at es i it3"
  proof -
    have it2: "on es it2" "bi_current it2 = ?p" "bi_restart_index it2 = bi_restart_index it"
      using on(2) by (simp_all add: it2_def it1_def over_def)
    have "unat (bi_restart_index it3) < n_of es \<and> starts es ! unat (bi_restart_index it3) \<le> i"
      using restart_loop_at [OF fits it2(1,2), of "bi_restart_index it2"] it i by (simp add: it3_def it2(3) ready_def)
    moreover have "bi_key it3 = ?k" by (simp add: it3_def it2_def key(2))
    ultimately show ?thesis using it2 i place(1) by (simp add: at_def over_def it3_def) (simp add: it2_def)
  qed
  ultimately show ?thesis by (rule that)
qed

lemma at_on: "at es i it \<Longrightarrow> on es it" by (simp add: at_def)

lemma next_offset:
  assumes "fits es" "at es i it"
  shows "NextEntryOffset it = Some (of_nat (pos es (Suc i)))"
proof -
  have i: "i < length es" using assms(2) by (simp add: at_def)
  have "pos es (Suc i) - length (snd (es ! i)) + length (snd (es ! i)) = pos es (Suc i)"
    using entry_place(1) [OF assms(1) i] by simp
  then have "(of_nat (pos es (Suc i) - length (snd (es ! i)) + length (snd (es ! i))) :: u32) = of_nat (pos es (Suc i))"
    by (simp only:)
  then show ?thesis using assms(2) by (simp only: NextEntryOffset_def at_def option.map prod.case)
qed

lemma at_ready:
  assumes "fits es" "at es i it"
  shows "ready es (Suc i) it"
  using assms next_offset [OF assms] shared_prefix [OF assms(1), of i] by (simp add: ready_def at_def)

lemma parse_end:
  assumes fits: "fits es" and it: "ready es (length es) it"
  obtains it' where "ParseNextKey it = Some (False, it')" "outside es it'"
proof -
  have "NextEntryOffset it = Some (bi_restarts it)" using it shared_length [OF fits] by (simp add: ready_def over_def)
  then have "ParseNextKey it = Some (False, it\<lparr>bi_current := bi_restarts it, bi_restart_index := bi_num_restarts it\<rparr>)"
    by (simp add: ParseNextKey_def Let_def)
  moreover have "outside es (it\<lparr>bi_current := bi_restarts it, bi_restart_index := bi_num_restarts it\<rparr>)"
    using it by (simp add: ready_def outside_def over_def)
  ultimately show ?thesis by (rule that)
qed

lemma seek_ready:
  assumes fits: "fits es" and "on es it" "j < n_of es"
  shows "ready es (starts es ! j) (SeekToRestartPoint (of_nat j) it)"
proof -
  have "shared es ! (starts es ! j) = 0" if "starts es ! j < length es"
    using starts_full [OF fits, of "starts es ! j"] assms(3) that by simp
  moreover have "NextEntryOffset (SeekToRestartPoint (of_nat j) it) = Some (of_nat (pos es (starts es ! j)))"
    using restart_point [OF assms] by (simp add: SeekToRestartPoint_def NextEntryOffset_def)
  moreover have "unat (of_nat j :: u32) = j" using assms(3) sizes(3) [OF fits] by (simp add: unat_u32_of_nat)
  ultimately show ?thesis using assms by (simp add: ready_def SeekToRestartPoint_def over_def)
qed

section \<open>Moving the iterator\<close>

text \<open>The iterator represents position \<open>i\<close>; the position behind the last entry stands for an iterator that is not valid.\<close>

definition cursor :: "entry list \<Rightarrow> nat \<Rightarrow> BlockIter \<Rightarrow> bool" where
  "cursor es i it \<longleftrightarrow> at es i it \<or> i = length es \<and> outside es it"

lemma cursor_on: "cursor es i it \<Longrightarrow> on es it"
  by (auto simp: cursor_def at_def outside_def)

lemma cursor_valid: "fits es \<Longrightarrow> cursor es i it \<Longrightarrow> BlockIter_Valid it \<longleftrightarrow> i < length es"
  using pos_less_u32 [of es i "length es"] shared_length [of es]
  by (auto simp: cursor_def at_def outside_def BlockIter_Valid_def over_def)

lemma parse_cursor:
  assumes "fits es" "ready es i it" "i \<le> length es"
  obtains it' where "ParseNextKey it = Some (i < length es, it')" "cursor es i it'"
proof (cases "i < length es")
  case True
  then show ?thesis using parse [OF assms(1,2) True] that by (auto simp: cursor_def)
next
  case False
  then show ?thesis using parse_end [OF assms(1)] assms(2,3) that by (auto simp: cursor_def)
qed

lemma next_cursor:
  assumes "fits es" "cursor es i it" "i < length es"
  obtains it' where "BlockIter_Next it = Some it'" "cursor es (Suc i) it'"
proof -
  have "at es i it" using assms(2,3) by (simp add: cursor_def)
  then show ?thesis using parse_cursor [OF assms(1) at_ready [OF assms(1)]] assms(3) that
    by (metis (no_types, lifting) BlockIter_Next_def Suc_leI option.map(2) snd_conv)
qed

lemma first_cursor:
  assumes "fits es" "on es it"
  obtains it' where "BlockIter_SeekToFirst it = Some it'" "cursor es 0 it'"
proof -
  have "ready es 0 (SeekToRestartPoint 0 it)"
    using seek_ready [OF assms, of 0] sizes(4) [OF assms(1)] starts_first [OF assms(1)] hd_conv_nth [of "starts es"] by simp
  from parse_cursor [OF assms(1) this] show ?thesis using that by (fastforce simp: BlockIter_SeekToFirst_def)
qed

lemma skip:
  assumes fits: "fits es" and m: "m < length es"
  shows "ready es i it \<Longrightarrow> i \<le> m \<Longrightarrow> \<exists>it'. while_true (skip_turn (of_nat (pos es (Suc m)))) it = Some (Some it') \<and> at es m it'"
proof (induction "m - i" arbitrary: i it)
  case 0
  then have "i = m" by simp
  with 0 m obtain it' where it': "ParseNextKey it = Some (True, it')" "at es m it'" using parse [OF fits] by blast
  then have "skip_turn (of_nat (pos es (Suc m))) it = Inl (Some it')"
    by (simp add: skip_turn_def next_offset [OF fits it'(2)])
  then show ?case using it' by (auto simp: while_true_return)
next
  case (Suc d)
  with m have "i < length es" by simp
  with Suc obtain it' where it': "ParseNextKey it = Some (True, it')" "at es i it'" using parse [OF fits] by blast
  have "(of_nat (pos es (Suc i)) :: u32) < of_nat (pos es (Suc m))"
    using pos_less_u32 [OF fits, of "Suc i" "Suc m"] Suc(2) m by simp
  then have "skip_turn (of_nat (pos es (Suc m))) it = Inr it'"
    by (simp add: skip_turn_def it'(1) next_offset [OF fits it'(2)])
  moreover have "\<exists>it''. while_true (skip_turn (of_nat (pos es (Suc m)))) it' = Some (Some it'') \<and> at es m it''"
    by (rule Suc(1) [of "Suc i"]) (use Suc(2,4) at_ready [OF fits it'(2)] in simp_all)
  ultimately show ?case by (simp add: while_true_turn)
qed

lemma last_restart: "fits es \<Longrightarrow> (of_nat (n_of es) :: u32) - 1 = of_nat (n_of es - 1)"
proof -
  assume "fits es"
  then obtain m where "n_of es = Suc m" using sizes(4) [of es] by (cases "n_of es") auto
  then show ?thesis by simp
qed

lemma last_cursor:
  assumes fits: "fits es" and on: "on es it"
  obtains it' where "BlockIter_SeekToLast it = Some it'" "cursor es (length es - 1) it'"
proof -
  let ?j = "n_of es - 1"
  have num: "bi_num_restarts it - 1 = of_nat ?j" using on by (simp only: over_def last_restart [OF fits])
  have rd: "ready es (starts es ! ?j) (SeekToRestartPoint (of_nat ?j) it)"
    by (rule seek_ready [OF fits on]) (use sizes(4) [OF fits] in simp)
  show ?thesis
  proof (cases "es = []")
    case True
    then have r: "ready es (length es) (SeekToRestartPoint (of_nat ?j) it)"
      using rd starts_le [OF fits, of ?j] sizes(4) [OF fits] by simp
    from parse_end [OF fits r] obtain it' where
      "ParseNextKey (SeekToRestartPoint (of_nat ?j) it) = Some (False, it')" "outside es it'" .
    then show ?thesis using True that
      by (simp add: BlockIter_SeekToLast_def skip_until_def num skip_turn_def while_true_return cursor_def)
  next
    case False
    have "starts es ! ?j \<le> length es - 1"
      using False starts_entry [OF fits, of "starts es ! ?j"] sizes(4) [OF fits] by (cases "starts es ! ?j = 0") auto
    moreover have "length es - 1 < length es" using False by simp
    moreover have "of_nat (pos es (Suc (length es - 1))) = bi_restarts it"
      using False on shared_length [OF fits] by (simp add: over_def)
    ultimately obtain it' where
      "while_true (skip_turn (bi_restarts it)) (SeekToRestartPoint (of_nat ?j) it) = Some (Some it')" "at es (length es - 1) it'"
      using skip [OF fits _ rd, of "length es - 1"] by auto
    then show ?thesis using that by (simp add: BlockIter_SeekToLast_def skip_until_def num cursor_def)
  qed
qed

lemma scan_back:
  assumes fits: "fits es" and it: "at es i it"
  shows "j < n_of es \<Longrightarrow> (\<exists>r. while_true (back_turn it) (of_nat j) = Some r \<and>
     (case r of None \<Rightarrow> i = 0 | Some index \<Rightarrow> unat index < n_of es \<and> starts es ! unat index < i))"
proof (induction j)
  case 0
  then have "starts es ! 0 = 0" using starts_first [OF fits] hd_conv_nth [of "starts es"] by simp
  then have g: "GetRestartPoint it 0 = of_nat (pos es 0)" using restart_point [OF fits at_on [OF it] 0] by simp
  show ?case
  proof (cases "i = 0")
    case True
    then have "back_turn it 0 = Inl None" using it g by (simp add: back_turn_def at_def)
    then show ?thesis using True by (simp add: while_true_return)
  next
    case False
    then have "(of_nat (pos es 0) :: u32) < of_nat (pos es i)"
      using pos_less_u32 [OF fits, of 0 i] it by (simp add: at_def)
    then have "back_turn it 0 = Inl (Some 0)" using it g by (simp add: back_turn_def at_def)
    then show ?thesis using False 0 \<open>starts es ! 0 = 0\<close> by (simp add: while_true_return)
  qed
next
  case (Suc j)
  let ?r = "starts es ! Suc j"
  have g: "GetRestartPoint it (of_nat (Suc j)) = of_nat (pos es ?r)" using restart_point [OF fits at_on [OF it] Suc.prems] .
  have un: "unat (of_nat (Suc j) :: u32) = Suc j" using Suc.prems sizes(3) [OF fits] by (simp only: unat_u32_of_nat)
  show ?case
  proof (cases "?r < i")
    case True
    then have "(of_nat (pos es ?r) :: u32) < of_nat (pos es i)" using pos_less_u32 [OF fits, of ?r i] it by (simp add: at_def)
    then have "back_turn it (of_nat (Suc j)) = Inl (Some (of_nat (Suc j)))" using it by (simp only: back_turn_def g at_def not_le [symmetric] if_False)
    then show ?thesis using True Suc.prems un by (simp add: while_true_return del: of_nat_Suc)
  next
    case False
    then have "\<not> (of_nat (pos es ?r) :: u32) < of_nat (pos es i)"
      using pos_less_u32 [OF fits, of ?r i] it starts_le [OF fits Suc.prems] by (simp add: at_def)
    moreover have "(of_nat (Suc j) :: u32) \<noteq> 0" using un by (metis nat.distinct(1) unat_0)
    moreover have "(of_nat (Suc j) :: u32) - 1 = of_nat j" by simp
    ultimately have "back_turn it (of_nat (Suc j)) = Inr (of_nat j)"
      using it by (simp only: back_turn_def g at_def not_less if_True if_False)
    then show ?thesis using Suc by (simp add: while_true_turn del: of_nat_Suc)
  qed
qed

lemma prev_cursor:
  assumes fits: "fits es" and it: "at es i it"
  obtains it' where "BlockIter_Prev it = Some it'" "cursor es (if i = 0 then length es else i - 1) it'"
proof -
  have i: "i < length es" and j: "unat (bi_restart_index it) < n_of es" using it by (simp_all add: at_def)
  then obtain r where r: "while_true (back_turn it) (bi_restart_index it) = Some r"
    "case r of None \<Rightarrow> i = 0 | Some index \<Rightarrow> unat index < n_of es \<and> starts es ! unat index < i"
    using scan_back [OF fits it j] by auto
  show ?thesis
  proof (cases r)
    case None
    then have "BlockIter_Prev it = Some (it\<lparr>bi_current := bi_restarts it, bi_restart_index := bi_num_restarts it\<rparr>)"
      by (simp add: BlockIter_Prev_def r(1))
    moreover have "outside es (it\<lparr>bi_current := bi_restarts it, bi_restart_index := bi_num_restarts it\<rparr>)"
      using at_on [OF it] by (simp add: outside_def over_def)
    ultimately show ?thesis using that None r(2) by (simp add: cursor_def)
  next
    case (Some index)
    with r(2) have index: "unat index < n_of es" "starts es ! unat index \<le> i - 1" "0 < i" by auto
    have "ready es (starts es ! unat index) (SeekToRestartPoint index it)"
      using seek_ready [OF fits at_on [OF it] index(1)] by simp
    moreover have "i - 1 < length es" "Suc (i - 1) = i" using i index(3) by simp_all
    ultimately obtain it' where
      "while_true (skip_turn (of_nat (pos es i))) (SeekToRestartPoint index it) = Some (Some it')" "at es (i - 1) it'"
      using skip [OF fits, of "i - 1" "starts es ! unat index"] index(2) by auto
    moreover have "bi_current it = of_nat (pos es i)" using it by (simp add: at_def)
    ultimately have "BlockIter_Prev it = Some it'" "cursor es (i - 1) it'"
      by (simp_all add: BlockIter_Prev_def r(1) Some skip_until_def cursor_def)
    then show ?thesis using that index(3) by simp
  qed
qed

text \<open>What a client reads.\<close>

lemma cursor_value:
  assumes fits: "fits es" and it: "cursor es i it" and i: "i < length es"
  shows "bi_key it = fst (es ! i)" "BlockIter_value it = Some (snd (es ! i))"
proof -
  have at: "at es i it" using it i by (simp add: cursor_def)
  then show "bi_key it = fst (es ! i)" by (simp add: at_def)
  let ?k = "drop (shared es ! i) (fst (es ! i))" and ?v = "snd (es ! i)"
  define p where "p = pos es i + (length (drop (pos es i) (bytes es)) - length (?k @ ?v @ drop (pos es (Suc i)) (bytes es)))"
  note place = entry_place [OF fits i, folded p_def]
  have q: "pos es (Suc i) - length ?v = p + length ?k" using place(1) by simp
  have "drop (p + length ?k) (build es) = drop (length ?k) (drop p (build es))" by (simp only: drop_drop add.commute)
  also have "\<dots> = ?v @ drop (pos es (Suc i)) (build es)" unfolding place(2) by simp
  finally have "drop (pos es (Suc i) - length ?v) (build es) = ?v @ drop (pos es (Suc i)) (build es)" unfolding q .
  moreover have "length ?v \<le> pos es (Suc i)" "pos es (Suc i) \<le> length (build es)"
    using place(1) pos_le [OF fits, of "Suc i"] i sizes(1) [OF fits] by simp_all
  ultimately show "BlockIter_value it = Some ?v"
    using at by (simp add: BlockIter_value_def at_def over_def read_block_def)
qed

end

section \<open>Searching\<close>

text \<open>The entries of a table are in the order of its comparator.\<close>

definition ordered :: "comparator_class \<Rightarrow> (slice \<Rightarrow> bool) \<Rightarrow> entry list \<Rightarrow> bool" where
  "ordered c valid es \<longleftrightarrow> (\<forall>e \<in> set es. valid (fst e)) \<and> sorted_wrt (\<lambda>a b. Compare c (fst a) (fst b) < 0) es"

definition lower :: "comparator_class \<Rightarrow> slice \<Rightarrow> entry list \<Rightarrow> nat" where
  "lower c target es = length (takeWhile (\<lambda>e. Compare c (fst e) target < 0) es)"

locale ordered_block = block_format build fits shared starts + comparator c valid
  for build fits shared starts c valid
begin

lemma smaller_before:
  assumes "ordered c valid es" "valid target" "i < j" "j < length es" "Compare c (fst (es ! j)) target < 0"
  shows "Compare c (fst (es ! i)) target < 0"
proof -
  have "Compare c (fst (es ! i)) (fst (es ! j)) < 0" "valid (fst (es ! i))" "valid (fst (es ! j))"
    using assms by (auto simp: ordered_def sorted_wrt_iff_nth_less)
  then show ?thesis using compare_trans assms(2,5) by blast
qed

lemma lower_le:
  assumes "\<And>j. j < i \<Longrightarrow> Compare c (fst (es ! j)) target < 0" "i \<le> length es"
  shows "i \<le> lower c target es"
proof (rule ccontr)
  assume "\<not> i \<le> lower c target es"
  then have "lower c target es < i" by simp
  then show False using assms nth_length_takeWhile [of "\<lambda>e. Compare c (fst e) target < 0" es] by (force simp: lower_def)
qed

lemma lower_at:
  assumes "\<And>j. j < i \<Longrightarrow> Compare c (fst (es ! j)) target < 0" "i < length es" "\<not> Compare c (fst (es ! i)) target < 0"
  shows "lower c target es = i"
proof (rule antisym)
  show "i \<le> lower c target es" by (rule lower_le) (use assms in auto)
  show "lower c target es \<le> i"
  proof (rule ccontr)
    assume "\<not> lower c target es \<le> i"
    then have "i < length (takeWhile (\<lambda>e. Compare c (fst e) target < 0) es)" by (simp add: lower_def)
    then show False using assms(3) takeWhile_nth [of i "\<lambda>e. Compare c (fst e) target < 0" es] nth_mem
        set_takeWhileD by fastforce
  qed
qed

text \<open>The binary search keeps a restart point whose key is smaller than the target on its left.\<close>

lemma binary_search:
  assumes fits: "fits es" and on: "on es it"
  shows "l \<le> r \<Longrightarrow> r < n_of es \<Longrightarrow> l = 0 \<or> starts es ! l < length es \<and> Compare c (fst (es ! (starts es ! l))) target < 0 \<Longrightarrow>
    \<exists>m. while_true (search_turn c target it) (of_nat l, of_nat r) = Some (Restart (of_nat m)) \<and> m < n_of es \<and>
      (m = 0 \<or> starts es ! m < length es \<and> Compare c (fst (es ! (starts es ! m))) target < 0)"
proof (induction "r - l" arbitrary: l r rule: less_induct)
  case less
  have n: "n_of es < 2 ^ 30" using sizes(1) [OF fits] small [OF fits] by simp
  have lt: "(of_nat l :: u32) < of_nat r \<longleftrightarrow> l < r" using less.prems n by (simp add: of_nat_less_u32)
  show ?case
  proof (cases "l < r")
    case False
    then have "search_turn c target it (of_nat l, of_nat r) = Inl (Restart (of_nat l))" by (simp add: search_turn_def lt)
    then show ?thesis using less.prems False by (auto simp: while_true_return intro!: exI [of _ l])
  next
    case True
    define mid where "mid = (l + r + 1) div 2"
    have mid: "l < mid" "mid \<le> r" using True by (simp_all add: mid_def)
    then have midn: "mid < n_of es" using less.prems by simp
    have w: "(of_nat l + of_nat r + 1) div 2 = (of_nat mid :: u32)"
    proof (rule unsigned_word_eqI)
      have "unat (of_nat l + of_nat r + 1 :: u32) = l + r + 1"
        using unat_u32_of_nat [of "l + r + 1"] less.prems n by (simp add: ac_simps)
      moreover have "unat (of_nat mid :: u32) = mid" using midn n by (simp add: unat_u32_of_nat)
      ultimately show "unat ((of_nat l + of_nat r + 1) div 2 :: u32) = unat (of_nat mid :: u32)"
        by (simp add: unat_div mid_def)
    qed
    let ?e = "starts es ! mid"
    have "?e \<noteq> 0"
    proof -
      have "starts es ! 0 < ?e" using starts_order [OF fits] mid midn by (simp add: sorted_wrt_iff_nth_less)
      then show ?thesis by simp
    qed
    then have e: "?e < length es" using starts_entry [OF fits, of ?e] midn by simp
    then have sh: "shared es ! ?e = 0" using starts_full [OF fits, of ?e] midn by simp
    define p where "p = pos es ?e + (length (drop (pos es ?e) (bytes es)) - length (drop (shared es ! ?e) (fst (es ! ?e)) @ snd (es ! ?e) @ drop (pos es (Suc ?e)) (bytes es)))"
    note place = entry_place [OF fits e, folded p_def]
    have len: "unat (of_nat (length (fst (es ! ?e))) :: u32) = length (fst (es ! ?e))"
      using key_small [OF fits e] place(3) by (simp add: unat_u32_of_nat)
    have u: "unat (of_nat (pos es ?e) :: u32) = pos es ?e" using pos_small [OF fits, of ?e] e by (simp add: unat_u32_of_nat)
    have rd: "read_block (bi_data it) p (length (fst (es ! ?e))) = Some (fst (es ! ?e))"
      using place(1,2) pos_le [OF fits, of "Suc ?e"] e sizes(1) [OF fits] on sh by (simp add: read_block_def over_def)
    have turn: "search_turn c target it (of_nat l, of_nat r) =
        (if Compare c (fst (es ! ?e)) target < 0 then Inr (of_nat mid, of_nat r) else Inr (of_nat l, of_nat mid - 1))"
      using True lt decode [OF fits on e] entries [OF fits on, of ?e] e rd len u sh
      by (simp add: search_turn_def Let_def w restart_point [OF fits on midn] p_def del: length_append length_drop)
    show ?thesis
    proof (cases "Compare c (fst (es ! ?e)) target < 0")
      case True
      then show ?thesis using less.hyps [of r mid] mid less.prems e turn by (simp add: while_true_turn)
    next
      case False
      have "(of_nat mid :: u32) - 1 = of_nat (mid - 1)" using mid by (cases mid) auto
      then show ?thesis using False less.hyps [of "mid - 1" l] mid less.prems turn by (simp add: while_true_turn)
    qed
  qed
qed

lemma linear_search:
  assumes fits: "fits es" and "ordered c valid es" "valid target"
  shows "ready es i it \<Longrightarrow> i \<le> length es \<Longrightarrow> (\<And>j. j < i \<Longrightarrow> Compare c (fst (es ! j)) target < 0) \<Longrightarrow>
    \<exists>it'. while_true (seek_turn c target) it = Some (Some it') \<and> cursor es (lower c target es) it'"
proof (induction "length es - i" arbitrary: i it)
  case 0
  then have i: "i = length es" by simp
  obtain it' where it': "ParseNextKey it = Some (False, it')" "cursor es i it'"
    by (rule parse_cursor [OF fits 0(2,3)]) (simp add: i)
  have "i \<le> lower c target es" by (rule lower_le) (use 0 in auto)
  moreover have "lower c target es \<le> length es" by (simp add: lower_def length_takeWhile_le)
  ultimately have "lower c target es = i" using i by simp
  then show ?case using it' by (simp add: seek_turn_def while_true_return)
next
  case (Suc d)
  then have i: "i < length es" by simp
  obtain it' where it': "ParseNextKey it = Some (True, it')" "at es i it'" by (rule parse [OF fits Suc(3) i])
  then have key: "bi_key it' = fst (es ! i)" by (simp add: at_def)
  show ?case
  proof (cases "Compare c (fst (es ! i)) target < 0")
    case True
    have "\<exists>it''. while_true (seek_turn c target) it' = Some (Some it'') \<and> cursor es (lower c target es) it''"
    proof (rule Suc(1) [of "Suc i"])
      show "Compare c (fst (es ! j)) target < 0" if "j < Suc i" for j using that True Suc(5) by (cases "j = i") auto
    qed (use Suc(2) i at_ready [OF fits it'(2)] in simp_all)
    then show ?thesis using True key it'(1) by (simp add: seek_turn_def while_true_turn)
  next
    case False
    then have "lower c target es = i" using lower_at [of i es target] Suc(5) i by blast
    then show ?thesis using False key it' by (simp add: seek_turn_def while_true_return cursor_def)
  qed
qed

lemma seek_cursor:
  assumes fits: "fits es" and ord: "ordered c valid es" and target: "valid target" and on: "on es it"
  obtains it' where "BlockIter_Seek c target it = Some it'" "cursor es (lower c target es) it'"
proof -
  have num: "bi_num_restarts it - 1 = of_nat (n_of es - 1)" using on by (simp only: over_def last_restart [OF fits])
  obtain m where m: "while_true (search_turn c target it) (0, bi_num_restarts it - 1) = Some (Restart (of_nat m))" "m < n_of es"
      "m = 0 \<or> starts es ! m < length es \<and> Compare c (fst (es ! (starts es ! m))) target < 0"
    using binary_search [OF fits on, of 0 "n_of es - 1" target] sizes(4) [OF fits] num by auto
  have first: "starts es ! 0 = 0" using starts_first [OF fits] hd_conv_nth [of "starts es"] by simp
  have "Compare c (fst (es ! j)) target < 0" if "j < starts es ! m" for j
    using smaller_before [OF ord target that] m(3) that first by (cases "m = 0") auto
  then obtain it' where "while_true (seek_turn c target) (SeekToRestartPoint (of_nat m) it) = Some (Some it')"
      "cursor es (lower c target es) it'"
    using linear_search [OF fits ord target seek_ready [OF fits on m(2)] starts_le [OF fits m(2)]] by blast
  then show ?thesis using that by (simp add: BlockIter_Seek_def m(1))
qed

end

end
