(* ===== verification/LdbBlockBuild.thy ===== *)
theory LdbBlockBuild
  imports LdbBlockIter
begin

text \<open>
  \<^verbatim>\<open>BlockBuilder\<close> keeps the contract \<open>block_format\<close>: what it shares between keys and where it starts again is
  planned by a fold over the entries, and its buffer is the block of that plan.
\<close>

section \<open>The builder\<close>

definition block_builder :: "int \<Rightarrow> entry list \<Rightarrow> BlockBuilder" where
  "block_builder interval es = fold (\<lambda>e. BlockBuilder_Add (fst e) (snd e)) es (BlockBuilder_new interval)"

definition build_block :: "int \<Rightarrow> entry list \<Rightarrow> byte list" where
  "build_block interval es = fst (BlockBuilder_Finish (block_builder interval es))"

text \<open>What the builder decides for every key: the shared bytes, the restart points, and the entries since the last one.\<close>

fun plan_turn :: "int \<Rightarrow> entry \<Rightarrow> nat list \<times> nat list \<times> int \<times> slice \<Rightarrow> nat list \<times> nat list \<times> int \<times> slice" where
  "plan_turn interval e (sh, rs, counter, prev) =
     (if counter < interval then (sh @ [shared_loop prev (fst e)], rs, counter + 1, fst e)
      else (sh @ [0], rs @ [length sh], 1, fst e))"

definition plan :: "int \<Rightarrow> entry list \<Rightarrow> nat list \<times> nat list \<times> int \<times> slice" where
  "plan interval es = fold (plan_turn interval) es ([], [0], 0, [])"

definition planned_shared :: "int \<Rightarrow> entry list \<Rightarrow> nat list" where
  "planned_shared interval es = fst (plan interval es)"

definition planned_starts :: "int \<Rightarrow> entry list \<Rightarrow> nat list" where
  "planned_starts interval es = fst (snd (plan interval es))"

definition fits_block :: "int \<Rightarrow> entry list \<Rightarrow> bool" where
  "fits_block interval es \<longleftrightarrow> 1 \<le> interval \<and> length (build_block interval es) < 2 ^ 32"

lemma shared_loop_prefix:
  "shared_loop a b \<le> length a" "shared_loop a b \<le> length b" "take (shared_loop a b) a = take (shared_loop a b) b"
  by (induction a b rule: shared_loop.induct) auto

lemma body_snoc: "length sh = length es \<Longrightarrow> body (es @ [e]) (sh @ [s]) = body es sh @ entry_bytes s e"
  by (simp add: body_def)

lemma off_snoc: "length sh = length es \<Longrightarrow> i \<le> length es \<Longrightarrow> off (es @ [e]) (sh @ [s]) i = off es sh i"
  by (simp add: off_def)

lemma plan_snoc: "plan interval (es @ [e]) = plan_turn interval e (plan interval es)"
  by (simp add: plan_def)

lemma plan_shape:
  "plan interval es = (sh, rs, ct, prev) \<Longrightarrow> length sh = length es \<and> prev = (if es = [] then [] else fst (last es))"
proof (induction es arbitrary: sh rs ct prev rule: rev_induct)
  case (snoc e es)
  obtain sh' rs' ct' prev' where "plan interval es = (sh', rs', ct', prev')" by (metis prod_cases4)
  then show ?case using snoc by (auto simp: plan_snoc split: if_splits)
qed (simp add: plan_def)

text \<open>The cases of one more entry.\<close>

lemma plan_snoc_cases:
  assumes "plan interval (es @ [e]) = (sh, rs, ct, prev)"
  obtains sh' rs' ct' prev' where "plan interval es = (sh', rs', ct', prev')" "ct' < interval"
      "sh = sh' @ [shared_loop prev' (fst e)]" "rs = rs'" "ct = ct' + 1" "prev = fst e"
  | sh' rs' ct' prev' where "plan interval es = (sh', rs', ct', prev')" "\<not> ct' < interval"
      "sh = sh' @ [0]" "rs = rs' @ [length es]" "ct = 1" "prev = fst e"
proof -
  obtain sh' rs' ct' prev' where p: "plan interval es = (sh', rs', ct', prev')" by (metis prod_cases4)
  note len = plan_shape [OF p, THEN conjunct1]
  show ?thesis
  proof (cases "ct' < interval")
    case True
    then show ?thesis using assms by (intro that(1) [OF p]) (auto simp: plan_snoc p)
  next
    case False
    then show ?thesis using assms len by (intro that(2) [OF p]) (auto simp: plan_snoc p)
  qed
qed

lemma plan_starts:
  assumes "1 \<le> interval"
  shows "plan interval es = (sh, rs, ct, prev) \<Longrightarrow>
     rs \<noteq> [] \<and> hd rs = 0 \<and> sorted_wrt (<) rs \<and> ct = int (length es) - int (last rs) \<and> (\<forall>r \<in> set rs. r \<le> last rs) \<and>
     (\<forall>r \<in> set rs. r = 0 \<or> r < length es)"
proof (induction es arbitrary: sh rs ct prev rule: rev_induct)
  case (snoc e es)
  from snoc.prems show ?case
  proof (cases rule: plan_snoc_cases)
    case (1 sh' rs' ct' prev')
    then show ?thesis using snoc.IH [OF 1(1)] by force
  next
    case (2 sh' rs' ct' prev')
    note IH = snoc.IH [OF 2(1)]
    then have "last rs' < length es" using assms 2(2) by linarith
    then have "\<forall>r \<in> set rs'. r < length es" using IH by (meson le_less_trans)
    then show ?thesis using 2 IH by (auto simp: sorted_wrt_append)
  qed
qed (simp add: plan_def)

lemma plan_shared_start:
  assumes "1 \<le> interval"
  shows "plan interval es = (sh, rs, ct, prev) \<Longrightarrow> r \<in> set rs \<Longrightarrow> r < length es \<Longrightarrow> sh ! r = 0"
proof (induction es arbitrary: sh rs ct prev rule: rev_induct)
  case (snoc e es)
  from snoc.prems(1) show ?case
  proof (cases rule: plan_snoc_cases)
    case (1 sh' rs' ct' prev')
    note shape = plan_shape [OF 1(1)]
    show ?thesis
    proof (cases "r < length es")
      case True
      then show ?thesis using snoc.IH [OF 1(1)] snoc.prems(2) shape 1 by (simp add: nth_append)
    next
      case False
      then have "r = 0" "es = []" using plan_starts [OF assms 1(1)] snoc.prems(2,3) 1(4) by auto
      then show ?thesis using 1(3) shape by simp
    qed
  next
    case (2 sh' rs' ct' prev')
    then show ?thesis using snoc.IH [OF 2(1)] snoc.prems(2,3) plan_shape [OF 2(1)]
      by (cases "r = length es") (auto simp: nth_append)
  qed
qed simp

lemma plan_shared:
  "plan interval es = (sh, rs, ct, prev) \<Longrightarrow> i < length es \<Longrightarrow>
     sh ! i \<le> length (fst (es ! i)) \<and> (\<forall>j. i = Suc j \<longrightarrow> sh ! i \<le> length (fst (es ! j)) \<and>
       take (sh ! i) (fst (es ! j)) = take (sh ! i) (fst (es ! i)))"
proof (induction es arbitrary: sh rs ct prev rule: rev_induct)
  case (snoc e es)
  obtain sh' rs' ct' prev' where p: "plan interval es = (sh', rs', ct', prev')" by (metis prod_cases4)
  note shape = plan_shape [OF p]
  from snoc.prems(1) p have sh: "sh = sh' @ [shared_loop prev' (fst e)] \<or> sh = sh' @ [0]"
    by (auto simp: plan_snoc split: if_splits)
  show ?case
  proof (cases "i < length es")
    case True
    then show ?thesis using snoc.IH [OF p] sh shape by (auto simp: nth_append)
  next
    case False
    then have i: "i = length es" using snoc.prems(2) by simp
    show ?thesis using sh shape shared_loop_prefix [of prev' "fst e"] by (auto simp: i nth_append last_conv_nth)
  qed
qed simp

lemma builder_plan:
  assumes "1 \<le> interval"
  shows "plan interval es = (sh, rs, ct, prev) \<Longrightarrow> block_builder interval es =
     \<lparr>bb_interval = interval, bb_buffer = body es sh, bb_restarts = map (\<lambda>r. of_nat (off es sh r)) rs,
      bb_counter = ct, bb_finished = False, bb_last_key = prev\<rparr>"
proof (induction es arbitrary: sh rs ct prev rule: rev_induct)
  case Nil
  then show ?case by (auto simp: plan_def block_builder_def BlockBuilder_new_def body_def)
next
  case (snoc e es)
  have add: "block_builder interval (es @ [e]) = BlockBuilder_Add (fst e) (snd e) (block_builder interval es)"
    by (simp add: block_builder_def)
  have old: "map (\<lambda>r. of_nat (off (es @ [e]) (sh' @ [s]) r) :: u32) rs' = map (\<lambda>r. of_nat (off es sh' r)) rs'"
    "off (es @ [e]) (sh' @ [s]) (length es) = length (body es sh')"
    if "plan interval es = (sh', rs', ct', prev')" for sh' rs' ct' prev' s
    using plan_starts [OF assms that] plan_shape [OF that] by (auto simp: off_snoc)
  from snoc.prems show ?case
  proof (cases rule: plan_snoc_cases)
    case (1 sh' rs' ct' prev')
    then show ?thesis using snoc.IH [OF 1(1)] old [OF 1(1)] plan_shape [OF 1(1)] shared_loop_prefix [of prev' "fst e"]
      by (simp add: add BlockBuilder_Add_def Let_def body_snoc entry_bytes_def PutVarint32_def)
  next
    case (2 sh' rs' ct' prev')
    then show ?thesis using snoc.IH [OF 2(1)] old [OF 2(1)] plan_shape [OF 2(1)]
      by (simp add: add BlockBuilder_Add_def Let_def body_snoc entry_bytes_def PutVarint32_def)
  qed
qed

lemma foldl_PutFixed32: "foldl PutFixed32 b vs = b @ concat (map (\<lambda>v. le_bytes 4 (unat v)) vs)"
  by (induction vs arbitrary: b) (simp_all add: PutFixed32_def EncodeFixed32_portable)

lemma build_block_bytes:
  assumes "fits_block interval es"
  shows "build_block interval es = block_bytes es (planned_shared interval es) (planned_starts interval es)"
proof -
  obtain sh rs ct prev where p: "plan interval es = (sh, rs, ct, prev)" by (metis prod_cases4)
  have one: "1 \<le> interval" using assms by (simp add: fits_block_def)
  let ?u = "\<lambda>r. of_nat (off es sh r) :: u32"
  have bytes: "build_block interval es = body es sh @ concat (map (\<lambda>r. le_bytes 4 (unat (?u r))) rs) @ le_bytes 4 (unat (of_nat (length rs) :: u32))"
    by (simp add: build_block_def BlockBuilder_Finish_def builder_plan [OF one p] Let_def foldl_PutFixed32 PutFixed32_def EncodeFixed32_portable comp_def)
  have "length (concat (map (\<lambda>r. le_bytes 4 (unat (?u r))) rs)) = 4 * length rs" by (rule length_concat_4) simp
  then have small: "length (body es sh) < 2 ^ 32" "length rs < 2 ^ 32"
    using assms by (simp_all add: fits_block_def bytes)
  have "unat (?u r) = off es sh r" if "r \<in> set rs" for r
  proof -
    have "r \<le> length es" using plan_starts [OF one p] that by auto
    then have "off es sh r \<le> length (body es sh)"
      using plan_shape [OF p] off_less [of sh es r "length es"] by (cases "r = length es") auto
    then show ?thesis using small(1) by (intro unat_u32_of_nat) simp
  qed
  then have "map (\<lambda>r. le_bytes 4 (unat (?u r))) rs = map (\<lambda>r. le_bytes 4 (off es sh r)) rs" by simp
  then have "concat (map (\<lambda>r. le_bytes 4 (unat (?u r))) rs) = concat (map (\<lambda>r. le_bytes 4 (off es sh r)) rs)" by (simp only:)
  then show ?thesis using small(2)
    by (simp add: bytes block_bytes_def planned_shared_def planned_starts_def p unat_u32_of_nat)
qed

interpretation built: block_format "build_block interval" "fits_block interval" "planned_shared interval" "planned_starts interval"
  for interval
proof
  fix es :: "entry list" and i r
  obtain sh rs ct prev where p: "plan interval es = (sh, rs, ct, prev)" by (metis prod_cases4)
  then have s: "planned_shared interval es = sh" "planned_starts interval es = rs" by (simp_all add: planned_shared_def planned_starts_def)
  assume f: "fits_block interval es"
  then have one: "1 \<le> interval" by (simp add: fits_block_def)
  note facts = plan_shape [OF p] plan_starts [OF one p] plan_shared_start [OF one p, of r] plan_shared [OF p, of i] plan_shared [OF p, of "Suc i"]
  show "build_block interval es = block_bytes es (planned_shared interval es) (planned_starts interval es)"
    by (rule build_block_bytes [OF f])
  show "length (build_block interval es) < 2 ^ 32" using f by (simp add: fits_block_def)
  show "length (planned_shared interval es) = length es" "planned_starts interval es \<noteq> [] \<and> hd (planned_starts interval es) = 0"
    "sorted_wrt (<) (planned_starts interval es)"
    using facts by (simp_all add: s)
  show "r \<in> set (planned_starts interval es) \<Longrightarrow> r \<noteq> 0 \<Longrightarrow> r < length es"
    "r \<in> set (planned_starts interval es) \<Longrightarrow> r < length es \<Longrightarrow> planned_shared interval es ! r = 0"
    "i < length es \<Longrightarrow> planned_shared interval es ! i \<le> length (fst (es ! i))"
    "Suc i < length es \<Longrightarrow> planned_shared interval es ! Suc i \<le> length (fst (es ! i)) \<and>
      take (planned_shared interval es ! Suc i) (fst (es ! i)) = take (planned_shared interval es ! Suc i) (fst (es ! Suc i))"
    using facts by (auto simp: s)
qed

interpretation table_block: ordered_block "build_block interval" "fits_block interval" "planned_shared interval" "planned_starts interval"
  "InternalKeyComparator BytewiseComparator" "\<lambda>k. 8 \<le> length k \<and> True" for interval
  by unfold_locales

end
