(* ===== verification/LdbBlockProps.thy ===== *)
theory LdbBlockProps
  imports LdbBlockBuild
begin

text \<open>
  What a table block guarantees, from the builder to the iterator, and what the decoder does with lengths that no builder
  writes.
\<close>

section \<open>The iterator of a built block\<close>

text \<open>A new iterator stands nowhere, which the position behind the last entry stands for.\<close>

context block_format
begin

lemma new_iterator:
  assumes fits: "fits es"
  obtains it where "Block_NewIterator (Block_new (build es)) = BlockIterator it" "cursor es (length es) it"
proof -
  let ?b = "build es" and ?n = "n_of es"
  note sz = sizes [OF fits]
  have n: "?n < 2 ^ 30" using sz(1) small [OF fits] by simp
  have "drop (length ?b - 4) ?b = le_bytes 4 ?n"
    using content [OF fits] by (simp add: block_bytes_def)
  then have num: "NumRestarts ?b (length ?b) = of_nat ?n"
    using DecodeFixed32_Encode [of True True "of_nat ?n" "[]"] n
    by (simp add: NumRestarts_def EncodeFixed32_portable unat_u32_of_nat)
  have un: "unat (of_nat ?n :: u32) = ?n" "unat (1 + of_nat ?n :: u32) = 1 + ?n"
    using n unat_u32_of_nat [of "1 + ?n"] by (simp_all add: unat_u32_of_nat)
  have "?n \<le> (length ?b - 4) div 4" "\<not> length ?b < 4" "length ?b - (1 + ?n) * 4 = length (bytes es)"
    by (simp_all add: sz(1))
  then have blk: "Block_new ?b = \<lparr>blk_data = ?b, blk_size = length ?b, restart_offset = of_nat (length (bytes es))\<rparr>"
    by (simp only: Block_new_def num un Let_def not_less [symmetric] if_False)
  have "(of_nat ?n :: u32) \<noteq> 0" using un(1) sz(4) by (metis less_irrefl unat_0)
  then have "Block_NewIterator (Block_new ?b) = BlockIterator (BlockIter_new ?b (of_nat (length (bytes es))) (of_nat ?n))"
    using \<open>\<not> length ?b < 4\<close> by (simp add: Block_NewIterator_def blk num Let_def)
  moreover have "cursor es (length es) (BlockIter_new ?b (of_nat (length (bytes es))) (of_nat ?n))"
    by (simp add: cursor_def outside_def over_def BlockIter_new_def)
  ultimately show ?thesis by (rule that)
qed

end

text \<open>The operations of the interface \<^verbatim>\<open>Iterator\<close>, on an iterator over a block and on a position in a list.\<close>

datatype cursor_op = OpSeekToFirst | OpSeekToLast | OpSeek slice | OpNext | OpPrev

fun iter_op :: "comparator_class \<Rightarrow> cursor_op \<Rightarrow> BlockIter \<Rightarrow> BlockIter option" where
  "iter_op c OpSeekToFirst it = BlockIter_SeekToFirst it"
| "iter_op c OpSeekToLast it = BlockIter_SeekToLast it"
| "iter_op c (OpSeek target) it = BlockIter_Seek c target it"
| "iter_op c OpNext it = BlockIter_Next it"
| "iter_op c OpPrev it = BlockIter_Prev it"

fun list_op :: "comparator_class \<Rightarrow> entry list \<Rightarrow> cursor_op \<Rightarrow> nat \<Rightarrow> nat option" where
  "list_op c es OpSeekToFirst i = Some 0"
| "list_op c es OpSeekToLast i = Some (length es - 1)"
| "list_op c es (OpSeek target) i = Some (lower c target es)"
| "list_op c es OpNext i = (if i < length es then Some (i + 1) else None)"
| "list_op c es OpPrev i = (if i < length es then Some (if i = 0 then length es else i - 1) else None)"

fun run_ops :: "('op \<Rightarrow> 's \<Rightarrow> 's option) \<Rightarrow> 'op list \<Rightarrow> 's \<Rightarrow> 's option" where
  "run_ops f [] s = Some s"
| "run_ops f (x # xs) s = Option.bind (f x s) (run_ops f xs)"

fun op_target :: "(slice \<Rightarrow> bool) \<Rightarrow> cursor_op \<Rightarrow> bool" where
  "op_target valid (OpSeek target) = valid target"
| "op_target valid _ = True"

context ordered_block
begin

lemma op_cursor:
  assumes fits: "fits es" and ord: "ordered c valid es" and it: "cursor es i it"
    and x: "op_target valid x" "list_op c es x i = Some j"
  obtains it' where "iter_op c x it = Some it'" "cursor es j it'"
proof (cases x)
  case OpSeekToFirst
  then show ?thesis using x(2) first_cursor [OF fits cursor_on [OF it]] that by auto
next
  case OpSeekToLast
  then show ?thesis using x(2) last_cursor [OF fits cursor_on [OF it]] that by auto
next
  case (OpSeek target)
  then show ?thesis using x seek_cursor [OF fits ord _ cursor_on [OF it]] that by auto
next
  case OpNext
  then show ?thesis using x(2) next_cursor [OF fits it] that by (auto split: if_splits)
next
  case OpPrev
  then have "i < length es" using x(2) by (simp split: if_splits)
  then have "at es i it" using it by (simp add: cursor_def)
  from prev_cursor [OF fits this] show ?thesis using OpPrev x(2) that by (auto split: if_splits)
qed

lemma run_cursor:
  assumes "fits es" "ordered c valid es"
  shows "cursor es i it \<Longrightarrow> \<forall>x \<in> set xs. op_target valid x \<Longrightarrow> run_ops (list_op c es) xs i = Some j \<Longrightarrow>
     \<exists>it'. run_ops (iter_op c) xs it = Some it' \<and> cursor es j it'"
proof (induction xs arbitrary: i it)
  case (Cons x xs)
  then obtain k where k: "list_op c es x i = Some k" "run_ops (list_op c es) xs k = Some j"
    by (cases "list_op c es x i") auto
  obtain it' where "iter_op c x it = Some it'" "cursor es k it'"
    using op_cursor [OF assms Cons.prems(1) _ k(1)] Cons.prems(2) by auto
  then show ?case using Cons.IH [of k it'] Cons.prems(2) k(2) by auto
qed simp

end

text \<open>
  C12: a block that \<^verbatim>\<open>BlockBuilder\<close> wrote is read back exactly. The iterator of the block, driven by any sequence of
  \<^verbatim>\<open>SeekToFirst\<close>, \<^verbatim>\<open>SeekToLast\<close>, \<^verbatim>\<open>Seek\<close>, \<^verbatim>\<open>Next\<close> and \<^verbatim>\<open>Prev\<close> (the last two only where the iterator is valid), is where the same
  sequence moves a position in the list of entries: it is valid exactly when the position is inside the list, its key and value are those of that
  entry, and its status stays OK. \<^verbatim>\<open>Seek\<close>, with its binary search over the restart points, finds the first entry that is not
  smaller than the target. Nothing is read outside the block and every loop ends.
\<close>

theorem block_iterator_refines:
  fixes es :: "entry list"
  defines "c \<equiv> InternalKeyComparator BytewiseComparator"
  assumes interval: "1 \<le> interval" and small: "length (build_block interval es) < 2 ^ 32"
    and sorted: "sorted_wrt (\<lambda>a b. Compare c (fst a) (fst b) < 0) es" and keys: "\<forall>e \<in> set es. 8 \<le> length (fst e)"
    and targets: "\<forall>x \<in> set xs. op_target (\<lambda>k. 8 \<le> length k) x"
    and run: "run_ops (list_op c es) xs (length es) = Some i"
  shows "\<exists>it0 it. Block_NewIterator (Block_new (build_block interval es)) = BlockIterator it0 \<and>
     run_ops (iter_op c) xs it0 = Some it \<and> ok (bi_status it) \<and> (BlockIter_Valid it \<longleftrightarrow> i < length es) \<and>
     (i < length es \<longrightarrow> bi_key it = fst (es ! i) \<and> BlockIter_value it = Some (snd (es ! i)))"
proof -
  have fits: "fits_block interval es" using interval small by (simp add: fits_block_def)
  have ord: "ordered c (\<lambda>k. 8 \<le> length k \<and> True) es" using sorted keys by (simp add: ordered_def)
  obtain it0 where it0: "Block_NewIterator (Block_new (build_block interval es)) = BlockIterator it0"
      "built.cursor interval es (length es) it0"
    using built.new_iterator [OF fits] .
  have "\<forall>x \<in> set xs. op_target (\<lambda>k. 8 \<le> length k \<and> True) x" using targets by simp
  then obtain it where it: "run_ops (iter_op c) xs it0 = Some it" "built.cursor interval es i it"
    using table_block.run_cursor [OF fits ord [unfolded c_def] it0(2) _ run [unfolded c_def]] by (auto simp: c_def)
  have "bi_status it = OK" using built.cursor_on [OF it(2)] by (simp add: over_def)
  then show ?thesis using it0(1) it built.cursor_valid [OF fits it(2)] built.cursor_value [OF fits it(2)] by auto
qed

definition sample_entries :: "entry list" where
  "sample_entries = map (\<lambda>(k, v). (bytes_of k @ [1, 7, 0, 0, 0, 0, 0, 0], bytes_of v))
     [(''apple'', ''1''), (''apply'', ''22''), (''banana'', ''''), (''band'', ''x''), (''c'', ''yy'')]"

lemma sample_fits: "length (build_block 2 sample_entries) = 91"
  by code_simp

lemma sample_sorted: "sorted_wrt (\<lambda>a b. Compare (InternalKeyComparator BytewiseComparator) (fst a) (fst b) < 0) sample_entries"
  by code_simp

lemma sample_keys: "\<forall>e \<in> set sample_entries. 8 \<le> length (fst e)"
  by code_simp

lemma sample_run:
  "run_ops (list_op (InternalKeyComparator BytewiseComparator) sample_entries)
     [OpSeek (bytes_of ''banb'' @ [1, 9, 0, 0, 0, 0, 0, 0]), OpPrev, OpPrev] (length sample_entries) = Some 1"
  by code_simp

theorem block_iterator_refines_witness:
  "\<exists>it0 it. Block_NewIterator (Block_new (build_block 2 sample_entries)) = BlockIterator it0 \<and>
     run_ops (iter_op (InternalKeyComparator BytewiseComparator))
       [OpSeek (bytes_of ''banb'' @ [1, 9, 0, 0, 0, 0, 0, 0]), OpPrev, OpPrev] it0 = Some it \<and>
     bi_key it = bytes_of ''apply'' @ [1, 7, 0, 0, 0, 0, 0, 0] \<and> BlockIter_value it = Some (bytes_of ''22'')"
proof -
  have small: "length (build_block 2 sample_entries) < 2 ^ 32" by (simp add: sample_fits)
  have targets: "\<forall>x \<in> set [OpSeek (bytes_of ''banb'' @ [1, 9, 0, 0, 0, 0, 0, 0]), OpPrev, OpPrev]. op_target (\<lambda>k. 8 \<le> length k) x"
    by (simp add: bytes_of_def)
  have "1 < length sample_entries" "fst (sample_entries ! 1) = bytes_of ''apply'' @ [1, 7, 0, 0, 0, 0, 0, 0]"
    "snd (sample_entries ! 1) = bytes_of ''22''" by (simp_all add: sample_entries_def)
  then show ?thesis
    using block_iterator_refines [OF _ small sample_sorted sample_keys targets sample_run] by auto
qed

section \<open>Lengths that no builder writes\<close>

text \<open>
  C38: the check of \<^verbatim>\<open>DecodeEntry\<close> that an entry ends inside its block adds two 32-bit lengths, and the sum wraps around.
  A block of a table whose first entry claims a key of \<open>ns\<close> bytes and a value of \<open>vl\<close> bytes, with \<open>ns + vl\<close> a multiple of \<open>2\<^sup>32\<close>, is
  accepted, and the first step of its iterator copies \<open>ns\<close> bytes from a block that is shorter, which is a read outside the block.
\<close>

theorem block_length_check_wraps:
  assumes wraps: "ns + vl = (0 :: u32)" and long: "length d + 8 < unat ns" and small: "length d < 2 ^ 31"
  shows "\<exists>it. Block_NewIterator (Block_new
       (EncodeVarint32 0 @ EncodeVarint32 ns @ EncodeVarint32 vl @ d @ le_bytes 4 0 @ le_bytes 4 1)) = BlockIterator it \<and>
     BlockIter_SeekToFirst it = None"
proof -
  let ?h = "EncodeVarint32 0 @ EncodeVarint32 ns @ EncodeVarint32 vl"
  define b where "b = EncodeVarint32 0 @ EncodeVarint32 ns @ EncodeVarint32 vl @ d @ le_bytes 4 0 @ le_bytes 4 1"
  define m where "m = length ?h + length d"
  have enc: "1 \<le> length (EncodeVarint32 v)" for v by (simp add: Suc_leI)
  have enc5: "length (EncodeVarint32 v) \<le> 5" for v
    using length_varint_bytes [of "unat v" 5] unat_u32_less [of v] by (simp add: EncodeVarint32_bytes)
  have h: "3 \<le> length ?h" "length ?h \<le> 15"
    using enc [of 0] enc [of ns] enc [of vl] enc5 [of 0] enc5 [of ns] enc5 [of vl] by (simp_all only: length_append)
  have len: "length b = m + 8" by (simp add: b_def m_def)
  have m: "0 < m" "m < 2 ^ 32" using h small by (simp_all add: m_def)
  have "drop (length b - 4) b = le_bytes 4 1" "drop m b = le_bytes 4 0 @ le_bytes 4 1" "take m b = ?h @ d"
    by (simp_all add: len) (simp_all add: b_def m_def)
  then have ends: "NumRestarts b (length b) = 1" "DecodeFixed32 True (drop m b) = 0" "take m b = ?h @ d"
    using DecodeFixed32_Encode [of True True 1 "[]"] DecodeFixed32_Encode [of True True 0 "le_bytes 4 1"]
    by (simp_all add: NumRestarts_def EncodeFixed32_portable)
  define it where "it = BlockIter_new b (of_nat m) 1"
  have "Block_new b = \<lparr>blk_data = b, blk_size = length b, restart_offset = of_nat m\<rparr>"
    using len m by (simp add: Block_new_def ends(1) [unfolded len] Let_def)
  then have "Block_NewIterator (Block_new b) = BlockIterator it"
    using len by (simp add: Block_NewIterator_def ends(1) [unfolded len] it_def Let_def)
  moreover have "BlockIter_SeekToFirst it = None"
  proof -
    have "GetRestartPoint it 0 = 0" using m ends(2) by (simp add: GetRestartPoint_def it_def BlockIter_new_def unat_u32_of_nat)
    then have next_offset: "NextEntryOffset (SeekToRestartPoint 0 it) = Some 0"
      by (simp add: SeekToRestartPoint_def NextEntryOffset_def)
    define it1 where "it1 = (SeekToRestartPoint 0 it)\<lparr>bi_current := 0\<rparr>"
    have fields: "bi_data it1 = b" "bi_restarts (SeekToRestartPoint 0 it) = of_nat m" "bi_key it1 = []" "entries_from it1 0 = ?h @ d"
      using m ends(3) by (simp_all add: it1_def it_def SeekToRestartPoint_def BlockIter_new_def entries_from_def unat_u32_of_nat)
    have "DecodeEntry (?h @ d) = Some (0, ns, vl, d)"
      using h(1) by (subst DecodeEntry_varints) (simp_all add: GetVarint32Ptr_Encode wraps)
    moreover have "read_block b (length ?h) (unat ns) = None"
      using long len by (simp add: read_block_def m_def)
    moreover have "(0 :: u32) < of_nat m" using m by (simp add: word_less_nat_alt unat_u32_of_nat)
    ultimately show ?thesis
      by (simp add: BlockIter_SeekToFirst_def ParseNextKey_def next_offset Let_def it1_def [symmetric] fields)
  qed
  ultimately show ?thesis unfolding b_def by blast
qed

theorem block_length_check_wraps_witness:
  "\<exists>it. Block_NewIterator (Block_new
       (EncodeVarint32 0 @ EncodeVarint32 0xFFFFFFFF @ EncodeVarint32 1 @ bytes_of ''ab'' @ le_bytes 4 0 @ le_bytes 4 1)) =
     BlockIterator it \<and> BlockIter_SeekToFirst it = None"
  by (rule block_length_check_wraps) (simp_all add: bytes_of_def)

end
