(* ===== verification/LdbFilter.thy ===== *)
theory LdbFilter
  imports LdbKeys
begin

text \<open>
  The filters that spare a table the reading of blocks: the hash function (\<^verbatim>\<open>util/hash.cc\<close>), the Bloom filter
  (\<^verbatim>\<open>util/bloom.cc\<close>), the policy that looks at user keys only (\<^verbatim>\<open>db/dbformat.cc\<close>), and the block that holds one
  filter for every 2 kB of data blocks (\<^verbatim>\<open>table/filter_block.cc\<close>).
\<close>

section \<open>The hash function\<close>

fun Hash_loop :: "slice \<Rightarrow> u32 \<Rightarrow> u32 \<times> slice" where
  "Hash_loop data h =
     (if 4 \<le> length data then
        let h = h + DecodeFixed32 True data; h = h * 0xc6a4a793; h = h XOR drop_bit 16 h
        in Hash_loop (drop 4 data) h
      else (h, data))"

declare Hash_loop.simps [simp del]

text \<open>The switch falls through from three bytes to one.\<close>

definition Hash :: "slice \<Rightarrow> u32 \<Rightarrow> u32" where
  "Hash data seed =
     (let (h, rest) = Hash_loop data (ucast (ucast seed XOR (of_nat (length data) * 0xc6a4a793 :: u64)));
          h = (if length rest \<ge> 3 then h + push_bit 16 (ucast (rest ! 2)) else h);
          h = (if length rest \<ge> 2 then h + push_bit 8 (ucast (rest ! 1)) else h)
      in if length rest \<ge> 1 then
           let h = h + ucast (rest ! 0); h = h * 0xc6a4a793 in h XOR drop_bit 24 h
         else h)"

section \<open>Filter policies\<close>

record filter_policy_class =
  fp_Name :: "byte list"
  CreateFilter :: "slice list \<Rightarrow> byte list \<Rightarrow> byte list"
  KeyMayMatch :: "slice \<Rightarrow> slice \<Rightarrow> bool"

text \<open>
  The contract of \<^verbatim>\<open>filter_policy.h\<close>: the filter is appended to the buffer, it does not depend on what the buffer
  holds, and it matches every key it was made from, for the lists of keys that the policy accepts.
\<close>

locale filter_policy =
  fixes p :: filter_policy_class and accepts :: "slice list \<Rightarrow> bool"
  assumes appends: "\<exists>f. \<forall>dst. CreateFilter p keys dst = dst @ f"
    and matches: "accepts keys \<Longrightarrow> k \<in> set keys \<Longrightarrow> CreateFilter p keys [] = f \<Longrightarrow> KeyMayMatch p k f"
    and accepts_part: "accepts (before @ keys @ behind) \<Longrightarrow> accepts keys"
begin

lemma CreateFilter_append: "CreateFilter p keys dst = dst @ CreateFilter p keys []"
  using appends [of keys] by auto

end

section \<open>The Bloom filter\<close>

record BloomFilterPolicy =
  bits_per_key :: nat
  bloom_k :: nat

text \<open>
  The number of probes is \<open>0.69\<close> times the bits per key, rounded down; a negative number of bits, for which the
  conversion of the code has no meaning, is not a value of the model. From 44 bits on the result is 30.
\<close>

definition Bloom_new :: "nat \<Rightarrow> BloomFilterPolicy" where
  "Bloom_new bits =
     (let k = bits * 69 div 100; k = (if k < 1 then 1 else k); k = (if k > 30 then 30 else k)
      in \<lparr>bits_per_key = bits, bloom_k = k\<rparr>)"

definition BloomHash :: "slice \<Rightarrow> u32" where
  "BloomHash key = Hash key 0xbc9f1d34"

definition bloom_delta :: "u32 \<Rightarrow> u32" where
  "bloom_delta h = drop_bit 17 h OR push_bit 15 h"

fun set_probes :: "nat \<Rightarrow> nat \<Rightarrow> u32 \<Rightarrow> u32 \<Rightarrow> nat \<Rightarrow> byte list \<Rightarrow> byte list" where
  "set_probes base bits h delta 0 array = array"
| "set_probes base bits h delta (Suc j) array =
     (let bitpos = unat h mod bits; i = base + bitpos div 8
      in set_probes base bits (h + delta) delta j (array[i := array ! i OR push_bit (bitpos mod 8) 1]))"

definition add_key :: "BloomFilterPolicy \<Rightarrow> nat \<Rightarrow> nat \<Rightarrow> slice \<Rightarrow> byte list \<Rightarrow> byte list" where
  "add_key b base bits key array = (let h = BloomHash key in set_probes base bits h (bloom_delta h) (bloom_k b) array)"

text \<open>The sizes are of type \<^verbatim>\<open>size_t\<close>; the product wraps around at \<open>2\<^sup>64\<close>.\<close>

definition filter_size :: "BloomFilterPolicy \<Rightarrow> nat \<Rightarrow> nat" where
  "filter_size b n =
     (let bits = n * bits_per_key b mod 2 ^ 64; bits = (if bits < 64 then 64 else bits)
      in (bits + 7) mod 2 ^ 64 div 8)"

definition Bloom_CreateFilter :: "BloomFilterPolicy \<Rightarrow> slice list \<Rightarrow> byte list \<Rightarrow> byte list" where
  "Bloom_CreateFilter b keys dst =
     (let bytes = filter_size b (length keys); bits = bytes * 8; init_size = length dst
      in fold (add_key b init_size bits) keys (dst @ replicate bytes 0 @ [of_nat (bloom_k b)]))"

fun probe_all :: "nat \<Rightarrow> u32 \<Rightarrow> u32 \<Rightarrow> nat \<Rightarrow> byte list \<Rightarrow> bool" where
  "probe_all bits h delta 0 array = True"
| "probe_all bits h delta (Suc j) array =
     (let bitpos = unat h mod bits
      in if array ! (bitpos div 8) AND push_bit (bitpos mod 8) 1 = 0 then False
         else probe_all bits (h + delta) delta j array)"

text \<open>The last byte is a \<^verbatim>\<open>char\<close>, widened with its sign.\<close>

definition Bloom_KeyMayMatch :: "slice \<Rightarrow> slice \<Rightarrow> bool" where
  "Bloom_KeyMayMatch key bloom_filter =
     (let len = length bloom_filter
      in if len < 2 then False
         else let bits = (len - 1) * 8; k = unat (scast (bloom_filter ! (len - 1)) :: u64)
              in if k > 30 then True
                 else let h = BloomHash key in probe_all bits h (bloom_delta h) k bloom_filter)"

definition NewBloomFilterPolicy :: "nat \<Rightarrow> filter_policy_class" where
  "NewBloomFilterPolicy bits =
     \<lparr>fp_Name = map of_char ''leveldb.BuiltinBloomFilter2'', CreateFilter = Bloom_CreateFilter (Bloom_new bits),
      KeyMayMatch = Bloom_KeyMayMatch\<rparr>"

section \<open>The filter policy of the database\<close>

definition InternalFilterPolicy :: "filter_policy_class \<Rightarrow> filter_policy_class" where
  "InternalFilterPolicy user_policy =
     \<lparr>fp_Name = fp_Name user_policy,
      CreateFilter = (\<lambda>keys dst. CreateFilter user_policy (map ExtractUserKey keys) dst),
      KeyMayMatch = (\<lambda>key f. KeyMayMatch user_policy (ExtractUserKey key) f)\<rparr>"

section \<open>Building a filter block\<close>

definition kFilterBaseLg :: nat where "kFilterBaseLg = 11"

definition kFilterBase :: nat where "kFilterBase = push_bit kFilterBaseLg 1"

record FilterBlockBuilder =
  fb_policy :: filter_policy_class
  fb_keys :: "byte list"
  fb_start :: "nat list"
  fb_result :: "byte list"
  fb_offsets :: "u32 list"

definition FilterBlockBuilder_new :: "filter_policy_class \<Rightarrow> FilterBlockBuilder" where
  "FilterBlockBuilder_new p = \<lparr>fb_policy = p, fb_keys = [], fb_start = [], fb_result = [], fb_offsets = []\<rparr>"

definition GenerateFilter :: "FilterBlockBuilder \<Rightarrow> FilterBlockBuilder" where
  "GenerateFilter b =
     (let num_keys = length (fb_start b)
      in if num_keys = 0 then b\<lparr>fb_offsets := fb_offsets b @ [of_nat (length (fb_result b))]\<rparr>
         else let start = fb_start b @ [length (fb_keys b)];
                  tmp_keys = map (\<lambda>i. take (start ! (i + 1) - start ! i) (drop (start ! i) (fb_keys b))) [0..<num_keys]
              in b\<lparr>fb_offsets := fb_offsets b @ [of_nat (length (fb_result b))],
                   fb_result := CreateFilter (fb_policy b) tmp_keys (fb_result b), fb_keys := [], fb_start := []\<rparr>)"

lemma GenerateFilter_offsets [simp]: "length (fb_offsets (GenerateFilter b)) = Suc (length (fb_offsets b))"
  by (simp add: GenerateFilter_def Let_def)

function StartBlock_loop :: "nat \<Rightarrow> FilterBlockBuilder \<Rightarrow> FilterBlockBuilder" where
  "StartBlock_loop filter_index b =
     (if filter_index > length (fb_offsets b) then StartBlock_loop filter_index (GenerateFilter b) else b)"
  by pat_completeness auto
termination
  by (relation "measure (\<lambda>(n, b). n - length (fb_offsets b))") auto

declare StartBlock_loop.simps [simp del]

definition StartBlock :: "u64 \<Rightarrow> FilterBlockBuilder \<Rightarrow> FilterBlockBuilder" where
  "StartBlock block_offset b = StartBlock_loop (unat block_offset div kFilterBase) b"

definition AddKey :: "slice \<Rightarrow> FilterBlockBuilder \<Rightarrow> FilterBlockBuilder" where
  "AddKey key b = b\<lparr>fb_start := fb_start b @ [length (fb_keys b)], fb_keys := fb_keys b @ key\<rparr>"

definition FilterBlock_Finish :: "FilterBlockBuilder \<Rightarrow> slice \<times> FilterBlockBuilder" where
  "FilterBlock_Finish b =
     (let b = (if fb_start b \<noteq> [] then GenerateFilter b else b);
          array_offset = of_nat (length (fb_result b));
          result = PutFixed32 (foldl PutFixed32 (fb_result b) (fb_offsets b)) array_offset @ [of_nat kFilterBaseLg]
      in (result, b\<lparr>fb_result := result\<rparr>))"

section \<open>Reading a filter block\<close>

text \<open>The pointers are offsets into the contents.\<close>

record FilterBlockReader =
  fr_policy :: filter_policy_class
  fr_data :: slice
  fr_offset :: nat
  fr_num :: nat
  fr_base_lg :: u64

definition FilterBlockReader_new :: "filter_policy_class \<Rightarrow> slice \<Rightarrow> FilterBlockReader" where
  "FilterBlockReader_new p contents =
     (let n = length contents
      in if n < 5 then \<lparr>fr_policy = p, fr_data = [], fr_offset = 0, fr_num = 0, fr_base_lg = 0\<rparr>
         else let base_lg = scast (contents ! (n - 1)); last_word = unat (DecodeFixed32 True (drop (n - 5) contents))
              in if last_word > n - 5
                 then \<lparr>fr_policy = p, fr_data = [], fr_offset = 0, fr_num = 0, fr_base_lg = base_lg\<rparr>
                 else \<lparr>fr_policy = p, fr_data = contents, fr_offset = last_word, fr_num = (n - 5 - last_word) div 4,
                       fr_base_lg = base_lg\<rparr>)"

text \<open>A shift by the width of the number or more has no meaning; only a corrupt block asks for one.\<close>

definition FilterBlock_KeyMayMatch :: "FilterBlockReader \<Rightarrow> u64 \<Rightarrow> slice \<Rightarrow> bool option" where
  "FilterBlock_KeyMayMatch r block_offset key =
     (if unat (fr_base_lg r) \<ge> 64 then None
      else let index = unat (drop_bit (unat (fr_base_lg r)) block_offset)
           in if index < fr_num r then
                let start = unat (DecodeFixed32 True (drop (fr_offset r + index * 4) (fr_data r)));
                    limit = unat (DecodeFixed32 True (drop (fr_offset r + index * 4 + 4) (fr_data r)))
                in if start \<le> limit \<and> limit \<le> fr_offset r
                   then Some (KeyMayMatch (fr_policy r) key (take (limit - start) (drop start (fr_data r))))
                   else if start = limit then Some False else Some True
              else Some True)"

end
