(* ===== verification/LdbFilterProps.thy ===== *)
theory LdbFilterProps
  imports LdbFilter
begin

text \<open>
  Filters have no false negatives: the Bloom filter keeps the contract of a policy, the policy for internal keys
  keeps it on top of any other, and a filter block, whatever the policy, matches every key of every data block it was told of.
\<close>

section \<open>The Bloom filter\<close>

abbreviation probe_bit :: "byte list \<Rightarrow> nat \<Rightarrow> bool" where
  "probe_bit array q \<equiv> bit (array ! (q div 8)) (q mod 8)"

lemma bit_exp_byte [simp]: "bit (2 ^ m :: byte) m \<longleftrightarrow> m < 8"
  by (simp add: bit_exp_iff)

lemma length_set_probes [simp]: "length (set_probes base bits h delta j array) = length array"
  by (induction j arbitrary: h array) (simp_all add: Let_def)

lemma set_probes_append: "set_probes (length dst) bits h delta j (dst @ array) = dst @ set_probes 0 bits h delta j array"
  by (induction j arbitrary: h array) (simp_all add: Let_def list_update_append nth_append)

lemma set_probes_keep: "probe_bit array q \<Longrightarrow> probe_bit (set_probes 0 bits h delta j array) q"
proof (induction j arbitrary: h array)
  case (Suc j)
  let ?p = "unat h mod bits"
  have "probe_bit (array[?p div 8 := array ! (?p div 8) OR push_bit (?p mod 8) 1]) q"
    using Suc.prems by (cases "?p div 8 < length array") (auto simp: nth_list_update bit_or_iff list_update_beyond)
  from Suc.IH [OF this] show ?case by (simp add: Let_def)
qed simp

lemma probe_all_iff:
  "probe_all bits h delta j array \<longleftrightarrow> (\<forall>i < j. probe_bit array (unat (h + of_nat i * delta) mod bits))"
proof (induction j arbitrary: h)
  case (Suc j)
  have "(\<forall>i < Suc j. probe_bit array (unat (h + of_nat i * delta) mod bits)) \<longleftrightarrow>
      probe_bit array (unat h mod bits) \<and> (\<forall>i < j. probe_bit array (unat (h + of_nat (Suc i) * delta) mod bits))"
    by (simp only: All_less_Suc2) simp
  also have "\<dots> \<longleftrightarrow> probe_bit array (unat h mod bits) \<and> probe_all bits (h + delta) delta j array"
    by (simp add: Suc.IH algebra_simps)
  finally show ?case by (simp add: Let_def and_exp_eq_0_iff_not_bit)
qed simp

lemma set_probes_set:
  "0 < bits \<Longrightarrow> bits \<le> 8 * length array \<Longrightarrow> probe_all bits h delta j (set_probes 0 bits h delta j array)"
proof (induction j arbitrary: h array)
  case (Suc j)
  let ?p = "unat h mod bits"
  let ?a = "array[?p div 8 := array ! (?p div 8) OR push_bit (?p mod 8) 1]"
  have "?p < bits" using Suc.prems(1) by simp
  then have "?p div 8 < length array" using Suc.prems(2) by linarith
  then have "probe_bit ?a ?p" by (simp add: bit_or_iff bit_push_bit_iff)
  then have "probe_bit (set_probes 0 bits (h + delta) delta j ?a) ?p" by (rule set_probes_keep)
  moreover have "probe_all bits (h + delta) delta j (set_probes 0 bits (h + delta) delta j ?a)"
    using Suc by simp
  ultimately show ?case by (simp add: Let_def and_exp_eq_0_iff_not_bit)
qed simp

lemma probe_all_keep: "probe_all bits h delta j array \<Longrightarrow> probe_all bits h delta j (set_probes 0 bits h' delta' j' array)"
  by (simp only: probe_all_iff) (blast intro: set_probes_keep)

lemma length_add_key [simp]: "length (add_key b base bits key array) = length array"
  by (simp add: add_key_def Let_def)

lemma add_key_append: "add_key b (length dst) bits key (dst @ array) = dst @ add_key b 0 bits key array"
  by (simp add: add_key_def Let_def set_probes_append)

lemma add_key_keep: "probe_all bits h delta j array \<Longrightarrow> probe_all bits h delta j (add_key b 0 bits key array)"
  by (simp add: add_key_def Let_def probe_all_keep)

lemma add_key_set:
  "0 < bits \<Longrightarrow> bits \<le> 8 * length array \<Longrightarrow>
     probe_all bits (BloomHash key) (bloom_delta (BloomHash key)) (bloom_k b) (add_key b 0 bits key array)"
  by (simp add: add_key_def Let_def set_probes_set)

lemma length_fold_add_key [simp]: "length (fold (add_key b base bits) keys array) = length array"
  by (induction keys arbitrary: array) simp_all

lemma fold_add_key_append:
  "fold (add_key b (length dst) bits) keys (dst @ array) = dst @ fold (add_key b 0 bits) keys array"
  by (induction keys arbitrary: array) (simp_all add: add_key_append)

lemma fold_add_key_keep:
  "probe_all bits h delta j array \<Longrightarrow> probe_all bits h delta j (fold (add_key b 0 bits) keys array)"
  by (induction keys arbitrary: array) (simp_all add: add_key_keep)

lemma fold_add_key_set:
  "k \<in> set keys \<Longrightarrow> 0 < bits \<Longrightarrow> bits \<le> 8 * length array \<Longrightarrow>
     probe_all bits (BloomHash k) (bloom_delta (BloomHash k)) (bloom_k b) (fold (add_key b 0 bits) keys array)"
  by (induction keys arbitrary: array) (auto intro: fold_add_key_keep add_key_set)

text \<open>The last byte, behind all bits, keeps the number of probes.\<close>

lemma set_probes_behind: "0 < bits \<Longrightarrow> bits \<le> 8 * i \<Longrightarrow> set_probes 0 bits h delta j array ! i = array ! i"
proof (induction j arbitrary: h array)
  case (Suc j)
  have "unat h mod bits < bits" using Suc.prems(1) by simp
  then have "unat h mod bits div 8 < i" using Suc.prems(2) by linarith
  then show ?case using Suc by (simp add: Let_def)
qed simp

lemma fold_add_key_behind: "0 < bits \<Longrightarrow> bits \<le> 8 * i \<Longrightarrow> fold (add_key b 0 bits) keys array ! i = array ! i"
  by (induction keys arbitrary: array) (simp_all add: add_key_def Let_def set_probes_behind)

lemma bloom_k_range: "1 \<le> bloom_k (Bloom_new bits)" "bloom_k (Bloom_new bits) \<le> 30"
  by (simp_all add: Bloom_new_def Let_def)

lemma filter_size_pos: "n * bits_per_key b < 2 ^ 63 \<Longrightarrow> 8 \<le> filter_size b n"
proof -
  have *: "8 \<le> ((if x < 64 then 64 else x) + 7) div 8" for x :: nat by auto
  show "n * bits_per_key b < 2 ^ 63 \<Longrightarrow> 8 \<le> filter_size b n"
    using * [of "n * bits_per_key b"] by (simp add: filter_size_def Let_def)
qed

interpretation bloom: filter_policy "NewBloomFilterPolicy bits" "\<lambda>keys. length keys * bits < 2 ^ 63" for bits
proof
  fix keys :: "slice list"
  show "\<exists>f. \<forall>dst. CreateFilter (NewBloomFilterPolicy bits) keys dst = dst @ f"
    by (auto simp: NewBloomFilterPolicy_def Bloom_CreateFilter_def Let_def fold_add_key_append)
next
  fix before keys behind :: "slice list"
  assume "length (before @ keys @ behind) * bits < 2 ^ 63"
  moreover have "length keys * bits \<le> length (before @ keys @ behind) * bits" by (intro mult_le_mono1) simp
  ultimately show "length keys * bits < 2 ^ 63" by (rule le_less_trans [rotated])
next
  fix keys :: "slice list" and k f
  let ?b = "Bloom_new bits" and ?n = "filter_size (Bloom_new bits) (length keys)"
  assume size: "length keys * bits < 2 ^ 63" and k: "k \<in> set keys" and f: "CreateFilter (NewBloomFilterPolicy bits) keys [] = f"
  have n: "8 \<le> ?n" using filter_size_pos [of "length keys" ?b] size by (simp add: Bloom_new_def Let_def)
  have f': "f = fold (add_key ?b 0 (?n * 8)) keys (replicate ?n 0 @ [of_nat (bloom_k ?b)])"
    using f by (simp add: NewBloomFilterPolicy_def Bloom_CreateFilter_def Let_def)
  then have len: "length f = Suc ?n" by simp
  have "f ! ?n = of_nat (bloom_k ?b)" using n by (simp add: f' fold_add_key_behind nth_append)
  moreover have "unat (scast (of_nat (bloom_k ?b) :: byte) :: u64) = bloom_k ?b"
  proof -
    have "bloom_k ?b < 128" using bloom_k_range(2) [of bits] by simp
    then have "sint (of_nat (bloom_k ?b) :: byte) = int (bloom_k ?b)"
      by (simp add: signed_of_nat signed_take_bit_int_eq_self)
    then show ?thesis using \<open>bloom_k ?b < 128\<close> by (simp add: scast_eq unat_u64_of_nat)
  qed
  moreover have "probe_all (?n * 8) (BloomHash k) (bloom_delta (BloomHash k)) (bloom_k ?b) f"
    unfolding f' using k n by (intro fold_add_key_set) auto
  ultimately show "KeyMayMatch (NewBloomFilterPolicy bits) k f"
    using n len bloom_k_range(2) [of bits] by (simp add: NewBloomFilterPolicy_def Bloom_KeyMayMatch_def Let_def)
qed

section \<open>The policy for internal keys\<close>

context filter_policy
begin

lemma internal_policy: "filter_policy (InternalFilterPolicy p) (\<lambda>keys. accepts (map ExtractUserKey keys))"
proof
  fix before keys behind :: "slice list" and k f
  show "accepts (map ExtractUserKey (before @ keys @ behind)) \<Longrightarrow> accepts (map ExtractUserKey keys)"
    using accepts_part by simp
  show "\<exists>f. \<forall>dst. CreateFilter (InternalFilterPolicy p) keys dst = dst @ f"
    using appends [of "map ExtractUserKey keys"] by (simp add: InternalFilterPolicy_def)
  show "accepts (map ExtractUserKey keys) \<Longrightarrow> k \<in> set keys \<Longrightarrow> CreateFilter (InternalFilterPolicy p) keys [] = f \<Longrightarrow>
      KeyMayMatch (InternalFilterPolicy p) k f"
    using matches [of "map ExtractUserKey keys" "ExtractUserKey k"] by (simp add: InternalFilterPolicy_def)
qed

end

interpretation internal_bloom: filter_policy "InternalFilterPolicy (NewBloomFilterPolicy bits)"
  "\<lambda>keys. length (map ExtractUserKey keys) * bits < 2 ^ 63" for bits
  by (rule bloom.internal_policy)

section \<open>Filter blocks\<close>

text \<open>The builder holds finished filters \<open>fs\<close> and pending keys \<open>ks\<close>.\<close>

definition starts_of :: "byte list list \<Rightarrow> nat list" where
  "starts_of xs = map (\<lambda>i. length (concat (take i xs))) [0..<length xs]"

definition holds_filters :: "filter_policy_class \<Rightarrow> FilterBlockBuilder \<Rightarrow> byte list list \<Rightarrow> slice list \<Rightarrow> bool" where
  "holds_filters p b fs ks \<longleftrightarrow> fb_policy b = p \<and> fb_result b = concat fs \<and> fb_offsets b = map of_nat (starts_of fs) \<and>
     fb_keys b = concat ks \<and> fb_start b = starts_of ks"

lemma starts_of_snoc: "starts_of (xs @ [x]) = starts_of xs @ [length (concat xs)]"
  by (simp add: starts_of_def)

lemma length_starts_of [simp]: "length (starts_of xs) = length xs"
  by (simp add: starts_of_def)

lemma starts_of_Nil [simp]: "starts_of [] = []" "starts_of xs = [] \<longleftrightarrow> xs = []"
  by (simp_all add: starts_of_def)

text \<open>The starts of the keys, with the end of the last one, cut the flat keys into the keys again.\<close>

lemma starts_of_nth: "i \<le> length xs \<Longrightarrow> (starts_of xs @ [length (concat xs)]) ! i = length (concat (take i xs))"
  by (auto simp: starts_of_def nth_append)

lemma cut_concat:
  assumes "i < length xs"
  shows "take ((starts_of xs @ [length (concat xs)]) ! (i + 1) - (starts_of xs @ [length (concat xs)]) ! i)
     (drop ((starts_of xs @ [length (concat xs)]) ! i) (concat xs @ r)) = xs ! i"
proof -
  let ?s = "starts_of xs @ [length (concat xs)]"
  have split: "concat xs = concat (take i xs) @ xs ! i @ concat (drop (Suc i) xs)"
    using assms by (metis Cons_nth_drop_Suc append_take_drop_id concat.simps(2) concat_append)
  have "?s ! i = length (concat (take i xs))" "?s ! (i + 1) = length (concat (take i xs)) + length (xs ! i)"
    using assms starts_of_nth [of i xs] starts_of_nth [of "Suc i" xs] by (simp_all add: take_Suc_conv_app_nth)
  then show ?thesis by (simp only: split) simp
qed

definition one_filter :: "filter_policy_class \<Rightarrow> slice list \<Rightarrow> byte list" where
  "one_filter p ks = (if ks = [] then [] else CreateFilter p ks [])"

context filter_policy
begin

lemma new_filters: "holds_filters p (FilterBlockBuilder_new p) [] []"
  by (simp add: holds_filters_def FilterBlockBuilder_new_def)

lemma AddKey_filters: "holds_filters p b fs ks \<Longrightarrow> holds_filters p (AddKey k b) fs (ks @ [k])"
  by (simp add: holds_filters_def AddKey_def starts_of_snoc)

lemma GenerateFilter_filters:
  assumes "holds_filters p b fs ks"
  shows "holds_filters p (GenerateFilter b) (fs @ [one_filter p ks]) []"
proof (cases "ks = []")
  case True
  then show ?thesis using assms by (simp add: holds_filters_def GenerateFilter_def one_filter_def starts_of_snoc)
next
  case False
  let ?s = "starts_of ks @ [length (concat ks)]"
  have "map (\<lambda>i. take (?s ! (i + 1) - ?s ! i) (drop (?s ! i) (concat ks))) [0..<length ks] = ks"
    using cut_concat [of _ ks "[]"] by (intro nth_equalityI) simp_all
  then show ?thesis using assms False
    by (simp add: holds_filters_def GenerateFilter_def one_filter_def starts_of_snoc Let_def
        CreateFilter_append [of ks "concat fs"])
qed

lemma StartBlock_loop_filters:
  "holds_filters p b fs ks \<Longrightarrow> length fs < n \<Longrightarrow>
     holds_filters p (StartBlock_loop n b) (fs @ one_filter p ks # replicate (n - length fs - 1) []) []"
proof (induction n b arbitrary: fs ks rule: StartBlock_loop.induct)
  case (1 n b)
  have len: "length (fb_offsets b) = length fs" using "1.prems"(1) by (simp add: holds_filters_def)
  have gen: "holds_filters p (GenerateFilter b) (fs @ [one_filter p ks]) []" by (rule GenerateFilter_filters [OF "1.prems"(1)])
  show ?case
  proof (cases "Suc (length fs) < n")
    case True
    then have "holds_filters p (StartBlock_loop n (GenerateFilter b)) ((fs @ [one_filter p ks]) @ one_filter p [] # replicate (n - length (fs @ [one_filter p ks]) - 1) []) []"
      using "1.IH" [OF _ gen] "1.prems"(2) len by simp
    moreover have "replicate (n - length fs - 1) [] = one_filter p [] # replicate (n - length (fs @ [one_filter p ks]) - 1) []"
      using True by (cases "n - length fs - 1") (auto simp: one_filter_def)
    ultimately show ?thesis using "1.prems"(2) len by (simp add: StartBlock_loop.simps [of n b])
  next
    case False
    then have "n = Suc (length fs)" using "1.prems"(2) by simp
    moreover from this have "StartBlock_loop n b = GenerateFilter b"
      using len StartBlock_loop.simps [of n b] StartBlock_loop.simps [of n "GenerateFilter b"] by simp
    ultimately show ?thesis using gen by simp
  qed
qed

lemma StartBlock_same: "holds_filters p b fs ks \<Longrightarrow> n \<le> length fs \<Longrightarrow> StartBlock_loop n b = b"
  by (subst StartBlock_loop.simps) (simp add: holds_filters_def)

lemma Finish_filters:
  assumes "holds_filters p b fs ks"
  defines "fs' \<equiv> if ks = [] then fs else fs @ [one_filter p ks]"
  shows "fst (FilterBlock_Finish b) = concat fs' @ concat (map (\<lambda>s. EncodeFixed32 True (of_nat s)) (starts_of fs')) @
     EncodeFixed32 True (of_nat (length (concat fs'))) @ [11]"
proof -
  let ?b = "if fb_start b \<noteq> [] then GenerateFilter b else b"
  have "fb_start b = [] \<longleftrightarrow> ks = []" using assms(1) by (simp add: holds_filters_def)
  then have "fb_result ?b = concat fs'" "fb_offsets ?b = map of_nat (starts_of fs')"
    using assms(1) GenerateFilter_filters [OF assms(1)] by (simp_all add: holds_filters_def fs'_def)
  moreover have "foldl PutFixed32 r vs = r @ concat (map (EncodeFixed32 True) vs)" for r vs
    by (induction vs arbitrary: r) (simp_all add: PutFixed32_def)
  ultimately show ?thesis
    by (simp add: FilterBlock_Finish_def Let_def PutFixed32_def kFilterBaseLg_def comp_def)
qed

end

text \<open>The calls of a table: for every data block its offset, then its keys.\<close>

definition tell_block :: "u64 \<times> slice list \<Rightarrow> FilterBlockBuilder \<Rightarrow> FilterBlockBuilder" where
  "tell_block blk b = fold AddKey (snd blk) (StartBlock (fst blk) b)"

definition filter_block :: "filter_policy_class \<Rightarrow> (u64 \<times> slice list) list \<Rightarrow> slice" where
  "filter_block p blocks = fst (FilterBlock_Finish (fold tell_block blocks (FilterBlockBuilder_new p)))"

definition index_of :: "u64 \<Rightarrow> nat" where
  "index_of block_offset = unat block_offset div kFilterBase"

text \<open>Every key of every block is in the filter of its block, or pending for it.\<close>

definition covers :: "filter_policy_class \<Rightarrow> byte list list \<Rightarrow> slice list \<Rightarrow> (u64 \<times> slice list) list \<Rightarrow> bool" where
  "covers p fs ks blocks \<longleftrightarrow> (\<forall>(block_offset, keys) \<in> set blocks. \<forall>k \<in> set keys. let i = index_of block_offset in
     i < length fs \<and> KeyMayMatch p k (fs ! i) \<or> i = length fs \<and> k \<in> set ks)"

context filter_policy
begin

lemma fold_AddKey_filters: "holds_filters p b fs ks \<Longrightarrow> holds_filters p (fold AddKey keys b) fs (ks @ keys)"
proof (induction keys arbitrary: b ks)
  case (Cons k keys)
  then show ?case using Cons.IH [OF AddKey_filters [OF Cons.prems]] by simp
qed simp

lemma one_filter_matches: "accepts ks \<Longrightarrow> k \<in> set ks \<Longrightarrow> KeyMayMatch p k (one_filter p ks)"
  using matches [of ks k] by (auto simp: one_filter_def)

lemma covers_finish: "covers p fs ks blocks \<Longrightarrow> accepts ks \<Longrightarrow> covers p (fs @ one_filter p ks # gs) [] blocks"
  unfolding covers_def Let_def using one_filter_matches by (fastforce simp: nth_append)

lemma tell_block_filters:
  assumes b: "holds_filters p b fs ks" and i: "length fs \<le> index_of off" and acc: "accepts ks" and cov: "covers p fs ks blocks"
  shows "\<exists>fs' ks'. holds_filters p (tell_block (off, keys) b) fs' (ks' @ keys) \<and> length fs' = index_of off \<and>
     (ks' = ks \<or> ks' = []) \<and> covers p fs' (ks' @ keys) (blocks @ [(off, keys)])"
proof (cases "length fs < index_of off")
  case True
  let ?fs = "fs @ one_filter p ks # replicate (index_of off - length fs - 1) []"
  have "holds_filters p (StartBlock off b) ?fs []"
    using StartBlock_loop_filters [OF b True] by (simp add: StartBlock_def index_of_def)
  moreover have "covers p ?fs [] blocks" by (rule covers_finish [OF cov acc])
  moreover have "length ?fs = index_of off" using True by simp
  ultimately show ?thesis
    using fold_AddKey_filters [of "StartBlock off b" ?fs "[]" keys]
    by (intro exI [of _ ?fs] exI [of _ "[]"]) (auto simp: tell_block_def covers_def Let_def)
next
  case False
  then have "StartBlock off b = b" using StartBlock_same [OF b] i by (simp add: StartBlock_def index_of_def)
  then show ?thesis using fold_AddKey_filters [OF b, of keys] False i cov
    by (intro exI [of _ fs] exI [of _ ks]) (auto simp: tell_block_def covers_def Let_def)
qed

lemma blocks_filters:
  "accepts (concat (map snd blocks)) \<Longrightarrow> sorted (map fst blocks) \<Longrightarrow>
   \<exists>fs ks before. holds_filters p (fold tell_block blocks (FilterBlockBuilder_new p)) fs ks \<and> concat (map snd blocks) = before @ ks \<and>
     covers p fs ks blocks \<and> length fs = (if blocks = [] then 0 else index_of (fst (last blocks)))"
proof (induction blocks rule: rev_induct)
  case Nil
  then show ?case using new_filters by (auto simp: covers_def)
next
  case (snoc blk blocks)
  obtain off keys where blk: "blk = (off, keys)" by force
  have "accepts ([] @ concat (map snd blocks) @ keys)" using snoc.prems(1) by (simp add: blk)
  then have acc: "accepts (concat (map snd blocks))" by (rule accepts_part)
  moreover have "sorted (map fst blocks)" using snoc.prems(2) by (simp add: sorted_append)
  ultimately obtain fs ks before where IH: "holds_filters p (fold tell_block blocks (FilterBlockBuilder_new p)) fs ks"
      "concat (map snd blocks) = before @ ks" "covers p fs ks blocks"
      "length fs = (if blocks = [] then 0 else index_of (fst (last blocks)))"
    using snoc.IH by blast
  have "fst (last blocks) \<le> off" if "blocks \<noteq> []" using snoc.prems(2) that by (simp add: sorted_append blk)
  then have i: "length fs \<le> index_of off" using IH(4) by (simp add: index_of_def div_le_mono word_le_nat_alt)
  have "accepts ks" using acc accepts_part [of before ks "[]"] by (simp add: IH(2))
  from tell_block_filters [OF IH(1) i this IH(3), of keys] obtain fs' ks' where
    "holds_filters p (tell_block blk (fold tell_block blocks (FilterBlockBuilder_new p))) fs' (ks' @ keys)"
    "length fs' = index_of off" "ks' = ks \<or> ks' = []" "covers p fs' (ks' @ keys) (blocks @ [blk])" by (auto simp: blk)
  then show ?case using IH(2)
    by (intro exI [of _ fs'] exI [of _ "ks' @ keys"] exI [of _ "if ks' = ks then before else before @ ks"]) (auto simp: blk)
qed

text \<open>What the reader of a finished block answers.\<close>

lemma read_filters:
  assumes C: "contents = concat fs @ concat (map (\<lambda>s. EncodeFixed32 True (of_nat s)) (starts_of fs)) @
      EncodeFixed32 True (of_nat (length (concat fs))) @ [11]"
    and small: "length contents < 2 ^ 32"
  shows "FilterBlock_KeyMayMatch (FilterBlockReader_new p contents) off key =
     Some (if index_of off < length fs then KeyMayMatch p key (fs ! index_of off) else True)"
proof -
  let ?f = "\<lambda>s. EncodeFixed32 True (of_nat s)" and ?ws = "starts_of fs @ [length (concat fs)]" and ?L = "length (concat fs)"
  have four: "length (?f s) = 4" for s :: nat by (simp add: EncodeFixed32_portable)
  have C': "contents = concat fs @ concat (map ?f ?ws) @ [11]" by (simp add: C)
  have words: "length (concat (map ?f ?ws)) = 4 * Suc (length fs)" using length_concat_4 [of ?ws ?f] four by simp
  then have len: "length contents = ?L + 4 * length fs + 5" by (simp only: C' length_append) simp
  have word: "DecodeFixed32 True (drop (?L + j * 4) contents) = of_nat (length (concat (take j fs)))" if "j \<le> length fs" for j
  proof -
    have "drop (?L + j * 4) contents = concat (map ?f (drop j ?ws)) @ [11]"
      unfolding C' using drop_concat_4 [of ?ws ?f j "[11]"] four that by (simp add: mult.commute)
    moreover have "drop j ?ws = ?ws ! j # drop (Suc j) ?ws" using that by (intro Cons_nth_drop_Suc [symmetric]) simp
    ultimately show ?thesis using starts_of_nth [OF that] by (simp only: list.map concat.simps append.assoc DecodeFixed32_Encode)
  qed
  have le: "length (concat (take j fs)) \<le> ?L" for j
    by (metis append_take_drop_id concat_append length_append le_add1)
  have un: "unat (of_nat (length (concat (take j fs))) :: u32) = length (concat (take j fs))" for j
    using le [of j] small len by (intro unat_u32_of_nat) simp
  have lg: "contents ! (length contents - 1) = 11" by (simp add: C)
  have rd: "FilterBlockReader_new p contents =
      \<lparr>fr_policy = p, fr_data = contents, fr_offset = ?L, fr_num = length fs, fr_base_lg = scast (11 :: byte)\<rparr>"
  proof -
    have "unat (DecodeFixed32 True (drop (length contents - 5) contents)) = ?L"
      using word [of "length fs"] un [of "length fs"] by (simp add: len mult.commute)
    then show ?thesis using lg len by (simp add: FilterBlockReader_new_def Let_def)
  qed
  have eleven: "unat (scast (11 :: byte) :: u64) = 11" by simp
  have index: "unat (drop_bit 11 off) = index_of off" by (simp add: unat_drop_bit index_of_def kFilterBase_def kFilterBaseLg_def)
  show ?thesis
  proof (cases "index_of off < length fs")
    case True
    let ?i = "index_of off"
    have "take (length (concat (take (Suc ?i) fs)) - length (concat (take ?i fs))) (drop (length (concat (take ?i fs))) contents) = fs ! ?i"
      using cut_concat [OF True, of "concat (map ?f ?ws) @ [11]"] True starts_of_nth [of ?i fs] starts_of_nth [of "Suc ?i" fs]
      by (simp add: C')
    moreover have "length (concat (take ?i fs)) \<le> length (concat (take (Suc ?i) fs))" using True by (simp add: take_Suc_conv_app_nth)
    moreover have "?L + ?i * 4 + 4 = ?L + Suc ?i * 4" by simp
    then have "DecodeFixed32 True (drop (?L + ?i * 4 + 4) contents) = of_nat (length (concat (take (Suc ?i) fs)))"
      using word [of "Suc ?i"] True by (simp only:)
    ultimately show ?thesis using True word [of ?i] un le
      by (simp add: FilterBlock_KeyMayMatch_def rd eleven index Let_def)
  next
    case False
    then show ?thesis by (simp add: FilterBlock_KeyMayMatch_def rd eleven index Let_def)
  qed
qed

lemma filter_block_matches:
  assumes acc: "accepts (concat (map snd blocks))" and sorted: "sorted (map fst blocks)"
    and small: "length (filter_block p blocks) < 2 ^ 32" and blk: "(off, keys) \<in> set blocks" and k: "k \<in> set keys"
  shows "FilterBlock_KeyMayMatch (FilterBlockReader_new p (filter_block p blocks)) off k = Some True"
proof -
  obtain fs ks before where b: "holds_filters p (fold tell_block blocks (FilterBlockBuilder_new p)) fs ks"
      "concat (map snd blocks) = before @ ks" "covers p fs ks blocks"
    using blocks_filters [OF acc sorted] by blast
  define fs' where "fs' = (if ks = [] then fs else fs @ [one_filter p ks])"
  have "accepts ks" using acc accepts_part [of before ks "[]"] by (simp add: b(2))
  then have "covers p fs' [] blocks" using b(3) covers_finish [OF b(3), of "[]"] by (cases "ks = []") (simp_all add: fs'_def)
  then have "index_of off < length fs' \<longrightarrow> KeyMayMatch p k (fs' ! index_of off)"
    using blk k by (fastforce simp: covers_def Let_def)
  then show ?thesis
    using read_filters [OF Finish_filters [OF b(1), folded fs'_def filter_block_def] small, of off k] by simp
qed

end

text \<open>
  C15: the filter of a table never hides a key. When the builder is told of data blocks at increasing offsets and of the internal keys in them, the
  reader of its block answers that a block may hold a key for every key the block has, with the Bloom filter of any number of bits per
  key over user keys: also when several blocks share one filter, when a block is longer than what one filter covers, and after
  filters without keys.
\<close>

theorem filter_block_no_false_negative:
  assumes "sorted (map fst blocks)" and "length (concat (map snd blocks)) * bits < 2 ^ 63"
    and "length (filter_block (InternalFilterPolicy (NewBloomFilterPolicy bits)) blocks) < 2 ^ 32"
    and "(block_offset, keys) \<in> set blocks" and "k \<in> set keys"
  shows "FilterBlock_KeyMayMatch (FilterBlockReader_new (InternalFilterPolicy (NewBloomFilterPolicy bits))
     (filter_block (InternalFilterPolicy (NewBloomFilterPolicy bits)) blocks)) block_offset k = Some True"
  by (rule internal_bloom.filter_block_matches) (use assms in simp_all)

theorem filter_block_no_false_negative_witness:
  "FilterBlock_KeyMayMatch (FilterBlockReader_new (InternalFilterPolicy (NewBloomFilterPolicy 10))
     (filter_block (InternalFilterPolicy (NewBloomFilterPolicy 10))
        [(0, [[97, 1, 7, 0, 0, 0, 0, 0, 0]]), (5000, [[98, 1, 7, 0, 0, 0, 0, 0, 0], [99, 1, 7, 0, 0, 0, 0, 0, 0]])])) 5000
     [99, 1, 7, 0, 0, 0, 0, 0, 0] = Some True"
proof (rule filter_block_no_false_negative)
  show "length (filter_block (InternalFilterPolicy (NewBloomFilterPolicy 10))
      [(0, [[97, 1, 7, 0, 0, 0, 0, 0, 0]]), (5000, [[98, 1, 7, 0, 0, 0, 0, 0, 0], [99, 1, 7, 0, 0, 0, 0, 0, 0]])]) < 2 ^ 32"
    by code_simp
  show "(5000, [[98, 1, 7, 0, 0, 0, 0, 0, 0], [99, 1, 7, 0, 0, 0, 0, 0, 0]]) \<in>
      set [(0, [[97, 1, 7, 0, 0, 0, 0, 0, 0]]), (5000, [[98, 1, 7, 0, 0, 0, 0, 0, 0], [99, 1, 7, 0, 0, 0, 0, 0, 0]])]"
    by simp
  show "[99, 1, 7, 0, 0, 0, 0, 0, 0] \<in> set [[98, 1, 7, 0, 0, 0, 0, 0, 0], [99, 1, 7, 0, 0, 0, 0, 0, 0]]"
    by (simp only: list.set insert_iff) simp
qed simp_all

end
