(* ===== verification/LdbVersionEdit.thy ===== *)
theory LdbVersionEdit
  imports LdbKeys LdbStatus "HOL-Library.Product_Lexorder"
begin

text \<open>
  The records of the manifest (\<^verbatim>\<open>db/version_edit.h\<close>, \<^verbatim>\<open>db/version_edit.cc\<close>): a change of the set of tables, with its
  encoding as a sequence of tagged fields. An internal key is the string it holds.
\<close>

section \<open>Edits\<close>

record FileMetaData =
  fm_refs :: int
  fm_allowed_seeks :: int
  fm_number :: u64
  fm_file_size :: u64
  fm_smallest :: slice
  fm_largest :: slice

record VersionEdit =
  ve_comparator :: slice
  ve_log_number :: u64
  ve_prev_log_number :: u64
  ve_next_file_number :: u64
  ve_last_sequence :: SequenceNumber
  has_comparator :: bool
  has_log_number :: bool
  has_prev_log_number :: bool
  has_next_file_number :: bool
  has_last_sequence :: bool
  compact_pointers :: "(int \<times> slice) list"
  deleted_files :: "(int \<times> u64) set"
  new_files :: "(int \<times> FileMetaData) list"

text \<open>The pointers of compactions are not among what is cleared.\<close>

definition Edit_Clear :: "VersionEdit \<Rightarrow> VersionEdit" where
  "Edit_Clear e = e\<lparr>ve_comparator := [], ve_log_number := 0, ve_prev_log_number := 0, ve_last_sequence := 0,
     ve_next_file_number := 0, has_comparator := False, has_log_number := False, has_prev_log_number := False,
     has_next_file_number := False, has_last_sequence := False, deleted_files := {}, new_files := []\<rparr>"

definition Edit_new :: VersionEdit where
  "Edit_new = \<lparr>ve_comparator = [], ve_log_number = 0, ve_prev_log_number = 0, ve_next_file_number = 0, ve_last_sequence = 0,
     has_comparator = False, has_log_number = False, has_prev_log_number = False, has_next_file_number = False,
     has_last_sequence = False, compact_pointers = [], deleted_files = {}, new_files = []\<rparr>"

definition SetComparatorName :: "slice \<Rightarrow> VersionEdit \<Rightarrow> VersionEdit" where
  "SetComparatorName name e = e\<lparr>has_comparator := True, ve_comparator := name\<rparr>"

definition SetLogNumber :: "u64 \<Rightarrow> VersionEdit \<Rightarrow> VersionEdit" where
  "SetLogNumber num e = e\<lparr>has_log_number := True, ve_log_number := num\<rparr>"

definition SetPrevLogNumber :: "u64 \<Rightarrow> VersionEdit \<Rightarrow> VersionEdit" where
  "SetPrevLogNumber num e = e\<lparr>has_prev_log_number := True, ve_prev_log_number := num\<rparr>"

definition SetNextFile :: "u64 \<Rightarrow> VersionEdit \<Rightarrow> VersionEdit" where
  "SetNextFile num e = e\<lparr>has_next_file_number := True, ve_next_file_number := num\<rparr>"

definition SetLastSequence :: "SequenceNumber \<Rightarrow> VersionEdit \<Rightarrow> VersionEdit" where
  "SetLastSequence seq e = e\<lparr>has_last_sequence := True, ve_last_sequence := seq\<rparr>"

definition SetCompactPointer :: "int \<Rightarrow> slice \<Rightarrow> VersionEdit \<Rightarrow> VersionEdit" where
  "SetCompactPointer level key e = e\<lparr>compact_pointers := compact_pointers e @ [(level, key)]\<rparr>"

definition FileMetaData_new :: "u64 \<Rightarrow> u64 \<Rightarrow> slice \<Rightarrow> slice \<Rightarrow> FileMetaData" where
  "FileMetaData_new num sz smallest largest =
     \<lparr>fm_refs = 0, fm_allowed_seeks = push_bit 30 1, fm_number = num, fm_file_size = sz, fm_smallest = smallest, fm_largest = largest\<rparr>"

definition AddFile :: "int \<Rightarrow> u64 \<Rightarrow> u64 \<Rightarrow> slice \<Rightarrow> slice \<Rightarrow> VersionEdit \<Rightarrow> VersionEdit" where
  "AddFile level num sz smallest largest e = e\<lparr>new_files := new_files e @ [(level, FileMetaData_new num sz smallest largest)]\<rparr>"

definition DeleteFile :: "int \<Rightarrow> u64 \<Rightarrow> VersionEdit \<Rightarrow> VersionEdit" where
  "DeleteFile level num e = e\<lparr>deleted_files := insert (level, num) (deleted_files e)\<rparr>"

section \<open>Encoding\<close>

definition kComparator :: u32 where "kComparator = 1"
definition kLogNumber :: u32 where "kLogNumber = 2"
definition kNextFileNumber :: u32 where "kNextFileNumber = 3"
definition kLastSequence :: u32 where "kLastSequence = 4"
definition kCompactPointer :: u32 where "kCompactPointer = 5"
definition kDeletedFile :: u32 where "kDeletedFile = 6"
definition kNewFile :: u32 where "kNewFile = 7"
definition kPrevLogNumber :: u32 where "kPrevLogNumber = 9"

lemmas tag_defs = kComparator_def kLogNumber_def kNextFileNumber_def kLastSequence_def kCompactPointer_def kDeletedFile_def
  kNewFile_def kPrevLogNumber_def

definition put_number :: "bool \<Rightarrow> u32 \<Rightarrow> u64 \<Rightarrow> byte list \<Rightarrow> byte list" where
  "put_number has tag v dst = (if has then PutVarint64 (PutVarint32 dst tag) v else dst)"

definition put_pointer :: "int \<times> slice \<Rightarrow> byte list \<Rightarrow> byte list" where
  "put_pointer p dst = PutLengthPrefixedSlice (PutVarint32 (PutVarint32 dst kCompactPointer) (word_of_int (fst p))) (snd p)"

definition put_deleted :: "int \<times> u64 \<Rightarrow> byte list \<Rightarrow> byte list" where
  "put_deleted d dst = PutVarint64 (PutVarint32 (PutVarint32 dst kDeletedFile) (word_of_int (fst d))) (snd d)"

definition put_file :: "int \<times> FileMetaData \<Rightarrow> byte list \<Rightarrow> byte list" where
  "put_file nf dst =
     (let f = snd nf; dst = PutVarint32 (PutVarint32 dst kNewFile) (word_of_int (fst nf));
          dst = PutVarint64 (PutVarint64 dst (fm_number f)) (fm_file_size f)
      in PutLengthPrefixedSlice (PutLengthPrefixedSlice dst (fm_smallest f)) (fm_largest f))"

definition Edit_EncodeTo :: "VersionEdit \<Rightarrow> byte list \<Rightarrow> byte list" where
  "Edit_EncodeTo e dst =
     (let dst = (if has_comparator e then PutLengthPrefixedSlice (PutVarint32 dst kComparator) (ve_comparator e) else dst);
          dst = put_number (has_log_number e) kLogNumber (ve_log_number e) dst;
          dst = put_number (has_prev_log_number e) kPrevLogNumber (ve_prev_log_number e) dst;
          dst = put_number (has_next_file_number e) kNextFileNumber (ve_next_file_number e) dst;
          dst = put_number (has_last_sequence e) kLastSequence (ve_last_sequence e) dst;
          dst = fold put_pointer (compact_pointers e) dst;
          dst = fold put_deleted (sorted_list_of_set (deleted_files e)) dst
      in fold put_file (new_files e) dst)"

section \<open>Decoding\<close>

definition kNumLevels :: nat where "kNumLevels = 7"

definition GetInternalKey :: "slice \<Rightarrow> slice option \<times> slice" where
  "GetInternalKey input = GetLengthPrefixedSlice input"

definition GetLevel :: "slice \<Rightarrow> int option \<times> slice" where
  "GetLevel input =
     (case GetVarint32 input of
        (Some v, input) \<Rightarrow> (if unat v < kNumLevels then Some (uint v) else None, input)
      | (None, input) \<Rightarrow> (None, input))"

text \<open>The next field: run the rest only when the value is there; the input has moved in any case.\<close>

definition get :: "('a option \<times> slice) \<Rightarrow> ('a \<Rightarrow> slice \<Rightarrow> 'b option \<times> slice) \<Rightarrow> 'b option \<times> slice" where
  "get r k = (case r of (None, input) \<Rightarrow> (None, input) | (Some x, input) \<Rightarrow> k x input)"

text \<open>One tagged field: the changed edit or the message, and the rest of the input.\<close>

definition edit_field :: "u32 \<Rightarrow> slice \<Rightarrow> VersionEdit \<Rightarrow> (string + VersionEdit) \<times> slice" where
  "edit_field tag input e =
     (let result = (\<lambda>msg (r, input). (case r of None \<Rightarrow> Inl msg | Some e \<Rightarrow> Inr e, input))
      in if tag = kComparator then
           result ''comparator name'' (get (GetLengthPrefixedSlice input) (\<lambda>str input.
             (Some (e\<lparr>ve_comparator := str, has_comparator := True\<rparr>), input)))
         else if tag = kLogNumber then
           result ''log number'' (get (GetVarint64 input) (\<lambda>v input. (Some (e\<lparr>ve_log_number := v, has_log_number := True\<rparr>), input)))
         else if tag = kPrevLogNumber then
           result ''previous log number'' (get (GetVarint64 input) (\<lambda>v input.
             (Some (e\<lparr>ve_prev_log_number := v, has_prev_log_number := True\<rparr>), input)))
         else if tag = kNextFileNumber then
           result ''next file number'' (get (GetVarint64 input) (\<lambda>v input.
             (Some (e\<lparr>ve_next_file_number := v, has_next_file_number := True\<rparr>), input)))
         else if tag = kLastSequence then
           result ''last sequence number'' (get (GetVarint64 input) (\<lambda>v input.
             (Some (e\<lparr>ve_last_sequence := v, has_last_sequence := True\<rparr>), input)))
         else if tag = kCompactPointer then
           result ''compaction pointer'' (get (GetLevel input) (\<lambda>level input. get (GetInternalKey input) (\<lambda>key input.
             (Some (e\<lparr>compact_pointers := compact_pointers e @ [(level, key)]\<rparr>), input))))
         else if tag = kDeletedFile then
           result ''deleted file'' (get (GetLevel input) (\<lambda>level input. get (GetVarint64 input) (\<lambda>num input.
             (Some (e\<lparr>deleted_files := insert (level, num) (deleted_files e)\<rparr>), input))))
         else if tag = kNewFile then
           result ''new-file entry'' (get (GetLevel input) (\<lambda>level input. get (GetVarint64 input) (\<lambda>num input.
             get (GetVarint64 input) (\<lambda>sz input. get (GetInternalKey input) (\<lambda>smallest input.
             get (GetInternalKey input) (\<lambda>largest input.
               (Some (e\<lparr>new_files := new_files e @ [(level, FileMetaData_new num sz smallest largest)]\<rparr>), input)))))))
         else (Inl ''unknown tag'', input))"

lemma GetVarint32_shorter: "GetVarint32 p = (Some v, q) \<Longrightarrow> length q < length p"
  using GetVarint32_loop_shorter by (auto simp: GetVarint32_def GetVarint32Ptr_fallback split: option.splits)

lemma get_shorter [intro]:
  "length (snd r) \<le> n \<Longrightarrow> (\<And>x i. length i \<le> n \<Longrightarrow> length (snd (k x i)) \<le> n) \<Longrightarrow> length (snd (get r k)) \<le> n"
  by (auto simp: get_def split: prod.splits option.splits)

lemma Get_shorter [intro]:
  "length p \<le> n \<Longrightarrow> length (snd (GetVarint64 p)) \<le> n" "length p \<le> n \<Longrightarrow> length (snd (GetVarint32 p)) \<le> n"
  "length p \<le> n \<Longrightarrow> length (snd (GetLengthPrefixedSlice p)) \<le> n" "length p \<le> n \<Longrightarrow> length (snd (GetInternalKey p)) \<le> n"
  "length p \<le> n \<Longrightarrow> length (snd (GetLevel p)) \<le> n"
proof -
  have v32: "length (snd (GetVarint32 p)) \<le> length p"
    using GetVarint32_loop_shorter [of 0 0 p] by (fastforce simp: GetVarint32_def GetVarint32Ptr_fallback split: option.splits)
  then have rest: "length (snd (GetLengthPrefixedSlice p)) \<le> length p" "length (snd (GetLevel p)) \<le> length p"
    by (auto simp: GetLengthPrefixedSlice_def GetLevel_def split: prod.splits option.splits)
  have "length (snd (GetVarint64 p)) \<le> length p"
    using GetVarint64_loop_shorter [of 0 0 p] by (fastforce simp: GetVarint64_def GetVarint64Ptr_def split: option.splits)
  then show "length p \<le> n \<Longrightarrow> length (snd (GetVarint64 p)) \<le> n" "length p \<le> n \<Longrightarrow> length (snd (GetVarint32 p)) \<le> n"
    "length p \<le> n \<Longrightarrow> length (snd (GetLengthPrefixedSlice p)) \<le> n" "length p \<le> n \<Longrightarrow> length (snd (GetInternalKey p)) \<le> n"
    "length p \<le> n \<Longrightarrow> length (snd (GetLevel p)) \<le> n"
    using v32 rest by (simp_all add: GetInternalKey_def)
qed

lemma edit_field_shorter: "length (snd (edit_field tag input e)) \<le> length input"
proof -
  have r: "length (snd r) \<le> n \<Longrightarrow> length (snd (case r of (x, input) \<Rightarrow> (case x of None \<Rightarrow> Inl msg | Some e \<Rightarrow> Inr e, input))) \<le> n"
    for r :: "VersionEdit option \<times> slice" and msg :: string and n
    by (auto split: prod.splits)
  show ?thesis unfolding edit_field_def Let_def
    by (auto intro!: r get_shorter Get_shorter)
qed

lemma decode_shorter:
  "GetVarint32 input = (Some tag, i) \<Longrightarrow> edit_field tag i e = (r, j) \<Longrightarrow> length j < length input"
  using GetVarint32_shorter [of input tag i] edit_field_shorter [of tag i e] by simp

function edit_loop :: "slice \<Rightarrow> VersionEdit \<Rightarrow> string option \<times> slice \<times> VersionEdit" where
  "edit_loop input e =
     (case GetVarint32 input of
        (None, input) \<Rightarrow> (None, input, e)
      | (Some tag, input) \<Rightarrow>
          (case edit_field tag input e of
             (Inl msg, input) \<Rightarrow> (Some msg, input, e)
           | (Inr e, input) \<Rightarrow> edit_loop input e))"
  by pat_completeness auto
termination
  by (relation "measure (\<lambda>(input, e). length input)") (auto intro: decode_shorter [OF sym sym])

declare edit_loop.simps [simp del]

definition Edit_DecodeFrom :: "slice \<Rightarrow> VersionEdit \<Rightarrow> Status \<times> VersionEdit" where
  "Edit_DecodeFrom src e =
     (case edit_loop src (Edit_Clear e) of
        (msg, input, e) \<Rightarrow>
          let msg = (if msg = None \<and> input \<noteq> [] then Some ''invalid tag'' else msg)
          in (case msg of None \<Rightarrow> OK | Some m \<Rightarrow> Corruption (bytes_of ''VersionEdit'') (bytes_of m), e))"

end
