(* ===== verification/LdbVersion.thy ===== *)
theory LdbVersion
  imports LdbVersionEdit Loops Complex_Main
begin

text \<open>
  Versions (\<^verbatim>\<open>db/version_set.h\<close>, \<^verbatim>\<open>db/version_set.cc\<close>): the tables of each level, the search for the tables that can hold a key, and
  the lookup over all levels. The objects that describe tables are shared by versions and their counters of seeks change in place,
  so they lie in a store and a version holds their addresses; reference counts are not modelled. The table cache is a
  parameter: its \<^verbatim>\<open>Get\<close> is given the number and the size of a table and a key and returns a status and the entry with which it called the saver, if it did.
\<close>

section \<open>Options and sizes\<close>

text \<open>The conversion to \<^verbatim>\<open>int\<close> keeps 32 bits, and the products are computed with 32 bits.\<close>

definition TargetFileSize :: "u64 \<Rightarrow> 32 word" where
  "TargetFileSize max_file_size = ucast max_file_size"

definition MaxGrandParentOverlapBytes :: "u64 \<Rightarrow> int" where
  "MaxGrandParentOverlapBytes max_file_size = sint (10 * TargetFileSize max_file_size)"

definition ExpandedCompactionByteSizeLimit :: "u64 \<Rightarrow> int" where
  "ExpandedCompactionByteSizeLimit max_file_size = sint (25 * TargetFileSize max_file_size)"

definition MaxFileSizeForLevel :: "u64 \<Rightarrow> u64" where
  "MaxFileSizeForLevel max_file_size = scast (TargetFileSize max_file_size)"

definition TotalFileSize :: "FileMetaData list \<Rightarrow> int" where
  "TotalFileSize fs = sint (fold (\<lambda>f sum. sum + fm_file_size f) fs 0)"

section \<open>Which tables a key can be in\<close>

definition InternalKey_make :: "slice \<Rightarrow> SequenceNumber \<Rightarrow> ValueType \<Rightarrow> slice" where
  "InternalKey_make ukey s t = AppendInternalKey [] \<lparr>pk_user_key = ukey, pk_sequence = s, pk_type = t\<rparr>"

text \<open>The user keys at which a table starts and ends.\<close>

abbreviation file_start :: "FileMetaData \<Rightarrow> slice" where "file_start f \<equiv> ExtractUserKey (fm_smallest f)"
abbreviation file_limit :: "FileMetaData \<Rightarrow> slice" where "file_limit f \<equiv> ExtractUserKey (fm_largest f)"

definition FindFile_turn :: "comparator_class \<Rightarrow> FileMetaData list \<Rightarrow> slice \<Rightarrow> u32 \<times> u32 \<Rightarrow> u32 + u32 \<times> u32" where
  "FindFile_turn icmp fs key = (\<lambda>(left, right).
     if left < right then
       let mid = (left + right) div 2
       in if Compare icmp (fm_largest (fs ! unat mid)) key < 0 then Inr (mid + 1, right) else Inr (left, mid)
     else Inl right)"

definition FindFile :: "comparator_class \<Rightarrow> FileMetaData list \<Rightarrow> slice \<Rightarrow> u32 option" where
  "FindFile icmp fs key = while_true (FindFile_turn icmp fs key) (0, of_nat (length fs))"

definition AfterFile :: "comparator_class \<Rightarrow> slice option \<Rightarrow> FileMetaData \<Rightarrow> bool" where
  "AfterFile ucmp ukey f = (case ukey of None \<Rightarrow> False | Some k \<Rightarrow> Compare ucmp k (file_limit f) > 0)"

definition BeforeFile :: "comparator_class \<Rightarrow> slice option \<Rightarrow> FileMetaData \<Rightarrow> bool" where
  "BeforeFile ucmp ukey f = (case ukey of None \<Rightarrow> False | Some k \<Rightarrow> Compare ucmp k (file_start f) < 0)"

definition SomeFileOverlapsRange ::
    "comparator_class \<Rightarrow> bool \<Rightarrow> FileMetaData list \<Rightarrow> slice option \<Rightarrow> slice option \<Rightarrow> bool option" where
  "SomeFileOverlapsRange ucmp disjoint_sorted_files fs smallest_user_key largest_user_key =
     (if \<not> disjoint_sorted_files then
        Some (list_ex (\<lambda>f. \<not> (AfterFile ucmp smallest_user_key f \<or> BeforeFile ucmp largest_user_key f)) fs)
      else
        case (case smallest_user_key of None \<Rightarrow> Some 0
              | Some k \<Rightarrow> FindFile (InternalKeyComparator ucmp) fs (InternalKey_make k kMaxSequenceNumber kValueTypeForSeek)) of
          None \<Rightarrow> None
        | Some index \<Rightarrow> Some (if unat index \<ge> length fs then False else \<not> BeforeFile ucmp largest_user_key (fs ! unat index)))"

section \<open>The iterator over the tables of a level\<close>

record LevelFileNumIterator =
  lf_list :: "FileMetaData list"
  lf_index :: u32

definition LevelFile_new :: "FileMetaData list \<Rightarrow> LevelFileNumIterator" where
  "LevelFile_new flist = \<lparr>lf_list = flist, lf_index = of_nat (length flist)\<rparr>"

definition LevelFile_Valid :: "LevelFileNumIterator \<Rightarrow> bool" where
  "LevelFile_Valid it \<longleftrightarrow> unat (lf_index it) < length (lf_list it)"

definition LevelFile_Seek :: "comparator_class \<Rightarrow> slice \<Rightarrow> LevelFileNumIterator \<Rightarrow> LevelFileNumIterator option" where
  "LevelFile_Seek icmp t it = map_option (\<lambda>i. it\<lparr>lf_index := i\<rparr>) (FindFile icmp (lf_list it) t)"

definition LevelFile_SeekToFirst :: "LevelFileNumIterator \<Rightarrow> LevelFileNumIterator" where
  "LevelFile_SeekToFirst it = it\<lparr>lf_index := 0\<rparr>"

definition LevelFile_SeekToLast :: "LevelFileNumIterator \<Rightarrow> LevelFileNumIterator" where
  "LevelFile_SeekToLast it = it\<lparr>lf_index := (if lf_list it = [] then 0 else of_nat (length (lf_list it) - 1))\<rparr>"

definition LevelFile_Next :: "LevelFileNumIterator \<Rightarrow> LevelFileNumIterator" where
  "LevelFile_Next it = it\<lparr>lf_index := lf_index it + 1\<rparr>"

definition LevelFile_Prev :: "LevelFileNumIterator \<Rightarrow> LevelFileNumIterator" where
  "LevelFile_Prev it = it\<lparr>lf_index := (if lf_index it = 0 then of_nat (length (lf_list it)) else lf_index it - 1)\<rparr>"

definition LevelFile_key :: "LevelFileNumIterator \<Rightarrow> slice" where
  "LevelFile_key it = fm_largest (lf_list it ! unat (lf_index it))"

definition LevelFile_value :: "LevelFileNumIterator \<Rightarrow> slice" where
  "LevelFile_value it =
     (let f = lf_list it ! unat (lf_index it) in EncodeFixed64 True (fm_number f) @ EncodeFixed64 True (fm_file_size f))"

text \<open>The table that such a value names: its number and size, or the error of \<^verbatim>\<open>GetFileIterator\<close>.\<close>

definition GetFileIterator :: "slice \<Rightarrow> Status + u64 \<times> u64" where
  "GetFileIterator file_value =
     (if length file_value \<noteq> 16 then Inl (Corruption (bytes_of ''FileReader invoked with unexpected value'') [])
      else Inr (DecodeFixed64 True file_value, DecodeFixed64 True (drop 8 file_value)))"

section \<open>Versions\<close>

type_synonym file_ptr = nat
type_synonym files = "FileMetaData list"

record Version =
  v_files :: "file_ptr list list"
  v_file_to_compact :: "file_ptr option"
  v_file_to_compact_level :: int
  v_compaction_score :: rat
  v_compaction_level :: int

definition Version_new :: Version where
  "Version_new = \<lparr>v_files = replicate kNumLevels [], v_file_to_compact = None, v_file_to_compact_level = -1,
     v_compaction_score = -1, v_compaction_level = -1\<rparr>"

text \<open>The objects at some addresses, and those of a level.\<close>

abbreviation deref :: "files \<Rightarrow> file_ptr list \<Rightarrow> FileMetaData list" where
  "deref h ps \<equiv> map ((!) h) ps"

abbreviation level_files :: "files \<Rightarrow> Version \<Rightarrow> nat \<Rightarrow> FileMetaData list" where
  "level_files h v level \<equiv> deref h (v_files v ! level)"

section \<open>Lookup\<close>

datatype SaverState = SaverNotFound | SaverFound | SaverDeleted | SaverCorrupt

definition SaveValue :: "comparator_class \<Rightarrow> slice \<Rightarrow> slice \<Rightarrow> slice \<Rightarrow> SaverState \<times> slice \<Rightarrow> SaverState \<times> slice" where
  "SaveValue ucmp ukey ikey v = (\<lambda>(state, value).
     case ParseInternalKey ikey of
       None \<Rightarrow> (SaverCorrupt, value)
     | Some parsed_key \<Rightarrow>
         if Compare ucmp (pk_user_key parsed_key) ukey = 0 then
           if pk_type parsed_key = kTypeValue then (SaverFound, v) else (SaverDeleted, value)
         else (state, value))"

text \<open>Newest first; \<^verbatim>\<open>std::sort\<close> may order tables with equal numbers in any way, here they keep their order.\<close>

definition NewestFirst :: "files \<Rightarrow> file_ptr list \<Rightarrow> file_ptr list" where
  "NewestFirst h ps = sort_key (\<lambda>p. - uint (fm_number (h ! p))) ps"

text \<open>The tables of a level that a lookup reads, in their order.\<close>

definition files_to_search ::
    "comparator_class \<Rightarrow> files \<Rightarrow> Version \<Rightarrow> slice \<Rightarrow> slice \<Rightarrow> nat \<Rightarrow> file_ptr list option" where
  "files_to_search ucmp h v ukey ikey level =
     (let fs = v_files v ! level
      in if fs = [] then Some []
         else if level = 0 then
           Some (NewestFirst h (filter (\<lambda>p. Compare ucmp ukey (file_start (h ! p)) \<ge> 0 \<and> Compare ucmp ukey (file_limit (h ! p)) \<le> 0) fs))
         else
           case FindFile (InternalKeyComparator ucmp) (deref h fs) ikey of
             None \<Rightarrow> None
           | Some index \<Rightarrow>
               Some (if unat index \<ge> length fs then []
                     else if Compare ucmp ukey (file_start (h ! (fs ! unat index))) < 0 then []
                     else [fs ! unat index]))"

record GetStats =
  seek_file :: "file_ptr option"
  seek_file_level :: int

text \<open>The value that the caller passed, the statistics, and the table that was read last.\<close>

record GetState = GetStats +
  g_value :: slice
  last_file_read :: "file_ptr option"
  last_file_read_level :: int

type_synonym table_get = "u64 \<Rightarrow> u64 \<Rightarrow> slice \<Rightarrow> Status \<times> (slice \<times> slice) option"

text \<open>One table: a result, if the lookup ends there.\<close>

definition Get_file ::
    "table_get \<Rightarrow> comparator_class \<Rightarrow> files \<Rightarrow> slice \<Rightarrow> slice \<Rightarrow> nat \<Rightarrow> file_ptr \<Rightarrow> GetState \<Rightarrow> Status option \<times> GetState" where
  "Get_file tget ucmp h ukey ikey level p st =
     (let st = (if last_file_read st \<noteq> None \<and> seek_file st = None
                then st\<lparr>seek_file := last_file_read st, seek_file_level := last_file_read_level st\<rparr> else st);
          st = st\<lparr>last_file_read := Some p, last_file_read_level := int level\<rparr>;
          (s, called) = tget (fm_number (h ! p)) (fm_file_size (h ! p)) ikey;
          (state, value) = (case called of None \<Rightarrow> (SaverNotFound, g_value st)
                            | Some (k, v) \<Rightarrow> SaveValue ucmp ukey k v (SaverNotFound, g_value st));
          st = st\<lparr>g_value := value\<rparr>
      in if \<not> ok s then (Some s, st)
         else case state of
                SaverNotFound \<Rightarrow> (None, st)
              | SaverFound \<Rightarrow> (Some s, st)
              | SaverDeleted \<Rightarrow> (Some (NotFound [] []), st)
              | SaverCorrupt \<Rightarrow> (Some (Corruption (bytes_of ''corrupted key for '') ukey), st))"

fun Get_files ::
    "table_get \<Rightarrow> comparator_class \<Rightarrow> files \<Rightarrow> slice \<Rightarrow> slice \<Rightarrow> nat \<Rightarrow> file_ptr list \<Rightarrow> GetState \<Rightarrow> Status option \<times> GetState" where
  "Get_files tget ucmp h ukey ikey level [] st = (None, st)"
| "Get_files tget ucmp h ukey ikey level (p # ps) st =
     (case Get_file tget ucmp h ukey ikey level p st of
        (Some s, st) \<Rightarrow> (Some s, st)
      | (None, st) \<Rightarrow> Get_files tget ucmp h ukey ikey level ps st)"

fun Get_levels ::
    "table_get \<Rightarrow> comparator_class \<Rightarrow> files \<Rightarrow> Version \<Rightarrow> slice \<Rightarrow> slice \<Rightarrow> nat list \<Rightarrow> GetState \<Rightarrow> (Status \<times> GetState) option" where
  "Get_levels tget ucmp h v ukey ikey [] st = Some (NotFound [] [], st)"
| "Get_levels tget ucmp h v ukey ikey (level # levels) st =
     (case files_to_search ucmp h v ukey ikey level of
        None \<Rightarrow> None
      | Some ps \<Rightarrow>
          (case Get_files tget ucmp h ukey ikey level ps st of
             (Some s, st) \<Rightarrow> Some (s, st)
           | (None, st) \<Rightarrow> Get_levels tget ucmp h v ukey ikey levels st))"

definition Version_Get :: "table_get \<Rightarrow> comparator_class \<Rightarrow> files \<Rightarrow> Version \<Rightarrow> LookupKey \<Rightarrow> slice \<Rightarrow> (Status \<times> GetState) option" where
  "Version_Get tget ucmp h v k value =
     Get_levels tget ucmp h v (user_key k) (internal_key k) [0..<kNumLevels]
       \<lparr>seek_file = None, seek_file_level = -1, g_value = value, last_file_read = None, last_file_read_level = -1\<rparr>"

section \<open>Statistics of seeks\<close>

definition UpdateStats :: "'a GetStats_scheme \<Rightarrow> files \<Rightarrow> Version \<Rightarrow> bool \<times> files \<times> Version" where
  "UpdateStats stats h v =
     (case seek_file stats of
        None \<Rightarrow> (False, h, v)
      | Some f \<Rightarrow>
          let h = h[f := (h ! f)\<lparr>fm_allowed_seeks := fm_allowed_seeks (h ! f) - 1\<rparr>]
          in if fm_allowed_seeks (h ! f) \<le> 0 \<and> v_file_to_compact v = None
             then (True, h, v\<lparr>v_file_to_compact := Some f, v_file_to_compact_level := seek_file_level stats\<rparr>)
             else (False, h, v))"

text \<open>A callback returns its new state and whether it wants more.\<close>

fun call_each :: "('s \<Rightarrow> nat \<Rightarrow> file_ptr \<Rightarrow> 's \<times> bool) \<Rightarrow> nat \<Rightarrow> file_ptr list \<Rightarrow> 's \<Rightarrow> 's \<times> bool" where
  "call_each func level [] arg = (arg, True)"
| "call_each func level (p # ps) arg =
     (case func arg level p of (arg, more_wanted) \<Rightarrow> if more_wanted then call_each func level ps arg else (arg, False))"

fun overlapping_levels ::
    "comparator_class \<Rightarrow> files \<Rightarrow> Version \<Rightarrow> slice \<Rightarrow> slice \<Rightarrow> ('s \<Rightarrow> nat \<Rightarrow> file_ptr \<Rightarrow> 's \<times> bool) \<Rightarrow> nat list \<Rightarrow> 's \<Rightarrow> 's option" where
  "overlapping_levels ucmp h v ukey ikey func [] arg = Some arg"
| "overlapping_levels ucmp h v ukey ikey func (level # levels) arg =
     (case files_to_search ucmp h v ukey ikey level of
        None \<Rightarrow> None
      | Some ps \<Rightarrow>
          (case call_each func level ps arg of (arg, more_wanted) \<Rightarrow>
             if more_wanted then overlapping_levels ucmp h v ukey ikey func levels arg else Some arg))"

definition ForEachOverlapping ::
    "comparator_class \<Rightarrow> files \<Rightarrow> Version \<Rightarrow> slice \<Rightarrow> slice \<Rightarrow> ('s \<Rightarrow> nat \<Rightarrow> file_ptr \<Rightarrow> 's \<times> bool) \<Rightarrow> 's \<Rightarrow> 's option" where
  "ForEachOverlapping ucmp h v ukey ikey func arg = overlapping_levels ucmp h v ukey ikey func [0..<kNumLevels] arg"

definition Sample_Match :: "GetStats \<times> nat \<Rightarrow> nat \<Rightarrow> file_ptr \<Rightarrow> (GetStats \<times> nat) \<times> bool" where
  "Sample_Match = (\<lambda>(stats, matches) level f.
     let matches = matches + 1; stats = (if matches = 1 then \<lparr>seek_file = Some f, seek_file_level = int level\<rparr> else stats)
     in ((stats, matches), matches < 2))"

text \<open>The statistics are not set before the first match.\<close>

definition RecordReadSample :: "comparator_class \<Rightarrow> slice \<Rightarrow> files \<Rightarrow> Version \<Rightarrow> (bool \<times> files \<times> Version) option" where
  "RecordReadSample ucmp ikey h v =
     (case ParseInternalKey ikey of
        None \<Rightarrow> Some (False, h, v)
      | Some k \<Rightarrow>
          (case ForEachOverlapping ucmp h v (pk_user_key k) ikey Sample_Match (\<lparr>seek_file = None, seek_file_level = -1\<rparr>, 0) of
             None \<Rightarrow> None
           | Some (stats, matches) \<Rightarrow> Some (if matches \<ge> 2 then UpdateStats stats h v else (False, h, v))))"

section \<open>Overlapping tables\<close>

definition OverlapInLevel :: "comparator_class \<Rightarrow> files \<Rightarrow> Version \<Rightarrow> nat \<Rightarrow> slice option \<Rightarrow> slice option \<Rightarrow> bool option" where
  "OverlapInLevel ucmp h v level smallest_user_key largest_user_key =
     SomeFileOverlapsRange ucmp (level > 0) (level_files h v level) smallest_user_key largest_user_key"

definition key_below :: "comparator_class \<Rightarrow> slice \<Rightarrow> slice option \<Rightarrow> bool" where
  "key_below ucmp k bound = (case bound of None \<Rightarrow> False | Some b \<Rightarrow> Compare ucmp k b < 0)"

definition key_above :: "comparator_class \<Rightarrow> slice \<Rightarrow> slice option \<Rightarrow> bool" where
  "key_above ucmp k bound = (case bound of None \<Rightarrow> False | Some b \<Rightarrow> Compare ucmp k b > 0)"

text \<open>The loop keeps its index, the user keys at the ends of the range (none where the pointer is NULL) and the inputs found.\<close>

definition overlap_turn ::
    "comparator_class \<Rightarrow> files \<Rightarrow> bool \<Rightarrow> file_ptr list \<Rightarrow> nat \<times> slice option \<times> slice option \<times> file_ptr list \<Rightarrow>
     file_ptr list + nat \<times> slice option \<times> slice option \<times> file_ptr list" where
  "overlap_turn ucmp h level0 fs = (\<lambda>(i, user_begin, user_end, inputs).
     if i < length fs then
       let p = fs ! i; start = file_start (h ! p); limit = file_limit (h ! p)
       in if key_below ucmp limit user_begin then Inr (i + 1, user_begin, user_end, inputs)
          else if key_above ucmp start user_end then Inr (i + 1, user_begin, user_end, inputs)
          else if level0 \<and> key_below ucmp start user_begin then Inr (0, Some start, user_end, [])
          else if level0 \<and> key_above ucmp limit user_end then Inr (0, user_begin, Some limit, [])
          else Inr (i + 1, user_begin, user_end, inputs @ [p])
     else Inl inputs)"

definition GetOverlappingInputs ::
    "comparator_class \<Rightarrow> files \<Rightarrow> Version \<Rightarrow> nat \<Rightarrow> slice option \<Rightarrow> slice option \<Rightarrow> file_ptr list option" where
  "GetOverlappingInputs ucmp h v level begin_key end_key =
     while_true (overlap_turn ucmp h (level = 0) (v_files v ! level)) (0, map_option ExtractUserKey begin_key, map_option ExtractUserKey end_key, [])"

definition kMaxMemCompactLevel :: nat where "kMaxMemCompactLevel = 2"

definition pick_turn :: "u64 \<Rightarrow> comparator_class \<Rightarrow> files \<Rightarrow> Version \<Rightarrow> slice \<Rightarrow> slice \<Rightarrow> nat \<Rightarrow> nat option + nat" where
  "pick_turn max_file_size ucmp h v smallest_user_key largest_user_key level =
     (if level < kMaxMemCompactLevel then
        case OverlapInLevel ucmp h v (level + 1) (Some smallest_user_key) (Some largest_user_key) of
          None \<Rightarrow> Inl None
        | Some True \<Rightarrow> Inl (Some level)
        | Some False \<Rightarrow>
            if level + 2 < kNumLevels then
              (case GetOverlappingInputs ucmp h v (level + 2)
                      (Some (InternalKey_make smallest_user_key kMaxSequenceNumber kValueTypeForSeek))
                      (Some (InternalKey_make largest_user_key 0 kTypeDeletion)) of
                 None \<Rightarrow> Inl None
               | Some overlaps \<Rightarrow>
                   if TotalFileSize (deref h overlaps) > MaxGrandParentOverlapBytes max_file_size then Inl (Some level) else Inr (level + 1))
            else Inr (level + 1)
      else Inl (Some level))"

definition PickLevelForMemTableOutput :: "u64 \<Rightarrow> comparator_class \<Rightarrow> files \<Rightarrow> Version \<Rightarrow> slice \<Rightarrow> slice \<Rightarrow> nat option" where
  "PickLevelForMemTableOutput max_file_size ucmp h v smallest_user_key largest_user_key =
     (case OverlapInLevel ucmp h v 0 (Some smallest_user_key) (Some largest_user_key) of
        None \<Rightarrow> None
      | Some True \<Rightarrow> Some 0
      | Some False \<Rightarrow> Option.bind (while_true (pick_turn max_file_size ucmp h v smallest_user_key largest_user_key) 0) id)"

end
