(* ===== verification/LdbVersionProps.thy ===== *)
theory LdbVersionProps
  imports LdbVersion LdbMemProps
begin

text \<open>
  The searches for tables: the binary search \<^verbatim>\<open>FindFile\<close>, the test for an overlap in its two variants, and the
  collection of overlapping tables, against what they are to compute. The locale \<open>version_keys\<close> has the order of user keys and that
  of internal keys together; both keep the contract of a comparator.
\<close>

section \<open>Binary search\<close>

lemma takeWhile_holds: "j < length (takeWhile P xs) \<Longrightarrow> P (xs ! j)"
  by (metis nth_mem set_takeWhileD takeWhile_nth)

lemma takeWhile_partition:
  assumes "sorted_wrt (\<lambda>a b. P b \<longrightarrow> P a) xs" "j < length xs"
  shows "P (xs ! j) \<longleftrightarrow> j < length (takeWhile P xs)"
proof
  assume "P (xs ! j)"
  then have "\<forall>i \<le> j. P (xs ! i)" using assms by (metis le_neq_implies_less sorted_wrt_iff_nth_less)
  then show "j < length (takeWhile P xs)"
    using assms(2) nth_length_takeWhile [of P xs] by (metis le_less_linear le_less_trans)
next
  assume "j < length (takeWhile P xs)"
  then show "P (xs ! j)" by (rule takeWhile_holds)
qed

lemma unat_mid:
  fixes l r :: u32
  assumes "unat l < unat r" "unat r < 2 ^ 31"
  shows "unat ((l + r) div 2) = (unat l + unat r) div 2" "unat ((l + r) div 2 + 1) = (unat l + unat r) div 2 + 1"
proof -
  have "unat (l + r) = unat l + unat r" using assms by (simp add: unat_word_ariths)
  then show m: "unat ((l + r) div 2) = (unat l + unat r) div 2" by (simp add: unat_div)
  show "unat ((l + r) div 2 + 1) = (unat l + unat r) div 2 + 1"
    using m assms by (simp add: unat_word_ariths)
qed

lemma FindFile_lower:
  fixes icmp key
  defines "P \<equiv> \<lambda>f. Compare icmp (fm_largest f) key < 0"
  assumes sorted: "sorted_wrt (\<lambda>a b. P b \<longrightarrow> P a) fs" and small: "length fs < 2 ^ 31"
  shows "FindFile icmp fs key = Some (of_nat (length (takeWhile P fs)))"
proof -
  let ?k = "length (takeWhile P fs)"
  let ?I = "\<lambda>(l, r). unat l \<le> ?k \<and> ?k \<le> unat r \<and> unat r \<le> length fs"
  have k: "?k \<le> length fs" by (rule length_takeWhile_le)
  have u: "unat (of_nat (length fs) :: u32) = length fs" using small unat_u32_of_nat [of "length fs"] by simp
  have "\<exists>x. while_true (FindFile_turn icmp fs key) (0, of_nat (length fs)) = Some x \<and> x = of_nat ?k"
  proof (rule while_true_rule [where I = ?I and m = "\<lambda>(l, r). unat r - unat l"])
    show "case (0 :: u32, of_nat (length fs) :: u32) of (l, r) \<Rightarrow> unat l \<le> ?k \<and> ?k \<le> unat r \<and> unat r \<le> length fs"
      using k u by simp
  next
    fix s s' assume I: "?I s" and turn: "FindFile_turn icmp fs key s = Inr s'"
    obtain l r where s: "s = (l, r)" by (cases s)
    have lr: "unat l < unat r" "unat r < 2 ^ 31"
      using I turn small by (auto simp: FindFile_turn_def s word_less_nat_alt split: if_splits)
    let ?m = "(l + r) div 2"
    have m: "unat l \<le> unat ?m" "unat ?m < unat r" "unat (?m + 1) = unat ?m + 1" using lr by (simp_all add: unat_mid)
    then have "P (fs ! unat ?m) \<longleftrightarrow> unat ?m < ?k"
      using takeWhile_partition [OF sorted, of "unat ?m"] I by (simp add: s)
    then show "?I s' \<and> (case s' of (l, r) \<Rightarrow> unat r - unat l) < (case s of (l, r) \<Rightarrow> unat r - unat l)"
      using I turn m lr by (auto simp: FindFile_turn_def s Let_def P_def word_less_nat_alt split: if_splits)
  next
    fix s x assume I: "?I s" and turn: "FindFile_turn icmp fs key s = Inl x"
    obtain l r where s: "s = (l, r)" by (cases s)
    have "x = r" "unat r \<le> unat l" using turn by (auto simp: FindFile_turn_def s Let_def word_less_nat_alt split: if_splits)
    then have "?k = unat x" using I by (simp add: s)
    then show "x = of_nat ?k" by simp
  qed
  then show ?thesis by (simp add: FindFile_def)
qed


section \<open>Ranges of tables\<close>

text \<open>A description of a table is well formed when it holds the first and the last internal key of a table.\<close>

definition key_fits :: "(slice \<Rightarrow> bool) \<Rightarrow> slice \<Rightarrow> bool" where
  "key_fits valid k \<longleftrightarrow> 8 \<le> length k \<and> valid (ExtractUserKey k) \<and> key_tag k \<le> PackSequenceAndType kMaxSequenceNumber kValueTypeForSeek"

definition meta_ok :: "comparator_class \<Rightarrow> (slice \<Rightarrow> bool) \<Rightarrow> FileMetaData \<Rightarrow> bool" where
  "meta_ok ucmp valid f \<longleftrightarrow> key_fits valid (fm_smallest f) \<and> key_fits valid (fm_largest f) \<and>
     Compare (InternalKeyComparator ucmp) (fm_smallest f) (fm_largest f) \<le> 0"

text \<open>The order of the tables of a level behind level 0.\<close>

definition disjoint_sorted :: "comparator_class \<Rightarrow> FileMetaData list \<Rightarrow> bool" where
  "disjoint_sorted ucmp = sorted_wrt (\<lambda>f g. Compare (InternalKeyComparator ucmp) (fm_largest f) (fm_smallest g) < 0)"

text \<open>Tables that can have a user key in a range, and tables that can have a user key in common.\<close>

definition in_range :: "comparator_class \<Rightarrow> slice option \<Rightarrow> slice option \<Rightarrow> FileMetaData \<Rightarrow> bool" where
  "in_range ucmp lo hi f \<longleftrightarrow> \<not> key_below ucmp (file_limit f) lo \<and> \<not> key_above ucmp (file_start f) hi"

definition files_overlap :: "comparator_class \<Rightarrow> FileMetaData \<Rightarrow> FileMetaData \<Rightarrow> bool" where
  "files_overlap ucmp f g \<longleftrightarrow> Compare ucmp (file_limit f) (file_start g) \<ge> 0 \<and> Compare ucmp (file_start f) (file_limit g) \<le> 0"

lemma make_key_parts [simp]:
  "ExtractUserKey (InternalKey_make k s t) = k" "key_tag (InternalKey_make k s t) = PackSequenceAndType s t"
  "length (InternalKey_make k s t) = length k + 8"
  by (simp_all add: InternalKey_make_def AppendInternalKey_def)

lemma key_fits_make: "valid k \<Longrightarrow> s \<le> kMaxSequenceNumber \<Longrightarrow> key_fits valid (InternalKey_make k s t)"
  using Pack_le(1) [of s kMaxSequenceNumber t] by (simp add: key_fits_def kValueTypeForSeek_def)

locale version_keys = u: comparator ucmp valid +
    ik: comparator "InternalKeyComparator ucmp" "\<lambda>k. 8 \<le> length k \<and> valid (ExtractUserKey k)"
  for ucmp valid
begin

abbreviation icmp :: "slice \<Rightarrow> slice \<Rightarrow> int" where "icmp \<equiv> Compare (InternalKeyComparator ucmp)"

lemma icmp_eq: "icmp a b = (let r = Compare ucmp (ExtractUserKey a) (ExtractUserKey b)
    in if r = 0 then if key_tag b < key_tag a then - 1 else if key_tag a < key_tag b then 1 else 0 else r)"
  by (simp add: InternalKeyComparator_def InternalKey_Compare_def Let_def)

lemma user_le: "icmp a b \<le> 0 \<Longrightarrow> Compare ucmp (ExtractUserKey a) (ExtractUserKey b) \<le> 0"
  by (auto simp: icmp_eq Let_def split: if_splits)

lemma user_less: "Compare ucmp (ExtractUserKey a) (ExtractUserKey b) < 0 \<Longrightarrow> icmp a b < 0"
  by (simp add: icmp_eq)

lemma same_user: "Compare ucmp (ExtractUserKey a) (ExtractUserKey b) = 0 \<Longrightarrow> icmp a b < 0 \<longleftrightarrow> key_tag b < key_tag a"
  by (simp add: icmp_eq)

lemma key_fitsD: "key_fits valid k \<Longrightarrow> 8 \<le> length k \<and> valid (ExtractUserKey k)"
  by (simp add: key_fits_def)

lemma meta_okD:
  assumes "meta_ok ucmp valid f"
  shows "8 \<le> length (fm_smallest f) \<and> valid (file_start f)" "8 \<le> length (fm_largest f) \<and> valid (file_limit f)"
    "icmp (fm_smallest f) (fm_largest f) \<le> 0" "Compare ucmp (file_start f) (file_limit f) \<le> 0"
  using assms user_le by (auto simp: meta_ok_def key_fits_def)

text \<open>The keys of tables that stand in order.\<close>

lemma disjoint_ends:
  assumes "disjoint_sorted ucmp fs" "\<forall>f \<in> set fs. meta_ok ucmp valid f" "i < j" "j < length fs"
  shows "icmp (fm_largest (fs ! i)) (fm_smallest (fs ! j)) < 0" "icmp (fm_largest (fs ! i)) (fm_largest (fs ! j)) < 0"
    "icmp (fm_smallest (fs ! i)) (fm_smallest (fs ! j)) < 0"
proof -
  let ?f = "fs ! i" and ?g = "fs ! j"
  have ok: "meta_ok ucmp valid ?f" "meta_ok ucmp valid ?g" using assms by auto
  show less: "icmp (fm_largest ?f) (fm_smallest ?g) < 0"
    using assms by (auto simp: disjoint_sorted_def sorted_wrt_iff_nth_less)
  show "icmp (fm_smallest ?f) (fm_smallest ?g) < 0"
    using ik.compare_le_trans [of "fm_smallest ?f" "fm_largest ?f" "fm_smallest ?g"] less meta_okD [OF ok(1)] meta_okD [OF ok(2)] by blast
  show "icmp (fm_largest ?f) (fm_largest ?g) < 0"
    using less meta_okD [OF ok(1)] meta_okD [OF ok(2)]
      ik.compare_trans [of "fm_largest ?f" "fm_smallest ?g" "fm_largest ?g"] ik.compare_eq_0 [of "fm_smallest ?g" "fm_largest ?g"] by force
qed

lemma FindFile_disjoint:
  assumes "disjoint_sorted ucmp fs" "\<forall>f \<in> set fs. meta_ok ucmp valid f" "length fs < 2 ^ 31" "8 \<le> length k \<and> valid (ExtractUserKey k)"
  shows "FindFile (InternalKeyComparator ucmp) fs k = Some (of_nat (length (takeWhile (\<lambda>f. icmp (fm_largest f) k < 0) fs)))"
proof (rule FindFile_lower [OF _ assms(3)])
  have "icmp (fm_largest (fs ! i)) k < 0" if "i < j" "j < length fs" "icmp (fm_largest (fs ! j)) k < 0" for i j
  proof -
    have "meta_ok ucmp valid (fs ! i)" "meta_ok ucmp valid (fs ! j)" using assms(2) that by auto
    then show ?thesis using ik.compare_trans [of "fm_largest (fs ! i)" "fm_largest (fs ! j)" k] meta_okD
      disjoint_ends(2) [OF assms(1,2) that(1,2)] that(3) assms(4) by blast
  qed
  then show "sorted_wrt (\<lambda>f g. icmp (fm_largest g) k < 0 \<longrightarrow> icmp (fm_largest f) k < 0) fs"
    by (auto simp: sorted_wrt_iff_nth_less)
qed


subsection \<open>The test for an overlap\<close>

lemma icmp_first_key:
  assumes "key_fits valid k" "valid b"
  shows "icmp k (InternalKey_make b kMaxSequenceNumber kValueTypeForSeek) < 0 \<longleftrightarrow> Compare ucmp (ExtractUserKey k) b < 0"
  using assms by (auto simp: icmp_eq key_fits_def Let_def)

lemma After_below: "meta_ok ucmp valid f \<Longrightarrow> \<forall>k. b = Some k \<longrightarrow> valid k \<Longrightarrow> AfterFile ucmp b f \<longleftrightarrow> key_below ucmp (file_limit f) b"
  using u.compare_flip [of "file_limit f"] meta_okD(2) [of f] by (auto simp: AfterFile_def key_below_def split: option.splits)

lemma Before_above: "meta_ok ucmp valid f \<Longrightarrow> \<forall>k. b = Some k \<longrightarrow> valid k \<Longrightarrow> BeforeFile ucmp b f \<longleftrightarrow> key_above ucmp (file_start f) b"
  using u.compare_flip [of _ "file_start f"] meta_okD(1) [of f] by (auto simp: BeforeFile_def key_above_def split: option.splits)

lemma SomeFileOverlapsRange_iff:
  assumes fs: "disjoint_sorted ucmp fs" "\<forall>f \<in> set fs. meta_ok ucmp valid f" "length fs < 2 ^ 31"
    and lo: "\<forall>k. lo = Some k \<longrightarrow> valid k" and hi: "\<forall>k. hi = Some k \<longrightarrow> valid k"
  shows "SomeFileOverlapsRange ucmp True fs lo hi = Some (\<exists>f \<in> set fs. in_range ucmp lo hi f)"
proof -
  define n where "n = length (takeWhile (\<lambda>f. key_below ucmp (file_limit f) lo) fs)"
  have found: "(case lo of None \<Rightarrow> Some 0
      | Some k \<Rightarrow> FindFile (InternalKeyComparator ucmp) fs (InternalKey_make k kMaxSequenceNumber kValueTypeForSeek)) = Some (of_nat n)"
  proof (cases lo)
    case None
    then show ?thesis by (cases fs) (simp_all add: n_def key_below_def)
  next
    case (Some k)
    then have k: "valid k" using lo by simp
    have "icmp (fm_largest f) (InternalKey_make k kMaxSequenceNumber kValueTypeForSeek) < 0 \<longleftrightarrow> key_below ucmp (file_limit f) lo"
      if "f \<in> set fs" for f using icmp_first_key [OF _ k, of "fm_largest f"] fs(2) that by (simp add: meta_ok_def key_below_def Some)
    then show ?thesis using FindFile_disjoint [OF fs, of "InternalKey_make k kMaxSequenceNumber kValueTypeForSeek"] k
      by (simp add: Some n_def cong: takeWhile_cong)
  qed
  have n: "n \<le> length fs" unfolding n_def by (rule length_takeWhile_le)
  have u: "unat (of_nat n :: u32) = n" using n fs(3) unat_u32_of_nat [of n] by simp
  have behind: "in_range ucmp lo hi (fs ! n)" if "f \<in> set fs" "in_range ucmp lo hi f" for f
  proof -
    obtain j where j: "j < length fs" "f = fs ! j" using \<open>f \<in> set fs\<close> by (metis in_set_conv_nth)
    have "n \<le> j"
    proof (rule ccontr)
      assume "\<not> n \<le> j"
      then have "key_below ucmp (file_limit (fs ! j)) lo"
        using takeWhile_holds [of j "\<lambda>f. key_below ucmp (file_limit f) lo" fs] by (simp add: n_def)
      then show False using that j(2) by (simp add: in_range_def)
    qed
    have ok: "meta_ok ucmp valid f" "meta_ok ucmp valid (fs ! n)" using fs(2) that(1) j \<open>n \<le> j\<close> by simp_all
    have start: "Compare ucmp (file_start (fs ! n)) (file_start f) \<le> 0"
    proof (cases "n = j")
      case True
      then show ?thesis using u.compare_refl [of "file_start f"] meta_okD(1) [OF ok(1)] j(2) by simp
    next
      case False
      then have "icmp (fm_smallest (fs ! n)) (fm_smallest f) \<le> 0"
        using disjoint_ends(3) [OF fs(1,2), of n j] j \<open>n \<le> j\<close> by simp
      then show ?thesis by (rule user_le)
    qed
    have "\<not> key_above ucmp (file_start (fs ! n)) hi"
    proof (cases hi)
      case (Some k)
      have "\<not> 0 < Compare ucmp (file_start f) k" using that by (simp add: in_range_def key_above_def Some)
      moreover have "valid (file_start f)" "valid (file_start (fs ! n))" "valid k"
        using meta_okD(1) [OF ok(1)] meta_okD(1) [OF ok(2)] hi Some by simp_all
      ultimately show ?thesis using u.order.le_trans [of "file_start (fs ! n)" "file_start f" k] start
        by (simp add: key_above_def Some)
    qed (simp add: key_above_def)
    moreover have "\<not> key_below ucmp (file_limit (fs ! n)) lo"
      using nth_length_takeWhile [of "\<lambda>f. key_below ucmp (file_limit f) lo" fs] j \<open>n \<le> j\<close> by (simp add: n_def)
    ultimately show ?thesis by (simp add: in_range_def)
  qed
  have "(\<exists>f \<in> set fs. in_range ucmp lo hi f) \<longleftrightarrow> n < length fs \<and> \<not> BeforeFile ucmp hi (fs ! n)"
  proof
    assume "\<exists>f \<in> set fs. in_range ucmp lo hi f"
    then obtain f where f: "f \<in> set fs" "in_range ucmp lo hi f" by blast
    have "\<not> n \<ge> length fs"
    proof
      assume "n \<ge> length fs"
      then have "takeWhile (\<lambda>f. key_below ucmp (file_limit f) lo) fs = fs" using n by (metis n_def le_antisym takeWhile_eq_take take_all)
      then have "key_below ucmp (file_limit f) lo" using f(1) by (metis set_takeWhileD)
      then show False using f(2) by (simp add: in_range_def)
    qed
    then show "n < length fs \<and> \<not> BeforeFile ucmp hi (fs ! n)"
      using behind [OF f] Before_above [OF _ hi, of "fs ! n"] fs(2) by (simp add: in_range_def)
  next
    assume a: "n < length fs \<and> \<not> BeforeFile ucmp hi (fs ! n)"
    then have "\<not> key_below ucmp (file_limit (fs ! n)) lo"
      using nth_length_takeWhile [of "\<lambda>f. key_below ucmp (file_limit f) lo" fs] by (simp add: n_def)
    then have "in_range ucmp lo hi (fs ! n)" using a Before_above [OF _ hi, of "fs ! n"] fs(2) by (simp add: in_range_def)
    then show "\<exists>f \<in> set fs. in_range ucmp lo hi f" using a by (meson nth_mem)
  qed
  then show ?thesis by (auto simp: SomeFileOverlapsRange_def found u not_le)
qed

lemma SomeFileOverlapsRange_linear:
  assumes "\<forall>f \<in> set fs. meta_ok ucmp valid f" "\<forall>k. lo = Some k \<longrightarrow> valid k" "\<forall>k. hi = Some k \<longrightarrow> valid k"
  shows "SomeFileOverlapsRange ucmp False fs lo hi = Some (\<exists>f \<in> set fs. in_range ucmp lo hi f)"
  using assms After_below Before_above by (auto simp: SomeFileOverlapsRange_def list_ex_iff in_range_def)


end

section \<open>Collecting overlapping tables\<close>

text \<open>The specification: the tables that overlap the range, and with each of them all that overlap it.\<close>

inductive_set overlap_closure ::
    "comparator_class \<Rightarrow> files \<Rightarrow> file_ptr list \<Rightarrow> slice option \<Rightarrow> slice option \<Rightarrow> file_ptr set"
  for ucmp h ps lo hi where
  inside: "p \<in> set ps \<Longrightarrow> in_range ucmp lo hi (h ! p) \<Longrightarrow> p \<in> overlap_closure ucmp h ps lo hi"
| linked: "q \<in> overlap_closure ucmp h ps lo hi \<Longrightarrow> p \<in> set ps \<Longrightarrow> files_overlap ucmp (h ! p) (h ! q) \<Longrightarrow>
     p \<in> overlap_closure ucmp h ps lo hi"

lemma length_filter_mono: "(\<And>x. x \<in> set xs \<Longrightarrow> P x \<Longrightarrow> Q x) \<Longrightarrow> length (filter P xs) \<le> length (filter Q xs)"
proof (induction xs)
  case (Cons x xs)
  then have "length (filter P xs) \<le> length (filter Q xs)" by simp
  then show ?case using Cons.prems [of x] by simp
qed simp

lemma length_filter_strict:
  "(\<And>x. x \<in> set xs \<Longrightarrow> P x \<Longrightarrow> Q x) \<Longrightarrow> y \<in> set xs \<Longrightarrow> Q y \<Longrightarrow> \<not> P y \<Longrightarrow> length (filter P xs) < length (filter Q xs)"
proof (induction xs)
  case (Cons x xs)
  have le: "length (filter P xs) \<le> length (filter Q xs)"
    by (rule length_filter_mono) (simp add: Cons.prems(1))
  show ?case
  proof (cases "y \<in> set xs")
    case True
    then show ?thesis using Cons by auto
  next
    case False
    then show ?thesis using Cons.prems le by auto
  qed
qed simp

definition escaping :: "comparator_class \<Rightarrow> files \<Rightarrow> file_ptr list \<Rightarrow> slice option \<Rightarrow> slice option \<Rightarrow> nat" where
  "escaping ucmp h ps b e = length (filter (\<lambda>p. key_below ucmp (file_start (h ! p)) b) ps) + length (filter (\<lambda>p. key_above ucmp (file_limit (h ! p)) e) ps)"

text \<open>What the collected tables have: they are those that overlap a range that is not smaller than the one asked for; at level 0 they
  lie in it.\<close>

definition range_ok :: "(slice \<Rightarrow> bool) \<Rightarrow> slice option \<Rightarrow> bool" where
  "range_ok valid b \<longleftrightarrow> (\<forall>k. b = Some k \<longrightarrow> valid k)"

definition collected ::
    "comparator_class \<Rightarrow> (slice \<Rightarrow> bool) \<Rightarrow> files \<Rightarrow> bool \<Rightarrow> file_ptr list \<Rightarrow> slice option \<Rightarrow> slice option \<Rightarrow> slice option \<Rightarrow> slice option \<Rightarrow>
     file_ptr list \<Rightarrow> bool" where
  "collected ucmp valid h level0 ps lo hi b e R \<longleftrightarrow>
     range_ok valid b \<and> range_ok valid e \<and>
     (level0 \<longrightarrow> (\<forall>p \<in> set R. \<not> key_below ucmp (file_start (h ! p)) b \<and> \<not> key_above ucmp (file_limit (h ! p)) e)) \<and>
     (\<not> level0 \<longrightarrow> b = lo \<and> e = hi) \<and>
     (\<forall>x. valid x \<longrightarrow> (key_below ucmp x b \<longrightarrow> key_below ucmp x lo) \<and> (key_above ucmp x e \<longrightarrow> key_above ucmp x hi)) \<and>
     (\<forall>p \<in> set ps. in_range ucmp b e (h ! p) \<longrightarrow> p \<in> overlap_closure ucmp h ps lo hi)"

context version_keys
begin

lemma less_trans: "valid x \<Longrightarrow> valid y \<Longrightarrow> valid z \<Longrightarrow> Compare ucmp x y \<le> 0 \<Longrightarrow> Compare ucmp y z < 0 \<Longrightarrow> Compare ucmp x z < 0"
  by (rule u.compare_le_trans)

lemma less_le_trans: "valid x \<Longrightarrow> valid y \<Longrightarrow> valid z \<Longrightarrow> Compare ucmp x y < 0 \<Longrightarrow> Compare ucmp y z \<le> 0 \<Longrightarrow> Compare ucmp x z < 0"
  using u.compare_trans [of x y z] u.compare_eq_0 [of y z] by force

lemma flip_le: "valid x \<Longrightarrow> valid y \<Longrightarrow> 0 \<le> Compare ucmp x y \<longleftrightarrow> Compare ucmp y x \<le> 0"
  using u.compare_flip [of x y] u.compare_flip [of y x] by linarith

lemma overlap_less: "meta_ok ucmp valid f \<Longrightarrow> meta_ok ucmp valid g \<Longrightarrow>
    files_overlap ucmp f g \<longleftrightarrow> \<not> Compare ucmp (file_limit f) (file_start g) < 0 \<and> \<not> Compare ucmp (file_limit g) (file_start f) < 0"
  using u.compare_flip [of "file_limit g" "file_start f"] meta_okD by (auto simp: files_overlap_def)

lemma extend_down:
  assumes ok: "\<forall>p \<in> set ps. meta_ok ucmp valid (h ! p)" and f: "q \<in> set ps" "in_range ucmp b e (h ! q)"
    and down: "key_below ucmp (file_start (h ! q)) b" and c: "collected ucmp valid h True ps lo hi b e R"
  shows "collected ucmp valid h True ps lo hi (Some (file_start (h ! q))) e []"
    "escaping ucmp h ps (Some (file_start (h ! q))) e < escaping ucmp h ps b e"
proof -
  obtain k where k: "b = Some k" "Compare ucmp (file_start (h ! q)) k < 0" using down by (auto simp: key_below_def split: option.splits)
  have vk: "valid k" "meta_ok ucmp valid (h ! q)" using c ok f by (auto simp: collected_def range_ok_def k)
  note vq = meta_okD [OF vk(2)]
  have lower: "key_below ucmp x b" if "valid x" "key_below ucmp x (Some (file_start (h ! q)))" for x
    using that k vk vq u.compare_trans [of x "file_start (h ! q)" k] by (simp add: key_below_def)
  have reach: "p \<in> overlap_closure ucmp h ps lo hi" if p: "p \<in> set ps" "in_range ucmp (Some (file_start (h ! q))) e (h ! p)" for p
  proof (cases "in_range ucmp b e (h ! p)")
    case True
    then show ?thesis using c p by (auto simp: collected_def)
  next
    case False
    have vp: "meta_ok ucmp valid (h ! p)" using ok p by blast
    have "Compare ucmp (file_limit (h ! p)) k < 0" using False p(2) by (auto simp: in_range_def key_below_def k)
    moreover have "Compare ucmp k (file_limit (h ! q)) \<le> 0"
      using f(2) flip_le [of "file_limit (h ! q)" k] vq vk by (auto simp: in_range_def key_below_def k)
    ultimately have "Compare ucmp (file_limit (h ! p)) (file_limit (h ! q)) < 0"
      using less_le_trans meta_okD(2) [OF vp] vq vk by blast
    then have "Compare ucmp (file_start (h ! p)) (file_limit (h ! q)) < 0"
      using less_trans [of "file_start (h ! p)" "file_limit (h ! p)" "file_limit (h ! q)"] meta_okD [OF vp] vq by blast
    then have "files_overlap ucmp (h ! p) (h ! q)" using p(2) by (auto simp: files_overlap_def in_range_def key_below_def)
    moreover have "q \<in> overlap_closure ucmp h ps lo hi" using c f by (auto simp: collected_def)
    ultimately show ?thesis using p(1) overlap_closure.linked by blast
  qed
  show "collected ucmp valid h True ps lo hi (Some (file_start (h ! q))) e []"
    using c lower reach vq(1) by (auto simp: collected_def range_ok_def)
  have "length (filter (\<lambda>p. key_below ucmp (file_start (h ! p)) (Some (file_start (h ! q)))) ps) < length (filter (\<lambda>p. key_below ucmp (file_start (h ! p)) b) ps)"
    using lower ok meta_okD(1) f(1) down u.compare_refl vq(1)
    by (intro length_filter_strict [where y = q]) (auto simp: key_below_def)
  then show "escaping ucmp h ps (Some (file_start (h ! q))) e < escaping ucmp h ps b e" by (simp add: escaping_def)
qed

lemma extend_up:
  assumes ok: "\<forall>p \<in> set ps. meta_ok ucmp valid (h ! p)" and f: "q \<in> set ps" "in_range ucmp b e (h ! q)"
    and up: "key_above ucmp (file_limit (h ! q)) e" and c: "collected ucmp valid h True ps lo hi b e R"
  shows "collected ucmp valid h True ps lo hi b (Some (file_limit (h ! q))) []"
    "escaping ucmp h ps b (Some (file_limit (h ! q))) < escaping ucmp h ps b e"
proof -
  obtain k where k: "e = Some k" "Compare ucmp (file_limit (h ! q)) k > 0" using up by (auto simp: key_above_def split: option.splits)
  have vk: "valid k" "meta_ok ucmp valid (h ! q)" using c ok f by (auto simp: collected_def range_ok_def k)
  note vq = meta_okD [OF vk(2)]
  have kq: "Compare ucmp k (file_limit (h ! q)) < 0" using k(2) u.compare_flip [of k "file_limit (h ! q)"] vk vq by simp
  have higher: "key_above ucmp x e" if "valid x" "key_above ucmp x (Some (file_limit (h ! q)))" for x
    using that kq vk vq u.compare_trans [of k "file_limit (h ! q)" x] u.compare_flip [of k x] u.compare_flip [of "file_limit (h ! q)" x]
    by (simp add: key_above_def k(1))
  have reach: "p \<in> overlap_closure ucmp h ps lo hi" if p: "p \<in> set ps" "in_range ucmp b (Some (file_limit (h ! q))) (h ! p)" for p
  proof (cases "in_range ucmp b e (h ! p)")
    case True
    then show ?thesis using c p by (auto simp: collected_def)
  next
    case False
    have vp: "meta_ok ucmp valid (h ! p)" using ok p by blast
    have "Compare ucmp k (file_start (h ! p)) < 0"
      using False p(2) u.compare_flip [of k "file_start (h ! p)"] vk meta_okD(1) [OF vp] by (auto simp: in_range_def key_above_def k)
    moreover have "Compare ucmp (file_start (h ! q)) k \<le> 0" using f(2) by (auto simp: in_range_def key_above_def k)
    ultimately have "Compare ucmp (file_start (h ! q)) (file_start (h ! p)) < 0"
      using less_trans meta_okD(1) [OF vp] vq vk by blast
    then have "Compare ucmp (file_start (h ! q)) (file_limit (h ! p)) < 0"
      using less_le_trans meta_okD [OF vp] vq by blast
    then have "\<not> Compare ucmp (file_limit (h ! p)) (file_start (h ! q)) < 0"
      using u.compare_flip [of "file_start (h ! q)" "file_limit (h ! p)"] meta_okD(2) [OF vp] vq by simp
    then have "files_overlap ucmp (h ! p) (h ! q)" using p(2) by (auto simp: files_overlap_def in_range_def key_above_def)
    moreover have "q \<in> overlap_closure ucmp h ps lo hi" using c f by (auto simp: collected_def)
    ultimately show ?thesis using p(1) overlap_closure.linked by blast
  qed
  show "collected ucmp valid h True ps lo hi b (Some (file_limit (h ! q))) []"
    using c higher reach vq(2) by (auto simp: collected_def range_ok_def)
  have "length (filter (\<lambda>p. key_above ucmp (file_limit (h ! p)) (Some (file_limit (h ! q)))) ps) < length (filter (\<lambda>p. key_above ucmp (file_limit (h ! p)) e) ps)"
    using higher ok meta_okD(2) f(1) up u.compare_refl vq(2)
    by (intro length_filter_strict [where y = q]) (auto simp: key_above_def)
  then show "escaping ucmp h ps b (Some (file_limit (h ! q))) < escaping ucmp h ps b e" by (simp add: escaping_def)
qed


lemma collected_start: "range_ok valid lo \<Longrightarrow> range_ok valid hi \<Longrightarrow> collected ucmp valid h level0 ps lo hi lo hi []"
  by (simp add: collected_def overlap_closure.inside)

lemma overlap_loop:
  assumes ok: "\<forall>p \<in> set ps. meta_ok ucmp valid (h ! p)" and range: "range_ok valid lo" "range_ok valid hi"
  shows "\<exists>R. while_true (overlap_turn ucmp h level0 ps) (0, lo, hi, []) = Some R \<and>
     (\<exists>b e. R = filter (\<lambda>p. in_range ucmp b e (h ! p)) ps \<and> collected ucmp valid h level0 ps lo hi b e R)"
proof (rule while_true_rule [where
      I = "\<lambda>(i, b, e, R). i \<le> length ps \<and> R = filter (\<lambda>p. in_range ucmp b e (h ! p)) (take i ps) \<and> collected ucmp valid h level0 ps lo hi b e R"
      and m = "\<lambda>(i, b, e, R). escaping ucmp h ps b e * (length ps + 1) + (length ps - i)"])
  show "case (0, lo, hi, []) of (i, b, e, R) \<Rightarrow> i \<le> length ps \<and> R = filter (\<lambda>p. in_range ucmp b e (h ! p)) (take i ps) \<and>
      collected ucmp valid h level0 ps lo hi b e R"
    using range collected_start by simp
next
  fix s s'
  assume I: "case s of (i, b, e, R) \<Rightarrow> i \<le> length ps \<and> R = filter (\<lambda>p. in_range ucmp b e (h ! p)) (take i ps) \<and>
      collected ucmp valid h level0 ps lo hi b e R" and turn: "overlap_turn ucmp h level0 ps s = Inr s'"
  obtain i b e R where s: "s = (i, b, e, R)" by (cases s)
  have i: "i < length ps" and R: "R = filter (\<lambda>p. in_range ucmp b e (h ! p)) (take i ps)"
    and c: "collected ucmp valid h level0 ps lo hi b e R"
    using I turn by (auto simp: s overlap_turn_def split: if_splits)
  let ?q = "ps ! i"
  have q: "?q \<in> set ps" using i by simp
  have next_take: "take (Suc i) ps = take i ps @ [?q]" using i by (simp add: take_Suc_conv_app_nth)
  have advance: "n + (length ps - Suc i) < n + (length ps - i)" for n using i by simp
  have restart: "escaping ucmp h ps b' e' < escaping ucmp h ps b e \<Longrightarrow>
      escaping ucmp h ps b' e' * (length ps + 1) + length ps < escaping ucmp h ps b e * (length ps + 1) + (length ps - i)" for b' e'
  proof -
    assume "escaping ucmp h ps b' e' < escaping ucmp h ps b e"
    then have "(escaping ucmp h ps b' e' + 1) * (length ps + 1) \<le> escaping ucmp h ps b e * (length ps + 1)" by (intro mult_le_mono1) simp
    then show ?thesis by simp
  qed
  let ?G = "\<lambda>s'. (case s' of (i, b, e, R) \<Rightarrow> i \<le> length ps \<and> R = filter (\<lambda>p. in_range ucmp b e (h ! p)) (take i ps) \<and>
      collected ucmp valid h level0 ps lo hi b e R) \<and>
      (case s' of (i, b, e, R) \<Rightarrow> escaping ucmp h ps b e * (length ps + 1) + (length ps - i)) <
      (case s of (i, b, e, R) \<Rightarrow> escaping ucmp h ps b e * (length ps + 1) + (length ps - i))"
  show "?G s'"
  proof (cases "in_range ucmp b e (h ! ?q)")
    case False
    then have "s' = (i + 1, b, e, R)"
      using turn i by (auto simp: s overlap_turn_def in_range_def Let_def split: if_splits)
    then show ?thesis using i R c False by (simp only: s prod.case Suc_eq_plus1 [symmetric] advance next_take) simp
  next
    case True
    then have not: "\<not> key_below ucmp (file_limit (h ! ?q)) b" "\<not> key_above ucmp (file_start (h ! ?q)) e" by (simp_all add: in_range_def)
    consider (down) "level0" "key_below ucmp (file_start (h ! ?q)) b"
      | (up) "level0" "\<not> key_below ucmp (file_start (h ! ?q)) b" "key_above ucmp (file_limit (h ! ?q)) e"
      | (keep) "level0 \<longrightarrow> \<not> key_below ucmp (file_start (h ! ?q)) b \<and> \<not> key_above ucmp (file_limit (h ! ?q)) e" by blast
    then show ?thesis
    proof cases
      case down
      then have s': "s' = (0, Some (file_start (h ! ?q)), e, [])" using turn i not by (simp add: s overlap_turn_def Let_def)
      show ?thesis using extend_down [OF ok q True down(2), of lo hi R] c restart down(1) by (simp add: s s')
    next
      case up
      then have s': "s' = (0, b, Some (file_limit (h ! ?q)), [])" using turn i not by (simp add: s overlap_turn_def Let_def)
      show ?thesis using extend_up [OF ok q True up(3), of lo hi R] c restart up(1) by (simp add: s s')
    next
      case keep
      then have s': "s' = (i + 1, b, e, R @ [?q])" using turn i not by (auto simp: s overlap_turn_def Let_def)
      have "collected ucmp valid h level0 ps lo hi b e (R @ [?q])" using c keep by (auto simp: collected_def)
      then show ?thesis using i R True by (simp only: s s' prod.case Suc_eq_plus1 [symmetric] advance next_take) simp
    qed
  qed
next
  fix s R'
  assume I: "case s of (i, b, e, R) \<Rightarrow> i \<le> length ps \<and> R = filter (\<lambda>p. in_range ucmp b e (h ! p)) (take i ps) \<and>
      collected ucmp valid h level0 ps lo hi b e R" and turn: "overlap_turn ucmp h level0 ps s = Inl R'"
  obtain i b e R where s: "s = (i, b, e, R)" by (cases s)
  have "i = length ps" "R' = R" using I turn by (auto simp: s overlap_turn_def Let_def split: if_splits)
  then show "\<exists>b e. R' = filter (\<lambda>p. in_range ucmp b e (h ! p)) ps \<and> collected ucmp valid h level0 ps lo hi b e R'"
    using I by (auto simp: s)
qed

lemma GetOverlappingInputs_collected:
  assumes "\<forall>p \<in> set (v_files v ! lv). meta_ok ucmp valid (h ! p)"
    and "range_ok valid (map_option ExtractUserKey begin_key)" "range_ok valid (map_option ExtractUserKey end_key)"
  obtains R b e where "GetOverlappingInputs ucmp h v lv begin_key end_key = Some R"
    "R = filter (\<lambda>p. in_range ucmp b e (h ! p)) (v_files v ! lv)"
    "collected ucmp valid h (lv = 0) (v_files v ! lv) (map_option ExtractUserKey begin_key) (map_option ExtractUserKey end_key) b e R"
  using overlap_loop [OF assms, of "lv = 0"] by (auto simp: GetOverlappingInputs_def)

lemma collected_in_range:
  assumes "collected ucmp valid h level0 ps lo hi b e R" "meta_ok ucmp valid f" "in_range ucmp lo hi f"
  shows "in_range ucmp b e f"
proof -
  have "\<forall>x. valid x \<longrightarrow> (key_below ucmp x b \<longrightarrow> key_below ucmp x lo) \<and> (key_above ucmp x e \<longrightarrow> key_above ucmp x hi)"
    using assms(1) unfolding collected_def by blast
  then show ?thesis using assms(3) meta_okD(1,2) [OF assms(2)] unfolding in_range_def by blast
qed

text \<open>What was collected at level 0 is closed: no other table overlaps one of it.\<close>

lemma collected_closed:
  assumes ok: "meta_ok ucmp valid (h ! p)" "meta_ok ucmp valid (h ! q)" and c: "collected ucmp valid h True ps lo hi b e R"
    and q: "q \<in> set R" and o: "files_overlap ucmp (h ! p) (h ! q)"
  shows "in_range ucmp b e (h ! p)"
proof -
  note v = meta_okD [OF ok(1)] meta_okD [OF ok(2)]
  have inside: "\<not> key_below ucmp (file_start (h ! q)) b" "\<not> key_above ucmp (file_limit (h ! q)) e" and vb: "range_ok valid b" "range_ok valid e"
    using c q by (auto simp: collected_def)
  have o': "Compare ucmp (file_start (h ! q)) (file_limit (h ! p)) \<le> 0" "Compare ucmp (file_start (h ! p)) (file_limit (h ! q)) \<le> 0"
    using o flip_le [of "file_limit (h ! p)" "file_start (h ! q)"] v by (auto simp: files_overlap_def)
  have "\<not> key_below ucmp (file_limit (h ! p)) b"
    using inside(1) o'(1) vb v less_trans [of "file_start (h ! q)" "file_limit (h ! p)"]
    by (auto simp: key_below_def range_ok_def split: option.splits)
  moreover have "\<not> key_above ucmp (file_start (h ! p)) e"
  proof (cases e)
    case (Some k)
    then have k: "valid k" "Compare ucmp (file_limit (h ! q)) k \<le> 0" using vb inside(2) by (simp_all add: range_ok_def key_above_def)
    then have "Compare ucmp (file_start (h ! p)) k \<le> 0"
      using u.order.le_trans [of "file_start (h ! p)" "file_limit (h ! q)" k] v o'(2) by blast
    then show ?thesis by (simp add: key_above_def Some)
  qed (simp add: key_above_def)
  ultimately show ?thesis by (simp add: in_range_def)
qed

lemma collected_closure:
  assumes ok: "\<forall>p \<in> set ps. meta_ok ucmp valid (h ! p)" and R: "R = filter (\<lambda>p. in_range ucmp b e (h ! p)) ps"
    and c: "collected ucmp valid h True ps lo hi b e R"
  shows "set R = overlap_closure ucmp h ps lo hi"
proof
  show "set R \<subseteq> overlap_closure ucmp h ps lo hi" using c by (auto simp: R collected_def)
  have "p \<in> set R" if "p \<in> overlap_closure ucmp h ps lo hi" for p using that
  proof induction
    case (inside p)
    then show ?case using collected_in_range [OF c] ok by (simp add: R)
  next
    case (linked q p)
    then have "in_range ucmp b e (h ! p)"
      using collected_closed [OF _ _ c linked.IH linked.hyps(3)] ok by (auto simp: R)
    then show ?case using linked.hyps(2) by (simp add: R)
  qed
  then show "overlap_closure ucmp h ps lo hi \<subseteq> set R" by blast
qed

end

interpretation keys: version_keys BytewiseComparator "\<lambda>_. True"
  by (intro version_keys.intro bytewise.comparator_axioms internal.comparator_axioms)

section \<open>The properties\<close>

text \<open>
  C35: the two variants of the test whether some table overlaps a range of user keys agree. For tables in order, the
  binary search for the first possible internal key of the range ends, and answers as the comparison with every table does; either end of the range may be open.
\<close>

theorem overlap_tests_agree:
  assumes "disjoint_sorted BytewiseComparator fs" "\<forall>f \<in> set fs. meta_ok BytewiseComparator (\<lambda>_. True) f" "length fs < 2 ^ 31"
  shows "SomeFileOverlapsRange BytewiseComparator True fs lo hi = SomeFileOverlapsRange BytewiseComparator False fs lo hi"
  using keys.SomeFileOverlapsRange_iff [OF assms, of lo hi] keys.SomeFileOverlapsRange_linear [OF assms(2), of lo hi] by simp

definition sample_file :: "u64 \<Rightarrow> byte \<Rightarrow> byte \<Rightarrow> FileMetaData" where
  "sample_file n a b = FileMetaData_new n 100 (InternalKey_make [a] 3 kTypeValue) (InternalKey_make [b] 9 kTypeValue)"

lemma sample_file_ok:
  assumes "a < b"
  shows "meta_ok BytewiseComparator (\<lambda>_. True) (sample_file n a b)"
proof -
  have "keys.icmp (InternalKey_make [a] 3 kTypeValue) (InternalKey_make [b] 9 kTypeValue) \<le> 0"
    by (simp only: keys.icmp_eq make_key_parts) (use assms in \<open>auto simp: BytewiseComparator_def Let_def\<close>)
  then show ?thesis
    by (auto simp: sample_file_def FileMetaData_new_def meta_ok_def key_fits_make kMaxSequenceNumber_def)
qed

theorem overlap_tests_agree_witness:
  "let fs = [sample_file 4 10 20, sample_file 5 20 30, sample_file 9 42 50]
   in SomeFileOverlapsRange BytewiseComparator True fs (Some [31]) (Some [41]) = Some False \<and>
      SomeFileOverlapsRange BytewiseComparator True fs (Some [31]) None = Some True"
proof -
  let ?fs = "[sample_file 4 10 20, sample_file 5 20 30, sample_file 9 42 50]"
  have a: "disjoint_sorted BytewiseComparator [sample_file 4 10 20, sample_file 5 20 30, sample_file 9 42 50]" by code_simp
  have c: "SomeFileOverlapsRange BytewiseComparator False [sample_file 4 10 20, sample_file 5 20 30, sample_file 9 42 50] (Some [31]) (Some [41]) = Some False"
    "SomeFileOverlapsRange BytewiseComparator False [sample_file 4 10 20, sample_file 5 20 30, sample_file 9 42 50] (Some [31]) None = Some True"
    by code_simp code_simp
  have "\<forall>f \<in> set ?fs. meta_ok BytewiseComparator (\<lambda>_. True) f" by (simp add: sample_file_ok)
  then show ?thesis using overlap_tests_agree [OF a] c by (simp only: Let_def) simp
qed

text \<open>
  C8: the tables that a compaction of a range has to take. \<^verbatim>\<open>GetOverlappingInputs\<close> returns, for every range, although its search of
  level 0 starts again whenever a table extends the range. At level 0 its result is the least set of tables that has those that
  overlap the range and with each table all that overlap it, so no table outside can hold an older version of a key inside; at the other
  levels it is exactly the tables that overlap the range.
\<close>

theorem overlapping_inputs_closed:
  assumes "\<forall>p \<in> set (v_files v ! lv). meta_ok BytewiseComparator (\<lambda>_. True) (h ! p)"
  shows "\<exists>R. GetOverlappingInputs BytewiseComparator h v lv b e = Some R \<and>
     set R = (if lv = 0 then overlap_closure BytewiseComparator h (v_files v ! lv) (map_option ExtractUserKey b) (map_option ExtractUserKey e)
              else {p \<in> set (v_files v ! lv). in_range BytewiseComparator (map_option ExtractUserKey b) (map_option ExtractUserKey e) (h ! p)})"
proof -
  obtain R lo hi where R: "GetOverlappingInputs BytewiseComparator h v lv b e = Some R"
      "R = filter (\<lambda>p. in_range BytewiseComparator lo hi (h ! p)) (v_files v ! lv)"
      "collected BytewiseComparator (\<lambda>_. True) h (lv = 0) (v_files v ! lv) (map_option ExtractUserKey b) (map_option ExtractUserKey e) lo hi R"
    using keys.GetOverlappingInputs_collected [OF assms, of b e] by (auto simp: range_ok_def)
  show ?thesis
  proof (cases "lv = 0")
    case True
    then show ?thesis using R(1) R(3) keys.collected_closure [OF assms R(2)] by simp
  next
    case False
    then show ?thesis using R by (simp add: collected_def)
  qed
qed

definition sample_version :: Version where
  "sample_version = Version_new\<lparr>v_files := [[2, 0, 1], [], [], [], [], [], []]\<rparr>"

theorem overlapping_inputs_closed_witness:
  "\<exists>R. GetOverlappingInputs BytewiseComparator [sample_file 7 10 20, sample_file 8 15 30, sample_file 9 40 50] sample_version 0
        (Some (InternalKey_make [12] 5 kTypeValue)) (Some (InternalKey_make [13] 5 kTypeValue)) = Some R \<and> 1 \<in> set R"
proof -
  let ?h = "[sample_file 7 10 20, sample_file 8 15 30, sample_file 9 40 50]"
  have ok: "\<forall>p \<in> set [2, 0, 1]. meta_ok BytewiseComparator (\<lambda>_. True) (?h ! p)" by (simp add: sample_file_ok)
  have "in_range BytewiseComparator (Some [12]) (Some [13]) (sample_file 7 10 20)"
    "files_overlap BytewiseComparator (sample_file 8 15 30) (sample_file 7 10 20)"
    by (simp_all add: in_range_def files_overlap_def key_below_def key_above_def sample_file_def FileMetaData_new_def BytewiseComparator_def)
  then have one: "1 \<in> overlap_closure BytewiseComparator ?h [2, 0, 1] (Some [12]) (Some [13])"
    using overlap_closure.linked [OF overlap_closure.inside, of 0 "[2, 0, 1]" BytewiseComparator "Some [12]" "Some [13]" ?h 1] by simp
  have files: "v_files sample_version ! 0 = [2, 0, 1]" by (simp add: sample_version_def)
  show ?thesis
    using overlapping_inputs_closed [of sample_version 0 ?h "Some (InternalKey_make [12] 5 kTypeValue)" "Some (InternalKey_make [13] 5 kTypeValue)",
        unfolded files option.map make_key_parts, OF ok] one
    by (metis (no_types, lifting))
qed

end
