(* ===== verification/LdbBuilder.thy ===== *)
theory LdbBuilder
  imports LdbVersionProps
begin

text \<open>
  \<^verbatim>\<open>VersionSet::Builder\<close> (\<^verbatim>\<open>db/version_set.cc\<close>): a sequence of edits is collected in sets of deleted and of added tables and merged
  with a base version at the end. The theorem says that this gives what one version after the other would have given.
\<close>

section \<open>The builder\<close>

record LevelState =
  ls_deleted :: "u64 set"
  ls_added :: "file_ptr list"

record Builder =
  b_base :: Version
  b_levels :: "LevelState list"

text \<open>The order of the tables of a level: by smallest key, then by number.\<close>

definition BySmallestKey :: "comparator_class \<Rightarrow> files \<Rightarrow> file_ptr \<Rightarrow> file_ptr \<Rightarrow> bool" where
  "BySmallestKey icmp h f1 f2 \<longleftrightarrow>
     (let r = Compare icmp (fm_smallest (h ! f1)) (fm_smallest (h ! f2))
      in if r \<noteq> 0 then r < 0 else fm_number (h ! f1) < fm_number (h ! f2))"

text \<open>\<^verbatim>\<open>std::set\<close>: in order, and an element that is equivalent to one of the set is not inserted.\<close>

fun FileSet_insert :: "(file_ptr \<Rightarrow> file_ptr \<Rightarrow> bool) \<Rightarrow> file_ptr \<Rightarrow> file_ptr list \<Rightarrow> file_ptr list" where
  "FileSet_insert lt f [] = [f]"
| "FileSet_insert lt f (g # gs) =
     (if lt f g then f # g # gs else if lt g f then g # FileSet_insert lt f gs else g # gs)"

definition Builder_new :: "Version \<Rightarrow> Builder" where
  "Builder_new base = \<lparr>b_base = base, b_levels = replicate kNumLevels \<lparr>ls_deleted = {}, ls_added = []\<rparr>\<rparr>"

text \<open>Seeks that a table of that size may have before it is compacted.\<close>

definition initial_seeks :: "u64 \<Rightarrow> int" where
  "initial_seeks sz = (let n = sint (ucast (sz div 16384) :: 32 word) in if n < 100 then 100 else n)"

definition delete_file :: "int \<times> u64 \<Rightarrow> LevelState list \<Rightarrow> LevelState list" where
  "delete_file d ls = (let l = nat (fst d) in ls[l := (ls ! l)\<lparr>ls_deleted := insert (snd d) (ls_deleted (ls ! l))\<rparr>])"

definition add_file :: "comparator_class \<Rightarrow> int \<times> FileMetaData \<Rightarrow> files \<times> LevelState list \<Rightarrow> files \<times> LevelState list" where
  "add_file icmp nf = (\<lambda>(h, ls).
     let l = nat (fst nf);
         f = (snd nf)\<lparr>fm_refs := 1, fm_allowed_seeks := initial_seeks (fm_file_size (snd nf))\<rparr>;
         h' = h @ [f]
     in (h', ls[l := (ls ! l)\<lparr>ls_deleted := ls_deleted (ls ! l) - {fm_number f},
                              ls_added := FileSet_insert (BySmallestKey icmp h') (length h) (ls_added (ls ! l))\<rparr>]))"

text \<open>\<open>pointers\<close> are the compaction pointers of the version set.\<close>

definition Builder_Apply ::
    "comparator_class \<Rightarrow> VersionEdit \<Rightarrow> files \<times> slice list \<times> Builder \<Rightarrow> files \<times> slice list \<times> Builder" where
  "Builder_Apply icmp edit = (\<lambda>(h, pointers, b).
     let pointers = fold (\<lambda>(l, key) ps. ps[nat l := key]) (compact_pointers edit) pointers;
         ls = fold delete_file (sorted_list_of_set (deleted_files edit)) (b_levels b);
         (h, ls) = fold (add_file icmp) (new_files edit) (h, ls)
     in (h, pointers, b\<lparr>b_levels := ls\<rparr>))"

definition MaybeAddFile :: "files \<Rightarrow> u64 set \<Rightarrow> file_ptr \<Rightarrow> file_ptr list \<Rightarrow> file_ptr list" where
  "MaybeAddFile h deleted f fs = (if fm_number (h ! f) \<in> deleted then fs else fs @ [f])"

text \<open>One level: \<^verbatim>\<open>std::upper_bound\<close> finds the first table of the rest of the base, which is sorted, that is behind the added one.\<close>

fun save_level :: "comparator_class \<Rightarrow> files \<Rightarrow> u64 set \<Rightarrow> file_ptr list \<Rightarrow> file_ptr list \<Rightarrow> file_ptr list \<Rightarrow> file_ptr list" where
  "save_level icmp h deleted base [] fs = fold (MaybeAddFile h deleted) base fs"
| "save_level icmp h deleted base (a # added) fs =
     save_level icmp h deleted (dropWhile (\<lambda>f. \<not> BySmallestKey icmp h a f) base) added
       (MaybeAddFile h deleted a (fold (MaybeAddFile h deleted) (takeWhile (\<lambda>f. \<not> BySmallestKey icmp h a f) base) fs))"

definition Builder_SaveTo :: "comparator_class \<Rightarrow> files \<Rightarrow> Builder \<Rightarrow> Version \<Rightarrow> Version" where
  "Builder_SaveTo icmp h b v = v\<lparr>v_files :=
     map (\<lambda>l. let ls = b_levels b ! l in save_level icmp h (ls_deleted ls) (v_files (b_base b) ! l) (ls_added ls) (v_files v ! l)) [0..<kNumLevels]\<rparr>"

section \<open>Merging\<close>

lemma fold_Maybe: "fold (MaybeAddFile h deleted) base fs = fs @ filter (\<lambda>f. fm_number (h ! f) \<notin> deleted) base"
  by (induction base arbitrary: fs) (simp_all add: MaybeAddFile_def)

fun merge_files :: "(file_ptr \<Rightarrow> file_ptr \<Rightarrow> bool) \<Rightarrow> file_ptr list \<Rightarrow> file_ptr list \<Rightarrow> file_ptr list" where
  "merge_files lt base [] = base"
| "merge_files lt base (a # added) =
     takeWhile (\<lambda>f. \<not> lt a f) base @ a # merge_files lt (dropWhile (\<lambda>f. \<not> lt a f) base) added"

lemma save_level_merge:
  "save_level icmp h deleted base added fs = fs @ filter (\<lambda>f. fm_number (h ! f) \<notin> deleted) (merge_files (BySmallestKey icmp h) base added)"
  by (induction added arbitrary: base fs) (simp_all add: fold_Maybe MaybeAddFile_def)

lemma set_merge_files [simp]: "set (merge_files lt base added) = set base \<union> set added"
proof (induction added arbitrary: base)
  case (Cons a added)
  have "set base = set (takeWhile (\<lambda>f. \<not> lt a f) base) \<union> set (dropWhile (\<lambda>f. \<not> lt a f) base)"
    by (metis set_append takeWhile_dropWhile_id)
  then show ?case using Cons by auto
qed simp

text \<open>A strict order on the elements of a set.\<close>

definition strict_on :: "'a set \<Rightarrow> ('a \<Rightarrow> 'a \<Rightarrow> bool) \<Rightarrow> bool" where
  "strict_on A lt \<longleftrightarrow> (\<forall>x \<in> A. \<not> lt x x) \<and> (\<forall>x \<in> A. \<forall>y \<in> A. x \<noteq> y \<longrightarrow> lt x y \<or> lt y x) \<and>
     (\<forall>x \<in> A. \<forall>y \<in> A. \<forall>z \<in> A. lt x y \<longrightarrow> lt y z \<longrightarrow> lt x z)"

lemma strict_on_subset: "strict_on A lt \<Longrightarrow> B \<subseteq> A \<Longrightarrow> strict_on B lt"
  unfolding strict_on_def by blast

lemma sorted_unique:
  assumes "strict_on A lt" "sorted_wrt lt xs" "sorted_wrt lt ys" "set xs = set ys" "set xs \<subseteq> A"
  shows "xs = ys"
  using assms(2-5)
proof (induction xs arbitrary: ys)
  case (Cons x xs)
  then obtain y ys' where ys: "ys = y # ys'" by (cases ys) auto
  have irr: "\<not> lt z z" if "z \<in> A" for z using assms(1) that by (auto simp: strict_on_def)
  have asym: "\<not> (lt a b \<and> lt b a)" if "a \<in> A" "b \<in> A" for a b
    using assms(1) irr that unfolding strict_on_def by blast
  have A: "x \<in> A" "y \<in> A" using Cons.prems(3,4) ys by auto
  have "x = y"
  proof (rule ccontr)
    assume "x \<noteq> y"
    then have "x \<in> set ys'" "y \<in> set xs" using Cons.prems(3) ys by auto
    then have "lt y x" "lt x y" using Cons.prems(1,2) ys by auto
    then show False using asym A by blast
  qed
  moreover have "x \<notin> set xs" "y \<notin> set ys'" using Cons.prems(1,2) ys irr A by auto
  ultimately have "set xs = set ys'" using Cons.prems(3) ys by auto
  then show ?case using Cons ys \<open>x = y\<close> by simp
qed simp

lemma sorted_merge:
  assumes "strict_on A lt" "sorted_wrt lt base" "sorted_wrt lt added" "set base \<inter> set added = {}" "set base \<union> set added \<subseteq> A"
  shows "sorted_wrt lt (merge_files lt base added)"
  using assms(2-5)
proof (induction added arbitrary: base)
  case (Cons a added)
  let ?t = "takeWhile (\<lambda>f. \<not> lt a f) base" and ?d = "dropWhile (\<lambda>f. \<not> lt a f) base"
  have td: "base = ?t @ ?d" by simp
  have sets: "set ?t \<subseteq> set base" "set ?d \<subseteq> set base" by (auto dest: set_takeWhileD set_dropWhileD)
  have sorted: "sorted_wrt lt ?t" "sorted_wrt lt ?d" "\<forall>x \<in> set ?t. \<forall>y \<in> set ?d. lt x y"
    using Cons.prems(1) td by (metis sorted_wrt_append)+
  have trans: "lt x z" if "lt x y" "lt y z" "x \<in> A" "y \<in> A" "z \<in> A" for x y z
    using assms(1) that unfolding strict_on_def by blast
  have ta: "lt t a" if "t \<in> set ?t" for t
  proof -
    have "\<not> lt a t" "t \<in> set base" using that by (auto dest: set_takeWhileD)
    moreover from this have "t \<noteq> a" "t \<in> A" "a \<in> A" using Cons.prems(3,4) by auto
    ultimately show ?thesis using assms(1) unfolding strict_on_def by blast
  qed
  have ad: "lt a d" if "d \<in> set ?d" for d
  proof (cases ?d)
    case Nil
    then show ?thesis using that by (simp only: list.set empty_iff)
  next
    case (Cons d0 ds)
    then have "lt a d0" using hd_dropWhile [of "\<lambda>f. \<not> lt a f" base] by simp
    moreover have "d = d0 \<or> lt d0 d" using that sorted(2) Cons by auto
    ultimately show ?thesis using trans [of a d0 d] that sets Cons.prems(4) Cons by auto
  qed
  have ab: "\<forall>b \<in> set added. lt a b" "sorted_wrt lt added" using Cons.prems(2) by auto
  have rest: "sorted_wrt lt (merge_files lt ?d added)"
  proof (rule Cons.IH [OF sorted(2)])
    show "sorted_wrt lt added" "set ?d \<inter> set added = {}" "set ?d \<union> set added \<subseteq> A" using Cons.prems sets by auto
  qed
  have tb: "lt t b" if "t \<in> set ?t" "b \<in> set added" for t b
  proof -
    have "t \<in> A" "a \<in> A" "b \<in> A" using that Cons.prems(4) sets by auto
    moreover have "lt t a" "lt a b" using ta [OF that(1)] ab(1) that(2) by simp_all
    ultimately show ?thesis by (rule trans [rotated 2])
  qed
  have "lt x y" if x: "x \<in> set ?t" and y: "y \<in> insert a (set ?d \<union> set added)" for x y
  proof -
    consider "y = a" | "y \<in> set ?d" | "y \<in> set added" using y by blast
    then show ?thesis by cases (use ta [OF x] sorted(3) x tb [OF x] in simp_all)
  qed
  then have "\<forall>x \<in> set ?t. \<forall>y \<in> insert a (set ?d \<union> set added). lt x y" by simp
  moreover have "\<forall>y \<in> set ?d \<union> set added. lt a y"
    unfolding ball_Un by (intro conjI ballI ad ab(1) [rule_format])
  ultimately show ?case
    unfolding merge_files.simps sorted_wrt_append sorted_wrt.simps set_merge_files list.set
    using sorted(1) rest by (intro conjI)
qed simp

lemma FileSet_insert_sorted:
  assumes "strict_on A lt" "sorted_wrt lt gs" "f \<in> A" "set gs \<subseteq> A" "f \<notin> set gs"
  shows "sorted_wrt lt (FileSet_insert lt f gs) \<and> set (FileSet_insert lt f gs) = insert f (set gs)"
  using assms(2,4,5)
proof (induction gs)
  case (Cons g gs)
  have trans: "lt x z" if "lt x y" "lt y z" "x \<in> A" "y \<in> A" "z \<in> A" for x y z
    using assms(1) that unfolding strict_on_def by blast
  have A: "g \<in> A" "set gs \<subseteq> A" "\<forall>b \<in> set gs. lt g b" "sorted_wrt lt gs" "f \<noteq> g" "f \<notin> set gs" using Cons.prems by auto
  show ?case
  proof (cases "lt f g")
    case True
    then have "\<forall>b \<in> set gs. lt f b" using trans [OF True] A assms(3) by blast
    then show ?thesis using True A by simp
  next
    case False
    then have "lt g f" using assms(1,3) A unfolding strict_on_def by blast
    then show ?thesis using False Cons.IH A by auto
  qed
qed simp

section \<open>What a level has\<close>

text \<open>The numbers that an edit deletes, and the tables that it adds, at a level.\<close>

definition edit_deletes :: "VersionEdit \<Rightarrow> nat \<Rightarrow> u64 set" where
  "edit_deletes e l = {n. \<exists>k. (k, n) \<in> deleted_files e \<and> nat k = l}"

definition edit_numbers :: "(int \<times> FileMetaData) list \<Rightarrow> nat \<Rightarrow> u64 list" where
  "edit_numbers nfs l = map (\<lambda>nf. fm_number (snd nf)) (filter (\<lambda>nf. nat (fst nf) = l) nfs)"

text \<open>Edits that the database writes: a number is not used twice at a level.\<close>

definition adds_legal :: "(nat \<Rightarrow> u64 set) \<Rightarrow> (int \<times> FileMetaData) list \<Rightarrow> bool" where
  "adds_legal used nfs \<longleftrightarrow> (\<forall>nf \<in> set nfs. nat (fst nf) < kNumLevels \<and> 8 \<le> length (fm_smallest (snd nf))) \<and>
     (\<forall>l. distinct (edit_numbers nfs l) \<and> set (edit_numbers nfs l) \<inter> used l = {})"

definition edit_legal :: "(nat \<Rightarrow> u64 set) \<Rightarrow> VersionEdit \<Rightarrow> bool" where
  "edit_legal used e \<longleftrightarrow> finite (deleted_files e) \<and> (\<forall>d \<in> deleted_files e. nat (fst d) < kNumLevels) \<and> adds_legal used (new_files e)"

definition use_numbers :: "(nat \<Rightarrow> u64 set) \<Rightarrow> (int \<times> FileMetaData) list \<Rightarrow> nat \<Rightarrow> u64 set" where
  "use_numbers used nfs l = used l \<union> set (edit_numbers nfs l)"

fun edits_legal :: "(nat \<Rightarrow> u64 set) \<Rightarrow> VersionEdit list \<Rightarrow> bool" where
  "edits_legal used [] = True"
| "edits_legal used (e # es) \<longleftrightarrow> edit_legal used e \<and> edits_legal (use_numbers used (new_files e)) es"

text \<open>The invariant of a level of the builder, whose base has the tables \<open>base\<close>.\<close>

abbreviation user_order :: "files \<Rightarrow> file_ptr \<Rightarrow> file_ptr \<Rightarrow> bool" where
  "user_order \<equiv> BySmallestKey (InternalKeyComparator BytewiseComparator)"

definition merge_ok :: "u64 set \<Rightarrow> files \<Rightarrow> file_ptr list \<Rightarrow> file_ptr list \<Rightarrow> bool" where
  "merge_ok used h base added \<longleftrightarrow>
     (\<forall>p \<in> set base \<union> set added. p < length h \<and> 8 \<le> length (fm_smallest (h ! p)) \<and> fm_number (h ! p) \<in> used) \<and>
     inj_on (\<lambda>p. fm_number (h ! p)) (set base \<union> set added) \<and>
     sorted_wrt (user_order h) base \<and> sorted_wrt (user_order h) added \<and> set base \<inter> set added = {}"

definition builder_ok :: "(nat \<Rightarrow> u64 set) \<Rightarrow> files \<Rightarrow> Builder \<Rightarrow> bool" where
  "builder_ok used h b \<longleftrightarrow> length (b_levels b) = kNumLevels \<and> length (v_files (b_base b)) = kNumLevels \<and>
     (\<forall>l < kNumLevels. merge_ok (used l) h (v_files (b_base b) ! l) (ls_added (b_levels b ! l)))"

lemma strict_user_order:
  assumes "\<forall>p \<in> A. 8 \<le> length (fm_smallest (h ! p))" "inj_on (\<lambda>p. fm_number (h ! p)) A"
  shows "strict_on A (user_order h)"
proof -
  let ?c = "Compare (InternalKeyComparator BytewiseComparator)" and ?s = "\<lambda>p. fm_smallest (h ! p)"
  have eq: "?c (?s x) (?s y) = 0 \<longleftrightarrow> ?s x = ?s y" and flip: "?c (?s x) (?s y) < 0 \<longleftrightarrow> 0 < ?c (?s y) (?s x)"
    if "x \<in> A" "y \<in> A" for x y
    using internal.compare_eq_0 internal.compare_flip assms(1) that by simp_all
  have tr: "?c (?s x) (?s y) < 0 \<Longrightarrow> ?c (?s y) (?s z) < 0 \<Longrightarrow> ?c (?s x) (?s z) < 0" if "x \<in> A" "y \<in> A" "z \<in> A" for x y z
    using internal.compare_trans assms(1) that by blast
  have order: "user_order h x y \<longleftrightarrow> ?c (?s x) (?s y) < 0 \<or> ?s x = ?s y \<and> fm_number (h ! x) < fm_number (h ! y)"
    if "x \<in> A" "y \<in> A" for x y
    using eq [OF that] by (auto simp: BySmallestKey_def Let_def)
  have irr: "\<not> ?c (?s x) (?s x) < 0" if "x \<in> A" for x using flip [OF that that] by linarith
  show ?thesis unfolding strict_on_def
  proof (intro conjI ballI impI)
    fix x assume "x \<in> A" then show "\<not> user_order h x x" using order irr by simp
  next
    fix x y assume xy: "x \<in> A" "y \<in> A" "x \<noteq> y"
    then have "fm_number (h ! x) \<noteq> fm_number (h ! y)" using assms(2) by (auto simp: inj_on_def)
    then show "user_order h x y \<or> user_order h y x"
      using order [OF xy(1,2)] order [OF xy(2,1)] eq [OF xy(1,2)] flip [OF xy(1,2)] flip [OF xy(2,1)] by auto
  next
    fix x y z assume A: "x \<in> A" "y \<in> A" "z \<in> A" and "user_order h x y" "user_order h y z"
    then have "?c (?s x) (?s y) < 0 \<or> ?s x = ?s y \<and> fm_number (h ! x) < fm_number (h ! y)"
      "?c (?s y) (?s z) < 0 \<or> ?s y = ?s z \<and> fm_number (h ! y) < fm_number (h ! z)" using order by blast+
    then have "?c (?s x) (?s z) < 0 \<or> ?s x = ?s z \<and> fm_number (h ! x) < fm_number (h ! z)"
      using tr [OF A] by (elim disjE conjE) (simp_all add: less_trans [of "fm_number (h ! x)"])
    then show "user_order h x z" using order [OF A(1,3)] by blast
  qed
qed

lemma user_order_append: "x < length h \<Longrightarrow> y < length h \<Longrightarrow> user_order (h @ fs) x y = user_order h x y"
  by (simp add: BySmallestKey_def nth_append)

lemma sorted_append_heap:
  "\<forall>p \<in> set ps. p < length h \<Longrightarrow> sorted_wrt (user_order h) ps \<Longrightarrow> sorted_wrt (user_order (h @ fs)) ps"
  by (rule sorted_wrt_mono_rel [where P = "user_order h"]) (simp_all add: user_order_append)

lemma merge_ok_append: "merge_ok used h base added \<Longrightarrow> merge_ok used (h @ fs) base added"
  using sorted_append_heap [of base h fs] sorted_append_heap [of added h fs]
  by (auto simp: merge_ok_def nth_append inj_on_def trans_less_add1)

lemma merge_ok_mono: "merge_ok used h base added \<Longrightarrow> used \<subseteq> used' \<Longrightarrow> merge_ok used' h base added"
  unfolding merge_ok_def by blast

text \<open>Adding a table.\<close>

lemma merge_ok_insert:
  assumes ok: "merge_ok used h base added" and f: "8 \<le> length (fm_smallest f)" "fm_number f \<notin> used"
  shows "merge_ok (insert (fm_number f) used) (h @ [f]) base (FileSet_insert (user_order (h @ [f])) (length h) added)"
    "set (FileSet_insert (user_order (h @ [f])) (length h) added) = insert (length h) (set added)"
proof -
  let ?h = "h @ [f]"
  have ok': "merge_ok used ?h base added" by (rule merge_ok_append [OF ok])
  have range: "\<forall>p \<in> set base \<union> set added. p < length h \<and> 8 \<le> length (fm_smallest (?h ! p)) \<and> fm_number (?h ! p) \<in> used"
    using ok ok' by (simp add: merge_ok_def)
  let ?A = "insert (length h) (set base \<union> set added)"
  have keys: "\<forall>p \<in> ?A. 8 \<le> length (fm_smallest (?h ! p))" using range f(1) by simp
  have inj: "inj_on (\<lambda>p. fm_number (?h ! p)) ?A"
    using ok' range f(2) by (force simp: merge_ok_def inj_on_def)
  have sorted: "sorted_wrt (user_order ?h) (FileSet_insert (user_order ?h) (length h) added) \<and>
      set (FileSet_insert (user_order ?h) (length h) added) = insert (length h) (set added)"
    using FileSet_insert_sorted [OF strict_user_order [OF keys inj], of added "length h"] ok' range by (auto simp: merge_ok_def)
  then show "set (FileSet_insert (user_order ?h) (length h) added) = insert (length h) (set added)" by blast
  show "merge_ok (insert (fm_number f) used) ?h base (FileSet_insert (user_order ?h) (length h) added)"
    unfolding merge_ok_def using sorted inj keys range ok' by (auto simp: merge_ok_def)
qed

section \<open>Applying an edit\<close>

fun new_ptrs :: "nat \<Rightarrow> (int \<times> FileMetaData) list \<Rightarrow> nat \<Rightarrow> file_ptr set" where
  "new_ptrs n [] l = {}"
| "new_ptrs n (nf # nfs) l = (if nat (fst nf) = l then {n} else {}) \<union> new_ptrs (Suc n) nfs l"

definition stored :: "int \<times> FileMetaData \<Rightarrow> FileMetaData" where
  "stored nf = (snd nf)\<lparr>fm_refs := 1, fm_allowed_seeks := initial_seeks (fm_file_size (snd nf))\<rparr>"

lemma stored_simps [simp]:
  "fm_number (stored nf) = fm_number (snd nf)" "fm_file_size (stored nf) = fm_file_size (snd nf)"
  "fm_smallest (stored nf) = fm_smallest (snd nf)" "fm_largest (stored nf) = fm_largest (snd nf)"
  by (simp_all add: stored_def)

lemma edit_numbers_Nil [simp]: "edit_numbers [] l = []"
  by (simp add: edit_numbers_def)

lemma edit_numbers_Cons: "edit_numbers (nf # nfs) l = (if nat (fst nf) = l then [fm_number (snd nf)] else []) @ edit_numbers nfs l"
  by (simp add: edit_numbers_def)

lemma adds_legal_Cons:
  assumes "adds_legal used (nf # nfs)"
  shows "nat (fst nf) < kNumLevels" "8 \<le> length (fm_smallest (snd nf))" "fm_number (snd nf) \<notin> used (nat (fst nf))"
    "adds_legal (use_numbers used [nf]) nfs"
proof -
  show "nat (fst nf) < kNumLevels" "8 \<le> length (fm_smallest (snd nf))" using assms by (auto simp: adds_legal_def)
  have num: "distinct (edit_numbers (nf # nfs) l)" "set (edit_numbers (nf # nfs) l) \<inter> used l = {}" for l
    using assms by (auto simp: adds_legal_def)
  show "fm_number (snd nf) \<notin> used (nat (fst nf))" using num(2) [of "nat (fst nf)"] by (simp add: edit_numbers_Cons)
  have "distinct (edit_numbers nfs l) \<and> set (edit_numbers nfs l) \<inter> use_numbers used [nf] l = {}" for l
    using num(1) [of l] num(2) [of l] by (auto simp: edit_numbers_Cons use_numbers_def)
  then show "adds_legal (use_numbers used [nf]) nfs" using assms by (simp add: adds_legal_def)
qed

lemma use_numbers_Cons: "use_numbers (use_numbers used [nf]) nfs = use_numbers used (nf # nfs)"
  by (rule ext) (auto simp: use_numbers_def edit_numbers_Cons)

abbreviation ikc :: comparator_class where "ikc \<equiv> InternalKeyComparator BytewiseComparator"

lemma add_files:
  assumes "adds_legal used nfs" "length ls = kNumLevels" "\<forall>l < kNumLevels. merge_ok (used l) h (base l) (ls_added (ls ! l))"
  shows "\<exists>ls'. fold (add_file ikc) nfs (h, ls) = (h @ map stored nfs, ls') \<and> length ls' = kNumLevels \<and>
     (\<forall>l < kNumLevels. merge_ok (use_numbers used nfs l) (h @ map stored nfs) (base l) (ls_added (ls' ! l)) \<and>
        set (ls_added (ls' ! l)) = set (ls_added (ls ! l)) \<union> new_ptrs (length h) nfs l \<and>
        ls_deleted (ls' ! l) = ls_deleted (ls ! l) - set (edit_numbers nfs l))"
  using assms
proof (induction nfs arbitrary: used h ls)
  case Nil
  then show ?case by (simp add: use_numbers_def edit_numbers_Cons)
next
  case (Cons nf nfs)
  note legal = adds_legal_Cons [OF Cons.prems(1)]
  let ?l = "nat (fst nf)" and ?h = "h @ [stored nf]"
  let ?ls = "ls[?l := (ls ! ?l)\<lparr>ls_deleted := ls_deleted (ls ! ?l) - {fm_number (snd nf)},
      ls_added := FileSet_insert (user_order ?h) (length h) (ls_added (ls ! ?l))\<rparr>]"
  have step: "add_file ikc nf (h, ls) = (?h, ?ls)" by (simp add: add_file_def stored_def Let_def)
  have len: "length ?ls = kNumLevels" using Cons.prems(2) by simp
  have ins: "merge_ok (insert (fm_number (snd nf)) (used ?l)) ?h (base ?l) (FileSet_insert (user_order ?h) (length h) (ls_added (ls ! ?l)))"
    "set (FileSet_insert (user_order ?h) (length h) (ls_added (ls ! ?l))) = insert (length h) (set (ls_added (ls ! ?l)))"
    using merge_ok_insert [of "used ?l" h "base ?l" "ls_added (ls ! ?l)" "stored nf"] Cons.prems(3) legal by simp_all
  have ok: "\<forall>l < kNumLevels. merge_ok (use_numbers used [nf] l) ?h (base l) (ls_added (?ls ! l))"
  proof (intro allI impI)
    fix l assume l: "l < kNumLevels"
    show "merge_ok (use_numbers used [nf] l) ?h (base l) (ls_added (?ls ! l))"
    proof (cases "l = ?l")
      case True
      then show ?thesis using ins(1) l Cons.prems(2) by (simp add: use_numbers_def edit_numbers_Cons)
    next
      case False
      then show ?thesis using merge_ok_append Cons.prems(3) l by (simp add: use_numbers_def edit_numbers_Cons)
    qed
  qed
  obtain ls' where ls': "fold (add_file ikc) nfs (?h, ?ls) = (?h @ map stored nfs, ls')" "length ls' = kNumLevels"
      "\<forall>l < kNumLevels. merge_ok (use_numbers (use_numbers used [nf]) nfs l) (?h @ map stored nfs) (base l) (ls_added (ls' ! l)) \<and>
        set (ls_added (ls' ! l)) = set (ls_added (?ls ! l)) \<union> new_ptrs (length ?h) nfs l \<and>
        ls_deleted (ls' ! l) = ls_deleted (?ls ! l) - set (edit_numbers nfs l)"
    using Cons.IH [OF legal(4) len ok] by blast
  have added: "set (ls_added (?ls ! l)) = set (ls_added (ls ! l)) \<union> (if ?l = l then {length h} else {})"
    "ls_deleted (?ls ! l) = ls_deleted (ls ! l) - (if ?l = l then {fm_number (snd nf)} else {})" if "l < kNumLevels" for l
    using ins(2) that Cons.prems(2) by (auto simp: nth_list_update)
  show ?case
  proof (intro exI conjI allI impI)
    show "fold (add_file ikc) (nf # nfs) (h, ls) = (h @ map stored (nf # nfs), ls')" using ls'(1) step by simp
    show "length ls' = kNumLevels" by (rule ls'(2))
    fix l assume l: "l < kNumLevels"
    show "merge_ok (use_numbers used (nf # nfs) l) (h @ map stored (nf # nfs)) (base l) (ls_added (ls' ! l))"
      using ls'(3) l by (simp add: use_numbers_Cons)
    show "set (ls_added (ls' ! l)) = set (ls_added (ls ! l)) \<union> new_ptrs (length h) (nf # nfs) l"
      using ls'(3) [rule_format, OF l] added(1) [OF l] by (simp only: new_ptrs.simps length_append_singleton Un_assoc)
    show "ls_deleted (ls' ! l) = ls_deleted (ls ! l) - set (edit_numbers (nf # nfs) l)"
      using ls'(3) [rule_format, OF l] added(2) [OF l] by (auto simp: edit_numbers_Cons)
  qed
qed

lemma delete_files:
  assumes "\<forall>d \<in> set ds. nat (fst d) < length ls"
  shows "length (fold delete_file ds ls) = length ls \<and> (\<forall>l < length ls.
     ls_added (fold delete_file ds ls ! l) = ls_added (ls ! l) \<and>
     ls_deleted (fold delete_file ds ls ! l) = ls_deleted (ls ! l) \<union> {n. \<exists>k. (k, n) \<in> set ds \<and> nat k = l})"
  using assms
proof (induction ds arbitrary: ls)
  case (Cons d ds)
  let ?ls = "delete_file d ls"
  have one: "length ?ls = length ls" "l < length ls \<Longrightarrow> ls_added (?ls ! l) = ls_added (ls ! l)"
    "l < length ls \<Longrightarrow> ls_deleted (?ls ! l) = ls_deleted (ls ! l) \<union> {n. nat (fst d) = l \<and> n = snd d}" for l
    using Cons.prems by (auto simp: delete_file_def Let_def nth_list_update)
  have IH: "length (fold delete_file ds ?ls) = length ?ls" "\<forall>l < length ?ls.
     ls_added (fold delete_file ds ?ls ! l) = ls_added (?ls ! l) \<and>
     ls_deleted (fold delete_file ds ?ls ! l) = ls_deleted (?ls ! l) \<union> {n. \<exists>k. (k, n) \<in> set ds \<and> nat k = l}"
    using Cons.IH [of ?ls] Cons.prems one(1) by auto
  show ?case using IH one by (cases d) auto
qed simp

lemma Builder_Apply_effect:
  assumes ok: "builder_ok used h b" and e: "edit_legal used e"
  obtains b' c' where "Builder_Apply ikc e (h, c, b) = (h @ map stored (new_files e), c', b')"
    "c' = fold (\<lambda>(l, key) ps. ps[nat l := key]) (compact_pointers e) c" "b_base b' = b_base b"
    "builder_ok (use_numbers used (new_files e)) (h @ map stored (new_files e)) b'"
    "\<And>l. l < kNumLevels \<Longrightarrow> set (ls_added (b_levels b' ! l)) = set (ls_added (b_levels b ! l)) \<union> new_ptrs (length h) (new_files e) l"
    "\<And>l. l < kNumLevels \<Longrightarrow> ls_deleted (b_levels b' ! l) =
        ls_deleted (b_levels b ! l) \<union> edit_deletes e l - set (edit_numbers (new_files e) l)"
proof -
  let ?ls = "fold delete_file (sorted_list_of_set (deleted_files e)) (b_levels b)"
  have fin: "finite (deleted_files e)" using e by (simp add: edit_legal_def)
  have len: "length (b_levels b) = kNumLevels" using ok by (simp add: builder_ok_def)
  have del: "length ?ls = kNumLevels" "l < kNumLevels \<Longrightarrow> ls_added (?ls ! l) = ls_added (b_levels b ! l)"
    "l < kNumLevels \<Longrightarrow> ls_deleted (?ls ! l) = ls_deleted (b_levels b ! l) \<union> edit_deletes e l" for l
    using delete_files [of "sorted_list_of_set (deleted_files e)" "b_levels b"] e fin len
    by (simp_all add: edit_legal_def edit_deletes_def)
  have "\<forall>l < kNumLevels. merge_ok (used l) h (v_files (b_base b) ! l) (ls_added (?ls ! l))"
    using ok del(2) by (simp add: builder_ok_def)
  then obtain ls' where ls': "fold (add_file ikc) (new_files e) (h, ?ls) = (h @ map stored (new_files e), ls')" "length ls' = kNumLevels"
      "\<forall>l < kNumLevels. merge_ok (use_numbers used (new_files e) l) (h @ map stored (new_files e)) (v_files (b_base b) ! l) (ls_added (ls' ! l)) \<and>
        set (ls_added (ls' ! l)) = set (ls_added (?ls ! l)) \<union> new_ptrs (length h) (new_files e) l \<and>
        ls_deleted (ls' ! l) = ls_deleted (?ls ! l) - set (edit_numbers (new_files e) l)"
    using add_files [of used "new_files e" ?ls h "\<lambda>l. v_files (b_base b) ! l"] e del(1) by (auto simp: edit_legal_def)
  show thesis
  proof (rule that [of _ "b\<lparr>b_levels := ls'\<rparr>"])
    show "Builder_Apply ikc e (h, c, b) = (h @ map stored (new_files e), fold (\<lambda>(l, key) ps. ps[nat l := key]) (compact_pointers e) c, b\<lparr>b_levels := ls'\<rparr>)"
      using ls'(1) by (simp add: Builder_Apply_def Let_def)
    show "builder_ok (use_numbers used (new_files e)) (h @ map stored (new_files e)) (b\<lparr>b_levels := ls'\<rparr>)"
      using ls'(2,3) ok by (simp add: builder_ok_def)
  qed (use ls'(3) del(2,3) in auto)
qed

section \<open>Saving\<close>

definition saved :: "files \<Rightarrow> Builder \<Rightarrow> Version" where
  "saved h b = Builder_SaveTo ikc h b Version_new"

lemma saved_files:
  "length (v_files (saved h b)) = kNumLevels"
  "l < kNumLevels \<Longrightarrow> v_files (saved h b) ! l =
     filter (\<lambda>f. fm_number (h ! f) \<notin> ls_deleted (b_levels b ! l))
       (merge_files (user_order h) (v_files (b_base b) ! l) (ls_added (b_levels b ! l)))"
  by (simp_all add: saved_def Builder_SaveTo_def Version_new_def Let_def save_level_merge)

lemma saved_level:
  assumes "builder_ok used h b" "l < kNumLevels"
  shows "sorted_wrt (user_order h) (v_files (saved h b) ! l)"
    "set (v_files (saved h b) ! l) = {p \<in> set (v_files (b_base b) ! l) \<union> set (ls_added (b_levels b ! l)).
       fm_number (h ! p) \<notin> ls_deleted (b_levels b ! l)}"
proof -
  let ?B = "v_files (b_base b) ! l" and ?A = "ls_added (b_levels b ! l)"
  have ok: "merge_ok (used l) h ?B ?A" using assms by (simp add: builder_ok_def)
  have "strict_on (set ?B \<union> set ?A) (user_order h)"
    using strict_user_order [of "set ?B \<union> set ?A" h] ok by (auto simp: merge_ok_def)
  then have "sorted_wrt (user_order h) (merge_files (user_order h) ?B ?A)"
    using sorted_merge ok by (simp add: merge_ok_def)
  then show "sorted_wrt (user_order h) (v_files (saved h b) ! l)" by (simp add: saved_files assms(2) sorted_wrt_filter)
  show "set (v_files (saved h b) ! l) = {p \<in> set ?B \<union> set ?A. fm_number (h ! p) \<notin> ls_deleted (b_levels b ! l)}"
    by (auto simp: saved_files assms(2))
qed

lemma builder_new_ok:
  assumes "builder_ok used h b"
  shows "builder_ok used h (Builder_new (saved h b))"
proof -
  have "merge_ok (used l) h (v_files (saved h b) ! l) []" if "l < kNumLevels" for l
  proof -
    let ?B = "v_files (b_base b) ! l" and ?A = "ls_added (b_levels b ! l)"
    have ok: "merge_ok (used l) h ?B ?A" using assms that by (simp add: builder_ok_def)
    have "set (v_files (saved h b) ! l) \<subseteq> set ?B \<union> set ?A" using saved_level(2) [OF assms that] by blast
    then show ?thesis using ok saved_level(1) [OF assms that] inj_on_subset [of _ "set ?B \<union> set ?A" "set (v_files (saved h b) ! l)"]
      by (auto simp: merge_ok_def)
  qed
  then show ?thesis by (simp add: builder_ok_def Builder_new_def saved_files)
qed

lemma new_ptrs_numbers: "p \<in> new_ptrs n nfs l \<Longrightarrow> n = length h \<Longrightarrow> fm_number ((h @ map stored nfs) ! p) \<in> set (edit_numbers nfs l) \<and> length h \<le> p"
proof (induction nfs arbitrary: n h)
  case (Cons nf nfs)
  show ?case
  proof (cases "p \<in> new_ptrs (Suc n) nfs l")
    case True
    then show ?thesis using Cons.IH [of "Suc n" "h @ [stored nf]"] Cons.prems(2) by (auto simp: edit_numbers_Cons)
  next
    case False
    then show ?thesis using Cons.prems by (auto simp: edit_numbers_Cons nth_append split: if_splits)
  qed
qed simp

text \<open>Applying an edit to a builder, or to a new one that starts with what the first one saves, is the same.\<close>

lemma Apply_saved:
  assumes ok: "builder_ok used h b" and e: "edit_legal used e"
  shows "\<exists>h' c' b1 b2. Builder_Apply ikc e (h, c, b) = (h', c', b1) \<and> Builder_Apply ikc e (h, c, Builder_new (saved h b)) = (h', c', b2) \<and>
     saved h' b1 = saved h' b2 \<and> builder_ok (use_numbers used (new_files e)) h' b1 \<and> b_base b1 = b_base b"
proof -
  let ?h = "h @ map stored (new_files e)" and ?u = "use_numbers used (new_files e)"
  obtain b1 c1 where b1: "Builder_Apply ikc e (h, c, b) = (?h, c1, b1)"
      "c1 = fold (\<lambda>(l, key) ps. ps[nat l := key]) (compact_pointers e) c" "b_base b1 = b_base b" "builder_ok ?u ?h b1"
      "\<And>l. l < kNumLevels \<Longrightarrow> set (ls_added (b_levels b1 ! l)) = set (ls_added (b_levels b ! l)) \<union> new_ptrs (length h) (new_files e) l"
      "\<And>l. l < kNumLevels \<Longrightarrow> ls_deleted (b_levels b1 ! l) = ls_deleted (b_levels b ! l) \<union> edit_deletes e l - set (edit_numbers (new_files e) l)"
    by (rule Builder_Apply_effect [OF ok e]) blast
  let ?n = "Builder_new (saved h b)"
  obtain b2 c2 where b2: "Builder_Apply ikc e (h, c, ?n) = (?h, c2, b2)"
      "c2 = fold (\<lambda>(l, key) ps. ps[nat l := key]) (compact_pointers e) c" "b_base b2 = b_base ?n" "builder_ok ?u ?h b2"
      "\<And>l. l < kNumLevels \<Longrightarrow> set (ls_added (b_levels b2 ! l)) = set (ls_added (b_levels ?n ! l)) \<union> new_ptrs (length h) (new_files e) l"
      "\<And>l. l < kNumLevels \<Longrightarrow> ls_deleted (b_levels b2 ! l) = ls_deleted (b_levels ?n ! l) \<union> edit_deletes e l - set (edit_numbers (new_files e) l)"
    by (rule Builder_Apply_effect [OF builder_new_ok [OF ok] e]) blast
  have "v_files (saved ?h b1) ! l = v_files (saved ?h b2) ! l" if l: "l < kNumLevels" for l
  proof -
    let ?B = "v_files (b_base b) ! l" and ?A = "ls_added (b_levels b ! l)" and ?D = "ls_deleted (b_levels b ! l)"
    let ?P = "new_ptrs (length h) (new_files e) l" and ?N = "set (edit_numbers (new_files e) l)"
    have lv: "merge_ok (used l) h ?B ?A" using ok l by (simp add: builder_ok_def)
    have old: "p < length h" "fm_number (?h ! p) = fm_number (h ! p)" "fm_number (h ! p) \<notin> ?N" if "p \<in> set ?B \<union> set ?A" for p
    proof -
      show p: "p < length h" using lv that by (auto simp: merge_ok_def)
      then show "fm_number (?h ! p) = fm_number (h ! p)" by (simp add: nth_append)
      have "fm_number (h ! p) \<in> used l" using lv that by (simp add: merge_ok_def)
      moreover have "?N \<inter> used l = {}" using e by (simp add: edit_legal_def adds_legal_def)
      ultimately show "fm_number (h ! p) \<notin> ?N" by blast
    qed
    have new: "fm_number (?h ! p) \<in> ?N" "length h \<le> p" if "p \<in> ?P" for p using new_ptrs_numbers [OF that refl] by simp_all
    have set1: "set (v_files (saved ?h b1) ! l) = {p \<in> set ?B \<union> (set ?A \<union> ?P). fm_number (?h ! p) \<notin> ?D \<union> edit_deletes e l - ?N}"
      using saved_level(2) [OF b1(4) l] b1(3) b1(5,6) [OF l] by simp
    have set2: "set (v_files (saved ?h b2) ! l) = {p \<in> set (v_files (saved h b) ! l) \<union> ?P. fm_number (?h ! p) \<notin> edit_deletes e l - ?N}"
      using saved_level(2) [OF b2(4) l] b2(3) b2(5,6) [OF l] l by (simp add: Builder_new_def)
    have "set (v_files (saved ?h b1) ! l) = set (v_files (saved ?h b2) ! l)"
      unfolding set1 set2 saved_level(2) [OF ok l] using old new by fastforce
    moreover have "strict_on (set ?B \<union> set (ls_added (b_levels b1 ! l))) (user_order ?h)"
      using strict_user_order [of "set ?B \<union> set (ls_added (b_levels b1 ! l))" ?h] b1(3,4) l by (auto simp: builder_ok_def merge_ok_def)
    moreover have "set (v_files (saved ?h b1) ! l) \<subseteq> set ?B \<union> set (ls_added (b_levels b1 ! l))"
      using saved_level(2) [OF b1(4) l] b1(3) by auto
    ultimately show ?thesis
      using sorted_unique saved_level(1) [OF b1(4) l] saved_level(1) [OF b2(4) l] by blast
  qed
  then have "v_files (saved ?h b1) = v_files (saved ?h b2)" by (intro nth_equalityI) (simp_all add: saved_files)
  then have "saved ?h b1 = saved ?h b2" by (simp add: saved_def Builder_SaveTo_def)
  then show ?thesis using b1 b2 by auto
qed

text \<open>One version after the other.\<close>

fun version_steps :: "VersionEdit list \<Rightarrow> files \<times> slice list \<times> Version \<Rightarrow> files \<times> slice list \<times> Version" where
  "version_steps [] s = s"
| "version_steps (e # es) (h, pointers, v) =
     (case Builder_Apply ikc e (h, pointers, Builder_new v) of (h, pointers, b) \<Rightarrow> version_steps es (h, pointers, saved h b))"

lemma Apply_all:
  assumes "builder_ok used h b" "edits_legal used es"
  shows "(case fold (Builder_Apply ikc) es (h, c, b) of (h, c, b) \<Rightarrow> (h, c, saved h b)) = version_steps es (h, c, saved h b)"
  using assms
proof (induction es arbitrary: used h c b)
  case (Cons e es)
  obtain h' c' b1 b2 where s: "Builder_Apply ikc e (h, c, b) = (h', c', b1)" "Builder_Apply ikc e (h, c, Builder_new (saved h b)) = (h', c', b2)"
     "saved h' b1 = saved h' b2" "builder_ok (use_numbers used (new_files e)) h' b1"
    using Apply_saved [OF Cons.prems(1), of e c] Cons.prems(2) by auto
  show ?case using Cons.IH [OF s(4), of c'] Cons.prems(2) s by simp
qed simp

text \<open>
  C7: collecting edits is as good as building every version. A builder to which a sequence of edits is applied, and saved once,
  gives the version, the table descriptions and the compaction pointers that result when every edit is
  applied to the version that the edits before it gave, for edits that do not use the number of a table twice at a level, from any base
  that a builder has saved.
\<close>

theorem builder_equals_steps:
  assumes "builder_ok used h b" "edits_legal used es"
  shows "(case fold (Builder_Apply ikc) es (h, pointers, Builder_new (saved h b)) of (h, pointers, b) \<Rightarrow> (h, pointers, Builder_SaveTo ikc h b Version_new)) =
     version_steps es (h, pointers, saved h b)"
proof -
  have b: "saved h (Builder_new (saved h b)) = saved h b"
  proof -
    have "v_files (saved h (Builder_new (saved h b))) ! l = v_files (saved h b) ! l" if "l < kNumLevels" for l
      using that by (subst saved_files(2)) (simp_all add: Builder_new_def)
    then have "v_files (saved h (Builder_new (saved h b))) = v_files (saved h b)" by (intro nth_equalityI) (simp_all add: saved_files)
    then show ?thesis by (simp add: saved_def Builder_SaveTo_def)
  qed
  show ?thesis
    using Apply_all [OF builder_new_ok [OF assms(1)] assms(2), of pointers] unfolding b by (simp add: saved_def)
qed

lemma builder_ok_initial: "builder_ok (\<lambda>_. {}) [] (Builder_new Version_new)"
  by (simp add: builder_ok_def Builder_new_def Version_new_def merge_ok_def)

lemma saved_initial: "saved [] (Builder_new Version_new) = Version_new"
proof -
  have "v_files (saved [] (Builder_new Version_new)) ! l = []" if "l < kNumLevels" for l
    using that by (subst saved_files(2)) (simp_all add: Builder_new_def Version_new_def)
  then have "v_files (saved [] (Builder_new Version_new)) = replicate kNumLevels []"
    by (intro nth_equalityI) (simp_all add: saved_files)
  then show ?thesis by (simp add: saved_def Builder_SaveTo_def Version_new_def)
qed

text \<open>A table is written to level 0 and then moved to level 1.\<close>

theorem builder_equals_steps_witness:
  "let k = InternalKey_make [1] 5 kTypeValue;
       es = [AddFile 0 3 100 k k Edit_new, DeleteFile 0 3 (AddFile 1 3 100 k k Edit_new)]
   in (case fold (Builder_Apply ikc) es ([], replicate kNumLevels [], Builder_new Version_new) of
         (h, pointers, b) \<Rightarrow> (h, pointers, Builder_SaveTo ikc h b Version_new)) = version_steps es ([], replicate kNumLevels [], Version_new)"
proof -
  define k where "k = InternalKey_make [1] 5 kTypeValue"
  define es where "es = [AddFile 0 3 100 k k Edit_new, DeleteFile 0 3 (AddFile 1 3 100 k k Edit_new)]"
  have "edits_legal (\<lambda>_. {}) es"
    by (simp add: es_def edit_legal_def adds_legal_def edit_numbers_Cons use_numbers_def AddFile_def DeleteFile_def Edit_new_def
        FileMetaData_new_def k_def kNumLevels_def)
  then show ?thesis
    using builder_equals_steps [OF builder_ok_initial, of es] unfolding saved_initial by (simp only: Let_def k_def es_def)
qed

end
