(* ===== verification/LdbVersionSet.thy ===== *)
theory LdbVersionSet
  imports LdbBuilder LdbLog
begin

text \<open>
  \<^verbatim>\<open>VersionSet\<close> (\<^verbatim>\<open>db/version_set.cc\<close>): the current version, the counters, the manifest to which every change is written, and the
  recovery of all that from a manifest. What calls of the environment give (files created or opened, their sizes, the file \<^verbatim>\<open>CURRENT\<close>) are arguments;
  \<open>dbl\<close> is the rounding of a number to a \<^verbatim>\<open>double\<close>. Reference counts and the list of versions that readers still hold are not
  modelled.
\<close>

section \<open>State\<close>

record 'f VersionSet =
  vs_heap :: files
  vs_next_file_number :: u64
  vs_manifest_file_number :: u64
  vs_last_sequence :: u64
  vs_log_number :: u64
  vs_prev_log_number :: u64
  vs_descriptor :: "'f Writer option"
  vs_current :: Version
  vs_compact_pointer :: "slice list"

definition VersionSet_new :: "'f VersionSet" where
  "VersionSet_new = \<lparr>vs_heap = [], vs_next_file_number = 2, vs_manifest_file_number = 0, vs_last_sequence = 0, vs_log_number = 0,
     vs_prev_log_number = 0, vs_descriptor = None, vs_current = Version_new, vs_compact_pointer = replicate kNumLevels []\<rparr>"

definition AppendVersion :: "Version \<Rightarrow> 'f VersionSet \<Rightarrow> 'f VersionSet" where
  "AppendVersion v vs = vs\<lparr>vs_current := v\<rparr>"

definition MarkFileNumberUsed :: "u64 \<Rightarrow> 'f VersionSet \<Rightarrow> 'f VersionSet" where
  "MarkFileNumberUsed number vs =
     (if vs_next_file_number vs \<le> number then vs\<lparr>vs_next_file_number := number + 1\<rparr> else vs)"

definition VersionSet_SetLastSequence :: "u64 \<Rightarrow> 'f VersionSet \<Rightarrow> 'f VersionSet" where
  "VersionSet_SetLastSequence s vs = vs\<lparr>vs_last_sequence := s\<rparr>"

text \<open>The offset of a key: whole tables before it, and \<open>offset_in\<close> of the table that it lies in, if that opens.\<close>

fun offset_in_level :: "comparator_class \<Rightarrow> (u64 \<Rightarrow> u64 \<Rightarrow> slice \<Rightarrow> u64 option) \<Rightarrow> slice \<Rightarrow> bool \<Rightarrow> FileMetaData list \<Rightarrow> u64 \<Rightarrow> u64" where
  "offset_in_level icmp offset_in ikey level0 [] result = result"
| "offset_in_level icmp offset_in ikey level0 (f # fs) result =
     (if Compare icmp (fm_largest f) ikey \<le> 0 then offset_in_level icmp offset_in ikey level0 fs (result + fm_file_size f)
      else if Compare icmp (fm_smallest f) ikey > 0 then
        (if level0 then offset_in_level icmp offset_in ikey level0 fs result else result)
      else offset_in_level icmp offset_in ikey level0 fs
             (case offset_in (fm_number f) (fm_file_size f) ikey of None \<Rightarrow> result | Some n \<Rightarrow> result + n))"

definition ApproximateOffsetOf :: "comparator_class \<Rightarrow> (u64 \<Rightarrow> u64 \<Rightarrow> slice \<Rightarrow> u64 option) \<Rightarrow> files \<Rightarrow> Version \<Rightarrow> slice \<Rightarrow> u64" where
  "ApproximateOffsetOf icmp offset_in h v ikey =
     fold (\<lambda>lv. offset_in_level icmp offset_in ikey (lv = 0) (level_files h v lv)) [0..<kNumLevels] 0"

definition NumLevelFiles :: "'f VersionSet \<Rightarrow> nat \<Rightarrow> nat" where
  "NumLevelFiles vs lv = length (v_files (vs_current vs) ! lv)"

definition NumLevelBytes :: "'f VersionSet \<Rightarrow> nat \<Rightarrow> int" where
  "NumLevelBytes vs lv = TotalFileSize (level_files (vs_heap vs) (vs_current vs) lv)"

text \<open>The numbers of the tables of some versions.\<close>

definition AddLiveFiles :: "files \<Rightarrow> Version list \<Rightarrow> u64 set \<Rightarrow> u64 set" where
  "AddLiveFiles h vs live =
     fold (\<lambda>v live. fold (\<lambda>lv live. fold (\<lambda>p. insert (fm_number (h ! p))) (v_files v ! lv) live) [0..<kNumLevels] live) vs live"

section \<open>Which level needs a compaction\<close>

definition kL0_CompactionTrigger :: nat where "kL0_CompactionTrigger = 4"

fun max_bytes_loop :: "(rat \<Rightarrow> rat) \<Rightarrow> nat \<Rightarrow> rat \<Rightarrow> rat" where
  "max_bytes_loop dbl 0 r = r"
| "max_bytes_loop dbl (Suc n) r = max_bytes_loop dbl n (dbl (r * 10))"

definition MaxBytesForLevel :: "(rat \<Rightarrow> rat) \<Rightarrow> nat \<Rightarrow> rat" where
  "MaxBytesForLevel dbl lv = max_bytes_loop dbl (lv - 1) (dbl (10 * 1048576))"

definition level_score :: "(rat \<Rightarrow> rat) \<Rightarrow> files \<Rightarrow> Version \<Rightarrow> nat \<Rightarrow> rat" where
  "level_score dbl h v lv =
     (if lv = 0 then dbl (dbl (of_nat (length (v_files v ! lv))) / of_nat kL0_CompactionTrigger)
      else dbl (dbl (of_nat (unat (word_of_int (TotalFileSize (level_files h v lv)) :: u64))) / MaxBytesForLevel dbl lv))"

definition Finalize :: "(rat \<Rightarrow> rat) \<Rightarrow> files \<Rightarrow> Version \<Rightarrow> Version" where
  "Finalize dbl h v =
     (let (best_level, best_score) =
        fold (\<lambda>lv (best_level, best_score). let score = level_score dbl h v lv
                in if score > best_score then (int lv, score) else (best_level, best_score))
          [0..<kNumLevels - 1] (-1, -1)
      in v\<lparr>v_compaction_level := best_level, v_compaction_score := best_score\<rparr>)"

definition NeedsCompaction :: "'f VersionSet \<Rightarrow> bool" where
  "NeedsCompaction vs \<longleftrightarrow> v_compaction_score (vs_current vs) \<ge> 1 \<or> v_file_to_compact (vs_current vs) \<noteq> None"

section \<open>Changing the current version\<close>

text \<open>The edit that describes the whole state.\<close>

definition snapshot_pointers :: "'f VersionSet \<Rightarrow> VersionEdit \<Rightarrow> VersionEdit" where
  "snapshot_pointers vs edit =
     fold (\<lambda>lv edit. if vs_compact_pointer vs ! lv \<noteq> [] then SetCompactPointer (int lv) (vs_compact_pointer vs ! lv) edit else edit)
       [0..<kNumLevels] edit"

definition snapshot_files :: "'f VersionSet \<Rightarrow> VersionEdit \<Rightarrow> VersionEdit" where
  "snapshot_files vs edit =
     fold (\<lambda>lv edit. fold (\<lambda>p. let f = vs_heap vs ! p in AddFile (int lv) (fm_number f) (fm_file_size f) (fm_smallest f) (fm_largest f))
                       (v_files (vs_current vs) ! lv) edit) [0..<kNumLevels] edit"

definition snapshot_edit :: "slice \<Rightarrow> 'f VersionSet \<Rightarrow> VersionEdit" where
  "snapshot_edit cmp_name vs = snapshot_files vs (snapshot_pointers vs (SetComparatorName cmp_name Edit_new))"

definition WriteSnapshot :: "'f WritableFile \<Rightarrow> slice \<Rightarrow> 'f VersionSet \<Rightarrow> 'f Writer \<Rightarrow> Status \<times> 'f Writer" where
  "WriteSnapshot ops cmp_name vs descriptor_log = AddRecord ops descriptor_log (Edit_EncodeTo (snapshot_edit cmp_name vs) [])"

text \<open>What \<^verbatim>\<open>LogAndApply\<close> adds to the edit of the caller, and the version that it builds from it.\<close>

definition complete_edit :: "'f VersionSet \<Rightarrow> VersionEdit \<Rightarrow> VersionEdit" where
  "complete_edit vs edit =
     (let edit = (if has_log_number edit then edit else SetLogNumber (vs_log_number vs) edit);
          edit = (if has_prev_log_number edit then edit else SetPrevLogNumber (vs_prev_log_number vs) edit)
      in SetLastSequence (vs_last_sequence vs) (SetNextFile (vs_next_file_number vs) edit))"

definition next_version :: "(rat \<Rightarrow> rat) \<Rightarrow> comparator_class \<Rightarrow> VersionEdit \<Rightarrow> 'f VersionSet \<Rightarrow> Version \<times> 'f VersionSet" where
  "next_version dbl ucmp edit vs =
     (case Builder_Apply (InternalKeyComparator ucmp) edit (vs_heap vs, vs_compact_pointer vs, Builder_new (vs_current vs)) of
        (h, pointers, b) \<Rightarrow>
          (Finalize dbl h (Builder_SaveTo (InternalKeyComparator ucmp) h b Version_new),
           vs\<lparr>vs_heap := h, vs_compact_pointer := pointers\<rparr>))"

text \<open>
  The manifest: \<open>created\<close> is what \<^verbatim>\<open>NewWritableFile\<close> gives when there is no descriptor yet, \<open>set_current\<close> what \<^verbatim>\<open>SetCurrentFile\<close> then gives. The result
  tells whether a file was to be created.
\<close>

definition log_edit ::
    "'f WritableFile \<Rightarrow> slice \<Rightarrow> Status + 'f \<Rightarrow> Status \<Rightarrow> VersionEdit \<Rightarrow> 'f VersionSet \<Rightarrow> Status \<times> bool \<times> 'f VersionSet" where
  "log_edit ops cmp_name created set_current edit vs =
     (let new_manifest = (vs_descriptor vs = None);
          (s, vs) =
            (case vs_descriptor vs of
               Some w \<Rightarrow> (OK, vs)
             | None \<Rightarrow>
                 (case created of
                    Inl s \<Rightarrow> (s, vs)
                  | Inr f \<Rightarrow> (case WriteSnapshot ops cmp_name vs (Writer_new f) of (s, w) \<Rightarrow> (s, vs\<lparr>vs_descriptor := Some w\<rparr>))));
          (s, vs) =
            (if ok s then
               case vs_descriptor vs of None \<Rightarrow> (s, vs)
               | Some w \<Rightarrow>
                   (case AddRecord ops w (Edit_EncodeTo edit []) of (s, w) \<Rightarrow>
                      if ok s then (case Sync ops (dest w) of (s, f) \<Rightarrow> (s, vs\<lparr>vs_descriptor := Some (w\<lparr>dest := f\<rparr>)\<rparr>))
                      else (s, vs\<lparr>vs_descriptor := Some w\<rparr>))
             else (s, vs));
          s = (if ok s \<and> new_manifest then set_current else s)
      in (s, new_manifest, vs))"

definition LogAndApply ::
    "(rat \<Rightarrow> rat) \<Rightarrow> comparator_class \<Rightarrow> 'f WritableFile \<Rightarrow> slice \<Rightarrow> Status + 'f \<Rightarrow> Status \<Rightarrow> VersionEdit \<Rightarrow> 'f VersionSet \<Rightarrow>
     Status \<times> VersionEdit \<times> 'f VersionSet" where
  "LogAndApply dbl ucmp ops cmp_name created set_current edit vs =
     (let edit = complete_edit vs edit;
          (v, vs) = next_version dbl ucmp edit vs;
          edit = (if vs_descriptor vs = None then SetNextFile (vs_next_file_number vs) edit else edit);
          (s, new_manifest, vs) = log_edit ops cmp_name created set_current edit vs
      in if ok s then
           (s, edit, (AppendVersion v vs)\<lparr>vs_log_number := ve_log_number edit, vs_prev_log_number := ve_prev_log_number edit\<rparr>)
         else (s, edit, if new_manifest then vs\<lparr>vs_descriptor := None\<rparr> else vs))"

section \<open>Recovery\<close>

record 's ManifestRecovery =
  mr_reader :: "'s Reader"
  mr_status :: Status
  mr_heap :: files
  mr_pointers :: "slice list"
  mr_builder :: Builder
  mr_log_number :: "u64 option"
  mr_prev_log_number :: "u64 option"
  mr_next_file :: "u64 option"
  mr_last_sequence :: "u64 option"

text \<open>A number and whether there was one: the two variables of the code as one.\<close>

definition note_number :: "bool \<Rightarrow> u64 \<Rightarrow> u64 option \<Rightarrow> u64 option" where
  "note_number has n old = (if has then Some n else old)"

definition manifest_turn ::
    "comparator_class \<Rightarrow> slice \<Rightarrow> 's SequentialFile \<Rightarrow> (u32 \<Rightarrow> string) \<Rightarrow> 's ManifestRecovery \<Rightarrow>
     's ManifestRecovery option + 's ManifestRecovery" where
  "manifest_turn ucmp cmp_name ops unknown this =
     (case ReadRecord ops unknown [] [] (mr_reader this) of
        None \<Rightarrow> Inl None
      | Some (good, record, scr, rd) \<Rightarrow>
          let reported = drop (length (reports (mr_reader this))) (reports rd);
              this = this\<lparr>mr_reader := rd,
                          mr_status := fold (\<lambda>(n, s) status. if ok status then s else status) reported (mr_status this)\<rparr>
          in if \<not> (good \<and> ok (mr_status this)) then Inl (Some this)
             else
               case Edit_DecodeFrom record Edit_new of (s, edit) \<Rightarrow>
                 let s = (if ok s \<and> has_comparator edit \<and> ve_comparator edit \<noteq> cmp_name
                          then InvalidArgument (ve_comparator edit @ bytes_of '' does not match existing comparator '') cmp_name else s);
                     (h, pointers, b) = (if ok s then Builder_Apply (InternalKeyComparator ucmp) edit (mr_heap this, mr_pointers this, mr_builder this)
                                         else (mr_heap this, mr_pointers this, mr_builder this))
                 in Inr (this\<lparr>mr_status := s, mr_heap := h, mr_pointers := pointers, mr_builder := b,
                       mr_log_number := note_number (has_log_number edit) (ve_log_number edit) (mr_log_number this),
                       mr_prev_log_number := note_number (has_prev_log_number edit) (ve_prev_log_number edit) (mr_prev_log_number this),
                       mr_next_file := note_number (has_next_file_number edit) (ve_next_file_number edit) (mr_next_file this),
                       mr_last_sequence := note_number (has_last_sequence edit) (ve_last_sequence edit) (mr_last_sequence this)\<rparr>))"

text \<open>
  Whether the manifest can be written further: \<open>parsed\<close> is the number of a descriptor file that its name has, \<open>size\<close> what
  \<^verbatim>\<open>GetFileSize\<close> and \<open>appended\<close> what \<^verbatim>\<open>NewAppendableFile\<close> gives.
\<close>

definition ReuseManifest ::
    "bool \<Rightarrow> u64 \<Rightarrow> u64 option \<Rightarrow> u64 option \<Rightarrow> Status + 'f \<Rightarrow> 'f VersionSet \<Rightarrow> bool \<times> 'f VersionSet" where
  "ReuseManifest reuse max_file_size parsed sz appended vs =
     (if \<not> reuse then (False, vs)
      else case (parsed, sz) of
             (Some manifest_number, Some manifest_size) \<Rightarrow>
               if manifest_size \<ge> scast (TargetFileSize max_file_size) then (False, vs)
               else (case appended of
                       Inl r \<Rightarrow> (False, vs)
                     | Inr f \<Rightarrow> (True, vs\<lparr>vs_descriptor := Some (Writer_at f manifest_size), vs_manifest_file_number := manifest_number\<rparr>))
           | _ \<Rightarrow> (False, vs))"

text \<open>
  \<open>current\<close> is what reading \<^verbatim>\<open>CURRENT\<close> gives, \<open>opened\<close> what opening the file with a name gives; the other arguments are as above. The
  first result is \<open>None\<close> only for a log that cannot be read to its end.
\<close>

definition Recover_install ::
    "(rat \<Rightarrow> rat) \<Rightarrow> comparator_class \<Rightarrow> ('f VersionSet \<Rightarrow> bool \<times> 'f VersionSet) \<Rightarrow> 's ManifestRecovery \<Rightarrow> 'f VersionSet \<Rightarrow>
     Status \<times> bool \<times> 'f VersionSet" where
  "Recover_install dbl ucmp reuse_manifest mr vs =
     (let vs = vs\<lparr>vs_heap := mr_heap mr, vs_compact_pointer := mr_pointers mr\<rparr>
      in if \<not> ok (mr_status mr) then (mr_status mr, False, vs)
         else
           let s = (if mr_next_file mr = None then Corruption (bytes_of ''no meta-nextfile entry in descriptor'') []
                    else if mr_log_number mr = None then Corruption (bytes_of ''no meta-lognumber entry in descriptor'') []
                    else if mr_last_sequence mr = None then Corruption (bytes_of ''no last-sequence-number entry in descriptor'') []
                    else mr_status mr);
               num = (\<lambda>x. case x of None \<Rightarrow> 0 | Some n \<Rightarrow> n);
               vs = MarkFileNumberUsed (num (mr_log_number mr)) (MarkFileNumberUsed (num (mr_prev_log_number mr)) vs)
           in if \<not> ok s then (s, False, vs)
              else
                let v = Finalize dbl (mr_heap mr) (Builder_SaveTo (InternalKeyComparator ucmp) (mr_heap mr) (mr_builder mr) Version_new);
                    vs = (AppendVersion v vs)\<lparr>vs_manifest_file_number := num (mr_next_file mr), vs_next_file_number := num (mr_next_file mr) + 1,
                            vs_last_sequence := num (mr_last_sequence mr), vs_log_number := num (mr_log_number mr),
                            vs_prev_log_number := num (mr_prev_log_number mr)\<rparr>;
                    (reused, vs) = reuse_manifest vs
                in (s, \<not> reused, vs))"

definition VersionSet_Recover ::
    "(rat \<Rightarrow> rat) \<Rightarrow> comparator_class \<Rightarrow> slice \<Rightarrow> 's SequentialFile \<Rightarrow> (u32 \<Rightarrow> string) \<Rightarrow> Status + slice \<Rightarrow> (slice \<Rightarrow> Status + 's) \<Rightarrow>
     slice \<Rightarrow> ('f VersionSet \<Rightarrow> bool \<times> 'f VersionSet) \<Rightarrow> 'f VersionSet \<Rightarrow> (Status \<times> bool \<times> 'f VersionSet) option" where
  "VersionSet_Recover dbl ucmp cmp_name ops unknown current_file opened dbname reuse_manifest vs =
     (case current_file of
        Inl s \<Rightarrow> Some (s, False, vs)
      | Inr current \<Rightarrow>
          if current = [] \<or> last current \<noteq> 10 then Some (Corruption (bytes_of ''CURRENT file does not end with newline'') [], False, vs)
          else
            (case opened (dbname @ bytes_of ''/'' @ butlast current) of
               Inl s \<Rightarrow> Some (s, False, vs)
             | Inr f \<Rightarrow>
                 Option.bind (Option.bind
                   (while_true (manifest_turn ucmp cmp_name ops unknown)
                     \<lparr>mr_reader = Reader_new f True True 0, mr_status = OK, mr_heap = vs_heap vs, mr_pointers = vs_compact_pointer vs,
                      mr_builder = Builder_new (vs_current vs), mr_log_number = None, mr_prev_log_number = None, mr_next_file = None,
                      mr_last_sequence = None\<rparr>) id)
                 (\<lambda>mr. Some (Recover_install dbl ucmp reuse_manifest mr vs))))"

end
