(* ===== verification/LdbVersionEditProps.thy ===== *)
theory LdbVersionEditProps
  imports LdbVersionEdit
begin

text \<open>
  A version edit survives its encoding: \<^verbatim>\<open>DecodeFrom\<close> reads back what \<^verbatim>\<open>EncodeTo\<close> wrote, except that it starts from the
  compaction pointers that the decoding edit already has.
\<close>

text \<open>What an edit can hold: levels, strings whose length fits in 32 bits, and no value in a field that is not set.\<close>

abbreviation level_ok :: "int \<Rightarrow> bool" where "level_ok l \<equiv> 0 \<le> l \<and> l < 7"
abbreviation key_ok :: "slice \<Rightarrow> bool" where "key_ok k \<equiv> length k < 2 ^ 32"

definition edit_ok :: "VersionEdit \<Rightarrow> bool" where
  "edit_ok e \<longleftrightarrow> key_ok (ve_comparator e) \<and> (has_comparator e \<or> ve_comparator e = []) \<and>
     (has_log_number e \<or> ve_log_number e = 0) \<and> (has_prev_log_number e \<or> ve_prev_log_number e = 0) \<and>
     (has_next_file_number e \<or> ve_next_file_number e = 0) \<and> (has_last_sequence e \<or> ve_last_sequence e = 0) \<and>
     (\<forall>(l, k) \<in> set (compact_pointers e). level_ok l \<and> key_ok k) \<and>
     finite (deleted_files e) \<and> (\<forall>(l, n) \<in> deleted_files e. level_ok l) \<and>
     (\<forall>(l, f) \<in> set (new_files e). level_ok l \<and> fm_refs f = 0 \<and> fm_allowed_seeks f = 2 ^ 30 \<and>
        key_ok (fm_smallest f) \<and> key_ok (fm_largest f))"

section \<open>Fields\<close>

lemma get_simps [simp]: "get (Some x, i) k = k x i" "get (None, i) k = (None, i)"
  by (simp_all add: get_def)

lemma GetLevel_Put: "level_ok l \<Longrightarrow> GetLevel (PutVarint32 [] (word_of_int l) @ rest) = (Some l, rest)"
proof -
  assume l: "level_ok l"
  then have u: "uint (word_of_int l :: u32) = l" by (simp add: unsigned_of_int take_bit_int_eq_self)
  then have "unat (word_of_int l :: u32) < 7" using l by (simp add: unat_eq_nat_uint nat_less_iff)
  then show ?thesis using u GetVarint32_Encode [of "word_of_int l" rest]
    by (simp add: GetLevel_def PutVarint32_def kNumLevels_def)
qed

lemma GetVarint64_Put: "GetVarint64 (PutVarint64 [] v @ rest) = (Some v, rest)"
  using GetVarint64_Encode [of v rest] by (simp add: PutVarint64_def)

lemma GetInternalKey_Put: "key_ok k \<Longrightarrow> GetInternalKey (PutLengthPrefixedSlice [] k @ rest) = (Some k, rest)"
  by (simp add: GetInternalKey_def GetLengthPrefixedSlice_Put)

lemma decode_tag:
  "edit_loop (PutVarint32 [] tag @ rest) e =
     (case edit_field tag rest e of (Inl msg, input) \<Rightarrow> (Some msg, input, e) | (Inr e, input) \<Rightarrow> edit_loop input e)"
  using GetVarint32_Encode [of tag rest] by (subst edit_loop.simps) (simp add: PutVarint32_def)

lemmas put_simps = Put_append [of "PutVarint32 _ _"] Put_append [of "PutVarint64 _ _"]
  Put_append [of "PutLengthPrefixedSlice _ _"] Put_append [of "_ @ _"]

lemmas decode_simps = decode_tag edit_field_def tag_defs GetLevel_Put GetVarint64_Put GetInternalKey_Put GetLengthPrefixedSlice_Put

lemma decode_end: "edit_loop [] e = (None, [], e)"
  by (subst edit_loop.simps) (simp add: GetVarint32_def GetVarint32Ptr_fallback)

lemma decode_pointer:
  "level_ok l \<Longrightarrow> key_ok k \<Longrightarrow> edit_loop (put_pointer (l, k) [] @ rest) e =
     edit_loop rest (e\<lparr>compact_pointers := compact_pointers e @ [(l, k)]\<rparr>)"
  by (simp add: put_pointer_def put_simps decode_simps)

lemma decode_deleted:
  "level_ok l \<Longrightarrow> edit_loop (put_deleted (l, n) [] @ rest) e =
     edit_loop rest (e\<lparr>deleted_files := insert (l, n) (deleted_files e)\<rparr>)"
  by (simp add: put_deleted_def put_simps decode_simps)

lemma decode_file:
  "level_ok l \<Longrightarrow> key_ok (fm_smallest f) \<Longrightarrow> key_ok (fm_largest f) \<Longrightarrow> fm_refs f = 0 \<Longrightarrow> fm_allowed_seeks f = 2 ^ 30 \<Longrightarrow>
     edit_loop (put_file (l, f) [] @ rest) e = edit_loop rest (e\<lparr>new_files := new_files e @ [(l, f)]\<rparr>)"
  by (cases f) (simp add: put_file_def put_simps Let_def decode_simps FileMetaData_new_def)

lemma decode_number:
  "edit_loop (put_number has kLogNumber v [] @ rest) e =
     edit_loop rest (e\<lparr>ve_log_number := if has then v else ve_log_number e, has_log_number := has \<or> has_log_number e\<rparr>)"
  "edit_loop (put_number has kPrevLogNumber v [] @ rest) e =
     edit_loop rest (e\<lparr>ve_prev_log_number := if has then v else ve_prev_log_number e, has_prev_log_number := has \<or> has_prev_log_number e\<rparr>)"
  "edit_loop (put_number has kNextFileNumber v [] @ rest) e =
     edit_loop rest (e\<lparr>ve_next_file_number := if has then v else ve_next_file_number e, has_next_file_number := has \<or> has_next_file_number e\<rparr>)"
  "edit_loop (put_number has kLastSequence v [] @ rest) e =
     edit_loop rest (e\<lparr>ve_last_sequence := if has then v else ve_last_sequence e, has_last_sequence := has \<or> has_last_sequence e\<rparr>)"
  by (simp_all add: put_number_def put_simps decode_simps)

lemma decode_comparator:
  "key_ok s \<Longrightarrow> edit_loop ((if has then PutLengthPrefixedSlice (PutVarint32 [] kComparator) s else []) @ rest) e =
     edit_loop rest (e\<lparr>ve_comparator := if has then s else ve_comparator e, has_comparator := has \<or> has_comparator e\<rparr>)"
  by (simp add: put_simps decode_simps)

section \<open>Lists of fields\<close>

lemma put_list_append:
  "put_number has tag v dst = dst @ put_number has tag v []" "put_pointer p dst = dst @ put_pointer p []"
  "put_deleted d dst = dst @ put_deleted d []" "put_file nf dst = dst @ put_file nf []"
  by (simp_all add: put_number_def put_pointer_def put_deleted_def put_file_def Let_def PutVarint32_def PutVarint64_def
      PutLengthPrefixedSlice_def)

lemma fold_put:
  assumes "\<And>x dst. put x dst = dst @ put x []"
  shows "fold put xs dst = dst @ concat (map (\<lambda>x. put x []) xs)"
proof (induction xs arbitrary: dst)
  case (Cons x xs)
  have "fold put (x # xs) dst = fold put xs (dst @ put x [])" using assms [of x dst] by simp
  then show ?case by (simp add: Cons.IH)
qed simp

lemma decode_pointers:
  "\<forall>(l, k) \<in> set ps. level_ok l \<and> key_ok k \<Longrightarrow> edit_loop (concat (map (\<lambda>p. put_pointer p []) ps) @ rest) e =
     edit_loop rest (e\<lparr>compact_pointers := compact_pointers e @ ps\<rparr>)"
  by (induction ps arbitrary: e) (auto simp: decode_pointer)

lemma decode_deleteds:
  "\<forall>(l, n) \<in> set ds. level_ok l \<Longrightarrow> edit_loop (concat (map (\<lambda>d. put_deleted d []) ds) @ rest) e =
     edit_loop rest (e\<lparr>deleted_files := deleted_files e \<union> set ds\<rparr>)"
  by (induction ds arbitrary: e) (auto simp: decode_deleted)

lemma decode_files:
  "\<forall>(l, f) \<in> set fs. level_ok l \<and> fm_refs f = 0 \<and> fm_allowed_seeks f = 2 ^ 30 \<and> key_ok (fm_smallest f) \<and> key_ok (fm_largest f) \<Longrightarrow>
     edit_loop (concat (map (\<lambda>nf. put_file nf []) fs) @ rest) e = edit_loop rest (e\<lparr>new_files := new_files e @ fs\<rparr>)"
  by (induction fs arbitrary: e) (auto simp: decode_file)

lemma Edit_bytes:
  "Edit_EncodeTo e [] =
     (if has_comparator e then PutLengthPrefixedSlice (PutVarint32 [] kComparator) (ve_comparator e) else []) @
     put_number (has_log_number e) kLogNumber (ve_log_number e) [] @
     put_number (has_prev_log_number e) kPrevLogNumber (ve_prev_log_number e) [] @
     put_number (has_next_file_number e) kNextFileNumber (ve_next_file_number e) [] @
     put_number (has_last_sequence e) kLastSequence (ve_last_sequence e) [] @
     concat (map (\<lambda>p. put_pointer p []) (compact_pointers e)) @
     concat (map (\<lambda>d. put_deleted d []) (sorted_list_of_set (deleted_files e))) @
     concat (map (\<lambda>nf. put_file nf []) (new_files e))"
  unfolding Edit_EncodeTo_def Let_def
  by (simp only: fold_put [of put_pointer, OF put_list_append(2)] fold_put [of put_deleted, OF put_list_append(3)]
      fold_put [of put_file, OF put_list_append(4)] put_list_append(1) [of _ _ _ "put_number _ _ _ _"]
      put_list_append(1) [of _ _ _ "_ @ _"] put_list_append(1) [of _ _ _ "if _ then _ else _"] append.assoc)

lemma Edit_Decode_Encode:
  assumes "edit_ok e"
  shows "Edit_DecodeFrom (Edit_EncodeTo e []) e0 = (OK, e\<lparr>compact_pointers := compact_pointers e0 @ compact_pointers e\<rparr>)"
proof -
  note ok = assms [unfolded edit_ok_def]
  have ok': "key_ok (ve_comparator e)" "\<forall>(l, k) \<in> set (compact_pointers e). level_ok l \<and> key_ok k"
    "\<forall>(l, n) \<in> set (sorted_list_of_set (deleted_files e)). level_ok l"
    "\<forall>(l, f) \<in> set (new_files e). level_ok l \<and> fm_refs f = 0 \<and> fm_allowed_seeks f = 2 ^ 30 \<and> key_ok (fm_smallest f) \<and> key_ok (fm_largest f)"
    using ok by auto
  have "edit_loop (Edit_EncodeTo e []) (Edit_Clear e0) =
      (None, [], e\<lparr>compact_pointers := compact_pointers e0 @ compact_pointers e\<rparr>)"
  proof -
    have unset: "\<not> has_comparator e \<Longrightarrow> ve_comparator e = []" "\<not> has_log_number e \<Longrightarrow> ve_log_number e = 0"
        "\<not> has_prev_log_number e \<Longrightarrow> ve_prev_log_number e = 0" "\<not> has_next_file_number e \<Longrightarrow> ve_next_file_number e = 0"
        "\<not> has_last_sequence e \<Longrightarrow> ve_last_sequence e = 0" "finite (deleted_files e)"
      using ok by auto
    show ?thesis
      by (simp only: Edit_bytes decode_comparator [OF ok'(1)] decode_number decode_pointers [OF ok'(2)] decode_deleteds [OF ok'(3)]
          decode_files [OF ok'(4), of "[]", unfolded append_Nil2] decode_end)
        (simp only: prod.inject simp_thms, rule VersionEdit.equality, use unset in \<open>simp_all add: Edit_Clear_def\<close>)
  qed
  then show ?thesis by (simp add: Edit_DecodeFrom_def)
qed

text \<open>
  C23: a change of the set of tables is read back from the manifest as it was written. An edit with any combination of fields, compaction
  pointers, deleted and new files, whose levels are below \<^verbatim>\<open>config::kNumLevels\<close>, decodes with status OK to itself. The edit that
  decodes may hold anything before: all of it is cleared but its compaction pointers, which stay in front of those that are read.
\<close>

theorem version_edit_roundtrip:
  assumes "edit_ok e"
  shows "Edit_DecodeFrom (Edit_EncodeTo e []) e0 = (OK, e\<lparr>compact_pointers := compact_pointers e0 @ compact_pointers e\<rparr>)"
  using assms by (rule Edit_Decode_Encode)

theorem version_edit_roundtrip_witness:
  "let e = AddFile 2 9 4096 [97, 1, 7, 0, 0, 0, 0, 0, 0] [99, 1, 5, 0, 0, 0, 0, 0, 0]
        (DeleteFile 1 4 (DeleteFile 0 3 (SetCompactPointer 1 [98, 1, 9, 0, 0, 0, 0, 0, 0]
        (SetLastSequence 300 (SetLogNumber 12 Edit_new)))))
   in Edit_DecodeFrom (Edit_EncodeTo e []) Edit_new = (OK, e)"
proof -
  define e where "e = AddFile 2 9 4096 [97, 1, 7, 0, 0, 0, 0, 0, 0] [99, 1, 5, 0, 0, 0, 0, 0, 0]
        (DeleteFile 1 4 (DeleteFile 0 3 (SetCompactPointer 1 [98, 1, 9, 0, 0, 0, 0, 0, 0]
        (SetLastSequence 300 (SetLogNumber 12 Edit_new)))))"
  note edit_defs = AddFile_def DeleteFile_def SetCompactPointer_def SetLastSequence_def SetLogNumber_def Edit_new_def FileMetaData_new_def
  have "edit_ok e" by (simp add: e_def edit_ok_def edit_defs)
  from version_edit_roundtrip [OF this, of Edit_new]
  have "Edit_DecodeFrom (Edit_EncodeTo e []) Edit_new = (OK, e)" by (simp add: e_def edit_defs)
  then show ?thesis by (simp only: Let_def e_def)
qed

end
