(* ===== verification/LdbVersionSetProps.thy ===== *)
theory LdbVersionSetProps
  imports LdbVersionSet LdbVersionEditProps LdbLogProps
begin

text \<open>
  A version is a set of tables at each level, and an edit deletes some and adds some: the abstract description \<open>apply_tables\<close>, which
  the builder refines. On top of it, the manifest: after a crash, \<^verbatim>\<open>Recover\<close> rebuilds the version that the edits in it describe.
\<close>

section \<open>Versions as sets of tables\<close>

type_synonym table_desc = "u64 \<times> u64 \<times> slice \<times> slice"

definition desc :: "FileMetaData \<Rightarrow> table_desc" where
  "desc f = (fm_number f, fm_file_size f, fm_smallest f, fm_largest f)"

definition level_descs :: "files \<Rightarrow> Version \<Rightarrow> nat \<Rightarrow> table_desc list" where
  "level_descs h v l = map (\<lambda>p. desc (h ! p)) (v_files v ! l)"

definition table_set :: "files \<Rightarrow> Version \<Rightarrow> nat \<Rightarrow> table_desc set" where
  "table_set h v l = set (level_descs h v l)"

definition added_descs :: "(int \<times> FileMetaData) list \<Rightarrow> nat \<Rightarrow> table_desc set" where
  "added_descs nfs l = {desc f |f k. (k, f) \<in> set nfs \<and> nat k = l}"

definition apply_tables :: "VersionEdit \<Rightarrow> (nat \<Rightarrow> table_desc set) \<Rightarrow> nat \<Rightarrow> table_desc set" where
  "apply_tables e V l = {d \<in> V l. fst d \<notin> edit_deletes e l} \<union> added_descs (new_files e) l"

lemma added_descs_Cons: "added_descs (nf # nfs) l = (if nat (fst nf) = l then {desc (snd nf)} else {}) \<union> added_descs nfs l"
  by (cases nf) (auto simp: added_descs_def)

lemma desc_stored [simp]: "desc (stored nf) = desc (snd nf)"
  by (simp add: desc_def)

lemma new_ptrs_descs:
  "n = length h \<Longrightarrow> (\<lambda>p. desc ((h @ map stored nfs) ! p)) ` new_ptrs n nfs l = added_descs nfs l"
proof (induction nfs arbitrary: n h)
  case Nil
  then show ?case by (simp add: added_descs_def)
next
  case (Cons nf nfs)
  have "(\<lambda>p. desc (((h @ [stored nf]) @ map stored nfs) ! p)) ` new_ptrs (Suc n) nfs l = added_descs nfs l"
    by (rule Cons.IH) (simp add: Cons.prems)
  then show ?case using Cons.prems by (simp add: added_descs_Cons image_Un nth_append)
qed

lemma table_set_saved:
  assumes "builder_ok used h b" "l < kNumLevels"
  shows "table_set h (saved h b) l = {d \<in> (\<lambda>p. desc (h ! p)) ` (set (v_files (b_base b) ! l) \<union> set (ls_added (b_levels b ! l))).
     fst d \<notin> ls_deleted (b_levels b ! l)}"
  unfolding table_set_def level_descs_def set_map saved_level(2) [OF assms] by (auto simp: desc_def)

text \<open>Applying an edit does to the set of tables what it says.\<close>

lemma Apply_tables:
  assumes ok: "builder_ok used h b" and e: "edit_legal used e"
    and run: "Builder_Apply ikc e (h, c, b) = (h', c', b')" and l: "l < kNumLevels"
  shows "table_set h' (saved h' b') l = apply_tables e (table_set h (saved h b)) l"
    "builder_ok (use_numbers used (new_files e)) h' b'" "h' = h @ map stored (new_files e)" "b_base b' = b_base b"
proof -
  obtain b1 c1 where b1: "Builder_Apply ikc e (h, c, b) = (h @ map stored (new_files e), c1, b1)" "b_base b1 = b_base b"
      "builder_ok (use_numbers used (new_files e)) (h @ map stored (new_files e)) b1"
      "\<And>l. l < kNumLevels \<Longrightarrow> set (ls_added (b_levels b1 ! l)) = set (ls_added (b_levels b ! l)) \<union> new_ptrs (length h) (new_files e) l"
      "\<And>l. l < kNumLevels \<Longrightarrow> ls_deleted (b_levels b1 ! l) = ls_deleted (b_levels b ! l) \<union> edit_deletes e l - set (edit_numbers (new_files e) l)"
    by (rule Builder_Apply_effect [OF ok e]) blast
  show h': "h' = h @ map stored (new_files e)" and "b_base b' = b_base b"
    and ok': "builder_ok (use_numbers used (new_files e)) h' b'" using b1 run by simp_all
  let ?B = "v_files (b_base b) ! l" and ?A = "ls_added (b_levels b ! l)" and ?D = "ls_deleted (b_levels b ! l)"
  let ?P = "new_ptrs (length h) (new_files e) l" and ?N = "set (edit_numbers (new_files e) l)" and ?d = "\<lambda>h p. desc (h ! p)"
  have lv: "merge_ok (used l) h ?B ?A" using ok l by (simp add: builder_ok_def)
  have old: "?d h' ` (set ?B \<union> set ?A) = ?d h ` (set ?B \<union> set ?A)"
    using lv by (intro image_cong) (auto simp: merge_ok_def h' nth_append)
  have fresh: "fst d \<notin> ?N" if "d \<in> ?d h ` (set ?B \<union> set ?A)" for d
  proof -
    have "fst d \<in> used l" using that lv by (auto simp: merge_ok_def desc_def)
    moreover have "?N \<inter> used l = {}" using e by (simp add: edit_legal_def adds_legal_def)
    ultimately show ?thesis by blast
  qed
  have new: "fst d \<in> ?N" if "d \<in> added_descs (new_files e) l" for d
    using that by (auto simp: added_descs_def desc_def edit_numbers_def image_iff) (metis fst_conv snd_conv)
  have "table_set h' (saved h' b') l = {d \<in> ?d h' ` (set ?B \<union> set ?A) \<union> ?d h' ` ?P. fst d \<notin> ?D \<union> edit_deletes e l - ?N}"
    using table_set_saved [OF ok' l] b1(2,4,5) b1(1) run l by (auto simp: image_Un)
  also have "?d h' ` ?P = added_descs (new_files e) l" unfolding h' by (rule new_ptrs_descs) simp
  finally show "table_set h' (saved h' b') l = apply_tables e (table_set h (saved h b)) l"
    using fresh new unfolding old table_set_saved [OF ok l] apply_tables_def by blast
qed

text \<open>The tables of a saved level are in an order that their set determines.\<close>

definition desc_less :: "table_desc \<Rightarrow> table_desc \<Rightarrow> bool" where
  "desc_less = (\<lambda>(n, _, k, _) (n', _, k', _).
     let r = Compare ikc k k' in if r \<noteq> 0 then r < 0 else n < n')"

lemma user_order_desc: "user_order h = (\<lambda>p q. desc_less (desc (h ! p)) (desc (h ! q)))"
  by (intro ext) (simp add: BySmallestKey_def desc_less_def desc_def Let_def)

lemma strict_on_image:
  assumes "strict_on A (\<lambda>x y. lt (f x) (f y))"
  shows "strict_on (f ` A) lt"
proof -
  have irr: "\<And>x. x \<in> A \<Longrightarrow> \<not> lt (f x) (f x)" and tot: "\<And>x y. x \<in> A \<Longrightarrow> y \<in> A \<Longrightarrow> x \<noteq> y \<Longrightarrow> lt (f x) (f y) \<or> lt (f y) (f x)"
    and tr: "\<And>x y z. x \<in> A \<Longrightarrow> y \<in> A \<Longrightarrow> z \<in> A \<Longrightarrow> lt (f x) (f y) \<Longrightarrow> lt (f y) (f z) \<Longrightarrow> lt (f x) (f z)"
    using assms unfolding strict_on_def by blast+
  show ?thesis
    unfolding strict_on_def using irr
  proof (intro conjI ballI impI)
    fix x y assume "x \<in> f ` A" "y \<in> f ` A" "x \<noteq> y"
    then show "lt x y \<or> lt y x" using tot by (metis imageE)
  next
    fix x y z assume "x \<in> f ` A" "y \<in> f ` A" "z \<in> f ` A" "lt x y" "lt y z"
    then show "lt x z" using tr by (metis imageE)
  qed auto
qed

lemma saved_descs_unique:
  assumes ok: "builder_ok used h b" "builder_ok used' h' b'" and l: "l < kNumLevels"
    and eq: "table_set h (saved h b) l = table_set h' (saved h' b') l"
  shows "level_descs h (saved h b) l = level_descs h' (saved h' b') l"
proof -
  let ?ps = "v_files (saved h b) ! l" and ?qs = "v_files (saved h' b') ! l"
  let ?C = "set (v_files (b_base b) ! l) \<union> set (ls_added (b_levels b ! l))"
  have lv: "merge_ok (used l) h (v_files (b_base b) ! l) (ls_added (b_levels b ! l))" using ok(1) l by (simp add: builder_ok_def)
  have C: "set ?ps \<subseteq> ?C" using saved_level(2) [OF ok(1) l] by blast
  have keys: "\<forall>p \<in> ?C. 8 \<le> length (fm_smallest (h ! p))" "inj_on (\<lambda>p. fm_number (h ! p)) ?C" using lv by (simp_all add: merge_ok_def)
  have strict: "strict_on ?C (user_order h)" by (rule strict_user_order [OF keys])
  have "strict_on ((\<lambda>p. desc (h ! p)) ` ?C) desc_less"
    by (rule strict_on_image) (rule strict [unfolded user_order_desc])
  moreover have "sorted_wrt desc_less (level_descs h (saved h b) l)"
    using saved_level(1) [OF ok(1) l] by (simp add: level_descs_def sorted_wrt_map user_order_desc)
  moreover have "sorted_wrt desc_less (level_descs h' (saved h' b') l)"
    using saved_level(1) [OF ok(2) l] by (simp add: level_descs_def sorted_wrt_map user_order_desc)
  ultimately show ?thesis
    by (rule sorted_unique) (use eq C in \<open>auto simp: table_set_def level_descs_def\<close>)
qed

lemma apply_tables_cong: "V l = V' l \<Longrightarrow> fold apply_tables es V l = fold apply_tables es V' l"
proof (induction es arbitrary: V V')
  case (Cons e es)
  have "apply_tables e V l = apply_tables e V' l" by (simp add: apply_tables_def Cons.prems)
  then have "fold apply_tables es (apply_tables e V) l = fold apply_tables es (apply_tables e V') l" by (rule Cons.IH)
  then show ?case by (simp only: fold_simps)
qed simp

text \<open>The tables, and the numbers that have been used, after some edits.\<close>

definition tables_after :: "VersionEdit list \<Rightarrow> nat \<Rightarrow> table_desc set" where
  "tables_after es = fold apply_tables es (\<lambda>_. {})"

definition used_after :: "VersionEdit list \<Rightarrow> nat \<Rightarrow> u64 set" where
  "used_after es = fold (\<lambda>e used. use_numbers used (new_files e)) es (\<lambda>_. {})"

lemma edits_legal_append:
  "edits_legal used (es @ es') \<longleftrightarrow> edits_legal used es \<and> edits_legal (fold (\<lambda>e used. use_numbers used (new_files e)) es used) es'"
  by (induction es arbitrary: used) simp_all

section \<open>The manifest as a file\<close>

definition edit_bytes :: "VersionEdit \<Rightarrow> slice" where
  "edit_bytes e = Edit_EncodeTo e []"

context synced_file
begin

definition manifest_file :: "'a Writer \<Rightarrow> VersionEdit list \<Rightarrow> bool" where
  "manifest_file w es \<longleftrightarrow> good (dest w) \<and> at_offset (length (content (dest w))) w \<and> content (dest w) = log_bytes 0 (map edit_bytes es)"

lemma manifest_new: "good f \<Longrightarrow> content f = [] \<Longrightarrow> manifest_file (Writer_new f) []"
  using at_offset_new(1) [of f] by (simp add: manifest_file_def Writer_new_def)

lemma manifest_add:
  assumes "manifest_file w es"
  shows "\<exists>w'. AddRecord ops w (edit_bytes e) = (OK, w') \<and> manifest_file w' (es @ [e])"
proof -
  have w: "good (dest w)" "at_offset (length (content (dest w))) w" "content (dest w) = log_bytes 0 (map edit_bytes es)"
    using assms unfolding manifest_file_def by blast+
  obtain w' where w': "AddRecord ops w (edit_bytes e) = (OK, w')" "good (dest w')"
      "at_offset (length (content (dest w)) + length (frag_bytes (length (content (dest w))) True (edit_bytes e))) w'"
      "content (dest w') = content (dest w) @ frag_bytes (length (content (dest w))) True (edit_bytes e)"
    using AddRecord_loop_good [OF w(1,2), of "edit_bytes e" True] by (auto simp: AddRecord_def)
  have "content (dest w') = log_bytes 0 (map edit_bytes (es @ [e]))" using w'(4) w(3) by (simp add: log_bytes_append)
  moreover have "at_offset (length (content (dest w'))) w'" using w'(3) by (simp only: w'(4) length_append)
  ultimately show ?thesis using w'(1,2) by (auto simp: manifest_file_def)
qed

lemma manifest_sync:
  assumes "manifest_file w es"
  shows "\<exists>f. Sync ops (dest w) = (OK, f) \<and> manifest_file (w\<lparr>dest := f\<rparr>) es"
proof -
  obtain f where f: "Sync ops (dest w) = (OK, f)" "good f" using assms sync_good by (auto simp: manifest_file_def)
  have "content f = content (dest w)" by (rule sync_content [OF f(1)])
  then show ?thesis using f assms by (auto simp: manifest_file_def at_offset_def)
qed

text \<open>One call of \<^verbatim>\<open>LogAndApply\<close> on a file without faults, with or without a descriptor.\<close>

lemma log_edit_good:
  assumes "case vs_descriptor vs of None \<Rightarrow> created = Inr f \<and> good f \<and> content f = [] \<and> es = [snapshot_edit cmp_name vs] \<and> ok set_current
     | Some w \<Rightarrow> manifest_file w es"
  shows "\<exists>w. log_edit ops cmp_name created set_current e vs = (OK, vs_descriptor vs = None, vs\<lparr>vs_descriptor := Some w\<rparr>) \<and>
     manifest_file w (es @ [e])"
proof -
  have finish: "\<exists>w1 f1. AddRecord ops w0 (Edit_EncodeTo e []) = (OK, w1) \<and> Sync ops (dest w1) = (OK, f1) \<and> manifest_file (w1\<lparr>dest := f1\<rparr>) (es @ [e])"
    if "manifest_file w0 es" for w0
  proof -
    obtain w1 where "AddRecord ops w0 (edit_bytes e) = (OK, w1)" "manifest_file w1 (es @ [e])" using manifest_add [OF \<open>manifest_file w0 es\<close>] by blast
    then show ?thesis using manifest_sync [of w1 "es @ [e]"] by (auto simp: edit_bytes_def)
  qed
  show ?thesis
  proof (cases "vs_descriptor vs")
    case None
    then have a: "created = Inr f" "good f" "content f = []" "es = [snapshot_edit cmp_name vs]" "set_current = OK"
      using assms by (simp_all add: ok_def OK_def)
    obtain w0 where w0: "WriteSnapshot ops cmp_name vs (Writer_new f) = (OK, w0)" "manifest_file w0 es"
      using manifest_add [OF manifest_new [OF a(2,3)], of "snapshot_edit cmp_name vs"] a(4) by (auto simp: WriteSnapshot_def edit_bytes_def)
    then show ?thesis using finish [OF w0(2)] None a(1,5) by (auto simp: log_edit_def Let_def)
  next
    case (Some w)
    then show ?thesis using assms finish [of w] by (auto simp: log_edit_def Let_def)
  qed
qed

end

section \<open>Reading the manifest\<close>

abbreviation noted :: "(VersionEdit \<Rightarrow> bool) \<Rightarrow> (VersionEdit \<Rightarrow> u64) \<Rightarrow> VersionEdit list \<Rightarrow> u64 option \<Rightarrow> u64 option" where
  "noted has num es \<equiv> fold (\<lambda>e. note_number (has e) (num e)) es"

lemma noted_last: "es \<noteq> [] \<Longrightarrow> has (last es) \<Longrightarrow> noted has num es x = Some (num (last es))"
  by (induction es rule: rev_induct) (simp_all add: note_number_def)

definition edit_reads :: "slice \<Rightarrow> VersionEdit \<Rightarrow> bool" where
  "edit_reads cmp_name e \<longleftrightarrow> edit_ok e \<and> (has_comparator e \<longrightarrow> ve_comparator e = cmp_name)"

context sequential_file
begin

lemma manifest_turn_none:
  assumes "ReadRecord ops u [] [] (mr_reader st) = Some (False, [], s, r')" "reports r' = reports (mr_reader st)"
  shows "while_true (manifest_turn ucmp cmp_name ops u) st = Some (Some (st\<lparr>mr_reader := r'\<rparr>))"
  by (rule while_true_return) (use assms in \<open>simp add: manifest_turn_def Let_def\<close>)

lemma manifest_turn_one:
  assumes "ReadRecord ops u [] [] (mr_reader st) = Some (True, edit_bytes e, s, r')" "reports r' = reports (mr_reader st)"
    "mr_status st = OK" "edit_reads cmp_name e"
    "Builder_Apply (InternalKeyComparator ucmp) e (mr_heap st, mr_pointers st, mr_builder st) = (h, c, b)"
  shows "while_true (manifest_turn ucmp cmp_name ops u) st = while_true (manifest_turn ucmp cmp_name ops u)
     (st\<lparr>mr_reader := r', mr_heap := h, mr_pointers := c, mr_builder := b,
         mr_log_number := note_number (has_log_number e) (ve_log_number e) (mr_log_number st),
         mr_prev_log_number := note_number (has_prev_log_number e) (ve_prev_log_number e) (mr_prev_log_number st),
         mr_next_file := note_number (has_next_file_number e) (ve_next_file_number e) (mr_next_file st),
         mr_last_sequence := note_number (has_last_sequence e) (ve_last_sequence e) (mr_last_sequence st)\<rparr>)"
proof (rule while_true_turn)
  have "Edit_DecodeFrom (edit_bytes e) Edit_new = (OK, e)"
    using Edit_Decode_Encode [of e Edit_new] assms(4) by (simp add: edit_bytes_def edit_reads_def Edit_new_def)
  then show "manifest_turn ucmp cmp_name ops u st = Inr (st\<lparr>mr_reader := r', mr_heap := h, mr_pointers := c, mr_builder := b,
         mr_log_number := note_number (has_log_number e) (ve_log_number e) (mr_log_number st),
         mr_prev_log_number := note_number (has_prev_log_number e) (ve_prev_log_number e) (mr_prev_log_number st),
         mr_next_file := note_number (has_next_file_number e) (ve_next_file_number e) (mr_next_file st),
         mr_last_sequence := note_number (has_last_sequence e) (ve_last_sequence e) (mr_last_sequence st)\<rparr>)"
    using assms by (cases st; cases "has_comparator e") (simp_all add: manifest_turn_def Let_def edit_reads_def)
qed

lemma manifest_loop:
  assumes "delivered F p (mr_reader st)" "drop p F = take m (log_bytes p (map edit_bytes es))" "p \<le> length F" "mr_status st = OK"
    "builder_ok used (mr_heap st) (mr_builder st)" "edits_legal used es" "\<forall>e \<in> set es. edit_reads cmp_name e"
  shows "\<exists>j st' used'. while_true (manifest_turn BytewiseComparator cmp_name ops u) st = Some (Some st') \<and> j \<le> length es \<and> mr_status st' = OK \<and>
     builder_ok used' (mr_heap st') (mr_builder st') \<and>
     (\<forall>l < kNumLevels. table_set (mr_heap st') (saved (mr_heap st') (mr_builder st')) l =
        fold apply_tables (take j es) (table_set (mr_heap st) (saved (mr_heap st) (mr_builder st))) l) \<and>
     mr_log_number st' = noted has_log_number ve_log_number (take j es) (mr_log_number st) \<and>
     mr_prev_log_number st' = noted has_prev_log_number ve_prev_log_number (take j es) (mr_prev_log_number st) \<and>
     mr_next_file st' = noted has_next_file_number ve_next_file_number (take j es) (mr_next_file st) \<and>
     mr_last_sequence st' = noted has_last_sequence ve_last_sequence (take j es) (mr_last_sequence st) \<and>
     (\<forall>i \<le> length es. length (log_bytes p (map edit_bytes (take i es))) \<le> m \<longrightarrow> i \<le> j)"
  using assms
proof (induction es arbitrary: p st m used)
  case Nil
  from Nil(1) Nil(2) [unfolded list.map] Nil(3) show ?case
  proof (cases rule: read_next_record [where u = u and x = "[]" and y = "[]"])
    case (none s r')
    then show ?thesis using Nil manifest_turn_none [OF none(1,2)] by (intro exI [of _ 0]) auto
  qed simp
next
  case (Cons e es)
  from Cons.prems(1,2,3) show ?case
  proof (cases rule: read_next_record [where u = u and x = "[]" and y = "[]"])
    case (none s r')
    have "i = 0" if "i \<le> length (e # es)" "length (log_bytes p (map edit_bytes (take i (e # es)))) \<le> m" for i
    proof (rule none(3))
      show "i \<le> length (map edit_bytes (e # es))" using that(1) by simp
      show "length (log_bytes p (take i (map edit_bytes (e # es)))) \<le> m" using that(2) by (simp only: take_map)
    qed
    then show ?thesis using Cons.prems manifest_turn_none [OF none(1,2)] by (intro exI [of _ 0]) auto
  next
    case (one d ds' n s r')
    have d: "d = edit_bytes e" and ds': "ds' = map edit_bytes es" using one(1) by simp_all
    obtain h c b where run: "Builder_Apply ikc e (mr_heap st, mr_pointers st, mr_builder st) = (h, c, b)" by (metis prod_cases3)
    have legal: "edit_legal used e" "edits_legal (use_numbers used (new_files e)) es" using Cons.prems(6) by simp_all
    note ap = Apply_tables [OF Cons.prems(5) legal(1) run]
    have l0: "0 < kNumLevels" by (simp add: kNumLevels_def)
    define st1 where "st1 = st\<lparr>mr_reader := r', mr_heap := h, mr_pointers := c, mr_builder := b,
         mr_log_number := note_number (has_log_number e) (ve_log_number e) (mr_log_number st),
         mr_prev_log_number := note_number (has_prev_log_number e) (ve_prev_log_number e) (mr_prev_log_number st),
         mr_next_file := note_number (has_next_file_number e) (ve_next_file_number e) (mr_next_file st),
         mr_last_sequence := note_number (has_last_sequence e) (ve_last_sequence e) (mr_last_sequence st)\<rparr>"
    have turn: "while_true (manifest_turn BytewiseComparator cmp_name ops u) st = while_true (manifest_turn BytewiseComparator cmp_name ops u) st1"
      unfolding st1_def by (rule manifest_turn_one [OF one(4) [unfolded d] one(5) Cons.prems(4) _ run]) (simp add: Cons.prems(7))
    have "delivered F (p + n) (mr_reader st1)" "drop (p + n) F = take (m - n) (log_bytes (p + n) (map edit_bytes es))" "p + n \<le> length F"
        "mr_status st1 = OK" "builder_ok (use_numbers used (new_files e)) (mr_heap st1) (mr_builder st1)" "\<forall>e \<in> set es. edit_reads cmp_name e"
      using one(6,7,8) ds' Cons.prems(4,7) ap(2) [OF l0] by (simp_all add: st1_def)
    from Cons.IH [OF this(1-5) legal(2) this(6)]
    obtain j st' used' where j: "while_true (manifest_turn BytewiseComparator cmp_name ops u) st1 = Some (Some st')" "j \<le> length es" "mr_status st' = OK"
       "builder_ok used' (mr_heap st') (mr_builder st')"
       "\<forall>l < kNumLevels. table_set (mr_heap st') (saved (mr_heap st') (mr_builder st')) l =
          fold apply_tables (take j es) (table_set (mr_heap st1) (saved (mr_heap st1) (mr_builder st1))) l"
       "mr_log_number st' = noted has_log_number ve_log_number (take j es) (mr_log_number st1)"
       "mr_prev_log_number st' = noted has_prev_log_number ve_prev_log_number (take j es) (mr_prev_log_number st1)"
       "mr_next_file st' = noted has_next_file_number ve_next_file_number (take j es) (mr_next_file st1)"
       "mr_last_sequence st' = noted has_last_sequence ve_last_sequence (take j es) (mr_last_sequence st1)"
       "\<forall>i \<le> length es. length (log_bytes (p + n) (map edit_bytes (take i es))) \<le> m - n \<longrightarrow> i \<le> j" by blast
    have tables: "fold apply_tables (take j es) (table_set (mr_heap st1) (saved (mr_heap st1) (mr_builder st1))) l =
        fold apply_tables (take (Suc j) (e # es)) (table_set (mr_heap st) (saved (mr_heap st) (mr_builder st))) l" if "l < kNumLevels" for l
      using apply_tables_cong [of "table_set h (saved h b)" l "apply_tables e (table_set (mr_heap st) (saved (mr_heap st) (mr_builder st)))"]
        ap(1) [OF that] by (simp add: st1_def)
    have "i \<le> Suc j" if "i \<le> length (e # es)" "length (log_bytes p (map edit_bytes (take i (e # es)))) \<le> m" for i
      using that j(10) one(2,3) by (cases i) (auto simp: d)
    then show ?thesis using j turn tables by (intro exI [of _ "Suc j"] exI [of _ st'] exI [of _ used']) (auto simp: st1_def)
  qed
qed

end

section \<open>The snapshot\<close>

abbreviation snapshot_entry :: "files \<Rightarrow> nat \<Rightarrow> file_ptr \<Rightarrow> int \<times> FileMetaData" where
  "snapshot_entry h l p \<equiv> (int l, FileMetaData_new (fm_number (h ! p)) (fm_file_size (h ! p)) (fm_smallest (h ! p)) (fm_largest (h ! p)))"

lemma add_level_files:
  "fold (\<lambda>p. let f = h ! p in AddFile (int l) (fm_number f) (fm_file_size f) (fm_smallest f) (fm_largest f)) ps e =
     e\<lparr>new_files := new_files e @ map (snapshot_entry h l) ps\<rparr>"
  by (induction ps arbitrary: e) (simp_all add: AddFile_def Let_def)

lemma snapshot_files_eq:
  "snapshot_files vs e = e\<lparr>new_files := new_files e @ concat (map (\<lambda>l. map (snapshot_entry (vs_heap vs) l) (v_files (vs_current vs) ! l)) [0..<kNumLevels])\<rparr>"
proof -
  have "fold (\<lambda>lv e. e\<lparr>new_files := new_files e @ map (snapshot_entry (vs_heap vs) lv) (v_files (vs_current vs) ! lv)\<rparr>) ls e =
      e\<lparr>new_files := new_files e @ concat (map (\<lambda>l. map (snapshot_entry (vs_heap vs) l) (v_files (vs_current vs) ! l)) ls)\<rparr>" for ls e
    by (induction ls arbitrary: e) simp_all
  then show ?thesis by (simp add: snapshot_files_def add_level_files)
qed

lemma snapshot_pointers_keep:
  "new_files (snapshot_pointers vs e) = new_files e \<and> deleted_files (snapshot_pointers vs e) = deleted_files e"
proof -
  have "new_files (fold (\<lambda>lv e. if P lv then SetCompactPointer (int lv) (k lv) e else e) ls e) = new_files e \<and>
      deleted_files (fold (\<lambda>lv e. if P lv then SetCompactPointer (int lv) (k lv) e else e) ls e) = deleted_files e" for P k ls e
    by (induction ls arbitrary: e) (simp_all add: SetCompactPointer_def)
  then show ?thesis by (simp add: snapshot_pointers_def)
qed

lemma snapshot_parts:
  "new_files (snapshot_edit cmp_name vs) = concat (map (\<lambda>l. map (snapshot_entry (vs_heap vs) l) (v_files (vs_current vs) ! l)) [0..<kNumLevels])"
  "deleted_files (snapshot_edit cmp_name vs) = {}"
  using snapshot_pointers_keep [of vs "SetComparatorName cmp_name Edit_new"]
  by (simp_all add: snapshot_edit_def snapshot_files_eq SetComparatorName_def Edit_new_def)

lemma snapshot_numbers:
  "edit_numbers (new_files (snapshot_edit cmp_name vs)) l =
     (if l < kNumLevels then map (\<lambda>p. fm_number (vs_heap vs ! p)) (v_files (vs_current vs) ! l) else [])"
proof -
  have "edit_numbers (concat (map (\<lambda>l. map (snapshot_entry h l) (fs l)) ls)) k =
      concat (map (\<lambda>l. if l = k then map (\<lambda>p. fm_number (h ! p)) (fs l) else []) ls)" for h fs ls k
    by (induction ls) (auto simp: edit_numbers_def FileMetaData_new_def comp_def)
  moreover have "concat (map (\<lambda>k. if k = l then f k else []) [0..<n]) = (if l < n then f l else [])" for f :: "nat \<Rightarrow> u64 list" and n
    by (induction n) auto
  ultimately show ?thesis by (simp only: snapshot_parts)
qed

lemma snapshot_descs: "l < kNumLevels \<Longrightarrow> added_descs (new_files (snapshot_edit cmp_name vs)) l = table_set (vs_heap vs) (vs_current vs) l"
proof -
  assume l: "l < kNumLevels"
  have "added_descs nfs l = (\<lambda>nf. desc (snd nf)) ` {nf \<in> set nfs. nat (fst nf) = l}" for nfs by (force simp: added_descs_def)
  moreover have "{nf \<in> set (new_files (snapshot_edit cmp_name vs)). nat (fst nf) = l} = snapshot_entry (vs_heap vs) l ` set (v_files (vs_current vs) ! l)"
    using l by (auto simp: snapshot_parts)
  ultimately show ?thesis by (simp add: table_set_def level_descs_def image_image desc_def FileMetaData_new_def)
qed

lemma snapshot_legal:
  assumes "builder_ok used (vs_heap vs) (Builder_new (vs_current vs))"
  shows "edit_legal (\<lambda>_. {}) (snapshot_edit cmp_name vs)"
proof -
  have lv: "merge_ok (used l) (vs_heap vs) (v_files (vs_current vs) ! l) []" if "l < kNumLevels" for l
    using assms that by (simp add: builder_ok_def Builder_new_def)
  have "distinct (edit_numbers (new_files (snapshot_edit cmp_name vs)) l)" for l
  proof (cases "l < kNumLevels")
    case True
    have "strict_on (set (v_files (vs_current vs) ! l)) (user_order (vs_heap vs))"
      using lv [OF True] by (intro strict_user_order) (simp_all add: merge_ok_def)
    then have "\<forall>p \<in> set (v_files (vs_current vs) ! l). \<not> user_order (vs_heap vs) p p" unfolding strict_on_def by blast
    then have "distinct (v_files (vs_current vs) ! l)" using lv [OF True]
      by (auto simp: merge_ok_def distinct_conv_nth sorted_wrt_iff_nth_less) (metis linorder_neqE_nat nth_mem)
    then show ?thesis using lv [OF True] True by (simp add: snapshot_numbers distinct_map merge_ok_def)
  qed (simp add: snapshot_numbers)
  moreover have "nat (fst nf) < kNumLevels \<and> 8 \<le> length (fm_smallest (snd nf))" if "nf \<in> set (new_files (snapshot_edit cmp_name vs))" for nf
    using that lv by (auto simp: snapshot_parts merge_ok_def FileMetaData_new_def)
  ultimately show ?thesis by (simp add: edit_legal_def adds_legal_def snapshot_parts(2))
qed

section \<open>Runs of LogAndApply\<close>

text \<open>What \<^verbatim>\<open>LogAndApply\<close> writes is complete; it does not change what is deleted or added.\<close>

definition complete :: "VersionEdit \<Rightarrow> bool" where
  "complete e \<longleftrightarrow> has_log_number e \<and> has_prev_log_number e \<and> has_next_file_number e \<and> has_last_sequence e"

lemma complete_edit_parts:
  "complete (complete_edit vs e)" "deleted_files (complete_edit vs e) = deleted_files e" "new_files (complete_edit vs e) = new_files e"
  "SetNextFile (vs_next_file_number vs) (complete_edit vs e) = complete_edit vs e"
  by (auto simp: complete_edit_def Let_def SetLogNumber_def SetPrevLogNumber_def SetNextFile_def SetLastSequence_def complete_def)

lemma edit_legal_cong: "deleted_files e = deleted_files e' \<Longrightarrow> new_files e = new_files e' \<Longrightarrow> edit_legal used e = edit_legal used e'"
  by (simp add: edit_legal_def)

definition current_numbers :: "'f VersionSet \<Rightarrow> nat \<Rightarrow> u64 set" where
  "current_numbers vs l = (if l < kNumLevels then (\<lambda>p. fm_number (vs_heap vs ! p)) ` set (v_files (vs_current vs) ! l) else {})"

text \<open>
  The edits in the manifest, by successful calls of \<^verbatim>\<open>LogAndApply\<close>: the first creates the file with a snapshot; between calls, numbers of files
  and the last sequence number may change. Strings fit into 32 bits and numbers of tables are not used twice at a level.
\<close>

inductive manifest_run :: "(rat \<Rightarrow> rat) \<Rightarrow> slice \<Rightarrow> VersionEdit list \<Rightarrow> posix_file VersionSet \<Rightarrow> bool" for dbl cmp_name where
  first: "vs_descriptor vs = None \<Longrightarrow> builder_ok used (vs_heap vs) (Builder_new (vs_current vs)) \<Longrightarrow> posix_good f \<Longrightarrow> posix_content f = [] \<Longrightarrow>
    edit_legal (current_numbers vs) edit \<Longrightarrow> edit_reads cmp_name (complete_edit vs edit) \<Longrightarrow>
    vs1 = snd (next_version dbl BytewiseComparator (complete_edit vs edit) vs) \<Longrightarrow> edit_reads cmp_name (snapshot_edit cmp_name vs1) \<Longrightarrow>
    LogAndApply dbl BytewiseComparator PosixWritableFile cmp_name (Inr f) OK edit vs = (OK, e, vs') \<Longrightarrow>
    manifest_run dbl cmp_name [snapshot_edit cmp_name vs1, e] vs'"
| more: "manifest_run dbl cmp_name es vs \<Longrightarrow> edit_legal (used_after es) edit \<Longrightarrow>
    vs1 = vs\<lparr>vs_next_file_number := nf, vs_last_sequence := sq\<rparr> \<Longrightarrow> edit_reads cmp_name (complete_edit vs1 edit) \<Longrightarrow>
    LogAndApply dbl BytewiseComparator PosixWritableFile cmp_name created set_current edit vs1 = (OK, e, vs') \<Longrightarrow>
    manifest_run dbl cmp_name (es @ [e]) vs'"

inductive_cases manifest_runE: "manifest_run dbl cmp_name es vs"

lemma saved_Builder_new: "l < kNumLevels \<Longrightarrow> v_files (saved h (Builder_new v)) ! l = v_files v ! l"
  by (subst saved_files(2)) (simp_all add: Builder_new_def)

lemma Finalize_files [simp]: "v_files (Finalize dbl h v) = v_files v"
  by (simp add: Finalize_def Let_def split: prod.splits)

text \<open>A call of \<^verbatim>\<open>LogAndApply\<close> that succeeds, in terms of tables.\<close>

lemma LogAndApply_tables:
  assumes ok: "builder_ok used (vs_heap vs) (Builder_new (vs_current vs))" and legal: "edit_legal used edit"
    and pre: "case vs_descriptor vs of
        None \<Rightarrow> created = Inr f \<and> posix_good f \<and> posix_content f = [] \<and> ok set_current \<and>
          es = [snapshot_edit cmp_name (snd (next_version dbl BytewiseComparator (complete_edit vs edit) vs))]
      | Some w \<Rightarrow> posix_synced.manifest_file w es"
  shows "\<exists>w vs'. LogAndApply dbl BytewiseComparator PosixWritableFile cmp_name created set_current edit vs = (OK, complete_edit vs edit, vs') \<and>
     vs_descriptor vs' = Some w \<and> posix_synced.manifest_file w (es @ [complete_edit vs edit]) \<and>
     builder_ok (use_numbers used (new_files edit)) (vs_heap vs') (Builder_new (vs_current vs')) \<and>
     (\<forall>l < kNumLevels. table_set (vs_heap vs') (vs_current vs') l = apply_tables (complete_edit vs edit) (table_set (vs_heap vs) (vs_current vs)) l) \<and>
     vs_log_number vs' = ve_log_number (complete_edit vs edit) \<and> vs_prev_log_number vs' = ve_prev_log_number (complete_edit vs edit)"
proof -
  let ?e = "complete_edit vs edit" and ?b = "Builder_new (vs_current vs)"
  have legal': "edit_legal used ?e" using legal by (subst edit_legal_cong [of _ edit]) (simp_all add: complete_edit_parts)
  obtain h c b where run: "Builder_Apply ikc ?e (vs_heap vs, vs_compact_pointer vs, ?b) = (h, c, b)" by (metis prod_cases3)
  note ap = Apply_tables [OF ok legal' run]
  have l0: "0 < kNumLevels" by (simp add: kNumLevels_def)
  define vs1 where "vs1 = vs\<lparr>vs_heap := h, vs_compact_pointer := c\<rparr>"
  define v where "v = Finalize dbl h (saved h b)"
  have nxt: "next_version dbl BytewiseComparator ?e vs = (v, vs1)"
    using run by (simp add: next_version_def v_def vs1_def saved_def)
  have "case vs_descriptor vs1 of None \<Rightarrow> created = Inr f \<and> posix_good f \<and> posix_content f = [] \<and> es = [snapshot_edit cmp_name vs1] \<and> ok set_current
     | Some w \<Rightarrow> posix_synced.manifest_file w es"
    using pre nxt by (auto simp: vs1_def split: option.splits)
  from posix_synced.log_edit_good [OF this, of ?e]
  obtain w where w: "log_edit PosixWritableFile cmp_name created set_current ?e vs1 = (OK, vs_descriptor vs1 = None, vs1\<lparr>vs_descriptor := Some w\<rparr>)"
      "posix_synced.manifest_file w (es @ [?e])" by blast
  let ?vs' = "(AppendVersion v (vs1\<lparr>vs_descriptor := Some w\<rparr>))\<lparr>vs_log_number := ve_log_number ?e, vs_prev_log_number := ve_prev_log_number ?e\<rparr>"
  have edit: "(if vs_descriptor vs1 = None then SetNextFile (vs_next_file_number vs1) ?e else ?e) = ?e"
    using complete_edit_parts(4) [of vs edit] by (simp add: vs1_def)
  have res: "LogAndApply dbl BytewiseComparator PosixWritableFile cmp_name created set_current edit vs = (OK, ?e, ?vs')"
    using nxt w(1) edit by (simp add: LogAndApply_def Let_def)
  have new: "builder_ok (use_numbers used (new_files edit)) h (Builder_new (saved h b))"
    using builder_new_ok ap(2) [OF l0] by (simp add: complete_edit_parts)
  have "builder_ok (use_numbers used (new_files edit)) h (Builder_new v)"
    using new by (simp add: builder_ok_def Builder_new_def v_def)
  moreover have "table_set h v l = apply_tables ?e (table_set (vs_heap vs) (vs_current vs)) l" if "l < kNumLevels" for l
  proof -
    have "table_set h v l = table_set h (saved h b) l" by (simp add: table_set_def level_descs_def v_def)
    moreover have "table_set (vs_heap vs) (saved (vs_heap vs) ?b) l = table_set (vs_heap vs) (vs_current vs) l"
      using that by (simp add: table_set_def level_descs_def saved_Builder_new)
    ultimately show ?thesis using ap(1) [OF that] by (simp add: apply_tables_def)
  qed
  ultimately show ?thesis using res w(2) by (auto simp: AppendVersion_def vs1_def)
qed

end
