(* ===== verification/LdbManifest.thy ===== *)
theory LdbManifest
  imports LdbVersionSetProps
begin

text \<open>
  The manifest over the life of a database: every successful \<^verbatim>\<open>LogAndApply\<close> leaves a manifest from which the version in memory can be built
  again, and \<^verbatim>\<open>Recover\<close> does that from whatever part of it a crash has left.
\<close>

section \<open>The invariant of a run\<close>

definition manifest_inv :: "slice \<Rightarrow> VersionEdit list \<Rightarrow> posix_file VersionSet \<Rightarrow> bool" where
  "manifest_inv cmp_name es vs \<longleftrightarrow>
     (\<exists>w. vs_descriptor vs = Some w \<and> posix_synced.manifest_file w es) \<and>
     (\<forall>e \<in> set es. edit_reads cmp_name e) \<and> edits_legal (\<lambda>_. {}) es \<and> 2 \<le> length es \<and> (\<forall>e \<in> set (tl es). complete e) \<and>
     builder_ok (used_after es) (vs_heap vs) (Builder_new (vs_current vs)) \<and>
     (\<forall>l < kNumLevels. table_set (vs_heap vs) (vs_current vs) l = tables_after es l) \<and>
     vs_log_number vs = ve_log_number (last es) \<and> vs_prev_log_number vs = ve_prev_log_number (last es)"

lemma builder_ok_current:
  assumes "builder_ok used (vs_heap vs) (Builder_new (vs_current vs))"
  shows "builder_ok (current_numbers vs) (vs_heap vs) (Builder_new (vs_current vs))"
  using assms by (auto simp: builder_ok_def merge_ok_def current_numbers_def Builder_new_def)

text \<open>More objects in the store change nothing for a version.\<close>

lemma builder_ok_more_files:
  assumes "builder_ok used h (Builder_new v)"
  shows "builder_ok used (h @ hs) (Builder_new v)" "l < kNumLevels \<Longrightarrow> table_set (h @ hs) v l = table_set h v l"
proof -
  have lv: "merge_ok (used l) h (v_files v ! l) []" if "l < kNumLevels" for l
    using assms that by (simp add: builder_ok_def Builder_new_def)
  have same: "(h @ hs) ! p = h ! p" if "p \<in> set (v_files v ! l)" "l < kNumLevels" for p l
    using lv [OF that(2)] that(1) by (auto simp: merge_ok_def nth_append)
  have "merge_ok (used l) (h @ hs) (v_files v ! l) []" if "l < kNumLevels" for l
    by (rule merge_ok_append [OF lv [OF that]])
  then show "builder_ok used (h @ hs) (Builder_new v)" using assms by (simp add: builder_ok_def Builder_new_def)
  show "table_set (h @ hs) v l = table_set h v l" if "l < kNumLevels"
    using same [OF _ that] by (auto simp: table_set_def level_descs_def)
qed

lemma next_version_heap:
  assumes ok: "builder_ok used (vs_heap vs) (Builder_new (vs_current vs))" and legal: "edit_legal used e"
    and vs1: "vs1 = snd (next_version dbl BytewiseComparator e vs)"
  shows "vs_heap vs1 = vs_heap vs @ map stored (new_files e)" "vs_current vs1 = vs_current vs" "vs_descriptor vs1 = vs_descriptor vs"
proof -
  obtain h c b where run: "Builder_Apply ikc e (vs_heap vs, vs_compact_pointer vs, Builder_new (vs_current vs)) = (h, c, b)" by (metis prod_cases3)
  have "h = vs_heap vs @ map stored (new_files e)"
    by (rule Apply_tables(3) [OF ok legal run, of 0]) (simp add: kNumLevels_def)
  then show "vs_heap vs1 = vs_heap vs @ map stored (new_files e)" "vs_current vs1 = vs_current vs" "vs_descriptor vs1 = vs_descriptor vs"
    using run by (simp_all add: vs1 next_version_def)
qed

lemma used_after_simps [simp]:
  "used_after [] = (\<lambda>_. {})" "used_after (es @ [e]) = use_numbers (used_after es) (new_files e)"
  by (simp_all add: used_after_def)

lemma tables_after_simps [simp]:
  "tables_after [] = (\<lambda>_. {})" "tables_after (es @ [e]) = apply_tables e (tables_after es)"
  by (simp_all add: tables_after_def)

lemma legal_snoc: "edits_legal (\<lambda>_. {}) (es @ [e]) \<longleftrightarrow> edits_legal (\<lambda>_. {}) es \<and> edit_legal (used_after es) e"
  by (simp add: edits_legal_append used_after_def)

lemma apply_tables_at: "V l = V' l \<Longrightarrow> apply_tables e V l = apply_tables e V' l"
  by (simp add: apply_tables_def)

lemma use_numbers_edit: "new_files e = new_files e' \<Longrightarrow> use_numbers used (new_files e) = use_numbers used (new_files e')"
  by simp

text \<open>A snapshot describes the version on its own.\<close>

lemma snapshot_alone:
  assumes "builder_ok used (vs_heap vs) (Builder_new (vs_current vs))"
  shows "used_after [snapshot_edit cmp_name vs] = current_numbers vs" "l < kNumLevels \<Longrightarrow> tables_after [snapshot_edit cmp_name vs] l = table_set (vs_heap vs) (vs_current vs) l"
    "edits_legal (\<lambda>_. {}) [snapshot_edit cmp_name vs]"
proof -
  show "used_after [snapshot_edit cmp_name vs] = current_numbers vs"
    by (rule ext) (simp add: used_after_def use_numbers_def snapshot_numbers current_numbers_def)
  show "tables_after [snapshot_edit cmp_name vs] l = table_set (vs_heap vs) (vs_current vs) l" if "l < kNumLevels"
    using that by (simp add: tables_after_def apply_tables_def snapshot_descs)
  show "edits_legal (\<lambda>_. {}) [snapshot_edit cmp_name vs]" using snapshot_legal [OF assms] by simp
qed

lemma LogAndApply_inv:
  assumes ok: "builder_ok (used_after es) (vs_heap vs) (Builder_new (vs_current vs))" and legal: "edit_legal (used_after es) edit"
    and pre: "case vs_descriptor vs of
        None \<Rightarrow> created = Inr f \<and> posix_good f \<and> posix_content f = [] \<and> ok set_current \<and>
          es = [snapshot_edit cmp_name (snd (next_version dbl BytewiseComparator (complete_edit vs edit) vs))]
      | Some w \<Rightarrow> posix_synced.manifest_file w es"
    and es: "es \<noteq> []" "\<forall>e \<in> set es. edit_reads cmp_name e" "edits_legal (\<lambda>_. {}) es" "\<forall>e \<in> set (tl es). complete e"
      "\<forall>l < kNumLevels. table_set (vs_heap vs) (vs_current vs) l = tables_after es l"
    and reads: "edit_reads cmp_name (complete_edit vs edit)"
    and call: "LogAndApply dbl BytewiseComparator PosixWritableFile cmp_name created set_current edit vs = (OK, e, vs')"
  shows "manifest_inv cmp_name (es @ [e]) vs'"
proof -
  from LogAndApply_tables [OF ok legal pre] call
  have e: "e = complete_edit vs edit" and post: "\<exists>w. vs_descriptor vs' = Some w \<and> posix_synced.manifest_file w (es @ [e])"
      "builder_ok (use_numbers (used_after es) (new_files edit)) (vs_heap vs') (Builder_new (vs_current vs'))"
      "\<forall>l < kNumLevels. table_set (vs_heap vs') (vs_current vs') l = apply_tables e (table_set (vs_heap vs) (vs_current vs)) l"
      "vs_log_number vs' = ve_log_number e" "vs_prev_log_number vs' = ve_prev_log_number e"
    by auto
  have legal': "edit_legal (used_after es) e" using legal unfolding e by (subst edit_legal_cong [of _ edit]) (simp_all add: complete_edit_parts)
  have "table_set (vs_heap vs') (vs_current vs') l = tables_after (es @ [e]) l" if "l < kNumLevels" for l
    using post(3) that es(5) apply_tables_at [of "table_set (vs_heap vs) (vs_current vs)" l "tables_after es" e] by simp
  moreover have "complete e" "new_files e = new_files edit" unfolding e by (rule complete_edit_parts)+
  ultimately show ?thesis
    using post(1,2,4,5) es(1-4) legal' reads by (auto simp: manifest_inv_def legal_snoc e [symmetric] Suc_le_eq)
qed

lemma manifest_run_inv: "manifest_run dbl cmp_name es vs \<Longrightarrow> manifest_inv cmp_name es vs"
proof (induction rule: manifest_run.induct)
  case (first vs used f edit vs1 e vs')
  let ?es = "[snapshot_edit cmp_name vs1]"
  note cur = builder_ok_current [OF first(2)]
  have "edit_legal (current_numbers vs) (complete_edit vs edit)"
    using first(5) by (subst edit_legal_cong [of _ edit]) (simp_all add: complete_edit_parts)
  note heap = next_version_heap [OF cur this first(7)]
  have ok1: "builder_ok (current_numbers vs) (vs_heap vs1) (Builder_new (vs_current vs1))"
    unfolding heap by (rule builder_ok_more_files(1) [OF cur])
  have same: "table_set (vs_heap vs1) (vs_current vs1) l = table_set (vs_heap vs) (vs_current vs) l" if "l < kNumLevels" for l
    unfolding heap by (rule builder_ok_more_files(2) [OF cur that])
  have "current_numbers vs1 = current_numbers vs"
  proof
    fix l
    show "current_numbers vs1 l = current_numbers vs l"
    proof (cases "l < kNumLevels")
      case True
      have "current_numbers vs l = fst ` table_set (vs_heap vs) (vs_current vs) l" for vs :: "posix_file VersionSet"
        using True by (auto simp: current_numbers_def table_set_def level_descs_def desc_def image_iff)
      then show ?thesis using same [OF True] by metis
    qed (simp add: current_numbers_def)
  qed
  then have used: "used_after ?es = current_numbers vs" using snapshot_alone(1) [OF ok1] by simp
  have "manifest_inv cmp_name (?es @ [e]) vs'"
  proof (rule LogAndApply_inv [OF _ _ _ _ _ _ _ _ first(6) first(9)])
    show "builder_ok (used_after ?es) (vs_heap vs) (Builder_new (vs_current vs))" unfolding used by (rule cur)
    show "edit_legal (used_after ?es) edit" unfolding used by (rule first(5))
    show "case vs_descriptor vs of
        None \<Rightarrow> Inr f = Inr f \<and> posix_good f \<and> posix_content f = [] \<and> ok OK \<and>
          ?es = [snapshot_edit cmp_name (snd (next_version dbl BytewiseComparator (complete_edit vs edit) vs))]
      | Some w \<Rightarrow> posix_synced.manifest_file w ?es"
      using first(1,3,4,7) by (simp add: ok_def OK_def)
    show "\<forall>l < kNumLevels. table_set (vs_heap vs) (vs_current vs) l = tables_after ?es l"
      using snapshot_alone(2) [OF ok1] same by simp
  qed (use first(8) snapshot_alone(3) [OF ok1] in simp_all)
  then show ?case by simp
next
  case (more es vs edit vs1 nf sq created set_current e vs')
  have inv: "manifest_inv cmp_name es vs" by (rule more.IH)
  then obtain w where w: "vs_descriptor vs = Some w" "posix_synced.manifest_file w es" by (auto simp: manifest_inv_def)
  show ?case
  proof (rule LogAndApply_inv [OF _ more(2) _ _ _ _ _ _ more(4) more(5)])
    show "case vs_descriptor vs1 of
        None \<Rightarrow> created = Inr (undefined :: posix_file) \<and> posix_good undefined \<and> posix_content undefined = [] \<and> ok set_current \<and>
          es = [snapshot_edit cmp_name (snd (next_version dbl BytewiseComparator (complete_edit vs1 edit) vs1))]
      | Some w \<Rightarrow> posix_synced.manifest_file w es"
      using w more(3) by simp
  qed (use inv more(3) in \<open>auto simp: manifest_inv_def\<close>)
qed

section \<open>Recovery\<close>

lemma ReuseManifest_keeps:
  "\<exists>r d m. ReuseManifest reuse max_file_size parsed sz appended vs = (r, vs\<lparr>vs_descriptor := d, vs_manifest_file_number := m\<rparr>)"
proof -
  have "vs = vs\<lparr>vs_descriptor := vs_descriptor vs, vs_manifest_file_number := vs_manifest_file_number vs\<rparr>" by simp
  then have same: "\<exists>d m. vs = vs\<lparr>vs_descriptor := d, vs_manifest_file_number := m\<rparr>" by blast
  then show ?thesis unfolding ReuseManifest_def by (auto intro: same split: option.split sum.split)
qed

lemma last_taken:
  assumes "2 \<le> j" "j \<le> length es" "\<forall>e \<in> set (tl es). complete e"
  shows "last (take j es) = es ! (j - 1)" "complete (es ! (j - 1))" "take j es \<noteq> []"
proof -
  show "take j es \<noteq> []" using assms by auto
  then show "last (take j es) = es ! (j - 1)" using assms by (simp add: last_conv_nth)
  have "es ! (j - 1) = tl es ! (j - 2)" using assms(1,2) by (simp add: nth_tl flip: Suc_diff_le)
  moreover have "j - 2 < length (tl es)" using assms(1,2) by simp
  ultimately show "complete (es ! (j - 1))" using assms(3) by (metis nth_mem)
qed

text \<open>What recovery makes of the edits that it has read.\<close>

lemma Recover_install_good:
  assumes "mr_status mr = OK" "mr_log_number mr = Some lg" "mr_prev_log_number mr = Some pn" "mr_next_file mr = Some nf" "mr_last_sequence mr = Some sq"
  shows "\<exists>save vs'. Recover_install dbl BytewiseComparator (ReuseManifest reuse max_file_size parsed sz appended) mr vs = (OK, save, vs') \<and>
     vs_heap vs' = mr_heap mr \<and> v_files (vs_current vs') = v_files (saved (mr_heap mr) (mr_builder mr)) \<and>
     vs_log_number vs' = lg \<and> vs_prev_log_number vs' = pn \<and> vs_next_file_number vs' = nf + 1 \<and> vs_last_sequence vs' = sq"
proof -
  define vs1 where "vs1 = MarkFileNumberUsed lg (MarkFileNumberUsed pn (vs\<lparr>vs_heap := mr_heap mr, vs_compact_pointer := mr_pointers mr\<rparr>))"
  have heap: "vs_heap vs1 = mr_heap mr" by (simp add: vs1_def MarkFileNumberUsed_def)
  define vs2 where "vs2 = (AppendVersion (Finalize dbl (mr_heap mr) (saved (mr_heap mr) (mr_builder mr))) vs1)\<lparr>vs_manifest_file_number := nf,
     vs_next_file_number := nf + 1, vs_last_sequence := sq, vs_log_number := lg, vs_prev_log_number := pn\<rparr>"
  obtain r d m where r: "ReuseManifest reuse max_file_size parsed sz appended vs2 = (r, vs2\<lparr>vs_descriptor := d, vs_manifest_file_number := m\<rparr>)"
    using ReuseManifest_keeps by blast
  have "Recover_install dbl BytewiseComparator (ReuseManifest reuse max_file_size parsed sz appended) mr vs =
      (OK, \<not> r, vs2\<lparr>vs_descriptor := d, vs_manifest_file_number := m\<rparr>)"
    using r assms by (simp add: Recover_install_def Let_def vs2_def vs1_def saved_def)
  then show ?thesis using heap by (auto simp: vs2_def AppendVersion_def)
qed

lemma same_tables_same_descs:
  assumes "builder_ok used h1 b1" "builder_ok used' h2 (Builder_new v)" "l < kNumLevels" "table_set h1 (saved h1 b1) l = table_set h2 v l"
  shows "level_descs h1 (saved h1 b1) l = level_descs h2 v l"
proof -
  have "level_descs h2 (saved h2 (Builder_new v)) l = level_descs h2 v l" by (simp add: level_descs_def saved_Builder_new assms(3))
  then show ?thesis using saved_descs_unique [OF assms(1,2,3)] assms(4) by (simp add: table_set_def)
qed

text \<open>Reading what a crash left of a manifest ends, after some number of whole edits, with the tables and the numbers that these leave.\<close>

lemma manifest_read_back:
  defines "start F name \<equiv> \<lparr>mr_reader = Reader_new (name, \<lparr>disk = F, pending = [], pos = 0, outcomes = []\<rparr>) True True 0, mr_status = OK,
     mr_heap = [], mr_pointers = replicate kNumLevels [], mr_builder = Builder_new Version_new, mr_log_number = None,
     mr_prev_log_number = None, mr_next_file = None, mr_last_sequence = None\<rparr>"
  assumes es: "\<forall>e \<in> set es. edit_reads cmp_name e" "edits_legal (\<lambda>_. {}) es" "2 \<le> length es" "\<forall>e \<in> set (tl es). complete e"
    and kept: "length (log_bytes 0 (map edit_bytes (take 2 es))) \<le> n"
  shows "\<exists>j mr used. while_true (manifest_turn BytewiseComparator cmp_name PosixSequentialFile unknown)
        (start (take n (log_bytes 0 (map edit_bytes es))) name) = Some (Some mr) \<and>
     2 \<le> j \<and> j \<le> length es \<and> mr_status mr = OK \<and> builder_ok used (mr_heap mr) (mr_builder mr) \<and>
     (\<forall>l < kNumLevels. table_set (mr_heap mr) (saved (mr_heap mr) (mr_builder mr)) l = tables_after (take j es) l) \<and>
     mr_log_number mr = Some (ve_log_number (es ! (j - 1))) \<and> mr_prev_log_number mr = Some (ve_prev_log_number (es ! (j - 1))) \<and>
     mr_next_file mr = Some (ve_next_file_number (es ! (j - 1))) \<and> mr_last_sequence mr = Some (ve_last_sequence (es ! (j - 1))) \<and>
     (\<forall>i \<le> length es. length (log_bytes 0 (map edit_bytes (take i es))) \<le> n \<longrightarrow> i \<le> j)"
proof -
  let ?F = "take n (log_bytes 0 (map edit_bytes es))" and ?f = "(name, \<lparr>disk = take n (log_bytes 0 (map edit_bytes es)), pending = [], pos = 0, outcomes = []\<rparr>)"
  have "posix_reads ?f ?F 0" by (simp add: posix_reads_def)
  then have "posix_in.delivered ?F 0 (mr_reader (start ?F name))" by (simp add: start_def posix_in.delivered_start)
  from posix_in.manifest_loop [OF this, of n es "\<lambda>_. {}" cmp_name unknown] es(1,2) builder_ok_initial
  obtain j mr used where j: "while_true (manifest_turn BytewiseComparator cmp_name PosixSequentialFile unknown) (start ?F name) = Some (Some mr)"
      "j \<le> length es" "mr_status mr = OK" "builder_ok used (mr_heap mr) (mr_builder mr)"
      "\<forall>l < kNumLevels. table_set (mr_heap mr) (saved (mr_heap mr) (mr_builder mr)) l =
         fold apply_tables (take j es) (table_set [] (saved [] (Builder_new Version_new))) l"
      "mr_log_number mr = noted has_log_number ve_log_number (take j es) None"
      "mr_prev_log_number mr = noted has_prev_log_number ve_prev_log_number (take j es) None"
      "mr_next_file mr = noted has_next_file_number ve_next_file_number (take j es) None"
      "mr_last_sequence mr = noted has_last_sequence ve_last_sequence (take j es) None"
      "\<forall>i \<le> length es. length (log_bytes 0 (map edit_bytes (take i es))) \<le> n \<longrightarrow> i \<le> j" by (auto simp: start_def)
  have j2: "2 \<le> j" using j(10) kept es(3) by blast
  note end_ = last_taken [OF j2 j(2) es(4)]
  have numbers: "mr_log_number mr = Some (ve_log_number (es ! (j - 1)))" "mr_prev_log_number mr = Some (ve_prev_log_number (es ! (j - 1)))"
      "mr_next_file mr = Some (ve_next_file_number (es ! (j - 1)))" "mr_last_sequence mr = Some (ve_last_sequence (es ! (j - 1)))"
    unfolding j(6-9) end_(1) [symmetric] using end_(2) by (intro noted_last end_(3); simp add: end_(1) complete_def)+
  have "table_set [] (saved [] (Builder_new Version_new)) l = {}" if "l < kNumLevels" for l
    using that unfolding saved_initial by (simp add: table_set_def level_descs_def Version_new_def)
  then have "fold apply_tables (take j es) (table_set [] (saved [] (Builder_new Version_new))) l = tables_after (take j es) l" if "l < kNumLevels" for l
    unfolding tables_after_def using that by (intro apply_tables_cong)
  then show ?thesis using j(1-5,10) j2 numbers by metis
qed

text \<open>C6: a crash does not lose the set of tables. Let a new manifest be written by any number of successful calls of
  \<^verbatim>\<open>LogAndApply\<close>, the first of which writes a snapshot, on files without faults, and let a crash keep any number of bytes of it, but at least
  the first two records, after which \<^verbatim>\<open>CURRENT\<close> is set. Then \<^verbatim>\<open>Recover\<close> returns OK, and for some \<open>j\<close>, at least the number of the records that
  were kept completely, every level has exactly the tables that the first \<open>j\<close> edits leave (an edit deletes tables and adds tables), and the
  numbers of the logs, the next file and the last sequence are those of edit \<open>j\<close>. When all records were kept, every level has
  the same tables in the same order as before the crash, whether or not the manifest is then written further.\<close>

theorem manifest_survives_crash:
  assumes run: "manifest_run dbl cmp_name es vs" and w: "vs_descriptor vs = Some w"
    and kept: "length (log_bytes 0 (map edit_bytes (take 2 es))) \<le> n"
    and opened: "opened (dbname @ bytes_of ''/'' @ base) = Inr (name, \<lparr>disk = take n (posix_content (dest w)), pending = [], pos = 0, outcomes = []\<rparr>)"
  shows "\<exists>j save vs'. VersionSet_Recover dbl BytewiseComparator cmp_name PosixSequentialFile unknown (Inr (base @ [10])) opened dbname
        (ReuseManifest reuse max_file_size parsed sz appended) VersionSet_new = Some (OK, save, vs') \<and>
     2 \<le> j \<and> j \<le> length es \<and> (\<forall>i \<le> length es. length (log_bytes 0 (map edit_bytes (take i es))) \<le> n \<longrightarrow> i \<le> j) \<and>
     (\<forall>l < kNumLevels. table_set (vs_heap vs') (vs_current vs') l = tables_after (take j es) l) \<and>
     vs_log_number vs' = ve_log_number (es ! (j - 1)) \<and> vs_prev_log_number vs' = ve_prev_log_number (es ! (j - 1)) \<and>
     vs_next_file_number vs' = ve_next_file_number (es ! (j - 1)) + 1 \<and> vs_last_sequence vs' = ve_last_sequence (es ! (j - 1)) \<and>
     (j = length es \<longrightarrow> vs_log_number vs' = vs_log_number vs \<and>
        (\<forall>l < kNumLevels. level_descs (vs_heap vs') (vs_current vs') l = level_descs (vs_heap vs) (vs_current vs) l))"
proof -
  have inv: "posix_synced.manifest_file w es" "\<forall>e \<in> set es. edit_reads cmp_name e" "edits_legal (\<lambda>_. {}) es" "2 \<le> length es"
      "\<forall>e \<in> set (tl es). complete e" "builder_ok (used_after es) (vs_heap vs) (Builder_new (vs_current vs))"
      "\<forall>l < kNumLevels. table_set (vs_heap vs) (vs_current vs) l = tables_after es l" "vs_log_number vs = ve_log_number (last es)"
    using manifest_run_inv [OF run] w by (auto simp: manifest_inv_def)
  have F: "posix_content (dest w) = log_bytes 0 (map edit_bytes es)" using inv(1) by (simp add: posix_synced.manifest_file_def)
  from manifest_read_back [OF inv(2-5) kept, of unknown name]
  obtain j mr used where j: "while_true (manifest_turn BytewiseComparator cmp_name PosixSequentialFile unknown)
        \<lparr>mr_reader = Reader_new (name, \<lparr>disk = take n (log_bytes 0 (map edit_bytes es)), pending = [], pos = 0, outcomes = []\<rparr>) True True 0,
         mr_status = OK, mr_heap = [], mr_pointers = replicate kNumLevels [], mr_builder = Builder_new Version_new, mr_log_number = None,
         mr_prev_log_number = None, mr_next_file = None, mr_last_sequence = None\<rparr> = Some (Some mr)"
      "2 \<le> j" "j \<le> length es" "mr_status mr = OK" "builder_ok used (mr_heap mr) (mr_builder mr)"
      "\<forall>l < kNumLevels. table_set (mr_heap mr) (saved (mr_heap mr) (mr_builder mr)) l = tables_after (take j es) l"
      "mr_log_number mr = Some (ve_log_number (es ! (j - 1)))" "mr_prev_log_number mr = Some (ve_prev_log_number (es ! (j - 1)))"
      "mr_next_file mr = Some (ve_next_file_number (es ! (j - 1)))" "mr_last_sequence mr = Some (ve_last_sequence (es ! (j - 1)))"
      "\<forall>i \<le> length es. length (log_bytes 0 (map edit_bytes (take i es))) \<le> n \<longrightarrow> i \<le> j" by blast
  from Recover_install_good [OF j(4,7-10), of dbl reuse max_file_size parsed sz appended VersionSet_new]
  obtain save vs' where r: "Recover_install dbl BytewiseComparator (ReuseManifest reuse max_file_size parsed sz appended) mr VersionSet_new = (OK, save, vs')"
      "vs_heap vs' = mr_heap mr" "v_files (vs_current vs') = v_files (saved (mr_heap mr) (mr_builder mr))"
      "vs_log_number vs' = ve_log_number (es ! (j - 1))" "vs_prev_log_number vs' = ve_prev_log_number (es ! (j - 1))"
      "vs_next_file_number vs' = ve_next_file_number (es ! (j - 1)) + 1" "vs_last_sequence vs' = ve_last_sequence (es ! (j - 1))" by blast
  have "VersionSet_Recover dbl BytewiseComparator cmp_name PosixSequentialFile unknown (Inr (base @ [10])) opened dbname
      (ReuseManifest reuse max_file_size parsed sz appended) VersionSet_new = Some (OK, save, vs')"
    using j(1) r(1) opened [unfolded F] by (simp add: VersionSet_Recover_def VersionSet_new_def)
  moreover have descs: "level_descs (vs_heap vs') (vs_current vs') l = level_descs (mr_heap mr) (saved (mr_heap mr) (mr_builder mr)) l" for l
    by (simp add: level_descs_def r(2,3))
  moreover have tables: "\<forall>l < kNumLevels. table_set (vs_heap vs') (vs_current vs') l = tables_after (take j es) l"
    using j(6) descs by (simp add: table_set_def)
  moreover have "level_descs (vs_heap vs') (vs_current vs') l = level_descs (vs_heap vs) (vs_current vs) l" if "j = length es" "l < kNumLevels" for l
    using same_tables_same_descs [OF j(5) inv(6) that(2)] tables inv(7) that descs by (simp add: table_set_def)
  moreover have "vs_log_number vs' = vs_log_number vs" if "j = length es"
    using that r(4) inv(8) last_taken(1) [OF j(2,3) inv(5)] by simp
  ultimately show ?thesis using j(2,3,11) r(4-7) by blast
qed

text \<open>The first call on a new database, which adds a table to level 1.\<close>

definition first_edit :: VersionEdit where
  "first_edit = AddFile 1 3 100 [1, 1, 5, 0, 0, 0, 0, 0, 0] [2, 1, 5, 0, 0, 0, 0, 0, 0] Edit_new"

lemma first_run:
  "\<exists>es vs w. manifest_run dbl [99] es vs \<and> vs_descriptor vs = Some w \<and> length es = 2 \<and>
     tables_after es 1 = {(3, 100, [1, 1, 5, 0, 0, 0, 0, 0, 0], [2, 1, 5, 0, 0, 0, 0, 0, 0])}"
proof -
  note edit_defs = AddFile_def Edit_new_def FileMetaData_new_def first_edit_def
  let ?vs = "VersionSet_new :: posix_file VersionSet" and ?f = "posix_file_new [] empty_file"
  let ?e = "complete_edit ?vs first_edit"
  define vs1 where "vs1 = snd (next_version dbl BytewiseComparator ?e ?vs)"
  let ?s = "snapshot_edit [99] vs1"
  have ok: "builder_ok (\<lambda>_. {}) (vs_heap ?vs) (Builder_new (vs_current ?vs))"
    using builder_ok_initial by (simp add: VersionSet_new_def)
  have none: "current_numbers ?vs = (\<lambda>_. {})" by (rule ext) (simp add: current_numbers_def VersionSet_new_def Version_new_def)
  have legal: "edit_legal (\<lambda>_. {}) first_edit"
    by (simp add: edit_legal_def adds_legal_def edit_numbers_Cons edit_defs kNumLevels_def)
  then have legal': "edit_legal (\<lambda>_. {}) ?e" by (subst edit_legal_cong [of _ first_edit]) (simp_all add: complete_edit_parts)
  have cur: "vs_current vs1 = Version_new" using next_version_heap(2) [OF ok legal' vs1_def] by (simp add: VersionSet_new_def)
  have "vs_compact_pointer vs1 = replicate kNumLevels []"
    by (simp add: vs1_def next_version_def Builder_Apply_def Let_def complete_edit_def edit_defs VersionSet_new_def
        SetLogNumber_def SetPrevLogNumber_def SetNextFile_def SetLastSequence_def split: prod.split)
  then have s: "?s = SetComparatorName [99] Edit_new"
    by (simp add: snapshot_edit_def snapshot_files_eq cur Version_new_def snapshot_pointers_def kNumLevels_def upt_rec edit_defs SetComparatorName_def)
  have read: "edit_reads [99] ?s" by (simp add: s edit_reads_def edit_ok_def SetComparatorName_def Edit_new_def)
  have read': "edit_reads [99] ?e"
    by (simp add: edit_reads_def edit_ok_def complete_edit_def Let_def edit_defs SetLogNumber_def SetPrevLogNumber_def SetNextFile_def SetLastSequence_def)
  have f: "posix_good ?f" "posix_content ?f = []"
    by (simp_all add: posix_file_new_def posix_good_def empty_file_def posix_content_def)
  have desc: "vs_descriptor ?vs = None" by (simp add: VersionSet_new_def)
  obtain w vs' where call: "LogAndApply dbl BytewiseComparator PosixWritableFile [99] (Inr ?f) OK first_edit ?vs = (OK, ?e, vs')" "vs_descriptor vs' = Some w"
    using LogAndApply_tables [OF ok legal, of "Inr ?f" ?f OK "[?s]" "[99]" dbl] f desc by (auto simp: vs1_def ok_def OK_def)
  have "manifest_run dbl [99] [?s, ?e] vs'"
    by (rule manifest_run.first [OF desc ok f _ read' vs1_def read call(1)]) (simp add: none legal)
  moreover have "tables_after [?s, ?e] 1 = {(3, 100, [1, 1, 5, 0, 0, 0, 0, 0, 0], [2, 1, 5, 0, 0, 0, 0, 0, 0])}"
    by (simp add: tables_after_def apply_tables_def s complete_edit_parts SetComparatorName_def added_descs_def edit_defs desc_def)
  ultimately show ?thesis using call(2) by (intro exI [of _ "[?s, ?e]"] exI [of _ vs'] exI [of _ w]) simp
qed

theorem manifest_survives_crash_witness:
  "\<exists>es vs w save vs'. manifest_run id [99] es vs \<and> vs_descriptor vs = Some w \<and>
     VersionSet_Recover id BytewiseComparator [99] PosixSequentialFile (\<lambda>_. []) (Inr [77, 10])
       (\<lambda>_. Inr ([], \<lparr>disk = posix_content (dest w), pending = [], pos = 0, outcomes = []\<rparr>)) []
       (ReuseManifest False 0 None None (Inl OK)) (VersionSet_new :: posix_file VersionSet) = Some (OK, save, vs') \<and>
     table_set (vs_heap vs') (vs_current vs') 1 = {(3, 100, [1, 1, 5, 0, 0, 0, 0, 0, 0], [2, 1, 5, 0, 0, 0, 0, 0, 0])}"
proof -
  obtain es vs w where run: "manifest_run id [99] es vs" "vs_descriptor vs = Some w" "length es = 2"
      "tables_after es 1 = {(3, 100, [1, 1, 5, 0, 0, 0, 0, 0, 0], [2, 1, 5, 0, 0, 0, 0, 0, 0])}" using first_run by blast
  let ?op = "\<lambda>_. Inr ([], \<lparr>disk = posix_content (dest w), pending = [], pos = 0, outcomes = []\<rparr>) :: Status + slice \<times> FILE"
  let ?n = "length (log_bytes 0 (map edit_bytes (take 2 es))) + length (posix_content (dest w))"
  have "take ?n (posix_content (dest w)) = posix_content (dest w)" by simp
  then have op: "?op ([] @ bytes_of ''/'' @ [77]) = Inr ([], \<lparr>disk = take ?n (posix_content (dest w)), pending = [], pos = 0, outcomes = []\<rparr>)"
    by (simp only:)
  obtain j save and vs' :: "posix_file VersionSet" where r: "VersionSet_Recover id BytewiseComparator [99] PosixSequentialFile (\<lambda>_. []) (Inr ([77] @ [10])) ?op []
      (ReuseManifest False 0 None None (Inl OK)) VersionSet_new = Some (OK, save, vs')" "2 \<le> j" "j \<le> length es"
      "\<forall>l < kNumLevels. table_set (vs_heap vs') (vs_current vs') l = tables_after (take j es) l"
    using manifest_survives_crash [OF run(1,2) le_add1 op, where unknown = "\<lambda>_. []" and reuse = False and max_file_size = 0 and
        parsed = None and sz = None and appended = "Inl OK"] by blast
  have "j = 2" using r(2,3) run(3) by simp
  then have "table_set (vs_heap vs') (vs_current vs') 1 = tables_after es 1" using r(4) run(3) by (simp add: kNumLevels_def)
  then have "table_set (vs_heap vs') (vs_current vs') 1 = {(3, 100, [1, 1, 5, 0, 0, 0, 0, 0, 0], [2, 1, 5, 0, 0, 0, 0, 0, 0])}"
    by (simp only: run(4))
  moreover have "VersionSet_Recover id BytewiseComparator [99] PosixSequentialFile (\<lambda>_. []) (Inr [77, 10]) ?op []
      (ReuseManifest False 0 None None (Inl OK)) VersionSet_new = Some (OK, save, vs')" using r(1) by (simp only: append.simps)
  ultimately show ?thesis using run(1,2) by blast
qed

end
