(* ===== verification/LdbCompaction.thy ===== *)
theory LdbCompaction
  imports LdbVersionSet "HOL-Library.Monad_Syntax"
begin

text \<open>
  Compactions: which tables are taken (\<^verbatim>\<open>db/version_set.cc\<close>) and what becomes of their entries (\<^verbatim>\<open>DBImpl::DoCompactionWork\<close> in
  \<^verbatim>\<open>db/db_impl.cc\<close>). The entries come from an iterator over all inputs, here the list of what it returns. The tables that are written are
  behind the parameters of \<open>output_env\<close>: whether a file can be made and finished and how large a table with some entries is. Other threads may take numbers of
  files in between, so the numbers are a parameter too. The memtable that may be compacted during the loop is not part of this state (it is a
  step of \<open>db_step\<close>).
\<close>

section \<open>State of a compaction\<close>

record Compaction =
  c_level :: nat
  c_max_output_file_size :: u64
  c_input_version :: Version
  c_edit :: VersionEdit
  c_inputs0 :: "file_ptr list"
  c_inputs1 :: "file_ptr list"
  c_grandparents :: "file_ptr list"
  c_grandparent_index :: nat
  c_seen_key :: bool
  c_overlapped_bytes :: u64
  c_level_ptrs :: "nat list"

definition Compaction_new :: "u64 \<Rightarrow> nat \<Rightarrow> Version \<Rightarrow> Compaction" where
  "Compaction_new max_file_size lv v =
     \<lparr>c_level = lv, c_max_output_file_size = MaxFileSizeForLevel max_file_size, c_input_version = v, c_edit = Edit_new,
      c_inputs0 = [], c_inputs1 = [], c_grandparents = [], c_grandparent_index = 0, c_seen_key = False, c_overlapped_bytes = 0,
      c_level_ptrs = replicate kNumLevels 0\<rparr>"

section \<open>Choosing the inputs\<close>

definition range_step :: "comparator_class \<Rightarrow> FileMetaData \<Rightarrow> slice \<times> slice \<Rightarrow> slice \<times> slice" where
  "range_step icmp f = (\<lambda>(smallest, largest).
     (if Compare icmp (fm_smallest f) smallest < 0 then fm_smallest f else smallest,
      if Compare icmp (fm_largest f) largest > 0 then fm_largest f else largest))"

definition GetRange :: "comparator_class \<Rightarrow> FileMetaData list \<Rightarrow> slice \<times> slice" where
  "GetRange icmp inputs = (case inputs of [] \<Rightarrow> ([], []) | f # fs \<Rightarrow> fold (range_step icmp) fs (fm_smallest f, fm_largest f))"

definition GetRange2 :: "comparator_class \<Rightarrow> FileMetaData list \<Rightarrow> FileMetaData list \<Rightarrow> slice \<times> slice" where
  "GetRange2 icmp inputs1 inputs2 = GetRange icmp (inputs1 @ inputs2)"

text \<open>
  The attempt to take more tables at the level without more at the next one. The result has both inputs and the range of the first;
  \<open>None\<close> is a loop that does not end, here and below.
\<close>

definition grow_inputs ::
    "u64 \<Rightarrow> comparator_class \<Rightarrow> files \<Rightarrow> Version \<Rightarrow> nat \<Rightarrow> slice \<times> slice \<Rightarrow> file_ptr list \<Rightarrow> file_ptr list \<Rightarrow>
     (file_ptr list \<times> file_ptr list \<times> slice \<times> slice) option" where
  "grow_inputs max_file_size ucmp h v lv bounds inputs0 inputs1 =
     (let icmp = InternalKeyComparator ucmp;
          (all_start, all_limit) = GetRange2 icmp (deref h inputs0) (deref h inputs1)
      in if inputs1 = [] then Some (inputs0, inputs1, bounds)
         else do {
           expanded0 \<leftarrow> GetOverlappingInputs ucmp h v lv (Some all_start) (Some all_limit);
           if length expanded0 > length inputs0 \<and>
              TotalFileSize (deref h inputs1) + TotalFileSize (deref h expanded0) < ExpandedCompactionByteSizeLimit max_file_size
           then do {
             let (new_start, new_limit) = GetRange icmp (deref h expanded0);
             expanded1 \<leftarrow> GetOverlappingInputs ucmp h v (lv + 1) (Some new_start) (Some new_limit);
             Some (if length expanded1 = length inputs1 then (expanded0, expanded1, new_start, new_limit) else (inputs0, inputs1, bounds))
           }
           else Some (inputs0, inputs1, bounds)
         })"

definition SetupOtherInputs :: "u64 \<Rightarrow> comparator_class \<Rightarrow> Compaction \<Rightarrow> 'f VersionSet \<Rightarrow> (Compaction \<times> 'f VersionSet) option" where
  "SetupOtherInputs max_file_size ucmp c vs =
     (let icmp = InternalKeyComparator ucmp; h = vs_heap vs; v = vs_current vs; lv = c_level c;
          (smallest, largest) = GetRange icmp (deref h (c_inputs0 c))
      in do {
        inputs1 \<leftarrow> GetOverlappingInputs ucmp h v (lv + 1) (Some smallest) (Some largest);
        (inputs0, inputs1, smallest, largest) \<leftarrow> grow_inputs max_file_size ucmp h v lv (smallest, largest) (c_inputs0 c) inputs1;
        let (all_start, all_limit) = GetRange2 icmp (deref h inputs0) (deref h inputs1);
        grandparents \<leftarrow> (if lv + 2 < kNumLevels then GetOverlappingInputs ucmp h v (lv + 2) (Some all_start) (Some all_limit)
                         else Some (c_grandparents c));
        Some (c\<lparr>c_inputs0 := inputs0, c_inputs1 := inputs1, c_grandparents := grandparents,
                c_edit := SetCompactPointer (int lv) largest (c_edit c)\<rparr>,
              vs\<lparr>vs_compact_pointer := (vs_compact_pointer vs)[lv := largest]\<rparr>)
      })"

text \<open>The first table behind the compaction pointer, or the first of all. A level without tables has none, which the code does not expect.\<close>

definition size_input :: "comparator_class \<Rightarrow> files \<Rightarrow> file_ptr list \<Rightarrow> slice \<Rightarrow> file_ptr option" where
  "size_input icmp h fs pointer =
     (case find (\<lambda>p. pointer = [] \<or> Compare icmp (fm_largest (h ! p)) pointer > 0) fs of
        Some p \<Rightarrow> Some p
      | None \<Rightarrow> (case fs of [] \<Rightarrow> None | p # _ \<Rightarrow> Some p))"

definition PickCompaction :: "u64 \<Rightarrow> comparator_class \<Rightarrow> 'f VersionSet \<Rightarrow> (Compaction option \<times> 'f VersionSet) option" where
  "PickCompaction max_file_size ucmp vs =
     (let icmp = InternalKeyComparator ucmp; h = vs_heap vs; v = vs_current vs;
          size_compaction = (v_compaction_score v \<ge> 1);
          picked = (if size_compaction then
                      let lv = nat (v_compaction_level v)
                      in map_option (\<lambda>p. Some (lv, p)) (size_input icmp h (v_files v ! lv) (vs_compact_pointer vs ! lv))
                    else Some (map_option (\<lambda>p. (nat (v_file_to_compact_level v), p)) (v_file_to_compact v)))
      in do {
        chosen \<leftarrow> picked;
        case chosen of
          None \<Rightarrow> Some (None, vs)
        | Some (lv, p) \<Rightarrow> do {
            let (smallest, largest) = GetRange icmp (deref h [p]);
            inputs0 \<leftarrow> (if lv = 0 then GetOverlappingInputs ucmp h v 0 (Some smallest) (Some largest) else Some [p]);
            (c, vs) \<leftarrow> SetupOtherInputs max_file_size ucmp ((Compaction_new max_file_size lv v)\<lparr>c_inputs0 := inputs0\<rparr>) vs;
            Some (Some c, vs)
          }
      })"

fun cut_inputs :: "u64 \<Rightarrow> files \<Rightarrow> u64 \<Rightarrow> file_ptr list \<Rightarrow> file_ptr list" where
  "cut_inputs max_total h bytes [] = []"
| "cut_inputs max_total h bytes (p # ps) =
     (let bytes = bytes + fm_file_size (h ! p) in if bytes \<ge> max_total then [p] else p # cut_inputs max_total h bytes ps)"

definition CompactRange ::
    "u64 \<Rightarrow> comparator_class \<Rightarrow> nat \<Rightarrow> slice option \<Rightarrow> slice option \<Rightarrow> 'f VersionSet \<Rightarrow> (Compaction option \<times> 'f VersionSet) option" where
  "CompactRange max_file_size ucmp lv begin_key end_key vs =
     do {
       inputs \<leftarrow> GetOverlappingInputs ucmp (vs_heap vs) (vs_current vs) lv begin_key end_key;
       if inputs = [] then Some (None, vs)
       else do {
         let inputs = (if lv > 0 then cut_inputs (MaxFileSizeForLevel max_file_size) (vs_heap vs) 0 inputs else inputs);
         (c, vs) \<leftarrow> SetupOtherInputs max_file_size ucmp ((Compaction_new max_file_size lv (vs_current vs))\<lparr>c_inputs0 := inputs\<rparr>) vs;
         Some (Some c, vs)
       }
     }"

fun max_overlap :: "comparator_class \<Rightarrow> files \<Rightarrow> Version \<Rightarrow> nat \<Rightarrow> file_ptr list \<Rightarrow> int \<Rightarrow> int option" where
  "max_overlap ucmp h v lv [] result = Some result"
| "max_overlap ucmp h v lv (p # ps) result =
     do {
       overlaps \<leftarrow> GetOverlappingInputs ucmp h v (lv + 1) (Some (fm_smallest (h ! p))) (Some (fm_largest (h ! p)));
       let sum = TotalFileSize (deref h overlaps);
       max_overlap ucmp h v lv ps (if sum > result then sum else result)
     }"

definition MaxNextLevelOverlappingBytes :: "comparator_class \<Rightarrow> 'f VersionSet \<Rightarrow> int option" where
  "MaxNextLevelOverlappingBytes ucmp vs =
     fold (\<lambda>lv r. r \<bind> max_overlap ucmp (vs_heap vs) (vs_current vs) lv (v_files (vs_current vs) ! lv)) [1..<kNumLevels - 1] (Some 0)"

section \<open>What a compaction is asked\<close>

definition IsTrivialMove :: "u64 \<Rightarrow> files \<Rightarrow> Compaction \<Rightarrow> bool" where
  "IsTrivialMove max_file_size h c \<longleftrightarrow>
     length (c_inputs0 c) = 1 \<and> length (c_inputs1 c) = 0 \<and>
     TotalFileSize (deref h (c_grandparents c)) \<le> MaxGrandParentOverlapBytes max_file_size"

definition AddInputDeletions :: "files \<Rightarrow> Compaction \<Rightarrow> VersionEdit \<Rightarrow> VersionEdit" where
  "AddInputDeletions h c edit =
     fold (\<lambda>p. DeleteFile (int (c_level c) + 1) (fm_number (h ! p))) (c_inputs1 c)
       (fold (\<lambda>p. DeleteFile (int (c_level c)) (fm_number (h ! p))) (c_inputs0 c) edit)"

text \<open>The search in the rest of the tables of a level: the new position, and whether no table has the key in its range.\<close>

fun base_search :: "comparator_class \<Rightarrow> slice \<Rightarrow> FileMetaData list \<Rightarrow> nat \<Rightarrow> nat \<times> bool" where
  "base_search ucmp ukey [] i = (i, True)"
| "base_search ucmp ukey (f # fs) i =
     (if Compare ucmp ukey (file_limit f) \<le> 0 then (i, \<not> Compare ucmp ukey (file_start f) \<ge> 0) else base_search ucmp ukey fs (i + 1))"

fun base_levels :: "comparator_class \<Rightarrow> files \<Rightarrow> Version \<Rightarrow> slice \<Rightarrow> nat list \<Rightarrow> nat list \<Rightarrow> bool \<times> nat list" where
  "base_levels ucmp h v ukey [] ptrs = (True, ptrs)"
| "base_levels ucmp h v ukey (lv # lvs) ptrs =
     (case base_search ucmp ukey (drop (ptrs ! lv) (level_files h v lv)) (ptrs ! lv) of
        (i, none) \<Rightarrow> if none then base_levels ucmp h v ukey lvs (ptrs[lv := i]) else (False, ptrs[lv := i]))"

definition IsBaseLevelForKey :: "comparator_class \<Rightarrow> files \<Rightarrow> slice \<Rightarrow> Compaction \<Rightarrow> bool \<times> Compaction" where
  "IsBaseLevelForKey ucmp h ukey c =
     (case base_levels ucmp h (c_input_version c) ukey [c_level c + 2..<kNumLevels] (c_level_ptrs c) of
        (base, ptrs) \<Rightarrow> (base, c\<lparr>c_level_ptrs := ptrs\<rparr>))"

fun pass_grandparents :: "comparator_class \<Rightarrow> slice \<Rightarrow> bool \<Rightarrow> FileMetaData list \<Rightarrow> nat \<Rightarrow> u64 \<Rightarrow> nat \<times> u64" where
  "pass_grandparents icmp ikey seen [] i bytes = (i, bytes)"
| "pass_grandparents icmp ikey seen (f # fs) i bytes =
     (if Compare icmp ikey (fm_largest f) > 0 then pass_grandparents icmp ikey seen fs (i + 1) (if seen then bytes + fm_file_size f else bytes)
      else (i, bytes))"

definition ShouldStopBefore :: "u64 \<Rightarrow> comparator_class \<Rightarrow> files \<Rightarrow> slice \<Rightarrow> Compaction \<Rightarrow> bool \<times> Compaction" where
  "ShouldStopBefore max_file_size icmp h ikey c =
     (case pass_grandparents icmp ikey (c_seen_key c) (drop (c_grandparent_index c) (deref h (c_grandparents c)))
             (c_grandparent_index c) (c_overlapped_bytes c) of
        (i, bytes) \<Rightarrow>
          let c = c\<lparr>c_grandparent_index := i, c_seen_key := True\<rparr>
          in if sint bytes > MaxGrandParentOverlapBytes max_file_size then (True, c\<lparr>c_overlapped_bytes := 0\<rparr>)
             else (False, c\<lparr>c_overlapped_bytes := bytes\<rparr>))"

section \<open>Writing the outputs\<close>

type_synonym entries = "(slice \<times> slice) list"

record Output =
  out_number :: u64
  out_file_size :: u64
  out_smallest :: slice
  out_largest :: slice

text \<open>\<open>cs_builder\<close> has the entries of the table that is being built; \<open>cs_tables\<close> is what has been written, for the properties.\<close>

record CompactionState =
  cs_compaction :: Compaction
  cs_smallest_snapshot :: SequenceNumber
  cs_outputs :: "Output list"
  cs_builder :: "entries option"
  cs_total_bytes :: u64
  cs_tables :: "(u64 \<times> entries) list"

definition CompactionState_new :: "Compaction \<Rightarrow> CompactionState" where
  "CompactionState_new c = \<lparr>cs_compaction = c, cs_smallest_snapshot = 0, cs_outputs = [], cs_builder = None, cs_total_bytes = 0, cs_tables = []\<rparr>"

text \<open>
  \<open>new_number\<close> is the number that \<^verbatim>\<open>NewFileNumber\<close> gives to an output, \<open>opened_table\<close> the status of making its file,
  \<open>table_size\<close> the size of a table with some entries, \<open>finished\<close> the status of finishing and checking one, \<open>input_status\<close>
  that of the iterator when some entries are left.
\<close>

record output_env =
  new_number :: "nat \<Rightarrow> u64"
  opened_table :: "u64 \<Rightarrow> Status"
  table_size :: "entries \<Rightarrow> u64"
  finished :: "u64 \<Rightarrow> entries \<Rightarrow> Status"
  input_status :: "entries \<Rightarrow> Status"
  shut_down :: "entries \<Rightarrow> bool"

definition OpenCompactionOutputFile :: "output_env \<Rightarrow> CompactionState \<Rightarrow> Status \<times> CompactionState" where
  "OpenCompactionOutputFile env st =
     (let n = new_number env (length (cs_outputs st));
          st = st\<lparr>cs_outputs := cs_outputs st @ [\<lparr>out_number = n, out_file_size = 0, out_smallest = [], out_largest = []\<rparr>]\<rparr>;
          s = opened_table env n
      in (s, if ok s then st\<lparr>cs_builder := Some []\<rparr> else st))"

definition set_last_output :: "(Output \<Rightarrow> Output) \<Rightarrow> CompactionState \<Rightarrow> CompactionState" where
  "set_last_output g st = st\<lparr>cs_outputs := butlast (cs_outputs st) @ [g (last (cs_outputs st))]\<rparr>"

definition FinishCompactionOutputFile :: "output_env \<Rightarrow> entries \<Rightarrow> entries \<Rightarrow> CompactionState \<Rightarrow> Status \<times> CompactionState" where
  "FinishCompactionOutputFile env input es st =
     (let n = out_number (last (cs_outputs st));
          bytes = table_size env es;
          s = (if ok (input_status env input) then finished env n es else input_status env input);
          st = set_last_output (\<lambda>out. out\<lparr>out_file_size := bytes\<rparr>) st
      in (s, st\<lparr>cs_total_bytes := cs_total_bytes st + bytes, cs_builder := None,
                  cs_tables := cs_tables st @ (if ok s then [(n, es)] else [])\<rparr>))"

text \<open>Whether an entry is dropped: the user key before it, if there is one, and the last sequence number that was seen for that.\<close>

record DropState =
  current_user_key :: "slice option"
  last_sequence_for_key :: SequenceNumber

definition drop_entry ::
    "comparator_class \<Rightarrow> files \<Rightarrow> slice \<Rightarrow> DropState \<Rightarrow> CompactionState \<Rightarrow> bool \<times> DropState \<times> CompactionState" where
  "drop_entry ucmp h key ds st =
     (case ParseInternalKey key of
        None \<Rightarrow> (False, \<lparr>current_user_key = None, last_sequence_for_key = kMaxSequenceNumber\<rparr>, st)
      | Some ikey \<Rightarrow>
          let first = (case current_user_key ds of None \<Rightarrow> True | Some k \<Rightarrow> Compare ucmp (pk_user_key ikey) k \<noteq> 0);
              ds = (if first then \<lparr>current_user_key = Some (pk_user_key ikey), last_sequence_for_key = kMaxSequenceNumber\<rparr> else ds);
              (dropped, st) =
                (if last_sequence_for_key ds \<le> cs_smallest_snapshot st then (True, st)
                 else if pk_type ikey = kTypeDeletion \<and> pk_sequence ikey \<le> cs_smallest_snapshot st then
                   (case IsBaseLevelForKey ucmp h (pk_user_key ikey) (cs_compaction st) of (base, c) \<Rightarrow> (base, st\<lparr>cs_compaction := c\<rparr>))
                 else (False, st))
          in (dropped, ds\<lparr>last_sequence_for_key := pk_sequence ikey\<rparr>, st))"

text \<open>An entry that is kept; \<open>input\<close> is what the iterator has left, this entry first.\<close>

definition keep_entry :: "output_env \<Rightarrow> entries \<Rightarrow> slice \<times> slice \<Rightarrow> CompactionState \<Rightarrow> Status \<times> CompactionState" where
  "keep_entry env input e st =
     (case (case cs_builder st of None \<Rightarrow> OpenCompactionOutputFile env st | Some _ \<Rightarrow> (OK, st)) of
        (s, st) \<Rightarrow>
          if \<not> ok s then (s, st)
          else
            let es = (case cs_builder st of None \<Rightarrow> [] | Some es \<Rightarrow> es);
                st = (if es = [] then set_last_output (\<lambda>out. out\<lparr>out_smallest := fst e\<rparr>) st else st);
                st = (set_last_output (\<lambda>out. out\<lparr>out_largest := fst e\<rparr>) st)\<lparr>cs_builder := Some (es @ [e])\<rparr>
            in if table_size env (es @ [e]) \<ge> c_max_output_file_size (cs_compaction st)
               then FinishCompactionOutputFile env input (es @ [e]) st else (OK, st))"

definition stop_before :: "u64 \<Rightarrow> comparator_class \<Rightarrow> files \<Rightarrow> output_env \<Rightarrow> entries \<Rightarrow> slice \<Rightarrow> CompactionState \<Rightarrow> Status \<times> CompactionState" where
  "stop_before max_file_size ucmp h env input key st =
     (case ShouldStopBefore max_file_size (InternalKeyComparator ucmp) h key (cs_compaction st) of
        (stop, c) \<Rightarrow>
          let st = st\<lparr>cs_compaction := c\<rparr>
          in (case cs_builder st of
                Some es \<Rightarrow> if stop then FinishCompactionOutputFile env input es st else (OK, st)
              | None \<Rightarrow> (OK, st)))"

text \<open>The loop; the first result is what the iterator has left at its end.\<close>

fun compaction_loop ::
    "u64 \<Rightarrow> comparator_class \<Rightarrow> files \<Rightarrow> output_env \<Rightarrow> entries \<Rightarrow> DropState \<Rightarrow> CompactionState \<Rightarrow> entries \<times> Status \<times> CompactionState" where
  "compaction_loop max_file_size ucmp h env [] ds st = ([], OK, st)"
| "compaction_loop max_file_size ucmp h env (e # input) ds st =
     (if shut_down env (e # input) then (e # input, OK, st)
      else
        case stop_before max_file_size ucmp h env (e # input) (fst e) st of
          (s, st) \<Rightarrow>
            if \<not> ok s then (e # input, s, st)
            else
              case drop_entry ucmp h (fst e) ds st of
                (dropped, ds, st) \<Rightarrow>
                  if dropped then compaction_loop max_file_size ucmp h env input ds st
                  else (case keep_entry env (e # input) e st of
                          (s, st) \<Rightarrow> if ok s then compaction_loop max_file_size ucmp h env input ds st else (e # input, s, st)))"

definition compaction_outputs :: "Output list \<Rightarrow> nat \<Rightarrow> VersionEdit \<Rightarrow> VersionEdit" where
  "compaction_outputs outs lv edit =
     fold (\<lambda>out. AddFile (int lv + 1) (out_number out) (out_file_size out) (out_smallest out) (out_largest out)) outs edit"

text \<open>The edit that \<^verbatim>\<open>InstallCompactionResults\<close> passes to \<^verbatim>\<open>LogAndApply\<close>, and that of a trivial move.\<close>

definition results_edit :: "files \<Rightarrow> CompactionState \<Rightarrow> VersionEdit" where
  "results_edit h st =
     (let c = cs_compaction st in compaction_outputs (cs_outputs st) (c_level c) (AddInputDeletions h c (c_edit c)))"

definition trivial_move_edit :: "files \<Rightarrow> Compaction \<Rightarrow> VersionEdit" where
  "trivial_move_edit h c =
     (let f = h ! hd (c_inputs0 c)
      in AddFile (int (c_level c) + 1) (fm_number f) (fm_file_size f) (fm_smallest f) (fm_largest f)
           (DeleteFile (int (c_level c)) (fm_number f) (c_edit c)))"

text \<open>\<open>snapshots\<close> are the snapshots that are held, oldest first; the result tells whether there is an edit to be installed.\<close>

definition DoCompactionWork ::
    "u64 \<Rightarrow> comparator_class \<Rightarrow> files \<Rightarrow> output_env \<Rightarrow> SequenceNumber list \<Rightarrow> SequenceNumber \<Rightarrow> entries \<Rightarrow> CompactionState \<Rightarrow>
     Status \<times> VersionEdit option \<times> CompactionState" where
  "DoCompactionWork max_file_size ucmp h env snapshots last_sequence input st =
     (let st = st\<lparr>cs_smallest_snapshot := (case snapshots of [] \<Rightarrow> last_sequence | s # _ \<Rightarrow> s)\<rparr>;
          (left, s, st) = compaction_loop max_file_size ucmp h env input
            \<lparr>current_user_key = None, last_sequence_for_key = kMaxSequenceNumber\<rparr> st;
          s = (if ok s \<and> shut_down env left then IOError (bytes_of ''Deleting DB during compaction'') [] else s);
          (s, st) = (case cs_builder st of
                       Some es \<Rightarrow> if ok s then FinishCompactionOutputFile env left es st else (s, st)
                     | None \<Rightarrow> (s, st));
          s = (if ok s then input_status env left else s)
      in (s, if ok s then Some (results_edit h st) else None, st))"

end
