(* ===== verification/LdbVersionGet.thy ===== *)
theory LdbVersionGet
  imports LdbVersionProps
begin

text \<open>
  \<^verbatim>\<open>Version::Get\<close> against what it promises: the tables of a version hold operations, and a lookup at a snapshot finds the newest
  operation on the key that is not newer than the snapshot, whatever level it is at. What a table answers is a contract on
  the table cache; what the levels have to keep for it is \<open>lsm_ok\<close>.
\<close>

section \<open>Tables and versions that hold operations\<close>

abbreviation op_user :: "operation \<Rightarrow> slice" where "op_user op \<equiv> fst (snd (snd op))"
abbreviation op_value :: "operation \<Rightarrow> slice" where "op_value op \<equiv> snd (snd (snd op))"
abbreviation op_type :: "operation \<Rightarrow> ValueType" where "op_type op \<equiv> fst (snd op)"

definition op_ikey :: "operation \<Rightarrow> slice" where
  "op_ikey op = InternalKey_make (op_user op) (fst op) (op_type op)"

definition op_before :: "comparator_class \<Rightarrow> operation \<Rightarrow> operation \<Rightarrow> bool" where
  "op_before ucmp a b \<longleftrightarrow> Compare ucmp (op_user a) (op_user b) < 0 \<or> op_user a = op_user b \<and> fst b < fst a"

text \<open>Operations in the order of a table, and a table described by \<open>f\<close> that holds them.\<close>

definition ops_sorted :: "comparator_class \<Rightarrow> (slice \<Rightarrow> bool) \<Rightarrow> operation list \<Rightarrow> bool" where
  "ops_sorted ucmp valid ops \<longleftrightarrow> sorted_wrt (op_before ucmp) ops \<and> (\<forall>op \<in> set ops. fst op \<le> kMaxSequenceNumber \<and> valid (op_user op))"

definition table_holds :: "comparator_class \<Rightarrow> (slice \<Rightarrow> bool) \<Rightarrow> FileMetaData \<Rightarrow> operation list \<Rightarrow> bool" where
  "table_holds ucmp valid f ops \<longleftrightarrow> ops \<noteq> [] \<and> ops_sorted ucmp valid ops \<and> fm_smallest f = op_ikey (hd ops) \<and> fm_largest f = op_ikey (last ops)"

text \<open>
  The contract of the table cache: it hands the first entry that is not smaller than the key to the saver; it may leave that out when the
  entry has another user key, since a filter can tell so.
\<close>

definition first_entry :: "comparator_class \<Rightarrow> slice \<Rightarrow> operation list \<Rightarrow> operation option" where
  "first_entry ucmp k ops = find (\<lambda>op. Compare (InternalKeyComparator ucmp) (op_ikey op) k \<ge> 0) ops"

definition answers :: "table_get \<Rightarrow> comparator_class \<Rightarrow> FileMetaData \<Rightarrow> operation list \<Rightarrow> bool" where
  "answers tget ucmp f ops \<longleftrightarrow>
     (\<forall>k. 8 \<le> length k \<longrightarrow>
        tget (fm_number f) (fm_file_size f) k = (OK, map_option (\<lambda>op. (op_ikey op, op_value op)) (first_entry ucmp k ops)) \<or>
        tget (fm_number f) (fm_file_size f) k = (OK, None) \<and>
          (\<forall>op. first_entry ucmp k ops = Some op \<longrightarrow> op_user op \<noteq> ExtractUserKey k))"

definition newer :: "operation list \<Rightarrow> operation list \<Rightarrow> bool" where
  "newer as bs \<longleftrightarrow> (\<forall>a \<in> set as. \<forall>b \<in> set bs. op_user a = op_user b \<longrightarrow> fst b < fst a)"

text \<open>
  The invariant of the levels. \<open>ts\<close> gives the operations in the table with a number. A smaller level is newer; in level 0 a larger number
  is newer; behind level 0 the tables are in order.
\<close>

definition lsm_ok :: "comparator_class \<Rightarrow> (slice \<Rightarrow> bool) \<Rightarrow> (u64 \<Rightarrow> operation list) \<Rightarrow> files \<Rightarrow> Version \<Rightarrow> bool" where
  "lsm_ok ucmp valid ts h v \<longleftrightarrow>
     (\<forall>l < kNumLevels. \<forall>p \<in> set (v_files v ! l). table_holds ucmp valid (h ! p) (ts (fm_number (h ! p)))) \<and>
     (\<forall>l. 0 < l \<and> l < kNumLevels \<longrightarrow> disjoint_sorted ucmp (level_files h v l) \<and> length (v_files v ! l) < 2 ^ 31) \<and>
     distinct (map (\<lambda>p. fm_number (h ! p)) (v_files v ! 0)) \<and>
     (\<forall>p \<in> set (v_files v ! 0). \<forall>q \<in> set (v_files v ! 0). fm_number (h ! q) < fm_number (h ! p) \<longrightarrow>
        newer (ts (fm_number (h ! p))) (ts (fm_number (h ! q)))) \<and>
     (\<forall>i j. i < j \<and> j < kNumLevels \<longrightarrow> (\<forall>p \<in> set (v_files v ! i). \<forall>q \<in> set (v_files v ! j).
        newer (ts (fm_number (h ! p))) (ts (fm_number (h ! q)))))"

definition level_ops :: "(u64 \<Rightarrow> operation list) \<Rightarrow> files \<Rightarrow> Version \<Rightarrow> nat \<Rightarrow> operation set" where
  "level_ops ts h v l = (\<Union>p \<in> set (v_files v ! l). set (ts (fm_number (h ! p))))"

definition version_ops :: "(u64 \<Rightarrow> operation list) \<Rightarrow> files \<Rightarrow> Version \<Rightarrow> operation set" where
  "version_ops ts h v = (\<Union>l < kNumLevels. level_ops ts h v l)"

text \<open>The newest operation on a key that a snapshot sees, and none if there is none.\<close>

definition newest :: "operation set \<Rightarrow> slice \<Rightarrow> SequenceNumber \<Rightarrow> operation option \<Rightarrow> bool" where
  "newest S key snap r =
     (case r of
        None \<Rightarrow> \<forall>op \<in> S. \<not> (op_user op = key \<and> fst op \<le> snap)
      | Some op \<Rightarrow> op \<in> S \<and> op_user op = key \<and> fst op \<le> snap \<and> (\<forall>b \<in> S. op_user b = key \<and> fst b \<le> snap \<longrightarrow> fst b \<le> fst op))"

text \<open>What the caller gets for it: the status and the value.\<close>

definition get_outcome :: "operation option \<Rightarrow> slice \<Rightarrow> Status \<times> slice" where
  "get_outcome r value =
     (case r of None \<Rightarrow> (NotFound [] [], value)
      | Some op \<Rightarrow> (case op_type op of kTypeValue \<Rightarrow> (OK, op_value op) | kTypeDeletion \<Rightarrow> (NotFound [] [], value)))"

lemma newest_append:
  assumes "newest A key snap r" "newest B key snap r'" "\<And>a b. a \<in> A \<Longrightarrow> b \<in> B \<Longrightarrow> op_user a = op_user b \<Longrightarrow> fst b < fst a"
  shows "newest (A \<union> B) key snap (case r of None \<Rightarrow> r' | Some x \<Rightarrow> Some x)"
proof (cases r)
  case None
  then show ?thesis using assms by (cases r') (auto simp: newest_def)
next
  case (Some x)
  then have "fst b \<le> fst x" if "b \<in> B" "op_user b = key" for b
    using assms(1) assms(3) [of x b] that by (auto simp: newest_def)
  then show ?thesis using assms(1) Some by (auto simp: newest_def)
qed

lemma newest_empty: "newest {} key snap None"
  by (simp add: newest_def)

section \<open>One table\<close>

lemma internal_key_make: "internal_key (make_LookupKey key s) = InternalKey_make key s kTypeValue"
  by (simp add: internal_key_def make_LookupKey_def Let_def InternalKey_make_def AppendInternalKey_def PutFixed64_def kValueTypeForSeek_def)

lemma ParseInternalKey_op:
  "fst op \<le> kMaxSequenceNumber \<Longrightarrow>
     ParseInternalKey (op_ikey op) = Some \<lparr>pk_user_key = op_user op, pk_sequence = fst op, pk_type = op_type op\<rparr>"
  using ParseInternalKey_Append [of "\<lparr>pk_user_key = op_user op, pk_sequence = fst op, pk_type = op_type op\<rparr>"]
  by (simp add: op_ikey_def InternalKey_make_def)

context version_keys
begin

lemma op_key_fits: "fst op \<le> kMaxSequenceNumber \<Longrightarrow> valid (op_user op) \<Longrightarrow> key_fits valid (op_ikey op)"
  unfolding op_ikey_def by (rule key_fits_make)

lemma op_before_icmp:
  assumes "op_before ucmp a b" "fst a \<le> kMaxSequenceNumber" "fst b \<le> kMaxSequenceNumber" "valid (op_user a)"
  shows "icmp (op_ikey a) (op_ikey b) < 0"
  using assms Pack_le(2) [of "fst b" "fst a" "op_type b" "op_type a"] u.compare_refl [of "op_user a"]
  by (auto simp: op_before_def icmp_eq op_ikey_def)

lemma op_icmp_target:
  assumes "fst op \<le> kMaxSequenceNumber" "valid (op_user op)" "valid key" "snap \<le> kMaxSequenceNumber"
  shows "icmp (op_ikey op) (InternalKey_make key snap kTypeValue) \<ge> 0 \<longleftrightarrow>
     Compare ucmp key (op_user op) < 0 \<or> op_user op = key \<and> fst op \<le> snap"
proof (cases "op_user op = key")
  case True
  then have "icmp (op_ikey op) (InternalKey_make key snap kTypeValue) \<ge> 0 \<longleftrightarrow>
      PackSequenceAndType (fst op) (op_type op) \<le> PackSequenceAndType snap kTypeValue"
    using u.compare_refl [OF assms(3)] by (auto simp: icmp_eq op_ikey_def not_less)
  then show ?thesis using True Pack_le(1) [OF assms(1,4)] u.compare_refl [OF assms(3)] by simp
next
  case False
  then have "Compare ucmp (op_user op) key \<noteq> 0" using u.compare_eq_0 assms by blast
  then show ?thesis using False u.compare_flip [of key "op_user op"] assms by (auto simp: icmp_eq op_ikey_def Let_def)
qed

lemma table_meta_ok:
  assumes "table_holds ucmp valid f ops"
  shows "meta_ok ucmp valid f"
proof -
  have ops: "ops \<noteq> []" "sorted_wrt (op_before ucmp) ops" "\<forall>op \<in> set ops. fst op \<le> kMaxSequenceNumber \<and> valid (op_user op)"
    "fm_smallest f = op_ikey (hd ops)" "fm_largest f = op_ikey (last ops)"
    using assms by (auto simp: table_holds_def ops_sorted_def)
  have "icmp (op_ikey (hd ops)) (op_ikey (last ops)) \<le> 0"
  proof (cases "length ops = 1")
    case True
    then obtain op where "ops = [op]" by (metis One_nat_def length_0_conv length_Suc_conv)
    then show ?thesis using ik.compare_refl [of "op_ikey op"] ops(3) op_key_fits [of op] by (simp add: key_fits_def)
  next
    case False
    then have "op_before ucmp (hd ops) (last ops)"
      using ops(1,2) by (cases ops) (auto simp: last_ConsR)
    then show ?thesis using op_before_icmp ops(1,3) by (simp add: less_imp_le)
  qed
  then show ?thesis using ops op_key_fits by (simp add: meta_ok_def)
qed

text \<open>The first entry that is not smaller than the target is the newest visible one, if the key is there at all.\<close>

lemma first_entry_newest:
  assumes ops: "ops_sorted ucmp valid ops" and key: "valid key" "snap \<le> kMaxSequenceNumber"
  shows "newest (set ops) key snap (case first_entry ucmp (InternalKey_make key snap kTypeValue) ops of
     None \<Rightarrow> None | Some op \<Rightarrow> if op_user op = key then Some op else None)"
  using ops
proof (induction ops)
  case Nil
  then show ?case by (simp add: first_entry_def newest_def)
next
  case (Cons a ops)
  have a: "fst a \<le> kMaxSequenceNumber" "valid (op_user a)" and s: "ops_sorted ucmp valid ops"
    and before: "\<And>b. b \<in> set ops \<Longrightarrow> op_before ucmp a b"
    using Cons.prems by (auto simp: ops_sorted_def)
  show ?case
  proof (cases "icmp (op_ikey a) (InternalKey_make key snap kTypeValue) \<ge> 0")
    case False
    then have "\<not> (op_user a = key \<and> fst a \<le> snap)" using op_icmp_target [OF a key] by simp
    then show ?thesis using Cons.IH [OF s] False
      by (auto simp: first_entry_def newest_def split: option.splits)
  next
    case True
    then have first: "first_entry ucmp (InternalKey_make key snap kTypeValue) (a # ops) = Some a" by (simp add: first_entry_def)
    show ?thesis
    proof (cases "op_user a = key")
      case True
      then have "fst a \<le> snap" using op_icmp_target [OF a key] \<open>icmp (op_ikey a) _ \<ge> 0\<close> u.compare_refl key by auto
      moreover have "fst b \<le> fst a" if "b \<in> set ops" "op_user b = key" for b
        using before [OF that(1)] that(2) True u.compare_refl [OF key(1)] by (auto simp: op_before_def)
      ultimately show ?thesis using True by (auto simp: first newest_def)
    next
      case False
      then have less: "Compare ucmp key (op_user a) < 0" using op_icmp_target [OF a key] \<open>icmp (op_ikey a) _ \<ge> 0\<close> by blast
      have "op_user b \<noteq> key" if "b \<in> set ops" for b
      proof
        assume "op_user b = key"
        then have "Compare ucmp (op_user a) key < 0 \<or> op_user a = key" using before [OF that] by (auto simp: op_before_def)
        then show False using False less u.compare_flip [of key "op_user a"] a(2) key(1) by simp
      qed
      then show ?thesis using False by (auto simp: first newest_def)
    qed
  qed
qed

end

section \<open>The tables of a level\<close>

text \<open>A lookup in some tables, one after the other, has found \<open>r\<close>: it ends with the outcome of an operation, or goes on.\<close>

definition found :: "operation option \<Rightarrow> GetState \<Rightarrow> Status option \<times> GetState \<Rightarrow> bool" where
  "found r st res \<longleftrightarrow>
     (case r of None \<Rightarrow> fst res = None \<and> g_value (snd res) = g_value st
      | Some op \<Rightarrow> fst res = Some (fst (get_outcome r (g_value st))) \<and> g_value (snd res) = snd (get_outcome r (g_value st)))"

fun hits :: "(file_ptr \<Rightarrow> operation option) \<Rightarrow> file_ptr list \<Rightarrow> operation option" where
  "hits f [] = None"
| "hits f (p # ps) = (case f p of None \<Rightarrow> hits f ps | Some op \<Rightarrow> Some op)"

context version_keys
begin

definition hit :: "slice \<Rightarrow> SequenceNumber \<Rightarrow> operation list \<Rightarrow> operation option" where
  "hit key snap ops =
     (case first_entry ucmp (InternalKey_make key snap kTypeValue) ops of None \<Rightarrow> None | Some op \<Rightarrow> if op_user op = key then Some op else None)"

lemma hit_in: "hit key snap ops = Some op \<Longrightarrow> op \<in> set ops \<and> op_user op = key"
  unfolding hit_def first_entry_def by (auto simp: find_Some_iff split: option.splits if_splits) (metis nth_mem)+

lemma Get_file_hit:
  assumes "table_holds ucmp valid (h ! p) ops" "answers tget ucmp (h ! p) ops" "valid key" "snap \<le> kMaxSequenceNumber"
  shows "found (hit key snap ops) st (Get_file tget ucmp h key (InternalKey_make key snap kTypeValue) l p st)"
proof -
  let ?k = "InternalKey_make key snap kTypeValue"
  have fits: "fst op \<le> kMaxSequenceNumber \<and> valid (op_user op)" if "first_entry ucmp ?k ops = Some op" for op
  proof -
    have "op \<in> set ops" using that unfolding first_entry_def by (metis find_Some_iff nth_mem)
    then show ?thesis using assms(1) by (auto simp: table_holds_def ops_sorted_def)
  qed
  have cmp: "Compare ucmp (op_user op) key = 0 \<longleftrightarrow> op_user op = key" if "first_entry ucmp ?k ops = Some op" for op
    using u.compare_eq_0 fits [OF that] assms(3) by blast
  consider (entry) "tget (fm_number (h ! p)) (fm_file_size (h ! p)) ?k = (OK, map_option (\<lambda>op. (op_ikey op, op_value op)) (first_entry ucmp ?k ops))"
    | (skip) "tget (fm_number (h ! p)) (fm_file_size (h ! p)) ?k = (OK, None)" "\<forall>op. first_entry ucmp ?k ops = Some op \<longrightarrow> op_user op \<noteq> key"
    using assms(2) [unfolded answers_def, THEN spec, of ?k] by auto
  then show ?thesis
  proof cases
    case entry
    show ?thesis
    proof (cases "first_entry ucmp ?k ops")
      case None
      then show ?thesis using entry by (simp add: found_def hit_def Get_file_def Let_def OK_def)
    next
      case (Some op)
      have "SaveValue ucmp key (op_ikey op) (op_value op) (SaverNotFound, w) =
          (if op_user op = key then if op_type op = kTypeValue then (SaverFound, op_value op) else (SaverDeleted, w)
           else (SaverNotFound, w))" for w
        using ParseInternalKey_op [of op] fits [OF Some] cmp [OF Some] by (simp add: SaveValue_def)
      then show ?thesis using entry Some
        by (cases "op_type op") (simp_all add: found_def hit_def Get_file_def get_outcome_def Let_def OK_def)
    qed
  next
    case skip
    then show ?thesis by (auto simp: found_def hit_def Get_file_def Let_def OK_def split: option.splits)
  qed
qed

lemma Get_files_hits:
  assumes "\<forall>p \<in> set ps. table_holds ucmp valid (h ! p) (t p) \<and> answers tget ucmp (h ! p) (t p)" "valid key" "snap \<le> kMaxSequenceNumber"
  shows "found (hits (\<lambda>p. hit key snap (t p)) ps) st (Get_files tget ucmp h key (InternalKey_make key snap kTypeValue) l ps st)"
  using assms(1)
proof (induction ps arbitrary: st)
  case Nil
  then show ?case by (simp add: found_def)
next
  case (Cons p ps)
  have one: "found (hit key snap (t p)) st (Get_file tget ucmp h key (InternalKey_make key snap kTypeValue) l p st)"
    using Get_file_hit Cons.prems assms(2,3) by simp
  obtain r st' where r: "Get_file tget ucmp h key (InternalKey_make key snap kTypeValue) l p st = (r, st')" by fastforce
  show ?case
  proof (cases "hit key snap (t p)")
    case None
    then have "r = None" "g_value st' = g_value st" using one r by (simp_all add: found_def)
    then show ?thesis using Cons.IH [of st'] Cons.prems r None by (simp add: found_def get_outcome_def cong: option.case_cong)
  next
    case (Some op)
    then show ?thesis using one r by (simp add: found_def)
  qed
qed

text \<open>Tables whose operations become older from one to the next.\<close>

lemma hits_newest:
  assumes "\<forall>p \<in> set ps. ops_sorted ucmp valid (t p)" "sorted_wrt (\<lambda>p q. newer (t p) (t q)) ps" "valid key" "snap \<le> kMaxSequenceNumber"
  shows "newest (\<Union>p \<in> set ps. set (t p)) key snap (hits (\<lambda>p. hit key snap (t p)) ps)"
  using assms(1,2)
proof (induction ps)
  case Nil
  then show ?case by (simp add: newest_def)
next
  case (Cons p ps)
  have "newest (set (t p)) key snap (hit key snap (t p))"
    unfolding hit_def using Cons.prems(1) first_entry_newest assms(3,4) by simp
  moreover have "newest (\<Union>p \<in> set ps. set (t p)) key snap (hits (\<lambda>p. hit key snap (t p)) ps)" using Cons by simp
  moreover have "\<forall>a \<in> set (t p). \<forall>b \<in> (\<Union>p \<in> set ps. set (t p)). op_user a = op_user b \<longrightarrow> fst b < fst a"
    using Cons.prems(2) by (auto simp: newer_def)
  ultimately show ?case
    by (simp only: hits.simps list.simps(15) UN_insert, intro newest_append) blast+
qed

lemma newest_subset:
  assumes "newest A key snap r" "A \<subseteq> B" "\<And>b. b \<in> B \<Longrightarrow> b \<notin> A \<Longrightarrow> \<not> (op_user b = key \<and> fst b \<le> snap)"
  shows "newest B key snap r"
  using assms by (cases r) (auto simp: newest_def)

text \<open>The user keys of a table are between its ends.\<close>

lemma table_range:
  assumes "table_holds ucmp valid f ops" "op \<in> set ops"
  shows "icmp (fm_smallest f) (op_ikey op) \<le> 0" "icmp (op_ikey op) (fm_largest f) \<le> 0"
    "Compare ucmp (file_start f) (op_user op) \<le> 0" "Compare ucmp (op_user op) (file_limit f) \<le> 0"
proof -
  have ops: "ops \<noteq> []" "sorted_wrt (op_before ucmp) ops" "\<forall>op \<in> set ops. fst op \<le> kMaxSequenceNumber \<and> valid (op_user op)"
    "fm_smallest f = op_ikey (hd ops)" "fm_largest f = op_ikey (last ops)"
    using assms by (auto simp: table_holds_def ops_sorted_def)
  obtain i where i: "i < length ops" "op = ops ! i" using assms(2) by (metis in_set_conv_nth)
  have le: "icmp (op_ikey (ops ! j)) (op_ikey (ops ! k)) \<le> 0" if "j \<le> k" "k < length ops" for j k
  proof (cases "j = k")
    case True
    then show ?thesis using ik.compare_refl [of "op_ikey (ops ! j)"] ops(3) that op_key_fits [of "ops ! j"] by (simp add: key_fits_def)
  next
    case False
    then have "op_before ucmp (ops ! j) (ops ! k)" using ops(2) that by (simp add: sorted_wrt_iff_nth_less)
    then show ?thesis using op_before_icmp [of "ops ! j" "ops ! k"] ops(3) that by simp
  qed
  show l: "icmp (fm_smallest f) (op_ikey op) \<le> 0" using le [of 0 i] i ops(1,4) by (simp add: hd_conv_nth)
  show r: "icmp (op_ikey op) (fm_largest f) \<le> 0" using le [of i "length ops - 1"] i ops(1,5) by (simp add: last_conv_nth)
  show "Compare ucmp (file_start f) (op_user op) \<le> 0" using user_le [OF l] by (simp add: op_ikey_def)
  show "Compare ucmp (op_user op) (file_limit f) \<le> 0" using user_le [OF r] by (simp add: op_ikey_def)
qed


lemma lsm_tables: "lsm_ok ucmp valid ts h v \<Longrightarrow> l < kNumLevels \<Longrightarrow> p \<in> set (v_files v ! l) \<Longrightarrow>
    table_holds ucmp valid (h ! p) (ts (fm_number (h ! p)))"
  by (simp add: lsm_ok_def)

lemma level0_search:
  assumes ok: "lsm_ok ucmp valid ts h v" and key: "valid key" "snap \<le> kMaxSequenceNumber"
  shows "\<exists>ps. files_to_search ucmp h v key k 0 = Some ps \<and> set ps \<subseteq> set (v_files v ! 0) \<and>
     newest (level_ops ts h v 0) key snap (hits (\<lambda>p. hit key snap (ts (fm_number (h ! p)))) ps)"
proof -
  let ?fs = "v_files v ! 0" and ?t = "\<lambda>p. ts (fm_number (h ! p))"
  let ?in = "\<lambda>p. Compare ucmp key (file_start (h ! p)) \<ge> 0 \<and> Compare ucmp key (file_limit (h ! p)) \<le> 0"
  define ps where "ps = NewestFirst h (filter ?in ?fs)"
  have tables: "\<And>p. p \<in> set ?fs \<Longrightarrow> table_holds ucmp valid (h ! p) (?t p)" using lsm_tables [OF ok, of 0] by (simp add: kNumLevels_def)
  have set_ps: "set ps = {p \<in> set ?fs. ?in p}" by (simp add: ps_def NewestFirst_def)
  have "distinct (map (\<lambda>p. fm_number (h ! p)) ?fs)" using ok by (simp add: lsm_ok_def)
  then have "distinct (map (\<lambda>p. fm_number (h ! p)) (filter ?in ?fs))" by (rule distinct_map_filter)
  then have "inj_on (\<lambda>p. fm_number (h ! p)) (set ps)" "distinct ps" by (auto simp: ps_def NewestFirst_def distinct_map)
  then have dist: "distinct (map (\<lambda>p. - uint (fm_number (h ! p))) ps)" by (auto simp: distinct_map inj_on_def word_uint_eq_iff)
  have "sorted (map (\<lambda>p. - uint (fm_number (h ! p))) ps)" by (simp add: ps_def NewestFirst_def)
  then have "sorted_wrt (<) (map (\<lambda>p. - uint (fm_number (h ! p))) ps)" using dist by (simp add: strict_sorted_iff)
  then have "sorted_wrt (\<lambda>p q. fm_number (h ! q) < fm_number (h ! p)) ps" by (simp add: sorted_wrt_map word_less_def)
  then have "sorted_wrt (\<lambda>p q. newer (?t p) (?t q)) ps"
    by (rule sorted_wrt_mono_rel [rotated]) (use ok set_ps in \<open>auto simp: lsm_ok_def\<close>)
  moreover have "\<forall>p \<in> set ps. ops_sorted ucmp valid (?t p)" using tables set_ps by (auto simp: table_holds_def)
  ultimately have new: "newest (\<Union>p \<in> set ps. set (?t p)) key snap (hits (\<lambda>p. hit key snap (?t p)) ps)"
    using hits_newest [of ps ?t] key by simp
  have "newest (level_ops ts h v 0) key snap (hits (\<lambda>p. hit key snap (?t p)) ps)"
  proof (rule newest_subset [OF new])
    show "(\<Union>p \<in> set ps. set (?t p)) \<subseteq> level_ops ts h v 0" by (auto simp: level_ops_def set_ps)
    fix b assume "b \<in> level_ops ts h v 0" "b \<notin> (\<Union>p \<in> set ps. set (?t p))"
    then obtain p where p: "p \<in> set ?fs" "b \<in> set (?t p)" "\<not> ?in p" by (auto simp: level_ops_def set_ps)
    note range = table_range(3,4) [OF tables [OF p(1)] p(2)] and v = meta_okD(1,2) [OF table_meta_ok [OF tables [OF p(1)]]]
    show "\<not> (op_user b = key \<and> fst b \<le> snap)" using range v p(3) key(1) flip_le [of key "file_start (h ! p)"] by auto
  qed
  moreover have "files_to_search ucmp h v key k 0 = Some ps" by (simp add: files_to_search_def ps_def Let_def NewestFirst_def)
  ultimately show ?thesis using set_ps by blast
qed

lemma level_search:
  assumes ok: "lsm_ok ucmp valid ts h v" and key: "valid key" "snap \<le> kMaxSequenceNumber" and l: "0 < l" "l < kNumLevels"
  shows "\<exists>ps. files_to_search ucmp h v key (InternalKey_make key snap kTypeValue) l = Some ps \<and> set ps \<subseteq> set (v_files v ! l) \<and>
     newest (level_ops ts h v l) key snap (hits (\<lambda>p. hit key snap (ts (fm_number (h ! p)))) ps)"
proof -
  let ?ps = "v_files v ! l" and ?k = "InternalKey_make key snap kTypeValue"
  let ?fs = "deref h ?ps" and ?t = "\<lambda>i. ts (fm_number (h ! (?ps ! i)))"
  define n where "n = length (takeWhile (\<lambda>f. icmp (fm_largest f) ?k < 0) ?fs)"
  have tables: "table_holds ucmp valid (h ! (?ps ! i)) (?t i)" if "i < length ?ps" for i
    using lsm_tables [OF ok l(2)] that by simp
  have fs: "disjoint_sorted ucmp ?fs" "length ?fs < 2 ^ 31" using ok l by (simp_all add: lsm_ok_def)
  have metas: "\<forall>f \<in> set ?fs. meta_ok ucmp valid f" using table_meta_ok lsm_tables [OF ok l(2)] by auto
  have found: "FindFile (InternalKeyComparator ucmp) ?fs ?k = Some (of_nat n)"
    unfolding n_def using FindFile_disjoint [OF fs(1) metas fs(2), of ?k] key by simp
  have n: "n \<le> length ?ps" unfolding n_def using length_takeWhile_le [of _ ?fs] by simp
  have u: "unat (of_nat n :: u32) = n" using n fs(2) unat_u32_of_nat [of n] by simp
  have op_ok: "fst op \<le> kMaxSequenceNumber" "valid (op_user op)" "8 \<le> length (op_ikey op) \<and> valid (ExtractUserKey (op_ikey op))"
    if "op \<in> set (?t i)" "i < length ?ps" for op i
    using tables [OF that(2)] that(1) op_key_fits key_fitsD by (auto simp: table_holds_def ops_sorted_def)
  have kv: "8 \<le> length ?k \<and> valid (ExtractUserKey ?k)" using key by simp
  have ops_in: "b \<in> level_ops ts h v l \<longleftrightarrow> (\<exists>i < length ?ps. b \<in> set (?t i))" for b
    unfolding level_ops_def UN_iff by (metis in_set_conv_nth)
  have early: "\<not> (op_user b = key \<and> fst b \<le> snap)" if "b \<in> set (?t i)" "i < n" for b i
  proof -
    have i: "i < length ?ps" using that n by simp
    have "icmp (fm_largest (?fs ! i)) ?k < 0" using that(2) unfolding n_def by (rule takeWhile_holds)
    then have "icmp (op_ikey b) ?k < 0"
      using ik.compare_le_trans [of "op_ikey b" "fm_largest (h ! (?ps ! i))" ?k] table_range(2) [OF tables [OF i] that(1)]
        op_ok(3) [OF that(1) i] meta_okD(2) [OF table_meta_ok [OF tables [OF i]]] kv i by simp
    then show ?thesis using op_icmp_target [OF op_ok(1,2) [OF that(1) i] key] by auto
  qed
  have late: "icmp (op_ikey a) (op_ikey b) < 0" if "a \<in> set (?t n)" "b \<in> set (?t i)" "n < i" "i < length ?ps" for a b i
  proof -
    have nl: "n < length ?ps" using that by simp
    have "icmp (fm_largest (h ! (?ps ! n))) (fm_smallest (h ! (?ps ! i))) < 0"
      using disjoint_ends(1) [OF fs(1) metas, of n i] that nl by simp
    then have "icmp (op_ikey a) (fm_smallest (h ! (?ps ! i))) < 0"
      using ik.compare_le_trans table_range(2) [OF tables [OF nl] that(1)] op_ok(3) [OF that(1) nl]
        meta_okD(2) [OF table_meta_ok [OF tables [OF nl]]] meta_okD(1) [OF table_meta_ok [OF tables [OF that(4)]]] by blast
    moreover have "icmp (fm_smallest (h ! (?ps ! i))) (op_ikey b) \<le> 0" by (rule table_range(1) [OF tables [OF that(4)] that(2)])
    ultimately show ?thesis
      using ik.compare_trans [of "op_ikey a" "fm_smallest (h ! (?ps ! i))" "op_ikey b"] ik.compare_eq_0 [of "fm_smallest (h ! (?ps ! i))" "op_ikey b"]
        op_ok(3) [OF that(1) nl] op_ok(3) [OF that(2,4)] meta_okD(1) [OF table_meta_ok [OF tables [OF that(4)]]] by fastforce
  qed
  have search: "files_to_search ucmp h v key ?k l = Some (if n \<ge> length ?ps then [] else
      if Compare ucmp key (file_start (h ! (?ps ! n))) < 0 then [] else [?ps ! n])"
    using found l n u by (cases "?ps = []") (simp_all add: files_to_search_def Let_def)
  show ?thesis
  proof (cases "n < length ?ps \<and> \<not> Compare ucmp key (file_start (h ! (?ps ! n))) < 0")
    case False
    have "\<not> (op_user b = key \<and> fst b \<le> snap)" if b: "b \<in> level_ops ts h v l" for b
    proof -
      obtain i where i: "i < length ?ps" "b \<in> set (?t i)" using b ops_in by blast
      show ?thesis
      proof (cases "i < n")
        case True
        then show ?thesis using early i by blast
      next
        case ge: False
        then have less: "Compare ucmp key (file_start (h ! (?ps ! n))) < 0" "n < length ?ps" using False i by auto
        have "icmp (fm_smallest (h ! (?ps ! n))) (fm_smallest (h ! (?ps ! i))) < 0 \<or> n = i"
          using disjoint_ends(3) [OF fs(1) metas, of n i] ge i by (cases "n = i") auto
        then have "Compare ucmp (file_start (h ! (?ps ! n))) (file_start (h ! (?ps ! i))) \<le> 0"
          using user_le u.compare_refl meta_okD(1) [OF table_meta_ok [OF tables [OF i(1)]]] by fastforce
        then have "Compare ucmp key (op_user b) < 0"
          using less_le_trans [OF _ _ _ less(1), of "file_start (h ! (?ps ! i))"] less_le_trans [of key "file_start (h ! (?ps ! i))" "op_user b"]
            table_range(3) [OF tables [OF i(1)] i(2)] key(1) op_ok(2) [OF i(2,1)] meta_okD(1) [OF table_meta_ok [OF tables [OF i(1)]]]
            meta_okD(1) [OF table_meta_ok [OF tables [OF less(2)]]] by blast
        then show ?thesis using u.compare_refl [OF key(1)] by auto
      qed
    qed
    then show ?thesis using search False by (auto simp: newest_def)
  next
    case True
    have new: "newest (set (?t n)) key snap (hit key snap (?t n))"
      unfolding hit_def using first_entry_newest key tables True by (simp add: table_holds_def)
    have none: "\<not> (op_user b = key \<and> fst b \<le> snap)" if "hit key snap (?t n) = None" "b \<in> set (?t i)" "n < i" "i < length ?ps" for b i
    proof -
      have "\<not> icmp (fm_largest (h ! (?ps ! n))) ?k < 0"
        using nth_length_takeWhile [of "\<lambda>f. icmp (fm_largest f) ?k < 0" ?fs] True by (simp add: n_def)
      then have "\<exists>op \<in> set (?t n). icmp (op_ikey op) ?k \<ge> 0"
        using tables [of n] True by (intro bexI [of _ "last (?t n)"]) (auto simp: table_holds_def)
      then obtain op where op: "first_entry ucmp ?k (?t n) = Some op" unfolding first_entry_def by (metis find_None_iff not_Some_eq)
      then have op': "op \<in> set (?t n)" "icmp (op_ikey op) ?k \<ge> 0" unfolding first_entry_def by (auto simp: find_Some_iff)
      have "op_user op \<noteq> key" using that(1) op by (auto simp: hit_def)
      then have "Compare ucmp key (op_user op) < 0"
        using op_icmp_target [of op key snap] op_ok(1,2) [OF op'(1)] key op'(2) True by blast
      moreover have "Compare ucmp (op_user op) (op_user b) \<le> 0"
        using user_le [of "op_ikey op" "op_ikey b"] late [OF op'(1) that(2-4)] by (simp add: op_ikey_def)
      ultimately have "Compare ucmp key (op_user b) < 0"
        using less_le_trans key(1) op_ok(2) op'(1) that True by blast
      then show ?thesis using u.compare_refl [OF key(1)] by auto
    qed
    have some: "fst b \<le> fst op" if "hit key snap (?t n) = Some op" "b \<in> set (?t i)" "n < i" "i < length ?ps" "op_user b = key" for b i op
    proof (rule ccontr)
      assume "\<not> fst b \<le> fst op"
      have op: "op \<in> set (?t n)" "op_user op = key" using hit_in [OF that(1)] by simp_all
      have "icmp (op_ikey op) (op_ikey b) < 0" by (rule late [OF op(1) that(2-4)])
      then have "PackSequenceAndType (fst b) (op_type b) < PackSequenceAndType (fst op) (op_type op)"
        using op(2) that(5) u.compare_refl [OF key(1)] same_user [of "op_ikey op" "op_ikey b"] by (simp add: op_ikey_def)
      moreover have "PackSequenceAndType (fst op) (op_type op) < PackSequenceAndType (fst b) (op_type b)"
        using Pack_le(2) [of "fst op" "fst b"] op_ok(1) [OF op(1)] op_ok(1) [OF that(2,4)] True \<open>\<not> fst b \<le> fst op\<close> by simp
      ultimately show False by simp
    qed
    have "newest (level_ops ts h v l) key snap (hit key snap (?t n))"
    proof (cases "hit key snap (?t n)")
      case None
      have "\<not> (op_user b = key \<and> fst b \<le> snap)" if "b \<in> set (?t i)" "i < length ?ps" for b i
        using early none [OF None] new that by (cases i n rule: linorder_cases) (auto simp: newest_def None)
      then show ?thesis using ops_in by (auto simp: newest_def None)
    next
      case (Some op)
      have "fst b \<le> fst op" if "b \<in> set (?t i)" "i < length ?ps" "op_user b = key" "fst b \<le> snap" for b i
        using early some [OF Some] new that by (cases i n rule: linorder_cases) (auto simp: newest_def Some)
      then show ?thesis using ops_in new True by (auto simp: newest_def Some)
    qed
    then show ?thesis using search True by (cases "hit key snap (?t n)") simp_all
  qed
qed


lemma lsm_levels:
  assumes "lsm_ok ucmp valid ts h v" "i < j" "j < kNumLevels" "a \<in> level_ops ts h v i" "b \<in> level_ops ts h v j" "op_user a = op_user b"
  shows "fst b < fst a"
proof -
  obtain p q where "p \<in> set (v_files v ! i)" "q \<in> set (v_files v ! j)" "a \<in> set (ts (fm_number (h ! p)))" "b \<in> set (ts (fm_number (h ! q)))"
    using assms(4,5) by (auto simp: level_ops_def)
  moreover from this have "newer (ts (fm_number (h ! p))) (ts (fm_number (h ! q)))"
    using assms(1-3) unfolding lsm_ok_def by blast
  ultimately show ?thesis using assms(6) by (simp add: newer_def)
qed

lemma Get_levels_newest:
  assumes ok: "lsm_ok ucmp valid ts h v" and cache: "\<forall>l < kNumLevels. \<forall>p \<in> set (v_files v ! l). answers tget ucmp (h ! p) (ts (fm_number (h ! p)))"
    and key: "valid key" "snap \<le> kMaxSequenceNumber" and ls: "sorted_wrt (<) ls" "\<forall>l \<in> set ls. l < kNumLevels"
  shows "\<exists>s st' r. Get_levels tget ucmp h v key (InternalKey_make key snap kTypeValue) ls st = Some (s, st') \<and>
     newest (\<Union>l \<in> set ls. level_ops ts h v l) key snap r \<and> (s, g_value st') = get_outcome r (g_value st)"
  using ls
proof (induction ls arbitrary: st)
  case Nil
  then show ?case by (intro exI [of _ "NotFound [] []"] exI [of _ st] exI [of _ None]) (simp add: newest_def get_outcome_def)
next
  case (Cons l ls)
  let ?k = "InternalKey_make key snap kTypeValue" and ?t = "\<lambda>p. ts (fm_number (h ! p))"
  have l: "l < kNumLevels" using Cons.prems by simp
  obtain ps where ps: "files_to_search ucmp h v key ?k l = Some ps" "set ps \<subseteq> set (v_files v ! l)"
      "newest (level_ops ts h v l) key snap (hits (\<lambda>p. hit key snap (?t p)) ps)"
    using level0_search [OF ok key] level_search [OF ok key _ l] by (cases "l = 0") auto
  have "\<forall>p \<in> set ps. table_holds ucmp valid (h ! p) (?t p) \<and> answers tget ucmp (h ! p) (?t p)"
    using lsm_tables [OF ok l] cache l ps(2) by auto
  note run = Get_files_hits [OF this key, of st l]
  obtain r st1 where r: "Get_files tget ucmp h key ?k l ps st = (r, st1)" by fastforce
  show ?case
  proof (cases "hits (\<lambda>p. hit key snap (?t p)) ps")
    case None
    then have g: "r = None" "g_value st1 = g_value st" using run r by (simp_all add: found_def)
    obtain s st' r' where rest: "Get_levels tget ucmp h v key ?k ls st1 = Some (s, st')"
        "newest (\<Union>l \<in> set ls. level_ops ts h v l) key snap r'" "(s, g_value st') = get_outcome r' (g_value st1)"
      using Cons.IH [of st1] Cons.prems by auto
    have "newest (\<Union>l \<in> set (l # ls). level_ops ts h v l) key snap r'"
      using ps(3) rest(2) by (cases r') (auto simp: newest_def None)
    then show ?thesis using rest g ps(1) r by auto
  next
    case (Some op)
    have "fst b < fst a" if ab: "a \<in> level_ops ts h v l" "b \<in> (\<Union>l \<in> set ls. level_ops ts h v l)" "op_user a = op_user b" for a b
    proof -
      obtain l' where "l' \<in> set ls" "b \<in> level_ops ts h v l'" using ab(2) by blast
      then show ?thesis using lsm_levels [OF ok, of l l' a b] Cons.prems ab(1,3) by simp
    qed
    then have rest: "fst b \<le> fst op" if "b \<in> (\<Union>l \<in> set ls. level_ops ts h v l)" "op_user b = key" for b
      using that ps(3) by (auto simp: newest_def Some less_imp_le)
    have op: "op \<in> level_ops ts h v l" "op_user op = key \<and> fst op \<le> snap"
        "\<forall>b \<in> level_ops ts h v l. op_user b = key \<and> fst b \<le> snap \<longrightarrow> fst b \<le> fst op"
      using ps(3) by (simp_all add: newest_def Some)
    have "newest (\<Union>l \<in> set (l # ls). level_ops ts h v l) key snap (Some op)"
      unfolding newest_def option.case list.simps(15) UN_insert using op rest by blast
    moreover have "r = Some (fst (get_outcome (Some op) (g_value st)))" "g_value st1 = snd (get_outcome (Some op) (g_value st))"
      using run r Some by (simp_all add: found_def)
    ultimately show ?thesis using ps(1) r by auto
  qed
qed

end

text \<open>
  C3: a version is a multi-version map. In a version whose levels keep their invariant (the tables of a smaller level are
  newer, and so are those with larger numbers at level 0; behind level 0 tables are in order), with a table cache that finds the first entry
  of a table that is not smaller than a key, \<^verbatim>\<open>Version::Get\<close> returns the value of the newest operation on the key among all tables that is
  not newer than the snapshot; it returns NotFound, and leaves the value of the caller alone, when that is a deletion or there is none.
\<close>

theorem version_get_newest:
  assumes "lsm_ok BytewiseComparator (\<lambda>_. True) ts h v"
    and "\<forall>l < kNumLevels. \<forall>p \<in> set (v_files v ! l). answers tget BytewiseComparator (h ! p) (ts (fm_number (h ! p)))"
    and "snap \<le> kMaxSequenceNumber"
  shows "\<exists>s st r. Version_Get tget BytewiseComparator h v (make_LookupKey key snap) value = Some (s, st) \<and>
     newest (version_ops ts h v) key snap r \<and> (s, g_value st) = get_outcome r value"
proof -
  have "(\<Union>l \<in> set [0..<kNumLevels]. level_ops ts h v l) = version_ops ts h v" by (auto simp: version_ops_def)
  then show ?thesis
    using keys.Get_levels_newest [OF assms(1,2) _ assms(3), where key = key and ls = "[0..<kNumLevels]"]
    by (fastforce simp: Version_Get_def user_key_eq internal_key_make)
qed

text \<open>Two tables at different levels; the newer one deletes a key of the older.\<close>

definition sample_tables :: "u64 \<Rightarrow> operation list" where
  "sample_tables n = (if n = 7 then [(5, kTypeDeletion, [1], []), (6, kTypeValue, [2], [22])]
     else if n = 4 then [(3, kTypeValue, [1], [9]), (2, kTypeValue, [2], [8])] else [])"

definition sample_metas :: files where
  "sample_metas = map (\<lambda>n. FileMetaData_new n 100 (op_ikey (hd (sample_tables n))) (op_ikey (last (sample_tables n)))) [7, 4]"

definition sample_levels :: Version where
  "sample_levels = Version_new\<lparr>v_files := [[0], [1], [], [], [], [], []]\<rparr>"

definition sample_cache :: table_get where
  "sample_cache n sz k = (OK, map_option (\<lambda>op. (op_ikey op, op_value op)) (first_entry BytewiseComparator k (sample_tables n)))"

lemma all_levels: "(\<forall>l < kNumLevels. P l) \<longleftrightarrow> P 0 \<and> P 1 \<and> P 2 \<and> P 3 \<and> P 4 \<and> P 5 \<and> P 6"
proof -
  have "{..<kNumLevels} = {0, 1, 2, 3, 4, 5, 6}" by (auto simp: kNumLevels_def)
  then have "(\<forall>l \<in> {..<kNumLevels}. P l) \<longleftrightarrow> P 0 \<and> P 1 \<and> P 2 \<and> P 3 \<and> P 4 \<and> P 5 \<and> P 6" by simp
  then show ?thesis by (simp add: lessThan_def)
qed

lemma sample_lsm: "lsm_ok BytewiseComparator (\<lambda>_. True) sample_tables sample_metas sample_levels"
proof -
  have table: "table_holds BytewiseComparator (\<lambda>_. True) (sample_metas ! 0) (sample_tables 7)"
    "table_holds BytewiseComparator (\<lambda>_. True) (sample_metas ! 1) (sample_tables 4)"
    by (simp_all add: table_holds_def ops_sorted_def op_before_def sample_tables_def sample_metas_def FileMetaData_new_def
        BytewiseComparator_def kMaxSequenceNumber_def)
  have num: "fm_number (sample_metas ! 0) = 7" "fm_number (sample_metas ! 1) = 4"
    by (simp_all add: sample_metas_def FileMetaData_new_def)
  have files: "v_files sample_levels ! 0 = [0]" "v_files sample_levels ! 1 = [1]"
    "1 < l \<Longrightarrow> l < kNumLevels \<Longrightarrow> v_files sample_levels ! l = []" for l
  proof -
    show "1 < l \<Longrightarrow> l < kNumLevels \<Longrightarrow> v_files sample_levels ! l = []"
    proof -
      assume "1 < l" "l < kNumLevels"
      then have "l \<in> {2, 3, 4, 5, 6}" by (auto simp: kNumLevels_def)
      then show ?thesis by (auto simp: sample_levels_def)
    qed
  qed (simp_all add: sample_levels_def)
  have new: "newer (sample_tables 7) (sample_tables 4)" by (simp add: newer_def sample_tables_def)
  have t: "table_holds BytewiseComparator (\<lambda>_. True) (sample_metas ! p) (sample_tables (fm_number (sample_metas ! p)))"
    if "p \<in> set (v_files sample_levels ! l)" "l < kNumLevels" for l p
    using that files table num by (cases "l = 0"; cases "l = 1") auto
  have d: "disjoint_sorted BytewiseComparator (level_files sample_metas sample_levels l) \<and> length (v_files sample_levels ! l) < 2 ^ 31"
    if "0 < l" "l < kNumLevels" for l
    using that files by (cases "l = 1") (auto simp: disjoint_sorted_def)
  have n: "newer (sample_tables (fm_number (sample_metas ! p))) (sample_tables (fm_number (sample_metas ! q)))"
    if "i < j" "j < kNumLevels" "p \<in> set (v_files sample_levels ! i)" "q \<in> set (v_files sample_levels ! j)" for i j p q
    using that files num new by (cases "i = 0"; cases "j = 1"; cases "i = 1") auto
  show ?thesis
    unfolding lsm_ok_def by (intro conjI allI impI ballI) (use t d n files num in auto)
qed

theorem version_get_newest_witness:
  "(\<exists>s st. Version_Get sample_cache BytewiseComparator sample_metas sample_levels (make_LookupKey [1] 4) [] = Some (s, st) \<and>
     s = OK \<and> g_value st = [9]) \<and>
   (\<exists>s st. Version_Get sample_cache BytewiseComparator sample_metas sample_levels (make_LookupKey [1] 8) [] = Some (s, st) \<and>
     s = NotFound [] [])"
proof -
  have cache: "\<forall>l < kNumLevels. \<forall>p \<in> set (v_files sample_levels ! l). answers sample_cache BytewiseComparator (sample_metas ! p) (sample_tables (fm_number (sample_metas ! p)))"
    by (simp add: answers_def sample_cache_def)
  have files: "v_files sample_levels ! 0 = [0]" "v_files sample_levels ! 1 = [1]" "v_files sample_levels ! 2 = []" "v_files sample_levels ! 3 = []"
    "v_files sample_levels ! 4 = []" "v_files sample_levels ! 5 = []" "v_files sample_levels ! 6 = []"
    by (simp_all add: sample_levels_def)
  have levels: "{..<kNumLevels} = {0, 1, 2, 3, 4, 5, 6}" by (auto simp: kNumLevels_def)
  have ops: "version_ops sample_tables sample_metas sample_levels =
      {(5, kTypeDeletion, [1], []), (6, kTypeValue, [2], [22]), (3, kTypeValue, [1], [9]), (2, kTypeValue, [2], [8])}"
    unfolding version_ops_def levels level_ops_def
    by (simp add: files [unfolded One_nat_def]) (auto simp: sample_metas_def FileMetaData_new_def sample_tables_def)
  note get = version_get_newest [OF sample_lsm cache, of _ "[1]" "[]", unfolded ops]
  have "\<exists>s st. Version_Get sample_cache BytewiseComparator sample_metas sample_levels (make_LookupKey [1] 4) [] = Some (s, st) \<and>
      s = OK \<and> g_value st = [9]"
    using get [of 4] by (fastforce simp: newest_def get_outcome_def kMaxSequenceNumber_def split: option.splits)
  moreover have "\<exists>s st. Version_Get sample_cache BytewiseComparator sample_metas sample_levels (make_LookupKey [1] 8) [] = Some (s, st) \<and>
      s = NotFound [] []"
    using get [of 8] by (fastforce simp: newest_def get_outcome_def kMaxSequenceNumber_def split: option.splits)
  ultimately show ?thesis by (rule conjI)
qed

end
