(* ===== verification/LdbCompactionProps.thy ===== *)
theory LdbCompactionProps
  imports LdbCompaction LdbVersionGet
begin

text \<open>
  A compaction does not change what any reader can see: of the entries of its inputs it drops those that no snapshot reaches and deletions of
  keys that no deeper level has, and it writes the others in order.
\<close>

section \<open>What is kept\<close>

definition entries_of :: "operation list \<Rightarrow> entries" where
  "entries_of ops = map (\<lambda>op. (op_ikey op, op_value op)) ops"

text \<open>
  The entries that are kept, given the one before: one is hidden when the one before has the same user key and is visible to every snapshot;
  \<open>base\<close> tells whether no deeper table has a key in its range.
\<close>

fun kept_ops :: "(slice \<Rightarrow> bool) \<Rightarrow> SequenceNumber \<Rightarrow> operation option \<Rightarrow> operation list \<Rightarrow> operation list" where
  "kept_ops base small before [] = []"
| "kept_ops base small before (op # ops) =
     (if (case before of None \<Rightarrow> False | Some b \<Rightarrow> op_user b = op_user op \<and> fst b \<le> small) \<or>
         op_type op = kTypeDeletion \<and> fst op \<le> small \<and> base (op_user op)
      then [] else [op]) @ kept_ops base small (Some op) ops"

lemma kept_ops_subset: "set (kept_ops base small b ops) \<subseteq> set ops"
  by (induction ops arbitrary: b) auto

lemma kept_ops_sorted: "sorted_wrt P ops \<Longrightarrow> sorted_wrt P (kept_ops base small b ops)"
proof (induction ops arbitrary: b)
  case (Cons op ops)
  then show ?case using kept_ops_subset [of base small "Some op" ops] by (auto simp: sorted_wrt_append)
qed simp

context version_keys
begin

text \<open>Behind an entry that every snapshot sees, nothing with its key is kept.\<close>

lemma kept_ops_hidden:
  assumes "ops_sorted ucmp valid (b # ops)" "fst b \<le> small" "op \<in> set (kept_ops base small (Some b) ops)"
  shows "op_user op \<noteq> op_user b"
  using assms
proof (induction ops arbitrary: b)
  case (Cons a ops)
  have s: "ops_sorted ucmp valid (a # ops)" and ba: "op_before ucmp b a" and v: "valid (op_user a)" "valid (op_user b)"
    using Cons.prems(1) by (auto simp: ops_sorted_def)
  show ?case
  proof (cases "op_user a = op_user b")
    case True
    then have "fst a \<le> small" using ba Cons.prems(2) u.compare_refl [OF v(1)] by (auto simp: op_before_def)
    then show ?thesis using Cons.IH [OF s] Cons.prems(2,3) True by auto
  next
    case False
    then have less: "Compare ucmp (op_user b) (op_user a) < 0" using ba by (simp add: op_before_def)
    have "op_user x \<noteq> op_user b" if "x \<in> set (a # ops)" for x
    proof
      assume x: "op_user x = op_user b"
      then have "x \<in> set ops" using that False by auto
      then have "op_before ucmp a x" using s by (simp add: ops_sorted_def)
      then have "Compare ucmp (op_user a) (op_user b) < 0" using x False by (simp add: op_before_def)
      then show False using less u.compare_flip [OF v] by simp
    qed
    then show ?thesis using Cons.prems(3) kept_ops_subset [of base small "Some b" "a # ops"] by blast
  qed
qed simp

text \<open>Nothing is lost for a snapshot that is not older than the oldest one.\<close>

lemma newest_kept:
  assumes "ops_sorted ucmp valid ops" "small \<le> snap" "\<And>b. before = Some b \<Longrightarrow> op_user b = key \<Longrightarrow> small < fst b"
    "newest (set ops) key snap r"
  shows "\<exists>r'. newest (set (kept_ops base small before ops)) key snap r' \<and>
     (r' = r \<or> r' = None \<and> (\<exists>op. r = Some op \<and> op_type op = kTypeDeletion \<and> base key))"
  using assms
proof (induction ops arbitrary: before)
  case Nil
  then show ?case by auto
next
  case (Cons a ops)
  have s: "ops_sorted ucmp valid ops" and before_a: "\<And>x. x \<in> set ops \<Longrightarrow> op_before ucmp a x" and v: "valid (op_user a)"
    using Cons.prems(1) by (auto simp: ops_sorted_def)
  show ?case
  proof (cases "op_user a = key \<and> fst a \<le> snap")
    case True
    have older: "fst x < fst a" if "x \<in> set ops" "op_user x = key" for x
      using before_a [OF that(1)] that(2) True u.compare_refl [OF v] by (auto simp: op_before_def)
    have "\<exists>b. r = Some b \<and> b \<in> set (a # ops) \<and> op_user b = key \<and> fst a \<le> fst b"
      using Cons.prems(4) True by (cases r) (auto simp: newest_def)
    then have r: "r = Some a" using older by fastforce
    show ?thesis
    proof (cases "op_type a = kTypeDeletion \<and> fst a \<le> small \<and> base key")
      case True
      have "op_user x \<noteq> key" if "x \<in> set (kept_ops base small (Some a) ops)" for x
        using kept_ops_hidden [OF Cons.prems(1) _ that] True \<open>op_user a = key \<and> _\<close> by simp
      then show ?thesis using True r \<open>op_user a = key \<and> _\<close> by (intro exI [of _ None]) (auto simp: newest_def)
    next
      case False
      have "a \<in> set (kept_ops base small before (a # ops))"
        using False Cons.prems(3) \<open>op_user a = key \<and> _\<close> by (auto split: option.splits)
      then have "newest (set (kept_ops base small before (a # ops))) key snap r"
        using Cons.prems(4) kept_ops_subset [of base small before "a # ops"] r by (auto simp: newest_def)
      then show ?thesis by blast
    qed
  next
    case False
    have "newest (set ops) key snap r" using Cons.prems(4) False by (cases r) (auto simp: newest_def)
    moreover have "small < fst b" if "Some a = Some b" "op_user b = key" for b
      using that False Cons.prems(2) by auto
    ultimately obtain r' where r': "newest (set (kept_ops base small (Some a) ops)) key snap r'"
        "r' = r \<or> r' = None \<and> (\<exists>op. r = Some op \<and> op_type op = kTypeDeletion \<and> base key)"
      using Cons.IH [OF s Cons.prems(2), of "Some a"] by blast
    have "newest (set (kept_ops base small before (a # ops))) key snap r'"
      using r'(1) False by (cases r') (auto simp: newest_def)
    then show ?thesis using r'(2) by blast
  qed
qed

text \<open>With the operations elsewhere: where a deletion may be dropped, those on its key are newer.\<close>

lemma compaction_newest:
  assumes "ops_sorted ucmp valid ops" "small \<le> snap" "newest (set ops \<union> D) key snap r"
    and D: "\<And>a d. base key \<Longrightarrow> a \<in> set ops \<Longrightarrow> d \<in> D \<Longrightarrow> op_user a = key \<Longrightarrow> op_user d = key \<Longrightarrow> fst a < fst d"
  shows "\<exists>r'. newest (set (kept_ops base small None ops) \<union> D) key snap r' \<and> get_outcome r' value = get_outcome r value"
proof (cases "\<exists>op. r = Some op \<and> op \<in> set ops")
  case True
  then obtain op where op: "r = Some op" "op \<in> set ops" "op_user op = key" "fst op \<le> snap"
      "\<forall>b \<in> set ops \<union> D. op_user b = key \<and> fst b \<le> snap \<longrightarrow> fst b \<le> fst op"
    using assms(3) unfolding newest_def by auto
  then have "newest (set ops) key snap r" by (auto simp: newest_def)
  from newest_kept [OF assms(1,2) _ this, of None base]
  obtain r' where r': "newest (set (kept_ops base small None ops)) key snap r'"
      "r' = r \<or> r' = None \<and> (\<exists>op. r = Some op \<and> op_type op = kTypeDeletion \<and> base key)" by auto
  show ?thesis
  proof (cases "r' = r")
    case True
    then have "newest (set (kept_ops base small None ops) \<union> D) key snap r"
      using r'(1) op kept_ops_subset [of base small None ops] by (auto simp: newest_def)
    then show ?thesis by blast
  next
    case False
    then have "\<not> (op_user d = key \<and> fst d \<le> snap)" if "d \<in> D" for d
      using r'(2) op D [OF _ op(2) that] op(5) that by fastforce
    then have "newest (set (kept_ops base small None ops) \<union> D) key snap None" "get_outcome r value = get_outcome None value"
      using r' False op(1) by (auto simp: newest_def get_outcome_def)
    then show ?thesis by metis
  qed
next
  case False
  then have "newest (set (kept_ops base small None ops) \<union> D) key snap r"
    using assms(3) kept_ops_subset [of base small None ops] by (cases r) (auto simp: newest_def)
  then show ?thesis by blast
qed

end

section \<open>Whether a deeper level has a key\<close>

definition covers :: "comparator_class \<Rightarrow> slice \<Rightarrow> FileMetaData \<Rightarrow> bool" where
  "covers ucmp k f \<longleftrightarrow> Compare ucmp k (file_start f) \<ge> 0 \<and> Compare ucmp k (file_limit f) \<le> 0"

definition deeper_free :: "comparator_class \<Rightarrow> files \<Rightarrow> Version \<Rightarrow> nat \<Rightarrow> slice \<Rightarrow> bool" where
  "deeper_free ucmp h v lv k \<longleftrightarrow> (\<forall>l \<in> {lv + 2..<kNumLevels}. \<forall>f \<in> set (level_files h v l). \<not> covers ucmp k f)"

text \<open>The positions are behind tables that end before a key, and so before all later keys.\<close>

definition passed :: "comparator_class \<Rightarrow> files \<Rightarrow> Version \<Rightarrow> nat list \<Rightarrow> slice \<Rightarrow> bool" where
  "passed ucmp h v ptrs k \<longleftrightarrow> length ptrs = kNumLevels \<and>
     (\<forall>l < kNumLevels. \<forall>f \<in> set (take (ptrs ! l) (level_files h v l)). Compare ucmp k (file_limit f) > 0)"

context version_keys
begin

lemma base_search_eq:
  assumes "disjoint_sorted ucmp fs" "\<forall>f \<in> set fs. meta_ok ucmp valid f" "valid k"
  shows "base_search ucmp k fs i = (i + length (takeWhile (\<lambda>f. Compare ucmp k (file_limit f) > 0) fs), \<not> (\<exists>f \<in> set fs. covers ucmp k f))"
  using assms
proof (induction fs arbitrary: i)
  case (Cons f fs)
  have IH: "base_search ucmp k fs j = (j + length (takeWhile (\<lambda>f. Compare ucmp k (file_limit f) > 0) fs), \<not> (\<exists>f \<in> set fs. covers ucmp k f))" for j
    using Cons.prems by (intro Cons.IH) (auto simp: disjoint_sorted_def)
  show ?case
  proof (cases "Compare ucmp k (file_limit f) \<le> 0")
    case True
    have "\<not> covers ucmp k g" if "Compare ucmp k (file_start f) < 0" "g \<in> set fs" for g
    proof -
      have g: "meta_ok ucmp valid g" and f: "meta_ok ucmp valid f" and less: "icmp (fm_largest f) (fm_smallest g) < 0"
        using Cons.prems that(2) by (auto simp: disjoint_sorted_def)
      have "Compare ucmp (file_limit f) (file_start g) \<le> 0" using less by (intro user_le) simp
      moreover have "Compare ucmp k (file_limit f) < 0"
        using u.compare_trans [of k "file_start f" "file_limit f"] that(1) meta_okD [OF f] Cons.prems(3) u.compare_eq_0 [of "file_start f" "file_limit f"]
        by force
      ultimately have "Compare ucmp k (file_start g) < 0"
        using u.compare_trans [of k "file_limit f" "file_start g"] u.compare_eq_0 [of "file_limit f" "file_start g"] meta_okD [OF f] meta_okD [OF g] Cons.prems(3)
        by force
      then show ?thesis by (simp add: covers_def)
    qed
    then show ?thesis using True by (auto simp: covers_def)
  next
    case False
    then show ?thesis using IH by (simp add: covers_def)
  qed
qed simp

lemma passed_later:
  assumes "passed ucmp h v ptrs k" "Compare ucmp k k' \<le> 0" "valid k" "valid k'"
    "\<And>l f. l < kNumLevels \<Longrightarrow> f \<in> set (level_files h v l) \<Longrightarrow> valid (file_limit f)"
  shows "passed ucmp h v ptrs k'"
proof -
  have "Compare ucmp k' (file_limit f) > 0" if "l < kNumLevels" "f \<in> set (take (ptrs ! l) (level_files h v l))" for l f
  proof -
    have lim: "valid (file_limit f)" using assms(5) [OF that(1)] that(2) by (meson in_set_takeD)
    have "Compare ucmp (file_limit f) k < 0" using assms(1) that u.compare_flip [OF lim assms(3)] by (simp add: passed_def)
    then have "Compare ucmp (file_limit f) k' < 0"
      using u.compare_trans [OF lim assms(3,4)] assms(2) u.compare_eq_0 [OF assms(3,4)] by force
    then show ?thesis using u.compare_flip [OF lim assms(4)] by simp
  qed
  then show ?thesis using assms(1) by (simp add: passed_def)
qed

lemma base_levels_eq:
  assumes "passed ucmp h v ptrs k" "valid k" "\<And>l. l \<in> set ls \<Longrightarrow> l < kNumLevels \<and> disjoint_sorted ucmp (level_files h v l)"
    "\<And>l f. l < kNumLevels \<Longrightarrow> f \<in> set (level_files h v l) \<Longrightarrow> meta_ok ucmp valid f"
  shows "fst (base_levels ucmp h v k ls ptrs) \<longleftrightarrow> (\<forall>l \<in> set ls. \<forall>f \<in> set (level_files h v l). \<not> covers ucmp k f)"
    "passed ucmp h v (snd (base_levels ucmp h v k ls ptrs)) k"
proof -
  have "(fst (base_levels ucmp h v k ls ptrs) \<longleftrightarrow> (\<forall>l \<in> set ls. \<forall>f \<in> set (level_files h v l). \<not> covers ucmp k f)) \<and>
      passed ucmp h v (snd (base_levels ucmp h v k ls ptrs)) k"
    using assms
  proof (induction ls arbitrary: ptrs)
    case (Cons l ls)
    let ?fs = "level_files h v l" and ?P = "\<lambda>f. Compare ucmp k (file_limit f) > 0"
    let ?rest = "drop (ptrs ! l) ?fs"
    have l: "l < kNumLevels" "disjoint_sorted ucmp ?fs" "\<forall>f \<in> set ?rest. meta_ok ucmp valid f"
      using Cons.prems(3,4) [of l] by (auto dest: in_set_dropD)
    have sorted: "disjoint_sorted ucmp ?rest" using l(2) by (simp only: disjoint_sorted_def sorted_wrt_drop)
    define i where "i = ptrs ! l + length (takeWhile ?P ?rest)"
    have search: "base_search ucmp k ?rest (ptrs ! l) = (i, \<not> (\<exists>f \<in> set ?rest. covers ucmp k f))"
      unfolding i_def by (rule base_search_eq [OF sorted l(3) Cons.prems(2)])
    have front: "\<forall>f \<in> set (take (ptrs ! l) ?fs). ?P f" using Cons.prems(1) l(1) by (simp add: passed_def)
    have "take i ?fs = take (ptrs ! l) ?fs @ takeWhile ?P ?rest"
      unfolding i_def take_add by (simp flip: takeWhile_eq_take)
    then have "\<forall>f \<in> set (take i ?fs). ?P f" using front by (auto dest: set_takeWhileD)
    then have p: "passed ucmp h v (ptrs[l := i]) k"
      using Cons.prems(1) l(1) by (auto simp: passed_def nth_list_update)
    have "covers ucmp k f \<Longrightarrow> \<not> ?P f" for f by (simp add: covers_def)
    moreover have "set ?fs = set (take (ptrs ! l) ?fs) \<union> set ?rest" by (metis append_take_drop_id set_append)
    ultimately have none: "(\<exists>f \<in> set ?rest. covers ucmp k f) \<longleftrightarrow> (\<exists>f \<in> set ?fs. covers ucmp k f)" using front by blast
    show ?case
      using Cons.IH [OF p Cons.prems(2)] Cons.prems(3,4) p search none by (auto split: if_splits)
  qed simp
  then show "fst (base_levels ucmp h v k ls ptrs) \<longleftrightarrow> (\<forall>l \<in> set ls. \<forall>f \<in> set (level_files h v l). \<not> covers ucmp k f)"
    "passed ucmp h v (snd (base_levels ucmp h v k ls ptrs)) k" by blast+
qed

end

section \<open>The loop\<close>

definition levels_ok :: "comparator_class \<Rightarrow> (slice \<Rightarrow> bool) \<Rightarrow> files \<Rightarrow> Version \<Rightarrow> bool" where
  "levels_ok ucmp valid h v \<longleftrightarrow> (\<forall>l < kNumLevels. \<forall>f \<in> set (level_files h v l). meta_ok ucmp valid f) \<and>
     (\<forall>l. 0 < l \<and> l < kNumLevels \<longrightarrow> disjoint_sorted ucmp (level_files h v l))"

definition follows :: "operation option \<Rightarrow> DropState \<Rightarrow> bool" where
  "follows before ds \<longleftrightarrow> (case before of None \<Rightarrow> current_user_key ds = None
     | Some b \<Rightarrow> current_user_key ds = Some (op_user b) \<and> last_sequence_for_key ds = fst b)"

definition hidden_op :: "(slice \<Rightarrow> bool) \<Rightarrow> SequenceNumber \<Rightarrow> operation option \<Rightarrow> operation \<Rightarrow> bool" where
  "hidden_op base small before op \<longleftrightarrow> (case before of None \<Rightarrow> False | Some b \<Rightarrow> op_user b = op_user op \<and> fst b \<le> small) \<or>
     op_type op = kTypeDeletion \<and> fst op \<le> small \<and> base (op_user op)"

lemma kept_ops_Cons: "kept_ops base small before (op # ops) = (if hidden_op base small before op then [] else [op]) @ kept_ops base small (Some op) ops"
  by (simp only: kept_ops.simps hidden_op_def)

context version_keys
begin

lemma drop_entry_eq:
  assumes op: "fst op \<le> kMaxSequenceNumber" "valid (op_user op)" and ds: "follows before ds" "\<forall>b. before = Some b \<longrightarrow> valid (op_user b)"
    and small: "cs_smallest_snapshot st < kMaxSequenceNumber" and h: "levels_ok ucmp valid h (c_input_version (cs_compaction st))"
    and ptrs: "passed ucmp h (c_input_version (cs_compaction st)) (c_level_ptrs (cs_compaction st)) (op_user op)"
  shows "\<exists>ptrs. drop_entry ucmp h (op_ikey op) ds st =
       (hidden_op (deeper_free ucmp h (c_input_version (cs_compaction st)) (c_level (cs_compaction st))) (cs_smallest_snapshot st) before op,
        \<lparr>current_user_key = Some (op_user op), last_sequence_for_key = fst op\<rparr>,
        st\<lparr>cs_compaction := (cs_compaction st)\<lparr>c_level_ptrs := ptrs\<rparr>\<rparr>) \<and>
     passed ucmp h (c_input_version (cs_compaction st)) ptrs (op_user op)"
proof -
  let ?c = "cs_compaction st" and ?k = "op_user op"
  let ?v = "c_input_version ?c" and ?ls = "[c_level ?c + 2..<kNumLevels]"
  have meta: "\<And>l f. l < kNumLevels \<Longrightarrow> f \<in> set (level_files h ?v l) \<Longrightarrow> meta_ok ucmp valid f" using h unfolding levels_ok_def by blast
  have order: "\<And>l. l \<in> set ?ls \<Longrightarrow> l < kNumLevels \<and> disjoint_sorted ucmp (level_files h ?v l)" using h by (auto simp: levels_ok_def)
  have level: "fst (base_levels ucmp h ?v ?k ?ls (c_level_ptrs ?c)) \<longleftrightarrow> (\<forall>l \<in> set ?ls. \<forall>f \<in> set (level_files h ?v l). \<not> covers ucmp ?k f)"
    by (rule base_levels_eq(1) [OF ptrs op(2)]) (erule order, erule meta, assumption)
  have moved: "passed ucmp h ?v (snd (base_levels ucmp h ?v ?k ?ls (c_level_ptrs ?c))) ?k"
    by (rule base_levels_eq(2) [OF ptrs op(2)]) (erule order, erule meta, assumption)
  obtain ptrs' where base: "IsBaseLevelForKey ucmp h ?k ?c = (deeper_free ucmp h ?v (c_level ?c) ?k, ?c\<lparr>c_level_ptrs := ptrs'\<rparr>)" "passed ucmp h ?v ptrs' ?k"
    using level moved by (cases "base_levels ucmp h ?v ?k ?ls (c_level_ptrs ?c)") (auto simp: IsBaseLevelForKey_def deeper_free_def)
  have same: "\<exists>p. st = st\<lparr>cs_compaction := ?c\<lparr>c_level_ptrs := p\<rparr>\<rparr> \<and> passed ucmp h ?v p ?k"
    using ptrs by (intro exI [of _ "c_level_ptrs ?c"]) simp
  have parse: "ParseInternalKey (op_ikey op) = Some \<lparr>pk_user_key = ?k, pk_sequence = fst op, pk_type = op_type op\<rparr>"
    by (rule ParseInternalKey_op [OF op(1)])
  define same_key where "same_key \<longleftrightarrow> (\<exists>b. before = Some b \<and> op_user b = ?k)"
  define d where "d = (if \<not> same_key then \<lparr>current_user_key = Some ?k, last_sequence_for_key = kMaxSequenceNumber\<rparr> else ds)"
  have first: "(case current_user_key ds of None \<Rightarrow> True | Some k \<Rightarrow> Compare ucmp ?k k \<noteq> 0) \<longleftrightarrow> \<not> same_key"
    using ds u.compare_eq_0 [OF op(2)] by (auto simp: follows_def same_key_def split: option.splits)
  have last: "last_sequence_for_key d \<le> cs_smallest_snapshot st \<longleftrightarrow>
      (case before of None \<Rightarrow> False | Some b \<Rightarrow> op_user b = ?k \<and> fst b \<le> cs_smallest_snapshot st)"
    using ds(1) small by (auto simp: d_def same_key_def follows_def split: option.splits)
  have d: "d\<lparr>last_sequence_for_key := fst op\<rparr> = \<lparr>current_user_key = Some ?k, last_sequence_for_key = fst op\<rparr>"
    using ds(1) by (cases ds) (auto simp: d_def same_key_def follows_def split: option.splits)
  have "drop_entry ucmp h (op_ikey op) ds st =
      (let (dropped, st) = (if last_sequence_for_key d \<le> cs_smallest_snapshot st then (True, st)
            else if op_type op = kTypeDeletion \<and> fst op \<le> cs_smallest_snapshot st
            then (deeper_free ucmp h ?v (c_level ?c) ?k, st\<lparr>cs_compaction := ?c\<lparr>c_level_ptrs := ptrs'\<rparr>\<rparr>) else (False, st))
       in (dropped, d\<lparr>last_sequence_for_key := fst op\<rparr>, st))"
    by (simp only: drop_entry_def parse option.case ParsedInternalKey.select_convs first Let_def base(1) prod.case d_def)
  then show ?thesis
    using same base(2) last by (auto simp: hidden_op_def d Let_def)
qed

end

text \<open>What has been written so far, and the outputs that describe it.\<close>

definition written :: "CompactionState \<Rightarrow> entries" where
  "written st = concat (map snd (cs_tables st)) @ (case cs_builder st of None \<Rightarrow> [] | Some es \<Rightarrow> es)"

definition output_of :: "output_env \<Rightarrow> u64 \<times> entries \<Rightarrow> Output" where
  "output_of env = (\<lambda>(n, es). \<lparr>out_number = n, out_file_size = table_size env es, out_smallest = fst (hd es), out_largest = fst (last es)\<rparr>)"

definition outputs_ok :: "output_env \<Rightarrow> CompactionState \<Rightarrow> bool" where
  "outputs_ok env st \<longleftrightarrow>
     cs_outputs st = map (output_of env) (cs_tables st) @
       (case cs_builder st of None \<Rightarrow> []
        | Some es \<Rightarrow> [\<lparr>out_number = new_number env (length (cs_tables st)), out_file_size = 0, out_smallest = fst (hd es), out_largest = fst (last es)\<rparr>]) \<and>
     map fst (cs_tables st) = map (new_number env) [0..<length (cs_tables st)] \<and>
     (\<forall>t \<in> set (cs_tables st). snd t \<noteq> []) \<and> cs_builder st \<noteq> Some []"

lemma Finish_output:
  assumes "outputs_ok env st" "cs_builder st = Some es" "FinishCompactionOutputFile env input es st = (s, st')" "ok s"
  shows "outputs_ok env st'" "written st' = written st" "cs_builder st' = None" "cs_compaction st' = cs_compaction st"
    "cs_smallest_snapshot st' = cs_smallest_snapshot st"
  using assms by (auto simp: FinishCompactionOutputFile_def Let_def outputs_ok_def set_last_output_def written_def output_of_def split: if_splits)

lemma keep_entry_output:
  assumes "outputs_ok env st" "keep_entry env input e st = (s, st')" "ok s"
  shows "outputs_ok env st'" "written st' = written st @ [e]" "cs_compaction st' = cs_compaction st"
    "cs_smallest_snapshot st' = cs_smallest_snapshot st"
proof -
  define es where "es = (case cs_builder st of None \<Rightarrow> [] | Some es \<Rightarrow> es)"
  define outs where "outs = map (output_of env) (cs_tables st) @ [\<lparr>out_number = new_number env (length (cs_tables st)), out_file_size = 0,
     out_smallest = fst (hd (es @ [e])), out_largest = fst e\<rparr>]"
  define st1 where "st1 = st\<lparr>cs_outputs := outs, cs_builder := Some (es @ [e])\<rparr>"
  have st1: "outputs_ok env st1" "written st1 = written st @ [e]" "cs_builder st1 = Some (es @ [e])"
    using assms(1) by (auto simp: outputs_ok_def st1_def outs_def written_def es_def split: option.splits)
  have "(s, st') = (if table_size env (es @ [e]) \<ge> c_max_output_file_size (cs_compaction st)
      then FinishCompactionOutputFile env input (es @ [e]) st1 else (OK, st1))"
  proof (cases "cs_builder st")
    case None
    then show ?thesis using assms
      by (auto simp: keep_entry_def OpenCompactionOutputFile_def Let_def set_last_output_def es_def st1_def outs_def outputs_ok_def split: if_splits)
  next
    case (Some bs)
    then have "bs \<noteq> []" using assms(1) by (auto simp: outputs_ok_def)
    then show ?thesis using assms Some
      by (auto simp: keep_entry_def Let_def set_last_output_def es_def st1_def outs_def outputs_ok_def OK_def ok_def split: if_splits)
  qed
  then consider (full) "FinishCompactionOutputFile env input (es @ [e]) st1 = (s, st')" | (more) "st' = st1" by (auto split: if_splits)
  then have "outputs_ok env st' \<and> written st' = written st @ [e] \<and> cs_compaction st' = cs_compaction st1 \<and>
      cs_smallest_snapshot st' = cs_smallest_snapshot st1"
  proof cases
    case full
    from Finish_output [OF st1(1,3) this assms(3)] st1(2) show ?thesis by simp
  qed (simp add: st1)
  then show "outputs_ok env st'" "written st' = written st @ [e]" "cs_compaction st' = cs_compaction st"
    "cs_smallest_snapshot st' = cs_smallest_snapshot st"
    by (simp_all add: st1_def)
qed

lemma ShouldStopBefore_keeps:
  "ShouldStopBefore max_file_size icmp h k c = (stop, c') \<Longrightarrow>
     c_input_version c' = c_input_version c \<and> c_level c' = c_level c \<and> c_level_ptrs c' = c_level_ptrs c \<and>
     c_inputs0 c' = c_inputs0 c \<and> c_inputs1 c' = c_inputs1 c \<and> c_edit c' = c_edit c"
  by (auto simp: ShouldStopBefore_def Let_def split: prod.splits if_splits)

lemma stop_before_output:
  assumes "outputs_ok env st" "stop_before max_file_size ucmp h env input k st = (s, st')" "ok s"
  shows "outputs_ok env st'" "written st' = written st" "c_input_version (cs_compaction st') = c_input_version (cs_compaction st)"
    "c_level (cs_compaction st') = c_level (cs_compaction st)" "c_level_ptrs (cs_compaction st') = c_level_ptrs (cs_compaction st)"
    "cs_smallest_snapshot st' = cs_smallest_snapshot st"
proof -
  obtain stop c where c: "ShouldStopBefore max_file_size (InternalKeyComparator ucmp) h k (cs_compaction st) = (stop, c)" by fastforce
  define st1 where "st1 = st\<lparr>cs_compaction := c\<rparr>"
  have st1: "outputs_ok env st1" using assms(1) by (auto simp: outputs_ok_def st1_def split: option.splits)
  consider (stops) es where "cs_builder st1 = Some es" "FinishCompactionOutputFile env input es st1 = (s, st')" | (on) "st' = st1"
    using assms(2) c by (auto simp: stop_before_def st1_def Let_def split: option.splits if_splits)
  then have "outputs_ok env st' \<and> written st' = written st1 \<and> cs_compaction st' = cs_compaction st1 \<and> cs_smallest_snapshot st' = cs_smallest_snapshot st1"
  proof cases
    case (stops es)
    from Finish_output [OF st1 this assms(3)] show ?thesis by simp
  qed (simp add: st1)
  then show "outputs_ok env st'" "written st' = written st" "c_input_version (cs_compaction st') = c_input_version (cs_compaction st)"
    "c_level (cs_compaction st') = c_level (cs_compaction st)" "c_level_ptrs (cs_compaction st') = c_level_ptrs (cs_compaction st)"
    "cs_smallest_snapshot st' = cs_smallest_snapshot st"
    using ShouldStopBefore_keeps [OF c] by (simp_all add: st1_def written_def)
qed

lemma outputs_ok_compaction [simp]: "outputs_ok env (st\<lparr>cs_compaction := c\<rparr>) = outputs_ok env st"
  by (simp add: outputs_ok_def cong: option.case_cong)

lemma written_compaction [simp]: "written (st\<lparr>cs_compaction := c\<rparr>) = written st"
  by (simp add: written_def)

lemma entries_of_simps [simp]: "entries_of [] = []" "entries_of (op # ops) = (op_ikey op, op_value op) # entries_of ops"
  "entries_of (ops @ ops') = entries_of ops @ entries_of ops'"
  by (simp_all add: entries_of_def)

context version_keys
begin

lemma compaction_loop_kept:
  assumes "ops_sorted ucmp valid ops" "follows before ds" "\<forall>b. before = Some b \<longrightarrow> valid (op_user b)" "outputs_ok env st"
    "cs_smallest_snapshot st < kMaxSequenceNumber" "levels_ok ucmp valid h (c_input_version (cs_compaction st))"
    "\<forall>op \<in> set ops. passed ucmp h (c_input_version (cs_compaction st)) (c_level_ptrs (cs_compaction st)) (op_user op)"
    "compaction_loop max_file_size ucmp h env (entries_of ops) ds st = ([], s, st')" "ok s"
  shows "outputs_ok env st' \<and> written st' = written st @
     entries_of (kept_ops (deeper_free ucmp h (c_input_version (cs_compaction st)) (c_level (cs_compaction st))) (cs_smallest_snapshot st) before ops)"
  using assms
proof (induction ops arbitrary: before ds st)
  case Nil
  then show ?case by simp
next
  case (Cons op ops)
  let ?v = "c_input_version (cs_compaction st)" and ?lv = "c_level (cs_compaction st)" and ?small = "cs_smallest_snapshot st"
  let ?base = "deeper_free ucmp h ?v ?lv"
  have op: "fst op \<le> kMaxSequenceNumber" "valid (op_user op)" and s: "ops_sorted ucmp valid ops"
    and later: "\<And>x. x \<in> set ops \<Longrightarrow> Compare ucmp (op_user op) (op_user x) \<le> 0 \<and> valid (op_user x)"
    using Cons.prems(1) u.compare_refl by (auto simp: ops_sorted_def op_before_def)
  have lim: "valid (file_limit f)" if "l < kNumLevels" "f \<in> set (level_files h ?v l)" for l f
    using Cons.prems(6) that meta_okD(2) [of f] unfolding levels_ok_def by blast
  obtain s1 st1 where st1: "stop_before max_file_size ucmp h env (entries_of (op # ops)) (op_ikey op) st = (s1, st1)" "ok s1"
    using Cons.prems(8) by (auto split: if_splits prod.splits)
  note stop = stop_before_output [OF Cons.prems(4) st1]
  have "\<exists>ptrs. drop_entry ucmp h (op_ikey op) ds st1 = (hidden_op ?base ?small before op, \<lparr>current_user_key = Some (op_user op), last_sequence_for_key = fst op\<rparr>,
        st1\<lparr>cs_compaction := (cs_compaction st1)\<lparr>c_level_ptrs := ptrs\<rparr>\<rparr>) \<and> passed ucmp h ?v ptrs (op_user op)"
    using drop_entry_eq [OF op Cons.prems(2,3), of st1 h] Cons.prems(5,6,7) stop by simp
  then obtain ptrs where drop: "drop_entry ucmp h (op_ikey op) ds st1 = (hidden_op ?base ?small before op,
        \<lparr>current_user_key = Some (op_user op), last_sequence_for_key = fst op\<rparr>, st1\<lparr>cs_compaction := (cs_compaction st1)\<lparr>c_level_ptrs := ptrs\<rparr>\<rparr>)"
      "passed ucmp h ?v ptrs (op_user op)" by blast
  define st2 where "st2 = st1\<lparr>cs_compaction := (cs_compaction st1)\<lparr>c_level_ptrs := ptrs\<rparr>\<rparr>"
  have passed: "\<forall>x \<in> set ops. passed ucmp h ?v ptrs (op_user x)"
  proof
    fix x assume "x \<in> set ops"
    note x = conjunct1 [OF later [OF this]] conjunct2 [OF later [OF this]]
    show "passed ucmp h ?v ptrs (op_user x)" by (rule passed_later [OF drop(2) x(1) op(2) x(2)]) (erule lim, assumption)
  qed
  have st2: "outputs_ok env st2" "written st2 = written st" "cs_smallest_snapshot st2 = ?small" "c_input_version (cs_compaction st2) = ?v"
      "c_level (cs_compaction st2) = ?lv" "c_level_ptrs (cs_compaction st2) = ptrs"
    using stop by (simp_all add: st2_def)
  let ?ds = "\<lparr>current_user_key = Some (op_user op), last_sequence_for_key = fst op\<rparr>"
  have next_: "outputs_ok env st' \<and> written st' = written st3 @ entries_of (kept_ops ?base ?small (Some op) ops)"
    if "outputs_ok env st3" "cs_compaction st3 = cs_compaction st2" "cs_smallest_snapshot st3 = ?small"
      "compaction_loop max_file_size ucmp h env (entries_of ops) ?ds st3 = ([], s, st')" for st3
  proof -
    have "outputs_ok env st' \<and> written st' = written st3 @ entries_of (kept_ops (deeper_free ucmp h (c_input_version (cs_compaction st3))
        (c_level (cs_compaction st3))) (cs_smallest_snapshot st3) (Some op) ops)"
    proof (rule Cons.IH [OF s _ _ that(1) _ _ _ that(4) Cons.prems(9)])
      show "levels_ok ucmp valid h (c_input_version (cs_compaction st3))" using Cons.prems(6) by (simp only: that(2) st2(4))
      show "\<forall>x \<in> set ops. passed ucmp h (c_input_version (cs_compaction st3)) (c_level_ptrs (cs_compaction st3)) (op_user x)"
        using passed by (simp only: that(2) st2(4,6))
    qed (use op Cons.prems(5) that(3) in \<open>simp_all add: follows_def\<close>)
    then show ?thesis by (simp only: that(2,3) st2(4,5))
  qed
  show ?case
  proof (cases "hidden_op ?base ?small before op")
    case True
    then have "compaction_loop max_file_size ucmp h env (entries_of ops) ?ds st2 = ([], s, st')"
      using Cons.prems(8) st1 drop(1) by (simp add: st2_def split: if_splits)
    then show ?thesis using next_ [OF st2(1) refl st2(3)] True st2(2) by (simp only: kept_ops_Cons if_True append.simps)
  next
    case False
    obtain s3 st3 where st3: "keep_entry env (entries_of (op # ops)) (op_ikey op, op_value op) st2 = (s3, st3)" "ok s3"
        "compaction_loop max_file_size ucmp h env (entries_of ops) ?ds st3 = ([], s, st')"
      using Cons.prems(8) st1 drop(1) False by (auto simp: st2_def split: if_splits prod.splits)
    note keep = keep_entry_output [OF st2(1) st3(1,2)]
    have "outputs_ok env st' \<and> written st' = written st3 @ entries_of (kept_ops ?base ?small (Some op) ops)"
      by (rule next_ [OF keep(1,3) _ st3(3)]) (simp only: keep(4) st2(3))
    then show ?thesis using False keep(2) st2(2) by (simp add: kept_ops_Cons del: kept_ops.simps)
  qed
qed

end

lemma compaction_loop_left:
  "compaction_loop max_file_size ucmp h env input ds st = (left, s, st') \<Longrightarrow> ok s \<Longrightarrow> left = [] \<or> shut_down env left"
  by (induction input arbitrary: ds st) (auto split: if_splits prod.splits)

lemma concat_mapped: "concat xss = map f ys \<Longrightarrow> \<exists>yss. xss = map (map f) yss \<and> concat yss = ys"
proof (induction xss arbitrary: ys)
  case (Cons xs xss)
  have "xs = map f (take (length xs) ys)" "concat xss = map f (drop (length xs) ys)"
    using Cons.prems by (metis append_eq_conv_conj concat.simps(2) take_map, metis append_eq_conv_conj concat.simps(2) drop_map)
  moreover then obtain yss where "xss = map (map f) yss" "concat yss = drop (length xs) ys" using Cons.IH by blast
  ultimately show ?case by (intro exI [of _ "take (length xs) ys # yss"]) simp
qed simp

text \<open>Files and the iterator without faults.\<close>

definition faultless :: "output_env \<Rightarrow> bool" where
  "faultless env \<longleftrightarrow> (\<forall>n. ok (opened_table env n)) \<and> (\<forall>n es. ok (finished env n es)) \<and> (\<forall>es. ok (input_status env es) \<and> \<not> shut_down env es)"

lemma faultless_Finish: "faultless env \<Longrightarrow> ok (fst (FinishCompactionOutputFile env input es st))"
  by (simp add: faultless_def FinishCompactionOutputFile_def Let_def)

lemma faultless_loop:
  assumes "faultless env" "compaction_loop max_file_size ucmp h env input ds st = (left, s, st')"
  shows "ok s \<and> left = []"
proof -
  have stop: "ok (fst (stop_before max_file_size ucmp h env input k st))" for input k st
    using faultless_Finish [OF assms(1)] by (simp add: stop_before_def Let_def split: prod.split option.split)
  have keep: "ok (fst (keep_entry env input e st))" for input e st
    using faultless_Finish [OF assms(1)] assms(1)
    by (auto simp: keep_entry_def OpenCompactionOutputFile_def Let_def faultless_def OK_def ok_def split: option.split)
  show ?thesis using assms(2)
  proof (induction input arbitrary: ds st)
    case (Cons e input)
    have "\<not> shut_down env (e # input)" using assms(1) by (simp add: faultless_def)
    then show ?case using Cons stop [of "e # input" "fst e" st] keep [of "e # input" e] by (auto split: prod.splits if_splits) (metis fst_conv)+
  qed simp
qed

section \<open>Reads over a compaction\<close>

text \<open>The operations in the inputs, and those in the other tables of the version.\<close>

definition is_input :: "Compaction \<Rightarrow> nat \<Rightarrow> file_ptr \<Rightarrow> bool" where
  "is_input c l p \<longleftrightarrow> l = c_level c \<and> p \<in> set (c_inputs0 c) \<or> l = c_level c + 1 \<and> p \<in> set (c_inputs1 c)"

definition table_ops :: "(u64 \<Rightarrow> operation list) \<Rightarrow> files \<Rightarrow> Version \<Rightarrow> (nat \<Rightarrow> file_ptr \<Rightarrow> bool) \<Rightarrow> operation set" where
  "table_ops ts h v P = {op. \<exists>l p. l < kNumLevels \<and> p \<in> set (v_files v ! l) \<and> P l p \<and> op \<in> set (ts (fm_number (h ! p)))}"

lemma table_ops_split: "version_ops ts h v = table_ops ts h v P \<union> table_ops ts h v (\<lambda>l p. \<not> P l p)"
  by (auto simp: version_ops_def level_ops_def table_ops_def)

text \<open>The tables that stay at the two levels have nothing older than what is in the inputs.\<close>

definition inputs_closed :: "(u64 \<Rightarrow> operation list) \<Rightarrow> files \<Rightarrow> Compaction \<Rightarrow> bool" where
  "inputs_closed ts h c \<longleftrightarrow>
     (let v = c_input_version c; lv = c_level c
      in lv + 1 < kNumLevels \<and> set (c_inputs0 c) \<subseteq> set (v_files v ! lv) \<and> set (c_inputs1 c) \<subseteq> set (v_files v ! (lv + 1)) \<and>
         (\<forall>l p k q. is_input c l p \<and> (k = lv \<or> k = lv + 1) \<and> q \<in> set (v_files v ! k) \<and> \<not> is_input c k q \<longrightarrow>
            newer (ts (fm_number (h ! q))) (ts (fm_number (h ! p)))))"

context version_keys
begin

lemma lsm_levels_ok: "lsm_ok ucmp valid ts h v \<Longrightarrow> levels_ok ucmp valid h v"
  using table_meta_ok by (auto simp: lsm_ok_def levels_ok_def)

lemma table_covers:
  assumes "table_holds ucmp valid f ops" "op \<in> set ops"
  shows "covers ucmp (op_user op) f"
proof -
  have ops: "ops_sorted ucmp valid ops" "ops \<noteq> []" "fm_smallest f = op_ikey (hd ops)" "fm_largest f = op_ikey (last ops)"
    using assms(1) by (simp_all add: table_holds_def)
  have valid: "valid (op_user x)" if "x \<in> set ops" for x using ops(1) that by (simp add: ops_sorted_def)
  have le: "Compare ucmp (op_user a) (op_user b) \<le> 0" if "op_before ucmp a b \<or> a = b" "a \<in> set ops" for a b
    using that(1) u.compare_refl [OF valid [OF that(2)]] by (auto simp: op_before_def)
  have "op = hd ops \<or> op_before ucmp (hd ops) op" using assms(2) ops(1,2) by (cases ops) (auto simp: ops_sorted_def)
  moreover have "op = last ops \<or> op_before ucmp op (last ops)"
    using assms(2) ops(1,2) by (cases ops rule: rev_cases) (auto simp: ops_sorted_def sorted_wrt_append)
  ultimately have "Compare ucmp (op_user (hd ops)) (op_user op) \<le> 0" "Compare ucmp (op_user op) (op_user (last ops)) \<le> 0"
    using le assms(2) ops(2) by (metis hd_in_set, metis)
  then show ?thesis
    using u.compare_flip [of "op_user op" "op_user (hd ops)"] valid assms(2) ops(2)
    by (simp add: covers_def ops(3,4) op_ikey_def not_less [symmetric])
qed

text \<open>Where a deletion may be dropped, everything elsewhere on its key is newer.\<close>

lemma others_newer:
  assumes lsm: "lsm_ok ucmp valid ts h (c_input_version c)" and closed: "inputs_closed ts h c"
    and base: "deeper_free ucmp h (c_input_version c) (c_level c) key"
    and a: "a \<in> table_ops ts h (c_input_version c) (is_input c)" "op_user a = key"
    and d: "d \<in> table_ops ts h (c_input_version c) (\<lambda>l p. \<not> is_input c l p)" "op_user d = key"
  shows "fst a < fst d"
proof -
  let ?v = "c_input_version c" and ?lv = "c_level c"
  obtain l p where p: "l < kNumLevels" "p \<in> set (v_files ?v ! l)" "is_input c l p" "a \<in> set (ts (fm_number (h ! p)))"
    using a(1) by (auto simp: table_ops_def)
  obtain k q where q: "k < kNumLevels" "q \<in> set (v_files ?v ! k)" "\<not> is_input c k q" "d \<in> set (ts (fm_number (h ! q)))"
    using d(1) by (auto simp: table_ops_def)
  have "newer (ts (fm_number (h ! q))) (ts (fm_number (h ! p)))"
  proof -
    consider "k < ?lv" | "k = ?lv \<or> k = ?lv + 1" | "?lv + 2 \<le> k" by linarith
    then show ?thesis
    proof cases
      case 1
      then have "k < l" using p(3) by (auto simp: is_input_def)
      then show ?thesis using lsm p(1,2) q(2) unfolding lsm_ok_def by blast
    next
      case 2
      then show ?thesis using closed p(3) q(2,3) unfolding inputs_closed_def Let_def by blast
    next
      case 3
      have "table_holds ucmp valid (h ! q) (ts (fm_number (h ! q)))" using lsm q(1,2) unfolding lsm_ok_def by blast
      then have "covers ucmp key (h ! q)" using table_covers q(4) d(2) by blast
      then show ?thesis using base 3 q(1,2) by (auto simp: deeper_free_def)
    qed
  qed
  then show ?thesis using p(4) q(4) a(2) d(2) unfolding newer_def by blast
qed

end

lemma faultless_work:
  assumes "faultless env" "DoCompactionWork max_file_size ucmp h env snapshots last_sequence input st = (s, edit, st')"
  shows "ok s"
proof -
  obtain left s1 st1 where loop: "compaction_loop max_file_size ucmp h env input \<lparr>current_user_key = None, last_sequence_for_key = kMaxSequenceNumber\<rparr>
      (st\<lparr>cs_smallest_snapshot := (case snapshots of [] \<Rightarrow> last_sequence | s # _ \<Rightarrow> s)\<rparr>) = (left, s1, st1)" by (metis prod_cases3)
  have "ok s1" "left = []" using faultless_loop [OF assms(1) loop] by simp_all
  then show ?thesis
    using assms loop faultless_Finish [OF assms(1), of left _ st1]
    by (auto simp: DoCompactionWork_def Let_def faultless_def split: option.splits prod.splits if_splits) (metis fst_conv)+
qed

text \<open>The states in which a compaction that succeeds ends its loop and its work.\<close>

lemma work_ends:
  assumes "DoCompactionWork max_file_size ucmp h env snapshots last_sequence input st = (s, edit, st')" "ok s"
    and loop: "compaction_loop max_file_size ucmp h env input \<lparr>current_user_key = None, last_sequence_for_key = kMaxSequenceNumber\<rparr>
      (st\<lparr>cs_smallest_snapshot := (case snapshots of [] \<Rightarrow> last_sequence | s # _ \<Rightarrow> s)\<rparr>) = (left, s1, st1)"
  shows "ok s1" "left = []" "edit = Some (results_edit h st')"
    "outputs_ok env st1 \<Longrightarrow> outputs_ok env st' \<and> written st' = written st1 \<and> cs_builder st' = None"
proof -
  have bad: "\<not> ok (IOError (bytes_of ''Deleting DB during compaction'') [])" by simp
  have work: "(s, edit, st') =
      (let s = (if ok s1 \<and> shut_down env left then IOError (bytes_of ''Deleting DB during compaction'') [] else s1);
          (s, st) = (case cs_builder st1 of
                       Some es \<Rightarrow> if ok s then FinishCompactionOutputFile env left es st1 else (s, st1)
                     | None \<Rightarrow> (s, st1));
          s = (if ok s then input_status env left else s)
      in (s, if ok s then Some (results_edit h st) else None, st))"
    using assms(1) by (simp add: DoCompactionWork_def loop Let_def)
  then have s1: "ok s1 \<and> \<not> shut_down env left" using assms(2) bad by (auto simp: Let_def split: option.splits if_splits)
  then show "ok s1" "left = []" using compaction_loop_left [OF loop] by blast+
  show "edit = Some (results_edit h st')" using work assms(2) by (auto simp: Let_def split: option.splits prod.splits if_splits)
  assume ok1: "outputs_ok env st1"
  consider (built) es s2 where "cs_builder st1 = Some es" "FinishCompactionOutputFile env left es st1 = (s2, st')" "ok s2"
    | (idle) "cs_builder st1 = None" "st' = st1"
    using work s1 assms(2) by (auto simp: Let_def split: option.splits prod.splits if_splits)
  then show "outputs_ok env st' \<and> written st' = written st1 \<and> cs_builder st' = None"
  proof cases
    case built
    then show ?thesis using Finish_output [OF ok1 built] by simp
  qed (simp add: ok1)
qed

lemma outputs_of_ops:
  assumes "outputs_ok env st" "cs_builder st = None" "written st = entries_of ops"
  shows "\<exists>outs. concat outs = ops \<and> [] \<notin> set outs \<and> cs_outputs st = map (output_of env) (cs_tables st) \<and>
     cs_tables st = zip (map (new_number env) [0..<length outs]) (map entries_of outs)"
proof -
  have "concat (map snd (cs_tables st)) = map (\<lambda>op. (op_ikey op, op_value op)) ops"
    using assms(2,3) by (simp add: written_def entries_of_def)
  from concat_mapped [OF this] obtain outs where outs: "map snd (cs_tables st) = map entries_of outs" "concat outs = ops"
    by (auto simp: entries_of_def [abs_def])
  have len: "length outs = length (cs_tables st)" using outs(1) by (metis length_map)
  have "map fst (cs_tables st) = map (new_number env) [0..<length outs]" using assms(1) unfolding len outputs_ok_def by blast
  then have "cs_tables st = zip (map (new_number env) [0..<length outs]) (map entries_of outs)"
    using zip_map_fst_snd [of "cs_tables st"] by (simp only: outs(1))
  moreover have "[] \<notin> set outs"
  proof
    assume "[] \<in> set outs"
    then have "[] \<in> set (map snd (cs_tables st))" unfolding outs(1) by force
    then show False using assms(1) by (auto simp: outputs_ok_def)
  qed
  ultimately show ?thesis using outs(2) assms(1,2) by (auto simp: outputs_ok_def)
qed

context version_keys
begin

lemma work_kept:
  assumes "levels_ok ucmp valid h (c_input_version c)" "ops_sorted ucmp valid ops" "c_level_ptrs c = replicate kNumLevels 0"
    "oldest = (case snapshots of [] \<Rightarrow> last_sequence | s # _ \<Rightarrow> s)" "oldest < kMaxSequenceNumber"
    "DoCompactionWork max_file_size ucmp h env snapshots last_sequence (entries_of ops) (CompactionState_new c) = (s, edit, st)" "ok s"
  shows "edit = Some (results_edit h st) \<and> outputs_ok env st \<and> cs_builder st = None \<and>
     written st = entries_of (kept_ops (deeper_free ucmp h (c_input_version c) (c_level c)) oldest None ops)"
proof -
  let ?ds = "\<lparr>current_user_key = None, last_sequence_for_key = kMaxSequenceNumber\<rparr>"
  let ?st = "(CompactionState_new c)\<lparr>cs_smallest_snapshot := (case snapshots of [] \<Rightarrow> last_sequence | s # _ \<Rightarrow> s)\<rparr>"
  obtain left s1 st1 where loop: "compaction_loop max_file_size ucmp h env (entries_of ops) ?ds ?st = (left, s1, st1)" by (metis prod_cases3)
  note ends = work_ends [OF assms(6,7) loop]
  have "passed ucmp h (c_input_version c) (c_level_ptrs c) k" for k by (simp add: passed_def assms(3))
  then have "outputs_ok env st1 \<and> written st1 = written ?st @
      entries_of (kept_ops (deeper_free ucmp h (c_input_version (cs_compaction ?st)) (c_level (cs_compaction ?st))) (cs_smallest_snapshot ?st) None ops)"
    using assms(1,4,5) loop ends(1,2)
    by (intro compaction_loop_kept [OF assms(2)]) (simp_all add: follows_def CompactionState_new_def outputs_ok_def)
  moreover have "written ?st = []" by (simp add: CompactionState_new_def written_def)
  ultimately show ?thesis using ends(3,4) assms(4) by (simp add: CompactionState_new_def)
qed

end

text \<open>C4: a compaction does not change what any reader sees. Let the levels of a version keep their invariant, and let the tables that are not among the
  inputs have nothing older than the inputs at their two levels. When the iterator returns the operations of the inputs in order, \<^verbatim>\<open>DoCompactionWork\<close>
  succeeds on files without faults; whenever it succeeds, its outputs are non-empty tables, in order, of operations of the inputs, and the
  edit to be installed names each with its first and last key. For every key and every snapshot that is not older than the oldest one
  held, a lookup in the outputs and the other tables of the version has the outcome that it had before. When it fails there is no edit.\<close>

theorem compaction_keeps_reads:
  assumes lsm: "lsm_ok BytewiseComparator (\<lambda>_. True) ts h (c_input_version c)" and closed: "inputs_closed ts h c"
    and input: "ops_sorted BytewiseComparator (\<lambda>_. True) ops" "set ops = table_ops ts h (c_input_version c) (is_input c)"
    and start: "c_level_ptrs c = replicate kNumLevels 0"
    and oldest: "oldest = (case snapshots of [] \<Rightarrow> last_sequence | s # _ \<Rightarrow> s)" "oldest < kMaxSequenceNumber"
    and run: "DoCompactionWork max_file_size BytewiseComparator h env snapshots last_sequence (entries_of ops) (CompactionState_new c) = (s, edit, st)"
  shows "(faultless env \<longrightarrow> ok s) \<and> (\<not> ok s \<longrightarrow> edit = None) \<and>
     (ok s \<longrightarrow> edit = Some (results_edit h st) \<and>
        (\<exists>outs. cs_tables st = zip (map (new_number env) [0..<length outs]) (map entries_of outs) \<and>
           cs_outputs st = map (output_of env) (cs_tables st) \<and>
           [] \<notin> set outs \<and> ops_sorted BytewiseComparator (\<lambda>_. True) (concat outs) \<and> set (concat outs) \<subseteq> set ops \<and>
           (\<forall>key snap r value. oldest \<le> snap \<and> newest (version_ops ts h (c_input_version c)) key snap r \<longrightarrow>
              (\<exists>r'. newest (set (concat outs) \<union> table_ops ts h (c_input_version c) (\<lambda>l p. \<not> is_input c l p)) key snap r' \<and>
                 get_outcome r' value = get_outcome r value))))"
proof (intro conjI impI)
  show "ok s" if "faultless env" by (rule faultless_work [OF that run])
  show "edit = None" if "\<not> ok s" using run that by (auto simp: DoCompactionWork_def Let_def split: prod.splits)
  let ?base = "deeper_free BytewiseComparator h (c_input_version c) (c_level c)" and ?D = "table_ops ts h (c_input_version c) (\<lambda>l p. \<not> is_input c l p)"
  let ?kept = "kept_ops ?base oldest None ops"
  assume "ok s"
  note kept = keys.work_kept [OF keys.lsm_levels_ok [OF lsm] input(1) start oldest run this]
  then show "edit = Some (results_edit h st)" by blast
  have reads: "\<exists>r'. newest (set ?kept \<union> ?D) key snap r' \<and> get_outcome r' dflt = get_outcome r dflt"
    if "oldest \<le> snap" "newest (version_ops ts h (c_input_version c)) key snap r" for key snap r dflt
  proof (rule keys.compaction_newest [OF input(1) that(1)])
    show "newest (set ops \<union> ?D) key snap r" using that(2) by (simp only: input(2) table_ops_split [symmetric])
    show "fst a < fst d" if "?base key" "a \<in> set ops" "d \<in> ?D" "op_user a = key" "op_user d = key" for a d
      using keys.others_newer [OF lsm closed that(1) _ that(4,3,5)] that(2) input(2) by blast
  qed
  have "outputs_ok env st" "cs_builder st = None" "written st = entries_of ?kept" using kept by blast+
  from outputs_of_ops [OF this] obtain outs where "concat outs = ?kept" "[] \<notin> set outs" "cs_outputs st = map (output_of env) (cs_tables st)"
      "cs_tables st = zip (map (new_number env) [0..<length outs]) (map entries_of outs)" by blast
  moreover have "ops_sorted BytewiseComparator (\<lambda>_. True) ?kept"
    using input(1) kept_ops_sorted kept_ops_subset [of ?base oldest None ops] by (auto simp: ops_sorted_def)
  ultimately show "\<exists>outs. cs_tables st = zip (map (new_number env) [0..<length outs]) (map entries_of outs) \<and>
           cs_outputs st = map (output_of env) (cs_tables st) \<and>
           [] \<notin> set outs \<and> ops_sorted BytewiseComparator (\<lambda>_. True) (concat outs) \<and> set (concat outs) \<subseteq> set ops \<and>
           (\<forall>key snap r value. oldest \<le> snap \<and> newest (version_ops ts h (c_input_version c)) key snap r \<longrightarrow>
              (\<exists>r'. newest (set (concat outs) \<union> ?D) key snap r' \<and> get_outcome r' value = get_outcome r value))"
    using reads kept_ops_subset [of ?base oldest None ops] by (intro exI [of _ outs]) simp
qed

text \<open>The two tables of the sample version are merged: of both keys the newest operation decides.\<close>

definition sample_compaction :: Compaction where
  "sample_compaction = (Compaction_new 1000 0 sample_levels)\<lparr>c_inputs0 := [0], c_inputs1 := [1]\<rparr>"

definition sample_merged :: "operation list" where
  "sample_merged = [(5, kTypeDeletion, [1], []), (3, kTypeValue, [1], [9]), (6, kTypeValue, [2], [22]), (2, kTypeValue, [2], [8])]"

definition sample_env :: output_env where
  "sample_env = \<lparr>new_number = \<lambda>i. 10 + of_nat i, opened_table = \<lambda>_. OK, table_size = \<lambda>es. of_nat (length es), finished = \<lambda>_ _. OK,
     input_status = \<lambda>_. OK, shut_down = \<lambda>_. False\<rparr>"

lemma sample_merged_ops: "version_ops sample_tables sample_metas sample_levels = set sample_merged"
proof -
  have files: "v_files sample_levels ! 0 = [0]" "v_files sample_levels ! 1 = [1]" "v_files sample_levels ! 2 = []" "v_files sample_levels ! 3 = []"
    "v_files sample_levels ! 4 = []" "v_files sample_levels ! 5 = []" "v_files sample_levels ! 6 = []"
    by (simp_all add: sample_levels_def)
  have levels: "{..<kNumLevels} = {0, 1, 2, 3, 4, 5, 6}" by (auto simp: kNumLevels_def)
  show ?thesis
    unfolding version_ops_def levels level_ops_def
    by (simp add: files [unfolded One_nat_def]) (auto simp: sample_metas_def FileMetaData_new_def sample_tables_def sample_merged_def)
qed

theorem compaction_keeps_reads_witness:
  "\<exists>s edit st outs r. DoCompactionWork 1000 BytewiseComparator sample_metas sample_env [] 9 (entries_of sample_merged)
        (CompactionState_new sample_compaction) = (s, Some edit, st) \<and> ok s \<and>
     cs_tables st = zip (map (new_number sample_env) [0..<length outs]) (map entries_of outs) \<and>
     newest (set (concat outs)) [2] 9 r \<and> get_outcome r [] = (OK, [22])"
proof -
  let ?c = sample_compaction
  have v: "c_input_version ?c = sample_levels" "c_level ?c = 0" "c_level_ptrs ?c = replicate kNumLevels 0" "c_inputs0 ?c = [0]" "c_inputs1 ?c = [1]"
    by (simp_all add: sample_compaction_def Compaction_new_def)
  have "\<forall>l < kNumLevels. \<forall>p \<in> set (v_files sample_levels ! l). is_input ?c l p"
    unfolding all_levels by (simp add: is_input_def v sample_levels_def)
  then have none: "table_ops sample_tables sample_metas sample_levels (\<lambda>l p. \<not> is_input ?c l p) = {}"
    and all: "\<And>l p. l < kNumLevels \<Longrightarrow> p \<in> set (v_files sample_levels ! l) \<Longrightarrow> is_input ?c l p" by (auto simp: table_ops_def)
  have lsm: "lsm_ok BytewiseComparator (\<lambda>_. True) sample_tables sample_metas (c_input_version ?c)" using sample_lsm by (simp only: v)
  have closed: "inputs_closed sample_tables sample_metas ?c"
    using all [of 0] all [of 1] by (auto simp: inputs_closed_def v kNumLevels_def Let_def) (auto simp: sample_levels_def)
  have ops: "set sample_merged = table_ops sample_tables sample_metas (c_input_version ?c) (is_input ?c)"
    using table_ops_split [of sample_tables sample_metas sample_levels "is_input ?c"] none sample_merged_ops by (simp add: v)
  have sorted: "ops_sorted BytewiseComparator (\<lambda>_. True) sample_merged"
    by (simp add: ops_sorted_def sample_merged_def op_before_def BytewiseComparator_def kMaxSequenceNumber_def)
  have faultless: "faultless sample_env" by (simp add: faultless_def sample_env_def OK_def ok_def)
  obtain s edit st where run: "DoCompactionWork 1000 BytewiseComparator sample_metas sample_env [] 9 (entries_of sample_merged)
      (CompactionState_new ?c) = (s, edit, st)" by (metis prod_cases3)
  have old: "(9 :: SequenceNumber) = (case [] of [] \<Rightarrow> 9 | s # _ \<Rightarrow> s)" "(9 :: SequenceNumber) < kMaxSequenceNumber"
    by (simp_all add: kMaxSequenceNumber_def)
  note keeps = compaction_keeps_reads [OF lsm closed sorted ops v(3) old run]
  have s: "ok s" using keeps faultless by blast
  have "newest (version_ops sample_tables sample_metas (c_input_version ?c)) [2] 9 (Some (6, kTypeValue, [2], [22]))"
    by (simp add: v sample_merged_ops sample_merged_def newest_def)
  then obtain outs r where "cs_tables st = zip (map (new_number sample_env) [0..<length outs]) (map entries_of outs)"
      "newest (set (concat outs) \<union> {}) [2] 9 r" "get_outcome r [] = get_outcome (Some (6, kTypeValue, [2], [22])) []"
      "edit = Some (results_edit sample_metas st)"
    using keeps s unfolding v(1) none by (meson order_refl)
  then show ?thesis using run s by (auto simp: get_outcome_def)
qed

end
