(* ===== verification/LdbCompactionInputs.thy ===== *)
theory LdbCompactionInputs
  imports LdbCompactionProps
begin

text \<open>
  The inputs that \<^verbatim>\<open>PickCompaction\<close> chooses are closed as \<open>compaction_keeps_reads\<close> needs it, as long as no user key is in two tables of a level
  behind level 0.
\<close>

section \<open>Tables without a common key\<close>

definition apart :: "operation list \<Rightarrow> operation list \<Rightarrow> bool" where
  "apart as bs \<longleftrightarrow> (\<forall>a \<in> set as. \<forall>b \<in> set bs. op_user a \<noteq> op_user b)"

lemma apart_newer: "apart as bs \<Longrightarrow> newer as bs"
  by (auto simp: apart_def newer_def)

text \<open>\<open>f\<close> lies in a range of user keys.\<close>

definition inside :: "comparator_class \<Rightarrow> slice option \<Rightarrow> slice option \<Rightarrow> FileMetaData \<Rightarrow> bool" where
  "inside ucmp b e f \<longleftrightarrow> \<not> key_below ucmp (file_start f) b \<and> \<not> key_above ucmp (file_limit f) e"

text \<open>Inputs at the two levels, as they are after every step of the choice.\<close>

definition first_ok :: "(u64 \<Rightarrow> operation list) \<Rightarrow> files \<Rightarrow> Version \<Rightarrow> nat \<Rightarrow> file_ptr list \<Rightarrow> bool" where
  "first_ok ts h v lv inputs0 \<longleftrightarrow> inputs0 \<noteq> [] \<and> set inputs0 \<subseteq> set (v_files v ! lv) \<and>
     (lv = 0 \<longrightarrow> (\<forall>p \<in> set inputs0. \<forall>q \<in> set (v_files v ! lv) - set inputs0. apart (ts (fm_number (h ! q))) (ts (fm_number (h ! p)))))"

definition second_ok :: "(u64 \<Rightarrow> operation list) \<Rightarrow> files \<Rightarrow> Version \<Rightarrow> nat \<Rightarrow> file_ptr list \<Rightarrow> file_ptr list \<Rightarrow> bool" where
  "second_ok ts h v lv inputs0 inputs1 \<longleftrightarrow> set inputs1 \<subseteq> set (v_files v ! (lv + 1)) \<and>
     (\<forall>p \<in> set inputs0. \<forall>q \<in> set (v_files v ! (lv + 1)) - set inputs1. apart (ts (fm_number (h ! q))) (ts (fm_number (h ! p))))"

context version_keys
begin

lemma out_of_range_apart:
  assumes p: "table_holds ucmp valid f ops" "inside ucmp b e f" and q: "table_holds ucmp valid g ops'" "\<not> in_range ucmp b e g"
    and be: "range_ok valid b" "range_ok valid e"
  shows "apart ops' ops"
  unfolding apart_def
proof (intro ballI notI)
  fix d a assume d: "d \<in> set ops'" and a: "a \<in> set ops" and same: "op_user d = op_user a"
  have v: "valid (op_user a)" using p(1) a by (simp add: table_holds_def ops_sorted_def)
  note f = table_range(3,4) [OF p(1) a] meta_okD(1,2) [OF table_meta_ok [OF p(1)]]
    and g = table_range(3,4) [OF q(1) d] meta_okD(1,2) [OF table_meta_ok [OF q(1)]]
  consider (below) k where "b = Some k" "Compare ucmp (file_limit g) k < 0" | (above) k where "e = Some k" "Compare ucmp (file_start g) k > 0"
    using q(2) by (auto simp: in_range_def key_below_def key_above_def split: option.splits)
  then show False
  proof cases
    case below
    have k: "valid k" using be(1) below(1) by (simp add: range_ok_def)
    have "Compare ucmp (op_user a) k < 0" using less_trans [OF v _ k g(2) [unfolded same] below(2)] g(4) by blast
    then have "Compare ucmp (file_start f) k < 0" using less_trans [OF _ v k f(1)] f(3) by blast
    then show False using p(2) below(1) by (simp add: inside_def key_below_def)
  next
    case above
    have k: "valid k" using be(2) above(1) by (simp add: range_ok_def)
    have "Compare ucmp k (file_start g) < 0" using above(2) u.compare_flip [OF k] g(3) by blast
    then have "Compare ucmp k (op_user a) < 0" using less_le_trans [OF k _ v _ g(1) [unfolded same]] g(3) by blast
    then have "Compare ucmp k (file_limit f) < 0" using less_le_trans [OF k v _ _ f(2)] f(4) by blast
    then show False using p(2) above(1) u.compare_flip [OF k] f(4) by (simp add: inside_def key_above_def)
  qed
qed

text \<open>The range of some tables has each of them inside.\<close>

lemma range_fold:
  assumes "\<forall>f \<in> set fs. meta_ok ucmp valid f" "8 \<le> length s \<and> valid (ExtractUserKey s)" "8 \<le> length l \<and> valid (ExtractUserKey l)"
  shows "case fold (range_step (InternalKeyComparator ucmp)) fs (s, l) of (s', l') \<Rightarrow>
     (8 \<le> length s' \<and> valid (ExtractUserKey s')) \<and> (8 \<le> length l' \<and> valid (ExtractUserKey l')) \<and> icmp s' s \<le> 0 \<and> icmp l l' \<le> 0 \<and>
     (\<forall>f \<in> set fs. icmp s' (fm_smallest f) \<le> 0 \<and> icmp (fm_largest f) l' \<le> 0)"
  using assms
proof (induction fs arbitrary: s l)
  case Nil
  then show ?case using ik.compare_refl by simp
next
  case (Cons f fs)
  have f: "8 \<le> length (fm_smallest f) \<and> valid (file_start f)" "8 \<le> length (fm_largest f) \<and> valid (file_limit f)"
    using meta_okD(1,2) [of f] Cons.prems(1) by simp_all
  define s1 where "s1 = (if icmp (fm_smallest f) s < 0 then fm_smallest f else s)"
  define l1 where "l1 = (if icmp (fm_largest f) l > 0 then fm_largest f else l)"
  have s1: "8 \<le> length s1 \<and> valid (ExtractUserKey s1)" "icmp s1 s \<le> 0" "icmp s1 (fm_smallest f) \<le> 0"
    using f(1) Cons.prems(2) ik.compare_refl ik.compare_flip [OF f(1) Cons.prems(2)] ik.compare_flip [OF Cons.prems(2) f(1)]
    by (auto simp: s1_def)
  have l1: "8 \<le> length l1 \<and> valid (ExtractUserKey l1)" "icmp l l1 \<le> 0" "icmp (fm_largest f) l1 \<le> 0"
    using f(2) Cons.prems(3) ik.compare_refl ik.compare_flip [OF f(2) Cons.prems(3)] ik.compare_flip [OF Cons.prems(3) f(2)]
    by (auto simp: l1_def)
  obtain s' l' where r: "fold (range_step (InternalKeyComparator ucmp)) fs (s1, l1) = (s', l')" by fastforce
  have IH: "8 \<le> length s' \<and> valid (ExtractUserKey s')" "8 \<le> length l' \<and> valid (ExtractUserKey l')" "icmp s' s1 \<le> 0" "icmp l1 l' \<le> 0"
      "\<forall>f \<in> set fs. icmp s' (fm_smallest f) \<le> 0 \<and> icmp (fm_largest f) l' \<le> 0"
    using Cons.IH [OF _ s1(1) l1(1)] Cons.prems(1) r by auto
  have tr: "icmp x z \<le> 0" if "8 \<le> length x \<and> valid (ExtractUserKey x)" "8 \<le> length y \<and> valid (ExtractUserKey y)"
      "8 \<le> length z \<and> valid (ExtractUserKey z)" "icmp x y \<le> 0" "icmp y z \<le> 0" for x y z
    using ik.compare_le_trans [OF that(1-4)] ik.compare_eq_0 [OF that(2,3)] that(4,5) by force
  have "range_step (InternalKeyComparator ucmp) f (s, l) = (s1, l1)" by (simp add: range_step_def s1_def l1_def)
  then show ?case
    using r IH tr [OF IH(1) s1(1) Cons.prems(2) IH(3) s1(2)] tr [OF IH(1) s1(1) f(1) IH(3) s1(3)]
      tr [OF Cons.prems(3) l1(1) IH(2) l1(2) IH(4)] tr [OF f(2) l1(1) IH(2) l1(3) IH(4)] by simp
qed

lemma GetRange_inside:
  assumes "fs \<noteq> []" "\<forall>f \<in> set fs. meta_ok ucmp valid f" "GetRange (InternalKeyComparator ucmp) fs = (s, l)"
  shows "valid (ExtractUserKey s)" "valid (ExtractUserKey l)" "f \<in> set fs \<Longrightarrow> inside ucmp (Some (ExtractUserKey s)) (Some (ExtractUserKey l)) f"
proof -
  obtain g gs where fs: "fs = g # gs" using assms(1) by (cases fs) auto
  have g: "8 \<le> length (fm_smallest g) \<and> valid (file_start g)" "8 \<le> length (fm_largest g) \<and> valid (file_limit g)"
    using meta_okD(1,2) [of g] assms(2) by (simp_all add: fs)
  have r: "(8 \<le> length s \<and> valid (ExtractUserKey s)) \<and> (8 \<le> length l \<and> valid (ExtractUserKey l)) \<and>
      (\<forall>f \<in> set fs. icmp s (fm_smallest f) \<le> 0 \<and> icmp (fm_largest f) l \<le> 0)"
    using range_fold [OF _ g, of gs] assms(2,3) by (simp add: fs GetRange_def)
  then show v: "valid (ExtractUserKey s)" "valid (ExtractUserKey l)" by blast+
  show "inside ucmp (Some (ExtractUserKey s)) (Some (ExtractUserKey l)) f" if f: "f \<in> set fs"
  proof -
    have "Compare ucmp (ExtractUserKey s) (file_start f) \<le> 0" "Compare ucmp (file_limit f) (ExtractUserKey l) \<le> 0"
      using r f user_le by blast+
    moreover have "valid (file_start f)" using meta_okD(1) assms(2) f by blast
    ultimately show ?thesis using u.compare_flip [OF _ v(1), of "file_start f"] by (auto simp: inside_def key_below_def key_above_def)
  qed
qed

lemma GetRange_range_ok:
  assumes "fs \<noteq> []" "\<forall>f \<in> set fs. meta_ok ucmp valid f" "GetRange (InternalKeyComparator ucmp) fs = (s, l)"
  shows "range_ok valid (Some (ExtractUserKey s))" "range_ok valid (Some (ExtractUserKey l))"
  using GetRange_inside(1,2) [OF assms] by (simp_all add: range_ok_def)

text \<open>What \<^verbatim>\<open>GetOverlappingInputs\<close> leaves out of a level is apart from what it returns and from all that lies in the range.\<close>

lemma overlapping_apart:
  assumes lsm: "lsm_ok ucmp valid ts h v" and lv: "lv < kNumLevels"
    and r: "range_ok valid (map_option ExtractUserKey s)" "range_ok valid (map_option ExtractUserKey l)"
  obtains R where "GetOverlappingInputs ucmp h v lv s l = Some R" "set R \<subseteq> set (v_files v ! lv)"
    "\<And>p q. lv = 0 \<Longrightarrow> p \<in> set R \<Longrightarrow> q \<in> set (v_files v ! lv) \<Longrightarrow> q \<notin> set R \<Longrightarrow> apart (ts (fm_number (h ! q))) (ts (fm_number (h ! p)))"
    "\<And>f ops q. inside ucmp (map_option ExtractUserKey s) (map_option ExtractUserKey l) f \<Longrightarrow> table_holds ucmp valid f ops \<Longrightarrow>
       q \<in> set (v_files v ! lv) \<Longrightarrow> q \<notin> set R \<Longrightarrow> apart (ts (fm_number (h ! q))) ops"
proof -
  let ?lo = "map_option ExtractUserKey s" and ?hi = "map_option ExtractUserKey l"
  have tables: "\<And>p. p \<in> set (v_files v ! lv) \<Longrightarrow> table_holds ucmp valid (h ! p) (ts (fm_number (h ! p)))" by (rule lsm_tables [OF lsm lv])
  then have metas: "\<forall>p \<in> set (v_files v ! lv). meta_ok ucmp valid (h ! p)" using table_meta_ok by blast
  obtain R b e where R: "GetOverlappingInputs ucmp h v lv s l = Some R" "R = filter (\<lambda>p. in_range ucmp b e (h ! p)) (v_files v ! lv)"
      and c: "collected ucmp valid h (lv = 0) (v_files v ! lv) ?lo ?hi b e R"
    by (rule GetOverlappingInputs_collected [OF metas r])
  have be: "range_ok valid b" "range_ok valid e" using c by (simp_all add: collected_def)
  have wider: "in_range ucmp b e g" if "in_range ucmp ?lo ?hi g" "meta_ok ucmp valid g" for g
    by (rule collected_in_range [OF c that(2,1)])
  show thesis
  proof (rule that [OF R(1)])
    show "apart (ts (fm_number (h ! q))) (ts (fm_number (h ! p)))"
      if "lv = 0" "p \<in> set R" "q \<in> set (v_files v ! lv)" "q \<notin> set R" for p q
    proof (rule out_of_range_apart [OF tables _ tables [OF that(3)] _ be])
      show "p \<in> set (v_files v ! lv)" "\<not> in_range ucmp b e (h ! q)" using that R(2) by auto
      show "inside ucmp b e (h ! p)" using c that(1,2) by (simp add: collected_def inside_def)
    qed
    show "apart (ts (fm_number (h ! q))) ops"
      if "inside ucmp ?lo ?hi f" "table_holds ucmp valid f ops" "q \<in> set (v_files v ! lv)" "q \<notin> set R" for f ops q
    proof (rule out_of_range_apart [OF that(2,1) tables [OF that(3)] _ r])
      show "\<not> in_range ucmp ?lo ?hi (h ! q)" using wider [of "h ! q"] metas that(3,4) R(2) by auto
    qed
  qed (auto simp: R(2))
qed

lemma level_metas: "lsm_ok ucmp valid ts h v \<Longrightarrow> l < kNumLevels \<Longrightarrow> set ps \<subseteq> set (v_files v ! l) \<Longrightarrow> \<forall>f \<in> set (deref h ps). meta_ok ucmp valid f"
  using lsm_tables table_meta_ok by fastforce

lemma next_inputs:
  assumes lsm: "lsm_ok ucmp valid ts h v" and lv: "lv + 1 < kNumLevels" and p: "first_ok ts h v lv inputs0"
    and r: "GetRange (InternalKeyComparator ucmp) (deref h inputs0) = (s, l)"
  shows "\<exists>R. GetOverlappingInputs ucmp h v (lv + 1) (Some s) (Some l) = Some R \<and> second_ok ts h v lv inputs0 R"
proof -
  have sub: "set inputs0 \<subseteq> set (v_files v ! lv)" and ne: "deref h inputs0 \<noteq> []" using p by (simp_all add: first_ok_def)
  note metas = level_metas [OF lsm _ sub]
  have l0: "lv < kNumLevels" using lv by simp
  note ins = GetRange_inside [OF ne metas [OF l0] r] and ok = GetRange_range_ok [OF ne metas [OF l0] r]
  obtain R where R: "GetOverlappingInputs ucmp h v (lv + 1) (Some s) (Some l) = Some R" "set R \<subseteq> set (v_files v ! (lv + 1))"
    "\<And>f ops q. inside ucmp (Some (ExtractUserKey s)) (Some (ExtractUserKey l)) f \<Longrightarrow> table_holds ucmp valid f ops \<Longrightarrow>
       q \<in> set (v_files v ! (lv + 1)) \<Longrightarrow> q \<notin> set R \<Longrightarrow> apart (ts (fm_number (h ! q))) ops"
    by (rule overlapping_apart [OF lsm lv, of "Some s" "Some l"]) (use ok in simp_all)
  have "apart (ts (fm_number (h ! q))) (ts (fm_number (h ! p)))"
    if "p \<in> set inputs0" "q \<in> set (v_files v ! (lv + 1)) - set R" for p q
  proof (rule R(3))
    show "inside ucmp (Some (ExtractUserKey s)) (Some (ExtractUserKey l)) (h ! p)" by (rule ins(3)) (use that(1) in simp)
    show "table_holds ucmp valid (h ! p) (ts (fm_number (h ! p)))" using lsm_tables [OF lsm l0] sub that(1) by blast
  qed (use that(2) in simp_all)
  then show ?thesis using R(1,2) by (auto simp: second_ok_def)
qed

lemma grow_inputs_ok:
  assumes lsm: "lsm_ok ucmp valid ts h v" and lv: "lv + 1 < kNumLevels" and p: "first_ok ts h v lv inputs0" "second_ok ts h v lv inputs0 inputs1"
  shows "\<exists>i0 i1 b. grow_inputs max_file_size ucmp h v lv bounds inputs0 inputs1 = Some (i0, i1, b) \<and> first_ok ts h v lv i0 \<and> second_ok ts h v lv i0 i1"
proof (cases "inputs1 = []")
  case True
  then show ?thesis using p by (simp add: grow_inputs_def split: prod.split)
next
  case False
  obtain s l where r: "GetRange (InternalKeyComparator ucmp) (deref h inputs0 @ deref h inputs1) = (s, l)" by fastforce
  have l0: "lv < kNumLevels" using lv by simp
  have metas: "\<forall>f \<in> set (deref h inputs0 @ deref h inputs1). meta_ok ucmp valid f"
    using level_metas [OF lsm l0, of inputs0] level_metas [OF lsm lv, of inputs1] p unfolding first_ok_def second_ok_def set_append by blast
  have ne: "deref h inputs0 @ deref h inputs1 \<noteq> []" using False by simp
  obtain E where E: "GetOverlappingInputs ucmp h v lv (Some s) (Some l) = Some E" "set E \<subseteq> set (v_files v ! lv)"
    "\<And>p q. lv = 0 \<Longrightarrow> p \<in> set E \<Longrightarrow> q \<in> set (v_files v ! lv) \<Longrightarrow> q \<notin> set E \<Longrightarrow> apart (ts (fm_number (h ! q))) (ts (fm_number (h ! p)))"
    by (rule overlapping_apart [OF lsm l0, of "Some s" "Some l"]) (use GetRange_range_ok [OF ne metas r] in simp_all)
  show ?thesis
  proof (cases "length E > length inputs0 \<and> TotalFileSize (deref h inputs1) + TotalFileSize (deref h E) < ExpandedCompactionByteSizeLimit max_file_size")
    case True
    have E0: "first_ok ts h v lv E" using True E(2,3) by (auto simp: first_ok_def)
    obtain s' l' where r': "GetRange (InternalKeyComparator ucmp) (deref h E) = (s', l')" by fastforce
    obtain R where R: "GetOverlappingInputs ucmp h v (lv + 1) (Some s') (Some l') = Some R" "second_ok ts h v lv E R"
      using next_inputs [OF lsm lv E0 r'] by blast
    show ?thesis using False True r E(1) r' R p E0 by (auto simp: grow_inputs_def GetRange2_def Let_def)
  next
    case no: False
    then show ?thesis using False r E(1) p by (auto simp: grow_inputs_def GetRange2_def Let_def)
  qed
qed

lemma SetupOtherInputs_ok:
  assumes lsm: "lsm_ok ucmp valid ts (vs_heap vs) (vs_current vs)" and lv: "c_level c + 1 < kNumLevels"
    and p: "first_ok ts (vs_heap vs) (vs_current vs) (c_level c) (c_inputs0 c)"
  shows "\<exists>c' vs'. SetupOtherInputs max_file_size ucmp c vs = Some (c', vs') \<and> c_level c' = c_level c \<and> c_input_version c' = c_input_version c \<and>
     c_level_ptrs c' = c_level_ptrs c \<and> first_ok ts (vs_heap vs) (vs_current vs) (c_level c) (c_inputs0 c') \<and>
     second_ok ts (vs_heap vs) (vs_current vs) (c_level c) (c_inputs0 c') (c_inputs1 c')"
proof -
  let ?h = "vs_heap vs" and ?v = "vs_current vs" and ?icmp = "InternalKeyComparator ucmp"
  obtain s l where r: "GetRange ?icmp (deref ?h (c_inputs0 c)) = (s, l)" by fastforce
  obtain R where R: "GetOverlappingInputs ucmp ?h ?v (c_level c + 1) (Some s) (Some l) = Some R" "second_ok ts ?h ?v (c_level c) (c_inputs0 c) R"
    using next_inputs [OF lsm lv p r] by blast
  obtain i0 i1 s' l' where g: "grow_inputs max_file_size ucmp ?h ?v (c_level c) (s, l) (c_inputs0 c) R = Some (i0, i1, s', l')"
      "first_ok ts ?h ?v (c_level c) i0" "second_ok ts ?h ?v (c_level c) i0 i1"
    using grow_inputs_ok [OF lsm lv p R(2), of max_file_size "(s, l)"] by (metis prod.exhaust)
  obtain a b where ab: "GetRange ?icmp (deref ?h i0 @ deref ?h i1) = (a, b)" by fastforce
  have l0: "c_level c < kNumLevels" using lv by simp
  have metas: "\<forall>f \<in> set (deref ?h i0 @ deref ?h i1). meta_ok ucmp valid f"
    using level_metas [OF lsm l0, of i0] level_metas [OF lsm lv, of i1] g(2,3) unfolding first_ok_def second_ok_def set_append by blast
  have ne: "deref ?h i0 @ deref ?h i1 \<noteq> []" using g(2) by (simp add: first_ok_def)
  have grand: "\<exists>G. GetOverlappingInputs ucmp ?h ?v (c_level c + 2) (Some a) (Some b) = Some G" if "c_level c + 2 < kNumLevels"
    by (rule overlapping_apart [OF lsm that, of "Some a" "Some b"]) (use GetRange_range_ok [OF ne metas ab] in simp_all)
  have "\<exists>G. (if c_level c + 2 < kNumLevels then GetOverlappingInputs ucmp ?h ?v (c_level c + 2) (Some a) (Some b) else Some (c_grandparents c)) = Some G"
    using grand by simp
  then obtain G where "(if c_level c + 2 < kNumLevels then GetOverlappingInputs ucmp ?h ?v (c_level c + 2) (Some a) (Some b) else Some (c_grandparents c)) = Some G"
    by blast
  then show ?thesis using r R(1) g ab by (simp add: SetupOtherInputs_def GetRange2_def Let_def del: if_split)
qed

text \<open>Such inputs are closed when the tables of a level behind level 0 are apart.\<close>

lemma inputs_closed_of:
  assumes lsm: "lsm_ok ucmp valid ts h v" and lv: "c_level c + 1 < kNumLevels" and v: "c_input_version c = v"
    and p: "first_ok ts h v (c_level c) (c_inputs0 c)" "second_ok ts h v (c_level c) (c_inputs0 c) (c_inputs1 c)"
    and ap: "\<And>l p q. 0 < l \<Longrightarrow> l < kNumLevels \<Longrightarrow> p \<in> set (v_files v ! l) \<Longrightarrow> q \<in> set (v_files v ! l) \<Longrightarrow> p \<noteq> q \<Longrightarrow>
      apart (ts (fm_number (h ! q))) (ts (fm_number (h ! p)))"
  shows "inputs_closed ts h c"
proof -
  have sub: "set (c_inputs0 c) \<subseteq> set (v_files v ! c_level c)" "set (c_inputs1 c) \<subseteq> set (v_files v ! (c_level c + 1))"
    using p by (simp_all add: first_ok_def second_ok_def)
  have "newer (ts (fm_number (h ! q))) (ts (fm_number (h ! p)))"
    if "is_input c l p" "k = c_level c \<or> k = c_level c + 1" "q \<in> set (v_files v ! k)" "\<not> is_input c k q" for l p k q
  proof -
    have l0: "c_level c < kNumLevels" using lv by simp
    note t = that
    consider (same0) "k = c_level c" "p \<in> set (c_inputs0 c)" "q \<notin> set (c_inputs0 c)"
      | (above) "k = c_level c" "p \<in> set (c_inputs1 c)"
      | (below) "k = c_level c + 1" "p \<in> set (c_inputs0 c)" "q \<notin> set (c_inputs1 c)"
      | (same1) "k = c_level c + 1" "p \<in> set (c_inputs1 c)" "q \<notin> set (c_inputs1 c)"
      using t unfolding is_input_def by auto
    then show ?thesis
    proof cases
      case same0
      show ?thesis
      proof (cases "c_level c = 0")
        case True
        then show ?thesis using p(1) same0 that(3) by (intro apart_newer) (simp add: first_ok_def)
      next
        case False
        then show ?thesis using ap [of "c_level c" p q] l0 sub(1) same0 that(3) by (intro apart_newer) auto
      qed
    next
      case above
      then have "p \<in> set (v_files v ! (c_level c + 1))" "q \<in> set (v_files v ! c_level c)" using sub(2) that(3) by blast+
      then show ?thesis using lsm lv less_add_one [of "c_level c"] unfolding lsm_ok_def by blast
    next
      case below
      then show ?thesis using p(2) that(3) by (intro apart_newer) (simp add: second_ok_def)
    next
      case same1
      then show ?thesis using ap [of "c_level c + 1" p q] lv sub(2) that(3) by (intro apart_newer) auto
    qed
  qed
  then have "\<forall>l p k q. is_input c l p \<and> (k = c_level c \<or> k = c_level c + 1) \<and> q \<in> set (v_files v ! k) \<and> \<not> is_input c k q \<longrightarrow>
      newer (ts (fm_number (h ! q))) (ts (fm_number (h ! p)))" by blast
  then show ?thesis using lv v sub by (simp add: inputs_closed_def Let_def del: One_nat_def)
qed

lemma one_input:
  assumes lsm: "lsm_ok ucmp valid ts h v" and lv: "lv < kNumLevels" and p: "p \<in> set (v_files v ! lv)"
    and r: "GetRange (InternalKeyComparator ucmp) [h ! p] = (s, l)"
  shows "\<exists>R. (if lv = 0 then GetOverlappingInputs ucmp h v 0 (Some s) (Some l) else Some [p]) = Some R \<and> first_ok ts h v lv R"
proof (cases "lv = 0")
  case True
  have metas: "\<forall>f \<in> set [h ! p]. meta_ok ucmp valid f" using level_metas [OF lsm lv, of "[p]"] p by simp
  have tables: "\<And>q. q \<in> set (v_files v ! lv) \<Longrightarrow> table_holds ucmp valid (h ! q) (ts (fm_number (h ! q)))" by (rule lsm_tables [OF lsm lv])
  have ins: "inside ucmp (Some (ExtractUserKey s)) (Some (ExtractUserKey l)) (h ! p)"
    by (rule GetRange_inside(3) [OF _ metas r]) simp_all
  obtain R where R: "GetOverlappingInputs ucmp h v lv (Some s) (Some l) = Some R" "set R \<subseteq> set (v_files v ! lv)"
    "\<And>p q. lv = 0 \<Longrightarrow> p \<in> set R \<Longrightarrow> q \<in> set (v_files v ! lv) \<Longrightarrow> q \<notin> set R \<Longrightarrow> apart (ts (fm_number (h ! q))) (ts (fm_number (h ! p)))"
    "\<And>f ops q. inside ucmp (Some (ExtractUserKey s)) (Some (ExtractUserKey l)) f \<Longrightarrow> table_holds ucmp valid f ops \<Longrightarrow>
       q \<in> set (v_files v ! lv) \<Longrightarrow> q \<notin> set R \<Longrightarrow> apart (ts (fm_number (h ! q))) ops"
    by (rule overlapping_apart [OF lsm lv, of "Some s" "Some l"]) (use GetRange_range_ok [OF _ metas r] in simp_all)
  have "p \<in> set R"
  proof (rule ccontr)
    assume "p \<notin> set R"
    from R(4) [OF ins tables [OF p] p this] have "apart (ts (fm_number (h ! p))) (ts (fm_number (h ! p)))" .
    moreover have "ts (fm_number (h ! p)) \<noteq> []" using tables [OF p] by (simp add: table_holds_def)
    ultimately show False unfolding apart_def by (metis hd_in_set)
  qed
  then show ?thesis using R(1-3) True by (auto simp: first_ok_def)
qed (use p in \<open>simp add: first_ok_def\<close>)

lemma size_input_in: "fs \<noteq> [] \<Longrightarrow> \<exists>p. size_input icmp' h fs k = Some p \<and> p \<in> set fs"
  by (cases fs) (auto simp: size_input_def find_Some_iff split: option.split dest: nth_mem)

end

text \<open>The table that is chosen first is at a level that has a next one.\<close>

definition pickable :: "'f VersionSet \<Rightarrow> bool" where
  "pickable vs \<longleftrightarrow> (let v = vs_current vs in
     (v_compaction_score v \<ge> 1 \<longrightarrow> nat (v_compaction_level v) + 1 < kNumLevels \<and> v_files v ! nat (v_compaction_level v) \<noteq> []) \<and>
     (\<forall>p. v_file_to_compact v = Some p \<longrightarrow>
        nat (v_file_to_compact_level v) + 1 < kNumLevels \<and> p \<in> set (v_files v ! nat (v_file_to_compact_level v))))"

text \<open>C5: the inputs of a compaction are closed when no user key is in two tables of a level behind level 0. \<^verbatim>\<open>PickCompaction\<close> then
  returns, it chooses a compaction exactly when one is needed, and no table that it leaves at the two levels has anything older than
  an input, whichever of its attempts to take more tables succeed: with \<open>compaction_keeps_reads\<close>, the compaction changes no lookup.\<close>

theorem picked_inputs_closed:
  assumes lsm: "lsm_ok BytewiseComparator (\<lambda>_. True) ts (vs_heap vs) (vs_current vs)"
    and ap: "\<forall>l p q. 0 < l \<and> l < kNumLevels \<and> p \<in> set (v_files (vs_current vs) ! l) \<and> q \<in> set (v_files (vs_current vs) ! l) \<and> p \<noteq> q \<longrightarrow>
      apart (ts (fm_number (vs_heap vs ! q))) (ts (fm_number (vs_heap vs ! p)))"
    and pick: "pickable vs"
  shows "\<exists>r vs'. PickCompaction max_file_size BytewiseComparator vs = Some (r, vs') \<and> (r = None \<longleftrightarrow> \<not> NeedsCompaction vs) \<and>
     (\<forall>c. r = Some c \<longrightarrow> c_input_version c = vs_current vs \<and> c_level_ptrs c = replicate kNumLevels 0 \<and> c_inputs0 c \<noteq> [] \<and>
        inputs_closed ts (vs_heap vs) c)"
proof -
  let ?v = "vs_current vs" and ?h = "vs_heap vs"
  define picked where "picked = (if v_compaction_score ?v \<ge> 1
     then map_option (\<lambda>p. Some (nat (v_compaction_level ?v), p))
            (size_input ikc ?h (v_files ?v ! nat (v_compaction_level ?v)) (vs_compact_pointer vs ! nat (v_compaction_level ?v)))
     else Some (map_option (\<lambda>p. (nat (v_file_to_compact_level ?v), p)) (v_file_to_compact ?v)))"
  have Pick: "PickCompaction max_file_size BytewiseComparator vs = do {
      chosen \<leftarrow> picked;
      case chosen of None \<Rightarrow> Some (None, vs)
      | Some (lv, p) \<Rightarrow> do {
          let (smallest, largest) = GetRange ikc (deref ?h [p]);
          inputs0 \<leftarrow> (if lv = 0 then GetOverlappingInputs BytewiseComparator ?h ?v 0 (Some smallest) (Some largest) else Some [p]);
          (c, vs) \<leftarrow> SetupOtherInputs max_file_size BytewiseComparator ((Compaction_new max_file_size lv ?v)\<lparr>c_inputs0 := inputs0\<rparr>) vs;
          Some (Some c, vs)
        } }" by (simp only: PickCompaction_def Let_def picked_def)
  have "\<exists>r. picked = Some r \<and> (r = None \<longleftrightarrow> \<not> NeedsCompaction vs) \<and>
      (\<forall>lv p. r = Some (lv, p) \<longrightarrow> lv + 1 < kNumLevels \<and> p \<in> set (v_files ?v ! lv))"
    using pick keys.size_input_in [of "v_files ?v ! nat (v_compaction_level ?v)" ikc ?h "vs_compact_pointer vs ! nat (v_compaction_level ?v)"]
    by (auto simp: picked_def pickable_def NeedsCompaction_def Let_def)
  then obtain r where r: "picked = Some r" "r = None \<longleftrightarrow> \<not> NeedsCompaction vs"
      "\<And>lv p. r = Some (lv, p) \<Longrightarrow> lv + 1 < kNumLevels \<and> p \<in> set (v_files ?v ! lv)" by blast
  show ?thesis
  proof (cases r)
    case None
    then show ?thesis using r(1,2) Pick by simp
  next
    case (Some lvp)
    obtain lv p where lvp: "lvp = (lv, p)" by fastforce
    have lv: "lv + 1 < kNumLevels" "p \<in> set (v_files ?v ! lv)" using r(3) Some lvp by simp_all
    obtain s l where sl: "GetRange ikc [?h ! p] = (s, l)" by fastforce
    obtain R where R: "(if lv = 0 then GetOverlappingInputs BytewiseComparator ?h ?v 0 (Some s) (Some l) else Some [p]) = Some R" "first_ok ts ?h ?v lv R"
      using keys.one_input [OF lsm _ lv(2) sl] lv(1) by (auto simp del: if_split)
    let ?c = "(Compaction_new max_file_size lv ?v)\<lparr>c_inputs0 := R\<rparr>"
    obtain c vs' where c: "SetupOtherInputs max_file_size BytewiseComparator ?c vs = Some (c, vs')" "c_level c = lv" "c_input_version c = ?v"
        "c_level_ptrs c = replicate kNumLevels 0" "first_ok ts ?h ?v lv (c_inputs0 c)" "second_ok ts ?h ?v lv (c_inputs0 c) (c_inputs1 c)"
      using keys.SetupOtherInputs_ok [OF lsm, of ?c max_file_size] lv(1) R(2) by (auto simp: Compaction_new_def)
    have "inputs_closed ts ?h c"
      by (rule keys.inputs_closed_of [OF lsm _ c(3)]) (use c lv(1) ap in auto)
    moreover have "PickCompaction max_file_size BytewiseComparator vs = Some (Some c, vs')"
      using r(1) Some lvp sl R(1) c(1) Pick by (simp add: Let_def del: if_split)
    ultimately show ?thesis using c(3,4,5) r(2) Some by (auto simp: first_ok_def)
  qed
qed

definition sample_set :: "unit VersionSet" where
  "sample_set = VersionSet_new\<lparr>vs_heap := sample_metas,
     vs_current := sample_levels\<lparr>v_compaction_score := 1, v_compaction_level := 0\<rparr>\<rparr>"

theorem picked_inputs_closed_witness:
  "\<exists>r vs'. PickCompaction 1000 BytewiseComparator sample_set = Some (r, vs') \<and> (r = None \<longleftrightarrow> \<not> NeedsCompaction sample_set) \<and>
     (\<forall>c. r = Some c \<longrightarrow> c_input_version c = vs_current sample_set \<and> c_level_ptrs c = replicate kNumLevels 0 \<and> c_inputs0 c \<noteq> [] \<and>
        inputs_closed sample_tables (vs_heap sample_set) c)"
proof (rule picked_inputs_closed)
  show "lsm_ok BytewiseComparator (\<lambda>_. True) sample_tables (vs_heap sample_set) (vs_current sample_set)"
    using sample_lsm by (simp add: lsm_ok_def sample_set_def)
  have "\<forall>l < kNumLevels. \<forall>p \<in> set (v_files (vs_current sample_set) ! l). \<forall>q \<in> set (v_files (vs_current sample_set) ! l). p = q"
    unfolding all_levels by (simp add: sample_set_def sample_levels_def)
  then show "\<forall>l p q. 0 < l \<and> l < kNumLevels \<and> p \<in> set (v_files (vs_current sample_set) ! l) \<and> q \<in> set (v_files (vs_current sample_set) ! l) \<and>
      p \<noteq> q \<longrightarrow> apart (sample_tables (fm_number (vs_heap sample_set ! q))) (sample_tables (fm_number (vs_heap sample_set ! p)))" by blast
  show "pickable sample_set" by (simp add: pickable_def sample_set_def sample_levels_def Version_new_def kNumLevels_def)
qed

end
