(* ===== verification/LdbBoundary.thy ===== *)
theory LdbBoundary
  imports LdbCompactionProps LdbManifest
begin

text \<open>
  Two tables of a level can share a user key: the first ends with its newer version and the second starts with an older one. A compaction closes an
  output without looking at the user key, so such tables arise, and the choice of inputs does not keep them together.
\<close>

section \<open>Two versions of a key in two tables\<close>

definition split_tables :: "u64 \<Rightarrow> operation list" where
  "split_tables n = (if n = 5 then [(9, kTypeValue, [1], [90])] else if n = 6 then [(7, kTypeValue, [1], [70])] else [])"

definition split_file :: "u64 \<Rightarrow> FileMetaData" where
  "split_file n = FileMetaData_new n 5242880 (op_ikey (hd (split_tables n))) (op_ikey (last (split_tables n)))"

definition split_files :: files where "split_files = [split_file 5, split_file 6]"

text \<open>Two tables of 5 MB fill level 1; all the numbers of the score are exact in a \<^verbatim>\<open>double\<close>.\<close>

definition split_version :: Version where
  "split_version = Finalize (\<lambda>x. x) split_files (Version_new\<lparr>v_files := [[], [0, 1], [], [], [], [], []]\<rparr>)"

definition split_set :: "posix_file VersionSet" where
  "split_set = VersionSet_new\<lparr>vs_heap := split_files, vs_current := split_version\<rparr>"

definition split_cache :: table_get where
  "split_cache n sz k = (OK, map_option (\<lambda>op. (op_ikey op, op_value op)) (first_entry BytewiseComparator k (split_tables n)))"

text \<open>The tables that a compaction with a snapshot between the two versions writes, when each of them fills a table.\<close>

definition split_env :: output_env where
  "split_env = \<lparr>new_number = \<lambda>i. 5 + of_nat i, opened_table = \<lambda>_. OK, table_size = \<lambda>_. 5242880, finished = \<lambda>_ _. OK,
     input_status = \<lambda>_. OK, shut_down = \<lambda>_. False\<rparr>"

lemma split_file_simps:
  "fm_number (split_file n) = n" "fm_file_size (split_file n) = 5242880"
  "fm_smallest (split_file n) = op_ikey (hd (split_tables n))" "fm_largest (split_file n) = op_ikey (last (split_tables n))"
  by (simp_all add: split_file_def FileMetaData_new_def)

lemma split_ops: "split_tables 5 = [(9, kTypeValue, [1], [90])]" "split_tables 6 = [(7, kTypeValue, [1], [70])]"
  by (simp_all add: split_tables_def)

lemma split_version_eq:
  "split_version = Version_new\<lparr>v_files := [[], [0, 1], [], [], [], [], []], v_compaction_score := 1, v_compaction_level := 1\<rparr>"
  by (simp add: split_version_def Finalize_def level_score_def max_bytes_loop.simps Let_def kNumLevels_def upt_rec TotalFileSize_def split_files_def
      split_file_simps MaxBytesForLevel_def Version_new_def)

lemma split_holds: "n = 5 \<or> n = 6 \<Longrightarrow> table_holds BytewiseComparator (\<lambda>_. True) (split_file n) (split_tables n)"
  by (auto simp: table_holds_def ops_sorted_def split_file_simps split_ops kMaxSequenceNumber_def)

lemma split_answers: "answers split_cache BytewiseComparator f (split_tables (fm_number f))"
  by (simp add: answers_def split_cache_def)

lemma outputs_split_key:
  "\<exists>s edit st. DoCompactionWork 5242880 BytewiseComparator [] split_env [8] 9 (entries_of (split_tables 5 @ split_tables 6))
       (CompactionState_new (Compaction_new 5242880 0 Version_new)) = (s, edit, st) \<and> ok s \<and>
     cs_tables st = [(5, entries_of (split_tables 5)), (6, entries_of (split_tables 6))]"
proof -
  have parse: "ParseInternalKey (op_ikey (9, kTypeValue, [1], [90])) = Some \<lparr>pk_user_key = [1], pk_sequence = 9, pk_type = kTypeValue\<rparr>"
    "ParseInternalKey (op_ikey (7, kTypeValue, [1], [70])) = Some \<lparr>pk_user_key = [1], pk_sequence = 7, pk_type = kTypeValue\<rparr>"
    by (simp_all add: ParseInternalKey_op kMaxSequenceNumber_def)
  show ?thesis
    by (simp add: DoCompactionWork_def Let_def split_ops entries_of_def split_env_def CompactionState_new_def Compaction_new_def
        stop_before_def ShouldStopBefore_def drop_entry_def parse keep_entry_def OpenCompactionOutputFile_def set_last_output_def
        FinishCompactionOutputFile_def MaxFileSizeForLevel_def TargetFileSize_def MaxGrandParentOverlapBytes_def kMaxSequenceNumber_def
        OK_def ok_def BytewiseComparator_def)
qed

section \<open>The move\<close>

lemma no_overlaps: "v_files v ! lv = [] \<Longrightarrow> GetOverlappingInputs ucmp h v lv b e = Some []"
  by (simp add: GetOverlappingInputs_def overlap_turn_def while_true_return)

definition split_compaction :: Compaction where
  "split_compaction = (Compaction_new 5242880 1 split_version)\<lparr>c_inputs0 := [0],
     c_edit := SetCompactPointer 1 (op_ikey (9, kTypeValue, [1], [90])) Edit_new\<rparr>"

lemma split_picked:
  "PickCompaction 5242880 BytewiseComparator split_set =
     Some (Some split_compaction, split_set\<lparr>vs_compact_pointer := (replicate kNumLevels [])[1 := op_ikey (9, kTypeValue, [1], [90])]\<rparr>)"
proof -
  have v: "v_files split_version ! Suc 0 = [0, 1]" "v_compaction_score split_version = 1" "v_compaction_level split_version = 1"
    by (simp_all add: split_version_eq)
  have none: "GetOverlappingInputs BytewiseComparator h split_version (Suc (Suc 0)) b e = Some []"
    "GetOverlappingInputs BytewiseComparator h split_version (Suc (Suc (Suc 0))) b e = Some []" for h b e
    by (rule no_overlaps; simp add: split_version_eq)+
  have set: "vs_heap split_set = split_files" "vs_current split_set = split_version" "vs_compact_pointer split_set = replicate kNumLevels []"
    by (simp_all add: split_set_def VersionSet_new_def)
  have f: "split_files ! 0 = split_file 5" "fm_smallest (split_file 5) = op_ikey (9, kTypeValue, [1], [90])"
    "fm_largest (split_file 5) = op_ikey (9, kTypeValue, [1], [90])"
    by (simp_all add: split_files_def split_file_simps split_ops)
  show ?thesis
    by (simp add: PickCompaction_def SetupOtherInputs_def grow_inputs_def size_input_def GetRange_def GetRange2_def set v f none
        kNumLevels_def Let_def split_compaction_def Compaction_new_def)
qed

text \<open>The version after the move: the newer table is below the older one.\<close>

lemma split_moved:
  assumes "next_version dbl BytewiseComparator (complete_edit vs1 (trivial_move_edit split_files split_compaction)) vs1 = (v, vs)"
    "vs_heap vs1 = split_files" "vs_current vs1 = split_version"
  shows "v_files v ! 0 = []" "v_files v ! 1 = [1]" "v_files v ! 2 = [2]" "vs_heap vs ! 1 = split_file 6" "fm_number (vs_heap vs ! 2) = 5"
proof -
  let ?e = "complete_edit vs1 (trivial_move_edit split_files split_compaction)" and ?b = "Builder_new split_version"
  have e: "deleted_files ?e = {(1, 5)}" "new_files ?e = [(2, split_file 5)]"
    unfolding complete_edit_parts
    by (simp_all add: trivial_move_edit_def split_compaction_def Compaction_new_def split_files_def AddFile_def DeleteFile_def Edit_new_def
        SetCompactPointer_def split_file_simps Let_def split_file_def FileMetaData_new_def)
  obtain h c b where run: "Builder_Apply ikc ?e (vs_heap vs1, vs_compact_pointer vs1, ?b) = (h, c, b)" by (metis prod_cases3)
  have len: "length split_files = 2" by (simp add: split_files_def)
  have h: "h = split_files @ [stored (2, split_file 5)]"
    and b: "b_base b = split_version" "b_levels b ! 0 = b_levels ?b ! 0"
      "ls_deleted (b_levels b ! 1) = {5}" "ls_added (b_levels b ! 1) = []" "ls_deleted (b_levels b ! 2) = {}" "ls_added (b_levels b ! 2) = [2]"
    using run by (auto simp: Builder_Apply_def e delete_file_def add_file_def Builder_new_def Let_def assms(2) kNumLevels_def len
        split_file_simps stored_def)
  have v: "v = Finalize dbl h (saved h b)" "vs_heap vs = h"
    using assms(1) run by (auto simp: next_version_def saved_def assms(3))
  have "0 < kNumLevels" "1 < kNumLevels" "2 < kNumLevels" by (simp_all add: kNumLevels_def)
  note l = this [THEN saved_files(2)]
  show "v_files v ! 0 = []" "v_files v ! 1 = [1]" "v_files v ! 2 = [2]"
    using b by (simp_all add: v l [unfolded One_nat_def] Builder_new_def kNumLevels_def) (simp_all add: split_version_eq h split_files_def split_file_simps)
  show "vs_heap vs ! 1 = split_file 6" "fm_number (vs_heap vs ! 2) = 5"
    by (simp_all add: v h split_files_def split_file_simps nth_append)
qed

section \<open>Lookups\<close>

context version_keys
begin

text \<open>A lookup that the only table of level 1 answers.\<close>

lemma one_table_lookup:
  assumes v: "v_files v ! 0 = []" "v_files v ! 1 = [p]" and ts: "ts (fm_number (h ! p)) = [op]" "table_holds ucmp valid (h ! p) [op]"
    and cache: "answers tget ucmp (h ! p) [op]" and op: "op_user op = key" "fst op \<le> snap" and key: "valid key" "snap \<le> kMaxSequenceNumber"
  shows "\<exists>st. Version_Get tget ucmp h v (make_LookupKey key snap) dflt = Some (fst (get_outcome (Some op) dflt), st) \<and>
     g_value st = snd (get_outcome (Some op) dflt)"
proof -
  let ?k = "InternalKey_make key snap kTypeValue" and ?t = "\<lambda>p. ts (fm_number (h ! p))"
  let ?st = "\<lparr>seek_file = None, seek_file_level = -1, g_value = dflt, last_file_read = None, last_file_read_level = -1\<rparr>"
  define v' where "v' = Version_new\<lparr>v_files := [[], [p], [], [], [], [], []]\<rparr>"
  have files: "v_files v' ! l = (if l = 1 then [p] else [])" if "l < kNumLevels" for l
  proof -
    have "l \<in> {0, 1, 2, 3, 4, 5, 6}" using that by (auto simp: kNumLevels_def)
    then show ?thesis by (auto simp: v'_def)
  qed
  have l: "0 < (1 :: nat)" "1 < kNumLevels" by (simp_all add: kNumLevels_def)
  have lsm: "lsm_ok ucmp valid ts h v'" using ts files l by (auto simp: lsm_ok_def disjoint_sorted_def)
  obtain ps where ps: "files_to_search ucmp h v' key ?k 1 = Some ps" "set ps \<subseteq> set (v_files v' ! 1)"
      "newest (level_ops ts h v' 1) key snap (hits (\<lambda>p. hit key snap (?t p)) ps)"
    using level_search [OF lsm key l] by blast
  have "level_ops ts h v' 1 = {op}" using files [OF l(2)] ts(1) by (simp add: level_ops_def)
  then have hit: "hits (\<lambda>p. hit key snap (?t p)) ps = Some op"
    using ps(3) op by (cases "hits (\<lambda>p. hit key snap (?t p)) ps") (auto simp: newest_def)
  have "\<forall>p \<in> set ps. table_holds ucmp valid (h ! p) (?t p) \<and> answers tget ucmp (h ! p) (?t p)"
    using ps(2) files [OF l(2)] ts cache by auto
  from Get_files_hits [OF this key, of ?st 1] hit
  obtain st where st: "Get_files tget ucmp h key ?k 1 ps ?st = (Some (fst (get_outcome (Some op) dflt)), st)" "g_value st = snd (get_outcome (Some op) dflt)"
    by (cases "Get_files tget ucmp h key ?k 1 ps ?st") (auto simp: found_def)
  have "files_to_search ucmp h v key ?k 1 = Some ps" using ps(1) v(2) files [OF l(2)] by (simp add: files_to_search_def)
  moreover have "files_to_search ucmp h v key ?k 0 = Some []" using v(1) by (simp add: files_to_search_def)
  moreover have "[0..<kNumLevels] = 0 # 1 # [2..<kNumLevels]" by (simp add: kNumLevels_def upt_rec)
  ultimately have "Get_levels tget ucmp h v key ?k [0..<kNumLevels] ?st = Some (fst (get_outcome (Some op) dflt), st)"
    using st(1) by simp
  then show ?thesis using st(2) by (simp add: Version_Get_def user_key_eq internal_key_make)
qed

end

lemma split_lsm: "lsm_ok BytewiseComparator (\<lambda>_. True) split_tables split_files split_version"
proof -
  have files: "v_files split_version ! l = (if l = 1 then [0, 1] else [])" if "l < kNumLevels" for l
  proof -
    have "l \<in> {0, 1, 2, 3, 4, 5, 6}" using that by (auto simp: kNumLevels_def)
    then show ?thesis by (auto simp: split_version_eq)
  qed
  have tables: "\<forall>p \<in> {0, 1}. table_holds BytewiseComparator (\<lambda>_. True) (split_files ! p) (split_tables (fm_number (split_files ! p)))"
    using split_holds by (simp add: split_files_def split_file_simps)
  have "Compare ikc (op_ikey (9, kTypeValue, [1], [90])) (op_ikey (7, kTypeValue, [1], [70])) < 0"
    by (rule keys.op_before_icmp) (simp_all add: op_before_def kMaxSequenceNumber_def)
  then have "disjoint_sorted BytewiseComparator [split_files ! 0, split_files ! 1]"
    by (simp add: disjoint_sorted_def split_files_def split_file_simps split_ops)
  moreover have "v_files split_version ! 0 = []" by (simp add: split_version_eq)
  ultimately show ?thesis using files tables by (auto simp: lsm_ok_def disjoint_sorted_def)
qed

text \<open>C16: moving a table can bring back an older value. In the version shown the levels keep their invariant: level 1 is full, by the score that \<^verbatim>\<open>Finalize\<close> computes, with two tables of 5 MB (the size given in the options), and a key is in
  both, its newer version in the first and an older one in the second; a compaction writes such tables when a snapshot lies between the versions and the first
  table is full. \<^verbatim>\<open>PickCompaction\<close> takes the first table alone, since it overlaps nothing at level 2, and the compaction is a trivial
  move. In the version that results, with the table in level 2, \<^verbatim>\<open>Version::Get\<close> returns the older value where it returned the newer one
  before: the write has been undone for every reader.\<close>

theorem boundary_table_hides_newest:
  "lsm_ok BytewiseComparator (\<lambda>_. True) split_tables split_files split_version \<and>
   (\<exists>s edit st. DoCompactionWork 5242880 BytewiseComparator [] split_env [8] 9 (entries_of (split_tables 5 @ split_tables 6))
        (CompactionState_new (Compaction_new 5242880 0 Version_new)) = (s, edit, st) \<and> ok s \<and>
      cs_tables st = [(5, entries_of (split_tables 5)), (6, entries_of (split_tables 6))]) \<and>
   (\<exists>st. Version_Get split_cache BytewiseComparator split_files split_version (make_LookupKey [1] 9) [] = Some (OK, st) \<and> g_value st = [90]) \<and>
   (\<exists>c vs1 v vs st. PickCompaction 5242880 BytewiseComparator split_set = Some (Some c, vs1) \<and> IsTrivialMove 5242880 split_files c \<and>
      next_version dbl BytewiseComparator (complete_edit vs1 (trivial_move_edit split_files c)) vs1 = (v, vs) \<and>
      Version_Get split_cache BytewiseComparator (vs_heap vs) v (make_LookupKey [1] 9) [] = Some (OK, st) \<and> g_value st = [70])"
proof -
  have move: "IsTrivialMove 5242880 split_files split_compaction"
    by (simp add: IsTrivialMove_def split_compaction_def Compaction_new_def TotalFileSize_def MaxGrandParentOverlapBytes_def TargetFileSize_def)
  define vs1 where "vs1 = split_set\<lparr>vs_compact_pointer := (replicate kNumLevels [])[1 := op_ikey (9, kTypeValue, [1], [90])]\<rparr>"
  obtain v vs where moved: "next_version dbl BytewiseComparator (complete_edit vs1 (trivial_move_edit split_files split_compaction)) vs1 = (v, vs)"
    by fastforce
  note after = split_moved [OF moved]
  have h: "v_files v ! 0 = []" "v_files v ! 1 = [1]" "vs_heap vs ! 1 = split_file 6"
    using after by (simp_all add: vs1_def split_set_def VersionSet_new_def)
  have old: "\<exists>st. Version_Get split_cache BytewiseComparator (vs_heap vs) v (make_LookupKey [1] 9) [] =
      Some (fst (get_outcome (Some (7, kTypeValue, [1], [70])) []), st) \<and> g_value st = snd (get_outcome (Some (7, kTypeValue, [1], [70])) [])"
    using split_holds [of 6] split_answers [of "split_file 6"]
    by (intro keys.one_table_lookup [OF h(1,2), of split_tables]) (simp_all add: h(3) [unfolded One_nat_def] split_file_simps split_ops kMaxSequenceNumber_def)
  have "\<forall>l < kNumLevels. \<forall>p \<in> set (v_files split_version ! l). answers split_cache BytewiseComparator (split_files ! p) (split_tables (fm_number (split_files ! p)))"
    by (simp add: split_answers)
  from keys.Get_levels_newest [OF split_lsm this, where key = "[1]" and snap = 9 and ls = "[0..<kNumLevels]"]
  obtain s st r where get: "Version_Get split_cache BytewiseComparator split_files split_version (make_LookupKey [1] 9) [] = Some (s, st)"
      "newest (\<Union>l \<in> {0..<kNumLevels}. level_ops split_tables split_files split_version l) [1] 9 r" "(s, g_value st) = get_outcome r []"
    by (fastforce simp: Version_Get_def user_key_eq internal_key_make kMaxSequenceNumber_def)
  have levels: "{0..<kNumLevels} = {0, 1, 2, 3, 4, 5, 6}" by (auto simp: kNumLevels_def)
  have "(\<Union>l \<in> {0..<kNumLevels}. level_ops split_tables split_files split_version l) = {(9, kTypeValue, [1], [90]), (7, kTypeValue, [1], [70])}"
    unfolding levels level_ops_def by (simp add: split_version_eq) (auto simp: split_files_def split_file_simps split_ops)
  then have "r = Some (9, kTypeValue, [1], [90])" using get(2) by (cases r) (auto simp: newest_def)
  then have new: "s = OK" "g_value st = [90]" using get(3) by (simp_all add: get_outcome_def)
  have picked: "PickCompaction 5242880 BytewiseComparator split_set = Some (Some split_compaction, vs1)" by (simp add: split_picked vs1_def)
  have "\<exists>st. Version_Get split_cache BytewiseComparator (vs_heap vs) v (make_LookupKey [1] 9) [] = Some (OK, st) \<and> g_value st = [70]"
    using old by (simp add: get_outcome_def)
  then show ?thesis using split_lsm outputs_split_key picked move moved get(1) new by blast
qed

end
