(* ===== verification/LdbStoreRead.thy ===== *)
theory LdbStoreRead
  imports LdbWriteProps LdbVersionGet
begin

text \<open>
  \<^verbatim>\<open>DBImpl::Get\<close> over the memtables and the tables of the current version: what the tables have to hold for it to give the newest operation.
\<close>

section \<open>Sets of operations\<close>




section \<open>Get\<close>









end
