(* ===== verification/Spec2Isabelle.thy ===== *)
theory Spec2Isabelle
  imports PbDecodeProps LdbWriteProps LdbWriteErrors LdbBlockProps LdbFilterProps LdbManifest LdbCompactionInputs LdbBoundary LdbStoreRead
begin

text \<open>
  A model of the code under \<^verbatim>\<open>src/\<close> that stores and transmits the data of the shopping list app, with the theorems that make it
  correct.

  \<^bold>\<open>The program.\<close> The app (\<^verbatim>\<open>ShopingListProject/ShopingListProject\<close>, Objective-C) keeps shopping lists in property
  lists and in a Firebase database. The C and C++ code of the repository is what its libraries rest on, under
  \<^verbatim>\<open>ShopingListProject/Pods\<close>: \<^verbatim>\<open>leveldb-library\<close>, the key-value store in which Firebase Database keeps writes that
  are not yet at the server and its cache of what the server sent, and \<^verbatim>\<open>nanopb\<close>, the protocol buffers of the measurement library. These two are
  modelled. The directories named below are relative to them.

  \<^bold>\<open>nanopb.\<close> A message is described by a table of fields and lies in memory as a struct; the encoder walks over the table and the struct and
  writes to a stream, the decoder reads a stream and fills the struct.
    \<^item> \<open>Prelude\<close>, \<open>Bytes\<close>: machine words, calls that report failure as a Boolean, little-endian and base-128 numbers.
    \<^item> \<open>PbTypes\<close> (\<^verbatim>\<open>pb.h\<close>): field types, field tables, memory as a map from addresses to bytes with allocated blocks.
    \<^item> \<open>PbIter\<close> (\<^verbatim>\<open>pb_common.c\<close>): the iterator over the fields of a message.
    \<^item> \<open>PbStream\<close>, \<open>PbPrim\<close>, \<open>PbStreamSpec\<close>, \<open>PbPrimProps\<close> (\<^verbatim>\<open>pb_encode.c\<close>, \<^verbatim>\<open>pb_decode.c\<close>): streams over buffers and callbacks,
      varints, tags, strings; what every primitive writes and that every read inverts the write.
    \<^item> \<open>PbEncode\<close>, \<open>PbEncodeSpec\<close>, \<open>PbEncodeProps\<close> (\<^verbatim>\<open>pb_encode.c\<close>): the encoder; it writes exactly the bytes of a
      specification, a sizing stream counts them, no buffer overruns, and it returns.
    \<^item> \<open>PbDecode\<close>, \<open>PbDecodeSpec\<close>, \<open>PbDecodeSafe\<close>, \<open>PbRoundtrip\<close>, \<open>PbDecodeProps\<close> (\<^verbatim>\<open>pb_decode.c\<close>): the decoder; it inverts the encoder
      on messages of scalar fields, writes only inside the message for every input, and four errors in it are exhibited.
  Submessages and extensions nest: encoder and decoder take fuel for the depth, one unit a level, and \<open>pb_encode_terminates\<close>
  shows that the depth of the description is enough; the loops over the input end because every round takes bytes from the stream.

  \<^bold>\<open>LevelDB.\<close> A write is a batch of operations. It goes to the log and then to the memtable, a skip list of internal
  keys; a full memtable becomes a table, a file of blocks with a filter, and the change of the set of tables is recorded as a version edit. After a
  crash the log is read again. From below to above:
    \<^item> \<open>LdbCoding\<close>, \<open>LdbCrc\<close>, \<open>LdbCrcProps\<close>, \<open>LdbStatus\<close> (\<^verbatim>\<open>util/coding\<close>, \<^verbatim>\<open>util/crc32c\<close>, \<^verbatim>\<open>util/status\<close>): numbers and slices, the checksum,
      which is equal to its definition by polynomial division, and error values.
    \<^item> \<open>LdbKeys\<close> (\<^verbatim>\<open>util/comparator.cc\<close>, \<^verbatim>\<open>db/dbformat\<close>): the contract \<open>comparator\<close>, kept by the byte order, and by the
      order of internal keys over every comparator that keeps it.
    \<^item> \<open>LdbFile\<close> (\<^verbatim>\<open>util/env_posix.cc\<close>): files over C streams that may fail, behind the contracts \<open>reliable_file\<close> and \<open>synced_file\<close>.
    \<^item> \<open>LdbLog\<close>, \<open>LdbLogProps\<close> (\<^verbatim>\<open>db/log_writer.cc\<close>, \<^verbatim>\<open>db/log_reader.cc\<close>): records in blocks; what is read after a crash is a prefix of
      what was written that has every complete record.
    \<^item> \<open>LdbSkip\<close>, \<open>LdbSkipProps\<close>, \<open>LdbMem\<close>, \<open>LdbMemProps\<close> (\<^verbatim>\<open>db/skiplist.h\<close>, \<^verbatim>\<open>db/memtable.cc\<close>): nodes in a store, sorted at every
      level; lookup finds the newest visible version.
    \<^item> \<open>LdbBatch\<close>, \<open>LdbMemTables\<close>, \<open>LdbRecover\<close> (\<^verbatim>\<open>db/write_batch.cc\<close>, \<^verbatim>\<open>DBImpl::RecoverLogFile\<close>, the loop over the logs in \<^verbatim>\<open>DBImpl::Recover\<close>): batches and
      their replay into memtables, of which some go to level 0 and the last may be kept; with any options, the memtables together have the operations of
      the complete batches.
    \<^item> \<open>LdbWrite\<close> (\<^verbatim>\<open>db/db_impl.cc\<close>): \<^verbatim>\<open>Write\<close>, \<^verbatim>\<open>BuildBatchGroup\<close>, \<^verbatim>\<open>MakeRoomForWrite\<close>, \<^verbatim>\<open>Get\<close> and the effects of compactions
      as steps of threads that interleave wherever the code lets go of its mutex: the relation \<open>db_step\<close>. \<open>LdbWriteQueue\<close> has the
      invariant of the queue of writers (one leader, first in first out, nobody sleeps at the head), \<open>LdbWriteData\<close> and \<open>LdbWriteInv\<close>
      that of the data (the operations committed so far are what log and memtables hold), \<open>LdbWriteLive\<close> that every
      write can return, \<open>LdbWriteErrors\<close> what errors do; \<open>LdbWriteProps\<close> draws the conclusions for clients: what a crash leaves of the two logs (\<open>crash_logs\<close>) is enough
      to find every acknowledged write again, and every call can return. A wait on \<^verbatim>\<open>bg_cv_\<close> is a turn of \<open>MakeRoom_turn\<close> that changes nothing, so the
      signals of that condition variable are not part of the model; \<open>DBImpl_Get\<close> is one step, although the code looks into memtables and tables without the mutex.
    \<^item> \<open>LdbBlock\<close> (\<^verbatim>\<open>table/block_builder.cc\<close>, \<^verbatim>\<open>table/block.cc\<close>): blocks with shared key prefixes and restart points. The contract
      between builder and reader is \<open>block_format\<close> (\<open>LdbBlockSpec\<close>); \<open>LdbBlockIter\<close> proves the iterator against it,
      \<open>LdbBlockBuild\<close> shows that the builder keeps it, \<open>LdbBlockProps\<close> concludes that the iterator is a cursor over the entries.
    \<^item> \<open>LdbFilter\<close>, \<open>LdbFilterProps\<close> (\<^verbatim>\<open>util/hash.cc\<close>, \<^verbatim>\<open>util/bloom.cc\<close>, \<^verbatim>\<open>table/filter_block.cc\<close>): filters, behind the contract
      \<open>filter_policy\<close>; they have no false negatives.
    \<^item> \<open>LdbVersionEdit\<close>, \<open>LdbVersionEditProps\<close> (\<^verbatim>\<open>db/version_edit.cc\<close>): records of the manifest and their round trip.
    \<^item> \<open>LdbVersion\<close>, \<open>LdbVersionProps\<close>, \<open>LdbVersionGet\<close> (\<^verbatim>\<open>db/version_set.cc\<close>): the tables of each level, which of them a range
      overlaps, and \<^verbatim>\<open>Version::Get\<close>, which finds the newest operation of all levels. \<open>lsm_ok\<close> is the invariant of the levels that it needs, \<open>answers\<close> the
      contract of the table cache. \<open>LdbStoreRead\<close> puts memtables and tables together for \<^verbatim>\<open>DBImpl::Get\<close>.
    \<^item> \<open>LdbBuilder\<close> (\<^verbatim>\<open>VersionSet::Builder\<close>): a version from a version and edits; many edits at once give what one after the other gives.
    \<^item> \<open>LdbVersionSet\<close>, \<open>LdbVersionSetProps\<close>, \<open>LdbManifest\<close> (\<^verbatim>\<open>LogAndApply\<close>, \<^verbatim>\<open>Recover\<close>): the current version and its manifest. The abstract
      state is a set of tables for each level (\<open>table_set\<close>), an edit changes it by \<open>apply_tables\<close>, and the builder refines that; runs of \<^verbatim>\<open>LogAndApply\<close> (\<open>manifest_run\<close>)
      keep an invariant from which recovery after a crash follows.
    \<^item> \<open>LdbCompaction\<close>, \<open>LdbCompactionProps\<close> (\<^verbatim>\<open>VersionSet::PickCompaction\<close>, \<^verbatim>\<open>DBImpl::DoCompactionWork\<close>): the inputs of a compaction and what is
      kept of their entries; the loop refines \<open>kept_ops\<close>, which changes no lookup.
    \<^item> \<open>LdbCompactionInputs\<close>, \<open>LdbBoundary\<close>: when no user key is in two tables of a level, the inputs that \<^verbatim>\<open>PickCompaction\<close> and
      \<^verbatim>\<open>SetupOtherInputs\<close> choose are those that the previous theorem asks for; when a key is in two tables, they need not be, and a lookup changes.

  \<^bold>\<open>Conventions.\<close> A slice or a pointer pair is the list of its bytes; a pointer into a buffer an offset; objects that the code updates
  in place are records that operations return updated. A failing call returns its status, as in the code; \<open>None\<close> is behaviour the language
  leaves undefined or a loop that does not return, and the properties show that it does not occur. \<^verbatim>\<open>while (true)\<close> is \<open>while_true\<close> of \<open>Loops\<close>,
  whose result is \<open>None\<close> exactly when it runs forever. Integers have the width of the code wherever it can matter; a \<^verbatim>\<open>size_t\<close> that counts
  bytes in memory is a natural number. Assertions, which release builds drop, are hypotheses. The machine is little-endian, with
  64-bit pointers.

  \<^bold>\<open>Not modelled.\<close> The Objective-C code of the app and of Firebase: user interface, network and calls of system frameworks. In nanopb: field
  callbacks other than what they are contracted to do; a stream callback cannot set \<^verbatim>\<open>bytes_left\<close>. In LevelDB: table files around their blocks and filters, the caches, the iterators for
  clients and those that merge tables, the scheduling of compactions and manual ones, repair, the C interface, and the parts of the environment that only call
  the operating system. What the modelled code needs of these is a parameter: the lookup in the tables is an argument of \<open>DBImpl_Get\<close>, a finished
  compaction is a step of \<open>db_step\<close>, \<open>Version_Get\<close> has the table cache as an argument, and \<open>DoCompactionWork\<close> the list that the merging
  iterator returns and the sizes of the tables that it writes. Reference counts and the list of the versions that are alive are not modelled.
\<close>

end
